(* ===== verification/Prelude.thy ===== *)
theory Prelude
  imports Complex_Main
begin

text \<open>
  Shared vocabulary and automation of the development: the collections of rewrite rules that the
  component theories extend, and the facts about lists and options that several of them use.
\<close>

named_theorems f32_eval \<open>evaluation of single-precision operations on whole cells\<close>

subsection \<open>Positions in lists\<close>

text \<open>\<open>iter().position(p)\<close>: the index of the first element that satisfies \<open>p\<close>.\<close>

fun position_of :: "('a \<Rightarrow> bool) \<Rightarrow> 'a list \<Rightarrow> nat option" where
  "position_of p [] = None"
| "position_of p (x # xs) = (if p x then Some 0 else map_option Suc (position_of p xs))"

lemma position_of_Some:
  "position_of p xs = Some i \<Longrightarrow> i < length xs \<and> p (xs ! i)"
  by (induction xs arbitrary: i) (auto split: if_splits)

lemma position_of_Some_first:
  "position_of p xs = Some i \<Longrightarrow> j < i \<Longrightarrow> \<not> p (xs ! j)"
  by (induction xs arbitrary: i j) (auto split: if_splits simp: nth_Cons')

lemma position_of_None [simp]: "position_of p xs = None \<longleftrightarrow> (\<forall>x \<in> set xs. \<not> p x)"
  by (induction xs) auto

subsection \<open>Appending what is missing\<close>

text \<open>
  The loop \<^verbatim>\<open>for id in ids { if !out.contains(id) { out.push(id) } }\<close> and what it computes when the
  appended list has no duplicates of its own.
\<close>

definition push_missing :: "'a list \<Rightarrow> 'a list \<Rightarrow> 'a list" where
  "push_missing ids out = fold (\<lambda>x out. if x \<in> set out then out else out @ [x]) ids out"

lemma push_missing_simps [simp]:
  "push_missing [] out = out"
  "push_missing (x # xs) out = push_missing xs (if x \<in> set out then out else out @ [x])"
  by (simp_all add: push_missing_def)

lemma push_missing_eq:
  "distinct xs \<Longrightarrow> push_missing xs out = out @ filter (\<lambda>x. x \<notin> set out) xs"
  by (induction xs arbitrary: out) (auto intro: filter_cong)

lemma set_push_missing [simp]: "set (push_missing xs out) = set out \<union> set xs"
  by (induction xs arbitrary: out) auto

lemma distinct_push_missing: "distinct out \<Longrightarrow> distinct (push_missing xs out)"
  by (induction xs arbitrary: out) auto

end
