(* ===== verification/F32.thy ===== *)
theory F32
  imports Prelude
begin

text \<open>
  Rust's \<^verbatim>\<open>f32\<close>: IEEE 754 binary32 with round-to-nearest, ties to even, computed exactly on the
  rationals. \<open>rval\<close> rounds a rational to the nearest representable one (subnormals included), \<open>rnd\<close>
  adds overflow to the infinities, and every operation of the instantiation below rounds once.

  The sign of zero is not kept: it can be seen only by dividing by a zero, by \<^verbatim>\<open>total_cmp\<close> or by
  printing, and the modelled code does none of these with a zero that may be negative. NaN payloads
  are not kept either. A value of type \<open>f64\<close> is the same datatype at the other width: the code
  takes 64-bit numbers only as arguments, to compare them or to convert them.

  The lemmas show that rounding is monotone and exact on integers up to \<open>2 ^ 24\<close>, which is what
  lets the layout arithmetic be evaluated on whole cells: the collection \<open>f32_eval\<close>.
\<close>

datatype f32 = NaN | PInf | NInf | Fin rat

type_synonym f64 = f32

function bit_length :: "int \<Rightarrow> nat" where
  "bit_length n = (if n \<le> 0 then 0 else Suc (bit_length (n div 2)))"
  by auto
termination by (relation "measure nat") auto

declare bit_length.simps [simp del]

lemma bit_length_upper: "n < 2 ^ bit_length n"
proof (induction n rule: bit_length.induct)
  case (1 n)
  show ?case
  proof (cases "n \<le> 0")
    case True
    then show ?thesis by (simp add: bit_length.simps)
  next
    case False
    with 1 have "n div 2 < 2 ^ bit_length (n div 2)" by simp
    then have "n < 2 * 2 ^ bit_length (n div 2)" by linarith
    with False show ?thesis by (simp add: bit_length.simps [of n])
  qed
qed

lemma bit_length_lower: "0 < n \<Longrightarrow> 2 ^ (bit_length n - 1) \<le> n"
proof (induction n rule: bit_length.induct)
  case (1 n)
  show ?case
  proof (cases "n div 2 = 0")
    case True
    with 1 show ?thesis by (simp add: bit_length.simps [of n] bit_length.simps [of 0])
  next
    case False
    with 1 have ih: "2 ^ (bit_length (n div 2) - 1) \<le> n div 2" by simp
    have "0 < n div 2" using False 1(2) by linarith
    then have "bit_length (n div 2) > 0" by (simp add: bit_length.simps)
    then have "2 ^ bit_length (n div 2) = 2 * (2::int) ^ (bit_length (n div 2) - 1)"
      by (metis Suc_diff_1 power_Suc)
    with ih 1(2) show ?thesis by (simp add: bit_length.simps [of n]; linarith)
  qed
qed

definition ilog2 :: "rat \<Rightarrow> int" where
  "ilog2 q =
     (let (n, d) = quotient_of q;
          e = int (bit_length n) - int (bit_length d)
      in if 2 powi e \<le> q then e else e - 1)"

lemma ilog2_bounds:
  assumes "0 < q"
  shows "2 powi ilog2 q \<le> q" "q < 2 powi (ilog2 q + 1)"
proof -
  obtain n d where nd: "quotient_of q = (n, d)" by (cases "quotient_of q") auto
  then have d: "d > 0" and q: "q = of_int n / of_int d"
    using quotient_of_denom_pos quotient_of_div by blast+
  with assms have n: "n > 0" by (simp add: zero_less_divide_iff)
  define bn bd where "bn = bit_length n" and "bd = bit_length d"
  have bpos: "bn > 0" "bd > 0"
    using n d by (auto simp: bn_def bd_def bit_length.simps)
  have n1: "n < 2 ^ bn" "2 ^ (bn - 1) \<le> n"
    using bit_length_upper [of n] bit_length_lower [of n] n by (simp_all add: bn_def)
  have d1: "d < 2 ^ bd" "2 ^ (bd - 1) \<le> d"
    using bit_length_upper [of d] bit_length_lower [of d] d by (simp_all add: bd_def)
  have n2: "(of_int n :: rat) < 2 ^ bn" "2 ^ (bn - 1) \<le> (of_int n :: rat)"
    using n1 by (metis of_int_less_iff of_int_numeral of_int_power,
        metis of_int_le_iff of_int_numeral of_int_power)
  have d2: "(of_int d :: rat) < 2 ^ bd" "2 ^ (bd - 1) \<le> (of_int d :: rat)"
    using d1 by (metis of_int_less_iff of_int_numeral of_int_power,
        metis of_int_le_iff of_int_numeral of_int_power)
  let ?e = "int bn - int bd"
  have dpos: "(of_int d :: rat) > 0" using d by simp
  have up: "q < 2 powi (?e + 1)"
  proof -
    have "q < 2 ^ bn / of_int d"
      unfolding q using n2(1) dpos by (rule divide_strict_right_mono)
    also have "\<dots> \<le> 2 ^ bn / 2 ^ (bd - 1)"
      using d2(2) d by (intro divide_left_mono) auto
    also have "\<dots> = 2 powi (?e + 1)"
    proof -
      have e: "?e + 1 = int bn - int (bd - 1)" using bpos by simp
      show ?thesis unfolding e by (subst power_int_diff) simp_all
    qed
    finally show ?thesis .
  qed
  have lo: "2 powi (?e - 1) < q"
  proof -
    have "2 powi (?e - 1) = (2::rat) powi (int (bn - 1) - int bd)" using bpos by (simp add: algebra_simps)
    also have "\<dots> = 2 ^ (bn - 1) / 2 ^ bd" by (subst power_int_diff) simp_all
    also have "\<dots> < 2 ^ (bn - 1) / (of_int d :: rat)"
      using d2(1) d by (intro divide_strict_left_mono) auto
    also have "\<dots> \<le> q" unfolding q using n2(2) d by (intro divide_right_mono) auto
    finally show ?thesis .
  qed
  have il: "ilog2 q = (if 2 powi ?e \<le> q then ?e else ?e - 1)"
    by (simp add: ilog2_def nd bn_def bd_def)
  show "2 powi ilog2 q \<le> q" using lo by (auto simp: il)
  show "q < 2 powi (ilog2 q + 1)" using up by (auto simp: il)
qed


definition round_even :: "rat \<Rightarrow> int" where
  "round_even q =
     (let f = \<lfloor>q\<rfloor>; r = q - of_int f
      in if r < 1 / 2 then f else if 1 / 2 < r then f + 1 else if even f then f else f + 1)"

lemma round_even_of_int [simp]: "round_even (of_int n) = n"
  by (simp add: round_even_def)

lemma round_even_error: "\<bar>of_int (round_even q) - q\<bar> \<le> 1 / 2"
proof -
  have f: "of_int \<lfloor>q\<rfloor> \<le> q" "q < of_int \<lfloor>q\<rfloor> + 1" by linarith+
  show ?thesis using f by (auto simp: round_even_def Let_def abs_le_iff)
qed

lemma round_even_mono:
  assumes "a \<le> b" shows "round_even a \<le> round_even b"
proof (cases "\<lfloor>a\<rfloor> = \<lfloor>b\<rfloor>")
  case True
  with assms show ?thesis by (auto simp: round_even_def Let_def)
next
  case False
  with assms have lt: "\<lfloor>a\<rfloor> + 1 \<le> \<lfloor>b\<rfloor>" using floor_mono [OF assms] by simp
  have "round_even a \<le> \<lfloor>a\<rfloor> + 1" "\<lfloor>b\<rfloor> \<le> round_even b"
    by (auto simp: round_even_def Let_def)
  with lt show ?thesis by simp
qed

lemma round_even_uminus: "round_even (- q) = - round_even q"
proof (cases "q = of_int \<lfloor>q\<rfloor>")
  case True
  then have "round_even (- q) = round_even (of_int (- \<lfloor>q\<rfloor>))" by simp
  also have "\<dots> = - \<lfloor>q\<rfloor>" by (rule round_even_of_int)
  also have "\<lfloor>q\<rfloor> = round_even q" using True round_even_of_int [of "\<lfloor>q\<rfloor>"] by simp
  finally show ?thesis .
next
  case False
  then have lt: "of_int \<lfloor>q\<rfloor> < q" by (simp add: order_less_le eq_commute)
  then have fl: "\<lfloor>- q\<rfloor> = - \<lfloor>q\<rfloor> - 1"
    by (intro floor_unique) (simp_all, linarith)
  show ?thesis using lt
    by (auto simp: round_even_def fl Let_def field_simps)
qed

definition scale :: "rat \<Rightarrow> int" where
  "scale q = max (ilog2 \<bar>q\<bar>) (-126)"

definition ulp :: "rat \<Rightarrow> rat" where
  "ulp q = 2 powi (scale q - 23)"

definition rval :: "rat \<Rightarrow> rat" where
  "rval q = (if q = 0 then 0 else of_int (round_even (q / ulp q)) * ulp q)"

lemma ulp_pos [simp]: "0 < ulp q"
  by (simp add: ulp_def)

lemma ulp_nonneg [simp]: "0 \<le> ulp q"
  by (simp add: ulp_def)

lemma ulp_nonzero [simp]: "ulp q \<noteq> 0"
  using ulp_pos [of q] by linarith

lemma ulp_uminus [simp]: "ulp (- q) = ulp q"
  by (simp add: ulp_def scale_def)

lemma rval_0 [simp]: "rval 0 = 0"
  by (simp add: rval_def)

lemma rval_uminus: "rval (- q) = - rval q"
  using round_even_uminus [of "q / ulp q"] by (simp add: rval_def)

lemma rval_error: "\<bar>rval q - q\<bar> \<le> ulp q / 2"
proof (cases "q = 0")
  case False
  have "\<bar>rval q - q\<bar> = \<bar>of_int (round_even (q / ulp q)) - q / ulp q\<bar> * ulp q"
  proof -
    have "rval q - q = (of_int (round_even (q / ulp q)) - q / ulp q) * ulp q"
      using False by (simp add: rval_def left_diff_distrib)
    then show ?thesis by (simp add: abs_mult less_imp_le)
  qed
  also have "\<dots> \<le> 1 / 2 * ulp q"
    using round_even_error by (intro mult_right_mono) (auto simp: less_imp_le)
  finally show ?thesis by simp
qed simp

lemma lt_scale: "q \<noteq> 0 \<Longrightarrow> \<bar>q\<bar> < 2 powi (scale q + 1)"
proof -
  assume "q \<noteq> 0"
  then have "\<bar>q\<bar> < 2 powi (ilog2 \<bar>q\<bar> + 1)" by (intro ilog2_bounds) simp
  also have "\<dots> \<le> 2 powi (scale q + 1)"
    by (intro power_int_increasing) (auto simp: scale_def)
  finally show ?thesis .
qed

lemma scale_le: "q \<noteq> 0 \<Longrightarrow> -126 < scale q \<Longrightarrow> 2 powi scale q \<le> \<bar>q\<bar>"
  using ilog2_bounds(1) [of "\<bar>q\<bar>"] by (auto simp: scale_def max_def split: if_splits)

lemma scale_mono:
  assumes "0 < a" "a \<le> b" shows "scale a \<le> scale b"
proof -
  have "ilog2 a \<le> ilog2 b"
  proof (rule ccontr)
    assume "\<not> ?thesis"
    then have "ilog2 b + 1 \<le> ilog2 a" by simp
    then have "2 powi (ilog2 b + 1) \<le> (2 :: rat) powi ilog2 a" by (intro power_int_increasing) auto
    with ilog2_bounds [of a] ilog2_bounds [of b] assms show False by linarith
  qed
  with assms show ?thesis by (auto simp: scale_def)
qed

text \<open>A value whose significand fits in 24 bits is not changed by rounding.\<close>

lemma rval_exact:
  assumes q: "q = of_int m * 2 powi k" and m: "\<bar>m\<bar> \<le> 2 ^ 24" and k: "-149 \<le> k"
  shows "rval q = q"
proof (cases "q = 0")
  case False
  have int: "\<exists>n. q / ulp q = of_int n"
  proof (cases "scale q - 23 \<le> k")
    case True
    have "q / ulp q = of_int m * 2 powi (k - (scale q - 23))"
      unfolding q ulp_def by (simp add: power_int_diff)
    also have "\<dots> = of_int (m * 2 ^ nat (k - (scale q - 23)))"
      using True by (simp add: power_int_def)
    finally show ?thesis by blast
  next
    case below: False
    then have s: "-126 < scale q" using k by simp
    have "2 powi (k + 24) \<le> (2::rat) powi scale q" using below by (intro power_int_increasing) auto
    also have "\<dots> \<le> \<bar>q\<bar>" using False s by (rule scale_le)
    also have "\<dots> = of_int \<bar>m\<bar> * 2 powi k" by (simp add: q abs_mult)
    finally have "2 ^ 24 * 2 powi k \<le> of_int \<bar>m\<bar> * (2::rat) powi k"
      by (simp add: power_int_add)
    then have "2 ^ 24 \<le> (of_int \<bar>m\<bar> :: rat)" by (simp del: of_int_abs)
    then have "(2 ^ 24 :: int) \<le> \<bar>m\<bar>"
      by (metis of_int_le_iff of_int_numeral of_int_power)
    then have m24: "\<bar>m\<bar> = 2 ^ 24" using m by linarith
    have absq: "\<bar>q\<bar> = 2 powi (k + 24)" by (simp add: q abs_mult m24 power_int_add del: of_int_abs flip: of_int_abs)
    have "scale q < k + 25"
    proof (rule ccontr)
      assume "\<not> ?thesis"
      then have "2 powi (k + 25) \<le> (2::rat) powi scale q" by (intro power_int_increasing) auto
      with scale_le [OF False s] absq have "2 powi (k + 25) \<le> (2::rat) powi (k + 24)" by simp
      then show False by (simp add: power_int_add)
    qed
    with below have sc: "scale q = k + 24" by simp
    have "ulp q = 2 powi (k + 1)" unfolding ulp_def sc by (rule arg_cong [where f = "\<lambda>e. 2 powi e"]) simp
    then have "ulp q = 2 powi k * 2" by (simp add: power_int_add_1)
    then have "q / ulp q = of_int m * 2 powi (- 1)"
      by (simp add: q power_int_minus)
    also have "\<dots> = of_int (m div 2)"
    proof -
      have "m = 2 ^ 24 \<or> m = - (2 ^ 24)" using m24 by linarith
      then show ?thesis by (auto simp: power_int_minus)
    qed
    finally show ?thesis by blast
  qed
  then obtain n where "q / ulp q = of_int n" "q = of_int n * ulp q"
    by (metis nonzero_divide_eq_eq ulp_nonzero)
  then show ?thesis by (simp add: rval_def)
qed simp


lemma round_even_between:
  "of_int a \<le> q \<Longrightarrow> a \<le> round_even q" "q \<le> of_int b \<Longrightarrow> round_even q \<le> b"
  using round_even_mono [of "of_int a" q] round_even_mono [of q "of_int b"] by simp_all

lemma ulp_scale: "2 ^ 24 * ulp q = 2 powi (scale q + 1)" "2 ^ 23 * ulp q = 2 powi scale q"
proof -
  have "2 powi (scale q + 1) = (2::rat) powi (24 + (scale q - 23))"
    by (rule arg_cong [where f = "\<lambda>e. 2 powi e"]) simp
  also have "\<dots> = 2 ^ 24 * 2 powi (scale q - 23)"
    by (subst power_int_add) simp_all
  finally show "2 ^ 24 * ulp q = 2 powi (scale q + 1)" by (simp add: ulp_def)
  have "2 powi scale q = (2::rat) powi (23 + (scale q - 23))"
    by (rule arg_cong [where f = "\<lambda>e. 2 powi e"]) simp
  also have "\<dots> = 2 ^ 23 * 2 powi (scale q - 23)"
    by (subst power_int_add) simp_all
  finally show "2 ^ 23 * ulp q = 2 powi scale q" by (simp add: ulp_def)
qed

text \<open>The significand of a rounded value fits in 24 bits.\<close>

lemma significand_bound: "\<bar>round_even (q / ulp q)\<bar> \<le> 2 ^ 24"
proof (cases "q = 0")
  case False
  have "\<bar>q\<bar> \<le> 2 ^ 24 * ulp q" using lt_scale [OF False] ulp_scale(1) [of q] by simp
  then have "q \<le> 2 ^ 24 * ulp q" "- (2 ^ 24) * ulp q \<le> q" by linarith+
  then have "q / ulp q \<le> of_int (2 ^ 24)" "of_int (- (2 ^ 24)) \<le> q / ulp q"
    by (simp_all add: divide_le_eq le_divide_eq)
  then have "round_even (q / ulp q) \<le> 2 ^ 24" "- (2 ^ 24) \<le> round_even (q / ulp q)"
    by (blast intro: round_even_between)+
  then show ?thesis by simp
qed (simp add: round_even_def)

lemma rval_idem [simp]: "rval (rval q) = rval q"
proof (cases "q = 0")
  case False
  show ?thesis
    by (rule rval_exact [of _ "round_even (q / ulp q)" "scale q - 23"])
      (use False significand_bound [of q] in \<open>auto simp: rval_def ulp_def scale_def\<close>)
qed simp

lemma rval_mono_pos:
  assumes "0 < a" "a \<le> b" shows "rval a \<le> rval b"
proof (cases "scale a = scale b")
  case True
  then have "ulp a = ulp b" by (simp add: ulp_def)
  moreover have "round_even (a / ulp b) \<le> round_even (b / ulp b)"
    using assms by (intro round_even_mono divide_right_mono) (auto simp: less_imp_le)
  ultimately show ?thesis using assms by (auto simp: rval_def mult_right_mono less_imp_le)
next
  case False
  then have lt: "scale a + 1 \<le> scale b" using scale_mono [OF assms] by simp
  have b: "b \<noteq> 0" "a \<noteq> 0" using assms by auto
  have "rval a \<le> 2 ^ 24 * ulp a"
  proof -
    have "round_even (a / ulp a) \<le> 2 ^ 24" using significand_bound [of a] by simp
    then have "(of_int (round_even (a / ulp a)) :: rat) \<le> 2 ^ 24"
      by (metis of_int_le_iff of_int_numeral of_int_power)
    then show ?thesis using b by (simp add: rval_def mult_right_mono less_imp_le)
  qed
  also have "\<dots> = 2 powi (scale a + 1)" by (rule ulp_scale)
  also have "\<dots> \<le> 2 powi scale b" using lt by (intro power_int_increasing) auto
  also have "\<dots> = 2 ^ 23 * ulp b" by (rule ulp_scale [symmetric])
  also have "\<dots> \<le> rval b"
  proof -
    have "-126 < scale b" using lt by (auto simp: scale_def)
    then have "2 powi scale b \<le> b" using scale_le [OF b(1)] assms by simp
    then have "of_int (2 ^ 23) \<le> b / ulp b" using ulp_scale(2) [of b] by (simp add: le_divide_eq)
    then have "2 ^ 23 \<le> round_even (b / ulp b)" by (rule round_even_between)
    then have "2 ^ 23 \<le> (of_int (round_even (b / ulp b)) :: rat)"
      by (metis of_int_le_iff of_int_numeral of_int_power)
    then show ?thesis using b by (simp add: rval_def mult_right_mono less_imp_le)
  qed
  finally show ?thesis .
qed

lemma rval_nonneg: "0 \<le> q \<Longrightarrow> 0 \<le> rval q"
  using round_even_between(1) [of 0 "q / ulp q"]
  by (simp add: rval_def less_imp_le)

lemma rval_mono: "a \<le> b \<Longrightarrow> rval a \<le> rval b"
proof -
  assume ab: "a \<le> b"
  consider "0 < a" | "b < 0" | "a \<le> 0" "0 \<le> b" using ab by linarith
  then show ?thesis
  proof cases
    case 1
    then show ?thesis using ab by (rule rval_mono_pos)
  next
    case 2
    then have "rval (- b) \<le> rval (- a)" using ab by (intro rval_mono_pos) auto
    then show ?thesis by (simp add: rval_uminus)
  next
    case 3
    then have "0 \<le> rval (- a)" "0 \<le> rval b" using rval_nonneg by simp_all
    then show ?thesis by (simp add: rval_uminus)
  qed
qed

lemma rval_of_int: "\<bar>n\<bar> \<le> 2 ^ 24 \<Longrightarrow> rval (of_int n) = of_int n"
  by (rule rval_exact [of _ n 0]) auto


lemma rval_rel_error:
  assumes "2 powi (-126) \<le> \<bar>q\<bar>" shows "\<bar>rval q - q\<bar> \<le> \<bar>q\<bar> / 2 ^ 24"
proof -
  have q: "q \<noteq> 0" using assms by auto
  have "2 powi scale q \<le> \<bar>q\<bar>"
    using assms ilog2_bounds(1) [of "\<bar>q\<bar>"] q by (auto simp: scale_def max_def)
  then have "ulp q \<le> \<bar>q\<bar> / 2 ^ 23" using ulp_scale(2) [of q] by (simp add: field_simps)
  with rval_error [of q] show ?thesis by simp
qed

text \<open>The quotient of two small whole numbers never rounds up to the next whole number.\<close>

lemma floor_rval_div:
  fixes a b :: int
  assumes "0 \<le> a" "a < 2 ^ 24" "0 < b" "b \<le> 2 ^ 24"
  shows "\<lfloor>rval (of_int a / of_int b)\<rfloor> = a div b"
proof (rule floor_unique)
  let ?q = "of_int a / of_int b :: rat"
  have md: "a div b * b + a mod b = a" "a mod b < b" "0 \<le> a mod b" using assms by simp_all
  then have ab: "a div b * b \<le> a" "a + 1 \<le> (a div b + 1) * b"
    by (simp_all only: distrib_right)
  have small: "\<bar>a div b\<bar> \<le> 2 ^ 24" 
    using assms zdiv_mono2 [of a 1 b] by (simp add: pos_imp_zdiv_nonneg_iff)
  have "of_int (a div b) * of_int b \<le> (of_int a :: rat)"
    using ab(1) by (metis of_int_le_iff of_int_mult)
  then have "of_int (a div b) \<le> ?q" using assms by (simp add: le_divide_eq)
  then show "of_int (a div b) \<le> rval ?q" using rval_mono rval_of_int [OF small] by fastforce
  show "rval ?q < of_int (a div b) + 1"
  proof (cases "a = 0")
    case False
    then have a: "0 < a" using assms by simp
    have "of_int a + 1 \<le> (of_int (a div b) + 1) * (of_int b :: rat)"
      using ab(2) by (metis of_int_le_iff of_int_mult of_int_1 of_int_add)
    then have gap: "?q + 1 / of_int b \<le> of_int (a div b) + 1"
      using assms by (simp add: field_simps)
    have "2 powi (-126) \<le> (1 / 2 ^ 24 :: rat)" by (simp add: power_int_minus)
    also have "\<dots> \<le> 1 / of_int b" 
    proof -
      have "(of_int b :: rat) \<le> 2 ^ 24" using assms by (metis of_int_le_iff of_int_numeral of_int_power)
      then show ?thesis using assms by (intro divide_left_mono) auto
    qed
    also have "\<dots> \<le> ?q" using a assms by (simp add: divide_right_mono)
    finally have "\<bar>rval ?q - ?q\<bar> \<le> ?q / 2 ^ 24" using rval_rel_error [of ?q] a assms by simp
    also have "\<dots> < 1 / of_int b"
    proof -
      have "(of_int a :: rat) < 2 ^ 24" using assms by (metis of_int_less_iff of_int_numeral of_int_power)
      then show ?thesis using assms by (simp add: field_simps)
    qed
    finally show ?thesis using gap by linarith
  qed simp
qed

definition rnd :: "rat \<Rightarrow> f32" where
  "rnd q =
     (let v = rval q in if 2 ^ 128 \<le> v then PInf else if v \<le> - (2 ^ 128) then NInf else Fin v)"


lemma rnd_small: "\<bar>rval q\<bar> < 2 ^ 128 \<Longrightarrow> rnd q = Fin (rval q)"
  by (auto simp: rnd_def Let_def)

instantiation f32 :: "{zero, one, plus, uminus, minus, times, inverse, ord}"
begin

definition zero_f32 :: f32 where "zero_f32 = Fin 0"

definition one_f32 :: f32 where "one_f32 = Fin 1"

fun plus_f32 :: "f32 \<Rightarrow> f32 \<Rightarrow> f32" where
  "plus_f32 NaN _ = NaN"
| "plus_f32 _ NaN = NaN"
| "plus_f32 PInf NInf = NaN"
| "plus_f32 NInf PInf = NaN"
| "plus_f32 PInf _ = PInf"
| "plus_f32 _ PInf = PInf"
| "plus_f32 NInf _ = NInf"
| "plus_f32 _ NInf = NInf"
| "plus_f32 (Fin a) (Fin b) = rnd (a + b)"

fun uminus_f32 :: "f32 \<Rightarrow> f32" where
  "uminus_f32 NaN = NaN"
| "uminus_f32 PInf = NInf"
| "uminus_f32 NInf = PInf"
| "uminus_f32 (Fin a) = Fin (- a)"

definition minus_f32 :: "f32 \<Rightarrow> f32 \<Rightarrow> f32" where
  "minus_f32 a b = a + (- b)"

fun inf_times :: "rat \<Rightarrow> f32" where
  "inf_times s = (if s = 0 then NaN else if 0 < s then PInf else NInf)"

fun times_f32 :: "f32 \<Rightarrow> f32 \<Rightarrow> f32" where
  "times_f32 NaN _ = NaN"
| "times_f32 _ NaN = NaN"
| "times_f32 PInf PInf = PInf"
| "times_f32 PInf NInf = NInf"
| "times_f32 NInf PInf = NInf"
| "times_f32 NInf NInf = PInf"
| "times_f32 PInf (Fin b) = inf_times b"
| "times_f32 NInf (Fin b) = inf_times (- b)"
| "times_f32 (Fin a) PInf = inf_times a"
| "times_f32 (Fin a) NInf = inf_times (- a)"
| "times_f32 (Fin a) (Fin b) = rnd (a * b)"

fun divide_f32 :: "f32 \<Rightarrow> f32 \<Rightarrow> f32" where
  "divide_f32 NaN _ = NaN"
| "divide_f32 _ NaN = NaN"
| "divide_f32 (Fin a) (Fin b) = (if b = 0 then inf_times a else rnd (a / b))"
| "divide_f32 PInf (Fin b) = (if 0 \<le> b then PInf else NInf)"
| "divide_f32 NInf (Fin b) = (if 0 \<le> b then NInf else PInf)"
| "divide_f32 (Fin a) _ = Fin 0"
| "divide_f32 _ _ = NaN"

definition inverse_f32 :: "f32 \<Rightarrow> f32" where
  "inverse_f32 a = Fin 1 div a"

fun less_eq_f32 :: "f32 \<Rightarrow> f32 \<Rightarrow> bool" where
  "less_eq_f32 NaN _ = False"
| "less_eq_f32 _ NaN = False"
| "less_eq_f32 NInf _ = True"
| "less_eq_f32 _ PInf = True"
| "less_eq_f32 PInf _ = False"
| "less_eq_f32 _ NInf = False"
| "less_eq_f32 (Fin a) (Fin b) = (a \<le> b)"

definition less_f32 :: "f32 \<Rightarrow> f32 \<Rightarrow> bool" where
  "less_f32 a b = (a \<le> b \<and> \<not> b \<le> a)"

instance ..

end

definition f32_eq :: "f32 \<Rightarrow> f32 \<Rightarrow> bool" where
  "f32_eq a b = (a = b \<and> a \<noteq> NaN)"

definition is_finite :: "f32 \<Rightarrow> bool" where
  "is_finite a = (case a of Fin _ \<Rightarrow> True | _ \<Rightarrow> False)"

definition f32_min :: "f32 \<Rightarrow> f32 \<Rightarrow> f32" where
  "f32_min a b = (if a = NaN then b else if b = NaN then a else if a \<le> b then a else b)"

definition f32_max :: "f32 \<Rightarrow> f32 \<Rightarrow> f32" where
  "f32_max a b = (if a = NaN then b else if b = NaN then a else if b \<le> a then a else b)"

definition f32_clamp :: "f32 \<Rightarrow> f32 \<Rightarrow> f32 \<Rightarrow> f32" where
  "f32_clamp x lo hi = (if x < lo then lo else if hi < x then hi else x)"

definition clamp_checked :: "f32 \<Rightarrow> f32 \<Rightarrow> f32 \<Rightarrow> f32 option" where
  "clamp_checked x lo hi = (if lo \<le> hi then Some (f32_clamp x lo hi) else None)"

fun f32_map :: "(rat \<Rightarrow> rat) \<Rightarrow> f32 \<Rightarrow> f32" where
  "f32_map f (Fin a) = Fin (f a)"
| "f32_map f a = a"

definition round_away :: "rat \<Rightarrow> int" where
  "round_away q = (if 0 \<le> q then \<lfloor>q + 1 / 2\<rfloor> else - \<lfloor>1 / 2 - q\<rfloor>)"

definition f32_floor :: "f32 \<Rightarrow> f32" where
  "f32_floor = f32_map (\<lambda>q. of_int \<lfloor>q\<rfloor>)"

definition f32_ceil :: "f32 \<Rightarrow> f32" where
  "f32_ceil = f32_map (\<lambda>q. of_int \<lceil>q\<rceil>)"

definition f32_round :: "f32 \<Rightarrow> f32" where
  "f32_round = f32_map (\<lambda>q. of_int (round_away q))"

fun f32_abs :: "f32 \<Rightarrow> f32" where
  "f32_abs NInf = PInf"
| "f32_abs (Fin a) = Fin \<bar>a\<bar>"
| "f32_abs a = a"

text \<open>\<open>as usize\<close>: truncation towards zero, saturating at the ends of the 64-bit type.\<close>

fun f32_to_usize :: "f32 \<Rightarrow> nat" where
  "f32_to_usize NaN = 0"
| "f32_to_usize NInf = 0"
| "f32_to_usize PInf = 2 ^ 64 - 1"
| "f32_to_usize (Fin a) = min (nat \<lfloor>a\<rfloor>) (2 ^ 64 - 1)"

definition f32_of_nat :: "nat \<Rightarrow> f32" where
  "f32_of_nat n = rnd (of_nat n)"


subsection \<open>Rewriting on finite values and on whole cells\<close>

lemma less_f32_simps [simp]:
  "Fin a < Fin b \<longleftrightarrow> a < b" "\<not> NaN < x" "\<not> x < NaN" "Fin a < PInf" "\<not> PInf < Fin a"
  "NInf < Fin a" "\<not> Fin a < NInf" "NInf < PInf" "\<not> PInf < NInf" "\<not> PInf < PInf" "\<not> NInf < NInf"
  by (cases x; auto simp: less_f32_def)+

lemma le_f32_refl [simp]: "x \<le> x \<longleftrightarrow> x \<noteq> (NaN :: f32)"
  by (cases x) auto

lemma zero_f32_Fin: "(0 :: f32) = Fin 0" and one_f32_Fin: "(1 :: f32) = Fin 1"
  by (simp_all add: zero_f32_def one_f32_def)

lemma is_finite_simps [simp]:
  "is_finite (Fin a)" "\<not> is_finite NaN" "\<not> is_finite PInf" "\<not> is_finite NInf"
  by (simp_all add: is_finite_def)

lemma is_finite_iff: "is_finite a \<longleftrightarrow> (\<exists>q. a = Fin q)"
  by (cases a) auto

lemma f32_min_Fin [simp]: "f32_min (Fin a) (Fin b) = Fin (min a b)"
  and f32_max_Fin [simp]: "f32_max (Fin a) (Fin b) = Fin (max a b)"
  by (auto simp: f32_min_def f32_max_def)

lemma f32_clamp_Fin [simp]: "lo \<le> hi \<Longrightarrow> f32_clamp (Fin x) (Fin lo) (Fin hi) = Fin (max lo (min hi x))"
  by (auto simp: f32_clamp_def)

lemma clamp_checked_Fin [simp]:
  "lo \<le> hi \<Longrightarrow> clamp_checked (Fin x) (Fin lo) (Fin hi) = Some (Fin (max lo (min hi x)))"
  by (simp add: clamp_checked_def)

lemma f32_map_ops [simp]:
  "f32_floor (Fin q) = Fin (of_int \<lfloor>q\<rfloor>)"
  "f32_ceil (Fin q) = Fin (of_int \<lceil>q\<rceil>)"
  "f32_round (Fin q) = Fin (of_int (round_away q))"
  by (simp_all add: f32_floor_def f32_ceil_def f32_round_def)

lemma minus_Fin [simp]: "Fin a - Fin b = rnd (a - b)"
  by (simp add: minus_f32_def)

lemma rnd_of_int [f32_eval]: "\<bar>n\<bar> \<le> 2 ^ 24 \<Longrightarrow> rnd (of_int n) = Fin (of_int n)"
proof -
  assume n: "\<bar>n\<bar> \<le> 2 ^ 24"
  then have "\<bar>of_int n :: rat\<bar> \<le> 2 ^ 24"
    by (metis of_int_abs of_int_le_iff of_int_numeral of_int_power)
  then show ?thesis using rval_of_int [OF n] by (intro trans [OF rnd_small]) simp_all
qed

abbreviation whole :: "int \<Rightarrow> f32" where
  "whole n \<equiv> Fin (of_int n)"

lemma whole_arith [f32_eval]:
  "\<bar>a + b\<bar> \<le> 2 ^ 24 \<Longrightarrow> whole a + whole b = whole (a + b)"
  "\<bar>a - b\<bar> \<le> 2 ^ 24 \<Longrightarrow> whole a - whole b = whole (a - b)"
  "\<bar>a * b\<bar> \<le> 2 ^ 24 \<Longrightarrow> whole a * whole b = whole (a * b)"
  using rnd_of_int [of "a + b"] rnd_of_int [of "a - b"] rnd_of_int [of "a * b"] by simp_all

lemma whole_minmax [f32_eval]:
  "f32_min (whole a) (whole b) = whole (min a b)"
  "f32_max (whole a) (whole b) = whole (max a b)"
  by (simp_all add: min_def max_def)

lemma rnd_between:
  assumes "of_int m \<le> q" "q \<le> of_int n" "\<bar>m\<bar> \<le> 2 ^ 24" "\<bar>n\<bar> \<le> 2 ^ 24"
  shows "\<exists>r. rnd q = Fin r \<and> of_int m \<le> r \<and> r \<le> of_int n"
proof -
  have r: "of_int m \<le> rval q" "rval q \<le> of_int n"
    using rval_mono [OF assms(1)] rval_mono [OF assms(2)] assms(3,4) by (simp_all add: rval_of_int)
  have "- (2 ^ 24) \<le> (of_int m :: rat)" "(of_int n :: rat) \<le> 2 ^ 24"
    using assms(3,4) by (metis abs_le_iff minus_le_iff of_int_le_iff of_int_minus of_int_numeral of_int_power,
        metis abs_le_D1 of_int_le_iff of_int_numeral of_int_power)
  with r have "\<bar>rval q\<bar> < 2 ^ 128" by (simp add: abs_less_iff)
  with r show ?thesis by (simp add: rnd_small)
qed

lemma floor_whole_div [f32_eval]:
  assumes "0 \<le> a" "a < 2 ^ 24" "0 < b" "b \<le> 2 ^ 24"
  shows "f32_floor (whole a div whole b) = whole (a div b)"
proof -
  have "(0::rat) \<le> of_int a / of_int b" "of_int a / of_int b \<le> (of_int a :: rat)"
    using assms by (simp_all add: divide_le_eq) (metis mult_left_mono mult.right_neutral of_int_1_le_iff of_int_nonneg zless_imp_add1_zle add_0)
  then obtain r where r: "rnd (of_int a / of_int b) = Fin r"
    using rnd_between [of 0 "of_int a / of_int b" a] assms by auto
  then have "rval (of_int a / of_int b) = r"
    by (simp add: rnd_def Let_def split: if_splits)
  with r floor_rval_div [OF assms] assms show ?thesis by simp
qed

lemma round_away_of_int [simp]: "round_away (of_int n) = n"
proof -
  have "\<lfloor>of_int n + 1 / 2 :: rat\<rfloor> = n" "\<lfloor>1 / 2 - of_int n :: rat\<rfloor> = - n"
    by (rule floor_unique; simp)+
  then show ?thesis by (simp add: round_away_def)
qed

lemma round_away_mono: "a \<le> b \<Longrightarrow> round_away a \<le> round_away b"
proof -
  assume ab: "a \<le> b"
  show ?thesis
  proof (cases "0 \<le> a \<or> b < 0")
    case True
    with ab show ?thesis by (auto simp: round_away_def intro: floor_mono)
  next
    case False
    then have "round_away a = - \<lfloor>1 / 2 - a\<rfloor>" "round_away b = \<lfloor>b + 1 / 2\<rfloor>"
      by (simp_all add: round_away_def)
    with False show ?thesis by linarith
  qed
qed

lemma round_away_between:
  "of_int m \<le> q \<Longrightarrow> m \<le> round_away q" "q \<le> of_int n \<Longrightarrow> round_away q \<le> n"
  using round_away_mono [of "of_int m" q] round_away_mono [of q "of_int n"] by simp_all

subsection \<open>Square roots\<close>

text \<open>The integer square root, four bits of the argument at a time.\<close>

fun isqrt :: "nat \<Rightarrow> nat" where
  "isqrt n = (if n = 0 then 0 else
     let r = 2 * isqrt (n div 4) in if (r + 1) * (r + 1) \<le> n then r + 1 else r)"

declare isqrt.simps [simp del]

lemma isqrt_bounds: "isqrt n * isqrt n \<le> n \<and> n < (isqrt n + 1) * (isqrt n + 1)"
proof (induction n rule: isqrt.induct)
  case (1 n)
  show ?case
  proof (cases "n = 0")
    case True
    then show ?thesis by (simp add: isqrt.simps [of 0])
  next
    case False
    define s where "s = isqrt (n div 4)"
    have s: "s * s \<le> n div 4" "n div 4 < (s + 1) * (s + 1)"
      using 1 False by (auto simp: s_def)
    then have "4 * (s * s) \<le> n" "n < 4 * ((s + 1) * (s + 1))"
      by linarith+
    then have "(2 * s) * (2 * s) \<le> n" "n < (2 * s + 1 + 1) * (2 * s + 1 + 1)"
      by (simp_all add: algebra_simps)
    moreover have "isqrt n = (if (2 * s + 1) * (2 * s + 1) \<le> n then 2 * s + 1 else 2 * s)"
      using False by (subst isqrt.simps) (simp add: s_def Let_def)
    ultimately show ?thesis by simp
  qed
qed

lemma square_le_iff: "(a::nat) * a \<le> b * b \<longleftrightarrow> a \<le> b"
proof
  assume "a * a \<le> b * b"
  then show "a \<le> b" using mult_strict_mono' [of b a b a] by (meson not_le zero_le)
qed (rule mult_le_mono)

lemma square_less_iff: "(a::nat) * a < b * b \<longleftrightarrow> a < b"
  using square_le_iff [of b a] by (meson not_le)

lemma isqrt_unique: "r * r \<le> n \<Longrightarrow> n < (r + 1) * (r + 1) \<Longrightarrow> isqrt n = r"
proof -
  assume r: "r * r \<le> n" "n < (r + 1) * (r + 1)"
  have "isqrt n < r + 1" "r < isqrt n + 1"
    using r isqrt_bounds [of n] by (meson le_less_trans mult_le_mono not_le)+
  then show ?thesis by simp
qed

text \<open>
  The square root of a positive number, rounded to 24 significant bits. Half-way cases do not occur:
  the square of a 25-bit odd significand has more than 24 bits.
\<close>

definition sqrt_val :: "rat \<Rightarrow> rat" where
  "sqrt_val q =
     (let u = 2 powi (ilog2 q div 2 - 23);
          a = q / (u * u);
          m = int (isqrt (nat \<lfloor>a\<rfloor>))
      in of_int (if (of_int m + 1 / 2) * (of_int m + 1 / 2) < a then m + 1 else m) * u)"

fun f32_sqrt :: "f32 \<Rightarrow> f32" where
  "f32_sqrt NaN = NaN"
| "f32_sqrt NInf = NaN"
| "f32_sqrt PInf = PInf"
| "f32_sqrt (Fin q) = (if q < 0 then NaN else if q = 0 then Fin 0 else Fin (sqrt_val q))"

lemma ilog2_of_nat: "2 ^ s \<le> n \<Longrightarrow> n < 2 ^ (s + 1) \<Longrightarrow> ilog2 (of_nat n) = int s"
proof -
  assume n: "2 ^ s \<le> n" "n < 2 ^ (s + 1)"
  have n0: "0 < (of_nat n :: rat)" using n(1) by (cases n) auto
  have lo: "(2::rat) powi int s \<le> of_nat n"
  proof -
    have "(2::rat) powi int s = of_nat (2 ^ s)" by simp
    then show ?thesis using n(1) by (metis of_nat_le_iff)
  qed
  have hi: "of_nat n < (2::rat) powi (int s + 1)"
  proof -
    have "(2::rat) powi (int s + 1) = of_nat (2 ^ (s + 1))"
      by (simp add: power_int_add)
    then show ?thesis using n(2) by (metis of_nat_less_iff)
  qed
  have "(2::rat) powi ilog2 (of_nat n) < 2 powi (int s + 1)"
    using ilog2_bounds(1) [OF n0] hi by linarith
  moreover have "(2::rat) powi int s < 2 powi (ilog2 (of_nat n) + 1)"
    using ilog2_bounds(2) [OF n0] lo by linarith
  ultimately have "ilog2 (of_nat n) < int s + 1" "int s < ilog2 (of_nat n) + 1"
    using power_int_increasing [of _ _ "2::rat"] by (metis not_le one_le_numeral)+
  then show ?thesis by simp
qed

text \<open>
  For a count of at most \<open>2 ^ 22\<close>, \<^verbatim>\<open>(n as f32).sqrt().ceil()\<close> is the exact ceiling: the rounded root
  neither reaches down to the integer below nor climbs past the integer above.
\<close>

lemma sqrt_val_scaled:
  assumes "0 < n" "n \<le> 2 ^ 22"
  shows "\<exists>N r :: nat. 2 ^ 12 \<le> N \<and> sqrt_val (of_nat n) = of_nat r / of_nat N \<and>
    (r = isqrt (n * (N * N)) \<or>
     r = isqrt (n * (N * N)) + 1 \<and> isqrt (n * (N * N)) * isqrt (n * (N * N)) < n * (N * N))"
proof -
  define e where "e = bit_length (int n) - 1"
  have "2 ^ e \<le> int n" "int n < 2 ^ (e + 1)"
    using bit_length_lower [of "int n"] bit_length_upper [of "int n"] \<open>0 < n\<close>
    by (cases "bit_length (int n)"; simp add: e_def)+
  then have e: "2 ^ e \<le> n" "n < 2 ^ (e + 1)"
    by (metis of_nat_le_iff of_nat_numeral of_nat_power, metis of_nat_less_iff of_nat_numeral of_nat_power)
  have "e \<le> 22" using e(1) \<open>n \<le> 2 ^ 22\<close> power_increasing_iff [of "2::nat" e 22]
    by (metis dual_order.trans one_less_numeral_iff power_increasing_iff semiring_norm(76))
  define t where "t = 23 - e div 2"
  have t: "12 \<le> t" "int e div 2 - 23 = - int t" using \<open>e \<le> 22\<close> by (simp_all add: t_def)
  define N where "N = (2::nat) ^ t"
  have N: "2 ^ 12 \<le> N" unfolding N_def by (rule power_increasing [OF t(1)]) simp
  have u: "(2::rat) powi (ilog2 (of_nat n) div 2 - 23) = 1 / of_nat N"
    by (simp add: ilog2_of_nat [OF e] t(2) N_def power_int_minus divide_inverse)
  define m where "m = isqrt (n * (N * N))"
  have a: "of_nat n / (1 / of_nat N * (1 / of_nat N)) = (of_nat (n * (N * N)) :: rat)" by simp
  have fl: "nat \<lfloor>of_nat (n * (N * N)) :: rat\<rfloor> = n * (N * N)"
    by (metis floor_of_nat nat_int)
  have val: "sqrt_val (of_nat n) =
      of_int (if (of_nat m + 1 / 2) * (of_nat m + 1 / 2) < (of_nat (n * (N * N)) :: rat)
              then int m + 1 else int m) * (1 / of_nat N)"
    unfolding sqrt_val_def Let_def u a fl m_def [symmetric] by simp
  show ?thesis
  proof (cases "(of_nat m + 1 / 2) * (of_nat m + 1 / 2) < (of_nat (n * (N * N)) :: rat)")
    case True
    have "(of_nat (m * m) :: rat) \<le> (of_nat m + 1 / 2) * (of_nat m + 1 / 2)"
      by (simp add: algebra_simps)
    with True have "(of_nat (m * m) :: rat) < of_nat (n * (N * N))" by linarith
    then have "m * m < n * (N * N)" by (simp only: of_nat_less_iff)
    with True val N show ?thesis
      by (intro exI [of _ N] exI [of _ "m + 1"]) (simp add: m_def)
  next
    case False
    with val N show ?thesis by (intro exI [of _ N] exI [of _ m]) (simp add: m_def)
  qed
qed

lemma ceil_sqrt_val:
  assumes n: "n \<le> 2 ^ 22" and c: "c * c < n" "n \<le> (c + 1) * (c + 1)"
  shows "\<lceil>sqrt_val (of_nat n)\<rceil> = int c + 1"
proof -
  obtain N r where N: "2 ^ 12 \<le> N" and val: "sqrt_val (of_nat n) = of_nat r / of_nat N"
    and r: "r = isqrt (n * (N * N)) \<or>
      r = isqrt (n * (N * N)) + 1 \<and> isqrt (n * (N * N)) * isqrt (n * (N * N)) < n * (N * N)"
    using sqrt_val_scaled [of n] assms by auto
  define m where "m = isqrt (n * (N * N))"
  have m: "m * m \<le> n * (N * N)" "n * (N * N) < (m + 1) * (m + 1)"
    using isqrt_bounds by (simp_all add: m_def)
  have "c * c < 2 ^ 11 * 2 ^ 11" using n c by simp
  then have c11: "c < 2 ^ 11" by (meson mult_le_mono not_le)
  have up: "r \<le> (c + 1) * N"
  proof -
    have "n * (N * N) \<le> ((c + 1) * N) * ((c + 1) * N)"
      using mult_le_mono1 [OF c(2), of "N * N"] by (simp only: mult.assoc mult.left_commute mult.commute)
    then have "m * m \<le> ((c + 1) * N) * ((c + 1) * N)"
      and lt: "m * m < n * (N * N) \<Longrightarrow> m * m < ((c + 1) * N) * ((c + 1) * N)" using m by linarith+
    then have "m \<le> (c + 1) * N" and "m * m < n * (N * N) \<Longrightarrow> m < (c + 1) * N"
      by (simp_all only: square_le_iff square_less_iff)
    with r show ?thesis by (auto simp: m_def)
  qed
  have low: "c * N < r"
  proof -
    have "(c * N + 1) * (c * N + 1) = c * c * (N * N) + (2 * (c * N) + 1)" by (simp add: algebra_simps)
    also have "2 * (c * N) + 1 \<le> N * N"
    proof -
      have "2 * c + 1 \<le> N" using c11 N by simp
      then have "(2 * c + 1) * N \<le> N * N" by (rule mult_le_mono1)
      moreover have "1 \<le> N" using N by simp
      ultimately show ?thesis by (simp add: algebra_simps)
    qed
    also have "c * c * (N * N) + N * N = (c * c + 1) * (N * N)" by (simp add: algebra_simps)
    also have "\<dots> \<le> n * (N * N)" using c(1) by (intro mult_le_mono1) simp
    finally have "(c * N + 1) * (c * N + 1) \<le> n * (N * N)" by simp
    then have "(c * N + 1) * (c * N + 1) < (m + 1) * (m + 1)" using m(2) by linarith
    then have "c * N + 1 < m + 1" by (meson mult_le_mono not_le)
    then show ?thesis using r by (auto simp: m_def)
  qed
  have N0: "(0 :: rat) < of_nat N" using N by simp
  have "of_nat c < (of_nat r / of_nat N :: rat)" "(of_nat r / of_nat N :: rat) \<le> of_nat (c + 1)"
    using low up N0
    by (simp_all only: less_divide_eq divide_le_eq if_True of_nat_less_iff of_nat_le_iff flip: of_nat_mult)
  then show ?thesis unfolding val by (intro ceiling_unique) auto
qed

lemma f32_of_nat_small: "n \<le> 2 ^ 24 \<Longrightarrow> f32_of_nat n = whole (int n)"
  using rnd_of_int [of "int n"] by (simp add: f32_of_nat_def)

text \<open>The number of columns of a grid, \<^verbatim>\<open>(n as f32).sqrt().ceil() as usize\<close>.\<close>

lemma usize_ceil_sqrt:
  assumes "n \<le> 2 ^ 22" "c * c < n" "n \<le> (c + 1) * (c + 1)"
  shows "f32_to_usize (f32_ceil (f32_sqrt (f32_of_nat n))) = c + 1"
proof -
  have "c < 2 ^ 22" using assms by (metis le_less_trans le_square not_le)
  with ceil_sqrt_val [OF assms] assms show ?thesis
    by (simp add: f32_of_nat_small)
qed

end
