(* ===== verification/LayoutModel.thy ===== *)
theory LayoutModel
  imports F32 "HOL-Library.Word"
begin

text \<open>
  The plain layout vocabulary of \<^verbatim>\<open>src/layout/model.rs\<close> and \<^verbatim>\<open>src/pane/id.rs\<close>: split axes,
  gaps, layout kinds, the constants of the tiling arithmetic, and the rectangle type of the UI
  framework that every allocator fills in. Pane ids are 32-bit words, as in the code; ratios and
  coordinates are the single-precision values of the theory \<open>F32\<close>.
\<close>

type_synonym pane_id = "32 word"

definition POPUP_PANE_ID :: pane_id where
  "POPUP_PANE_ID = - 1"

subsection \<open>Axes, directions and gaps\<close>

datatype split_axis = Horizontal | Vertical

definition start_for_workspace :: "nat \<Rightarrow> split_axis" where
  "start_for_workspace index = (if index mod 2 = 0 then Horizontal else Vertical)"

fun flipped :: "split_axis \<Rightarrow> split_axis" where
  "flipped Horizontal = Vertical"
| "flipped Vertical = Horizontal"

definition at_depth :: "split_axis \<Rightarrow> nat \<Rightarrow> split_axis" where
  "at_depth axis depth = (if depth mod 2 = 0 then axis else flipped axis)"

lemma flipped_flipped [simp]: "flipped (flipped a) = a"
  by (cases a) auto

lemma flipped_neq [simp]: "flipped a \<noteq> a"
  by (cases a) auto

lemma at_depth_Suc: "at_depth a (Suc n) = flipped (at_depth a n)"
  by (auto simp: at_depth_def mod_Suc)

record tile_gap =
  gap_horizontal :: f32
  gap_vertical :: f32

definition TILE_GAP :: f32 where
  "TILE_GAP = Fin 1"

definition DEFAULT_GAP :: tile_gap where
  "DEFAULT_GAP = \<lparr>gap_horizontal = TILE_GAP, gap_vertical = Fin 0\<rparr>"

fun for_axis :: "tile_gap \<Rightarrow> split_axis \<Rightarrow> f32" where
  "for_axis g Horizontal = gap_horizontal g"
| "for_axis g Vertical = gap_vertical g"

datatype direction = DirLeft | DirDown | DirUp | DirRight

subsection \<open>Layout kinds\<close>

datatype layout_kind = Dwindle | Master | Grid | Columns | Rows | Scrollable | Monocle

definition LAYOUT_DEFAULT :: layout_kind where
  "LAYOUT_DEFAULT = Dwindle"

definition all_kinds :: "layout_kind list" where
  "all_kinds = [Dwindle, Master, Grid, Columns, Rows, Scrollable, Monocle]"

fun label :: "layout_kind \<Rightarrow> string" where
  "label Dwindle = ''dwindle''"
| "label Master = ''master''"
| "label Grid = ''grid''"
| "label Columns = ''columns''"
| "label Rows = ''rows''"
| "label Scrollable = ''scrollable''"
| "label Monocle = ''monocle''"

text \<open>
  \<^verbatim>\<open>str::trim\<close> and \<^verbatim>\<open>to_ascii_lowercase\<close> on single-byte text: the names a configuration file
  can spell are ASCII, and for those the whitespace characters are the ones below.
\<close>

definition is_space :: "char \<Rightarrow> bool" where
  "is_space c = (let n = of_char c :: nat in n = 32 \<or> (9 \<le> n \<and> n \<le> 13))"

definition trim :: "string \<Rightarrow> string" where
  "trim s = rev (dropWhile is_space (rev (dropWhile is_space s)))"

definition ascii_lower :: "char \<Rightarrow> char" where
  "ascii_lower c = (let n = of_char c :: nat in if 65 \<le> n \<and> n \<le> 90 then char_of (n + 32) else c)"

definition from_label :: "string \<Rightarrow> layout_kind option" where
  "from_label name = (let name = map ascii_lower (trim name) in find (\<lambda>kind. label kind = name) all_kinds)"

definition toggled :: "layout_kind \<Rightarrow> layout_kind" where
  "toggled kind =
     (let index = (case position_of (\<lambda>k. k = kind) all_kinds of Some i \<Rightarrow> i | None \<Rightarrow> 0)
      in all_kinds ! ((index + 1) mod length all_kinds))"

definition WORKSPACE_COUNT :: nat where
  "WORKSPACE_COUNT = 9"

datatype scrollable_reveal_edge = RevealLeft | RevealRight | LeftOffset "32 word"

datatype resize_corner = UpperLeft | UpperRight | LowerLeft | LowerRight

subsection \<open>Constants\<close>

definition OFFSCREEN_MIN_VISIBLE :: f32 where
  "OFFSCREEN_MIN_VISIBLE = Fin 6"

definition DEFAULT_RATIO :: f32 where
  "DEFAULT_RATIO = rnd (58 / 100)"

definition EVEN_SPLIT_RATIO :: f32 where
  "EVEN_SPLIT_RATIO = rnd (1 / 2)"

definition DEFAULT_SCROLLABLE_WIDTH :: f32 where
  "DEFAULT_SCROLLABLE_WIDTH = rnd (45 / 100)"

definition MIN_SPLIT_RATIO :: f32 where
  "MIN_SPLIT_RATIO = rnd (20 / 100)"

definition MAX_SPLIT_RATIO :: f32 where
  "MAX_SPLIT_RATIO = rnd (80 / 100)"

definition DEFAULT_SPLIT_WIDTH_MULTIPLIER :: f32 where
  "DEFAULT_SPLIT_WIDTH_MULTIPLIER = rnd (23 / 10)"

definition DEFAULT_SPLIT_RATIO_SLOTS :: nat where
  "DEFAULT_SPLIT_RATIO_SLOTS = 16"

definition default_split_ratios :: "f32 list" where
  "default_split_ratios = replicate DEFAULT_SPLIT_RATIO_SLOTS DEFAULT_RATIO"

text \<open>The values the decimal literals have in single precision.\<close>

lemma ratio_constants:
  "DEFAULT_RATIO = Fin (9730785 / 16777216)"
  "EVEN_SPLIT_RATIO = Fin (1 / 2)"
  "DEFAULT_SCROLLABLE_WIDTH = Fin (15099494 / 33554432)"
  "MIN_SPLIT_RATIO = Fin (13421773 / 67108864)"
  "MAX_SPLIT_RATIO = Fin (13421773 / 16777216)"
  by code_simp+

subsection \<open>Rectangles\<close>

record float_rect =
  rx :: f32
  ry :: f32
  rw :: f32
  rh :: f32

definition axis_extent :: "float_rect \<Rightarrow> split_axis \<Rightarrow> f32" where
  "axis_extent rect axis = (case axis of Horizontal \<Rightarrow> rw rect | Vertical \<Rightarrow> rh rect)"

text \<open>A whole-cell rectangle: the only ones a terminal can draw.\<close>

definition cell_rect :: "int \<Rightarrow> int \<Rightarrow> int \<Rightarrow> int \<Rightarrow> float_rect" where
  "cell_rect x y w h = \<lparr>rx = whole x, ry = whole y, rw = whole w, rh = whole h\<rparr>"

subsection \<open>Cycling and spelling the layouts\<close>

lemma toggled_simps [simp]:
  "toggled Dwindle = Master" "toggled Master = Grid" "toggled Grid = Columns"
  "toggled Columns = Rows" "toggled Rows = Scrollable" "toggled Scrollable = Monocle"
  "toggled Monocle = Dwindle"
  by code_simp+

lemma label_inj: "label k = label k' \<longleftrightarrow> k = k'"
  by (cases k; cases k') auto

lemma set_all_kinds [simp]: "set all_kinds = UNIV"
proof -
  have "k \<in> set all_kinds" for k by (cases k) (auto simp: all_kinds_def)
  then show ?thesis by auto
qed

lemma from_label_iff: "from_label s = Some k \<longleftrightarrow> map ascii_lower (trim s) = label k"
proof
  assume "from_label s = Some k"
  then show "map ascii_lower (trim s) = label k"
    by (auto simp: from_label_def find_Some_iff)
next
  assume k: "map ascii_lower (trim s) = label k"
  have "find (\<lambda>kind. label kind = label k) xs = Some k" if "k \<in> set xs" for xs
    using that by (induction xs) (auto simp: label_inj)
  then show "from_label s = Some k" by (simp add: from_label_def k)
qed

end
