(* ===== verification/TileTree.thy ===== *)
theory TileTree
  imports LayoutModel
begin

text \<open>
  The binary tile tree of \<^verbatim>\<open>src/layout/tiling.rs\<close> and the operations that change its structure:
  building, appending, pruning, removing, inserting beside a target, swapping two leaves, and
  reading or writing the ratio of the split that holds a pane. Functions that take \<^verbatim>\<open>&mut tree\<close> in
  the code return the new tree beside their result.

  The lemmas describe every operation by its effect on the left-to-right list of leaves, which is
  the order in which the order-driven layouts consume panes.
\<close>

datatype dwindle_tree =
    Leaf pane_id
  | Split split_axis f32 dwindle_tree dwindle_tree

record pane_placement =
  placed_id :: pane_id
  placed_rect :: float_rect

datatype split_edge = Leading | Trailing

subsection \<open>Ratios\<close>

definition clamp_split_ratio :: "f32 \<Rightarrow> f32" where
  "clamp_split_ratio value =
     (if is_finite value then f32_clamp value MIN_SPLIT_RATIO MAX_SPLIT_RATIO else DEFAULT_RATIO)"

definition ratio_at :: "f32 list \<Rightarrow> nat \<Rightarrow> f32" where
  "ratio_at ratios index =
     (if index < length ratios then clamp_split_ratio (ratios ! index) else DEFAULT_RATIO)"

definition adjust_ratio_value :: "f32 \<Rightarrow> f32 \<Rightarrow> f32" where
  "adjust_ratio_value value delta = clamp_split_ratio (value + delta)"

subsection \<open>Building and reading\<close>

fun build_dwindle_tree_at :: "pane_id list \<Rightarrow> split_axis \<Rightarrow> f32 list \<Rightarrow> nat \<Rightarrow> dwindle_tree option" where
  "build_dwindle_tree_at [] start_axis ratios depth = None"
| "build_dwindle_tree_at [pid] start_axis ratios depth = Some (Leaf pid)"
| "build_dwindle_tree_at (first # rest) start_axis ratios depth =
     (case build_dwindle_tree_at rest start_axis ratios (depth + 1) of
        None \<Rightarrow> None
      | Some second \<Rightarrow>
          Some (Split (at_depth start_axis depth) (ratio_at ratios depth) (Leaf first) second))"

definition build_dwindle_tree :: "pane_id list \<Rightarrow> split_axis \<Rightarrow> f32 list \<Rightarrow> dwindle_tree option" where
  "build_dwindle_tree ids start_axis ratios = build_dwindle_tree_at ids start_axis ratios 0"

fun collect_tree_leaves :: "dwindle_tree \<Rightarrow> pane_id list \<Rightarrow> pane_id list" where
  "collect_tree_leaves (Leaf pid) out = out @ [pid]"
| "collect_tree_leaves (Split _ _ first second) out =
     collect_tree_leaves second (collect_tree_leaves first out)"

fun tree_contains :: "dwindle_tree \<Rightarrow> pane_id \<Rightarrow> bool" where
  "tree_contains (Leaf leaf) pid = (leaf = pid)"
| "tree_contains (Split _ _ first second) pid = (tree_contains first pid \<or> tree_contains second pid)"

fun sibling_leaves :: "dwindle_tree \<Rightarrow> pane_id \<Rightarrow> pane_id list option" where
  "sibling_leaves (Leaf _) pid = None"
| "sibling_leaves (Split _ _ first second) pid =
     (if tree_contains first pid then
        (case first of Leaf _ \<Rightarrow> Some (collect_tree_leaves second []) | _ \<Rightarrow> sibling_leaves first pid)
      else if tree_contains second pid then
        (case second of Leaf _ \<Rightarrow> Some (collect_tree_leaves first []) | _ \<Rightarrow> sibling_leaves second pid)
      else None)"

fun swap_tree_leaves_inner :: "dwindle_tree \<Rightarrow> pane_id \<Rightarrow> pane_id \<Rightarrow> dwindle_tree" where
  "swap_tree_leaves_inner (Leaf pid) a b = Leaf (if pid = a then b else if pid = b then a else pid)"
| "swap_tree_leaves_inner (Split axis ratio first second) a b =
     Split axis ratio (swap_tree_leaves_inner first a b) (swap_tree_leaves_inner second a b)"

definition swap_tree_leaves :: "dwindle_tree \<Rightarrow> pane_id \<Rightarrow> pane_id \<Rightarrow> dwindle_tree \<times> bool" where
  "swap_tree_leaves tree a b =
     (if a = b \<or> \<not> tree_contains tree a \<or> \<not> tree_contains tree b then (tree, False)
      else (swap_tree_leaves_inner tree a b, True))"

fun leaf_share :: "dwindle_tree \<Rightarrow> pane_id \<Rightarrow> f32 option" where
  "leaf_share (Leaf _) pid = None"
| "leaf_share (Split _ ratio first second) pid =
     (if first = Leaf pid then Some ratio
      else if second = Leaf pid then Some (Fin 1 - ratio)
      else if tree_contains first pid then leaf_share first pid
      else leaf_share second pid)"

fun set_leaf_share :: "dwindle_tree \<Rightarrow> pane_id \<Rightarrow> f32 \<Rightarrow> dwindle_tree \<times> bool" where
  "set_leaf_share (Leaf leaf) pid share = (Leaf leaf, False)"
| "set_leaf_share (Split axis ratio first second) pid share =
     (if first = Leaf pid then (Split axis share first second, \<not> f32_eq ratio share)
      else if second = Leaf pid then
        (Split axis (Fin 1 - share) first second, \<not> f32_eq ratio (Fin 1 - share))
      else if tree_contains first pid then
        (let (first', changed) = set_leaf_share first pid share
         in (Split axis ratio first' second, changed))
      else
        (let (second', changed) = set_leaf_share second pid share
         in (Split axis ratio first second', changed)))"

subsection \<open>Growing and shrinking\<close>

fun append_tiled_leaf_at :: "dwindle_tree \<Rightarrow> pane_id \<Rightarrow> split_axis \<Rightarrow> nat \<Rightarrow> dwindle_tree" where
  "append_tiled_leaf_at (Leaf existing) pid start_axis depth =
     Split (at_depth start_axis depth) DEFAULT_RATIO (Leaf existing) (Leaf pid)"
| "append_tiled_leaf_at (Split axis ratio first second) pid start_axis depth =
     Split axis ratio first (append_tiled_leaf_at second pid start_axis (depth + 1))"

fun append_tiled_leaf :: "dwindle_tree option \<Rightarrow> pane_id \<Rightarrow> split_axis \<Rightarrow> dwindle_tree" where
  "append_tiled_leaf (Some tree) pid start_axis = append_tiled_leaf_at tree pid start_axis 0"
| "append_tiled_leaf None pid start_axis = Leaf pid"

definition rejoin :: "split_axis \<Rightarrow> f32 \<Rightarrow> dwindle_tree option \<Rightarrow> dwindle_tree option \<Rightarrow> dwindle_tree option" where
  "rejoin axis ratio first second =
     (case (first, second) of
        (Some first, Some second) \<Rightarrow> Some (Split axis ratio first second)
      | (Some only, None) \<Rightarrow> Some only
      | (None, Some only) \<Rightarrow> Some only
      | (None, None) \<Rightarrow> None)"

fun prune_tree_to_ids :: "dwindle_tree \<Rightarrow> pane_id list \<Rightarrow> dwindle_tree option" where
  "prune_tree_to_ids (Leaf pid) active_ids = (if pid \<in> set active_ids then Some (Leaf pid) else None)"
| "prune_tree_to_ids (Split axis ratio first second) active_ids =
     rejoin axis ratio (prune_tree_to_ids first active_ids) (prune_tree_to_ids second active_ids)"

fun remove_tree_leaf :: "dwindle_tree \<Rightarrow> pane_id \<Rightarrow> dwindle_tree option \<times> bool" where
  "remove_tree_leaf (Leaf leaf) pid = (if leaf = pid then (None, True) else (Some (Leaf leaf), False))"
| "remove_tree_leaf (Split axis ratio first second) pid =
     (let (first', removed_first) = remove_tree_leaf first pid;
          (second', removed_second) = remove_tree_leaf second pid
      in (rejoin axis ratio first' second', removed_first \<or> removed_second))"

fun insert_leaf_around_target ::
  "dwindle_tree \<Rightarrow> pane_id \<Rightarrow> pane_id \<Rightarrow> split_axis \<Rightarrow> bool \<Rightarrow> f32 \<Rightarrow> dwindle_tree option" where
  "insert_leaf_around_target (Leaf pid) target moving axis moving_first ratio =
     (if pid = target then
        (let (first, second) =
           (if moving_first then (Leaf moving, Leaf target) else (Leaf target, Leaf moving))
         in Some (Split axis (clamp_split_ratio ratio) first second))
      else None)"
| "insert_leaf_around_target (Split split_axis split_ratio first second) target moving axis moving_first ratio =
     (if tree_contains first target then
        map_option (\<lambda>inserted. Split split_axis split_ratio inserted second)
          (insert_leaf_around_target first target moving axis moving_first ratio)
      else if tree_contains second target then
        map_option (\<lambda>inserted. Split split_axis split_ratio first inserted)
          (insert_leaf_around_target second target moving axis moving_first ratio)
      else None)"

subsection \<open>The split that holds the focused pane\<close>

fun adjust_tree_split_for_focused ::
  "dwindle_tree \<Rightarrow> pane_id \<Rightarrow> f32 \<Rightarrow> nat \<Rightarrow> dwindle_tree \<times> nat option" where
  "adjust_tree_split_for_focused (Leaf leaf) focused delta depth = (Leaf leaf, None)"
| "adjust_tree_split_for_focused (Split axis ratio first second) focused delta depth =
     (if tree_contains first focused then
        (case adjust_tree_split_for_focused first focused delta (depth + 1) of
           (first', Some index) \<Rightarrow> (Split axis ratio first' second, Some index)
         | (first', None) \<Rightarrow> (Split axis (adjust_ratio_value ratio delta) first' second, Some depth))
      else if tree_contains second focused then
        (case adjust_tree_split_for_focused second focused delta (depth + 1) of
           (second', Some index) \<Rightarrow> (Split axis ratio first second', Some index)
         | (second', None) \<Rightarrow> (Split axis (adjust_ratio_value ratio (- delta)) first second', Some depth))
      else (Split axis ratio first second, None))"

fun flip_tree_split_for_focused ::
  "dwindle_tree \<Rightarrow> pane_id \<Rightarrow> nat \<Rightarrow> dwindle_tree \<times> (nat \<times> split_axis) option" where
  "flip_tree_split_for_focused (Leaf leaf) focused depth = (Leaf leaf, None)"
| "flip_tree_split_for_focused (Split axis ratio first second) focused depth =
     (if tree_contains first focused then
        (case flip_tree_split_for_focused first focused (depth + 1) of
           (first', Some result) \<Rightarrow> (Split axis ratio first' second, Some result)
         | (first', None) \<Rightarrow> (Split (flipped axis) ratio first' second, Some (depth, flipped axis)))
      else if tree_contains second focused then
        (case flip_tree_split_for_focused second focused (depth + 1) of
           (second', Some result) \<Rightarrow> (Split axis ratio first second', Some result)
         | (second', None) \<Rightarrow> (Split (flipped axis) ratio first second', Some (depth, flipped axis)))
      else (Split axis ratio first second, None))"

fun focused_is_first_in_nearest_axis_split :: "dwindle_tree \<Rightarrow> pane_id \<Rightarrow> split_axis \<Rightarrow> bool option" where
  "focused_is_first_in_nearest_axis_split (Leaf _) focused target_axis = None"
| "focused_is_first_in_nearest_axis_split (Split axis _ first second) focused target_axis =
     (if tree_contains first focused then
        (case focused_is_first_in_nearest_axis_split first focused target_axis of
           Some b \<Rightarrow> Some b
         | None \<Rightarrow> if axis = target_axis then Some True else None)
      else if tree_contains second focused then
        (case focused_is_first_in_nearest_axis_split second focused target_axis of
           Some b \<Rightarrow> Some b
         | None \<Rightarrow> if axis = target_axis then Some False else None)
      else None)"

fun split_edge_matches_focused_side :: "split_edge \<Rightarrow> bool \<Rightarrow> bool" where
  "split_edge_matches_focused_side Leading False = True"
| "split_edge_matches_focused_side Trailing True = True"
| "split_edge_matches_focused_side _ _ = False"

definition edge_qualifies :: "split_edge option \<Rightarrow> bool \<Rightarrow> bool" where
  "edge_qualifies edge focused_is_first =
     (case edge of None \<Rightarrow> True | Some edge \<Rightarrow> split_edge_matches_focused_side edge focused_is_first)"

text \<open>The inner function \<^verbatim>\<open>visit\<close> of \<^verbatim>\<open>axis_split_path\<close>: \<open>path\<close> is the \<^verbatim>\<open>&mut Vec\<close> it pushes to and pops.\<close>

fun axis_split_visit ::
  "dwindle_tree \<Rightarrow> pane_id \<Rightarrow> split_axis \<Rightarrow> split_edge option \<Rightarrow> bool list \<Rightarrow> bool list option" where
  "axis_split_visit (Leaf _) focused target_axis edge path = None"
| "axis_split_visit (Split axis _ first second) focused target_axis edge path =
     (if tree_contains first focused then
        (case axis_split_visit first focused target_axis edge (path @ [False]) of
           Some deeper \<Rightarrow> Some deeper
         | None \<Rightarrow>
             if axis = target_axis \<and> edge_qualifies edge True
             then Some path else None)
      else if tree_contains second focused then
        (case axis_split_visit second focused target_axis edge (path @ [True]) of
           Some deeper \<Rightarrow> Some deeper
         | None \<Rightarrow>
             if axis = target_axis \<and> edge_qualifies edge False
             then Some path else None)
      else None)"

definition axis_split_path ::
  "dwindle_tree \<Rightarrow> pane_id \<Rightarrow> split_axis \<Rightarrow> split_edge option \<Rightarrow> bool list option" where
  "axis_split_path tree focused target_axis edge = axis_split_visit tree focused target_axis edge []"

definition axis_split_path_for_edge ::
  "dwindle_tree \<Rightarrow> pane_id \<Rightarrow> split_axis \<Rightarrow> split_edge \<Rightarrow> bool list option" where
  "axis_split_path_for_edge tree focused target_axis edge = axis_split_path tree focused target_axis (Some edge)"

subsection \<open>Leaves, from left to right\<close>

fun leaves :: "dwindle_tree \<Rightarrow> pane_id list" where
  "leaves (Leaf pid) = [pid]"
| "leaves (Split _ _ first second) = leaves first @ leaves second"

fun opt_leaves :: "dwindle_tree option \<Rightarrow> pane_id list" where
  "opt_leaves None = []"
| "opt_leaves (Some t) = leaves t"

lemma leaves_nonempty [simp]: "leaves t \<noteq> []" "[] \<noteq> leaves t"
  by (induction t) auto

lemma opt_leaves_Nil [simp]: "opt_leaves t = [] \<longleftrightarrow> t = None"
  by (cases t) auto

lemma opt_leaves_Cons: "opt_leaves t = x # xs \<longleftrightarrow> (\<exists>u. t = Some u \<and> leaves u = x # xs)"
  by (cases t) auto

lemma collect_tree_leaves [simp]: "collect_tree_leaves t out = out @ leaves t"
  by (induction t arbitrary: out) auto

lemma tree_contains_iff [simp]: "tree_contains t pid \<longleftrightarrow> pid \<in> set (leaves t)"
  by (induction t) auto

lemma leaves_build_at: "opt_leaves (build_dwindle_tree_at ids axis ratios depth) = ids"
  by (induction ids axis ratios depth rule: build_dwindle_tree_at.induct)
    (auto simp: opt_leaves_Cons)

lemma leaves_build: "opt_leaves (build_dwindle_tree ids axis ratios) = ids"
  by (simp add: build_dwindle_tree_def leaves_build_at)

lemma build_None_iff: "build_dwindle_tree ids axis ratios = None \<longleftrightarrow> ids = []"
  using leaves_build [of ids axis ratios] by (cases "build_dwindle_tree ids axis ratios"; cases ids)
    (auto simp: build_dwindle_tree_def)

lemma leaves_append_at [simp]: "leaves (append_tiled_leaf_at t pid axis depth) = leaves t @ [pid]"
  by (induction t arbitrary: depth) auto

lemma leaves_append [simp]: "leaves (append_tiled_leaf t pid axis) = opt_leaves t @ [pid]"
  by (cases t) auto

lemma leaves_rejoin [simp]: "opt_leaves (rejoin axis ratio a b) = opt_leaves a @ opt_leaves b"
  by (auto simp: rejoin_def split: option.splits)

lemma leaves_prune [simp]: "opt_leaves (prune_tree_to_ids t ids) = filter (\<lambda>pid. pid \<in> set ids) (leaves t)"
  by (induction t) auto

lemma leaves_remove: "opt_leaves (fst (remove_tree_leaf t pid)) = filter (\<lambda>x. x \<noteq> pid) (leaves t)"
  by (induction t) (auto simp: case_prod_beta Let_def)

lemma remove_removed: "snd (remove_tree_leaf t pid) \<longleftrightarrow> pid \<in> set (leaves t)"
  by (induction t) (auto simp: case_prod_beta Let_def)

lemma leaves_swap: "leaves (swap_tree_leaves_inner t a b) =
    map (\<lambda>pid. if pid = a then b else if pid = b then a else pid) (leaves t)"
  by (induction t) auto

lemma leaves_set_share [simp]: "leaves (fst (set_leaf_share t pid share)) = leaves t"
  by (induction t) (auto simp: case_prod_beta Let_def)

definition beside :: "bool \<Rightarrow> pane_id \<Rightarrow> pane_id \<Rightarrow> pane_id \<Rightarrow> pane_id list" where
  "beside moving_first target moving pid =
     (if pid = target then (if moving_first then [moving, target] else [target, moving]) else [pid])"

lemma beside_absent: "target \<notin> set xs \<Longrightarrow> concat (map (beside mf target moving) xs) = xs"
  by (induction xs) (auto simp: beside_def)

lemma leaves_insert:
  "distinct (leaves t) \<Longrightarrow> target \<in> set (leaves t) \<Longrightarrow>
   \<exists>t'. insert_leaf_around_target t target moving axis mf ratio = Some t' \<and>
        leaves t' = concat (map (beside mf target moving) (leaves t))"
proof (induction t)
  case (Leaf pid)
  then show ?case by (simp add: beside_def)
next
  case (Split ax r a b)
  show ?case
  proof (cases "target \<in> set (leaves a)")
    case True
    then have "target \<notin> set (leaves b)" using Split.prems by auto
    with True Split show ?thesis by (auto simp: beside_absent)
  next
    case False
    with Split show ?thesis by (auto simp: beside_absent)
  qed
qed

lemma insert_None: "target \<notin> set (leaves t) \<Longrightarrow> insert_leaf_around_target t target moving axis mf ratio = None"
  by (induction t) auto

subsection \<open>Inserting beside a target\<close>

text \<open>
  Inserting a pane beside a target of a tree whose leaves are distinct puts it directly before
  or directly after the target, and leaves every other leaf where it was; a target that is not in
  the tree makes the insertion fail.
\<close>

theorem insert_beside_target:
  assumes "distinct (leaves t)"
  shows "map_option leaves (insert_leaf_around_target t target moving axis moving_first ratio) =
    (if tree_contains t target
     then Some (concat (map (beside moving_first target moving) (leaves t))) else None)"
  using leaves_insert [OF assms] insert_None by fastforce

theorem insert_beside_target_witness:
  "map_option leaves (insert_leaf_around_target (Split Horizontal DEFAULT_RATIO (Leaf 1) (Leaf 2)) 2 3 Vertical True DEFAULT_RATIO)
   = Some [1, 3, 2]"
  by (subst insert_beside_target) (simp_all add: beside_def)

end
