(* ===== verification/TileAlloc.thy ===== *)
theory TileAlloc
  imports TileTree
begin

text \<open>
  The allocators of \<^verbatim>\<open>src/layout/tiling.rs\<close>: each turns a tree or a list of panes into placements
  inside a rectangle. They push onto \<^verbatim>\<open>&mut Vec<PanePlacement>\<close> in the code; here each returns the
  placements it pushes.

  The arithmetic is that of single-precision numbers. The lemmas show that on a canvas of whole
  cells every intermediate value is a whole number, so that each allocator is the image of an
  allocation on integer cells (\<open>strips\<close> and \<open>tree_cells\<close>), and then that those allocations cut the
  canvas into disjoint pieces which lie inside it and, where panes touch, cover it.
\<close>

subsection \<open>Splitting a rectangle in two\<close>

definition usable_axis_extent :: "f32 \<Rightarrow> split_axis \<Rightarrow> tile_gap \<Rightarrow> f32" where
  "usable_axis_extent extent axis gap =
     (let gap = for_axis gap axis;
          usable = (if gap < extent then gap else Fin 0)
      in f32_max (extent - usable) (Fin 0))"

definition split_float_rect :: "float_rect \<Rightarrow> split_axis \<Rightarrow> f32 \<Rightarrow> tile_gap \<Rightarrow> float_rect \<times> float_rect" where
  "split_float_rect rect axis ratio gap =
     (let ratio = clamp_split_ratio ratio in
      case axis of
        Horizontal \<Rightarrow>
          (let gap = for_axis gap axis;
               gap = (if gap < rw rect then gap else Fin 0);
               available = f32_max (rw rect - gap) (Fin 0);
               first_w = f32_round (available * ratio);
               second_w = available - first_w
           in (\<lparr>rx = rx rect, ry = ry rect, rw = first_w, rh = rh rect\<rparr>,
               \<lparr>rx = rx rect + first_w + gap, ry = ry rect, rw = second_w, rh = rh rect\<rparr>))
      | Vertical \<Rightarrow>
          (let gap = for_axis gap axis;
               gap = (if gap < rh rect then gap else Fin 0);
               available = f32_max (rh rect - gap) (Fin 0);
               first_h = f32_round (available * ratio);
               second_h = available - first_h
           in (\<lparr>rx = rx rect, ry = ry rect, rw = rw rect, rh = first_h\<rparr>,
               \<lparr>rx = rx rect, ry = ry rect + first_h + gap, rw = rw rect, rh = second_h\<rparr>)))"

fun allocate_dwindle :: "dwindle_tree \<Rightarrow> float_rect \<Rightarrow> tile_gap \<Rightarrow> pane_placement list" where
  "allocate_dwindle (Leaf pid) rect gap = [\<lparr>placed_id = pid, placed_rect = rect\<rparr>]"
| "allocate_dwindle (Split axis ratio first second) rect gap =
     (let (first_rect, second_rect) = split_float_rect rect axis ratio gap
      in allocate_dwindle first first_rect gap @ allocate_dwindle second second_rect gap)"

subsection \<open>Strips\<close>

text \<open>One segment of a strip: \<open>rect\<close> with its extent along \<open>axis\<close> replaced.\<close>

definition segment :: "float_rect \<Rightarrow> split_axis \<Rightarrow> f32 \<Rightarrow> f32 \<Rightarrow> float_rect" where
  "segment rect axis start len =
     (case axis of
        Horizontal \<Rightarrow> \<lparr>rx = start, ry = ry rect, rw = len, rh = rh rect\<rparr>
      | Vertical \<Rightarrow> \<lparr>rx = rx rect, ry = start, rw = rw rect, rh = len\<rparr>)"

definition axis_start :: "float_rect \<Rightarrow> split_axis \<Rightarrow> f32" where
  "axis_start rect axis = (case axis of Horizontal \<Rightarrow> rx rect | Vertical \<Rightarrow> ry rect)"

text \<open>The loops of the two splitters; the first argument counts the iterations that remain.\<close>

fun balanced_loop ::
  "nat \<Rightarrow> float_rect \<Rightarrow> split_axis \<Rightarrow> f32 \<Rightarrow> f32 \<Rightarrow> nat \<Rightarrow> f32 \<Rightarrow> float_rect list" where
  "balanced_loop 0 rect axis usable_gap base extras start = []"
| "balanced_loop (Suc left) rect axis usable_gap base extras start =
     (let len = base + (if 0 < extras then Fin 1 else Fin 0)
      in segment rect axis start len #
         balanced_loop left rect axis usable_gap base (if 0 < extras then extras - 1 else extras)
           (start + (len + usable_gap)))"

definition split_balanced :: "float_rect \<Rightarrow> split_axis \<Rightarrow> nat \<Rightarrow> tile_gap \<Rightarrow> float_rect list" where
  "split_balanced rect axis count gap =
     (if count = 0 then []
      else if count = 1 then [rect]
      else
        let gap = for_axis gap axis;
            extent = axis_extent rect axis;
            usable = (if gap < extent then gap else Fin 0);
            available = f32_max (extent - usable * f32_of_nat (count - 1)) (Fin 0);
            base = f32_floor (available div f32_of_nat count);
            extras = f32_to_usize (f32_max (f32_round (available - base * f32_of_nat count)) (Fin 0))
        in balanced_loop count rect axis usable base extras (axis_start rect axis))"

fun evenly_loop ::
  "nat \<Rightarrow> float_rect \<Rightarrow> split_axis \<Rightarrow> f32 \<Rightarrow> f32 \<Rightarrow> f32 \<Rightarrow> f32 \<Rightarrow> float_rect list" where
  "evenly_loop 0 rect axis usable_gap base start remaining = []"
| "evenly_loop (Suc left) rect axis usable_gap base start remaining =
     (let len = (if left = 0 then remaining else f32_min base remaining)
      in segment rect axis start len #
         evenly_loop left rect axis usable_gap base (start + (len + usable_gap))
           (f32_max (remaining - len) (Fin 0)))"

definition split_evenly :: "float_rect \<Rightarrow> split_axis \<Rightarrow> nat \<Rightarrow> tile_gap \<Rightarrow> float_rect list" where
  "split_evenly rect axis count gap =
     (if count = 0 then []
      else if count = 1 then [rect]
      else
        let gap = for_axis gap axis;
            extent = axis_extent rect axis;
            usable = (if gap < extent then gap else Fin 0);
            total_gap = usable * f32_of_nat (count - 1);
            available = f32_max (extent - total_gap) (Fin 0);
            base = f32_floor (available div f32_of_nat count)
        in evenly_loop count rect axis usable base (axis_start rect axis) available)"

subsection \<open>Order-driven layouts\<close>

fun master_stack_loop ::
  "pane_id list \<Rightarrow> float_rect \<Rightarrow> f32 \<Rightarrow> f32 \<Rightarrow> f32 \<Rightarrow> f32 \<Rightarrow> pane_placement list" where
  "master_stack_loop [] rect usable_gap base_h y remaining_h = []"
| "master_stack_loop (pid # rest) rect usable_gap base_h y remaining_h =
     (let h = (if rest = [] then remaining_h else f32_min base_h remaining_h)
      in \<lparr>placed_id = pid, placed_rect = \<lparr>rx = rx rect, ry = y, rw = rw rect, rh = h\<rparr>\<rparr> #
         master_stack_loop rest rect usable_gap base_h (y + (h + usable_gap))
           (f32_max (remaining_h - h) (Fin 0)))"

definition allocate_master_stack :: "pane_id list \<Rightarrow> float_rect \<Rightarrow> tile_gap \<Rightarrow> pane_placement list" where
  "allocate_master_stack ids rect gap =
     (if ids = [] then []
      else
        let gap = for_axis gap Vertical;
            usable = (if gap < rh rect then gap else Fin 0);
            available = f32_max (rh rect - usable * f32_of_nat (length ids - 1)) (Fin 0);
            base_h = f32_floor (available div f32_of_nat (length ids))
        in master_stack_loop ids rect usable base_h (ry rect) available)"

fun allocate_master :: "pane_id list \<Rightarrow> float_rect \<Rightarrow> tile_gap \<Rightarrow> f32 \<Rightarrow> pane_placement list" where
  "allocate_master [] rect gap ratio = []"
| "allocate_master [pid] rect gap ratio = [\<lparr>placed_id = pid, placed_rect = rect\<rparr>]"
| "allocate_master (master # stack) rect gap ratio =
     (let (master_rect, stack_rect) = split_float_rect rect Horizontal ratio gap
      in \<lparr>placed_id = master, placed_rect = master_rect\<rparr> # allocate_master_stack stack stack_rect gap)"

definition allocate_monocle :: "pane_id list \<Rightarrow> float_rect \<Rightarrow> pane_placement list" where
  "allocate_monocle ids rect = map (\<lambda>pid. \<lparr>placed_id = pid, placed_rect = rect\<rparr>) ids"

definition allocate_strips :: "pane_id list \<Rightarrow> float_rect \<Rightarrow> split_axis \<Rightarrow> tile_gap \<Rightarrow> pane_placement list" where
  "allocate_strips ids rect axis gap =
     (if ids = [] then []
      else map (\<lambda>(pid, strip). \<lparr>placed_id = pid, placed_rect = strip\<rparr>)
             (zip ids (split_balanced rect axis (length ids) gap)))"

definition allocate_columns :: "pane_id list \<Rightarrow> float_rect \<Rightarrow> tile_gap \<Rightarrow> pane_placement list" where
  "allocate_columns ids rect gap = allocate_strips ids rect Horizontal gap"

definition allocate_rows :: "pane_id list \<Rightarrow> float_rect \<Rightarrow> tile_gap \<Rightarrow> pane_placement list" where
  "allocate_rows ids rect gap = allocate_strips ids rect Vertical gap"

text \<open>
  The row loop of the grid. The state \<^verbatim>\<open>placed\<close> is the index of the next pane: the loop writes
  \<^verbatim>\<open>ids[placed]\<close> for each cell of a row and stops a row early when no pane is left.
\<close>

fun grid_row :: "pane_id list \<Rightarrow> float_rect list \<Rightarrow> nat \<Rightarrow> pane_placement list \<times> nat" where
  "grid_row ids [] placed = ([], placed)"
| "grid_row ids (cell # cells) placed =
     (if length ids \<le> placed then ([], placed)
      else let (placements, placed') = grid_row ids cells (placed + 1)
           in (\<lparr>placed_id = ids ! placed, placed_rect = cell\<rparr> # placements, placed'))"

fun grid_loop :: "pane_id list \<Rightarrow> nat \<Rightarrow> tile_gap \<Rightarrow> float_rect list \<Rightarrow> nat \<Rightarrow> pane_placement list" where
  "grid_loop ids cols gap [] placed = []"
| "grid_loop ids cols gap (row_rect # rows) placed =
     (let remaining = length ids - placed;
          cells_in_row = (if rows = [] then remaining else min cols remaining)
      in if cells_in_row = 0 then grid_loop ids cols gap rows placed
         else let (placements, placed') =
                grid_row ids (split_evenly row_rect Horizontal cells_in_row gap) placed
              in placements @ grid_loop ids cols gap rows placed')"

definition grid_cols :: "nat \<Rightarrow> nat" where
  "grid_cols n = f32_to_usize (f32_ceil (f32_sqrt (f32_of_nat n)))"

definition div_ceil :: "nat \<Rightarrow> nat \<Rightarrow> nat" where
  "div_ceil a b = a div b + (if a mod b = 0 then 0 else 1)"

definition allocate_grid :: "pane_id list \<Rightarrow> float_rect \<Rightarrow> tile_gap \<Rightarrow> pane_placement list" where
  "allocate_grid ids rect gap =
     (let n = length ids in
      if n = 0 then []
      else if n = 1 then [\<lparr>placed_id = ids ! 0, placed_rect = rect\<rparr>]
      else let cols = grid_cols n;
               rows = div_ceil n cols
           in grid_loop ids cols gap (split_evenly rect Vertical rows gap) 0)"

subsection \<open>The scrollable strip\<close>

definition sanitize_scrollable_width :: "f32 \<Rightarrow> f32" where
  "sanitize_scrollable_width value =
     (if is_finite value then f32_clamp value MIN_SPLIT_RATIO MAX_SPLIT_RATIO
      else DEFAULT_SCROLLABLE_WIDTH)"

definition scrollable_column_width :: "f32 \<Rightarrow> f32 \<Rightarrow> f32" where
  "scrollable_column_width viewport_w width_frac =
     (let viewport_w = f32_max viewport_w (Fin 1);
          ratio = sanitize_scrollable_width width_frac;
          lowest = f32_max (f32_ceil (MIN_SPLIT_RATIO * viewport_w)) (Fin 1);
          highest = f32_max (f32_floor (MAX_SPLIT_RATIO * viewport_w)) lowest
      in f32_clamp (f32_round (viewport_w * ratio)) lowest highest)"

definition scrollable_allocated_widths :: "(pane_id \<times> f32) list \<Rightarrow> f32 \<Rightarrow> f32 \<Rightarrow> f32 list" where
  "scrollable_allocated_widths panes viewport_w usable_gap =
     (let viewport_w = f32_max viewport_w (Fin 1);
          bases = map (\<lambda>(_, frac). scrollable_column_width viewport_w frac) panes
      in case bases of
           [_] \<Rightarrow> [viewport_w]
         | [a, b] \<Rightarrow>
             (if a + b + usable_gap \<le> viewport_w + Fin (1 / 2) then
                let free = f32_max (viewport_w - usable_gap - a - b) (Fin 0);
                    extra0 = f32_floor (free div Fin 2);
                    extra1 = free - extra0
                in [a + extra0, b + extra1]
              else bases)
         | _ \<Rightarrow> bases)"

fun strip_prefix :: "f32 \<Rightarrow> f32 \<Rightarrow> f32 list \<Rightarrow> f32 list" where
  "strip_prefix usable_gap start [] = [start]"
| "strip_prefix usable_gap start (width # widths) =
     start # strip_prefix usable_gap
       (start + width + (if widths \<noteq> [] then usable_gap else Fin 0)) widths"

definition scroll_offset ::
  "(pane_id \<times> f32) list \<Rightarrow> f32 list \<Rightarrow> f32 list \<Rightarrow> float_rect \<Rightarrow> float_rect \<Rightarrow>
   pane_id option \<Rightarrow> scrollable_reveal_edge \<Rightarrow> f32 option" where
  "scroll_offset panes widths prefix layout visible anchor reveal_edge =
     (let strip_w = prefix ! length panes;
          vis_left = rx visible;
          vis_right = rx visible + f32_max (rw visible) (Fin 1);
          vis_w = f32_max (vis_right - vis_left) (Fin 1)
      in if strip_w \<le> vis_w + Fin (1 / 2) then Some (rx layout - vis_left)
         else
           let scroll_min = rx layout - vis_left;
               scroll_max = rx layout + strip_w - vis_right;
               anchor_index =
                 (case anchor of None \<Rightarrow> 0
                  | Some pid \<Rightarrow>
                      (case position_of (\<lambda>(pane, _). pane = pid) panes of Some i \<Rightarrow> i | None \<Rightarrow> 0));
               desired =
                 (case reveal_edge of
                    RevealLeft \<Rightarrow> rx layout + prefix ! anchor_index - vis_left
                  | RevealRight \<Rightarrow>
                      rx layout + (prefix ! anchor_index + widths ! anchor_index) - vis_right
                  | LeftOffset cells \<Rightarrow>
                      rx layout + prefix ! anchor_index - vis_left - f32_of_nat (unat cells))
           in clamp_checked desired (f32_min scroll_min scroll_max) (f32_max scroll_max scroll_min))"

text \<open>
  \<open>None\<close> is the panic of \<^verbatim>\<open>f32::clamp\<close>, which needs its lower bound at or below its upper one; on
  finite rectangles it does not occur.
\<close>

definition allocate_scrollable_with_visible ::
  "(pane_id \<times> f32) list \<Rightarrow> float_rect \<Rightarrow> float_rect \<Rightarrow> tile_gap \<Rightarrow> pane_id option \<Rightarrow>
   scrollable_reveal_edge \<Rightarrow> pane_placement list option" where
  "allocate_scrollable_with_visible panes layout visible gap anchor reveal_edge =
     (if panes = [] then Some []
      else
        let gap = for_axis gap Horizontal;
            usable = (if gap < rw layout then gap else Fin 0);
            widths = scrollable_allocated_widths panes (rw layout) usable;
            prefix = strip_prefix usable (Fin 0) widths
        in map_option (\<lambda>scroll.
             map (\<lambda>((pid, _), start, width).
                    \<lparr>placed_id = pid,
                     placed_rect = \<lparr>rx = rx layout + start - scroll, ry = ry layout, rw = width, rh = rh layout\<rparr>\<rparr>)
                 (zip panes (zip prefix widths)))
             (scroll_offset panes widths prefix layout visible anchor reveal_edge))"

definition allocate_scrollable ::
  "(pane_id \<times> f32) list \<Rightarrow> float_rect \<Rightarrow> tile_gap \<Rightarrow> pane_id option \<Rightarrow> scrollable_reveal_edge \<Rightarrow>
   pane_placement list option" where
  "allocate_scrollable panes rect gap anchor reveal_edge =
     allocate_scrollable_with_visible panes rect rect gap anchor reveal_edge"

end
