(* ===== verification/TileCells.thy ===== *)
theory TileCells
  imports TileAlloc
begin

text \<open>
  The allocations of \<open>TileAlloc\<close> on whole cells. A \<open>crect\<close> is a rectangle of terminal cells; \<open>embed\<close>
  is the floating-point rectangle the code holds for it. Each allocator maps an embedded canvas to
  embedded rectangles, and the number of rectangles that cover a cell (\<open>hits\<close>) is at most one inside
  the canvas, exactly one there when the panes touch, and zero outside.
\<close>

subsection \<open>Rectangles of cells\<close>

record crect =
  cx :: int
  cy :: int
  cw :: int
  ch :: int

definition embed :: "crect \<Rightarrow> float_rect" where
  "embed c = cell_rect (cx c) (cy c) (cw c) (ch c)"

definition cell_extent :: "crect \<Rightarrow> split_axis \<Rightarrow> int" where
  "cell_extent c axis = (case axis of Horizontal \<Rightarrow> cw c | Vertical \<Rightarrow> ch c)"

definition cell_start :: "crect \<Rightarrow> split_axis \<Rightarrow> int" where
  "cell_start c axis = (case axis of Horizontal \<Rightarrow> cx c | Vertical \<Rightarrow> cy c)"

definition cell_cut :: "crect \<Rightarrow> split_axis \<Rightarrow> int \<Rightarrow> int \<Rightarrow> crect" where
  "cell_cut c axis start len =
     (case axis of Horizontal \<Rightarrow> c\<lparr>cx := start, cw := len\<rparr> | Vertical \<Rightarrow> c\<lparr>cy := start, ch := len\<rparr>)"

definition covers :: "crect \<Rightarrow> int \<times> int \<Rightarrow> bool" where
  "covers c p \<longleftrightarrow> cx c \<le> fst p \<and> fst p < cx c + cw c \<and> cy c \<le> snd p \<and> snd p < cy c + ch c"

definition hits :: "crect list \<Rightarrow> int \<times> int \<Rightarrow> nat" where
  "hits cs p = length (filter (\<lambda>c. covers c p) cs)"

lemma hits_simps [simp]:
  "hits [] p = 0"
  "hits (c # cs) p = of_bool (covers c p) + hits cs p"
  "hits (cs @ ds) p = hits cs p + hits ds p"
  by (simp_all add: hits_def)

text \<open>
  Canvases whose coordinates single precision holds exactly, with room to add. A terminal has at
  most \<open>2 ^ 16 - 1\<close> columns and rows.
\<close>

definition on_grid :: "crect \<Rightarrow> bool" where
  "on_grid c \<longleftrightarrow> 0 \<le> cx c \<and> 0 \<le> cy c \<and> 0 \<le> cw c \<and> 0 \<le> ch c \<and> cx c + cw c \<le> 2 ^ 20 \<and> cy c + ch c \<le> 2 ^ 20"

fun strip_span :: "int \<Rightarrow> int list \<Rightarrow> int" where
  "strip_span g [] = 0"
| "strip_span g [l] = l"
| "strip_span g (l # ls) = l + g + strip_span g ls"

fun strips :: "crect \<Rightarrow> split_axis \<Rightarrow> int \<Rightarrow> int \<Rightarrow> int list \<Rightarrow> crect list" where
  "strips c axis g start [] = []"
| "strips c axis g start (l # ls) = cell_cut c axis start l # strips c axis g (start + l + g) ls"

lemma length_strips [simp]: "length (strips c axis g start ls) = length ls"
  by (induction ls arbitrary: start) auto

lemma cut_simps [simp]:
  "cell_extent (cell_cut c axis s l) axis = l"
  "cell_start (cell_cut c axis s l) axis = s"
  by (cases axis; simp add: cell_cut_def cell_extent_def cell_start_def)+

lemma cut_self [simp]: "cell_cut c axis (cell_start c axis) (cell_extent c axis) = c"
  by (cases axis) (simp_all add: cell_cut_def cell_extent_def cell_start_def)

lemma covers_cut:
  "covers (cell_cut c axis s l) p \<longleftrightarrow>
    (case axis of
       Horizontal \<Rightarrow> s \<le> fst p \<and> fst p < s + l \<and> cy c \<le> snd p \<and> snd p < cy c + ch c
     | Vertical \<Rightarrow> s \<le> snd p \<and> snd p < s + l \<and> cx c \<le> fst p \<and> fst p < cx c + cw c)"
  by (cases axis) (auto simp: covers_def cell_cut_def)

lemma span_nonneg: "0 \<le> g \<Longrightarrow> \<forall>l \<in> set ls. 0 \<le> l \<Longrightarrow> 0 \<le> strip_span g ls"
  by (induction g ls rule: strip_span.induct) auto

lemma hits_strips:
  assumes "0 \<le> g" "\<forall>l \<in> set ls. 0 \<le> l"
  shows "hits (strips c axis g s ls) p \<le> of_bool (covers (cell_cut c axis s (strip_span g ls)) p)
    \<and> (g = 0 \<and> ls \<noteq> [] \<longrightarrow> hits (strips c axis g s ls) p = of_bool (covers (cell_cut c axis s (strip_span g ls)) p))"
  using assms
proof (induction g ls arbitrary: s rule: strip_span.induct)
  case (3 g l l' ls)
  define T where "T = strip_span g (l' # ls)"
  have T: "0 \<le> T" using 3 by (auto simp: T_def intro!: span_nonneg)
  have prems: "0 \<le> g" "\<forall>l \<in> set (l' # ls). 0 \<le> l" using 3(2,3) by auto
  note ih = 3(1) [OF prems, of "s + l + g"]
  have IH: "hits (strips c axis g (s + l + g) (l' # ls)) p \<le> of_bool (covers (cell_cut c axis (s + l + g) T) p)"
    "g = 0 \<Longrightarrow> hits (strips c axis g (s + l + g) (l' # ls)) p = of_bool (covers (cell_cut c axis (s + l + g) T) p)"
    unfolding T_def using ih by blast+
  have "0 \<le> l" "0 \<le> g" using 3 by auto
  then have add: "of_bool (covers (cell_cut c axis s l) p) + of_bool (covers (cell_cut c axis (s + l + g) T) p)
      \<le> (of_bool (covers (cell_cut c axis s (l + g + T)) p) :: nat)"
    and eq: "g = 0 \<Longrightarrow> of_bool (covers (cell_cut c axis s l) p) + of_bool (covers (cell_cut c axis (s + l + g) T) p)
      = (of_bool (covers (cell_cut c axis s (l + g + T)) p) :: nat)"
    using T by (cases axis; auto simp: covers_cut of_bool_def)+
  have "strips c axis g s (l # l' # ls) = cell_cut c axis s l # strips c axis g (s + l + g) (l' # ls)"
    and "strip_span g (l # l' # ls) = l + g + T" by (simp_all add: T_def)
  then show ?case using IH add eq by (cases "g = 0") (simp_all only: hits_simps, auto)
qed auto

text \<open>Cutting a canvas into strips that span it: the fact every allocator below rests on.\<close>

lemma hits_strips_whole:
  assumes "0 \<le> g" "\<forall>l \<in> set ls. 0 \<le> l" "strip_span g ls = cell_extent c axis"
  shows "hits (strips c axis g (cell_start c axis) ls) p \<le> of_bool (covers c p)"
    and "g = 0 \<Longrightarrow> ls \<noteq> [] \<Longrightarrow> hits (strips c axis g (cell_start c axis) ls) p = of_bool (covers c p)"
  using hits_strips [OF assms(1,2), of c axis "cell_start c axis" p] assms(3) by auto

lemma on_grid_cut:
  assumes "on_grid c" "cell_start c axis \<le> s" "0 \<le> l" "s + l \<le> cell_start c axis + cell_extent c axis"
  shows "on_grid (cell_cut c axis s l)"
  using assms by (cases axis) (auto simp: on_grid_def cell_cut_def cell_start_def cell_extent_def)

lemma on_grid_strips:
  assumes "on_grid c" "cell_start c axis \<le> s" "0 \<le> g" "\<forall>l \<in> set ls. 0 \<le> l"
    and "s + strip_span g ls \<le> cell_start c axis + cell_extent c axis"
  shows "\<forall>d \<in> set (strips c axis g s ls). on_grid d"
  using assms
proof (induction g ls arbitrary: s rule: strip_span.induct)
  case (3 g l l' ls)
  have "0 \<le> strip_span g (l' # ls)" using 3 by (intro span_nonneg) auto
  moreover have "\<forall>d \<in> set (strips c axis g (s + l + g) (l' # ls)). on_grid d"
    using 3 by (intro 3) auto
  ultimately show ?case using 3 by (auto intro!: on_grid_cut)
qed (auto intro: on_grid_cut)

lemma embed_cut:
  "embed (cell_cut c axis s l) = segment (embed c) axis (whole s) (whole l)"
  by (cases axis) (simp_all add: embed_def cell_cut_def segment_def cell_rect_def)

lemma embed_simps [simp]:
  "axis_extent (embed c) axis = whole (cell_extent c axis)"
  "axis_start (embed c) axis = whole (cell_start c axis)"
  by (cases axis; simp add: embed_def cell_rect_def axis_extent_def axis_start_def
      cell_extent_def cell_start_def)+

lemma on_grid_axis:
  assumes "on_grid c"
  shows "0 \<le> cell_start c axis" "0 \<le> cell_extent c axis" "cell_start c axis + cell_extent c axis \<le> 2 ^ 20"
    "cell_start c axis \<le> 2 ^ 20" "cell_extent c axis \<le> 2 ^ 20"
  using assms by (cases axis; simp add: on_grid_def cell_start_def cell_extent_def)+

subsection \<open>Splitting a canvas in two\<close>

text \<open>The share of a clamped ratio, in cells: \<^verbatim>\<open>(available * ratio).round()\<close>.\<close>

definition first_cells :: "int \<Rightarrow> f32 \<Rightarrow> int" where
  "first_cells A ratio =
     (case f32_round (whole A * clamp_split_ratio ratio) of Fin q \<Rightarrow> \<lfloor>q\<rfloor> | _ \<Rightarrow> 0)"

lemma clamp_split_ratio_bounds:
  "\<exists>q. clamp_split_ratio r = Fin q \<and> 13421773 / 67108864 \<le> q \<and> q \<le> 13421773 / 16777216"
proof (cases "is_finite r")
  case True
  then show ?thesis by (auto simp: is_finite_iff clamp_split_ratio_def ratio_constants)
next
  case False
  then show ?thesis by (intro exI [of _ "9730785 / 16777216"]) (simp add: clamp_split_ratio_def ratio_constants)
qed

lemma first_cells:
  assumes "0 \<le> A" "A \<le> 2 ^ 20"
  shows "f32_round (whole A * clamp_split_ratio r) = whole (first_cells A r)"
    and "0 \<le> first_cells A r" and "first_cells A r \<le> A"
proof -
  obtain q where q: "clamp_split_ratio r = Fin q" "0 \<le> q" "q \<le> 1"
    using clamp_split_ratio_bounds [of r] by auto
  have "of_int 0 \<le> of_int A * q" "of_int A * q \<le> of_int A"
    using q assms by (auto intro: mult_left_le)
  then obtain v where v: "rnd (of_int A * q) = Fin v" "of_int 0 \<le> v" "v \<le> of_int A"
    using rnd_between [of 0 "of_int A * q" A] assms by auto
  then show "f32_round (whole A * clamp_split_ratio r) = whole (first_cells A r)"
    and "0 \<le> first_cells A r" and "first_cells A r \<le> A"
    using round_away_between(1) [of 0 v] round_away_between(2) [of v A] by (auto simp: first_cells_def q)
qed

lemma split_bounds:
  assumes "3 \<le> A" "A \<le> 2 ^ 20"
  shows "1 \<le> first_cells A r \<and> first_cells A r \<le> A - 1"
proof -
  obtain q where q: "clamp_split_ratio r = Fin q" "13421773 / 67108864 \<le> q" "q \<le> 13421773 / 16777216"
    using clamp_split_ratio_bounds [of r] by auto
  have "1 / 2 \<le> of_int A * q"
  proof -
    have "(1 / 2 :: rat) \<le> 3 * (13421773 / 67108864)" by simp
    also have "\<dots> \<le> of_int A * q" using q assms by (intro mult_mono) auto
    finally show ?thesis .
  qed
  then have lo: "1 / 2 \<le> rval (of_int A * q)"
    using rval_mono [of "1 / 2"] rval_exact [of "1 / 2" 1 "-1"] by auto
  have "of_int A * q \<le> of_int (16 * A - 9) * 2 powi (-4)"
  proof -
    have "of_int A * q \<le> of_int A * (13421773 / 16777216)" using q assms by (intro mult_left_mono) auto
    also have "\<dots> \<le> of_int (16 * A - 9) * 2 powi (-4)"
      using assms(1) by (simp add: power_int_minus field_simps)
    finally show ?thesis .
  qed
  then have "rval (of_int A * q) \<le> rval (of_int (16 * A - 9) * 2 powi (-4))" by (rule rval_mono)
  also have "\<dots> = of_int (16 * A - 9) * 2 powi (-4)"
    using assms by (intro rval_exact [OF refl]) auto
  finally have hi: "rval (of_int A * q) < of_int A - 1 / 2" by (simp add: power_int_minus field_simps)
  have "rnd (of_int A * q) = Fin (rval (of_int A * q))"
  proof (rule rnd_small)
    have "of_int A \<le> (2 ^ 20 :: rat)" using assms(2) by (metis of_int_le_iff of_int_numeral of_int_power)
    then show "\<bar>rval (of_int A * q)\<bar> < 2 ^ 128" using lo hi by simp
  qed
  moreover have "1 \<le> round_away (rval (of_int A * q))"
    using lo by (simp add: round_away_def le_floor_iff)
  moreover have "round_away (rval (of_int A * q)) < A"
    using lo hi by (simp add: round_away_def floor_less_iff)
  ultimately show ?thesis by (simp add: first_cells_def q)
qed

text \<open>The gap a split uses: none where the region is not wider than the gap.\<close>

definition cell_gap :: "int \<Rightarrow> int \<Rightarrow> int" where
  "cell_gap extent gap = (if gap < extent then gap else 0)"

lemma cell_gap_bounds:
  "0 \<le> g \<Longrightarrow> 0 \<le> e \<Longrightarrow> 0 \<le> cell_gap e g \<and> cell_gap e g \<le> e"
  "cell_gap e 0 = 0"
  by (auto simp: cell_gap_def)

definition cell_gaps :: "int \<Rightarrow> int \<Rightarrow> split_axis \<Rightarrow> int" where
  "cell_gaps gh gv axis = (case axis of Horizontal \<Rightarrow> gh | Vertical \<Rightarrow> gv)"

definition whole_gap :: "int \<Rightarrow> int \<Rightarrow> tile_gap" where
  "whole_gap gh gv = \<lparr>gap_horizontal = whole gh, gap_vertical = whole gv\<rparr>"

lemma for_axis_whole [simp]: "for_axis (whole_gap gh gv) axis = whole (cell_gaps gh gv axis)"
  by (cases axis) (simp_all add: whole_gap_def cell_gaps_def)

lemma split_float_rect_segment:
  "split_float_rect rect axis ratio gap =
    (let g = for_axis gap axis;
         g = (if g < axis_extent rect axis then g else Fin 0);
         available = f32_max (axis_extent rect axis - g) (Fin 0);
         first = f32_round (available * clamp_split_ratio ratio)
     in (segment rect axis (axis_start rect axis) first,
         segment rect axis (axis_start rect axis + first + g) (available - first)))"
  by (cases axis) (simp_all add: split_float_rect_def axis_extent_def axis_start_def segment_def Let_def)

definition cell_split :: "crect \<Rightarrow> split_axis \<Rightarrow> f32 \<Rightarrow> int \<Rightarrow> crect list" where
  "cell_split c axis ratio gap =
     (let g = cell_gap (cell_extent c axis) gap;
          A = cell_extent c axis - g;
          k = first_cells A ratio
      in strips c axis g (cell_start c axis) [k, A - k])"

lemma split_float_rect_cells:
  assumes c: "on_grid c" and g: "0 \<le> gh" "0 \<le> gv"
  shows "split_float_rect (embed c) axis ratio (whole_gap gh gv) =
    (embed (cell_split c axis ratio (cell_gaps gh gv axis) ! 0),
     embed (cell_split c axis ratio (cell_gaps gh gv axis) ! 1))"
proof -
  have e: "0 \<le> cell_extent c axis" "cell_extent c axis \<le> 2 ^ 20" "0 \<le> cell_start c axis"
    "cell_start c axis \<le> 2 ^ 20"
    using on_grid_axis [OF c] by auto
  define g' where "g' = cell_gap (cell_extent c axis) (cell_gaps gh gv axis)"
  have g': "0 \<le> g'" "g' \<le> cell_extent c axis"
    using cell_gap_bounds(1) [OF _ e(1), of "cell_gaps gh gv axis"] g
    by (auto simp: g'_def cell_gaps_def split: split_axis.splits)
  define A where "A = cell_extent c axis - g'"
  have A: "0 \<le> A" "A \<le> 2 ^ 20" using e g' by (simp_all add: A_def)
  define k where "k = first_cells A ratio"
  have k: "f32_round (whole A * clamp_split_ratio ratio) = whole k" "0 \<le> k" "k \<le> A"
    using first_cells [OF A] by (simp_all add: k_def)
  have gap: "(if whole (cell_gaps gh gv axis) < whole (cell_extent c axis)
      then whole (cell_gaps gh gv axis) else Fin 0) = whole g'"
    by (simp add: g'_def cell_gap_def)
  have avail: "f32_max (whole (cell_extent c axis) - whole g') (Fin 0) = whole A"
    using e g' by (subst whole_arith) (auto simp: A_def max_def)
  have second: "whole A - whole k = whole (A - k)" using k A by (intro whole_arith) auto
  have start: "whole (cell_start c axis) + whole k + whole g' = whole (cell_start c axis + k + g')"
    using e g' k A by (subst whole_arith(1), simp)+ simp
  have split: "cell_split c axis ratio (cell_gaps gh gv axis) =
      [cell_cut c axis (cell_start c axis) k, cell_cut c axis (cell_start c axis + k + g') (A - k)]"
    by (simp add: cell_split_def g'_def A_def k_def Let_def)
  show ?thesis
    unfolding split embed_cut nth_Cons_0 One_nat_def nth_Cons_Suc
    by (simp only: split_float_rect_segment for_axis_whole embed_simps Let_def gap avail k(1) second start)
qed

lemma cell_gaps_nonneg [simp]: "0 \<le> gh \<Longrightarrow> 0 \<le> gv \<Longrightarrow> 0 \<le> cell_gaps gh gv axis"
  by (cases axis) (simp_all add: cell_gaps_def)

lemma cell_split_facts:
  assumes c: "on_grid c" and g: "0 \<le> g"
  shows "on_grid (cell_split c axis ratio g ! 0) \<and> on_grid (cell_split c axis ratio g ! 1)"
    and "of_bool (covers (cell_split c axis ratio g ! 0) p) + of_bool (covers (cell_split c axis ratio g ! 1) p)
      \<le> (of_bool (covers c p) :: nat)"
    and "g = 0 \<Longrightarrow> of_bool (covers (cell_split c axis ratio g ! 0) p) + of_bool (covers (cell_split c axis ratio g ! 1) p)
      = (of_bool (covers c p) :: nat)"
proof -
  have e: "0 \<le> cell_extent c axis" "cell_extent c axis \<le> 2 ^ 20" using on_grid_axis [OF c] by auto
  define g' where "g' = cell_gap (cell_extent c axis) g"
  have g': "0 \<le> g'" "g' \<le> cell_extent c axis" "g = 0 \<Longrightarrow> g' = 0"
    using g e(1) by (simp_all add: g'_def cell_gap_def)
  define k where "k = first_cells (cell_extent c axis - g') ratio"
  have k: "0 \<le> k" "k \<le> cell_extent c axis - g'"
    using first_cells(2,3) [of "cell_extent c axis - g'"] e g' by (simp_all add: k_def)
  define ls where "ls = [k, cell_extent c axis - g' - k]"
  have split: "cell_split c axis ratio g = strips c axis g' (cell_start c axis) ls"
    by (simp add: cell_split_def ls_def k_def g'_def Let_def)
  have ls: "\<forall>l \<in> set ls. 0 \<le> l" "strip_span g' ls = cell_extent c axis" "ls \<noteq> []"
    using k by (auto simp: ls_def)
  obtain c0 c1 where cs: "cell_split c axis ratio g = [c0, c1]"
    by (simp add: split ls_def)
  have on: "\<forall>d \<in> set (cell_split c axis ratio g). on_grid d"
    unfolding split using ls(2) by (intro on_grid_strips [OF c order_refl g'(1) ls(1)]) simp
  have hits: "hits (cell_split c axis ratio g) p \<le> of_bool (covers c p)"
    "g = 0 \<Longrightarrow> hits (cell_split c axis ratio g) p = of_bool (covers c p)"
    unfolding split using hits_strips_whole [OF g'(1) ls(1,2)] g'(3) ls(3) by blast+
  show "on_grid (cell_split c axis ratio g ! 0) \<and> on_grid (cell_split c axis ratio g ! 1)"
    using on by (simp add: cs)
  show "of_bool (covers (cell_split c axis ratio g ! 0) p) + of_bool (covers (cell_split c axis ratio g ! 1) p)
      \<le> (of_bool (covers c p) :: nat)"
    using hits(1) by (simp add: cs)
  show "of_bool (covers (cell_split c axis ratio g ! 0) p) + of_bool (covers (cell_split c axis ratio g ! 1) p)
      = (of_bool (covers c p) :: nat)" if "g = 0"
    using hits(2) [OF that] by (simp add: cs)
qed

subsection \<open>The Dwindle tree\<close>

fun tree_cells :: "dwindle_tree \<Rightarrow> int \<Rightarrow> int \<Rightarrow> crect \<Rightarrow> crect list" where
  "tree_cells (Leaf pid) gh gv c = [c]"
| "tree_cells (Split axis ratio first second) gh gv c =
     (let halves = cell_split c axis ratio (cell_gaps gh gv axis)
      in tree_cells first gh gv (halves ! 0) @ tree_cells second gh gv (halves ! 1))"

text \<open>Placements of panes on cells.\<close>

definition place :: "pane_id list \<Rightarrow> crect list \<Rightarrow> pane_placement list" where
  "place ids cs = map (\<lambda>(pid, c). \<lparr>placed_id = pid, placed_rect = embed c\<rparr>) (zip ids cs)"

lemma place_simps [simp]:
  "place [] cs = []"
  "place ids [] = []"
  "place (pid # ids) (c # cs) = \<lparr>placed_id = pid, placed_rect = embed c\<rparr> # place ids cs"
  by (simp_all add: place_def)

lemma place_append: "length ids = length cs \<Longrightarrow> place (ids @ ids') (cs @ cs') = place ids cs @ place ids' cs'"
  by (simp add: place_def)

lemma ids_place [simp]: "length ids = length cs \<Longrightarrow> map placed_id (place ids cs) = ids"
  by (induction ids cs rule: list_induct2) auto

lemma length_tree_cells [simp]: "length (tree_cells t gh gv c) = length (leaves t)"
  by (induction t arbitrary: c) (auto simp: Let_def)

lemma allocate_dwindle_cells:
  assumes "on_grid c" "0 \<le> gh" "0 \<le> gv"
  shows "allocate_dwindle t (embed c) (whole_gap gh gv) = place (leaves t) (tree_cells t gh gv c)"
  using assms
proof (induction t arbitrary: c)
  case (Split axis ratio a b)
  then show ?case
    using cell_split_facts(1) [OF Split.prems(1), of "cell_gaps gh gv axis" axis ratio]
    by (simp add: split_float_rect_cells Let_def place_append)
qed simp

lemma on_grid_tree_cells:
  assumes "on_grid c" "0 \<le> gh" "0 \<le> gv"
  shows "\<forall>d \<in> set (tree_cells t gh gv c). on_grid d"
  using assms
proof (induction t arbitrary: c)
  case (Split axis ratio a b)
  define g where "g = cell_gaps gh gv axis"
  have g: "0 \<le> g" using Split.prems by (simp add: g_def)
  have on: "on_grid (cell_split c axis ratio g ! 0)" "on_grid (cell_split c axis ratio g ! 1)"
    using cell_split_facts(1) [OF Split.prems(1) g, of axis ratio] by blast+
  have "tree_cells (Split axis ratio a b) gh gv c =
      tree_cells a gh gv (cell_split c axis ratio g ! 0) @ tree_cells b gh gv (cell_split c axis ratio g ! 1)"
    by (simp add: g_def Let_def)
  then show ?case
    using Split.IH(1) [OF on(1) Split.prems(2,3)] Split.IH(2) [OF on(2) Split.prems(2,3)]
    by (simp only: set_append ball_Un)
qed simp

lemma hits_tree_cells:
  assumes "on_grid c" "0 \<le> gh" "0 \<le> gv"
  shows "hits (tree_cells t gh gv c) p \<le> of_bool (covers c p) \<and>
    (gh = 0 \<and> gv = 0 \<longrightarrow> hits (tree_cells t gh gv c) p = of_bool (covers c p))"
  using assms
proof (induction t arbitrary: c)
  case (Split axis ratio a b)
  define g where "g = cell_gaps gh gv axis"
  have g: "0 \<le> g" "gh = 0 \<and> gv = 0 \<Longrightarrow> g = 0"
    using Split.prems by (cases axis; simp add: g_def cell_gaps_def)+
  define c0 c1 where "c0 = cell_split c axis ratio g ! 0" and "c1 = cell_split c axis ratio g ! 1"
  note facts = cell_split_facts [OF Split.prems(1) g(1), of axis ratio, folded c0_def c1_def]
  have on: "on_grid c0" "on_grid c1" using facts(1) by auto
  have "tree_cells (Split axis ratio a b) gh gv c = tree_cells a gh gv c0 @ tree_cells b gh gv c1"
    by (simp add: c0_def c1_def g_def Let_def)
  then show ?case
    using Split.IH(1) [OF on(1) Split.prems(2,3)] Split.IH(2) [OF on(2) Split.prems(2,3)]
      facts(2) [of p] facts(3) [of p] g(2)
    by (simp only: hits_simps) linarith
qed simp

subsection \<open>Even and balanced strips\<close>

text \<open>The gaps between \<open>n\<close> strips leave something of the canvas to divide.\<close>

definition strips_fit :: "crect \<Rightarrow> split_axis \<Rightarrow> int \<Rightarrow> nat \<Rightarrow> bool" where
  "strips_fit c axis g n \<longleftrightarrow> cell_gap (cell_extent c axis) g * (int n - 1) \<le> cell_extent c axis \<and> n \<le> 2 ^ 20"

definition strip_space :: "crect \<Rightarrow> split_axis \<Rightarrow> int \<Rightarrow> nat \<Rightarrow> int" where
  "strip_space c axis g n = cell_extent c axis - cell_gap (cell_extent c axis) g * (int n - 1)"

definition even_lens :: "nat \<Rightarrow> int \<Rightarrow> int \<Rightarrow> int list" where
  "even_lens n b r = (if n = 0 then [] else replicate (n - 1) b @ [r - int (n - 1) * b])"

definition balanced_lens :: "nat \<Rightarrow> int \<Rightarrow> nat \<Rightarrow> int list" where
  "balanced_lens n b x = replicate x (b + 1) @ replicate (n - x) b"

lemma strip_span_sum: "ls \<noteq> [] \<Longrightarrow> strip_span g ls = sum_list ls + g * (int (length ls) - 1)"
  by (induction g ls rule: strip_span.induct) (auto simp: algebra_simps)

lemma even_lens_rec:
  "even_lens 0 b r = []"
  "even_lens (Suc 0) b r = [r]"
  "even_lens (Suc (Suc k)) b r = b # even_lens (Suc k) b (r - b)"
  by (simp_all add: even_lens_def algebra_simps)

lemma strip_space_nonneg: "strips_fit c axis g n \<Longrightarrow> 0 \<le> strip_space c axis g n"
  by (simp add: strips_fit_def strip_space_def)

lemma whole_min_le: "a \<le> b \<Longrightarrow> f32_min (whole a) (whole b) = whole a"
  by simp

lemma whole_step:
  assumes "0 \<le> s" "0 \<le> l" "0 \<le> g" "s + l + g \<le> 2 ^ 24"
  shows "whole s + (whole l + whole g) = whole (s + l + g)"
proof -
  have "whole l + whole g = whole (l + g)" using assms by (intro whole_arith(1)) linarith
  moreover have "whole s + whole (l + g) = whole (s + (l + g))" using assms by (intro whole_arith(1)) linarith
  ultimately show ?thesis by (simp only: add.assoc)
qed

lemma evenly_loop_cells:
  assumes "0 \<le> b" "b * int k \<le> r" "0 \<le> s" "0 \<le> g" "s + r + g * int k \<le> 2 ^ 24"
  shows "evenly_loop k (embed c) axis (whole g) (whole b) (whole s) (whole r) =
    map embed (strips c axis g s (even_lens k b r))"
  using assms
proof (induction k arbitrary: s r)
  case (Suc k)
  show ?case
  proof (cases k)
    case 0
    then show ?thesis by (simp add: even_lens_rec embed_cut)
  next
    case (Suc j)
    have r: "b \<le> r" "b * int k \<le> r - b" "0 \<le> r"
    proof -
      have bk: "0 \<le> b * int k" using Suc.prems by simp
      have "b + b * int k \<le> r" using Suc.prems by (simp add: algebra_simps)
      then show "b \<le> r" "b * int k \<le> r - b" "0 \<le> r" using bk \<open>0 \<le> b\<close> by linarith+
    qed
    have gk: "0 \<le> g * int k" using Suc.prems by simp
    have bound: "s + r + g + g * int k \<le> 2 ^ 24" using Suc.prems by (simp add: algebra_simps)
    have next_s: "whole s + (whole b + whole g) = whole (s + b + g)"
      using Suc.prems r gk bound by (intro whole_step) linarith+
    have next_r: "f32_max (whole r - whole b) (Fin 0) = whole (r - b)"
    proof -
      have "\<bar>r - b\<bar> \<le> 2 ^ 24" using Suc.prems r gk bound by linarith
      then show ?thesis using r by (simp only: whole_arith(2)) simp
    qed
    have "evenly_loop k (embed c) axis (whole g) (whole b) (whole (s + b + g)) (whole (r - b)) =
        map embed (strips c axis g (s + b + g) (even_lens k b (r - b)))"
      using Suc.prems r bound by (intro Suc.IH) auto
    moreover have "even_lens (Suc k) b r = b # even_lens k b (r - b)"
      using \<open>k = Suc j\<close> by (simp add: even_lens_rec)
    moreover have "k \<noteq> 0" using \<open>k = Suc j\<close> by simp
    ultimately show ?thesis
      by (simp only: evenly_loop.simps Let_def if_False whole_min_le [OF r(1)] next_s next_r
          embed_cut strips.simps list.map)
  qed
qed (simp add: even_lens_rec)

lemma balanced_loop_cells:
  assumes "0 \<le> b" "0 \<le> s" "0 \<le> g" "s + (b + g) * int k + int x \<le> 2 ^ 24" "x \<le> k"
  shows "balanced_loop k (embed c) axis (whole g) (whole b) x (whole s) =
    map embed (strips c axis g s (balanced_lens k b x))"
  using assms
proof (induction k arbitrary: s x)
  case (Suc k)
  define l where "l = (if 0 < x then b + 1 else b)"
  have bk: "0 \<le> (b + g) * int k" using Suc.prems by simp
  have bound: "s + b + g + (b + g) * int k + int x \<le> 2 ^ 24" using Suc.prems by (simp add: algebra_simps)
  have l: "b \<le> l" "l \<le> b + int x" "l + int (x - 1) = b + int x" "0 \<le> l" using Suc.prems by (auto simp: l_def)
  have len: "whole b + (if 0 < x then Fin 1 else Fin 0) = whole l"
  proof -
    have "\<bar>b + 1\<bar> \<le> 2 ^ 24" if "0 < x" using Suc.prems bk bound that by linarith
    moreover have "\<bar>b + 0\<bar> \<le> 2 ^ 24" using Suc.prems bk bound by linarith
    ultimately show ?thesis
      using whole_arith(1) [of b 1] whole_arith(1) [of b 0] by (auto simp: l_def)
  qed
  have next_s: "whole s + (whole l + whole g) = whole (s + l + g)"
    using Suc.prems l bk bound by (intro whole_step) linarith+
  have lens: "balanced_lens (Suc k) b x = l # balanced_lens k b (x - 1)"
    using Suc.prems by (cases x) (auto simp: balanced_lens_def l_def)
  have "balanced_loop k (embed c) axis (whole g) (whole b) (x - 1) (whole (s + l + g)) =
      map embed (strips c axis g (s + l + g) (balanced_lens k b (x - 1)))"
    using Suc.prems l bk bound by (intro Suc.IH) auto
  moreover have "(if 0 < x then x - 1 else x) = x - 1" by simp
  ultimately show ?case
    by (simp only: balanced_loop.simps Let_def len next_s lens embed_cut strips.simps list.map)
qed (simp add: balanced_lens_def)

lemma strip_arith:
  assumes c: "on_grid c" and g: "0 \<le> g" and n: "1 \<le> n" and fit: "strips_fit c axis g n"
  defines "g' \<equiv> cell_gap (cell_extent c axis) g"
  shows "f32_max (whole (cell_extent c axis) - whole g' * f32_of_nat (n - 1)) (Fin 0) = whole (strip_space c axis g n)"
    and "f32_floor (whole (strip_space c axis g n) div f32_of_nat n) = whole (strip_space c axis g n div int n)"
    and "0 \<le> g'" and "strip_space c axis g n + g' * (int n - 1) = cell_extent c axis"
    and "g' * int n \<le> 2 ^ 21" and "0 \<le> strip_space c axis g n" and "strip_space c axis g n \<le> 2 ^ 20"
proof -
  have e: "0 \<le> cell_extent c axis" "cell_extent c axis \<le> 2 ^ 20" using on_grid_axis [OF c] by auto
  show g': "0 \<le> g'" using g e(1) by (simp add: g'_def cell_gap_def)
  have "g' \<le> cell_extent c axis" using g e(1) by (simp add: g'_def cell_gap_def)
  have fit': "g' * (int n - 1) \<le> cell_extent c axis" "n \<le> 2 ^ 20"
    using fit by (auto simp: strips_fit_def g'_def)
  have gn: "0 \<le> g' * (int n - 1)" using g' n by simp
  show sum: "strip_space c axis g n + g' * (int n - 1) = cell_extent c axis"
    by (simp add: strip_space_def g'_def)
  show A: "0 \<le> strip_space c axis g n" by (rule strip_space_nonneg [OF fit])
  show A': "strip_space c axis g n \<le> 2 ^ 20" using sum gn e by linarith
  show "g' * int n \<le> 2 ^ 21"
    using fit' e \<open>g' \<le> cell_extent c axis\<close> by (simp add: algebra_simps)
  have fn: "f32_of_nat (n - 1) = whole (int n - 1)" "f32_of_nat n = whole (int n)"
    using fit' n by (simp_all add: f32_of_nat_small)
  have "whole g' * whole (int n - 1) = whole (g' * (int n - 1))"
  proof (rule whole_arith(3))
    have "(2::int) ^ 20 \<le> 2 ^ 24" by simp
    then show "\<bar>g' * (int n - 1)\<bar> \<le> 2 ^ 24" using gn fit' e by linarith
  qed
  moreover have "whole (cell_extent c axis) - whole (g' * (int n - 1)) = whole (strip_space c axis g n)"
  proof -
    have "cell_extent c axis - g' * (int n - 1) = strip_space c axis g n" using sum by linarith
    moreover have "whole (cell_extent c axis) - whole (g' * (int n - 1)) = whole (cell_extent c axis - g' * (int n - 1))"
    proof (rule whole_arith(2))
      have "(2::int) ^ 20 \<le> 2 ^ 24" by simp
      then show "\<bar>cell_extent c axis - g' * (int n - 1)\<bar> \<le> 2 ^ 24" using gn fit' e by linarith
    qed
    ultimately show ?thesis by (simp only:)
  qed
  ultimately show "f32_max (whole (cell_extent c axis) - whole g' * f32_of_nat (n - 1)) (Fin 0) = whole (strip_space c axis g n)"
    using A by (simp only: fn) simp
  show "f32_floor (whole (strip_space c axis g n) div f32_of_nat n) = whole (strip_space c axis g n div int n)"
    unfolding fn using A A' fit' n by (intro floor_whole_div) auto
qed

definition even_cells :: "crect \<Rightarrow> split_axis \<Rightarrow> int \<Rightarrow> nat \<Rightarrow> crect list" where
  "even_cells c axis g n =
     strips c axis (cell_gap (cell_extent c axis) g) (cell_start c axis)
       (if n = 1 then [cell_extent c axis]
        else even_lens n (strip_space c axis g n div int n) (strip_space c axis g n))"

definition balanced_cells :: "crect \<Rightarrow> split_axis \<Rightarrow> int \<Rightarrow> nat \<Rightarrow> crect list" where
  "balanced_cells c axis g n =
     strips c axis (cell_gap (cell_extent c axis) g) (cell_start c axis)
       (if n = 1 then [cell_extent c axis]
        else balanced_lens n (strip_space c axis g n div int n) (nat (strip_space c axis g n mod int n)))"

lemma length_even_cells [simp]: "length (even_cells c axis g n) = n"
  by (simp add: even_cells_def even_lens_def)

lemma balanced_count: "0 < n \<Longrightarrow> nat (a mod int n) \<le> n"
  using pos_mod_bound [of "int n" a] by linarith

lemma length_balanced_cells [simp]: "0 < n \<Longrightarrow> length (balanced_cells c axis g n) = n"
  using balanced_count [of n] by (simp add: balanced_cells_def balanced_lens_def)

lemma split_evenly_cells:
  assumes c: "on_grid c" and g: "0 \<le> gh" "0 \<le> gv" and fit: "strips_fit c axis (cell_gaps gh gv axis) n"
  shows "split_evenly (embed c) axis n (whole_gap gh gv) = map embed (even_cells c axis (cell_gaps gh gv axis) n)"
proof -
  consider "n = 0" | "n = 1" | "2 \<le> n" by linarith
  then show ?thesis
  proof cases
    case 3
    let ?g = "cell_gaps gh gv axis"
    from 3 have "1 \<le> n" by simp
    note ar = strip_arith [OF c cell_gaps_nonneg [OF g, of axis] this fit]
    have gap: "(if whole ?g < whole (cell_extent c axis) then whole ?g else Fin 0) = whole (cell_gap (cell_extent c axis) ?g)"
      by (simp add: cell_gap_def)
    have "evenly_loop n (embed c) axis (whole (cell_gap (cell_extent c axis) ?g))
        (whole (strip_space c axis ?g n div int n)) (whole (cell_start c axis)) (whole (strip_space c axis ?g n)) =
      map embed (strips c axis (cell_gap (cell_extent c axis) ?g) (cell_start c axis)
        (even_lens n (strip_space c axis ?g n div int n) (strip_space c axis ?g n)))"
    proof (rule evenly_loop_cells)
      show "strip_space c axis ?g n div int n * int n \<le> strip_space c axis ?g n"
        using 3 by (simp add: minus_mod_eq_div_mult [symmetric])
      show "0 \<le> strip_space c axis ?g n div int n" using ar(6) 3 by (simp add: pos_imp_zdiv_nonneg_iff)
      show "cell_start c axis + strip_space c axis ?g n + cell_gap (cell_extent c axis) ?g * int n \<le> 2 ^ 24"
        using ar(5,7) on_grid_axis(4) [OF c, of axis] by simp
    qed (use ar on_grid_axis(1) [OF c] in auto)
    then show ?thesis
      using 3 by (simp only: split_evenly_def for_axis_whole embed_simps Let_def gap ar(1,2) even_cells_def) simp
  qed (simp_all add: split_evenly_def even_cells_def even_lens_def)
qed

lemma split_balanced_cells:
  assumes c: "on_grid c" and g: "0 \<le> gh" "0 \<le> gv" and fit: "strips_fit c axis (cell_gaps gh gv axis) n" and "0 < n"
  shows "split_balanced (embed c) axis n (whole_gap gh gv) = map embed (balanced_cells c axis (cell_gaps gh gv axis) n)"
proof -
  consider "n = 1" | "2 \<le> n" using \<open>0 < n\<close> by linarith
  then show ?thesis
  proof cases
    case 2
    let ?g = "cell_gaps gh gv axis"
    let ?A = "strip_space c axis ?g n"
    let ?g' = "cell_gap (cell_extent c axis) ?g"
    from 2 have "1 \<le> n" by simp
    note ar = strip_arith [OF c cell_gaps_nonneg [OF g, of axis] this fit]
    have n: "int n \<le> 2 ^ 20" using fit by (simp add: strips_fit_def)
    have b: "0 \<le> ?A div int n" using ar(6) 2 by (simp add: pos_imp_zdiv_nonneg_iff)
    have bn: "?A div int n * int n = ?A - ?A mod int n" by (simp add: minus_mod_eq_div_mult)
    have m: "0 \<le> ?A mod int n" "?A mod int n < int n" "?A mod int n \<le> ?A"
      using 2 ar(6) by (auto intro: zmod_le_nonneg_dividend)
    have gap: "(if whole ?g < whole (cell_extent c axis) then whole ?g else Fin 0) = whole ?g'"
      by (simp add: cell_gap_def)
    have extras: "f32_to_usize (f32_max (f32_round (whole ?A - whole (?A div int n) * f32_of_nat n)) (Fin 0)) = nat (?A mod int n)"
    proof -
      have "f32_of_nat n = whole (int n)" using n by (simp add: f32_of_nat_small)
      moreover have "whole (?A div int n) * whole (int n) = whole (?A - ?A mod int n)"
        using whole_arith(3) [of "?A div int n" "int n"] bn m ar(7) by simp
      moreover have "whole ?A - whole (?A - ?A mod int n) = whole (?A mod int n)"
        using whole_arith(2) [of ?A "?A - ?A mod int n"] m ar(7) by simp
      ultimately have "f32_round (whole ?A - whole (?A div int n) * f32_of_nat n) = whole (?A mod int n)"
        by (simp only: f32_map_ops round_away_of_int)
      moreover have "nat (?A mod int n) \<le> 2 ^ 64 - 1" using m n by simp
      ultimately show ?thesis using m by (simp only: whole_minmax [of _ 0, simplified]) simp
    qed
    have "balanced_loop n (embed c) axis (whole ?g') (whole (?A div int n)) (nat (?A mod int n)) (whole (cell_start c axis)) =
      map embed (strips c axis ?g' (cell_start c axis) (balanced_lens n (?A div int n) (nat (?A mod int n))))"
    proof (rule balanced_loop_cells [OF b])
      have "(?A div int n + ?g') * int n = ?A div int n * int n + ?g' * int n" by (simp add: distrib_right)
      then show "cell_start c axis + (?A div int n + ?g') * int n + int (nat (?A mod int n)) \<le> 2 ^ 24"
        using ar(5,7) on_grid_axis(4) [OF c, of axis] bn m(1) by simp
      show "nat (?A mod int n) \<le> n" using 2 by (intro balanced_count) simp
    qed (use ar on_grid_axis(1) [OF c] in auto)
    then show ?thesis
      using 2 by (simp only: split_balanced_def for_axis_whole embed_simps Let_def gap ar(1,2) extras balanced_cells_def) simp
  qed (simp_all add: split_balanced_def balanced_cells_def balanced_lens_def)
qed

lemma even_cells_facts:
  assumes c: "on_grid c" and g: "0 \<le> g" and fit: "strips_fit c axis g n" and "0 < n"
  shows "\<forall>d \<in> set (even_cells c axis g n). on_grid d"
    and "hits (even_cells c axis g n) p \<le> of_bool (covers c p)"
    and "g = 0 \<Longrightarrow> hits (even_cells c axis g n) p = of_bool (covers c p)"
proof -
  define A where "A = strip_space c axis g n"
  define b where "b = A div int n"
  define ls where "ls = (if n = 1 then [cell_extent c axis] else even_lens n b A)"
  have g': "0 \<le> cell_gap (cell_extent c axis) g" "g = 0 \<Longrightarrow> cell_gap (cell_extent c axis) g = 0"
    using g on_grid_axis(2) [OF c] by (auto simp: cell_gap_def)
  have A: "0 \<le> A" unfolding A_def by (rule strip_space_nonneg [OF fit])
  have b: "0 \<le> b" "b * int n \<le> A"
    using A \<open>0 < n\<close> by (simp_all add: b_def pos_imp_zdiv_nonneg_iff minus_mod_eq_div_mult [symmetric])
  then have last: "0 \<le> A - int (n - 1) * b"
    using \<open>0 < n\<close> by (cases n) (auto simp: algebra_simps)
  have ls: "\<forall>l \<in> set ls. 0 \<le> l" "ls \<noteq> []"
    using b last on_grid_axis(2) [OF c, of axis] \<open>0 < n\<close> by (auto simp: ls_def even_lens_def)
  have span: "strip_span (cell_gap (cell_extent c axis) g) ls = cell_extent c axis"
    using ls(2) \<open>0 < n\<close>
    by (auto simp: strip_span_sum ls_def even_lens_def sum_list_replicate A_def strip_space_def of_nat_diff)
  have cells: "even_cells c axis g n = strips c axis (cell_gap (cell_extent c axis) g) (cell_start c axis) ls"
    by (simp add: even_cells_def ls_def A_def b_def)
  show "\<forall>d \<in> set (even_cells c axis g n). on_grid d"
    unfolding cells using span by (intro on_grid_strips [OF c order_refl g'(1) ls(1)]) simp
  show "hits (even_cells c axis g n) p \<le> of_bool (covers c p)"
    unfolding cells by (rule hits_strips_whole(1) [OF g'(1) ls(1) span])
  show "hits (even_cells c axis g n) p = of_bool (covers c p)" if "g = 0"
    unfolding cells by (rule hits_strips_whole(2) [OF g'(1) ls(1) span g'(2) [OF that] ls(2)])
qed

lemma balanced_cells_facts:
  assumes c: "on_grid c" and g: "0 \<le> g" and fit: "strips_fit c axis g n" and "0 < n"
  shows "\<forall>d \<in> set (balanced_cells c axis g n). on_grid d"
    and "hits (balanced_cells c axis g n) p \<le> of_bool (covers c p)"
    and "g = 0 \<Longrightarrow> hits (balanced_cells c axis g n) p = of_bool (covers c p)"
proof -
  define A where "A = strip_space c axis g n"
  define x where "x = nat (A mod int n)"
  define ls where "ls = (if n = 1 then [cell_extent c axis] else balanced_lens n (A div int n) x)"
  have g': "0 \<le> cell_gap (cell_extent c axis) g" "g = 0 \<Longrightarrow> cell_gap (cell_extent c axis) g = 0"
    using g on_grid_axis(2) [OF c] by (auto simp: cell_gap_def)
  have A: "0 \<le> A" unfolding A_def by (rule strip_space_nonneg [OF fit])
  have b: "0 \<le> A div int n" using A \<open>0 < n\<close> by (simp add: pos_imp_zdiv_nonneg_iff)
  have x: "x \<le> n" "int x = A mod int n" using balanced_count [OF \<open>0 < n\<close>] \<open>0 < n\<close> by (simp_all add: x_def)
  have len: "length (balanced_lens n (A div int n) x) = n" using x by (simp add: balanced_lens_def)
  have sum: "sum_list (balanced_lens n (A div int n) x) = A"
  proof -
    have "sum_list (balanced_lens n (A div int n) x) = int n * (A div int n) + int x"
      using x(1) by (simp add: balanced_lens_def sum_list_replicate of_nat_diff algebra_simps)
    then show ?thesis by (simp add: x(2))
  qed
  have ls: "\<forall>l \<in> set ls. 0 \<le> l" "ls \<noteq> []"
    using b on_grid_axis(2) [OF c, of axis] \<open>0 < n\<close> len by (auto simp: ls_def balanced_lens_def)
  have span: "strip_span (cell_gap (cell_extent c axis) g) ls = cell_extent c axis"
    using ls(2) sum len by (auto simp: strip_span_sum ls_def A_def strip_space_def)
  have cells: "balanced_cells c axis g n = strips c axis (cell_gap (cell_extent c axis) g) (cell_start c axis) ls"
    by (simp add: balanced_cells_def ls_def A_def x_def)
  show "\<forall>d \<in> set (balanced_cells c axis g n). on_grid d"
    unfolding cells using span by (intro on_grid_strips [OF c order_refl g'(1) ls(1)]) simp
  show "hits (balanced_cells c axis g n) p \<le> of_bool (covers c p)"
    unfolding cells by (rule hits_strips_whole(1) [OF g'(1) ls(1) span])
  show "hits (balanced_cells c axis g n) p = of_bool (covers c p)" if "g = 0"
    unfolding cells by (rule hits_strips_whole(2) [OF g'(1) ls(1) span g'(2) [OF that] ls(2)])
qed

end
