(* ===== verification/TileLayouts.thy ===== *)
theory TileLayouts
  imports TileCells
begin

text \<open>
  What every layout promises. The locale \<open>allocator\<close> states that placements name the panes they are
  given, in order; \<open>cell_allocator\<close> adds that on a canvas of whole cells the placements are cell
  rectangles which never overlap and, without gaps, cover the canvas. Both are interpreted on the
  allocators of the code: Dwindle, Master, Grid, Columns and Rows (Monocle stacks every pane on the
  whole canvas, so it is an \<open>allocator\<close> only).
\<close>

subsection \<open>Order of the placements\<close>

lemma length_balanced_loop [simp]: "length (balanced_loop k rect axis g b x s) = k"
  by (induction k rect axis g b x s rule: balanced_loop.induct) (auto simp: Let_def)

lemma length_split_balanced [simp]: "length (split_balanced rect axis n gap) = n"
  by (simp add: split_balanced_def Let_def)

lemma length_evenly_loop [simp]: "length (evenly_loop k rect axis g b s r) = k"
  by (induction k rect axis g b s r rule: evenly_loop.induct) (auto simp: Let_def)

lemma length_split_evenly [simp]: "length (split_evenly rect axis n gap) = n"
  by (simp add: split_evenly_def Let_def)

lemma ids_dwindle: "map placed_id (allocate_dwindle t rect gap) = leaves t"
  by (induction t arbitrary: rect) (auto simp: case_prod_beta Let_def)

lemma ids_master_stack_loop: "map placed_id (master_stack_loop ids rect g b y r) = ids"
  by (induction ids arbitrary: y r) (auto simp: Let_def)

lemma ids_master: "map placed_id (allocate_master ids rect gap ratio) = ids"
  by (induction ids rect gap ratio rule: allocate_master.induct)
    (auto simp: allocate_master_stack_def ids_master_stack_loop case_prod_beta Let_def)

lemma ids_monocle: "map placed_id (allocate_monocle ids rect) = ids"
  by (induction ids) (auto simp: allocate_monocle_def)

lemma ids_zip: "length ids = length rects \<Longrightarrow>
  map placed_id (map (\<lambda>(pid, strip). \<lparr>placed_id = pid, placed_rect = strip\<rparr>) (zip ids rects)) = ids"
  by (induction ids rects rule: list_induct2) auto

lemma ids_strips: "map placed_id (allocate_strips ids rect axis gap) = ids"
  unfolding allocate_strips_def using ids_zip by (auto simp del: map_map)

lemma ids_grid_row:
  "placed + length cells \<le> length ids \<Longrightarrow>
   map placed_id (fst (grid_row ids cells placed)) = take (length cells) (drop placed ids) \<and>
   snd (grid_row ids cells placed) = placed + length cells"
proof (induction ids cells placed rule: grid_row.induct)
  case (2 ids cell cells placed)
  then show ?case
    by (simp add: case_prod_beta Let_def Cons_nth_drop_Suc [symmetric])
qed simp

lemma ids_grid_loop:
  "placed \<le> length ids \<Longrightarrow> rows \<noteq> [] \<Longrightarrow>
   map placed_id (grid_loop ids cols gap rows placed) = drop placed ids"
proof (induction rows arbitrary: placed)
  case (Cons row rows)
  define k where "k = (if rows = [] then length ids - placed else min cols (length ids - placed))"
  have k: "placed + k \<le> length ids" using Cons.prems by (auto simp: k_def)
  show ?case
  proof (cases "k = 0")
    case True
    then have "grid_loop ids cols gap (row # rows) placed = grid_loop ids cols gap rows placed"
      by (simp add: k_def [symmetric])
    with True Cons show ?thesis by (cases "rows = []") (auto simp: k_def)
  next
    case False
    define cells where "cells = split_evenly row Horizontal k gap"
    have cells: "length cells = k" by (simp add: cells_def)
    have row: "map placed_id (fst (grid_row ids cells placed)) = take k (drop placed ids)"
      "snd (grid_row ids cells placed) = placed + k"
      using ids_grid_row [of placed cells ids] k by (simp_all add: cells)
    have "grid_loop ids cols gap (row # rows) placed =
        fst (grid_row ids cells placed) @ grid_loop ids cols gap rows (placed + k)"
      using False by (simp add: k_def [symmetric] cells_def [symmetric] case_prod_beta Let_def row(2))
    moreover have "map placed_id (grid_loop ids cols gap rows (placed + k)) = drop (placed + k) ids"
      using Cons k by (cases "rows = []") (auto simp: k_def)
    ultimately show ?thesis
      using row(1) by (simp add: add.commute [of placed k] flip: drop_drop)
  qed
qed simp

text \<open>The number of columns of a grid is positive, so dividing by it does not panic.\<close>

lemma sqrt_val_pos: "0 < q \<Longrightarrow> 0 < sqrt_val q"
proof -
  assume q: "0 < q"
  define s where "s = ilog2 q div 2"
  define u where "u = (2::rat) powi (s - 23)"
  have u: "0 < u" by (simp add: u_def)
  have "u * u = 2 powi (2 * s - 46)" by (simp add: u_def flip: power_int_add)
  also have "\<dots> \<le> 2 powi ilog2 q" by (intro power_int_increasing) (auto simp: s_def)
  also have "\<dots> \<le> q" by (rule ilog2_bounds(1) [OF q])
  finally have "1 \<le> q / (u * u)" using u by simp
  then have "1 \<le> \<lfloor>q / (u * u)\<rfloor>" by (simp add: le_floor_iff)
  then have "isqrt (nat \<lfloor>q / (u * u)\<rfloor>) \<noteq> 0"
    using isqrt_bounds [of "nat \<lfloor>q / (u * u)\<rfloor>"] by (intro notI) simp
  then show ?thesis
    using u by (auto simp: sqrt_val_def Let_def s_def [symmetric] u_def [symmetric] zero_less_mult_iff)
qed

lemma f32_of_nat_cases: "0 < n \<Longrightarrow> f32_of_nat n = PInf \<or> (\<exists>q > 0. f32_of_nat n = Fin q)"
proof -
  assume "0 < n"
  then have "1 \<le> rval (of_nat n)" using rval_mono [of 1 "of_nat n"] rval_of_int [of 1] by simp
  then show ?thesis by (auto simp: f32_of_nat_def rnd_def Let_def)
qed

lemma grid_cols_pos: "0 < n \<Longrightarrow> 0 < grid_cols n"
proof -
  assume "0 < n"
  then consider "f32_of_nat n = PInf" | q where "0 < q" "f32_of_nat n = Fin q"
    using f32_of_nat_cases by blast
  then show ?thesis
  proof cases
    case 2
    then have "1 \<le> \<lceil>sqrt_val q\<rceil>" using sqrt_val_pos [of q] by (simp add: le_ceiling_iff)
    with 2 show ?thesis by (simp add: grid_cols_def)
  qed (simp add: grid_cols_def f32_ceil_def)
qed

lemma div_ceil_pos: "0 < n \<Longrightarrow> 0 < div_ceil n c"
  by (auto simp: div_ceil_def)

lemma ids_grid: "map placed_id (allocate_grid ids rect gap) = ids"
proof -
  consider "ids = []" | pid where "ids = [pid]" | "2 \<le> length ids"
    by (cases ids rule: remdups_adj.cases) auto
  then show ?thesis
  proof cases
    case 3
    have "split_evenly rect Vertical (div_ceil (length ids) (grid_cols (length ids))) gap \<noteq> []"
      using 3 div_ceil_pos [of "length ids"] by (simp flip: length_0_conv)
    with 3 show ?thesis by (simp add: allocate_grid_def Let_def ids_grid_loop)
  qed (simp_all add: allocate_grid_def)
qed

subsection \<open>Master, Grid, Columns and Rows on cells\<close>

lemma even_cells_alt:
  "0 < n \<Longrightarrow> even_cells c axis g n =
    strips c axis (cell_gap (cell_extent c axis) g) (cell_start c axis)
      (even_lens n (strip_space c axis g n div int n) (strip_space c axis g n))"
  by (simp add: even_cells_def even_lens_def strip_space_def)

lemma master_stack_loop_eq:
  "master_stack_loop ids rect g b y r =
    map (\<lambda>(pid, strip). \<lparr>placed_id = pid, placed_rect = strip\<rparr>)
      (zip ids (evenly_loop (length ids) rect Vertical g b y r))"
  by (induction ids arbitrary: y r) (auto simp: Let_def segment_def)

lemma place_map: "map (\<lambda>(pid, strip). \<lparr>placed_id = pid, placed_rect = strip\<rparr>) (zip ids (map embed cs)) = place ids cs"
  by (simp add: place_def zip_map2 case_prod_beta)

lemma allocate_master_stack_cells:
  assumes c: "on_grid c" and g: "0 \<le> gh" "0 \<le> gv" and fit: "strips_fit c Vertical gv (length ids)"
  shows "allocate_master_stack ids (embed c) (whole_gap gh gv) = place ids (even_cells c Vertical gv (length ids))"
proof (cases "ids = []")
  case False
  then have n: "1 \<le> length ids" by (cases ids) auto
  let ?n = "length ids"
  let ?g = "cell_gap (cell_extent c Vertical) gv"
  note ar = strip_arith [OF c g(2) n fit]
  have rect: "rh (embed c) = whole (cell_extent c Vertical)" "ry (embed c) = whole (cell_start c Vertical)"
    by (simp_all add: embed_def cell_rect_def cell_extent_def cell_start_def)
  have gap: "(if whole gv < whole (cell_extent c Vertical) then whole gv else Fin 0) = whole ?g"
    by (simp add: cell_gap_def)
  have fa: "for_axis (whole_gap gh gv) Vertical = whole gv" by (simp add: whole_gap_def)
  have "evenly_loop ?n (embed c) Vertical (whole ?g)
      (whole (strip_space c Vertical gv ?n div int ?n)) (whole (cell_start c Vertical)) (whole (strip_space c Vertical gv ?n)) =
    map embed (strips c Vertical ?g (cell_start c Vertical)
      (even_lens ?n (strip_space c Vertical gv ?n div int ?n) (strip_space c Vertical gv ?n)))"
  proof (rule evenly_loop_cells)
    show "strip_space c Vertical gv ?n div int ?n * int ?n \<le> strip_space c Vertical gv ?n"
      using False by (simp add: minus_mod_eq_div_mult [symmetric])
    show "0 \<le> strip_space c Vertical gv ?n div int ?n" using ar(6) False by (simp add: pos_imp_zdiv_nonneg_iff)
    show "cell_start c Vertical + strip_space c Vertical gv ?n + ?g * int ?n \<le> 2 ^ 24"
      using ar(5,7) on_grid_axis(4) [OF c, of Vertical] by simp
  qed (use ar on_grid_axis(1) [OF c] in auto)
  then show ?thesis
    using False n
    by (simp only: allocate_master_stack_def fa rect Let_def gap ar(1,2) master_stack_loop_eq place_map even_cells_alt if_False)
qed (simp add: allocate_master_stack_def)

fun master_cells :: "crect \<Rightarrow> int \<Rightarrow> int \<Rightarrow> f32 \<Rightarrow> nat \<Rightarrow> crect list" where
  "master_cells c gh gv ratio n =
     (if n = 0 then [] else if n = 1 then [c]
      else let halves = cell_split c Horizontal ratio gh
           in halves ! 0 # even_cells (halves ! 1) Vertical gv (n - 1))"

declare master_cells.simps [simp del]

text \<open>A canvas is tall enough for the stack of a Master layout.\<close>

lemma strips_fit_vertical_cut:
  "strips_fit (cell_cut c Horizontal s l) Vertical g n \<longleftrightarrow> strips_fit c Vertical g n"
  by (simp add: strips_fit_def cell_extent_def cell_cut_def)

lemma strips_fit_less:
  assumes "strips_fit c axis g n" "m \<le> n" "0 \<le> g" "on_grid c"
  shows "strips_fit c axis g m"
proof -
  have g': "0 \<le> cell_gap (cell_extent c axis) g"
    using assms on_grid_axis(2) [of c axis] by (simp add: cell_gap_def)
  have "cell_gap (cell_extent c axis) g * (int m - 1) \<le> cell_gap (cell_extent c axis) g * (int n - 1)"
    using g' assms by (intro mult_left_mono) auto
  then show ?thesis using assms by (auto simp: strips_fit_def)
qed

lemma cell_split_nth:
  "cell_split c axis ratio g ! 0 = cell_cut c axis (cell_start c axis)
     (first_cells (cell_extent c axis - cell_gap (cell_extent c axis) g) ratio)"
  "\<exists>s l. cell_split c axis ratio g ! 1 = cell_cut c axis s l"
  by (auto simp: cell_split_def Let_def)

lemma allocate_master_cells:
  assumes c: "on_grid c" and g: "0 \<le> gh" "0 \<le> gv" and fit: "strips_fit c Vertical gv (length ids - 1)"
  shows "allocate_master ids (embed c) (whole_gap gh gv) ratio = place ids (master_cells c gh gv ratio (length ids))"
proof (cases ids rule: remdups_adj.cases)
  case (3 master second stack)
  define halves where "halves = cell_split c Horizontal ratio gh"
  obtain s l where "halves ! 1 = cell_cut c Horizontal s l"
    unfolding halves_def using cell_split_nth(2) by blast
  then have "strips_fit (halves ! 1) Vertical gv (length (second # stack))"
    using fit 3 by (simp add: strips_fit_vertical_cut)
  moreover have "on_grid (halves ! 1)"
    using cell_split_facts(1) [OF c g(1)] by (simp add: halves_def)
  ultimately have "allocate_master_stack (second # stack) (embed (halves ! 1)) (whole_gap gh gv) =
      place (second # stack) (even_cells (halves ! 1) Vertical gv (length (second # stack)))"
    using g by (intro allocate_master_stack_cells)
  moreover have "split_float_rect (embed c) Horizontal ratio (whole_gap gh gv) = (embed (halves ! 0), embed (halves ! 1))"
    using split_float_rect_cells [OF c g, of Horizontal ratio] by (simp add: halves_def cell_gaps_def)
  ultimately show ?thesis
    by (simp add: 3 master_cells.simps halves_def Let_def)
qed (simp_all add: master_cells.simps)

lemma length_master_cells [simp]: "length (master_cells c gh gv ratio n) = n"
  by (simp add: master_cells.simps Let_def)

lemma hits_master_cells:
  assumes c: "on_grid c" and g: "0 \<le> gh" "0 \<le> gv" and fit: "strips_fit c Vertical gv (n - 1)" and "0 < n"
  shows "hits (master_cells c gh gv ratio n) p \<le> of_bool (covers c p) \<and>
    (gh = 0 \<and> gv = 0 \<longrightarrow> hits (master_cells c gh gv ratio n) p = of_bool (covers c p))"
proof (cases "n = 1")
  case False
  define c0 c1 where "c0 = cell_split c Horizontal ratio gh ! 0" and "c1 = cell_split c Horizontal ratio gh ! 1"
  note split = cell_split_facts [OF c g(1), of Horizontal ratio, folded c0_def c1_def]
  have n: "0 < n - 1" using \<open>0 < n\<close> False by simp
  obtain s l where "c1 = cell_cut c Horizontal s l" unfolding c1_def using cell_split_nth(2) by blast
  then have fit1: "strips_fit c1 Vertical gv (n - 1)" using fit by (simp add: strips_fit_vertical_cut)
  have on: "on_grid c1" using split(1) by simp
  note even = even_cells_facts(2,3) [OF on g(2) fit1 n]
  have "hits (master_cells c gh gv ratio n) p = of_bool (covers c0 p) + hits (even_cells c1 Vertical gv (n - 1)) p"
    using False \<open>0 < n\<close> by (simp add: master_cells.simps Let_def c0_def c1_def)
  then show ?thesis using split(2,3) [of p] even [of p] by linarith
qed (simp add: master_cells.simps)

lemma allocate_strips_cells:
  assumes c: "on_grid c" and g: "0 \<le> gh" "0 \<le> gv"
    and fit: "strips_fit c axis (cell_gaps gh gv axis) (length ids)" and "ids \<noteq> []"
  shows "allocate_strips ids (embed c) axis (whole_gap gh gv) =
    place ids (balanced_cells c axis (cell_gaps gh gv axis) (length ids))"
  using split_balanced_cells [OF c g fit] \<open>ids \<noteq> []\<close>
  by (simp add: allocate_strips_def place_map)

fun grid_cells :: "int \<Rightarrow> nat \<Rightarrow> nat \<Rightarrow> crect list \<Rightarrow> crect list" where
  "grid_cells gh cols remaining [] = []"
| "grid_cells gh cols remaining (row # rows) =
     (let k = (if rows = [] then remaining else min cols remaining)
      in even_cells row Horizontal gh k @ grid_cells gh cols (remaining - k) rows)"

lemma length_grid_cells: "rows \<noteq> [] \<Longrightarrow> length (grid_cells gh cols remaining rows) = remaining"
  by (induction rows arbitrary: remaining) (auto simp: Let_def)

lemma even_cells_0 [simp]: "even_cells c axis g 0 = []"
  by (simp add: even_cells_def even_lens_def)

lemma grid_row_place:
  "placed + length cs \<le> length ids \<Longrightarrow>
   grid_row ids (map embed cs) placed = (place (take (length cs) (drop placed ids)) cs, placed + length cs)"
proof (induction cs arbitrary: placed)
  case (Cons c cs)
  then show ?case by (simp add: Cons_nth_drop_Suc [symmetric])
qed simp

text \<open>
  The rows of a grid: \<open>rows\<close> rows remain for \<open>remaining\<close> panes, each but the last takes \<open>cols\<close>, and
  the last has at least one pane and at most \<open>cols\<close>.
\<close>

definition rows_for :: "nat \<Rightarrow> nat \<Rightarrow> nat \<Rightarrow> bool" where
  "rows_for cols remaining rows \<longleftrightarrow> (rows - 1) * cols < remaining \<and> remaining \<le> rows * cols"

lemma rows_for_step:
  assumes "rows_for cols remaining (Suc rows)" "0 < rows"
  shows "min cols remaining = cols" "cols \<le> remaining" "rows_for cols (remaining - cols) rows"
  using assms by (cases rows; auto simp: rows_for_def algebra_simps)+

lemma rows_for_div_ceil: "0 < n \<Longrightarrow> 0 < cols \<Longrightarrow> rows_for cols n (div_ceil n cols)"
proof -
  assume n: "0 < n" "0 < cols"
  have eq: "n = cols * (n div cols) + n mod cols" by simp
  show ?thesis
  proof (cases "n mod cols = 0")
    case True
    then have "0 < n div cols" using n eq by (cases "n div cols") auto
    with True eq n show ?thesis
      by (cases "n div cols") (auto simp: rows_for_def div_ceil_def algebra_simps)
  next
    case False
    moreover have "n mod cols < cols" using n by simp
    ultimately have "cols * (n div cols) < n" "n \<le> cols + cols * (n div cols)" using eq by linarith+
    with False show ?thesis by (simp add: rows_for_def div_ceil_def algebra_simps)
  qed
qed

lemma grid_loop_cells:
  assumes "\<forall>row \<in> set rows. on_grid row \<and> strips_fit row Horizontal gh cols" "0 \<le> gh" "0 \<le> gv"
    and "placed < length ids" "rows_for cols (length ids - placed) (length rows)" "rows \<noteq> []" "0 < cols"
  shows "grid_loop ids cols (whole_gap gh gv) (map embed rows) placed =
    place (drop placed ids) (grid_cells gh cols (length ids - placed) rows)"
  using assms
proof (induction rows arbitrary: placed)
  case (Cons row rows)
  define n where "n = length ids - placed"
  define k where "k = (if rows = [] then n else min cols n)"
  have k: "k \<le> cols" "0 < k" "placed + k \<le> length ids"
    using Cons.prems by (auto simp: k_def n_def rows_for_def)
  have row: "on_grid row" "strips_fit row Horizontal gh k"
    using Cons.prems k strips_fit_less [of row Horizontal gh cols k] by auto
  define cs where "cs = even_cells row Horizontal gh k"
  have len: "length cs = k" by (simp add: cs_def)
  have "split_evenly (embed row) Horizontal k (whole_gap gh gv) = map embed cs"
    using split_evenly_cells [OF row(1) Cons.prems(2,3), of Horizontal k] row(2) by (simp add: cell_gaps_def cs_def)
  then have step: "grid_loop ids cols (whole_gap gh gv) (map embed (row # rows)) placed =
      place (take k (drop placed ids)) cs @ grid_loop ids cols (whole_gap gh gv) (map embed rows) (placed + k)"
    using k grid_row_place [of placed cs ids]
    by (simp add: Let_def n_def [symmetric] k_def [symmetric] len)
  have cells: "grid_cells gh cols n (row # rows) = cs @ grid_cells gh cols (n - k) rows"
    by (simp add: Let_def k_def [symmetric] cs_def)
  show ?case
  proof (cases "rows = []")
    case True
    then have "k = n" by (simp add: k_def)
    with step cells True show ?thesis by (simp add: n_def)
  next
    case False
    then have rest: "k = cols" "rows_for cols (n - cols) (length rows)"
      using rows_for_step [of cols n "length rows"] Cons.prems(5) by (auto simp: k_def n_def)
    have "placed + k < length ids"
    proof -
      have "0 < n - cols" using rest(2) by (auto simp: rows_for_def)
      then show ?thesis using rest(1) by (simp add: n_def)
    qed
    then have "grid_loop ids cols (whole_gap gh gv) (map embed rows) (placed + k) =
        place (drop (placed + k) ids) (grid_cells gh cols (n - k) rows)"
      using Cons.IH [of "placed + k"] Cons.prems False rest by (simp add: n_def)
    moreover have "place (drop placed ids) (cs @ grid_cells gh cols (n - k) rows) =
        place (take k (drop placed ids)) cs @ place (drop (placed + k) ids) (grid_cells gh cols (n - k) rows)"
    proof -
      have "drop placed ids = take k (drop placed ids) @ drop (placed + k) ids"
        by (metis append_take_drop_id drop_drop add.commute)
      then show ?thesis using place_append [of "take k (drop placed ids)" cs] len k(3) by (metis diff_le_mono2 length_drop length_take min.absorb2 le_diff_conv2 add.commute add_leE)
    qed
    ultimately show ?thesis
      unfolding step n_def [symmetric] cells by (simp only:)
  qed
qed simp

lemma hits_grid_cells:
  assumes "\<forall>row \<in> set rows. on_grid row \<and> strips_fit row Horizontal gh cols" "0 \<le> gh" "0 < cols"
    and "rows_for cols remaining (length rows)"
  shows "hits (grid_cells gh cols remaining rows) p \<le> hits rows p \<and>
    (gh = 0 \<longrightarrow> hits (grid_cells gh cols remaining rows) p = hits rows p)"
  using assms
proof (induction rows arbitrary: remaining)
  case (Cons row rows)
  define k where "k = (if rows = [] then remaining else min cols remaining)"
  have k: "k \<le> cols" "0 < k" using Cons.prems by (auto simp: k_def rows_for_def)
  have row: "on_grid row" "strips_fit row Horizontal gh k"
    using Cons.prems k strips_fit_less [of row Horizontal gh cols k] by auto
  note even = even_cells_facts(2,3) [OF row(1) Cons.prems(2) row(2) k(2), of p]
  have cells: "hits (grid_cells gh cols remaining (row # rows)) p =
      hits (even_cells row Horizontal gh k) p + hits (grid_cells gh cols (remaining - k) rows) p"
    by (simp add: Let_def k_def [symmetric])
  have "hits (grid_cells gh cols (remaining - k) rows) p \<le> hits rows p \<and>
      (gh = 0 \<longrightarrow> hits (grid_cells gh cols (remaining - k) rows) p = hits rows p)"
  proof (cases "rows = []")
    case False
    then have "k = cols" "rows_for cols (remaining - cols) (length rows)"
      using rows_for_step [of cols remaining "length rows"] Cons.prems(4) by (auto simp: k_def)
    then show ?thesis using Cons by simp
  qed simp
  then show ?case using cells even by (cases "gh = 0") (simp_all only: hits_simps, auto)
qed simp

lemma on_grid_master_cells:
  assumes c: "on_grid c" and g: "0 \<le> gh" "0 \<le> gv" and fit: "strips_fit c Vertical gv (n - 1)" and "0 < n"
  shows "\<forall>d \<in> set (master_cells c gh gv ratio n). on_grid d"
proof (cases "n = 1")
  case False
  define c1 where "c1 = cell_split c Horizontal ratio gh ! 1"
  note on = cell_split_facts(1) [OF c g(1), of Horizontal ratio, folded c1_def]
  obtain s l where "c1 = cell_cut c Horizontal s l" unfolding c1_def using cell_split_nth(2) by blast
  then have "strips_fit c1 Vertical gv (n - 1)" using fit by (simp add: strips_fit_vertical_cut)
  then have "\<forall>d \<in> set (even_cells c1 Vertical gv (n - 1)). on_grid d"
    using on g False \<open>0 < n\<close> by (intro even_cells_facts(1)) auto
  with on False \<open>0 < n\<close> show ?thesis unfolding c1_def by (simp add: master_cells.simps Let_def)
qed (simp add: master_cells.simps c)

lemma on_grid_grid_cells:
  assumes "\<forall>row \<in> set rows. on_grid row \<and> strips_fit row Horizontal gh cols" "0 \<le> gh"
    and "rows \<noteq> []" "rows_for cols remaining (length rows)"
  shows "\<forall>d \<in> set (grid_cells gh cols remaining rows). on_grid d"
  using assms
proof (induction rows arbitrary: remaining)
  case (Cons row rows)
  define k where "k = (if rows = [] then remaining else min cols remaining)"
  have k: "k \<le> cols" "0 < k" using Cons.prems by (auto simp: k_def rows_for_def)
  then have "\<forall>d \<in> set (even_cells row Horizontal gh k). on_grid d"
    using Cons.prems strips_fit_less [of row Horizontal gh cols k] by (intro even_cells_facts(1)) auto
  moreover have "\<forall>d \<in> set (grid_cells gh cols (remaining - k) rows). on_grid d"
  proof (cases "rows = []")
    case False
    then have "k = cols" "rows_for cols (remaining - cols) (length rows)"
      using rows_for_step [of cols remaining "length rows"] Cons.prems(4) by (auto simp: k_def)
    then show ?thesis using Cons False by simp
  qed simp
  ultimately show ?case by (auto simp: Let_def k_def [symmetric])
qed simp

definition grid_fits :: "crect \<Rightarrow> int \<Rightarrow> int \<Rightarrow> nat \<Rightarrow> bool" where
  "grid_fits c gh gv n \<longleftrightarrow>
     strips_fit c Vertical gv (div_ceil n (grid_cols n)) \<and> strips_fit c Horizontal gh (grid_cols n)"

lemma set_strips_cut: "d \<in> set (strips c axis g s ls) \<Longrightarrow> \<exists>s l. d = cell_cut c axis s l"
  by (induction ls arbitrary: s) auto

lemma strips_fit_horizontal_cut:
  "strips_fit (cell_cut c Vertical s l) Horizontal g n \<longleftrightarrow> strips_fit c Horizontal g n"
  by (simp add: strips_fit_def cell_extent_def cell_cut_def)

lemma allocate_grid_cells:
  assumes c: "on_grid c" and g: "0 \<le> gh" "0 \<le> gv" and "ids \<noteq> []" and fit: "grid_fits c gh gv (length ids)"
  shows "\<exists>cs. allocate_grid ids (embed c) (whole_gap gh gv) = place ids cs \<and> length cs = length ids \<and>
    (\<forall>d \<in> set cs. on_grid d) \<and> (\<forall>p. hits cs p \<le> of_bool (covers c p)) \<and>
    (gh = 0 \<and> gv = 0 \<longrightarrow> (\<forall>p. hits cs p = of_bool (covers c p)))"
proof (cases "length ids = 1")
  case True
  then obtain pid where "ids = [pid]" by (auto simp: length_Suc_conv)
  then show ?thesis by (intro exI [of _ "[c]"]) (simp add: allocate_grid_def c)
next
  case False
  define n where "n = length ids"
  define cols where "cols = grid_cols n"
  define rows where "rows = even_cells c Vertical gv (div_ceil n cols)"
  have n: "0 < n" "0 < cols" "n \<noteq> 1" using \<open>ids \<noteq> []\<close> False grid_cols_pos by (auto simp: n_def cols_def)
  have r: "0 < div_ceil n cols" by (rule div_ceil_pos [OF n(1)])
  have fits: "strips_fit c Vertical gv (div_ceil n cols)" "strips_fit c Horizontal gh cols"
    using fit by (simp_all add: grid_fits_def n_def cols_def)
  note even = even_cells_facts [OF c g(2) fits(1) r, folded rows_def]
  have len: "length rows = div_ceil n cols" by (simp add: rows_def)
  have ne: "rows \<noteq> []" using len r by auto
  have all: "\<forall>row \<in> set rows. on_grid row \<and> strips_fit row Horizontal gh cols"
  proof
    fix row assume row: "row \<in> set rows"
    then obtain s l where "row = cell_cut c Vertical s l"
      unfolding rows_def even_cells_def using set_strips_cut by blast
    then show "on_grid row \<and> strips_fit row Horizontal gh cols"
      using even(1) row fits(2) by (simp add: strips_fit_horizontal_cut)
  qed
  have rf: "rows_for cols n (length rows)" unfolding len by (rule rows_for_div_ceil [OF n(1,2)])
  have "split_evenly (embed c) Vertical (div_ceil n cols) (whole_gap gh gv) = map embed rows"
    using split_evenly_cells [OF c g, of Vertical "div_ceil n cols"] fits(1) by (simp add: cell_gaps_def rows_def)
  then have "allocate_grid ids (embed c) (whole_gap gh gv) = grid_loop ids cols (whole_gap gh gv) (map embed rows) 0"
    using n \<open>ids \<noteq> []\<close> by (simp add: allocate_grid_def n_def [symmetric] cols_def [symmetric] Let_def)
  also have "\<dots> = place ids (grid_cells gh cols n rows)"
    using grid_loop_cells [OF all g, of 0 ids] n rf ne by (simp add: n_def)
  finally have alloc: "allocate_grid ids (embed c) (whole_gap gh gv) = place ids (grid_cells gh cols n rows)" .
  have hits: "hits (grid_cells gh cols n rows) p \<le> of_bool (covers c p)"
    "gh = 0 \<and> gv = 0 \<Longrightarrow> hits (grid_cells gh cols n rows) p = of_bool (covers c p)" for p
    using hits_grid_cells [OF all g(1) n(2) rf, of p] even(2,3) [of p] by (meson le_trans, metis)
  have "length (grid_cells gh cols n rows) = length ids" using ne by (simp add: length_grid_cells n_def)
  moreover have "\<forall>d \<in> set (grid_cells gh cols n rows). on_grid d"
    by (rule on_grid_grid_cells [OF all g(1) ne rf])
  ultimately show ?thesis using alloc hits by (intro exI [of _ "grid_cells gh cols n rows"]) simp
qed

subsection \<open>The contract of a layout\<close>

text \<open>\<^verbatim>\<open>float_rect_contains_point\<close> of \<^verbatim>\<open>src/layout/geometry.rs\<close>, the hit test of the pointer.\<close>

definition float_rect_contains_point :: "float_rect \<Rightarrow> f32 \<times> f32 \<Rightarrow> bool" where
  "float_rect_contains_point rect point =
     (rx rect \<le> fst point \<and> fst point < rx rect + rw rect \<and>
      ry rect \<le> snd point \<and> snd point < ry rect + rh rect)"

text \<open>The panes that a hit test finds at a cell.\<close>

definition panes_at :: "pane_placement list \<Rightarrow> int \<times> int \<Rightarrow> pane_id list" where
  "panes_at placements p =
     map placed_id (filter (\<lambda>pl. float_rect_contains_point (placed_rect pl) (whole (fst p), whole (snd p))) placements)"

lemma contains_embed:
  assumes "on_grid c" shows "float_rect_contains_point (embed c) (whole (fst p), whole (snd p)) = covers c p"
proof -
  have "whole (cx c) + whole (cw c) = whole (cx c + cw c)" "whole (cy c) + whole (ch c) = whole (cy c + ch c)"
    using assms by (intro whole_arith(1); simp add: on_grid_def)+
  then show ?thesis
    by (simp add: float_rect_contains_point_def embed_def cell_rect_def covers_def flip: of_int_add)
qed

lemma length_panes_at:
  "\<forall>d \<in> set cs. on_grid d \<Longrightarrow> length ids = length cs \<Longrightarrow> length (panes_at (place ids cs) p) = hits cs p"
proof (induction cs arbitrary: ids)
  case (Cons c cs)
  then obtain pid rest where "ids = pid # rest" by (cases ids) auto
  with Cons contains_embed [of c p] show ?case by (simp add: panes_at_def)
qed (simp add: panes_at_def)

locale allocator =
  fixes alloc :: "'a \<Rightarrow> float_rect \<Rightarrow> tile_gap \<Rightarrow> pane_placement list"
    and names :: "'a \<Rightarrow> pane_id list"
  assumes in_order: "map placed_id (alloc a rect gap) = names a"
begin

lemma length_alloc: "length (alloc a rect gap) = length (names a)"
  using arg_cong [OF in_order [of a rect gap], of length] by simp

lemma placed_iff: "pid \<in> set (names a) \<longleftrightarrow> (\<exists>pl \<in> set (alloc a rect gap). placed_id pl = pid)"
  by (auto simp flip: in_order [of a rect gap])

lemma placed_once:
  assumes "distinct (names a)" "pl \<in> set (alloc a rect gap)" "pl' \<in> set (alloc a rect gap)"
    and "placed_id pl = placed_id pl'"
  shows "pl = pl'"
  using assms inj_onD [of placed_id "set (alloc a rect gap)"]
  by (auto simp: distinct_map simp flip: in_order [of a rect gap])

end

locale cell_allocator = allocator alloc names
  for alloc :: "'a \<Rightarrow> float_rect \<Rightarrow> tile_gap \<Rightarrow> pane_placement list"
    and names :: "'a \<Rightarrow> pane_id list" +
  fixes fits :: "'a \<Rightarrow> crect \<Rightarrow> int \<Rightarrow> int \<Rightarrow> bool"
  assumes on_cells:
    "names a \<noteq> [] \<Longrightarrow> on_grid c \<Longrightarrow> 0 \<le> gh \<Longrightarrow> 0 \<le> gv \<Longrightarrow> fits a c gh gv \<Longrightarrow>
     \<exists>cs. alloc a (embed c) (whole_gap gh gv) = place (names a) cs \<and> length cs = length (names a) \<and>
       (\<forall>d \<in> set cs. on_grid d) \<and> (\<forall>p. hits cs p \<le> of_bool (covers c p)) \<and>
       (gh = 0 \<and> gv = 0 \<longrightarrow> (\<forall>p. hits cs p = of_bool (covers c p)))"
begin

lemma at_most_one:
  assumes "names a \<noteq> []" "on_grid c" "0 \<le> gh" "0 \<le> gv" "fits a c gh gv"
  shows "length (panes_at (alloc a (embed c) (whole_gap gh gv)) p) \<le> of_bool (covers c p)"
proof -
  from on_cells [OF assms] obtain cs where cs: "alloc a (embed c) (whole_gap gh gv) = place (names a) cs"
    "length cs = length (names a)" "\<forall>d \<in> set cs. on_grid d" "hits cs p \<le> of_bool (covers c p)"
    by blast
  show ?thesis using length_panes_at [OF cs(3), of "names a" p] cs(2,4) by (simp only: cs(1))
qed

lemma exactly_one:
  assumes "names a \<noteq> []" "on_grid c" "fits a c 0 0"
  shows "length (panes_at (alloc a (embed c) (whole_gap 0 0)) p) = of_bool (covers c p)"
proof -
  from on_cells [OF assms(1,2) order_refl order_refl assms(3)] obtain cs where
    cs: "alloc a (embed c) (whole_gap 0 0) = place (names a) cs"
    "length cs = length (names a)" "\<forall>d \<in> set cs. on_grid d" "hits cs p = of_bool (covers c p)"
    by blast
  show ?thesis using length_panes_at [OF cs(3), of "names a" p] cs(2,4) by (simp only: cs(1))
qed

end

interpretation monocle: allocator "\<lambda>ids rect gap. allocate_monocle ids rect" "\<lambda>ids. ids"
  by unfold_locales (rule ids_monocle)

interpretation dwindle: cell_allocator allocate_dwindle leaves "\<lambda>_ _ _ _. True"
proof unfold_locales
  fix t c gh gv assume "on_grid c" "0 \<le> (gh::int)" "0 \<le> (gv::int)"
  then show "\<exists>cs. allocate_dwindle t (embed c) (whole_gap gh gv) = place (leaves t) cs \<and> length cs = length (leaves t) \<and>
      (\<forall>d \<in> set cs. on_grid d) \<and> (\<forall>p. hits cs p \<le> of_bool (covers c p)) \<and>
      (gh = 0 \<and> gv = 0 \<longrightarrow> (\<forall>p. hits cs p = of_bool (covers c p)))"
    using hits_tree_cells [of c gh gv t]
    by (intro exI [of _ "tree_cells t gh gv c"])
      (simp add: allocate_dwindle_cells on_grid_tree_cells)
qed (rule ids_dwindle)

interpretation master: cell_allocator "\<lambda>ids rect gap. allocate_master ids rect gap ratio" "\<lambda>ids. ids"
  "\<lambda>ids c gh gv. strips_fit c Vertical gv (length ids - 1)" for ratio
proof unfold_locales
  fix ids :: "pane_id list" and c gh gv
  assume h: "ids \<noteq> []" "on_grid c" "0 \<le> (gh::int)" "0 \<le> (gv::int)" "strips_fit c Vertical gv (length ids - 1)"
  then have "0 < length ids" by simp
  then show "\<exists>cs. allocate_master ids (embed c) (whole_gap gh gv) ratio = place ids cs \<and> length cs = length ids \<and>
      (\<forall>d \<in> set cs. on_grid d) \<and> (\<forall>p. hits cs p \<le> of_bool (covers c p)) \<and>
      (gh = 0 \<and> gv = 0 \<longrightarrow> (\<forall>p. hits cs p = of_bool (covers c p)))"
    using hits_master_cells [OF h(2-5), of ratio] on_grid_master_cells [OF h(2-5), of ratio]
    by (intro exI [of _ "master_cells c gh gv ratio (length ids)"])
      (simp add: allocate_master_cells [OF h(2-5)])
qed (rule ids_master)

lemma strips_on_cells:
  assumes "ids \<noteq> []" "on_grid c" "0 \<le> gh" "0 \<le> gv" "strips_fit c axis (cell_gaps gh gv axis) (length ids)"
  shows "\<exists>cs. allocate_strips ids (embed c) axis (whole_gap gh gv) = place ids cs \<and> length cs = length ids \<and>
      (\<forall>d \<in> set cs. on_grid d) \<and> (\<forall>p. hits cs p \<le> of_bool (covers c p)) \<and>
      (gh = 0 \<and> gv = 0 \<longrightarrow> (\<forall>p. hits cs p = of_bool (covers c p)))"
proof -
  have n: "0 < length ids" using assms(1) by simp
  have g0: "gh = 0 \<and> gv = 0 \<Longrightarrow> cell_gaps gh gv axis = 0" by (cases axis) (simp_all add: cell_gaps_def)
  note facts = balanced_cells_facts [OF assms(2) cell_gaps_nonneg [OF assms(3,4)] assms(5) n]
  show ?thesis
    using facts g0 n by (intro exI [of _ "balanced_cells c axis (cell_gaps gh gv axis) (length ids)"])
      (simp add: allocate_strips_cells [OF assms(2-5,1)])
qed

interpretation columns: cell_allocator allocate_columns "\<lambda>ids. ids" "\<lambda>ids c gh gv. strips_fit c Horizontal gh (length ids)"
  using strips_on_cells [of _ _ _ _ Horizontal]
  by unfold_locales (simp_all add: allocate_columns_def ids_strips cell_gaps_def)

interpretation rows: cell_allocator allocate_rows "\<lambda>ids. ids" "\<lambda>ids c gh gv. strips_fit c Vertical gv (length ids)"
  using strips_on_cells [of _ _ _ _ Vertical]
  by unfold_locales (simp_all add: allocate_rows_def ids_strips cell_gaps_def)

interpretation grid: cell_allocator allocate_grid "\<lambda>ids. ids" "\<lambda>ids c gh gv. grid_fits c gh gv (length ids)"
  by unfold_locales (use ids_grid allocate_grid_cells in auto)

subsection \<open>Properties\<close>

text \<open>
  C1: Dwindle places the leaves of the tree in order, and on a canvas of whole cells its panes never
  overlap: a hit test finds at most one pane in a cell of the canvas and none outside, whatever
  ratios the tree holds (NaN and infinities included) and however narrow the splits become. Without
  gaps every cell of the canvas belongs to exactly one pane.
\<close>

theorem dwindle_partition:
  assumes "on_grid c" "0 \<le> gh" "0 \<le> gv"
  shows "map placed_id (allocate_dwindle t (embed c) (whole_gap gh gv)) = leaves t \<and>
    length (panes_at (allocate_dwindle t (embed c) (whole_gap gh gv)) p) \<le> of_bool (covers c p) \<and>
    length (panes_at (allocate_dwindle t (embed c) (whole_gap 0 0)) p) = of_bool (covers c p)"
  using dwindle.in_order dwindle.at_most_one [OF _ assms, of t p] dwindle.exactly_one [OF _ assms(1), of t p]
  by simp

definition screen :: crect where
  "screen = \<lparr>cx = 0, cy = 1, cw = 80, ch = 23\<rparr>"

lemma on_grid_screen [simp]: "on_grid screen"
  by (simp add: on_grid_def screen_def)

lemma covers_screen: "covers screen (10, 10)"
  by (simp add: covers_def screen_def)

theorem dwindle_partition_witness:
  "length (panes_at (allocate_dwindle (Split Horizontal NaN (Leaf 1) (Split Vertical DEFAULT_RATIO (Leaf 2) (Leaf 3)))
     (embed screen) (whole_gap 0 0)) (10, 10)) = 1"
  using dwindle_partition [of screen 0 0 "Split Horizontal NaN (Leaf 1) (Split Vertical DEFAULT_RATIO (Leaf 2) (Leaf 3))" "(10, 10)"]
  by (simp add: covers_screen)

text \<open>
  A split of at least three usable cells leaves at least one cell to each side, whatever ratio is
  stored: the two rectangles are whole cells, start where the region starts and end where it ends.
\<close>

theorem split_sides:
  assumes "on_grid c" "0 \<le> gh" "0 \<le> gv" "3 \<le> cell_extent c axis - cell_gap (cell_extent c axis) (cell_gaps gh gv axis)"
  shows "\<exists>c0 c1. split_float_rect (embed c) axis ratio (whole_gap gh gv) = (embed c0, embed c1) \<and>
    1 \<le> cell_extent c0 axis \<and> 1 \<le> cell_extent c1 axis \<and>
    cell_start c0 axis = cell_start c axis \<and>
    cell_start c1 axis = cell_start c0 axis + cell_extent c0 axis + cell_gap (cell_extent c axis) (cell_gaps gh gv axis) \<and>
    cell_start c1 axis + cell_extent c1 axis = cell_start c axis + cell_extent c axis"
proof -
  have "cell_extent c axis \<le> 2 ^ 20" using on_grid_axis [OF assms(1)] by blast
  then have A: "cell_extent c axis - cell_gap (cell_extent c axis) (cell_gaps gh gv axis) \<le> 2 ^ 20"
    using assms cell_gap_bounds(1) [of "cell_gaps gh gv axis" "cell_extent c axis"] on_grid_axis(2) [OF assms(1), of axis]
    by simp
  show ?thesis
    using split_bounds [OF assms(4) A, of ratio] split_float_rect_cells [OF assms(1-3), of axis ratio]
    by (intro exI [of _ "cell_split c axis ratio (cell_gaps gh gv axis) ! 0"]
        exI [of _ "cell_split c axis ratio (cell_gaps gh gv axis) ! 1"]) (simp add: cell_split_def Let_def)
qed

theorem split_sides_witness:
  "\<exists>c0 c1. split_float_rect (embed screen) Horizontal (Fin 0) (whole_gap 1 0) = (embed c0, embed c1) \<and>
    1 \<le> cell_extent c0 Horizontal \<and> 1 \<le> cell_extent c1 Horizontal"
  using split_sides [of screen 1 0 Horizontal "Fin 0"]
  by (auto simp: screen_def cell_extent_def cell_gap_def cell_gaps_def on_grid_def)




lemma grid_cols_eq: "n \<le> 2 ^ 22 \<Longrightarrow> c * c < n \<Longrightarrow> n \<le> (c + 1) * (c + 1) \<Longrightarrow> grid_cols n = c + 1"
  unfolding grid_cols_def by (rule usize_ceil_sqrt)


text \<open>
  The column count of a grid, computed by a single-precision square root, is the exact ceiling of
  the root for every pane count up to \<open>2 ^ 22\<close>: the least \<open>c\<close> with \<open>n \<le> c * c\<close>.
\<close>

theorem grid_cols_least:
  assumes "0 < n" "n \<le> 2 ^ 22"
  shows "n \<le> grid_cols n * grid_cols n \<and> (\<forall>c. n \<le> c * c \<longrightarrow> grid_cols n \<le> c)"
proof -
  define k where "k = isqrt (n - 1)"
  have k: "k * k < n" "n \<le> (k + 1) * (k + 1)"
    using isqrt_bounds [of "n - 1"] assms unfolding k_def by linarith+
  have cols: "grid_cols n = k + 1" using grid_cols_eq [OF assms(2) k] .
  have "k + 1 \<le> c" if "n \<le> c * c" for c
  proof -
    have "k * k < c * c" using k(1) that by simp
    then show ?thesis by (simp add: square_less_iff)
  qed
  then show ?thesis using k cols by simp
qed

theorem grid_cols_least_witness: "grid_cols 10 * grid_cols 10 \<ge> 10"
  using grid_cols_least [of 10] by simp

text \<open>
  Columns gives the panes the full height, whole-cell widths which differ by at most one cell, the
  wider ones first, and spans the canvas exactly.
\<close>

theorem columns_balanced:
  assumes "ids \<noteq> []" "on_grid c" "0 \<le> gh" "0 \<le> gv" "strips_fit c Horizontal gh (length ids)"
  shows "let n = int (length ids); A = strip_space c Horizontal gh (length ids) in
    \<exists>cs. allocate_columns ids (embed c) (whole_gap gh gv) = place ids cs \<and>
      map cw cs = replicate (nat (A mod n)) (A div n + 1) @ replicate (length ids - nat (A mod n)) (A div n) \<and>
      (\<forall>d \<in> set cs. cy d = cy c \<and> ch d = ch c) \<and>
      sum_list (map cw cs) + cell_gap (cw c) gh * (n - 1) = cw c"
proof -
  define n where "n = int (length ids)"
  define A where "A = strip_space c Horizontal gh (length ids)"
  have n: "0 < n" using assms(1) by (simp add: n_def)
  define lens where "lens = replicate (nat (A mod n)) (A div n + 1) @ replicate (length ids - nat (A mod n)) (A div n)"
  define cs where "cs = balanced_cells c Horizontal gh (length ids)"
  have place: "allocate_columns ids (embed c) (whole_gap gh gv) = place ids cs"
    using allocate_strips_cells [OF assms(2-4), of Horizontal ids] assms(1,5)
    by (simp add: allocate_columns_def cs_def cell_gaps_def)
  have "cs = strips c Horizontal (cell_gap (cw c) gh) (cx c) lens"
  proof (cases "length ids = 1")
    case True
    then show ?thesis
      by (simp add: cs_def balanced_cells_def lens_def A_def n_def strip_space_def cell_extent_def cell_start_def)
  qed (simp add: cs_def balanced_cells_def lens_def A_def n_def balanced_lens_def cell_extent_def cell_start_def)
  moreover have "map cw (strips c Horizontal g s ls) = ls" for g s ls
    by (induction ls arbitrary: s) (auto simp: cell_cut_def)
  moreover have "\<forall>d \<in> set (strips c Horizontal g s ls). cy d = cy c \<and> ch d = ch c" for g s ls
    by (induction ls arbitrary: s) (auto simp: cell_cut_def)
  moreover have "sum_list lens + cell_gap (cw c) gh * (n - 1) = cw c"
  proof -
    have m: "0 \<le> A mod n" "nat (A mod n) \<le> length ids"
      using n balanced_count [of "length ids" A] by (simp_all add: n_def)
    then have "sum_list lens = n * (A div n) + A mod n"
      by (simp add: lens_def sum_list_replicate of_nat_diff n_def algebra_simps)
    then show ?thesis by (simp add: A_def n_def strip_space_def cell_extent_def)
  qed
  ultimately show ?thesis
    unfolding Let_def n_def [symmetric] A_def [symmetric] lens_def [symmetric]
    using place by (intro exI [of _ cs]) simp
qed

theorem columns_balanced_witness:
  "\<exists>cs. allocate_columns [1, 2, 3] (embed screen) (whole_gap 1 0) = place [1, 2, 3] cs \<and> map cw cs = [26, 26, 26]"
proof -
  have "strips_fit screen Horizontal 1 (length [1, 2, 3 :: pane_id])"
    by (simp add: strips_fit_def cell_gap_def screen_def cell_extent_def)
  note cols = columns_balanced [OF _ on_grid_screen _ _ this, of 0, unfolded Let_def]
  have "strip_space screen Horizontal 1 (length [1, 2, 3 :: pane_id]) = 78"
    by (simp add: strip_space_def cell_extent_def cell_gap_def screen_def)
  with cols obtain cs where "allocate_columns [1, 2, 3] (embed screen) (whole_gap 1 0) = place [1, 2, 3] cs"
    and "map cw cs = replicate (nat (78 mod int (length [1, 2, 3 :: pane_id]))) (78 div int (length [1, 2, 3 :: pane_id]) + 1) @
      replicate (length [1, 2, 3 :: pane_id] - nat (78 mod int (length [1, 2, 3 :: pane_id]))) (78 div int (length [1, 2, 3 :: pane_id]))"
    by (metis list.discI zero_le_one order_refl)
  then show ?thesis by (intro exI [of _ cs]) (simp add: numeral_3_eq_3)
qed

end
