(* ===== verification/Workspace.thy ===== *)
theory Workspace
  imports TileTree
begin

text \<open>
  The state a workspace keeps (\<^verbatim>\<open>src/state/workspace.rs\<close>, the layout-relevant fields of
  \<^verbatim>\<open>src/state/pane.rs\<close>), the trait \<^verbatim>\<open>TileSource\<close> of \<^verbatim>\<open>src/layout/mod.rs\<close> through which the live
  workspace and the server's shared document reach the same allocators, and the operations that
  edit the stored tile tree.

  A trait object is a record of the answers its methods give: \<open>tile_source\<close>. The locale
  \<open>tile_order\<close> states what the placement code relies on about any source of tiles, and proves once
  that the tree the Dwindle layout draws and the list the order-driven layouts consume name the
  same panes in the same order.
\<close>

subsection \<open>Panes and workspaces\<close>

datatype pane_launch = Shell string | Direct "string list"

record pane_identity =
  custom_title :: "string option"
  profile_name :: "string option"
  cwd :: "string option"
  launch :: "pane_launch option"
  keep_open :: bool
  replay :: bool
  env :: "(string \<times> string) list"

record pane =
  p_id :: pane_id
  pty_generation :: "64 word"
  identity :: pane_identity
  p_floating :: bool
  p_pinned :: bool
  p_fullscreen :: bool
  floating_rect :: float_rect
  floating_rect_initialized :: bool
  p_scrollable_width :: f32
  p_opening :: bool
  closing :: bool

definition default_identity :: pane_identity where
  "default_identity =
     \<lparr>custom_title = None, profile_name = None, cwd = None, launch = None, keep_open = False,
      replay = False, env = []\<rparr>"

definition new_pane :: "pane_id \<Rightarrow> float_rect \<Rightarrow> pane" where
  "new_pane pid rect =
     \<lparr>p_id = pid, pty_generation = 0, identity = default_identity, p_floating = False,
      p_pinned = False, p_fullscreen = False, floating_rect = rect,
      floating_rect_initialized = False, p_scrollable_width = DEFAULT_SCROLLABLE_WIDTH,
      p_opening = True, closing = False\<rparr>"

record move_swap_hint =
  hint_pane :: pane_id
  return_direction :: direction
  hint_target :: pane_id

record directional_focus_hint =
  focus_pane :: pane_id
  entry_direction :: direction
  focus_target :: pane_id

record workspace =
  w_panes :: "pane list"
  tile_tree :: "dwindle_tree option"
  focused_pane :: "pane_id option"
  w_synchronized :: bool
  w_layout_kind :: layout_kind
  w_start_axis :: split_axis
  w_split_ratios :: "f32 list"
  last_move_swap :: "move_swap_hint option"
  last_directional_focus :: "directional_focus_hint option"
  scrollable_anchor :: "pane_id option"
  w_reveal_edge :: scrollable_reveal_edge
  unpinned_focus :: "pane_id option"
  w_name :: "string option"

definition new_workspace :: "nat \<Rightarrow> workspace" where
  "new_workspace index =
     \<lparr>w_panes = [], tile_tree = None, focused_pane = None, w_synchronized = False,
      w_layout_kind = LAYOUT_DEFAULT, w_start_axis = start_for_workspace index,
      w_split_ratios = default_split_ratios, last_move_swap = None, last_directional_focus = None,
      scrollable_anchor = None, w_reveal_edge = RevealLeft, unpinned_focus = None, w_name = None\<rparr>"

definition set_scrollable_viewport :: "workspace \<Rightarrow> pane_id option \<Rightarrow> scrollable_reveal_edge \<Rightarrow> workspace" where
  "set_scrollable_viewport w anchor edge =
     w\<lparr>scrollable_anchor := anchor, w_reveal_edge := (if anchor \<noteq> None then edge else RevealLeft)\<rparr>"

definition visible_count :: "workspace \<Rightarrow> nat" where
  "visible_count w = length (filter (\<lambda>pane. \<not> closing pane) (w_panes w))"

definition active_tiled_ids_by_pane_order :: "workspace \<Rightarrow> pane_id list" where
  "active_tiled_ids_by_pane_order w =
     map p_id (filter (\<lambda>pane. \<not> p_floating pane \<and> \<not> closing pane) (w_panes w))"

subsection \<open>What the allocators read\<close>

record tile_source =
  ts_layout_kind :: layout_kind
  ts_start_axis :: split_axis
  ts_split_ratios :: "f32 list"
  ts_stored_tile_tree :: "dwindle_tree option"
  ts_tiled_ids :: "pane_id list"
  ts_scrollable_width :: "pane_id \<Rightarrow> f32"
  ts_scrollable_viewport :: "pane_id list \<Rightarrow> pane_id option \<times> scrollable_reveal_edge"
  ts_floating :: "(pane_id \<times> float_rect) list"

definition scrollable_viewport_anchor :: "workspace \<Rightarrow> pane_id list \<Rightarrow> pane_id option" where
  "scrollable_viewport_anchor w tiled_ids =
     (let anchor = (case scrollable_anchor w of Some pid \<Rightarrow> if pid \<in> set tiled_ids then Some pid else None
                    | None \<Rightarrow> None)
      in case anchor of
        Some anchor \<Rightarrow> Some anchor
      | None \<Rightarrow>
          (let focused = (case focused_pane w of
              Some pid \<Rightarrow>
                if list_ex (\<lambda>pane. p_id pane = pid \<and> \<not> p_floating pane \<and> \<not> closing pane
                                    \<and> p_id pane \<in> set tiled_ids) (w_panes w)
                then Some pid else None
            | None \<Rightarrow> None)
           in case focused of
             Some focused \<Rightarrow> Some focused
           | None \<Rightarrow> (case tiled_ids of [] \<Rightarrow> None | first # _ \<Rightarrow> Some first)))"

definition live_scrollable_width :: "workspace \<Rightarrow> pane_id \<Rightarrow> f32" where
  "live_scrollable_width w pid =
     (case find (\<lambda>pane. p_id pane = pid) (w_panes w) of
        Some pane \<Rightarrow> p_scrollable_width pane
      | None \<Rightarrow> DEFAULT_SCROLLABLE_WIDTH)"

text \<open>\<^verbatim>\<open>impl TileSource for Workspace\<close>.\<close>

definition workspace_source :: "workspace \<Rightarrow> tile_source" where
  "workspace_source w =
     \<lparr>ts_layout_kind = w_layout_kind w,
      ts_start_axis = w_start_axis w,
      ts_split_ratios = w_split_ratios w,
      ts_stored_tile_tree = tile_tree w,
      ts_tiled_ids = active_tiled_ids_by_pane_order w,
      ts_scrollable_width = live_scrollable_width w,
      ts_scrollable_viewport = (\<lambda>tiled_ids. (scrollable_viewport_anchor w tiled_ids, w_reveal_edge w)),
      ts_floating = map (\<lambda>pane. (p_id pane, floating_rect pane))
                        (filter (\<lambda>pane. p_floating pane \<and> \<not> closing pane) (w_panes w))\<rparr>"

definition ordered_tiled_ids :: "tile_source \<Rightarrow> pane_id list" where
  "ordered_tiled_ids ts =
     (let active = ts_tiled_ids ts;
          ordered = (case ts_stored_tile_tree ts of
              Some tree \<Rightarrow>
                push_missing active (filter (\<lambda>pid. pid \<in> set active) (collect_tree_leaves tree []))
            | None \<Rightarrow> [])
      in if ordered = [] then active else ordered)"

definition order_driven_ids :: "tile_source \<Rightarrow> pane_id option \<Rightarrow> pane_id list" where
  "order_driven_ids ts exclude_tiled = filter (\<lambda>pid. Some pid \<noteq> exclude_tiled) (ordered_tiled_ids ts)"

definition append_missing :: "split_axis \<Rightarrow> pane_id \<Rightarrow> dwindle_tree option \<Rightarrow> dwindle_tree option" where
  "append_missing start_axis pid tree =
     (if (case tree of Some t \<Rightarrow> tree_contains t pid | None \<Rightarrow> False) then tree
      else Some (append_tiled_leaf tree pid start_axis))"

definition effective_tile_tree :: "tile_source \<Rightarrow> pane_id option \<Rightarrow> dwindle_tree option" where
  "effective_tile_tree ts exclude_tiled =
     (let active_ids = filter (\<lambda>pid. Some pid \<noteq> exclude_tiled) (ts_tiled_ids ts) in
      if active_ids = [] then None
      else
        let start_axis = ts_start_axis ts;
            pruned = (case ts_stored_tile_tree ts of
                        Some tree \<Rightarrow> prune_tree_to_ids tree active_ids | None \<Rightarrow> None);
            tree = (case pruned of
                      Some tree \<Rightarrow> Some tree
                    | None \<Rightarrow> build_dwindle_tree active_ids start_axis (ts_split_ratios ts))
        in fold (append_missing start_axis) active_ids tree)"

definition tiled_ids :: "workspace \<Rightarrow> pane_id list" where
  "tiled_ids w = ordered_tiled_ids (workspace_source w)"

subsection \<open>The order of the tiles\<close>

lemma opt_leaves_append_missing:
  "opt_leaves (append_missing axis pid t) =
     (if pid \<in> set (opt_leaves t) then opt_leaves t else opt_leaves t @ [pid])"
  by (cases t) (auto simp: append_missing_def)

lemma opt_leaves_fold_append_missing:
  "opt_leaves (fold (append_missing axis) ids t) = push_missing ids (opt_leaves t)"
  by (induction ids arbitrary: t) (auto simp: opt_leaves_append_missing)

lemma push_missing_kept:
  assumes "distinct active"
  shows "push_missing active (filter (\<lambda>x. x \<in> set active) stored) =
    filter (\<lambda>x. x \<in> set active) stored @ filter (\<lambda>x. x \<notin> set stored) active"
  using assms by (auto simp: push_missing_eq intro: filter_cong)

lemma opt_leaves_bind_prune:
  "opt_leaves (case t of Some t \<Rightarrow> prune_tree_to_ids t active | None \<Rightarrow> None) =
   filter (\<lambda>pid. pid \<in> set active) (opt_leaves t)"
  by (cases t) simp_all

lemma ordered_tiled_ids_eq:
  assumes "distinct (ts_tiled_ids ts)"
  shows "ordered_tiled_ids ts =
    filter (\<lambda>pid. pid \<in> set (ts_tiled_ids ts)) (opt_leaves (ts_stored_tile_tree ts)) @
    filter (\<lambda>pid. pid \<notin> set (opt_leaves (ts_stored_tile_tree ts))) (ts_tiled_ids ts)"
proof (cases "ts_stored_tile_tree ts")
  case None
  then show ?thesis by (simp add: ordered_tiled_ids_def)
next
  case (Some t)
  define kept where "kept = filter (\<lambda>pid. pid \<in> set (ts_tiled_ids ts)) (leaves t)"
  define new where "new = filter (\<lambda>pid. pid \<notin> set (leaves t)) (ts_tiled_ids ts)"
  have "push_missing (ts_tiled_ids ts) kept = kept @ new"
    unfolding kept_def new_def by (rule push_missing_kept [OF assms])
  moreover have "ts_tiled_ids ts = []" if "kept @ new = []"
    using that unfolding kept_def new_def by (cases "ts_tiled_ids ts") (auto simp: filter_empty_conv)
  ultimately show ?thesis
    using Some by (auto simp: ordered_tiled_ids_def kept_def [symmetric] new_def [symmetric])
qed

lemma leaves_effective_tile_tree:
  assumes "distinct (ts_tiled_ids ts)"
  shows "opt_leaves (effective_tile_tree ts exclude) = order_driven_ids ts exclude"
proof -
  define active where "active = filter (\<lambda>pid. Some pid \<noteq> exclude) (ts_tiled_ids ts)"
  define stored where "stored = opt_leaves (ts_stored_tile_tree ts)"
  define kept where "kept = filter (\<lambda>pid. pid \<in> set active) stored"
  have dist: "distinct active" using assms by (simp add: active_def)
  define pruned where "pruned = (case ts_stored_tile_tree ts of
      Some tree \<Rightarrow> prune_tree_to_ids tree active | None \<Rightarrow> None)"
  have kept: "opt_leaves pruned = kept"
    unfolding pruned_def kept_def stored_def by (rule opt_leaves_bind_prune)
  have spec: "order_driven_ids ts exclude = kept @ filter (\<lambda>pid. pid \<notin> set stored) active"
    by (simp add: order_driven_ids_def ordered_tiled_ids_eq [OF assms] kept_def stored_def
        active_def conj_commute cong: conj_cong)
  have missing: "push_missing active kept = kept @ filter (\<lambda>pid. pid \<notin> set stored) active"
    unfolding kept_def by (rule push_missing_kept [OF dist])
  show ?thesis
  proof (cases "active = []")
    case True
    with spec show ?thesis by (simp add: effective_tile_tree_def active_def [symmetric] kept_def)
  next
    case False
    have eff: "effective_tile_tree ts exclude = fold (append_missing (ts_start_axis ts)) active
        (case pruned of Some t \<Rightarrow> Some t | None \<Rightarrow> build_dwindle_tree active (ts_start_axis ts) (ts_split_ratios ts))"
      using False by (simp add: effective_tile_tree_def active_def [symmetric] pruned_def Let_def)
    show ?thesis
    proof (cases pruned)
      case None
      then have "kept = []" using kept by simp
      then have "filter (\<lambda>pid. pid \<notin> set stored) active = active"
        by (auto simp: kept_def filter_empty_conv filter_id_conv)
      with None \<open>kept = []\<close> show ?thesis
        by (simp add: eff spec opt_leaves_fold_append_missing leaves_build push_missing_eq [OF dist])
    next
      case (Some t)
      with kept show ?thesis by (simp add: eff spec opt_leaves_fold_append_missing missing)
    qed
  qed
qed

locale tile_order =
  fixes source :: "'w \<Rightarrow> tile_source"
    and ok :: "'w \<Rightarrow> bool"
  assumes tiled_distinct: "ok w \<Longrightarrow> distinct (ts_tiled_ids (source w))"
    and stored_distinct: "ok w \<Longrightarrow> distinct (opt_leaves (ts_stored_tile_tree (source w)))"
begin

lemma effective_leaves:
  "ok w \<Longrightarrow> opt_leaves (effective_tile_tree (source w) exclude) = order_driven_ids (source w) exclude"
  by (rule leaves_effective_tile_tree [OF tiled_distinct])

lemma distinct_ordered: "ok w \<Longrightarrow> distinct (ordered_tiled_ids (source w))"
  using stored_distinct [of w] tiled_distinct [of w]
  by (auto simp: ordered_tiled_ids_eq)

lemma set_ordered: "ok w \<Longrightarrow> set (ordered_tiled_ids (source w)) = set (ts_tiled_ids (source w))"
  using tiled_distinct [of w] by (auto simp: ordered_tiled_ids_eq)

lemma distinct_effective: "ok w \<Longrightarrow> distinct (opt_leaves (effective_tile_tree (source w) exclude))"
  by (simp add: effective_leaves order_driven_ids_def distinct_ordered)

lemma set_effective:
  "ok w \<Longrightarrow> set (opt_leaves (effective_tile_tree (source w) exclude)) =
    {pid \<in> set (ts_tiled_ids (source w)). Some pid \<noteq> exclude}"
  by (auto simp: effective_leaves order_driven_ids_def set_ordered)

lemma effective_None:
  "ok w \<Longrightarrow> effective_tile_tree (source w) exclude = None \<longleftrightarrow>
    (\<forall>pid \<in> set (ts_tiled_ids (source w)). Some pid = exclude)"
  using set_effective [of w exclude] by (auto simp flip: opt_leaves_Nil set_empty)

end

text \<open>A workspace is well formed when no pane id and no leaf of its stored tree occurs twice.\<close>

definition wf_workspace :: "workspace \<Rightarrow> bool" where
  "wf_workspace w \<longleftrightarrow> distinct (map p_id (w_panes w)) \<and> distinct (opt_leaves (tile_tree w))"

interpretation live: tile_order workspace_source wf_workspace
  by unfold_locales
    (auto simp: wf_workspace_def workspace_source_def active_tiled_ids_by_pane_order_def
      distinct_map intro: inj_on_subset)

subsection \<open>Editing the stored tree\<close>

definition forget_hints :: "workspace \<Rightarrow> workspace" where
  "forget_hints w = w\<lparr>last_move_swap := None, last_directional_focus := None\<rparr>"

definition append_tiled_window :: "workspace \<Rightarrow> pane_id \<Rightarrow> workspace" where
  "append_tiled_window w pid =
     (if (case tile_tree w of Some tree \<Rightarrow> tree_contains tree pid | None \<Rightarrow> False) then w
      else forget_hints (w\<lparr>tile_tree := Some (append_tiled_leaf (tile_tree w) pid (w_start_axis w))\<rparr>))"

definition remove_tiled_window :: "workspace \<Rightarrow> pane_id \<Rightarrow> workspace" where
  "remove_tiled_window w pid =
     (case tile_tree w of
        None \<Rightarrow> w
      | Some tree \<Rightarrow>
          (let (tree', removed) = remove_tree_leaf tree pid;
               w' = w\<lparr>tile_tree := tree'\<rparr>
           in if removed then forget_hints w' else w'))"

definition move_tiled_window_around_target ::
  "workspace \<Rightarrow> pane_id \<Rightarrow> pane_id \<Rightarrow> split_axis \<Rightarrow> bool \<Rightarrow> f32 \<Rightarrow> workspace \<times> bool" where
  "move_tiled_window_around_target w moving target axis moving_first ratio =
     (if moving = target then (w, False)
      else
        let w = (if tile_tree w = None
                 then w\<lparr>tile_tree := effective_tile_tree (workspace_source w) None\<rparr> else w)
        in case tile_tree w of
             None \<Rightarrow> (w, False)
           | Some tree \<Rightarrow>
               (case remove_tree_leaf tree moving of
                  (Some without_moving, True) \<Rightarrow>
                    (case insert_leaf_around_target without_moving target moving axis moving_first ratio of
                       None \<Rightarrow> (w, False)
                     | Some inserted \<Rightarrow> (forget_hints (w\<lparr>tile_tree := Some inserted\<rparr>), True))
                | _ \<Rightarrow> (w, False)))"

definition insert_tiled_pane_around_target ::
  "workspace \<Rightarrow> pane_id \<Rightarrow> pane_id \<Rightarrow> split_axis \<Rightarrow> bool \<Rightarrow> f32 \<Rightarrow> workspace \<times> bool" where
  "insert_tiled_pane_around_target w pid target axis moving_first ratio =
     (if pid = target then (w, False)
      else case effective_tile_tree (workspace_source w) (Some pid) of
        None \<Rightarrow> (w, False)
      | Some tree \<Rightarrow>
          (case insert_leaf_around_target tree target pid axis moving_first ratio of
             None \<Rightarrow> (w, False)
           | Some inserted \<Rightarrow> (forget_hints (w\<lparr>tile_tree := Some inserted\<rparr>), True)))"

lemma forget_hints_simps [simp]:
  "tile_tree (forget_hints w) = tile_tree w"
  "w_panes (forget_hints w) = w_panes w"
  "last_move_swap (forget_hints w) = None"
  "last_directional_focus (forget_hints w) = None"
  by (simp_all add: forget_hints_def)

text \<open>The order of a tiling after \<open>moving\<close> has been put beside \<open>target\<close>.\<close>

definition moved_beside :: "bool \<Rightarrow> pane_id \<Rightarrow> pane_id \<Rightarrow> pane_id list \<Rightarrow> pane_id list" where
  "moved_beside moving_first target moving order =
     concat (map (beside moving_first target moving) (filter (\<lambda>pid. pid \<noteq> moving) order))"

lemma leaves_append_window:
  "opt_leaves (tile_tree (append_tiled_window w pid)) =
    (if pid \<in> set (opt_leaves (tile_tree w)) then opt_leaves (tile_tree w)
     else opt_leaves (tile_tree w) @ [pid])"
  by (cases "tile_tree w") (auto simp: append_tiled_window_def)

lemma leaves_remove_window:
  "opt_leaves (tile_tree (remove_tiled_window w pid)) = filter (\<lambda>x. x \<noteq> pid) (opt_leaves (tile_tree w))"
  using leaves_remove
  by (auto simp: remove_tiled_window_def case_prod_beta Let_def split: option.splits)

lemma wf_append_window: "wf_workspace w \<Longrightarrow> wf_workspace (append_tiled_window w pid)"
  using leaves_append_window [of w pid]
  by (auto simp: wf_workspace_def append_tiled_window_def split: option.splits)

lemma wf_remove_window: "wf_workspace w \<Longrightarrow> wf_workspace (remove_tiled_window w pid)"
  using leaves_remove_window [of w pid]
  by (auto simp: wf_workspace_def remove_tiled_window_def case_prod_beta Let_def split: option.splits)

lemma opt_leaves_Some_iff: "opt_leaves t = l \<Longrightarrow> l \<noteq> [] \<Longrightarrow> \<exists>u. t = Some u \<and> leaves u = l"
  by (cases t) auto

lemma distinct_concat_beside:
  "distinct xs \<Longrightarrow> moving \<notin> set xs \<Longrightarrow> distinct (concat (map (beside mf target moving) xs))"
  by (induction xs) (auto simp: beside_def split: if_splits)

lemma distinct_moved_beside:
  "distinct order \<Longrightarrow> distinct (moved_beside mf target moving order)"
  by (simp add: moved_beside_def distinct_concat_beside)

text \<open>
  Moving a pane of a tree with distinct leaves beside another one: the pane is lifted out first, so
  the target is found in the tree that remains.
\<close>

lemma move_in_tree:
  assumes tree: "tile_tree w = Some tree" and dist: "distinct (leaves tree)"
    and mem: "moving \<in> set (leaves tree)" "target \<in> set (leaves tree)" "moving \<noteq> target"
  shows "\<exists>v. move_tiled_window_around_target w moving target axis mf ratio =
      (forget_hints (w\<lparr>tile_tree := Some v\<rparr>), True) \<and>
    leaves v = moved_beside mf target moving (leaves tree)"
proof -
  have rem: "opt_leaves (fst (remove_tree_leaf tree moving)) = filter (\<lambda>x. x \<noteq> moving) (leaves tree)"
    by (rule leaves_remove)
  have "fst (remove_tree_leaf tree moving) \<noteq> None"
  proof
    assume "fst (remove_tree_leaf tree moving) = None"
    with rem have "filter (\<lambda>x. x \<noteq> moving) (leaves tree) = []" by simp
    with mem show False by (auto simp: filter_empty_conv)
  qed
  then obtain u where u: "remove_tree_leaf tree moving = (Some u, True)"
    using remove_removed [of tree moving] mem(1) by (cases "remove_tree_leaf tree moving") auto
  with rem have lu: "leaves u = filter (\<lambda>x. x \<noteq> moving) (leaves tree)" by simp
  obtain v where "insert_leaf_around_target u target moving axis mf ratio = Some v"
    and "leaves v = moved_beside mf target moving (leaves tree)"
    using leaves_insert [of u target moving axis mf ratio] mem dist
    by (auto simp: lu moved_beside_def)
  with tree u mem(3) show ?thesis
    by (intro exI [of _ v]) (simp add: move_tiled_window_around_target_def)
qed

lemma move_refused:
  assumes tree: "tile_tree w = Some tree"
    and absent: "moving = target \<or> moving \<notin> set (leaves tree) \<or> target \<notin> set (leaves tree)"
  shows "move_tiled_window_around_target w moving target axis mf ratio = (w, False)"
proof (cases "moving = target")
  case False
  obtain t removed where rem: "remove_tree_leaf tree moving = (t, removed)" by fastforce
  have removed: "removed \<longleftrightarrow> moving \<in> set (leaves tree)"
    using remove_removed [of tree moving] rem by simp
  show ?thesis
  proof (cases t)
    case (Some u)
    have "leaves u = filter (\<lambda>x. x \<noteq> moving) (leaves tree)"
      using leaves_remove [of tree moving] rem Some by simp
    with absent False removed have "\<not> removed \<or> insert_leaf_around_target u target moving axis mf ratio = None"
      by (auto simp: insert_None)
    with tree rem Some False show ?thesis
      by (cases removed) (auto simp: move_tiled_window_around_target_def)
  qed (use tree rem False in \<open>simp add: move_tiled_window_around_target_def\<close>)
qed (simp add: move_tiled_window_around_target_def)

lemma move_materialises:
  assumes "tile_tree w = None" "moving \<noteq> target"
    and "effective_tile_tree (workspace_source w) None = Some tree"
  shows "move_tiled_window_around_target w moving target axis mf ratio =
    move_tiled_window_around_target (w\<lparr>tile_tree := Some tree\<rparr>) moving target axis mf ratio"
  using assms by (simp add: move_tiled_window_around_target_def)

lemma tiled_ids_live:
  "set (ts_tiled_ids (workspace_source w)) =
    {p_id pane | pane. pane \<in> set (w_panes w) \<and> \<not> p_floating pane \<and> \<not> closing pane}"
  by (auto simp: workspace_source_def active_tiled_ids_by_pane_order_def)

text \<open>The tree a structural edit starts from: the stored one, or the effective one.\<close>

definition settled_tree :: "workspace \<Rightarrow> dwindle_tree option" where
  "settled_tree w =
     (case tile_tree w of Some t \<Rightarrow> Some t | None \<Rightarrow> effective_tile_tree (workspace_source w) None)"

lemma distinct_settled: "wf_workspace w \<Longrightarrow> distinct (opt_leaves (settled_tree w))"
  using live.distinct_effective [of w None] by (cases "tile_tree w") (auto simp: settled_tree_def wf_workspace_def)

subsection \<open>Properties\<close>

text \<open>
  C9: the tree the Dwindle layout draws names the same panes, in the same order, as the list the
  order-driven layouts consume, whichever pane is lifted out; every live tiled pane occurs in it
  exactly once, whatever stale tree the workspace has stored.
\<close>

theorem effective_tree_order:
  assumes "wf_workspace w"
  shows "opt_leaves (effective_tile_tree (workspace_source w) exclude) = order_driven_ids (workspace_source w) exclude
    \<and> distinct (order_driven_ids (workspace_source w) exclude)
    \<and> set (order_driven_ids (workspace_source w) exclude) =
      {p_id pane | pane. pane \<in> set (w_panes w) \<and> \<not> p_floating pane \<and> \<not> closing pane \<and> Some (p_id pane) \<noteq> exclude}"
  using live.effective_leaves [OF assms, of exclude] live.distinct_effective [OF assms, of exclude]
    live.set_effective [OF assms, of exclude]
  by (auto simp: tiled_ids_live)

theorem effective_tree_order_witness:
  "opt_leaves (effective_tile_tree (workspace_source ((new_workspace 0)
     \<lparr>w_panes := map (\<lambda>pid. new_pane pid (cell_rect 0 0 9 9)) [1, 2, 3],
      tile_tree := Some (Split Horizontal EVEN_SPLIT_RATIO (Leaf 9) (Leaf 3))\<rparr>)) None) = [3, 1, 2]"
  by (subst conjunct1 [OF effective_tree_order])
    (simp_all add: wf_workspace_def new_workspace_def new_pane_def order_driven_ids_def
      ordered_tiled_ids_def workspace_source_def active_tiled_ids_by_pane_order_def)



end
