(* ===== verification/TileResize.thy ===== *)
theory TileResize
  imports TileLayouts Workspace
begin

text \<open>
  Moving the divider of a split: \<^verbatim>\<open>src/layout/tiling.rs\<close> from \<^verbatim>\<open>cell_split_ratio\<close> to
  \<^verbatim>\<open>hold_leading_dividers\<close>, and the ratio a re-docked pane is given. A resize commits a number of
  cells and stores the ratio that renders it; the nested dividers on both sides are rewritten so that
  they stay where they are.
\<close>

subsection \<open>Ratios that render a number of cells\<close>

definition cell_split_ratio :: "f32 \<Rightarrow> f32 \<Rightarrow> f32" where
  "cell_split_ratio cells usable =
     (let usable = f32_max usable (Fin 1);
          lowest = f32_ceil (MIN_SPLIT_RATIO * usable);
          highest = f32_max (f32_floor (MAX_SPLIT_RATIO * usable)) lowest
      in clamp_split_ratio (f32_clamp (f32_round cells) lowest highest div usable))"

definition redock_split_ratio :: "float_rect \<Rightarrow> float_rect \<Rightarrow> split_axis \<Rightarrow> bool \<Rightarrow> tile_gap \<Rightarrow> f32" where
  "redock_split_ratio moving target_slot axis moving_first gap =
     (let extent = (\<lambda>rect. f32_max (case axis of Horizontal \<Rightarrow> rw rect | Vertical \<Rightarrow> rh rect) (Fin 0));
          moving = extent moving;
          slot = usable_axis_extent (extent target_slot) axis gap
      in if moving \<le> Fin 0 \<or> slot \<le> Fin 0 then EVEN_SPLIT_RATIO
         else let moving_share = moving div slot
              in if \<not> (MIN_SPLIT_RATIO \<le> moving_share \<and> moving_share \<le> MAX_SPLIT_RATIO) then EVEN_SPLIT_RATIO
                 else if moving_first then moving_share else Fin 1 - moving_share)"

subsection \<open>The extent a split divides\<close>

definition split_available :: "float_rect \<Rightarrow> split_axis \<Rightarrow> tile_gap \<Rightarrow> f32" where
  "split_available rect target_axis gap =
     (let gap = for_axis gap target_axis;
          extent = (case target_axis of Horizontal \<Rightarrow> rw rect | Vertical \<Rightarrow> rh rect);
          usable = (if gap < extent then gap else Fin 0)
      in f32_max (extent - usable) (Fin 1))"

fun nearest_split_available ::
  "dwindle_tree \<Rightarrow> float_rect \<Rightarrow> tile_gap \<Rightarrow> pane_id \<Rightarrow> split_axis \<Rightarrow> f32 option" where
  "nearest_split_available (Leaf _) rect gap focused target_axis = None"
| "nearest_split_available (Split axis ratio first second) rect gap focused target_axis =
     (let (first_rect, second_rect) = split_float_rect rect axis ratio gap in
      if tree_contains first focused then
        (case nearest_split_available first first_rect gap focused target_axis of
           Some deeper \<Rightarrow> Some deeper
         | None \<Rightarrow> if axis \<noteq> target_axis then None else Some (split_available rect target_axis gap))
      else if tree_contains second focused then
        (case nearest_split_available second second_rect gap focused target_axis of
           Some deeper \<Rightarrow> Some deeper
         | None \<Rightarrow> if axis \<noteq> target_axis then None else Some (split_available rect target_axis gap))
      else None)"

fun split_available_for_edge ::
  "dwindle_tree \<Rightarrow> float_rect \<Rightarrow> tile_gap \<Rightarrow> pane_id \<Rightarrow> split_axis \<Rightarrow> split_edge \<Rightarrow> f32 option" where
  "split_available_for_edge (Leaf _) rect gap focused target_axis edge = None"
| "split_available_for_edge (Split axis ratio first second) rect gap focused target_axis edge =
     (let (first_rect, second_rect) = split_float_rect rect axis ratio gap in
      if tree_contains first focused then
        (case split_available_for_edge first first_rect gap focused target_axis edge of
           Some deeper \<Rightarrow> Some deeper
         | None \<Rightarrow>
             if axis \<noteq> target_axis \<or> \<not> split_edge_matches_focused_side edge True then None
             else Some (split_available rect target_axis gap))
      else if tree_contains second focused then
        (case split_available_for_edge second second_rect gap focused target_axis edge of
           Some deeper \<Rightarrow> Some deeper
         | None \<Rightarrow>
             if axis \<noteq> target_axis \<or> \<not> split_edge_matches_focused_side edge False then None
             else Some (split_available rect target_axis gap))
      else None)"

fun innermost_split_for ::
  "dwindle_tree \<Rightarrow> float_rect \<Rightarrow> tile_gap \<Rightarrow> pane_id \<Rightarrow> (split_axis \<times> f32 \<times> bool) option" where
  "innermost_split_for (Leaf _) rect gap focused = None"
| "innermost_split_for (Split axis ratio first second) rect gap focused =
     (let (first_rect, second_rect) = split_float_rect rect axis ratio gap;
          usable = f32_max (usable_axis_extent (axis_extent rect axis) axis gap) (Fin 1)
      in if tree_contains first focused then
           (case innermost_split_for first first_rect gap focused of
              Some deeper \<Rightarrow> Some deeper
            | None \<Rightarrow> Some (axis, usable, True))
         else if tree_contains second focused then
           (case innermost_split_for second second_rect gap focused of
              Some deeper \<Rightarrow> Some deeper
            | None \<Rightarrow> Some (axis, usable, False))
         else None)"

subsection \<open>Holding nested dividers in place\<close>

fun hold_trailing_dividers ::
  "dwindle_tree \<Rightarrow> float_rect \<Rightarrow> tile_gap \<Rightarrow> split_axis \<Rightarrow> f32 \<Rightarrow> dwindle_tree" where
  "hold_trailing_dividers (Leaf pid) rect gap axis delta = Leaf pid"
| "hold_trailing_dividers (Split split_axis ratio first second) rect gap axis delta =
     (if f32_eq delta (Fin 0) then Split split_axis ratio first second
      else if split_axis \<noteq> axis then
        (let (first_rect, second_rect) = split_float_rect rect split_axis ratio gap
         in Split split_axis ratio
              (hold_trailing_dividers first first_rect gap axis delta)
              (hold_trailing_dividers second second_rect gap axis delta))
      else
        (let extent = axis_extent rect axis;
             usable = usable_axis_extent extent axis gap;
             before = f32_round (usable_axis_extent (extent - delta) axis gap * clamp_split_ratio ratio);
             ratio = clamp_split_ratio (before div f32_max usable (Fin 1));
             (first_rect, second_rect) = split_float_rect rect split_axis ratio gap;
             held = axis_extent first_rect axis - before
         in Split split_axis ratio
              (hold_trailing_dividers first first_rect gap axis held)
              (hold_trailing_dividers second second_rect gap axis (delta - held))))"

fun hold_leading_dividers ::
  "dwindle_tree \<Rightarrow> float_rect \<Rightarrow> tile_gap \<Rightarrow> split_axis \<Rightarrow> f32 \<Rightarrow> dwindle_tree" where
  "hold_leading_dividers (Leaf pid) rect gap axis delta = Leaf pid"
| "hold_leading_dividers (Split split_axis ratio first second) rect gap axis delta =
     (if f32_eq delta (Fin 0) then Split split_axis ratio first second
      else if split_axis \<noteq> axis then
        (let (first_rect, second_rect) = split_float_rect rect split_axis ratio gap
         in Split split_axis ratio
              (hold_leading_dividers first first_rect gap axis delta)
              (hold_leading_dividers second second_rect gap axis delta))
      else
        (let extent = axis_extent rect axis;
             usable = usable_axis_extent extent axis gap;
             before = f32_round (usable_axis_extent (extent - delta) axis gap * clamp_split_ratio ratio);
             ratio = clamp_split_ratio ((before + delta) div f32_max usable (Fin 1));
             (first_rect, second_rect) = split_float_rect rect split_axis ratio gap;
             held = axis_extent first_rect axis - (before + delta)
         in Split split_axis ratio
              (hold_leading_dividers first first_rect gap axis (delta + held))
              (hold_leading_dividers second second_rect gap axis (- held))))"

subsection \<open>Resizing\<close>

definition move_divider ::
  "split_axis \<Rightarrow> f32 \<Rightarrow> dwindle_tree \<Rightarrow> dwindle_tree \<Rightarrow> float_rect \<Rightarrow> tile_gap \<Rightarrow> bool \<Rightarrow> f32 \<Rightarrow> dwindle_tree" where
  "move_divider axis ratio first second rect gap focused_is_first pixels =
     (let (first_rect, _) = split_float_rect rect axis ratio gap;
          usable = usable_axis_extent (axis_extent rect axis) axis gap;
          before = axis_extent first_rect axis;
          signed = (if focused_is_first then pixels else - pixels);
          ratio = cell_split_ratio (before + signed) usable;
          (moved_first, moved_second) = split_float_rect rect axis ratio gap;
          moved = axis_extent moved_first axis - before
      in Split axis ratio
           (hold_trailing_dividers first moved_first gap axis moved)
           (hold_leading_dividers second moved_second gap axis (- moved)))"

fun resize_split_in_tree ::
  "dwindle_tree \<Rightarrow> float_rect \<Rightarrow> tile_gap \<Rightarrow> pane_id \<Rightarrow> split_axis \<Rightarrow> split_edge option \<Rightarrow> f32 \<Rightarrow>
   dwindle_tree \<times> bool" where
  "resize_split_in_tree (Leaf pid) rect gap focused target_axis edge pixels = (Leaf pid, False)"
| "resize_split_in_tree (Split axis ratio first second) rect gap focused target_axis edge pixels =
     (let (first_rect, second_rect) = split_float_rect rect axis ratio gap in
      if tree_contains first focused then
        (case resize_split_in_tree first first_rect gap focused target_axis edge pixels of
           (first', True) \<Rightarrow> (Split axis ratio first' second, True)
         | (first', False) \<Rightarrow>
             if axis \<noteq> target_axis \<or>
                \<not> edge_qualifies edge True
             then (Split axis ratio first' second, False)
             else (move_divider axis ratio first' second rect gap True pixels, True))
      else if tree_contains second focused then
        (case resize_split_in_tree second second_rect gap focused target_axis edge pixels of
           (second', True) \<Rightarrow> (Split axis ratio first second', True)
         | (second', False) \<Rightarrow>
             if axis \<noteq> target_axis \<or>
                \<not> edge_qualifies edge False
             then (Split axis ratio first second', False)
             else (move_divider axis ratio first second' rect gap False pixels, True))
      else (Split axis ratio first second, False))"

definition resize_workspace_split ::
  "workspace \<Rightarrow> float_rect \<Rightarrow> tile_gap \<Rightarrow> pane_id \<Rightarrow> split_axis \<Rightarrow> split_edge option \<Rightarrow> f32 \<Rightarrow> workspace \<times> bool" where
  "resize_workspace_split w rect gap focused target_axis edge pixels =
     (let w = (if tile_tree w = None
               then w\<lparr>tile_tree := effective_tile_tree (workspace_source w) None\<rparr> else w)
      in case tile_tree w of
           None \<Rightarrow> (w, False)
         | Some tree \<Rightarrow>
             (let (tree', resized) = resize_split_in_tree tree rect gap focused target_axis edge pixels
              in (w\<lparr>tile_tree := Some tree'\<rparr>, resized)))"

definition resize_tiled_split ::
  "workspace \<Rightarrow> float_rect \<Rightarrow> tile_gap \<Rightarrow> pane_id \<Rightarrow> split_axis \<Rightarrow> f32 \<Rightarrow> workspace \<times> bool" where
  "resize_tiled_split w rect gap focused target_axis pixels =
     resize_workspace_split w rect gap focused target_axis None pixels"

definition resize_tiled_split_for_edge ::
  "workspace \<Rightarrow> float_rect \<Rightarrow> tile_gap \<Rightarrow> pane_id \<Rightarrow> split_axis \<Rightarrow> split_edge \<Rightarrow> f32 \<Rightarrow> workspace \<times> bool" where
  "resize_tiled_split_for_edge w rect gap focused target_axis edge pixels =
     resize_workspace_split w rect gap focused target_axis (Some edge) pixels"

subsection \<open>Shape\<close>

text \<open>The structure of a tree, ratios forgotten.\<close>

fun skeleton :: "dwindle_tree \<Rightarrow> dwindle_tree" where
  "skeleton (Leaf pid) = Leaf pid"
| "skeleton (Split axis _ first second) = Split axis (Fin 0) (skeleton first) (skeleton second)"

lemma leaves_skeleton [simp]: "leaves (skeleton t) = leaves t"
  by (induction t) auto

lemma skeleton_hold [simp]:
  "skeleton (hold_trailing_dividers t rect gap axis delta) = skeleton t"
  "skeleton (hold_leading_dividers t rect gap axis delta) = skeleton t"
  by (induction t arbitrary: rect delta) (auto simp: Let_def case_prod_beta)

lemma skeleton_resize:
  "skeleton (fst (resize_split_in_tree t rect gap focused axis edge pixels)) = skeleton t"
  by (induction t arbitrary: rect)
    (auto simp: Let_def case_prod_beta move_divider_def split: bool.splits)

lemma resize_unresized:
  "\<not> snd (resize_split_in_tree t rect gap focused axis edge pixels) \<Longrightarrow>
   fst (resize_split_in_tree t rect gap focused axis edge pixels) = t"
  by (induction t arbitrary: rect) (auto simp: Let_def case_prod_beta split: bool.splits if_splits)

lemma resize_iff_split:
  "snd (resize_split_in_tree t rect gap focused axis edge pixels) \<longleftrightarrow>
   axis_split_visit t focused axis edge path \<noteq> None"
proof (induction t arbitrary: rect path)
  case (Split a r x y)
  show ?case
    using Split.IH(1) [of _ "path @ [False]"] Split.IH(2) [of _ "path @ [True]"]
    by (auto simp: Let_def case_prod_beta split: option.splits bool.splits)
qed simp

subsection \<open>The ratio renders the cells it was made from\<close>

definition lowest_cells :: "int \<Rightarrow> int" where
  "lowest_cells u = \<lceil>rval (13421773 / 67108864 * of_int u)\<rceil>"

definition highest_cells :: "int \<Rightarrow> int" where
  "highest_cells u = max \<lfloor>rval (13421773 / 16777216 * of_int u)\<rfloor> (lowest_cells u)"

lemma rnd_unit: "0 \<le> q \<Longrightarrow> q \<le> 2 ^ 24 \<Longrightarrow> rnd q = Fin (rval q)"
proof -
  assume q: "0 \<le> q" "q \<le> 2 ^ 24"
  have "rval q \<le> 2 ^ 24" using rval_mono [OF q(2)] rval_of_int [of "2 ^ 24"] by simp
  then show ?thesis using rval_nonneg [OF q(1)] by (intro rnd_small) simp
qed

lemma rval_near:
  assumes "2 powi (-126) \<le> q" shows "\<bar>rval q - q\<bar> \<le> q / 2 ^ 24"
  using rval_rel_error [of q] assms
  by (metis abs_of_nonneg order_trans zero_le_power_int zero_le_numeral)

lemma tiny: "2 powi (-126) \<le> (1 / 2 ^ 24 :: rat)"
  by (simp add: power_int_minus field_simps)

lemma limit_cells:
  assumes "1 \<le> u" "u \<le> 2 ^ 20"
  shows "1 \<le> lowest_cells u" "lowest_cells u \<le> highest_cells u" "highest_cells u \<le> u"
    and "of_int (lowest_cells u) \<ge> 13421773 / 67108864 * of_int u - 1 / 2 ^ 24 * (of_int u :: rat)"
    and "2 \<le> u \<Longrightarrow> of_int (highest_cells u) \<le> 13421773 / 16777216 * of_int u + 1 / 2 ^ 24 * (of_int u :: rat)"
proof -
  define U where "U = (of_int u :: rat)"
  have U: "1 \<le> U" using assms(1) by (simp add: U_def)
  define lo hi where "lo = rval (13421773 / 67108864 * U)" and "hi = rval (13421773 / 16777216 * U)"
  have big: "2 powi (-126) \<le> 13421773 / 67108864 * U" "2 powi (-126) \<le> 13421773 / 16777216 * U"
    using tiny U by (simp_all add: order_trans)
  have lo: "\<bar>lo - 13421773 / 67108864 * U\<bar> \<le> 1 / 2 ^ 24 * U"
    using rval_near [OF big(1)] U by (simp add: lo_def)
  have hi: "\<bar>hi - 13421773 / 16777216 * U\<bar> \<le> 1 / 2 ^ 24 * U"
    using rval_near [OF big(2)] U by (simp add: hi_def)
  have lo_hi: "lowest_cells u = \<lceil>lo\<rceil>" "highest_cells u = max \<lfloor>hi\<rfloor> \<lceil>lo\<rceil>"
    by (simp_all add: lowest_cells_def highest_cells_def lo_def hi_def U_def)
  have "0 < lo" using lo U by (auto simp: abs_le_iff field_simps)
  then show "1 \<le> lowest_cells u" by (simp add: lo_hi le_ceiling_iff)
  show "lowest_cells u \<le> highest_cells u" by (simp add: lo_hi)
  have "lo \<le> U" "hi \<le> U" using rval_mono [of _ U] rval_of_int [of u] assms U by (simp_all add: lo_def hi_def U_def)
  then show "highest_cells u \<le> u" by (simp add: lo_hi U_def ceiling_le_iff floor_le_iff)
  show "of_int (lowest_cells u) \<ge> 13421773 / 67108864 * of_int u - 1 / 2 ^ 24 * (of_int u :: rat)"
  proof -
    have "13421773 / 67108864 * U - 1 / 2 ^ 24 * U \<le> lo" using lo unfolding abs_le_iff by linarith
    also have "lo \<le> of_int (lowest_cells u)" by (simp add: lo_hi)
    finally show ?thesis by (simp only: U_def)
  qed
  show "of_int (highest_cells u) \<le> 13421773 / 16777216 * of_int u + 1 / 2 ^ 24 * (of_int u :: rat)" if "2 \<le> u"
  proof -
    define m where "m = u div 2"
    have "2 * m \<le> u" "u - 1 \<le> 2 * m" "1 \<le> m" "\<bar>m\<bar> \<le> 2 ^ 24" using that assms by (auto simp: m_def)
    then have "2 * of_int m \<le> U" "U - 1 \<le> 2 * of_int m" "1 \<le> (of_int m :: rat)"
      using of_int_le_iff [where 'a = rat, of "2 * m" u] of_int_le_iff [where 'a = rat, of "u - 1" "2 * m"]
      by (simp_all add: U_def)
    then have "13421773 / 67108864 * U \<le> of_int m" "of_int m \<le> 13421773 / 16777216 * U" by simp_all
    then have "lo \<le> of_int m" "of_int m \<le> hi"
      using rval_mono rval_of_int [OF \<open>\<bar>m\<bar> \<le> 2 ^ 24\<close>] by (metis lo_def, metis hi_def)
    then have "\<lceil>lo\<rceil> \<le> \<lfloor>hi\<rfloor>" by (meson ceiling_le_iff le_floor_iff order_trans)
    then have "highest_cells u = \<lfloor>hi\<rfloor>" by (simp add: lo_hi)
    then have "of_int (highest_cells u) \<le> hi" by simp
    also have "hi \<le> 13421773 / 16777216 * U + 1 / 2 ^ 24 * U" using hi unfolding abs_le_iff by linarith
    finally show ?thesis by (simp only: U_def)
  qed
qed

lemma round_away_near: "\<bar>v - of_int k\<bar> < 1 / 2 \<Longrightarrow> 0 \<le> v \<Longrightarrow> round_away v = k"
  unfolding round_away_def abs_less_iff by (auto intro!: floor_unique)

text \<open>The stored ratio stays next to \<open>k / u\<close>, clamp included.\<close>

lemma stored_ratio_near:
  assumes u: "2 \<le> u" "u \<le> 2 ^ 20" and k: "lowest_cells u \<le> k" "k \<le> highest_cells u"
  shows "\<exists>q. clamp_split_ratio (whole k div whole u) = Fin q \<and> 0 \<le> q \<and> \<bar>q - of_int k / of_int u\<bar> \<le> 1 / 2 ^ 24"
proof -
  define U where "U = (of_int u :: rat)"
  define r where "r = (of_int k :: rat) / U"
  have u1: "1 \<le> u" using u by simp
  note lim = limit_cells [OF u1 u(2)]
  have k': "1 \<le> k" "k \<le> u" using lim(1,3) k by linarith+
  have U: "1 \<le> U" "0 < U" using u by (simp_all add: U_def)
  have r1: "r \<le> 1" using k' U by (simp add: r_def U_def)
  have r0: "1 / 2 ^ 24 \<le> r"
  proof -
    have "U \<le> 2 ^ 24" using u(2) of_int_le_iff [where 'a = rat, of u "2 ^ 24"] by (simp add: U_def)
    then show ?thesis using k' U by (simp add: r_def field_simps)
  qed
  have near: "\<bar>rval r - r\<bar> \<le> 1 / 2 ^ 24"
  proof -
    have "2 powi (-126) \<le> r" using tiny r0 by (rule order_trans)
    then have "\<bar>rval r - r\<bar> \<le> r / 2 ^ 24" by (rule rval_near)
    also have "\<dots> \<le> 1 / 2 ^ 24" using r1 by (intro divide_right_mono) auto
    finally show ?thesis .
  qed
  have lo: "13421773 / 67108864 - 1 / 2 ^ 24 \<le> r"
    using lim(4) k(1) U of_int_le_iff [where 'a = rat, of "lowest_cells u" k]
    by (simp add: r_def U_def [symmetric] le_divide_eq algebra_simps)
  have hi: "r \<le> 13421773 / 16777216 + 1 / 2 ^ 24"
    using lim(5) [OF u(1)] k(2) U of_int_le_iff [where 'a = rat, of k "highest_cells u"]
    by (simp add: r_def U_def [symmetric] divide_le_eq algebra_simps)
  have div: "whole k div whole u = Fin (rval r)"
  proof -
    have "0 \<le> r" using r0 by (rule order_trans [rotated]) simp
    then have "rnd r = Fin (rval r)" using r1 by (intro rnd_unit) auto
    then show ?thesis using U by (simp add: U_def r_def)
  qed
  have "clamp_split_ratio (whole k div whole u) = Fin (max (13421773 / 67108864) (min (13421773 / 16777216) (rval r)))"
    unfolding div by (simp add: clamp_split_ratio_def ratio_constants)
  moreover have "\<bar>max (13421773 / 67108864) (min (13421773 / 16777216) (rval r)) - r\<bar> \<le> 1 / 2 ^ 24"
    using near lo hi unfolding abs_le_iff max_def min_def by (auto simp only: split: if_splits)
  ultimately show ?thesis unfolding r_def U_def by (intro exI conjI) auto
qed

lemma first_cells_ratio:
  assumes u: "1 \<le> u" "u \<le> 2 ^ 20" and k: "lowest_cells u \<le> k" "k \<le> highest_cells u"
  shows "first_cells u (whole k div whole u) = k"
proof (cases "u = 1")
  case True
  then have "k = 1" using limit_cells(1,3) [of 1] k by simp
  have "1 / 2 \<le> rval (13421773 / 16777216)" "rval (13421773 / 16777216) \<le> 1"
    using rval_mono [of "1 / 2" "13421773 / 16777216"] rval_exact [of "1 / 2" 1 "-1"]
      rval_mono [of "13421773 / 16777216" 1] rval_of_int [of 1] by auto
  then have "f32_round (whole 1 * clamp_split_ratio (whole 1 div whole 1)) = whole 1"
    using round_away_between(2) [of "rval (13421773 / 16777216)" 1] rval_of_int [of 1]
    by (simp add: clamp_split_ratio_def ratio_constants rnd_unit) (simp add: round_away_def floor_eq_iff)
  then show ?thesis using True \<open>k = 1\<close> by (simp add: first_cells_def)
next
  case False
  then have u2: "2 \<le> u" using u by simp
  define U where "U = (of_int u :: rat)"
  have U: "2 \<le> U" "U \<le> 2 ^ 20"
    using u2 u(2) of_int_le_iff [where 'a = rat, of u "2 ^ 20"] by (simp_all add: U_def)
  obtain q where q: "clamp_split_ratio (whole k div whole u) = Fin q" "0 \<le> q" "\<bar>q - of_int k / U\<bar> \<le> 1 / 2 ^ 24"
    using stored_ratio_near [OF u2 u(2) k] by (auto simp: U_def)
  define d where "d = q - of_int k / U"
  have Uq: "U * q = of_int k + d * U" using U by (simp add: d_def field_simps)
  have "\<bar>d * U\<bar> \<le> 1 / 2 ^ 24 * 2 ^ 20"
    unfolding abs_mult using q(3) U by (intro mult_mono) (auto simp: d_def)
  then have prod: "\<bar>U * q - of_int k\<bar> \<le> 1 / 16" by (simp add: Uq)
  have kle: "of_int k \<le> U" "1 \<le> (of_int k :: rat)"
    using limit_cells(1,3) [OF u] k by (simp_all add: U_def)
  have Uq1: "1 / 2 \<le> U * q" "U * q \<le> 2 ^ 20 + 1" using prod kle U unfolding abs_le_iff by linarith+
  have "\<bar>rval (U * q) - U * q\<bar> \<le> 1 / 8"
  proof -
    have "(1 / 2 ^ 24 :: rat) \<le> 1 / 2" by simp
    then have "2 powi (-126) \<le> U * q" using Uq1 tiny by linarith
    then have "\<bar>rval (U * q) - U * q\<bar> \<le> U * q / 2 ^ 24" by (rule rval_near)
    also have "\<dots> \<le> (2 ^ 20 + 1) / 2 ^ 24" using Uq1 by (intro divide_right_mono) auto
    finally show ?thesis by simp
  qed
  then have "\<bar>rval (U * q) - of_int k\<bar> < 1 / 2" using prod by linarith
  then have "round_away (rval (U * q)) = k" using U q(2) by (intro round_away_near rval_nonneg) auto
  moreover have "rnd (U * q) = Fin (rval (U * q))" using Uq1 by (intro rnd_unit) auto
  ultimately show ?thesis
    using clamp_split_ratio_bounds [of "whole k div whole u"] q
    by (simp add: first_cells_def U_def [symmetric])
qed

lemma cell_split_ratio_whole:
  assumes u: "1 \<le> u" "u \<le> 2 ^ 20"
  shows "cell_split_ratio (whole c) (whole u) =
    clamp_split_ratio (whole (max (lowest_cells u) (min (highest_cells u) c)) div whole u)"
proof -
  define U where "U = (of_int u :: rat)"
  have U: "1 \<le> U" "U \<le> 2 ^ 20"
    using u of_int_le_iff [where 'a = rat, of u "2 ^ 20"] by (simp_all add: U_def)
  have "f32_max (whole u) (Fin 1) = whole u" using U by (simp add: U_def)
  moreover have "f32_ceil (MIN_SPLIT_RATIO * whole u) = whole (lowest_cells u)"
    using U by (simp add: ratio_constants lowest_cells_def U_def [symmetric] rnd_unit)
  moreover have "f32_floor (MAX_SPLIT_RATIO * whole u) = whole \<lfloor>rval (13421773 / 16777216 * U)\<rfloor>"
    using U by (simp add: ratio_constants U_def [symmetric] rnd_unit)
  moreover have "f32_clamp (f32_round (whole c)) (whole (lowest_cells u)) (whole (highest_cells u)) =
      whole (max (lowest_cells u) (min (highest_cells u) c))"
    using limit_cells(2) [OF u] by (simp add: of_int_max of_int_min)
  ultimately show ?thesis
    by (simp only: cell_split_ratio_def Let_def whole_minmax highest_cells_def U_def)
qed

lemma clamp_split_ratio_idem [simp]: "clamp_split_ratio (clamp_split_ratio r) = clamp_split_ratio r"
proof -
  obtain q where q: "clamp_split_ratio r = Fin q" "13421773 / 67108864 \<le> q" "q \<le> 13421773 / 16777216"
    using clamp_split_ratio_bounds by blast
  show ?thesis unfolding q(1) using q(2,3) by (simp add: clamp_split_ratio_def ratio_constants)
qed

lemma first_cells_clamp [simp]: "first_cells A (clamp_split_ratio r) = first_cells A r"
  by (simp add: first_cells_def)

text \<open>Clamping a number of cells to what a ratio can express.\<close>

definition clamp_cells :: "int \<Rightarrow> int \<Rightarrow> int" where
  "clamp_cells u c = max (lowest_cells u) (min (highest_cells u) c)"

lemma clamp_cells_bounds:
  assumes "1 \<le> u" "u \<le> 2 ^ 20"
  shows "lowest_cells u \<le> clamp_cells u c" "clamp_cells u c \<le> highest_cells u" "1 \<le> clamp_cells u c" "clamp_cells u c \<le> u"
  using limit_cells(1,2,3) [OF assms] by (auto simp: clamp_cells_def)

lemma first_cells_cell_split_ratio:
  assumes u: "1 \<le> u" "u \<le> 2 ^ 20"
  shows "first_cells u (cell_split_ratio (whole c) (whole u)) = clamp_cells u c"
  unfolding cell_split_ratio_whole [OF u] first_cells_clamp clamp_cells_def [symmetric]
  using clamp_cells_bounds [OF u] by (intro first_cells_ratio [OF u])

subsection \<open>Held dividers on cells\<close>

lemma hold_zero [simp]:
  "hold_trailing_dividers t rect gap axis (Fin 0) = t"
  "hold_leading_dividers t rect gap axis (Fin 0) = t"
  by (cases t; simp add: f32_eq_def)+

lemma usable_whole:
  assumes "0 \<le> e" "e \<le> 2 ^ 20" "0 \<le> gh" "0 \<le> gv"
  shows "usable_axis_extent (whole e) axis (whole_gap gh gv) = whole (e - cell_gap e (cell_gaps gh gv axis))"
proof -
  have "0 \<le> cell_gap e (cell_gaps gh gv axis)" "cell_gap e (cell_gaps gh gv axis) \<le> e"
    using cell_gap_bounds(1) [OF cell_gaps_nonneg [OF assms(3,4)] assms(1)] by auto
  moreover have "(if whole (cell_gaps gh gv axis) < whole e then whole (cell_gaps gh gv axis) else Fin 0) =
      whole (cell_gap e (cell_gaps gh gv axis))"
    by (simp add: cell_gap_def)
  moreover have "whole e - whole (cell_gap e (cell_gaps gh gv axis)) = whole (e - cell_gap e (cell_gaps gh gv axis))"
    using calculation assms by (intro whole_arith(2)) auto
  ultimately show ?thesis
    by (simp only: usable_axis_extent_def Let_def for_axis_whole) simp
qed

text \<open>The extent of a region grows by \<open>d\<close> at its trailing edge, or at its leading edge.\<close>

definition grown_trailing :: "split_axis \<Rightarrow> int \<Rightarrow> crect \<Rightarrow> crect" where
  "grown_trailing axis d c = cell_cut c axis (cell_start c axis) (cell_extent c axis + d)"

definition grown_leading :: "split_axis \<Rightarrow> int \<Rightarrow> crect \<Rightarrow> crect" where
  "grown_leading axis d c = cell_cut c axis (cell_start c axis - d) (cell_extent c axis + d)"

text \<open>
  Room for a nested tree to keep its dividers when its region grows (or, for a negative \<open>d\<close>,
  shrinks) at an edge: along the axis every split that touches the edge can express the new number
  of cells of its first side, and its gap stays in use.
\<close>

fun trailing_room :: "split_axis \<Rightarrow> int \<Rightarrow> int \<Rightarrow> int \<Rightarrow> dwindle_tree \<Rightarrow> crect \<Rightarrow> bool" where
  "trailing_room axis gh gv d (Leaf _) c = True"
| "trailing_room axis gh gv d (Split split_axis ratio first second) c =
     (let g = cell_gaps gh gv split_axis;
          halves = cell_split c split_axis ratio g
      in if split_axis \<noteq> axis then
           trailing_room axis gh gv d first (halves ! 0) \<and> trailing_room axis gh gv d second (halves ! 1)
         else
           let A = cell_extent c axis - cell_gap (cell_extent c axis) g; k = first_cells A ratio
           in cell_gap (cell_extent c axis + d) g = cell_gap (cell_extent c axis) g \<and> 1 \<le> A + d \<and>
              lowest_cells (A + d) \<le> k \<and> k \<le> highest_cells (A + d) \<and>
              trailing_room axis gh gv d second (halves ! 1))"

fun leading_room :: "split_axis \<Rightarrow> int \<Rightarrow> int \<Rightarrow> int \<Rightarrow> dwindle_tree \<Rightarrow> crect \<Rightarrow> bool" where
  "leading_room axis gh gv d (Leaf _) c = True"
| "leading_room axis gh gv d (Split split_axis ratio first second) c =
     (let g = cell_gaps gh gv split_axis;
          halves = cell_split c split_axis ratio g
      in if split_axis \<noteq> axis then
           leading_room axis gh gv d first (halves ! 0) \<and> leading_room axis gh gv d second (halves ! 1)
         else
           let A = cell_extent c axis - cell_gap (cell_extent c axis) g; k = first_cells A ratio
           in cell_gap (cell_extent c axis + d) g = cell_gap (cell_extent c axis) g \<and> 1 \<le> A + d \<and>
              lowest_cells (A + d) \<le> k + d \<and> k + d \<le> highest_cells (A + d) \<and>
              leading_room axis gh gv d first (halves ! 0))"

text \<open>Where a pane starts, or ends, along the axis, and all of its other axis.\<close>

definition start_of :: "split_axis \<Rightarrow> crect \<Rightarrow> int \<times> int \<times> int" where
  "start_of axis r = (cell_start r axis, cell_start r (flipped axis), cell_extent r (flipped axis))"

definition end_of :: "split_axis \<Rightarrow> crect \<Rightarrow> int \<times> int \<times> int" where
  "end_of axis r = (cell_start r axis + cell_extent r axis, cell_start r (flipped axis), cell_extent r (flipped axis))"

lemma cell_cut_other:
  "axis \<noteq> ax \<Longrightarrow> cell_extent (cell_cut c axis s l) ax = cell_extent c ax"
  "axis \<noteq> ax \<Longrightarrow> cell_start (cell_cut c axis s l) ax = cell_start c ax"
  by (cases axis; cases ax; simp add: cell_cut_def cell_extent_def cell_start_def)+

lemma cell_cut_commute: "axis \<noteq> ax \<Longrightarrow> cell_cut (cell_cut c axis s l) ax s' l' = cell_cut (cell_cut c ax s' l') axis s l"
  by (cases axis; cases ax; simp add: cell_cut_def)

lemma cell_cut_twice [simp]: "cell_cut (cell_cut c axis s l) axis s' l' = cell_cut c axis s' l'"
  by (cases axis) (simp_all add: cell_cut_def)

lemma split_grown_other:
  assumes "ax \<noteq> axis"
  shows "cell_split (grown_trailing axis d c) ax ratio g ! 0 = grown_trailing axis d (cell_split c ax ratio g ! 0)"
    and "cell_split (grown_trailing axis d c) ax ratio g ! 1 = grown_trailing axis d (cell_split c ax ratio g ! 1)"
    and "cell_split (grown_leading axis d c) ax ratio g ! 0 = grown_leading axis d (cell_split c ax ratio g ! 0)"
    and "cell_split (grown_leading axis d c) ax ratio g ! 1 = grown_leading axis d (cell_split c ax ratio g ! 1)"
  using assms
  by (simp_all add: cell_split_def Let_def grown_trailing_def grown_leading_def cell_cut_other
      cell_cut_commute [of ax axis])

lemma grown_simps [simp]:
  "cell_extent (grown_trailing axis d c) axis = cell_extent c axis + d"
  "cell_start (grown_trailing axis d c) axis = cell_start c axis"
  "cell_extent (grown_leading axis d c) axis = cell_extent c axis + d"
  "cell_start (grown_leading axis d c) axis = cell_start c axis - d"
  by (simp_all add: grown_trailing_def grown_leading_def)

text \<open>The two computations that every held split on the axis shares.\<close>

lemma held_before:
  assumes c: "on_grid c" and c': "0 \<le> cell_extent c axis + d" "cell_extent c axis + d \<le> 2 ^ 20" and g: "0 \<le> gh" "0 \<le> gv"
    and gap: "cell_gap (cell_extent c axis + d) (cell_gaps gh gv axis) = cell_gap (cell_extent c axis) (cell_gaps gh gv axis)"
    and pos: "1 \<le> cell_extent c axis - cell_gap (cell_extent c axis) (cell_gaps gh gv axis) + d"
  defines "A \<equiv> cell_extent c axis - cell_gap (cell_extent c axis) (cell_gaps gh gv axis)"
  shows "f32_round (usable_axis_extent (whole (cell_extent c axis + d) - whole d) axis (whole_gap gh gv) * clamp_split_ratio ratio) =
      whole (first_cells A ratio)"
    and "f32_max (usable_axis_extent (whole (cell_extent c axis + d)) axis (whole_gap gh gv)) (Fin 1) = whole (A + d)"
    and "0 \<le> A" "A \<le> 2 ^ 20" "A + d \<le> 2 ^ 20"
proof -
  have e: "0 \<le> cell_extent c axis" "cell_extent c axis \<le> 2 ^ 20" using on_grid_axis [OF c] by auto
  have gb: "0 \<le> cell_gap (cell_extent c axis) (cell_gaps gh gv axis)"
    "cell_gap (cell_extent c axis) (cell_gaps gh gv axis) \<le> cell_extent c axis"
    using cell_gap_bounds(1) [OF cell_gaps_nonneg [OF g] e(1)] by auto
  show A: "0 \<le> A" "A \<le> 2 ^ 20" "A + d \<le> 2 ^ 20" using gb e c' by (simp_all add: A_def)
  have "whole (cell_extent c axis + d) - whole d = whole (cell_extent c axis + d - d)"
    using e by (intro whole_arith(2)) auto
  then have "usable_axis_extent (whole (cell_extent c axis + d) - whole d) axis (whole_gap gh gv) = whole A"
    using usable_whole [OF e g, of axis] by (simp add: A_def)
  then show "f32_round (usable_axis_extent (whole (cell_extent c axis + d) - whole d) axis (whole_gap gh gv) * clamp_split_ratio ratio) =
      whole (first_cells A ratio)"
    using first_cells(1) [OF A(1,2)] by simp
  have "usable_axis_extent (whole (cell_extent c axis + d)) axis (whole_gap gh gv) = whole (A + d)"
    using usable_whole [OF c' g, of axis] gap by (simp add: A_def)
  moreover have "f32_max (whole (A + d)) (whole 1) = whole (A + d)"
    using pos by (simp only: whole_minmax A_def) (simp add: max_def)
  ultimately show "f32_max (usable_axis_extent (whole (cell_extent c axis + d)) axis (whole_gap gh gv)) (Fin 1) = whole (A + d)"
    by simp
qed

lemma hold_trailing_step:
  assumes c: "on_grid c" and c': "on_grid (grown_trailing axis d c)" and g: "0 \<le> gh" "0 \<le> gv" and "d \<noteq> 0"
    and room: "trailing_room axis gh gv d (Split axis ratio first second) c"
  defines "G \<equiv> cell_gaps gh gv axis"
  defines "halves \<equiv> cell_split c axis ratio G"
  shows "\<exists>r. hold_trailing_dividers (Split axis ratio first second) (embed (grown_trailing axis d c)) (whole_gap gh gv) axis (whole d) =
      Split axis r first
        (hold_trailing_dividers second (embed (grown_trailing axis d (halves ! 1))) (whole_gap gh gv) axis (whole d)) \<and>
    cell_split (grown_trailing axis d c) axis r G = [halves ! 0, grown_trailing axis d (halves ! 1)]"
proof -
  define A where "A = cell_extent c axis - cell_gap (cell_extent c axis) G"
  define k where "k = first_cells A ratio"
  have gap: "cell_gap (cell_extent c axis + d) G = cell_gap (cell_extent c axis) G"
    and pos: "1 \<le> A + d" and k: "lowest_cells (A + d) \<le> k" "k \<le> highest_cells (A + d)"
    using room by (simp_all add: A_def G_def k_def Let_def)
  have e': "0 \<le> cell_extent c axis + d" "cell_extent c axis + d \<le> 2 ^ 20"
    using on_grid_axis [OF c', of axis] by simp_all
  note hb = held_before [OF c e' g gap [unfolded G_def] pos [unfolded A_def G_def], folded G_def, folded A_def]
  define r where "r = clamp_split_ratio (whole k div whole (A + d))"
  have fr: "first_cells (A + d) r = k"
    unfolding r_def first_cells_clamp using hb(5) pos k by (intro first_cells_ratio)
  have split: "cell_split (grown_trailing axis d c) axis r G = [halves ! 0, grown_trailing axis d (halves ! 1)]"
  proof -
    have Ad: "cell_extent c axis + d - cell_gap (cell_extent c axis) G = A + d" by (simp add: A_def)
    show ?thesis
      by (simp add: cell_split_def halves_def Let_def gap Ad fr k_def [symmetric] A_def [symmetric])
        (simp add: grown_trailing_def add_diff_eq diff_add_eq)
  qed
  have rects: "split_float_rect (embed (grown_trailing axis d c)) axis r (whole_gap gh gv) =
      (embed (halves ! 0), embed (grown_trailing axis d (halves ! 1)))"
    using split_float_rect_cells [OF c' g, of axis r] split by (simp add: G_def)
  have "cell_extent (halves ! 0) axis = k"
    by (simp add: halves_def cell_split_nth(1) k_def A_def)
  then have held: "axis_extent (embed (halves ! 0)) axis - whole k = Fin 0"
    using hb(3,4) first_cells(2,3) [OF hb(3,4), of ratio] rnd_of_int [of 0] by (simp add: k_def)
  have delta: "whole d - Fin 0 = whole d"
  proof -
    have "\<bar>d\<bar> \<le> 2 ^ 24" using e' on_grid_axis [OF c, of axis] by simp
    then show ?thesis using whole_arith(2) [of d 0] by simp
  qed
  have ne: "\<not> f32_eq (whole d) (Fin 0)" using \<open>d \<noteq> 0\<close> by (simp add: f32_eq_def)
  have ext: "axis_extent (embed (grown_trailing axis d c)) axis = whole (cell_extent c axis + d)" by simp
  have "hold_trailing_dividers (Split axis ratio first second) (embed (grown_trailing axis d c)) (whole_gap gh gv) axis (whole d) =
      Split axis r first
        (hold_trailing_dividers second (embed (grown_trailing axis d (halves ! 1))) (whole_gap gh gv) axis (whole d))"
    by (simp only: hold_trailing_dividers.simps ne if_False if_True Let_def ext hb(1,2) r_def [symmetric] k_def [symmetric]
        rects prod.case held delta hold_zero simp_thms)
  then show ?thesis using split by blast
qed

lemma hold_trailing_cells:
  assumes "on_grid c" "on_grid (grown_trailing axis d c)" "0 \<le> gh" "0 \<le> gv" "d \<noteq> 0" "trailing_room axis gh gv d t c"
  shows "map (start_of axis) (tree_cells (hold_trailing_dividers t (embed (grown_trailing axis d c)) (whole_gap gh gv) axis (whole d))
      gh gv (grown_trailing axis d c)) = map (start_of axis) (tree_cells t gh gv c)"
  using assms
proof (induction t arbitrary: c)
  case (Leaf pid)
  then show ?case by (cases axis) (simp_all add: start_of_def grown_trailing_def cell_cut_other)
next
  case (Split ax ratio a b)
  define G where "G = cell_gaps gh gv ax"
  define halves where "halves = cell_split c ax ratio G"
  define c' where "c' = grown_trailing axis d c"
  have on: "on_grid (halves ! 0)" "on_grid (halves ! 1)"
    using cell_split_facts(1) [OF Split.prems(1), of G ax ratio] Split.prems by (simp_all add: halves_def G_def)
  have on': "on_grid (cell_split c' ax r G ! 0)" "on_grid (cell_split c' ax r G ! 1)" for r
    using cell_split_facts(1) [of c' G ax r] Split.prems by (simp_all add: G_def c'_def)
  show ?case
  proof (cases "ax = axis")
    case True
    obtain r where r: "hold_trailing_dividers (Split ax ratio a b) (embed c') (whole_gap gh gv) axis (whole d) =
        Split ax r a (hold_trailing_dividers b (embed (grown_trailing axis d (halves ! 1))) (whole_gap gh gv) axis (whole d))"
      "cell_split c' ax r G = [halves ! 0, grown_trailing axis d (halves ! 1)]"
      using hold_trailing_step [OF Split.prems(1-5), of ratio a b] Split.prems(6) True
      by (auto simp: c'_def halves_def G_def)
    have "trailing_room axis gh gv d b (halves ! 1)"
      using Split.prems(6) True by (simp add: halves_def G_def Let_def)
    then have "map (start_of axis) (tree_cells (hold_trailing_dividers b (embed (grown_trailing axis d (halves ! 1))) (whole_gap gh gv) axis (whole d))
        gh gv (grown_trailing axis d (halves ! 1))) = map (start_of axis) (tree_cells b gh gv (halves ! 1))"
      using Split.IH(2) [OF on(2) _ Split.prems(3-5)] on'(2) [of r] r(2) by simp
    then show ?thesis
      unfolding c'_def [symmetric] r(1) tree_cells.simps Let_def G_def [symmetric] r(2) halves_def [symmetric]
      by simp
  next
    case False
    define A B where "A = hold_trailing_dividers a (embed (grown_trailing axis d (halves ! 0))) (whole_gap gh gv) axis (whole d)"
      and "B = hold_trailing_dividers b (embed (grown_trailing axis d (halves ! 1))) (whole_gap gh gv) axis (whole d)"
    have split: "cell_split c' ax ratio G ! 0 = grown_trailing axis d (halves ! 0)"
      "cell_split c' ax ratio G ! 1 = grown_trailing axis d (halves ! 1)"
      using split_grown_other(1,2) [OF False] by (simp_all add: c'_def halves_def)
    have "split_float_rect (embed c') ax ratio (whole_gap gh gv) =
        (embed (grown_trailing axis d (halves ! 0)), embed (grown_trailing axis d (halves ! 1)))"
      using split_float_rect_cells [of c' gh gv ax ratio] Split.prems split by (simp add: c'_def G_def)
    then have hold: "hold_trailing_dividers (Split ax ratio a b) (embed c') (whole_gap gh gv) axis (whole d) = Split ax ratio A B"
      using False Split.prems(5) by (simp add: f32_eq_def A_def B_def)
    have room: "trailing_room axis gh gv d a (halves ! 0)" "trailing_room axis gh gv d b (halves ! 1)"
      using Split.prems(6) False by (simp_all add: halves_def G_def Let_def)
    have "map (start_of axis) (tree_cells A gh gv (grown_trailing axis d (halves ! 0))) = map (start_of axis) (tree_cells a gh gv (halves ! 0))"
      using Split.IH(1) [OF on(1) _ Split.prems(3-5) room(1)] on'(1) [of ratio] split by (simp add: A_def)
    moreover have "map (start_of axis) (tree_cells B gh gv (grown_trailing axis d (halves ! 1))) = map (start_of axis) (tree_cells b gh gv (halves ! 1))"
      using Split.IH(2) [OF on(2) _ Split.prems(3-5) room(2)] on'(2) [of ratio] split by (simp add: B_def)
    ultimately show ?thesis
      unfolding c'_def [symmetric] hold tree_cells.simps Let_def G_def [symmetric] split halves_def [symmetric]
      by simp
  qed
qed

lemma hold_leading_step:
  assumes c: "on_grid c" and c': "on_grid (grown_leading axis d c)" and g: "0 \<le> gh" "0 \<le> gv" and "d \<noteq> 0"
    and room: "leading_room axis gh gv d (Split axis ratio first second) c"
  defines "G \<equiv> cell_gaps gh gv axis"
  defines "halves \<equiv> cell_split c axis ratio G"
  shows "\<exists>r. hold_leading_dividers (Split axis ratio first second) (embed (grown_leading axis d c)) (whole_gap gh gv) axis (whole d) =
      Split axis r
        (hold_leading_dividers first (embed (grown_leading axis d (halves ! 0))) (whole_gap gh gv) axis (whole d)) second \<and>
    cell_split (grown_leading axis d c) axis r G = [grown_leading axis d (halves ! 0), halves ! 1]"
proof -
  define A where "A = cell_extent c axis - cell_gap (cell_extent c axis) G"
  define k where "k = first_cells A ratio"
  have gap: "cell_gap (cell_extent c axis + d) G = cell_gap (cell_extent c axis) G"
    and pos: "1 \<le> A + d" and k: "lowest_cells (A + d) \<le> k + d" "k + d \<le> highest_cells (A + d)"
    using room by (simp_all add: A_def G_def k_def Let_def)
  have e': "0 \<le> cell_extent c axis + d" "cell_extent c axis + d \<le> 2 ^ 20"
    using on_grid_axis [OF c', of axis] by simp_all
  note hb = held_before [OF c e' g gap [unfolded G_def] pos [unfolded A_def G_def], folded G_def, folded A_def]
  have k0: "0 \<le> k" "k \<le> A" using first_cells(2,3) [OF hb(3,4), of ratio] by (simp_all add: k_def)
  have d: "\<bar>d\<bar> \<le> 2 ^ 20" using e' on_grid_axis [OF c, of axis] by simp
  have kd: "\<bar>k + d\<bar> \<le> 2 ^ 24" using k0 d hb(4) by simp
  define r where "r = clamp_split_ratio (whole (k + d) div whole (A + d))"
  have fr: "first_cells (A + d) r = k + d"
    unfolding r_def first_cells_clamp using hb(5) pos k by (intro first_cells_ratio)
  have split: "cell_split (grown_leading axis d c) axis r G = [grown_leading axis d (halves ! 0), halves ! 1]"
  proof -
    have Ad: "cell_extent c axis + d - cell_gap (cell_extent c axis) G = A + d" by (simp add: A_def)
    show ?thesis
      by (simp add: cell_split_def halves_def Let_def gap Ad fr k_def [symmetric] A_def [symmetric])
        (simp add: grown_leading_def)
  qed
  have rects: "split_float_rect (embed (grown_leading axis d c)) axis r (whole_gap gh gv) =
      (embed (grown_leading axis d (halves ! 0)), embed (halves ! 1))"
    using split_float_rect_cells [OF c' g, of axis r] split by (simp add: G_def)
  have sum: "whole k + whole d = whole (k + d)" using kd by (rule whole_arith(1))
  have "cell_extent (halves ! 0) axis = k"
    by (simp add: halves_def cell_split_nth(1) k_def A_def)
  then have "axis_extent (embed (grown_leading axis d (halves ! 0))) axis = whole (k + d)" by simp
  moreover have "whole (k + d) - whole (k + d) = Fin 0" using whole_arith(2) [of "k + d" "k + d"] by simp
  ultimately have held: "axis_extent (embed (grown_leading axis d (halves ! 0))) axis - whole (k + d) = Fin 0"
    by (simp only:)
  have delta: "whole d + Fin 0 = whole d" "- Fin 0 = Fin 0" using whole_arith(1) [of d 0] d by simp_all
  have ne: "\<not> f32_eq (whole d) (Fin 0)" using \<open>d \<noteq> 0\<close> by (simp add: f32_eq_def)
  have ext: "axis_extent (embed (grown_leading axis d c)) axis = whole (cell_extent c axis + d)" by simp
  have "hold_leading_dividers (Split axis ratio first second) (embed (grown_leading axis d c)) (whole_gap gh gv) axis (whole d) =
      Split axis r
        (hold_leading_dividers first (embed (grown_leading axis d (halves ! 0))) (whole_gap gh gv) axis (whole d)) second"
    by (simp only: hold_leading_dividers.simps ne if_False if_True Let_def ext hb(1,2) k_def [symmetric] sum r_def [symmetric]
        rects prod.case held delta hold_zero simp_thms)
  then show ?thesis using split by blast
qed

lemma hold_leading_cells:
  assumes "on_grid c" "on_grid (grown_leading axis d c)" "0 \<le> gh" "0 \<le> gv" "d \<noteq> 0" "leading_room axis gh gv d t c"
  shows "map (end_of axis) (tree_cells (hold_leading_dividers t (embed (grown_leading axis d c)) (whole_gap gh gv) axis (whole d))
      gh gv (grown_leading axis d c)) = map (end_of axis) (tree_cells t gh gv c)"
  using assms
proof (induction t arbitrary: c)
  case (Leaf pid)
  then show ?case by (cases axis) (simp_all add: end_of_def grown_leading_def cell_cut_other)
next
  case (Split ax ratio a b)
  define G where "G = cell_gaps gh gv ax"
  define halves where "halves = cell_split c ax ratio G"
  define c' where "c' = grown_leading axis d c"
  have on: "on_grid (halves ! 0)" "on_grid (halves ! 1)"
    using cell_split_facts(1) [OF Split.prems(1), of G ax ratio] Split.prems by (simp_all add: halves_def G_def)
  have on': "on_grid (cell_split c' ax r G ! 0)" "on_grid (cell_split c' ax r G ! 1)" for r
    using cell_split_facts(1) [of c' G ax r] Split.prems by (simp_all add: G_def c'_def)
  show ?case
  proof (cases "ax = axis")
    case True
    obtain r where r: "hold_leading_dividers (Split ax ratio a b) (embed c') (whole_gap gh gv) axis (whole d) =
        Split ax r (hold_leading_dividers a (embed (grown_leading axis d (halves ! 0))) (whole_gap gh gv) axis (whole d)) b"
      "cell_split c' ax r G = [grown_leading axis d (halves ! 0), halves ! 1]"
      using hold_leading_step [OF Split.prems(1-5), of ratio a b] Split.prems(6) True
      by (auto simp: c'_def halves_def G_def)
    have "leading_room axis gh gv d a (halves ! 0)"
      using Split.prems(6) True by (simp add: halves_def G_def Let_def)
    then have "map (end_of axis) (tree_cells (hold_leading_dividers a (embed (grown_leading axis d (halves ! 0))) (whole_gap gh gv) axis (whole d))
        gh gv (grown_leading axis d (halves ! 0))) = map (end_of axis) (tree_cells a gh gv (halves ! 0))"
      using Split.IH(1) [OF on(1) _ Split.prems(3-5)] on'(1) [of r] r(2) by simp
    then show ?thesis
      unfolding c'_def [symmetric] r(1) tree_cells.simps Let_def G_def [symmetric] r(2) halves_def [symmetric]
      by simp
  next
    case False
    define A B where "A = hold_leading_dividers a (embed (grown_leading axis d (halves ! 0))) (whole_gap gh gv) axis (whole d)"
      and "B = hold_leading_dividers b (embed (grown_leading axis d (halves ! 1))) (whole_gap gh gv) axis (whole d)"
    have split: "cell_split c' ax ratio G ! 0 = grown_leading axis d (halves ! 0)"
      "cell_split c' ax ratio G ! 1 = grown_leading axis d (halves ! 1)"
      using split_grown_other(3,4) [OF False] by (simp_all add: c'_def halves_def)
    have "split_float_rect (embed c') ax ratio (whole_gap gh gv) =
        (embed (grown_leading axis d (halves ! 0)), embed (grown_leading axis d (halves ! 1)))"
      using split_float_rect_cells [of c' gh gv ax ratio] Split.prems split by (simp add: c'_def G_def)
    then have hold: "hold_leading_dividers (Split ax ratio a b) (embed c') (whole_gap gh gv) axis (whole d) = Split ax ratio A B"
      using False Split.prems(5) by (simp add: f32_eq_def A_def B_def)
    have room: "leading_room axis gh gv d a (halves ! 0)" "leading_room axis gh gv d b (halves ! 1)"
      using Split.prems(6) False by (simp_all add: halves_def G_def Let_def)
    have "map (end_of axis) (tree_cells A gh gv (grown_leading axis d (halves ! 0))) = map (end_of axis) (tree_cells a gh gv (halves ! 0))"
      using Split.IH(1) [OF on(1) _ Split.prems(3-5) room(1)] on'(1) [of ratio] split by (simp add: A_def)
    moreover have "map (end_of axis) (tree_cells B gh gv (grown_leading axis d (halves ! 1))) = map (end_of axis) (tree_cells b gh gv (halves ! 1))"
      using Split.IH(2) [OF on(2) _ Split.prems(3-5) room(2)] on'(2) [of ratio] split by (simp add: B_def)
    ultimately show ?thesis
      unfolding c'_def [symmetric] hold tree_cells.simps Let_def G_def [symmetric] split halves_def [symmetric]
      by simp
  qed
qed

subsection \<open>Moving one divider\<close>

text \<open>How far the divider of a split moves when \<open>pixels\<close> are asked for.\<close>

definition divider_shift :: "int \<Rightarrow> f32 \<Rightarrow> int \<Rightarrow> int" where
  "divider_shift A ratio pixels = clamp_cells A (first_cells A ratio + pixels) - first_cells A ratio"

lemma move_divider_cells:
  fixes axis :: split_axis and ratio :: f32 and fst_side :: bool
  assumes c: "on_grid c" and g: "0 \<le> gh" "0 \<le> gv" and p: "\<bar>pixels\<bar> \<le> 2 ^ 20"
  defines "G \<equiv> cell_gaps gh gv axis"
  defines "A \<equiv> cell_extent c axis - cell_gap (cell_extent c axis) G"
  defines "halves \<equiv> cell_split c axis ratio G"
  defines "m \<equiv> divider_shift A ratio (if fst_side then pixels else - pixels)"
  assumes A: "1 \<le> A"
  shows "\<exists>r. move_divider axis ratio a b (embed c) (whole_gap gh gv) fst_side (whole pixels) =
      Split axis r
        (hold_trailing_dividers a (embed (grown_trailing axis m (halves ! 0))) (whole_gap gh gv) axis (whole m))
        (hold_leading_dividers b (embed (grown_leading axis (- m) (halves ! 1))) (whole_gap gh gv) axis (whole (- m))) \<and>
    cell_split c axis r G = [grown_trailing axis m (halves ! 0), grown_leading axis (- m) (halves ! 1)] \<and>
    first_cells A r = first_cells A ratio + m"
proof -
  have e: "0 \<le> cell_extent c axis" "cell_extent c axis \<le> 2 ^ 20" using on_grid_axis [OF c] by auto
  have "0 \<le> cell_gap (cell_extent c axis) G"
    using cell_gap_bounds(1) [OF cell_gaps_nonneg [OF g] e(1)] by (simp add: G_def)
  then have A20: "A \<le> 2 ^ 20" using e by (simp add: A_def)
  define k where "k = first_cells A ratio"
  have k: "0 \<le> k" "k \<le> A" using first_cells(2,3) [of A ratio] A A20 by (simp_all add: k_def)
  define s where "s = (if fst_side then pixels else - pixels)"
  have s: "\<bar>s\<bar> \<le> 2 ^ 20" using p by (simp add: s_def)
  define r where "r = cell_split_ratio (whole (k + s)) (whole A)"
  have fr: "first_cells A r = k + m"
    unfolding r_def first_cells_cell_split_ratio [OF A A20] by (simp add: m_def divider_shift_def k_def s_def)
  have km: "\<bar>k + m\<bar> \<le> 2 ^ 24" "\<bar>m\<bar> \<le> 2 ^ 24"
    using first_cells(2,3) [of A r] A A20 k unfolding fr by simp_all
  have split: "cell_split c axis r G = [grown_trailing axis m (halves ! 0), grown_leading axis (- m) (halves ! 1)]"
    by (simp add: cell_split_def halves_def Let_def A_def [symmetric] fr k_def [symmetric])
      (simp add: grown_trailing_def grown_leading_def algebra_simps)
  have rects: "split_float_rect (embed c) axis r (whole_gap gh gv) =
      (embed (grown_trailing axis m (halves ! 0)), embed (grown_leading axis (- m) (halves ! 1)))"
    using split_float_rect_cells [OF c g, of axis r] split by (simp add: G_def)
  have rects0: "split_float_rect (embed c) axis ratio (whole_gap gh gv) = (embed (halves ! 0), embed (halves ! 1))"
    using split_float_rect_cells [OF c g, of axis ratio] by (simp add: halves_def G_def)
  have ext0: "axis_extent (embed (halves ! 0)) axis = whole k"
    by (simp add: halves_def cell_split_nth(1) k_def A_def)
  then have ext: "axis_extent (embed (grown_trailing axis m (halves ! 0))) axis = whole (k + m)" by simp
  have signed: "(if fst_side then whole pixels else - whole pixels) = whole s" by (simp add: s_def)
  have sum: "whole k + whole s = whole (k + s)" using k A20 s by (intro whole_arith(1)) simp
  have diff: "whole (k + m) - whole k = whole m" using whole_arith(2) [of "k + m" k] km by simp
  have neg: "- whole m = whole (- m)" by simp
  have usable: "usable_axis_extent (axis_extent (embed c) axis) axis (whole_gap gh gv) = whole A"
    using usable_whole [OF e g, of axis] by (simp add: A_def G_def)
  have "move_divider axis ratio a b (embed c) (whole_gap gh gv) fst_side (whole pixels) =
      Split axis r
        (hold_trailing_dividers a (embed (grown_trailing axis m (halves ! 0))) (whole_gap gh gv) axis (whole m))
        (hold_leading_dividers b (embed (grown_leading axis (- m) (halves ! 1))) (whole_gap gh gv) axis (whole (- m)))"
    by (simp only: move_divider_def Let_def rects0 prod.case usable ext0 signed sum r_def [symmetric] rects ext diff neg)
  then show ?thesis using split fr by (auto simp: k_def)
qed


definition wide_screen :: crect where
  "wide_screen = \<lparr>cx = 0, cy = 0, cw = 40, ch = 10\<rparr>"

definition left_pair :: dwindle_tree where
  "left_pair = Split Horizontal (Fin (1 / 2)) (Leaf 1) (Leaf 2)"


text \<open>
  The ratio that a resize stores renders the cells it was made from: splitting an extent of
  \<open>u\<close> usable cells by it puts the divider exactly at the requested cell, clamped to the cells the
  ratio limits allow, the lowest of which is at least one cell.
\<close>

theorem cell_split_ratio_roundtrip:
  assumes "1 \<le> u" "u \<le> 2 ^ 20"
  shows "f32_round (whole u * clamp_split_ratio (cell_split_ratio (whole c) (whole u))) =
      whole (max (lowest_cells u) (min (highest_cells u) c)) \<and>
    1 \<le> lowest_cells u \<and> lowest_cells u \<le> highest_cells u \<and> highest_cells u \<le> u"
  using first_cells(1) [of u "cell_split_ratio (whole c) (whole u)"] first_cells_cell_split_ratio [OF assms, of c]
    limit_cells [OF assms] assms
  by (simp add: clamp_cells_def)

theorem cell_split_ratio_roundtrip_witness:
  "f32_round (whole 79 * clamp_split_ratio (cell_split_ratio (whole 40) (whole 79))) = whole 40"
proof -
  have "max (lowest_cells 79) (min (highest_cells 79) 40) = 40" by code_simp
  then show ?thesis using cell_split_ratio_roundtrip [of 79 40] by simp
qed

text \<open>
  A resize takes place exactly when the pane has a split on the axis facing the grabbed edge -
  the one \<open>axis_split_path\<close> names -, and it changes ratios only: the panes, their order and the
  structure of the tree stay.
\<close>

theorem resize_keeps_structure:
  "snd (resize_split_in_tree t rect gap focused axis edge pixels) = (axis_split_path t focused axis edge \<noteq> None) \<and>
   skeleton (fst (resize_split_in_tree t rect gap focused axis edge pixels)) = skeleton t"
  using resize_iff_split [of t rect gap focused axis edge pixels "[]"]
  by (simp add: skeleton_resize axis_split_path_def)

text \<open>The splits on the way from the root to a pane: path, axis, and whether the pane is on the first side.\<close>

fun splits_to :: "dwindle_tree \<Rightarrow> pane_id \<Rightarrow> (bool list \<times> split_axis \<times> bool) list" where
  "splits_to (Leaf _) pid = []"
| "splits_to (Split axis _ first second) pid =
     (if pid \<in> set (leaves first) then
        ([], axis, True) # map (\<lambda>(path, s). (False # path, s)) (splits_to first pid)
      else if pid \<in> set (leaves second) then
        ([], axis, False) # map (\<lambda>(path, s). (True # path, s)) (splits_to second pid)
      else [])"

definition nearest_split :: "dwindle_tree \<Rightarrow> pane_id \<Rightarrow> split_axis \<Rightarrow> split_edge option \<Rightarrow> bool list option" where
  "nearest_split t pid target_axis edge =
     (let found = filter (\<lambda>(path, axis, is_first). axis = target_axis \<and> edge_qualifies edge is_first) (splits_to t pid)
      in if found = [] then None else Some (fst (last found)))"

lemma filter_paths:
  "filter (\<lambda>(path, axis, is_first). P axis is_first) (map (\<lambda>(path, s). (b # path, s)) xs) =
   map (\<lambda>(path, s). (b # path, s)) (filter (\<lambda>(path, axis, is_first). P axis is_first) xs)"
  by (induction xs) auto

lemma axis_split_visit_nearest:
  "axis_split_visit t focused axis edge path = map_option ((@) path) (nearest_split t focused axis edge)"
proof (induction t arbitrary: path)
  case (Split a r x y)
  show ?case
    by (simp add: Split.IH nearest_split_def Let_def filter_paths last_map case_prod_beta)
qed (simp add: nearest_split_def)

text \<open>
  \<open>axis_split_path\<close> names the nearest split of a pane on an axis: among all splits on the way
  from the root to the pane, the last one on that axis whose side faces the grabbed edge, and
  nothing exactly if there is none.
\<close>

theorem axis_split_path_nearest: "axis_split_path t focused axis edge = nearest_split t focused axis edge"
  by (cases "nearest_split t focused axis edge") (simp_all add: axis_split_path_def axis_split_visit_nearest)

end
