(* ===== verification/Machine.thy ===== *)
theory Machine
  imports Prelude "HOL-Library.Word"
begin

text \<open>
  The checked and saturating arithmetic of the standard library on unsigned machine integers, and
  what it computes on the natural numbers the words stand for. Plain \<open>+\<close> and \<open>-\<close> on words wrap, as
  the release build does.
\<close>

type_synonym u8 = "8 word"
type_synonym u16 = "16 word"
type_synonym u32 = "32 word"
type_synonym u64 = "64 word"
type_synonym usize = "64 word"

definition saturating_add :: "'a::len word \<Rightarrow> 'a word \<Rightarrow> 'a word" where
  "saturating_add a b = (if a + b < a then - 1 else a + b)"

definition saturating_sub :: "'a::len word \<Rightarrow> 'a word \<Rightarrow> 'a word" where
  "saturating_sub a b = (if b \<le> a then a - b else 0)"

definition checked_sub :: "'a::len word \<Rightarrow> 'a word \<Rightarrow> 'a word option" where
  "checked_sub a b = (if b \<le> a then Some (a - b) else None)"

lemma unat_saturating_sub [simp]: "unat (saturating_sub a b) = unat a - unat b"
  by (auto simp: saturating_sub_def unat_sub word_le_nat_alt)

lemma unat_plus_less: "unat a + unat b < 2 ^ LENGTH('a) \<Longrightarrow> unat (a + b) = unat a + unat b"
  for a b :: "'a::len word"
  by (rule iffD1 [OF unat_add_lem])

lemma unat_bound: "unat (w :: 'a::len word) < 2 ^ LENGTH('a)"
  by (rule unsigned_less)

lemma unat_of_nat_less: "n < 2 ^ LENGTH('a) \<Longrightarrow> unat (of_nat n :: 'a::len word) = n"
  by (simp add: unat_of_nat)

lemma unat_minus_le: "b \<le> a \<Longrightarrow> unat (a - b) = unat a - unat b" for a b :: "'a::len word"
  by (rule unat_sub)

lemma unat_max_word: "unat (- 1 :: 'a::len word) = 2 ^ LENGTH('a) - 1"
  by (simp add: unat_eq_nat_uint uint_word_of_int_eq unsigned_minus_1_eq_mask mask_eq_exp_minus_1 nat_diff_distrib nat_power_eq)

text \<open>A saturating sum below a limit that is not the largest word is the sum.\<close>

lemma unat_saturating_add: "unat (saturating_add a b) = min (unat a + unat b) (2 ^ LENGTH('a) - 1)"
  for a b :: "'a::len word"
proof (cases "unat a + unat b < 2 ^ LENGTH('a)")
  case True
  then have "unat (a + b) = unat a + unat b" by (rule unat_plus_less)
  then show ?thesis using True by (auto simp: saturating_add_def word_less_nat_alt)
next
  case False
  have "unat a < 2 ^ LENGTH('a)" "unat b < 2 ^ LENGTH('a)" by (rule unsigned_less)+
  then have small: "unat a + unat b - 2 ^ LENGTH('a) < 2 ^ LENGTH('a)" by linarith
  have "unat (a + b) = unat a + unat b - 2 ^ LENGTH('a)"
    using False small by (simp add: unat_word_ariths(1) le_mod_geq)
  moreover have "unat b < 2 ^ LENGTH('a)" by (rule unsigned_less)
  ultimately have "unat (a + b) < unat a" using False by linarith
  then have "a + b < a" by (simp add: word_less_nat_alt)
  then show ?thesis using False by (simp add: saturating_add_def unat_max_word)
qed

lemma saturating_add_le:
  fixes a b c :: "'a::len word"
  assumes "saturating_add a b \<le> c" "c < - 1"
  shows "unat a + unat b \<le> unat c"
proof -
  have "unat c < 2 ^ LENGTH('a) - 1" using assms(2) by (simp add: word_less_nat_alt unat_max_word)
  then show ?thesis using assms(1) by (simp add: word_le_nat_alt unat_saturating_add)
qed

lemma zero_below_max [simp]: "(0 :: 64 word) < - 1"
  by (simp add: word_less_nat_alt unat_max_word)

end
