(* ===== verification/ByteQueue.thy ===== *)
theory ByteQueue
  imports Machine LayoutModel
begin

text \<open>
  The byte-bounded queue between producer and consumer threads, \<^verbatim>\<open>src/session/queue.rs\<close>. Every
  method locks the queue for its whole body, so an operation is one atomic step on the state; a
  method that waits on the condition variable is an operation whose result is \<open>None\<close> while the
  condition it waits for does not hold. Closures (coalescers, readiness tests, splitters) are
  function arguments; a coalescer returns the queued value it may have changed. Sizes are 64-bit
  words and counters wrap.

  Shown: the byte and media accounting of every reachable state is the sum over the queued entries
  and within the limits, the replacement index points at entries that carry its keys, values leave
  in the order they were pushed, and a waiting producer proceeds once the consumer drains the queue.
\<close>

subsection \<open>State\<close>

record media_weight =
  mw_bytes :: usize
  mw_files :: usize

definition no_media :: media_weight where
  "no_media = \<lparr>mw_bytes = 0, mw_files = 0\<rparr>"

datatype 'a push_error = Full 'a | Closed 'a | TooLarge 'a

datatype segment_coalesce = Merged | Continue | Barrier

record replacement_key =
  rk_pane :: pane_id
  rk_local :: bool
  rk_generation :: u64
  rk_epoch :: u64
  rk_image :: u32
  rk_incarnation :: u64

record 'a entry =
  item :: 'a
  weight :: usize
  media :: media_weight
  replacement :: "replacement_key option"

record 'a queue_state =
  entries :: "'a entry list"
  base :: u64
  replacements :: "replacement_key \<rightharpoonup> u64"
  coalesced_frames :: u64
  coalesced_bytes :: u64
  held_bytes :: usize
  high_water_bytes :: usize
  held_media_bytes :: usize
  high_water_media_bytes :: usize
  held_media_files :: usize
  high_water_media_files :: usize
  closed :: bool
  wakes :: u64

record 'a byte_queue =
  capacity :: usize
  max_media_bytes :: usize
  max_media_files :: usize
  qstate :: "'a queue_state"

record queue_stats =
  qs_bytes :: usize
  qs_high_water_bytes :: usize
  qs_capacity :: usize
  qs_len :: usize
  qs_closed :: bool
  qs_coalesced_frames :: u64
  qs_coalesced_bytes :: u64

definition with_media_limits :: "usize \<Rightarrow> usize \<Rightarrow> usize \<Rightarrow> 'a byte_queue" where
  "with_media_limits cap mbytes mfiles =
     \<lparr>capacity = cap, max_media_bytes = mbytes, max_media_files = mfiles,
      qstate = \<lparr>entries = [], base = 0, replacements = Map.empty, coalesced_frames = 0, coalesced_bytes = 0,
        held_bytes = 0, high_water_bytes = 0, held_media_bytes = 0, high_water_media_bytes = 0,
        held_media_files = 0, high_water_media_files = 0, closed = False, wakes = 0\<rparr>\<rparr>"

definition new_queue :: "usize \<Rightarrow> 'a byte_queue" where
  "new_queue cap = with_media_limits cap 0 0"

subsection \<open>Helpers of the state\<close>

definition remove_front_index :: "'a entry \<Rightarrow> 'a queue_state \<Rightarrow> 'a queue_state" where
  "remove_front_index e s =
     (let s = (case replacement e of
                 Some key \<Rightarrow>
                   if replacements s key = Some (base s) then s\<lparr>replacements := (replacements s)(key := None)\<rparr> else s
               | None \<Rightarrow> s)
      in s\<lparr>base := base s + 1\<rparr>)"

definition replacement_index :: "'a queue_state \<Rightarrow> replacement_key option \<Rightarrow> nat option" where
  "replacement_index s key =
     (case key of
        None \<Rightarrow> None
      | Some key \<Rightarrow>
          (case replacements s key of
             None \<Rightarrow> None
           | Some index \<Rightarrow> map_option unat (checked_sub index (base s))))"

text \<open>\<^verbatim>\<open>entries.get(index)\<close>: out of range it is \<open>None\<close>.\<close>

definition get_entry :: "'a list \<Rightarrow> nat option \<Rightarrow> 'a option" where
  "get_entry es index = (case index of Some i \<Rightarrow> if i < length es then Some (es ! i) else None | None \<Rightarrow> None)"

definition weight_at :: "'a queue_state \<Rightarrow> nat option \<Rightarrow> usize \<times> media_weight" where
  "weight_at s index = (case get_entry (entries s) index of Some e \<Rightarrow> (weight e, media e) | None \<Rightarrow> (0, no_media))"

definition replacement_weight :: "'a queue_state \<Rightarrow> replacement_key option \<Rightarrow> usize \<times> media_weight" where
  "replacement_weight s key = weight_at s (replacement_index s key)"

definition subtract_entry_weight :: "'a entry \<Rightarrow> 'a queue_state \<Rightarrow> 'a queue_state" where
  "subtract_entry_weight e s =
     s\<lparr>held_bytes := held_bytes s - weight e,
       held_media_bytes := held_media_bytes s - mw_bytes (media e),
       held_media_files := held_media_files s - mw_files (media e)\<rparr>"

definition record_high_water :: "'a queue_state \<Rightarrow> 'a queue_state" where
  "record_high_water s =
     s\<lparr>high_water_bytes := max (high_water_bytes s) (held_bytes s),
       high_water_media_bytes := max (high_water_media_bytes s) (held_media_bytes s),
       high_water_media_files := max (high_water_media_files s) (held_media_files s)\<rparr>"

definition exceeds_entry_limits :: "'a byte_queue \<Rightarrow> usize \<Rightarrow> media_weight \<Rightarrow> bool" where
  "exceeds_entry_limits q n m \<longleftrightarrow> capacity q < n \<or> max_media_bytes q < mw_bytes m \<or> max_media_files q < mw_files m"

definition fits_in_state :: "'a byte_queue \<Rightarrow> usize \<Rightarrow> media_weight \<Rightarrow> usize \<times> media_weight \<Rightarrow> bool" where
  "fits_in_state q n m prev \<longleftrightarrow>
     saturating_add (saturating_sub (held_bytes (qstate q)) (fst prev)) n \<le> capacity q \<and>
     saturating_add (saturating_sub (held_media_bytes (qstate q)) (mw_bytes (snd prev))) (mw_bytes m) \<le> max_media_bytes q \<and>
     saturating_add (saturating_sub (held_media_files (qstate q)) (mw_files (snd prev))) (mw_files m) \<le> max_media_files q"

subsection \<open>Producers\<close>

definition wait_for_capacity ::
  "'a byte_queue \<Rightarrow> usize \<Rightarrow> media_weight \<Rightarrow> replacement_key option \<Rightarrow> bool \<Rightarrow> (unit push_error + unit) option" where
  "wait_for_capacity q n m key shutdown =
     (if exceeds_entry_limits q n m then Some (Inl (TooLarge ()))
      else if \<not> closed (qstate q) \<and> \<not> shutdown \<and> \<not> fits_in_state q n m (replacement_weight (qstate q) key) then None
      else if closed (qstate q) \<or> shutdown then Some (Inl (Closed ()))
      else Some (Inr ()))"

definition invalidate_replacements :: "pane_id \<Rightarrow> bool \<Rightarrow> 'a byte_queue \<Rightarrow> 'a byte_queue" where
  "invalidate_replacements pane is_local q =
     q\<lparr>qstate := (qstate q)\<lparr>replacements :=
        (\<lambda>key. if rk_pane key \<noteq> pane \<or> rk_local key \<noteq> is_local then replacements (qstate q) key else None)\<rparr>\<rparr>"

definition clear_replacements :: "'a byte_queue \<Rightarrow> 'a byte_queue" where
  "clear_replacements q = q\<lparr>qstate := (qstate q)\<lparr>replacements := Map.empty\<rparr>\<rparr>"

definition try_push_with ::
  "'a \<Rightarrow> usize \<Rightarrow> ('a \<Rightarrow> 'a \<Rightarrow> 'a \<times> bool) \<Rightarrow> 'a byte_queue \<Rightarrow> ('a push_error + unit) \<times> 'a byte_queue" where
  "try_push_with v n coalesce q =
     (let s = qstate q in
      if capacity q < n then (Inl (TooLarge v), q)
      else if closed s then (Inl (Closed v), q)
      else if capacity q < saturating_add (held_bytes s) n then (Inl (Full v), q)
      else
        let (es, merged) =
          (if entries s = [] then ([], False)
           else let back = last (entries s); (queued, merged) = coalesce (item back) v
                in (butlast (entries s) @ [back\<lparr>item := queued, weight := weight back + (if merged then n else 0)\<rparr>], merged));
            es = (if merged then es else es @ [\<lparr>item = v, weight = n, media = no_media, replacement = None\<rparr>])
        in (Inr (), q\<lparr>qstate := record_high_water (s\<lparr>entries := es, held_bytes := held_bytes s + n\<rparr>)\<rparr>))"

definition try_push :: "'a \<Rightarrow> usize \<Rightarrow> 'a byte_queue \<Rightarrow> ('a push_error + unit) \<times> 'a byte_queue" where
  "try_push v n q = try_push_with v n (\<lambda>queued _. (queued, False)) q"

definition try_push_latest_media ::
  "'a \<Rightarrow> usize \<Rightarrow> media_weight \<Rightarrow> replacement_key option \<Rightarrow> 'a byte_queue \<Rightarrow> ('a push_error + unit) \<times> 'a byte_queue" where
  "try_push_latest_media v n m key q =
     (let s = qstate q in
      if exceeds_entry_limits q n m then (Inl (TooLarge v), q)
      else if closed s then (Inl (Closed v), q)
      else
        let index = replacement_index s key;
            prev = weight_at s index
        in if \<not> fits_in_state q n m prev then (Inl (Full v), q)
        else
          let retained = saturating_add (saturating_sub (held_bytes s) (fst prev)) n;
              retained_media_bytes = saturating_add (saturating_sub (held_media_bytes s) (mw_bytes (snd prev))) (mw_bytes m);
              retained_media_files = saturating_add (saturating_sub (held_media_files s) (mw_files (snd prev))) (mw_files m);
              e = \<lparr>item = v, weight = n, media = m, replacement = key\<rparr>;
              s = (case get_entry (entries s) index of
                     Some _ \<Rightarrow> s\<lparr>entries := (entries s)[the index := e], coalesced_frames := coalesced_frames s + 1,
                                coalesced_bytes := coalesced_bytes s + fst prev\<rparr>
                   | None \<Rightarrow>
                       (let s = (case key of
                                   Some key \<Rightarrow> s\<lparr>replacements := (replacements s)(key \<mapsto> base s + of_nat (length (entries s)))\<rparr>
                                 | None \<Rightarrow> s)
                        in s\<lparr>entries := entries s @ [e]\<rparr>))
          in (Inr (), q\<lparr>qstate := record_high_water (s\<lparr>held_bytes := retained,
                 held_media_bytes := retained_media_bytes, held_media_files := retained_media_files\<rparr>)\<rparr>))"

text \<open>The retry loop: a push that found the queue full waits until it would fit, or the queue closes.\<close>

definition push_blocking_latest_media ::
  "'a \<Rightarrow> usize \<Rightarrow> media_weight \<Rightarrow> replacement_key \<Rightarrow> 'a byte_queue \<Rightarrow> (('a push_error + unit) \<times> 'a byte_queue) option" where
  "push_blocking_latest_media v n m key q =
     (case try_push_latest_media v n m (Some key) q of
        (Inl (Full _), _) \<Rightarrow> None
      | r \<Rightarrow> Some r)"

text \<open>The backward scan of a segment; \<open>adjacent\<close> says that the entry is the last one.\<close>

fun coalesce_back ::
  "('a \<Rightarrow> 'a \<Rightarrow> bool \<Rightarrow> 'a \<times> segment_coalesce) \<Rightarrow> 'a \<Rightarrow> usize \<Rightarrow> media_weight \<Rightarrow> bool \<Rightarrow> 'a entry list \<Rightarrow>
   'a entry list \<times> bool" where
  "coalesce_back coalesce v n m adjacent [] = ([], False)"
| "coalesce_back coalesce v n m adjacent (e # before) =
     (case coalesce (item e) v adjacent of
        (queued, Merged) \<Rightarrow>
          (e\<lparr>item := queued, weight := weight e + n,
             media := \<lparr>mw_bytes = mw_bytes (media e) + mw_bytes m, mw_files = mw_files (media e) + mw_files m\<rparr>\<rparr> # before, True)
      | (queued, Continue) \<Rightarrow>
          (let (before, merged) = coalesce_back coalesce v n m False before in (e\<lparr>item := queued\<rparr> # before, merged))
      | (queued, Barrier) \<Rightarrow> (e\<lparr>item := queued\<rparr> # before, False))"

definition push_blocking_within_segment_media ::
  "'a \<Rightarrow> usize \<Rightarrow> media_weight \<Rightarrow> ('a \<Rightarrow> 'a \<Rightarrow> bool \<Rightarrow> 'a \<times> segment_coalesce) \<Rightarrow> 'a byte_queue \<Rightarrow>
   (('a push_error + unit) \<times> 'a byte_queue) option" where
  "push_blocking_within_segment_media v n m coalesce q =
     (let s = qstate q in
      if exceeds_entry_limits q n m then Some (Inl (TooLarge v), q)
      else if \<not> closed s \<and> \<not> fits_in_state q n m (0, no_media) then None
      else if closed s then Some (Inl (Closed v), q)
      else
        let (reversed, merged) = coalesce_back coalesce v n m True (rev (entries s));
            es = rev reversed @ (if merged then [] else [\<lparr>item = v, weight = n, media = m, replacement = None\<rparr>])
        in Some (Inr (), q\<lparr>qstate := record_high_water (s\<lparr>entries := es, held_bytes := held_bytes s + n,
             held_media_bytes := held_media_bytes s + mw_bytes m, held_media_files := held_media_files s + mw_files m\<rparr>)\<rparr>))"

definition push_blocking_within_segment ::
  "'a \<Rightarrow> usize \<Rightarrow> ('a \<Rightarrow> 'a \<Rightarrow> bool \<Rightarrow> 'a \<times> segment_coalesce) \<Rightarrow> 'a byte_queue \<Rightarrow> (('a push_error + unit) \<times> 'a byte_queue) option" where
  "push_blocking_within_segment v n coalesce q = push_blocking_within_segment_media v n no_media coalesce q"

definition push_blocking_with ::
  "'a \<Rightarrow> usize \<Rightarrow> ('a \<Rightarrow> 'a \<Rightarrow> 'a \<times> bool) \<Rightarrow> 'a byte_queue \<Rightarrow> (('a push_error + unit) \<times> 'a byte_queue) option" where
  "push_blocking_with v n coalesce q =
     push_blocking_within_segment v n
       (\<lambda>queued next_item _. let (queued, merged) = coalesce queued next_item in (queued, if merged then Merged else Barrier)) q"

subsection \<open>Consumers\<close>

definition try_pop_with_bytes_and_more :: "'a byte_queue \<Rightarrow> ('a \<times> usize \<times> bool) option \<times> 'a byte_queue" where
  "try_pop_with_bytes_and_more q =
     (case entries (qstate q) of
        [] \<Rightarrow> (None, q)
      | e # rest \<Rightarrow>
          (let s = subtract_entry_weight e (remove_front_index e ((qstate q)\<lparr>entries := rest\<rparr>))
           in (Some (item e, weight e, rest \<noteq> []), q\<lparr>qstate := s\<rparr>)))"

text \<open>The consumer waits while the queue is empty and open; a closed, drained queue yields no item.\<close>

definition pop_blocking :: "'a byte_queue \<Rightarrow> ('a option \<times> 'a byte_queue) option" where
  "pop_blocking q =
     (case entries (qstate q) of
        e # rest \<Rightarrow>
          (let s = subtract_entry_weight e (remove_front_index e ((qstate q)\<lparr>entries := rest\<rparr>))
           in Some (Some (item e), q\<lparr>qstate := s\<rparr>))
      | [] \<Rightarrow> if closed (qstate q) then Some (None, q) else None)"

text \<open>
  Collecting \<open>(key, position)\<close> pairs into a hash map keeps the last pair of a key.
\<close>

fun reindex :: "u64 \<Rightarrow> 'a entry list \<Rightarrow> (replacement_key \<times> u64) list" where
  "reindex p [] = []"
| "reindex p (e # es) =
     (case replacement e of Some key \<Rightarrow> (key, p) # reindex (p + 1) es | None \<Rightarrow> reindex (p + 1) es)"

definition try_pop_ready ::
  "('a \<Rightarrow> bool) \<Rightarrow> ('a \<Rightarrow> 'a \<times> ('a \<times> usize) option) \<Rightarrow> 'a byte_queue \<Rightarrow> 'a option \<times> 'a byte_queue" where
  "try_pop_ready ready split q =
     (case position_of (\<lambda>e. ready (item e)) (entries (qstate q)) of
        None \<Rightarrow> (None, q)
      | Some index \<Rightarrow>
          (let s = qstate q;
               e = entries s ! index;
               s = subtract_entry_weight e (s\<lparr>entries := take index (entries s) @ drop (Suc index) (entries s)\<rparr>);
               s = (if index = 0 then s\<lparr>base := base s + 1\<rparr> else s);
               (v, tail) = split (item e);
               s = (case tail of
                      Some (v, n) \<Rightarrow>
                        s\<lparr>entries := take index (entries s) @
                            [\<lparr>item = v, weight = n, media = no_media, replacement = None\<rparr>] @ drop index (entries s),
                          held_bytes := held_bytes s + n\<rparr>
                    | None \<Rightarrow> s);
               s = s\<lparr>replacements := map_of (rev (reindex (base s) (entries s)))\<rparr>
           in (Some v, q\<lparr>qstate := s\<rparr>)))"

subsection \<open>Wakeups, closing, statistics\<close>

definition wake :: "'a byte_queue \<Rightarrow> 'a byte_queue" where
  "wake q = q\<lparr>qstate := (qstate q)\<lparr>wakes := wakes (qstate q) + 1\<rparr>\<rparr>"

definition close_queue :: "'a byte_queue \<Rightarrow> 'a byte_queue" where
  "close_queue q = q\<lparr>qstate := (qstate q)\<lparr>closed := True\<rparr>\<rparr>"

definition stats :: "'a byte_queue \<Rightarrow> queue_stats" where
  "stats q =
     \<lparr>qs_bytes = held_bytes (qstate q), qs_high_water_bytes = high_water_bytes (qstate q), qs_capacity = capacity q,
      qs_len = of_nat (length (entries (qstate q))), qs_closed = closed (qstate q),
      qs_coalesced_frames = coalesced_frames (qstate q), qs_coalesced_bytes = coalesced_bytes (qstate q)\<rparr>"

subsection \<open>Accounting of one budget\<close>

text \<open>
  A budget charges every entry by \<open>f\<close>: the held amount is the sum over the queued entries, below the
  high-water mark, which never passes the limit.
\<close>

definition charged :: "('a entry \<Rightarrow> usize) \<Rightarrow> 'a entry list \<Rightarrow> nat" where
  "charged f es = sum_list (map (\<lambda>e. unat (f e)) es)"

definition budget :: "usize \<Rightarrow> ('a entry \<Rightarrow> usize) \<Rightarrow> 'a entry list \<Rightarrow> usize \<Rightarrow> usize \<Rightarrow> bool" where
  "budget limit f es held high \<longleftrightarrow> unat held = charged f es \<and> held \<le> high \<and> high \<le> limit"

lemma charged_simps [simp]:
  "charged f [] = 0" "charged f (e # es) = unat (f e) + charged f es"
  "charged f (es @ es') = charged f es + charged f es'" "charged f (rev es) = charged f es"
  by (simp_all add: charged_def rev_map [symmetric])

lemma charged_split:
  assumes "i < length es"
  shows "charged f es = charged f (take i es) + unat (f (es ! i)) + charged f (drop (Suc i) es)"
proof -
  have "es = take i es @ es ! i # drop (Suc i) es" using assms by (rule id_take_nth_drop)
  then have "charged f es = charged f (take i es @ es ! i # drop (Suc i) es)" by (rule arg_cong)
  then show ?thesis by (simp only: charged_simps)
qed

lemma charged_update:
  assumes "i < length es"
  shows "charged f (es[i := e]) + unat (f (es ! i)) = charged f es + unat (f e)"
  using assms charged_split [OF assms, of f] by (simp add: upd_conv_take_nth_drop)

lemma budget_push:
  assumes "budget limit f es held high" "saturating_add held n \<le> limit" "limit < - 1"
    and "charged f es' = charged f es + unat n"
  shows "budget limit f es' (held + n) (max high (held + n))"
proof -
  have le: "unat held + unat n \<le> unat limit" using assms(2,3) by (rule saturating_add_le)
  have "unat held + unat n < 2 ^ 64" using le unat_bound [of limit] by simp
  then have sum: "unat (held + n) = unat held + unat n" by (intro unat_plus_less) simp
  then have "held + n \<le> limit" using le by (simp add: word_le_nat_alt)
  then show ?thesis using assms(1,4) sum by (simp add: budget_def)
qed

lemma budget_replace:
  assumes "budget limit f es held high" "saturating_add (saturating_sub held p) n \<le> limit" "limit < - 1"
    and "charged f es' + unat p = charged f es + unat n"
    and "unat p \<le> charged f es"
  shows "budget limit f es' (saturating_add (saturating_sub held p) n)
    (max high (saturating_add (saturating_sub held p) n))"
proof -
  let ?held = "saturating_sub held p"
  have le: "unat ?held + unat n \<le> unat limit" using assms(2,3) by (rule saturating_add_le)
  have "unat (saturating_add ?held n) = unat ?held + unat n"
    using le unat_bound [of limit] by (simp add: unat_saturating_add)
  then show ?thesis using assms(1,2,4,5) by (simp add: budget_def)
qed

lemma budget_pop:
  assumes "budget limit f es held high" "charged f es = charged f es' + unat p"
  shows "budget limit f es' (held - p) high"
proof -
  have "p \<le> held" using assms by (simp add: budget_def word_le_nat_alt)
  then have "unat (held - p) = unat held - unat p" by (rule unat_minus_le)
  moreover from this have "held - p \<le> held" by (simp add: word_le_nat_alt)
  ultimately show ?thesis using assms by (auto simp: budget_def)
qed

lemma budget_front:
  "budget limit weight (e # es) held high \<Longrightarrow> budget limit weight es (held - weight e) high"
  "budget limit (\<lambda>e. mw_bytes (media e)) (e # es) held high \<Longrightarrow> budget limit (\<lambda>e. mw_bytes (media e)) es (held - mw_bytes (media e)) high"
  "budget limit (\<lambda>e. mw_files (media e)) (e # es) held high \<Longrightarrow> budget limit (\<lambda>e. mw_files (media e)) es (held - mw_files (media e)) high"
  by (erule budget_pop, simp)+

lemma budget_same: "budget limit f es held high \<Longrightarrow> charged f es' = charged f es \<Longrightarrow> budget limit f es' held (max high held)"
  by (simp add: budget_def max_absorb1)

subsection \<open>Accounting of the queue\<close>

definition limits_ok :: "'a byte_queue \<Rightarrow> bool" where
  "limits_ok q \<longleftrightarrow> capacity q < - 1 \<and> max_media_bytes q < - 1 \<and> max_media_files q < - 1"

definition accounted :: "'a byte_queue \<Rightarrow> bool" where
  "accounted q \<longleftrightarrow>
     (let s = qstate q in
      budget (capacity q) weight (entries s) (held_bytes s) (high_water_bytes s) \<and>
      budget (max_media_bytes q) (\<lambda>e. mw_bytes (media e)) (entries s) (held_media_bytes s) (high_water_media_bytes s) \<and>
      budget (max_media_files q) (\<lambda>e. mw_files (media e)) (entries s) (held_media_files s) (high_water_media_files s))"

lemmas queue_unfold = accounted_def limits_ok_def record_high_water_def subtract_entry_weight_def Let_def no_media_def

lemma accounted_new: "accounted (with_media_limits cap mb mf)"
  by (simp add: with_media_limits_def accounted_def budget_def)

lemma limits_ok_state [simp]:
  "limits_ok (q\<lparr>qstate := s\<rparr>) = limits_ok q" "limits_ok (with_media_limits cap mb mf) \<longleftrightarrow> cap < - 1 \<and> mb < - 1 \<and> mf < - 1"
  by (simp_all add: limits_ok_def with_media_limits_def)

text \<open>A weight merged into a queued entry does not overflow.\<close>

lemma budget_entry:
  assumes "budget limit f es held high" "e \<in> set es" "saturating_add held n \<le> limit" "limit < - 1"
  shows "unat (f e + n) = unat (f e) + unat n"
proof -
  have "unat held + unat n \<le> unat limit" using assms(3,4) by (rule saturating_add_le)
  moreover have "unat (f e) \<le> charged f es"
    using charged_split [of _ es f] assms(2) by (auto simp: in_set_conv_nth)
  ultimately have "unat (f e) + unat n < 2 ^ 64" using assms(1) unat_bound [of limit] by (simp add: budget_def)
  then show ?thesis by (intro unat_plus_less) simp
qed

lemma accounted_try_push_with:
  assumes "accounted q" "limits_ok q"
  shows "accounted (snd (try_push_with v n coalesce q))"
proof (cases "capacity q < n \<or> closed (qstate q) \<or> capacity q < saturating_add (held_bytes (qstate q)) n")
  case True
  then show ?thesis using assms(1) by (auto simp: try_push_with_def Let_def)
next
  case False
  then have fit: "saturating_add (held_bytes (qstate q)) n \<le> capacity q" by (simp add: not_less)
  have merge: "unat (weight e + n) = unat (weight e) + unat n" if "e \<in> set (entries (qstate q))" for e
  proof -
    have "budget (capacity q) weight (entries (qstate q)) (held_bytes (qstate q)) (high_water_bytes (qstate q))" "capacity q < - 1"
      using assms by (simp_all add: accounted_def Let_def limits_ok_def)
    from budget_entry [OF this(1) that fit this(2)] show ?thesis .
  qed
  show ?thesis
  proof (cases "entries (qstate q)" rule: rev_cases)
    case Nil
    then show ?thesis
      using False assms fit
      by (auto simp: try_push_with_def queue_unfold intro!: budget_push intro: budget_same)
  next
    case (snoc es e)
    then show ?thesis
      using False assms fit merge [of e]
      by (auto simp: try_push_with_def queue_unfold intro!: budget_push intro: budget_same split: prod.split)
  qed
qed

lemma coalesce_back_charged:
  assumes "coalesce_back coalesce v n m adjacent es = (es', merged)"
    and "\<forall>e \<in> set es. unat (weight e + n) = unat (weight e) + unat n \<and>
      unat (mw_bytes (media e) + mw_bytes m) = unat (mw_bytes (media e)) + unat (mw_bytes m) \<and>
      unat (mw_files (media e) + mw_files m) = unat (mw_files (media e)) + unat (mw_files m)"
  shows "charged weight es' = charged weight es + (if merged then unat n else 0) \<and>
    charged (\<lambda>e. mw_bytes (media e)) es' = charged (\<lambda>e. mw_bytes (media e)) es + (if merged then unat (mw_bytes m) else 0) \<and>
    charged (\<lambda>e. mw_files (media e)) es' = charged (\<lambda>e. mw_files (media e)) es + (if merged then unat (mw_files m) else 0)"
  using assms
  by (induction coalesce v n m adjacent es arbitrary: es' rule: coalesce_back.induct)
    (auto split: prod.splits segment_coalesce.splits)

lemma fits_in_state_empty:
  "fits_in_state q n m (0, no_media) \<longleftrightarrow>
     saturating_add (held_bytes (qstate q)) n \<le> capacity q \<and>
     saturating_add (held_media_bytes (qstate q)) (mw_bytes m) \<le> max_media_bytes q \<and>
     saturating_add (held_media_files (qstate q)) (mw_files m) \<le> max_media_files q"
  by (simp add: fits_in_state_def saturating_sub_def no_media_def)

lemma accounted_push_blocking_within_segment_media:
  assumes push: "push_blocking_within_segment_media v n m coalesce q = Some (r, q')" and "accounted q" "limits_ok q"
  shows "accounted q'"
proof (cases "exceeds_entry_limits q n m \<or> closed (qstate q)")
  case True
  then show ?thesis
    using push assms(2) by (auto simp: push_blocking_within_segment_media_def Let_def split: if_splits prod.splits)
next
  case False
  let ?s = "qstate q"
  have fit: "fits_in_state q n m (0, no_media)"
    using False push by (auto simp: push_blocking_within_segment_media_def Let_def split: if_splits)
  obtain rs merged where scan: "coalesce_back coalesce v n m True (rev (entries ?s)) = (rs, merged)" by fastforce
  have "\<forall>e \<in> set (entries ?s). unat (weight e + n) = unat (weight e) + unat n \<and>
      unat (mw_bytes (media e) + mw_bytes m) = unat (mw_bytes (media e)) + unat (mw_bytes m) \<and>
      unat (mw_files (media e) + mw_files m) = unat (mw_files (media e)) + unat (mw_files m)"
    using assms(2,3) fit unfolding fits_in_state_empty accounted_def Let_def limits_ok_def
    by (auto intro: budget_entry budget_entry [where f = "\<lambda>e. mw_bytes (media e)"] budget_entry [where f = "\<lambda>e. mw_files (media e)"])
  then have "charged weight rs = charged weight (entries ?s) + (if merged then unat n else 0)"
    "charged (\<lambda>e. mw_bytes (media e)) rs = charged (\<lambda>e. mw_bytes (media e)) (entries ?s) + (if merged then unat (mw_bytes m) else 0)"
    "charged (\<lambda>e. mw_files (media e)) rs = charged (\<lambda>e. mw_files (media e)) (entries ?s) + (if merged then unat (mw_files m) else 0)"
    using coalesce_back_charged [OF scan] by simp_all
  then show ?thesis
    using push False fit scan assms(2,3)
    by (auto simp: push_blocking_within_segment_media_def accounted_def Let_def record_high_water_def
        fits_in_state_empty limits_ok_def intro!: budget_push)
qed

lemma weight_at_charged:
  assumes "get_entry (entries s) index = Some e"
  shows "the index < length (entries s)" "weight_at s index = (weight (entries s ! the index), media (entries s ! the index))"
  using assms by (auto simp: weight_at_def get_entry_def split: option.splits if_splits)

lemma accounted_try_push_latest_media:
  assumes "accounted q" "limits_ok q"
  shows "accounted (snd (try_push_latest_media v n m key q))"
proof -
  let ?s = "qstate q"
  let ?index = "replacement_index ?s key"
  let ?e = "\<lparr>item = v, weight = n, media = m, replacement = key\<rparr>"
  show ?thesis
  proof (cases "exceeds_entry_limits q n m \<or> closed ?s \<or> \<not> fits_in_state q n m (weight_at ?s ?index)")
    case True
    then show ?thesis using assms(1) by (auto simp: try_push_latest_media_def Let_def)
  next
    case False
    show ?thesis
    proof (cases "get_entry (entries ?s) ?index")
      case None
      then have w: "weight_at ?s ?index = (0, no_media)" by (simp add: weight_at_def)
      show ?thesis
        using False assms None
        by (auto simp: try_push_latest_media_def w fits_in_state_def queue_unfold
            intro!: budget_replace split: option.splits)
    next
      case (Some old)
      define i where "i = the ?index"
      note at = weight_at_charged [OF Some, folded i_def]
      note upd = charged_update [OF at(1), of _ ?e]
      have le: "unat (f (entries ?s ! i)) \<le> charged f (entries ?s)" for f
        using charged_split [OF at(1), of f] by simp
      show ?thesis
        using False assms Some upd [of weight] upd [of "\<lambda>e. mw_bytes (media e)"] upd [of "\<lambda>e. mw_files (media e)"]
          le [of weight] le [of "\<lambda>e. mw_bytes (media e)"] le [of "\<lambda>e. mw_files (media e)"]
        by (auto simp: try_push_latest_media_def at(2) fits_in_state_def queue_unfold i_def [symmetric] intro!: budget_replace)
    qed
  qed
qed

lemma accounted_pop:
  "accounted q \<Longrightarrow> accounted (snd (try_pop_with_bytes_and_more q))"
  "accounted q \<Longrightarrow> pop_blocking q = Some (r, q') \<Longrightarrow> accounted q'"
  by (auto simp: try_pop_with_bytes_and_more_def pop_blocking_def remove_front_index_def queue_unfold
      intro: budget_front split: list.splits option.splits if_splits)

definition split_shrinks :: "('a \<Rightarrow> 'a \<times> ('a \<times> usize) option) \<Rightarrow> 'a entry \<Rightarrow> bool" where
  "split_shrinks split e = (case split (item e) of (_, Some (_, n)) \<Rightarrow> n \<le> weight e | _ \<Rightarrow> True)"

lemma budget_tail:
  assumes "budget limit f es held high" "i < length es" "n \<le> f (es ! i)" "f e = n"
  shows "budget limit f (take i es @ e # drop (Suc i) es) (held - f (es ! i) + n) high"
proof -
  note es = charged_split [OF assms(2), of f]
  have "f (es ! i) \<le> held" using assms(1) es by (simp add: budget_def word_le_nat_alt)
  then have h: "unat (held - f (es ! i)) = unat held - unat (f (es ! i))" by (rule unat_minus_le)
  have n: "unat n \<le> unat (f (es ! i))" using assms(3) by (simp add: word_le_nat_alt)
  have "unat (held - f (es ! i)) + unat n \<le> unat held" using h n assms(1) es by (simp add: budget_def)
  moreover from this have "unat (held - f (es ! i) + n) = unat (held - f (es ! i)) + unat n"
    using unat_bound [of held] by (intro unat_plus_less) simp
  ultimately show ?thesis
    using assms h n es by (simp add: budget_def word_le_nat_alt)
qed

lemma accounted_try_pop_ready:
  assumes "accounted q" "\<forall>e \<in> set (entries (qstate q)). split_shrinks split e"
  shows "accounted (snd (try_pop_ready ready split q))"
proof (cases "position_of (\<lambda>e. ready (item e)) (entries (qstate q))")
  case None
  then show ?thesis using assms(1) unfolding try_pop_ready_def by (simp only: option.simps snd_conv)
next
  case (Some i)
  let ?es = "entries (qstate q)"
  have i: "i < length ?es" using position_of_Some [OF Some] by simp
  then have shrink: "split_shrinks split (?es ! i)" using assms(2) by simp
  note ch = charged_split [OF i]
  obtain v tail where sp: "split (item (?es ! i)) = (v, tail)" by fastforce
  have takes: "take i (take i ?es @ drop (Suc i) ?es) = take i ?es" "drop i (take i ?es @ drop (Suc i) ?es) = drop (Suc i) ?es"
    using i by simp_all
  show ?thesis
  proof (cases tail)
    case None
    then show ?thesis
      using assms(1) Some sp ch
      by (auto simp: try_pop_ready_def queue_unfold intro: budget_pop)
  next
    case (Some t)
    obtain w n where t: "t = (w, n)" by fastforce
    let ?new = "\<lparr>item = w, weight = n, media = no_media, replacement = None\<rparr>"
    let ?es' = "take i ?es @ ?new # drop (Suc i) ?es"
    have "n \<le> weight (?es ! i)" using shrink sp Some t by (simp add: split_shrinks_def)
    then have b: "budget (capacity q) weight ?es' (held_bytes (qstate q) - weight (?es ! i) + n) (high_water_bytes (qstate q))"
      using assms(1) i by (intro budget_tail) (simp_all add: accounted_def Let_def)
    have m: "budget (max_media_bytes q) (\<lambda>e. mw_bytes (media e)) ?es' (held_media_bytes (qstate q) - mw_bytes (media (?es ! i)))
        (high_water_media_bytes (qstate q))"
      "budget (max_media_files q) (\<lambda>e. mw_files (media e)) ?es' (held_media_files (qstate q) - mw_files (media (?es ! i)))
        (high_water_media_files (qstate q))"
      using assms(1) by (auto intro!: budget_pop [where es = ?es] simp: accounted_def Let_def ch no_media_def)
    have "accounted (q\<lparr>qstate := s\<rparr>)"
      if "entries s = ?es'" "held_bytes s = held_bytes (qstate q) - weight (?es ! i) + n"
        "held_media_bytes s = held_media_bytes (qstate q) - mw_bytes (media (?es ! i))"
        "held_media_files s = held_media_files (qstate q) - mw_files (media (?es ! i))"
        "high_water_bytes s = high_water_bytes (qstate q)" "high_water_media_bytes s = high_water_media_bytes (qstate q)"
        "high_water_media_files s = high_water_media_files (qstate q)" for s
      using b m by (simp add: accounted_def Let_def that)
    then show ?thesis
      using i unfolding try_pop_ready_def Let_def \<open>position_of _ _ = Some i\<close> option.simps sp prod.case Some t snd_conv
      by (elim meta_allE meta_impE) (simp_all add: subtract_entry_weight_def takes min_absorb2)
  qed
qed

subsection \<open>The replacement index\<close>

text \<open>Every indexed key names the position of a queued entry that carries it.\<close>

definition index_points :: "u64 \<Rightarrow> (replacement_key \<rightharpoonup> u64) \<Rightarrow> replacement_key option list \<Rightarrow> bool" where
  "index_points b m keys \<longleftrightarrow> (\<forall>k p. m k = Some p \<longrightarrow> (\<exists>i < length keys. p = b + of_nat i \<and> keys ! i = Some k))"

definition indexed :: "'a byte_queue \<Rightarrow> bool" where
  "indexed q \<longleftrightarrow> index_points (base (qstate q)) (replacements (qstate q)) (map replacement (entries (qstate q)))"

lemma index_points_map:
  "index_points b m (map f es) \<longleftrightarrow> (\<forall>k p. m k = Some p \<longrightarrow> (\<exists>i < length es. p = b + of_nat i \<and> f (es ! i) = Some k))"
  by (simp add: index_points_def cong: conj_cong)

lemma index_points_append: "index_points b m keys \<Longrightarrow> index_points b m (keys @ keys')"
  unfolding index_points_def by (metis length_append nth_append trans_less_add1)

lemma index_points_insert:
  "index_points b m keys \<Longrightarrow> index_points b (m(k \<mapsto> b + of_nat (length keys))) (keys @ [Some k])"
  unfolding index_points_def by (auto simp: nth_append less_Suc_eq)

lemma index_points_retain: "index_points b m keys \<Longrightarrow> index_points b (\<lambda>k. if keep k then m k else None) keys"
  by (simp add: index_points_def)

lemma index_points_empty [simp]: "index_points b Map.empty keys"
  by (simp add: index_points_def)

lemma index_points_pop:
  assumes "index_points b m (key # keys)"
    and "\<And>k p. m' k = Some p \<Longrightarrow> m k = Some p \<and> \<not> (key = Some k \<and> p = b)"
  shows "index_points (b + 1) m' keys"
  unfolding index_points_def
proof (intro allI impI)
  fix k p
  assume "m' k = Some p"
  then have "m k = Some p" and not_front: "\<not> (key = Some k \<and> p = b)" using assms(2) by auto
  then obtain i where i: "i < Suc (length keys)" "p = b + of_nat i" "(key # keys) ! i = Some k"
    using assms(1) by (auto simp: index_points_def)
  then obtain j where "i = Suc j" using not_front by (cases i) auto
  then show "\<exists>i < length keys. p = b + 1 + of_nat i \<and> keys ! i = Some k"
    using i by (intro exI [of _ j]) (simp add: algebra_simps)
qed

lemma reindex_points: "(k, p) \<in> set (reindex b es) \<Longrightarrow> \<exists>i < length es. p = b + of_nat i \<and> replacement (es ! i) = Some k"
proof (induction es arbitrary: b)
  case (Cons e es)
  have "(k, p) \<in> set (reindex (b + 1) es) \<or> (replacement e = Some k \<and> p = b)"
    using Cons.prems by (auto split: option.splits)
  then show ?case
  proof
    assume "(k, p) \<in> set (reindex (b + 1) es)"
    from Cons.IH [OF this] obtain i where "i < length es" "p = b + 1 + of_nat i" "replacement (es ! i) = Some k" by blast
    then show ?thesis by (intro exI [of _ "Suc i"]) (simp add: algebra_simps)
  qed auto
qed simp

lemma index_points_reindex: "index_points b (map_of (rev (reindex b es))) (map replacement es)"
proof -
  have "\<exists>i < length es. p = b + of_nat i \<and> replacement (es ! i) = Some k"
    if "map_of (rev (reindex b es)) k = Some p" for k p
    using map_of_SomeD [OF that] by (intro reindex_points) simp
  then show ?thesis by (simp add: index_points_map)
qed

lemma coalesce_back_keys: "map replacement (fst (coalesce_back coalesce v n m adjacent es)) = map replacement es"
  by (induction coalesce v n m adjacent es rule: coalesce_back.induct)
    (auto split: prod.splits segment_coalesce.splits)

lemma indexed_try_push_with: "indexed q \<Longrightarrow> indexed (snd (try_push_with v n coalesce q))"
proof -
  assume *: "indexed q"
  show ?thesis
  proof (cases "entries (qstate q)" rule: rev_cases)
    case Nil
    then show ?thesis
      using * index_points_append [of "base (qstate q)" "replacements (qstate q)" "[]"]
      by (auto simp: indexed_def try_push_with_def record_high_water_def Let_def)
  next
    case (snoc es e)
    then show ?thesis
      using * index_points_append [of "base (qstate q)" "replacements (qstate q)" "map replacement es @ [replacement e]" "[None]"]
      by (auto simp: indexed_def try_push_with_def record_high_water_def Let_def split: prod.split)
  qed
qed

lemma indexed_push_blocking_within_segment_media:
  assumes "push_blocking_within_segment_media v n m coalesce q = Some (r, q')" "indexed q"
  shows "indexed q'"
proof -
  obtain rs merged where scan: "coalesce_back coalesce v n m True (rev (entries (qstate q))) = (rs, merged)" by fastforce
  have "map replacement rs = rev (map replacement (entries (qstate q)))"
    using coalesce_back_keys [of coalesce v n m True "rev (entries (qstate q))"] scan by (simp add: rev_map)
  then have "rev (map replacement rs) = map replacement (entries (qstate q))" by simp
  then show ?thesis
    using assms scan index_points_append [of "base (qstate q)" "replacements (qstate q)" "map replacement (entries (qstate q))" "[None]"]
    by (auto simp: push_blocking_within_segment_media_def indexed_def Let_def record_high_water_def rev_map [symmetric]
        split: if_splits)
qed

lemma replacement_index_entry:
  assumes "indexed q" "replacement_index (qstate q) key = Some i" "length (entries (qstate q)) < 2 ^ 64"
  shows "i < length (entries (qstate q))" "replacement (entries (qstate q) ! i) = key"
proof -
  obtain k p where k: "key = Some k" "replacements (qstate q) k = Some p" "i = unat (p - base (qstate q))"
    using assms(2) by (auto simp: replacement_index_def checked_sub_def split: option.splits if_splits)
  then obtain j where j: "j < length (entries (qstate q))" "p = base (qstate q) + of_nat j" "replacement (entries (qstate q) ! j) = Some k"
    using assms(1) unfolding indexed_def index_points_map by blast
  then have "i = j" using k assms(3) by (simp add: unat_of_nat_less)
  then show "i < length (entries (qstate q))" "replacement (entries (qstate q) ! i) = key" using j k by simp_all
qed

lemma indexed_try_push_latest_media:
  assumes "indexed q" "length (entries (qstate q)) < 2 ^ 64"
  shows "indexed (snd (try_push_latest_media v n m key q))"
proof (cases "get_entry (entries (qstate q)) (replacement_index (qstate q) key)")
  case None
  then show ?thesis
    using assms(1) index_points_insert [of "base (qstate q)" _ "map replacement (entries (qstate q))"]
      index_points_append [of "base (qstate q)" _ "map replacement (entries (qstate q))" "[None]"]
    by (cases key) (auto simp: try_push_latest_media_def indexed_def Let_def record_high_water_def)
next
  case (Some old)
  then obtain i where i: "replacement_index (qstate q) key = Some i" by (auto simp: get_entry_def split: option.splits)
  have "map replacement ((entries (qstate q))[i := e]) = map replacement (entries (qstate q))" if "replacement e = key" for e
    using replacement_index_entry [OF assms(1) i assms(2)] that by (simp add: map_update list_update_same_conv)
  then show ?thesis
    using assms(1) Some i by (auto simp: try_push_latest_media_def indexed_def Let_def record_high_water_def)
qed

lemma index_points_remove_front:
  "index_points (base s) (replacements s) (map replacement (e # es)) \<Longrightarrow>
   index_points (base (remove_front_index e s)) (replacements (remove_front_index e s)) (map replacement es)"
  by (auto simp: remove_front_index_def Let_def split: option.splits elim!: index_points_pop split: if_splits)

lemma remove_front_index_fields [simp]:
  "entries (remove_front_index e s) = entries s"
  "entries (subtract_entry_weight e s) = entries s" "base (subtract_entry_weight e s) = base s"
  "replacements (subtract_entry_weight e s) = replacements s"
  by (auto simp: remove_front_index_def subtract_entry_weight_def Let_def split: option.splits)

lemma indexed_pop:
  "indexed q \<Longrightarrow> indexed (snd (try_pop_with_bytes_and_more q))"
  "indexed q \<Longrightarrow> pop_blocking q = Some (r, q') \<Longrightarrow> indexed q'"
  using index_points_remove_front [of "qstate q\<lparr>entries := _\<rparr>"]
  by (auto simp: try_pop_with_bytes_and_more_def pop_blocking_def indexed_def Let_def split: list.splits if_splits)

lemma indexed_try_pop_ready: "indexed q \<Longrightarrow> indexed (snd (try_pop_ready ready split q))"
  by (auto simp: try_pop_ready_def indexed_def Let_def index_points_reindex split: option.split prod.split)

subsection \<open>All interleavings\<close>

text \<open>
  The threads lock the queue one at a time: any sequence of completed operations is a path of this
  relation. The standard library's deque holds less than \<open>2 ^ 63\<close> entries, and a splitter returns a
  tail no heavier than the entry it was cut from.
\<close>

inductive queue_step :: "'a byte_queue \<Rightarrow> 'a byte_queue \<Rightarrow> bool" where
  "queue_step q (snd (try_push_with v n coalesce q))"
| "length (entries (qstate q)) < 2 ^ 63 \<Longrightarrow> queue_step q (snd (try_push_latest_media v n m key q))"
| "push_blocking_within_segment_media v n m segment q = Some (r, q') \<Longrightarrow> queue_step q q'"
| "queue_step q (snd (try_pop_with_bytes_and_more q))"
| "pop_blocking q = Some (popped, q') \<Longrightarrow> queue_step q q'"
| "\<forall>e \<in> set (entries (qstate q)). split_shrinks split e \<Longrightarrow> queue_step q (snd (try_pop_ready ready split q))"
| "queue_step q (invalidate_replacements pane is_local q)"
| "queue_step q (clear_replacements q)"
| "queue_step q (wake q)"
| "queue_step q (close_queue q)"

lemma queue_step_limits:
  "queue_step q q' \<Longrightarrow> capacity q' = capacity q \<and> max_media_bytes q' = max_media_bytes q \<and> max_media_files q' = max_media_files q"
  by (induction rule: queue_step.induct)
    (auto simp: try_push_with_def try_push_latest_media_def push_blocking_within_segment_media_def
      try_pop_with_bytes_and_more_def pop_blocking_def try_pop_ready_def invalidate_replacements_def clear_replacements_def
      wake_def close_queue_def Let_def split: if_splits prod.splits list.splits option.splits)

lemma queue_step_invariant:
  "queue_step q q' \<Longrightarrow> accounted q \<Longrightarrow> limits_ok q \<Longrightarrow> indexed q \<Longrightarrow> accounted q' \<and> indexed q'"
proof (induction rule: queue_step.induct)
  case (7 q pane is_local)
  then show ?case
    by (auto simp: invalidate_replacements_def accounted_def indexed_def Let_def index_points_def)
next
  case (2 q v n m key)
  then show ?case by (simp add: accounted_try_push_latest_media indexed_try_push_latest_media)
qed (auto simp: clear_replacements_def wake_def close_queue_def accounted_def [of "_\<lparr>qstate := _\<rparr>"] indexed_def [of "_\<lparr>qstate := _\<rparr>"] Let_def
    intro: accounted_try_push_with indexed_try_push_with accounted_push_blocking_within_segment_media
      indexed_push_blocking_within_segment_media accounted_pop indexed_pop accounted_try_pop_ready indexed_try_pop_ready
    dest: accounted_def [THEN iffD1] indexed_def [THEN iffD1])

lemma queue_invariant:
  assumes "queue_step\<^sup>*\<^sup>* (with_media_limits cap mb mf) q" "cap < - 1" "mb < - 1" "mf < - 1"
  shows "accounted q" "indexed q" "limits_ok q" "capacity q = cap \<and> max_media_bytes q = mb \<and> max_media_files q = mf"
proof -
  have "accounted q \<and> indexed q \<and> limits_ok q \<and> capacity q = cap \<and> max_media_bytes q = mb \<and> max_media_files q = mf"
    using assms(1)
  proof (induction rule: rtranclp_induct)
    case base
    then show ?case using assms(2-4) by (simp add: accounted_new) (simp add: indexed_def with_media_limits_def)
  next
    case (step q q')
    then show ?case using queue_step_invariant [OF step.hyps(2)] queue_step_limits [OF step.hyps(2)] by (auto simp: limits_ok_def)
  qed
  then show "accounted q" "indexed q" "limits_ok q" "capacity q = cap \<and> max_media_bytes q = mb \<and> max_media_files q = mf" by auto
qed

subsection \<open>First in, first out\<close>

text \<open>
  The contract of the queue: an accepted push appends to the contents and a pop takes the front.
  \<open>push_all\<close> pushes in order, giving up at the first refusal; \<open>drain n\<close> pops \<open>n\<close> times.
\<close>

fun push_all :: "('b \<Rightarrow> 'q \<Rightarrow> 'q option) \<Rightarrow> 'b list \<Rightarrow> 'q \<Rightarrow> 'q option" where
  "push_all enq [] q = Some q"
| "push_all enq (x # xs) q = (case enq x q of Some q \<Rightarrow> push_all enq xs q | None \<Rightarrow> None)"

fun drain :: "('q \<Rightarrow> 'a option \<times> 'q) \<Rightarrow> nat \<Rightarrow> 'q \<Rightarrow> 'a list \<times> 'q" where
  "drain deq 0 q = ([], q)"
| "drain deq (Suc n) q =
     (case deq q of
        (Some x, q) \<Rightarrow> (let (xs, q) = drain deq n q in (x # xs, q))
      | (None, q) \<Rightarrow> ([], q))"

locale fifo =
  fixes contents :: "'q \<Rightarrow> 'a list"
    and sent :: "'b \<Rightarrow> 'a"
    and enq :: "'b \<Rightarrow> 'q \<Rightarrow> 'q option"
    and deq :: "'q \<Rightarrow> 'a option \<times> 'q"
  assumes enq_contents: "enq x q = Some q' \<Longrightarrow> contents q' = contents q @ [sent x]"
    and deq_contents: "contents q = v # vs \<Longrightarrow> fst (deq q) = Some v \<and> contents (snd (deq q)) = vs"
begin

lemma push_all_contents: "push_all enq xs q = Some q' \<Longrightarrow> contents q' = contents q @ map sent xs"
  by (induction xs arbitrary: q) (auto simp: enq_contents split: option.splits)

lemma drain_contents:
  "n \<le> length (contents q) \<Longrightarrow>
   fst (drain deq n q) = take n (contents q) \<and> contents (snd (drain deq n q)) = drop n (contents q)"
proof (induction n arbitrary: q)
  case (Suc n)
  then obtain v vs where q: "contents q = v # vs" by (cases "contents q") auto
  obtain q' where d: "deq q = (Some v, q')" "contents q' = vs"
    using deq_contents [OF q] by (cases "deq q") auto
  show ?case using Suc.IH [of q'] Suc.prems q d by (auto split: prod.split)
qed simp

lemma drain_all: "fst (drain deq (length (contents q)) q) = contents q" "contents (snd (drain deq (length (contents q)) q)) = []"
  using drain_contents [of "length (contents q)" q] by simp_all

end

definition queued :: "'a byte_queue \<Rightarrow> 'a list" where
  "queued q = map item (entries (qstate q))"

definition push_accepted :: "'a \<times> usize \<Rightarrow> 'a byte_queue \<Rightarrow> 'a byte_queue option" where
  "push_accepted x q = (let (r, q) = try_push (fst x) (snd x) q in if r = Inr () then Some q else None)"

definition pop_item :: "'a byte_queue \<Rightarrow> 'a option \<times> 'a byte_queue" where
  "pop_item q = (case try_pop_with_bytes_and_more q of (r, q) \<Rightarrow> (map_option fst r, q))"

lemma queued_try_push: "fst (try_push v n q) = Inr r \<Longrightarrow> queued (snd (try_push v n q)) = queued q @ [v]"
  by (cases "entries (qstate q)" rule: rev_cases)
    (simp_all add: try_push_def try_push_with_def queued_def record_high_water_def Let_def split: if_splits)

interpretation byte_fifo: fifo queued fst push_accepted pop_item
proof unfold_locales
  fix x :: "'a \<times> usize" and q q' :: "'a byte_queue"
  assume "push_accepted x q = Some q'"
  then have "fst (try_push (fst x) (snd x) q) = Inr ()" "q' = snd (try_push (fst x) (snd x) q)"
    by (simp_all add: push_accepted_def case_prod_beta Let_def split: if_splits)
  then show "queued q' = queued q @ [fst x]" by (simp only: queued_try_push)
next
  fix q :: "'a byte_queue" and v vs
  assume "queued q = v # vs"
  then show "fst (pop_item q) = Some v \<and> queued (snd (pop_item q)) = vs"
    by (cases "entries (qstate q)") (simp_all add: pop_item_def try_pop_with_bytes_and_more_def queued_def Let_def)
qed

subsection \<open>Waiting producers\<close>

definition pop_entry :: "'a byte_queue \<Rightarrow> 'a byte_queue" where
  "pop_entry q = snd (try_pop_with_bytes_and_more q)"

lemma pop_entry_state:
  "entries (qstate (pop_entry q)) = tl (entries (qstate q))" "closed (qstate (pop_entry q)) = closed (qstate q)"
  "capacity (pop_entry q) = capacity q" "max_media_bytes (pop_entry q) = max_media_bytes q"
  "max_media_files (pop_entry q) = max_media_files q"
  by (auto simp: pop_entry_def try_pop_with_bytes_and_more_def Let_def remove_front_index_def subtract_entry_weight_def
      split: list.split option.split)

lemma pop_entries_state:
  "entries (qstate ((pop_entry ^^ n) q)) = drop n (entries (qstate q)) \<and> closed (qstate ((pop_entry ^^ n) q)) = closed (qstate q) \<and>
   capacity ((pop_entry ^^ n) q) = capacity q \<and> max_media_bytes ((pop_entry ^^ n) q) = max_media_bytes q \<and>
   max_media_files ((pop_entry ^^ n) q) = max_media_files q"
  by (induction n) (auto simp: pop_entry_state drop_Suc tl_drop)

lemma accounted_pop_entries: "accounted q \<Longrightarrow> accounted ((pop_entry ^^ n) q)"
  by (induction n) (simp_all add: pop_entry_def accounted_pop)

lemma saturating_add_zero [simp]: "saturating_add 0 n = n"
  by (simp add: saturating_add_def)

lemma empty_fits:
  assumes "accounted q" "entries (qstate q) = []" "\<not> exceeds_entry_limits q n m"
  shows "fits_in_state q n m prev"
proof -
  have "held_bytes (qstate q) = 0" "held_media_bytes (qstate q) = 0" "held_media_files (qstate q) = 0"
    using assms(1,2) by (simp_all add: accounted_def budget_def Let_def unat_eq_0)
  then show ?thesis
    using assms(3) by (auto simp: fits_in_state_def saturating_sub_def exceeds_entry_limits_def not_less)
qed

lemma empty_push_latest:
  assumes "accounted q" "entries (qstate q) = []" "limits_ok q"
  shows "\<exists>q'. push_blocking_latest_media v n m key q =
    Some (if exceeds_entry_limits q n m then Inl (TooLarge v) else if closed (qstate q) then Inl (Closed v) else Inr (), q')"
  using empty_fits [OF assms(1,2)] assms(2)
  by (auto simp: push_blocking_latest_media_def try_push_latest_media_def get_entry_def Let_def split: option.split)

lemma empty_push_segment:
  assumes "accounted q" "entries (qstate q) = []"
  shows "\<exists>q'. push_blocking_within_segment_media v n m segment q =
    Some (if exceeds_entry_limits q n m then Inl (TooLarge v) else if closed (qstate q) then Inl (Closed v) else Inr (), q')"
  using empty_fits [OF assms] assms(2) by (auto simp: push_blocking_within_segment_media_def Let_def)

subsection \<open>Properties\<close>

definition some_key :: replacement_key where
  "some_key = \<lparr>rk_pane = 1, rk_local = False, rk_generation = 2, rk_epoch = 1, rk_image = 7, rk_incarnation = 1\<rparr>"

definition ready_queue :: "nat byte_queue" where
  "ready_queue = snd (try_push_latest_media 7 3 no_media None (snd (try_push 5 4 (with_media_limits 8 0 0))))"

lemma ready_queue_reachable: "queue_step\<^sup>*\<^sup>* (with_media_limits 8 0 0) ready_queue"
proof -
  have "queue_step (with_media_limits 8 0 0) (snd (try_push 5 4 (with_media_limits 8 0 0)))"
    unfolding try_push_def by (rule queue_step.intros)
  moreover have "queue_step (snd (try_push 5 4 (with_media_limits 8 0 0))) ready_queue"
    unfolding ready_queue_def
    by (rule queue_step.intros) (simp add: try_push_def try_push_with_def with_media_limits_def record_high_water_def saturating_add_def)
  ultimately show ?thesis by (rule converse_rtranclp_into_rtranclp [OF _ r_into_rtranclp])
qed

text \<open>
  C16: whatever the threads do, the byte and media counters of a queue are exactly the sums over the
  queued entries, they never pass the high-water marks and these never pass the limits; no
  subtraction underflows.
\<close>

theorem queue_accounting:
  assumes "queue_step\<^sup>*\<^sup>* (with_media_limits cap mb mf) q" "cap < - 1" "mb < - 1" "mf < - 1"
  shows "unat (held_bytes (qstate q)) = (\<Sum>e\<leftarrow>entries (qstate q). unat (weight e)) \<and>
    unat (held_media_bytes (qstate q)) = (\<Sum>e\<leftarrow>entries (qstate q). unat (mw_bytes (media e))) \<and>
    unat (held_media_files (qstate q)) = (\<Sum>e\<leftarrow>entries (qstate q). unat (mw_files (media e))) \<and>
    held_bytes (qstate q) \<le> high_water_bytes (qstate q) \<and> high_water_bytes (qstate q) \<le> cap \<and>
    held_media_bytes (qstate q) \<le> high_water_media_bytes (qstate q) \<and> high_water_media_bytes (qstate q) \<le> mb \<and>
    held_media_files (qstate q) \<le> high_water_media_files (qstate q) \<and> high_water_media_files (qstate q) \<le> mf"
  using queue_invariant [OF assms] by (simp add: accounted_def budget_def charged_def Let_def)

theorem queue_accounting_witness:
  "unat (held_bytes (qstate ready_queue)) = (\<Sum>e\<leftarrow>entries (qstate ready_queue). unat (weight e))"
  using queue_accounting [OF ready_queue_reachable] by simp

text \<open>
  Values leave the queue in the order they were pushed: after pushing a list of values, all
  accepted, popping once per queued value yields the old contents followed by the list, and leaves
  the queue empty.
\<close>

theorem queue_fifo:
  assumes "push_all push_accepted xs q = Some q'"
  shows "fst (drain pop_item (length (entries (qstate q'))) q') = map item (entries (qstate q)) @ map fst xs \<and>
    entries (qstate (snd (drain pop_item (length (entries (qstate q'))) q'))) = []"
  using byte_fifo.push_all_contents [OF assms] byte_fifo.drain_all [of q']
  unfolding queued_def length_map by (metis map_is_Nil_conv)

theorem queue_fifo_witness:
  "\<exists>q'. push_all push_accepted [(5 :: nat, 4), (7, 0), (9, 4)] (new_queue 8) = Some q' \<and>
    fst (drain pop_item (length (entries (qstate q'))) q') = [5, 7, 9]"
proof -
  obtain q' where q': "push_all push_accepted [(5 :: nat, 4), (7, 0), (9, 4)] (new_queue 8) = Some q'"
    by (simp add: push_accepted_def try_push_def try_push_with_def new_queue_def with_media_limits_def
        record_high_water_def saturating_add_def Let_def)
  then show ?thesis using queue_fifo [OF q'] by (auto simp: new_queue_def with_media_limits_def)
qed

text \<open>
  C31: a producer never waits forever on a consumer that keeps popping: after at most as many pops as
  there are entries each blocking push returns, and what it returns is decided by the entry limits
  and by whether the queue is closed.
\<close>

theorem blocked_producer_proceeds:
  assumes "queue_step\<^sup>*\<^sup>* (with_media_limits cap mb mf) q" "cap < - 1" "mb < - 1" "mf < - 1"
  shows "\<exists>k \<le> length (entries (qstate q)). \<exists>q1 q2.
    push_blocking_within_segment_media v n m segment ((pop_entry ^^ k) q) =
      Some (if exceeds_entry_limits q n m then Inl (TooLarge v) else if closed (qstate q) then Inl (Closed v) else Inr (), q1) \<and>
    push_blocking_latest_media v n m key ((pop_entry ^^ k) q) =
      Some (if exceeds_entry_limits q n m then Inl (TooLarge v) else if closed (qstate q) then Inl (Closed v) else Inr (), q2) \<and>
    wait_for_capacity ((pop_entry ^^ k) q) n m (Some key) False =
      Some (if exceeds_entry_limits q n m then Inl (TooLarge ()) else if closed (qstate q) then Inl (Closed ()) else Inr ())"
proof -
  let ?q = "(pop_entry ^^ length (entries (qstate q))) q"
  note inv = queue_invariant [OF assms]
  have acc: "accounted ?q" using inv(1) by (rule accounted_pop_entries)
  note st = pop_entries_state [of "length (entries (qstate q))" q]
  have emp: "entries (qstate ?q) = []" and cl: "closed (qstate ?q) = closed (qstate q)" using st by simp_all
  have lim: "exceeds_entry_limits ?q n m = exceeds_entry_limits q n m" "limits_ok ?q" using st inv(3)
    by (simp_all add: exceeds_entry_limits_def limits_ok_def)
  have "wait_for_capacity ?q n m (Some key) False =
      Some (if exceeds_entry_limits q n m then Inl (TooLarge ()) else if closed (qstate q) then Inl (Closed ()) else Inr ())"
    using empty_fits [OF acc emp] lim cl by (simp add: wait_for_capacity_def)
  moreover note empty_push_segment [OF acc emp, of v n m segment] empty_push_latest [OF acc emp lim(2), of v n m key]
  ultimately show ?thesis
    unfolding lim(1) cl by (intro exI [of _ "length (entries (qstate q))"] conjI order_refl) auto
qed

theorem blocked_producer_proceeds_witness:
  "\<exists>k \<le> length (entries (qstate ready_queue)). \<exists>q'.
    push_blocking_within_segment_media 1 4 no_media (\<lambda>queued _ _. (queued, Barrier)) ((pop_entry ^^ k) ready_queue) = Some (Inr (), q')"
proof -
  have "\<not> exceeds_entry_limits ready_queue 4 no_media" "\<not> closed (qstate ready_queue)"
    by (simp_all add: ready_queue_def try_push_def try_push_with_def try_push_latest_media_def with_media_limits_def record_high_water_def
        exceeds_entry_limits_def fits_in_state_def weight_at_def get_entry_def replacement_index_def saturating_add_def no_media_def Let_def)
  then show ?thesis
    using blocked_producer_proceeds [OF ready_queue_reachable, where n = 4 and key = some_key and m = no_media and v = 1 and segment = "\<lambda>queued _ _. (queued, Barrier)"] by simp blast
qed

text \<open>
  A keyed push whose key is indexed replaces the pending entry of that key in place - same
  position, every other entry untouched, its bytes reclaimed -, in every reachable queue whose
  position counter has not wrapped between the two.
\<close>

theorem supersede_in_place:
  assumes "queue_step\<^sup>*\<^sup>* (with_media_limits cap mb mf) q" "cap < - 1" "mb < - 1" "mf < - 1"
    and "length (entries (qstate q)) < 2 ^ 63"
    and "replacements (qstate q) key = Some p" "base (qstate q) \<le> p"
    and "try_push_latest_media v n m (Some key) q = (Inr (), q')"
  shows "\<exists>i < length (entries (qstate q)). replacement (entries (qstate q) ! i) = Some key \<and>
    entries (qstate q') = (entries (qstate q))[i := \<lparr>item = v, weight = n, media = m, replacement = Some key\<rparr>] \<and>
    unat (held_bytes (qstate q')) + unat (weight (entries (qstate q) ! i)) = unat (held_bytes (qstate q)) + unat n"
proof -
  note inv = queue_invariant [OF assms(1-4)]
  let ?es = "entries (qstate q)"
  define i where "i = unat (p - base (qstate q))"
  have index: "replacement_index (qstate q) (Some key) = Some i"
    using assms(6,7) by (simp add: replacement_index_def checked_sub_def i_def)
  have i: "i < length ?es" "replacement (?es ! i) = Some key"
    using replacement_index_entry [OF inv(2) index] assms(5) by simp_all
  have es': "entries (qstate q') = ?es[i := \<lparr>item = v, weight = n, media = m, replacement = Some key\<rparr>]"
    using assms(8) index i by (auto simp: try_push_latest_media_def Let_def record_high_water_def get_entry_def split: if_splits)
  have "accounted q'" using accounted_try_push_latest_media [OF inv(1,3), of v n m "Some key"] assms(8) by simp
  then have "unat (held_bytes (qstate q')) + unat (weight (?es ! i)) = unat (held_bytes (qstate q)) + unat n"
    using charged_update [OF i(1), of weight "\<lparr>item = v, weight = n, media = m, replacement = Some key\<rparr>"] inv(1)
    by (simp add: accounted_def budget_def Let_def es')
  then show ?thesis using i es' by blast
qed

definition pending_image :: "nat byte_queue" where
  "pending_image = snd (try_push_latest_media 1 1 no_media (Some some_key) (with_media_limits 8 0 0))"

lemmas queue_eval = pending_image_def try_push_def try_push_with_def try_push_latest_media_def with_media_limits_def record_high_water_def
  exceeds_entry_limits_def fits_in_state_def weight_at_def get_entry_def replacement_index_def saturating_add_def saturating_sub_def
  no_media_def checked_sub_def

lemma pending_image_reachable: "queue_step\<^sup>*\<^sup>* (with_media_limits 8 0 0) pending_image"
  unfolding pending_image_def
  by (rule r_into_rtranclp, rule queue_step.intros) (simp add: with_media_limits_def)

theorem supersede_in_place_witness:
  "\<exists>q'. try_push_latest_media 2 3 no_media (Some some_key) pending_image = (Inr (), q') \<and>
    (\<exists>i < length (entries (qstate pending_image)). entries (qstate q') =
      (entries (qstate pending_image))[i := \<lparr>item = 2, weight = 3, media = no_media, replacement = Some some_key\<rparr>])"
proof -
  obtain q' where q': "try_push_latest_media 2 3 no_media (Some some_key) pending_image = (Inr (), q')"
    by (simp add: queue_eval Let_def)
  have "length (entries (qstate pending_image)) < 2 ^ 63" "replacements (qstate pending_image) some_key = Some 0"
    "base (qstate pending_image) \<le> 0"
    by (simp_all add: queue_eval Let_def)
  from supersede_in_place [OF pending_image_reachable _ _ _ this q'] q' show ?thesis by auto
qed

text \<open>
  Removing a ready entry from the middle forgets the barriers: it rebuilds the index from the
  keys that the entries still carry, so \<open>clear_replacements\<close> and \<open>invalidate_replacements\<close> before it
  have no effect on what a later keyed push supersedes.
\<close>

theorem pop_ready_undoes_barrier:
  assumes "fst (try_pop_ready ready split q) = Some v"
  shows "try_pop_ready ready split (clear_replacements q) = try_pop_ready ready split q \<and>
    try_pop_ready ready split (invalidate_replacements pane is_local q) = try_pop_ready ready split q"
proof -
  have "try_pop_ready ready split (q\<lparr>qstate := (qstate q)\<lparr>replacements := m\<rparr>\<rparr>) = try_pop_ready ready split q" for m
  proof (cases "position_of (\<lambda>e. ready (item e)) (entries (qstate q))")
    case None
    then show ?thesis using assms unfolding try_pop_ready_def by (simp del: position_of_None)
  next
    case (Some i)
    then show ?thesis
      by (cases "split (item (entries (qstate q) ! i))") (simp add: try_pop_ready_def subtract_entry_weight_def Let_def split: option.split)
  qed
  then show ?thesis by (simp only: clear_replacements_def invalidate_replacements_def simp_thms)
qed

theorem pop_ready_undoes_barrier_witness:
  "queued (snd (try_push_latest_media 3 1 no_media (Some some_key)
     (snd (try_pop_ready (\<lambda>v. v = 2) (\<lambda>v. (v, None)) (clear_replacements (snd (try_push 2 1 pending_image))))))) = [3]"
proof -
  let ?q = "snd (try_push 2 1 pending_image)"
  have ready: "fst (try_pop_ready (\<lambda>v. v = 2) (\<lambda>v. (v, None)) ?q) = Some 2"
    by (simp add: queue_eval try_pop_ready_def Let_def)
  show ?thesis
    using pop_ready_undoes_barrier [OF ready]
    by (simp add: queued_def) (simp add: queue_eval try_pop_ready_def subtract_entry_weight_def Let_def)
qed

end
