(* ===== verification/Geometry.thy ===== *)
theory Geometry
  imports TileLayouts Machine "HOL-Library.Monad_Syntax"
begin

text \<open>
  Rectangle arithmetic outside the tiling: \<^verbatim>\<open>src/layout/geometry.rs\<close>. Floating panes, drags and
  resizes are clamped to a canvas here. \<^verbatim>\<open>f32::clamp\<close> panics when its bounds are out of order, so a
  function that calls it with computed bounds returns an option, \<open>None\<close> being the panic; the first
  lemmas show that on a canvas of whole cells it does not happen.

  \<^verbatim>\<open>u16\<close> values are 16-bit words. Of the framework's viewport rectangle only width and height are
  read, so they are the arguments.
\<close>

definition u16_f32 :: "16 word \<Rightarrow> f32" where
  "u16_f32 n = f32_of_nat (unat n)"

subsection \<open>Bounds\<close>

definition MIN_CANVAS_COLS :: "16 word" where
  "MIN_CANVAS_COLS = 20"

definition effective_sidebar_width :: "16 word \<Rightarrow> 16 word \<Rightarrow> bool \<Rightarrow> 16 word" where
  "effective_sidebar_width viewport_width configured_width visible =
     (if \<not> visible \<or> viewport_width \<le> 1 then 0
      else
        let available = (if MIN_CANVAS_COLS < viewport_width then viewport_width - MIN_CANVAS_COLS
                         else viewport_width - 1)
        in min configured_width available)"

definition canvas_bounds_from_content_viewport :: "16 word \<Rightarrow> 16 word \<Rightarrow> 16 word \<Rightarrow> float_rect" where
  "canvas_bounds_from_content_viewport w h top_chrome_height =
     \<lparr>rx = Fin 0, ry = Fin 0, rw = u16_f32 w, rh = u16_f32 (saturating_sub h top_chrome_height)\<rparr>"

definition viewport_bounds :: "16 word \<Rightarrow> 16 word \<Rightarrow> float_rect" where
  "viewport_bounds w h = \<lparr>rx = Fin 0, ry = Fin 0, rw = u16_f32 w, rh = u16_f32 h\<rparr>"

definition empty_workspace_rect :: "float_rect \<Rightarrow> float_rect" where
  "empty_workspace_rect bounds =
     (let w = f32_max (f32_min (rw bounds) (Fin 46)) (f32_min (rw bounds) (Fin 18));
          h = f32_max (f32_min (rh bounds) (Fin 9)) (f32_min (rh bounds) (Fin 4))
      in \<lparr>rx = rx bounds + f32_max ((rw bounds - w) div Fin 2) (Fin 0),
          ry = ry bounds + f32_max ((rh bounds - h) div Fin 2) (Fin 0), rw = w, rh = h\<rparr>)"

definition workspace_tile_bounds :: "float_rect \<Rightarrow> f32 \<Rightarrow> float_rect" where
  "workspace_tile_bounds bounds gap =
     (let inset = f32_min (f32_abs gap) (rh bounds div Fin 2);
          y = (if gap < Fin 0 then ry bounds else ry bounds + inset)
      in \<lparr>rx = rx bounds, ry = y, rw = f32_max (rw bounds) (Fin 1),
          rh = f32_max (rh bounds - inset) (Fin 1)\<rparr>)"

subsection \<open>Clamping floating rectangles\<close>

definition clamp_window_size :: "float_rect \<Rightarrow> float_rect \<Rightarrow> (f32 \<times> f32) option" where
  "clamp_window_size rect bounds =
     (let max_w = f32_max (rw bounds) (Fin 1);
          max_h = f32_max (rh bounds) (Fin 1);
          min_w = f32_min max_w (Fin 18);
          min_h = f32_min max_h (Fin 6)
      in do {
        w \<leftarrow> clamp_checked (f32_max (rw rect) (Fin 1)) min_w max_w;
        h \<leftarrow> clamp_checked (f32_max (rh rect) (Fin 1)) min_h max_h;
        Some (w, h)
      })"

definition clamp_float_rect :: "float_rect \<Rightarrow> float_rect \<Rightarrow> float_rect option" where
  "clamp_float_rect rect bounds = do {
     (w, h) \<leftarrow> clamp_window_size rect bounds;
     let max_x = f32_max (rx bounds + rw bounds - w) (rx bounds);
     let max_y = f32_max (ry bounds + rh bounds - h) (ry bounds);
     x \<leftarrow> clamp_checked (rx rect) (rx bounds) max_x;
     y \<leftarrow> clamp_checked (ry rect) (ry bounds) max_y;
     Some \<lparr>rx = x, ry = y, rw = w, rh = h\<rparr>
   }"

definition clamp_floating_rect :: "float_rect \<Rightarrow> float_rect \<Rightarrow> float_rect option" where
  "clamp_floating_rect rect bounds = do {
     (w, h) \<leftarrow> clamp_window_size rect bounds;
     let margin_x = f32_min OFFSCREEN_MIN_VISIBLE w;
     let margin_y = f32_min OFFSCREEN_MIN_VISIBLE h;
     let lo_x = rx bounds + margin_x - w;
     let hi_x = rx bounds + rw bounds - margin_x;
     let lo_y = ry bounds + margin_y - h;
     let hi_y = ry bounds + rh bounds - margin_y;
     x \<leftarrow> clamp_checked (rx rect) (f32_min lo_x hi_x) (f32_max hi_x lo_x);
     y \<leftarrow> clamp_checked (ry rect) (f32_min lo_y hi_y) (f32_max hi_y lo_y);
     Some \<lparr>rx = x, ry = y, rw = w, rh = h\<rparr>
   }"

definition lift_off_float_rect :: "float_rect \<Rightarrow> float_rect \<Rightarrow> float_rect \<Rightarrow> float_rect option" where
  "lift_off_float_rect tile_rect remembered bounds =
     (let center_x = rx tile_rect + rw tile_rect div Fin 2;
          center_y = ry tile_rect + rh tile_rect div Fin 2
      in clamp_float_rect
           \<lparr>rx = center_x - rw remembered div Fin 2, ry = center_y - rh remembered div Fin 2,
            rw = rw remembered, rh = rh remembered\<rparr> bounds)"

definition default_floating_rect :: "float_rect \<Rightarrow> 32 word \<Rightarrow> float_rect option" where
  "default_floating_rect bounds seed = do {
     w \<leftarrow> clamp_checked (rw bounds * rnd (42 / 100)) (f32_min (rw bounds) (Fin 24)) (f32_max (rw bounds) (Fin 1));
     h \<leftarrow> clamp_checked (rh bounds * rnd (42 / 100)) (f32_min (rh bounds) (Fin 8)) (f32_max (rh bounds) (Fin 1));
     let offset = f32_of_nat (unat (seed mod 7)) * Fin 3;
     clamp_float_rect
       \<lparr>rx = rx bounds + Fin 3 + offset, ry = ry bounds + Fin 2 + offset div Fin 2, rw = w, rh = h\<rparr> bounds
   }"

definition close_rect_scaled :: "float_rect \<Rightarrow> f32 \<Rightarrow> float_rect" where
  "close_rect_scaled rect factor =
     (let w = f32_max (rw rect * factor) (Fin 1);
          h = f32_max (rh rect * factor) (Fin 1)
      in \<lparr>rx = rx rect + (rw rect - w) div Fin 2, ry = ry rect + (rh rect - h) div Fin 2, rw = w, rh = h\<rparr>)"

definition close_rect :: "float_rect \<Rightarrow> float_rect" where
  "close_rect rect = close_rect_scaled rect (rnd (9 / 10))"

subsection \<open>Dragging a corner\<close>

text \<open>\<^verbatim>\<open>f32::total_cmp\<close>, less or equal, and \<^verbatim>\<open>Iterator::min_by\<close>, which keeps the first of equal minima.\<close>

fun total_le :: "f32 \<Rightarrow> f32 \<Rightarrow> bool" where
  "total_le NInf _ = True"
| "total_le (Fin a) (Fin b) = (a \<le> b)"
| "total_le (Fin _) PInf = True"
| "total_le (Fin _) NaN = True"
| "total_le PInf PInf = True"
| "total_le PInf NaN = True"
| "total_le NaN NaN = True"
| "total_le _ _ = False"

fun first_min :: "('a \<Rightarrow> f32) \<Rightarrow> 'a list \<Rightarrow> 'a option" where
  "first_min f [] = None"
| "first_min f (x # xs) = Some (fold (\<lambda>y best. if total_le (f best) (f y) then best else y) xs x)"

definition nearest_resize_corner_from_local ::
  "16 word \<Rightarrow> 16 word \<Rightarrow> 16 word \<Rightarrow> 16 word \<Rightarrow> resize_corner" where
  "nearest_resize_corner_from_local local_x local_y target_w target_h =
     (let x = u16_f32 local_x;
          y = u16_f32 local_y;
          right = u16_f32 (saturating_sub target_w 1);
          bottom = u16_f32 (saturating_sub target_h 1);
          corners = [(UpperLeft, Fin 0, Fin 0), (UpperRight, right, Fin 0),
                     (LowerLeft, Fin 0, bottom), (LowerRight, right, bottom)]
      in case first_min (\<lambda>(_, ax, ay). (x - ax) * (x - ax) + (y - ay) * (y - ay)) corners of
           Some (corner, _, _) \<Rightarrow> corner
         | None \<Rightarrow> LowerRight)"

definition resize_float_rect_from_corner ::
  "float_rect \<Rightarrow> resize_corner \<Rightarrow> f32 \<Rightarrow> f32 \<Rightarrow> float_rect \<Rightarrow> float_rect option" where
  "resize_float_rect_from_corner rect corner dx dy bounds = do {
     rect \<leftarrow> clamp_floating_rect rect bounds;
     let max_w = f32_max (rw bounds) (Fin 1);
     let max_h = f32_max (rh bounds) (Fin 1);
     let min_w = f32_min max_w (Fin 18);
     let min_h = f32_min max_h (Fin 6);
     let margin_x = f32_min OFFSCREEN_MIN_VISIBLE min_w;
     let margin_y = f32_min OFFSCREEN_MIN_VISIBLE min_h;
     let bounds_right = rx bounds + rw bounds;
     let bounds_bottom = ry bounds + rh bounds;
     let left = rx rect;
     let right = rx rect + rw rect;
     let top = ry rect;
     let bottom = ry rect + rh rect;
     (left, right) \<leftarrow>
       (if corner = UpperLeft \<or> corner = LowerLeft then
          let outer = f32_max (f32_min (rx bounds) left) (right - max_w);
              inner = f32_min (right - min_w) (bounds_right - margin_x)
          in map_option (\<lambda>left. (left, right)) (clamp_checked (left + dx) (f32_min outer inner) inner)
        else
          let outer = f32_min (f32_max bounds_right right) (left + max_w);
              inner = f32_max (left + min_w) (rx bounds + margin_x)
          in map_option (\<lambda>right. (left, right)) (clamp_checked (right + dx) inner (f32_max outer inner)));
     (top, bottom) \<leftarrow>
       (if corner = UpperLeft \<or> corner = UpperRight then
          let outer = f32_max (f32_min (ry bounds) top) (bottom - max_h);
              inner = f32_min (bottom - min_h) (bounds_bottom - margin_y)
          in map_option (\<lambda>top. (top, bottom)) (clamp_checked (top + dy) (f32_min outer inner) inner)
        else
          let outer = f32_min (f32_max bounds_bottom bottom) (top + max_h);
              inner = f32_max (top + min_h) (ry bounds + margin_y)
          in map_option (\<lambda>bottom. (top, bottom)) (clamp_checked (bottom + dy) inner (f32_max outer inner)));
     Some \<lparr>rx = left, ry = top, rw = f32_max (right - left) (Fin 1), rh = f32_max (bottom - top) (Fin 1)\<rparr>
   }"

definition grabbed_edge_on_outer_border ::
  "float_rect \<Rightarrow> float_rect \<Rightarrow> resize_corner \<Rightarrow> split_axis \<Rightarrow> bool" where
  "grabbed_edge_on_outer_border focused_rect tile_bounds corner axis =
     (let EDGE_EPS = Fin (1 / 2);
          grabbed_left = (corner = UpperLeft \<or> corner = LowerLeft);
          grabbed_top = (corner = UpperLeft \<or> corner = UpperRight)
      in case axis of
           Horizontal \<Rightarrow>
             (if grabbed_left then rx focused_rect \<le> rx tile_bounds + EDGE_EPS
              else rx tile_bounds + rw tile_bounds - EDGE_EPS \<le> rx focused_rect + rw focused_rect)
         | Vertical \<Rightarrow>
             (if grabbed_top then ry focused_rect \<le> ry tile_bounds + EDGE_EPS
              else ry tile_bounds + rh tile_bounds - EDGE_EPS \<le> ry focused_rect + rh focused_rect))"

subsection \<open>Pointer and neighbours\<close>

definition canvas_local_point_from_mouse ::
  "16 word \<Rightarrow> 16 word \<Rightarrow> float_rect \<Rightarrow> 16 word \<Rightarrow> 16 word \<Rightarrow> (f32 \<times> f32) option" where
  "canvas_local_point_from_mouse x y bounds content_left_offset top_offset = do {
     px \<leftarrow> clamp_checked (u16_f32 (saturating_sub x content_left_offset)) (rx bounds) (rx bounds + rw bounds);
     py \<leftarrow> clamp_checked (u16_f32 (saturating_sub y top_offset)) (ry bounds) (ry bounds + rh bounds);
     Some (px, py)
   }"

definition rect_center :: "float_rect \<Rightarrow> f32 \<times> f32" where
  "rect_center rect = (rx rect + rw rect div Fin 2, ry rect + rh rect div Fin 2)"

definition interval_overlap :: "f32 \<Rightarrow> f32 \<Rightarrow> f32 \<Rightarrow> f32 \<Rightarrow> f32" where
  "interval_overlap a_start a_end b_start b_end =
     f32_max (f32_min a_end b_end - f32_max a_start b_start) (Fin 0)"

definition interval_gap :: "f32 \<Rightarrow> f32 \<Rightarrow> f32 \<Rightarrow> f32 \<Rightarrow> f32" where
  "interval_gap a_start a_end b_start b_end =
     (if a_end < b_start then b_start - a_end
      else if b_end < a_start then a_start - b_end else Fin 0)"

definition directional_score :: "float_rect \<Rightarrow> float_rect \<Rightarrow> direction \<Rightarrow> f32 option" where
  "directional_score current candidate direction =
     (let current_center = rect_center current;
          candidate_center = rect_center candidate;
          current_right = rx current + rw current;
          current_bottom = ry current + rh current;
          candidate_right = rx candidate + rw candidate;
          candidate_bottom = ry candidate + rh candidate
      in do {
        (primary_gap, cross_overlap, cross_gap, center_offset) \<leftarrow>
          (case direction of
             DirLeft \<Rightarrow>
               (if fst current_center \<le> fst candidate_center \<and> rx current < candidate_right then None
                else Some (f32_max (rx current - candidate_right) (Fin 0),
                           interval_overlap (ry current) current_bottom (ry candidate) candidate_bottom,
                           interval_gap (ry current) current_bottom (ry candidate) candidate_bottom,
                           f32_abs (snd candidate_center - snd current_center)))
           | DirRight \<Rightarrow>
               (if fst candidate_center \<le> fst current_center \<and> rx candidate < current_right then None
                else Some (f32_max (rx candidate - current_right) (Fin 0),
                           interval_overlap (ry current) current_bottom (ry candidate) candidate_bottom,
                           interval_gap (ry current) current_bottom (ry candidate) candidate_bottom,
                           f32_abs (snd candidate_center - snd current_center)))
           | DirUp \<Rightarrow>
               (if snd current_center \<le> snd candidate_center \<and> ry current < candidate_bottom then None
                else Some (f32_max (ry current - candidate_bottom) (Fin 0),
                           interval_overlap (rx current) current_right (rx candidate) candidate_right,
                           interval_gap (rx current) current_right (rx candidate) candidate_right,
                           f32_abs (fst candidate_center - fst current_center)))
           | DirDown \<Rightarrow>
               (if snd candidate_center \<le> snd current_center \<and> ry candidate < current_bottom then None
                else Some (f32_max (ry candidate - current_bottom) (Fin 0),
                           interval_overlap (rx current) current_right (rx candidate) candidate_right,
                           interval_gap (rx current) current_right (rx candidate) candidate_right,
                           f32_abs (fst candidate_center - fst current_center))));
        let overlap_penalty = (if Fin 0 < cross_overlap then Fin 0 else Fin 10000 + cross_gap * Fin 100);
        Some (overlap_penalty + primary_gap * Fin 10 + center_offset)
      })"

definition edge_distance :: "float_rect \<Rightarrow> float_rect \<Rightarrow> f32" where
  "edge_distance a b =
     (let dx = (if rx a + rw a \<le> rx b then rx b - (rx a + rw a)
                else if rx b + rw b \<le> rx a then rx a - (rx b + rw b) else Fin 0);
          dy = (if ry a + rh a \<le> ry b then ry b - (ry a + rh a)
                else if ry b + rh b \<le> ry a then ry a - (ry b + rh b) else Fin 0)
      in if f32_eq dx (Fin 0) \<and> f32_eq dy (Fin 0) then Fin 0
         else if f32_eq dx (Fin 0) then dy
         else if f32_eq dy (Fin 0) then dx
         else f32_sqrt (dx * dx + dy * dy))"

definition center_distance_sq :: "float_rect \<Rightarrow> float_rect \<Rightarrow> f32" where
  "center_distance_sq a b =
     (let (ax, ay) = rect_center a; (bx, by) = rect_center b; dx = ax - bx; dy = ay - by
      in dx * dx + dy * dy)"

definition rect_proximity :: "float_rect \<Rightarrow> float_rect \<Rightarrow> f32" where
  "rect_proximity reference candidate =
     edge_distance reference candidate * Fin 1000000 + center_distance_sq reference candidate"

definition closest_pane_to_rect :: "float_rect \<Rightarrow> (pane_id \<times> float_rect) list \<Rightarrow> pane_id option" where
  "closest_pane_to_rect reference candidates =
     (if candidates = [] then None
      else map_option fst (first_min (\<lambda>(_, rect). rect_proximity reference rect) candidates))"

subsection \<open>Whole-cell rectangles\<close>

lemma num_whole:
  "Fin 0 = whole 0" "Fin 1 = whole 1" "Fin 6 = whole 6" "Fin 18 = whole 18"
  "OFFSCREEN_MIN_VISIBLE = whole 6"
  by (simp_all add: OFFSCREEN_MIN_VISIBLE_def)

lemma cell_rect_simps [simp]:
  "rx (cell_rect x y w h) = whole x" "ry (cell_rect x y w h) = whole y"
  "rw (cell_rect x y w h) = whole w" "rh (cell_rect x y w h) = whole h"
  by (simp_all add: cell_rect_def)

lemma clamp_checked_whole: "lo \<le> hi \<Longrightarrow> clamp_checked (whole x) (whole lo) (whole hi) = Some (whole (max lo (min hi x)))"
  by (simp add: of_int_max of_int_min)

text \<open>The length of a window on a canvas of \<open>W\<close> cells with minimum \<open>m\<close>.\<close>

definition window_len :: "int \<Rightarrow> int \<Rightarrow> int \<Rightarrow> int" where
  "window_len m W w = max (min W m) (min W (max w 1))"

lemma window_len_bounds:
  "1 \<le> W \<Longrightarrow> 1 \<le> m \<Longrightarrow> 1 \<le> window_len m W w \<and> window_len m W w \<le> W \<and> min W m \<le> window_len m W w"
  by (auto simp: window_len_def)

lemma window_len_idem [simp]: "1 \<le> W \<Longrightarrow> 1 \<le> m \<Longrightarrow> window_len m W (window_len m W w) = window_len m W w"
  by (auto simp: window_len_def)

lemma clamp_window_size_cells:
  assumes "1 \<le> W" "1 \<le> H"
  shows "clamp_window_size (cell_rect x y w h) (cell_rect bx b_y W H) =
    Some (whole (window_len 18 W w), whole (window_len 6 H h))"
proof -
  have "max W 1 = W" "max H 1 = H" using assms by simp_all
  then have len: "clamp_checked (f32_max (whole w) (Fin 1)) (f32_min (f32_max (whole W) (Fin 1)) (Fin 18)) (f32_max (whole W) (Fin 1)) =
      Some (whole (window_len 18 W w))"
    "clamp_checked (f32_max (whole h) (Fin 1)) (f32_min (f32_max (whole H) (Fin 1)) (Fin 6)) (f32_max (whole H) (Fin 1)) =
      Some (whole (window_len 6 H h))"
    by (simp_all only: num_whole whole_minmax clamp_checked_whole window_len_def min.cobounded1)
  show ?thesis
    by (simp only: clamp_window_size_def cell_rect_simps Let_def len Option.bind.simps)
qed

text \<open>A number that stays exact through a few additions.\<close>

definition small :: "int \<Rightarrow> bool" where
  "small n \<longleftrightarrow> \<bar>n\<bar> \<le> 2 ^ 20"

lemma whole_arith_small:
  "small a \<Longrightarrow> small b \<Longrightarrow> whole a + whole b = whole (a + b)"
  "small a \<Longrightarrow> small b \<Longrightarrow> whole a - whole b = whole (a - b)"
  "small a \<Longrightarrow> small b \<Longrightarrow> small c \<Longrightarrow> whole (a + b) - whole c = whole (a + b - c)"
  "small a \<Longrightarrow> small b \<Longrightarrow> small c \<Longrightarrow> whole (a - b) - whole c = whole (a - b - c)"
  "small a \<Longrightarrow> small b \<Longrightarrow> small c \<Longrightarrow> whole (a + b) + whole c = whole (a + b + c)"
  by (rule whole_arith; simp add: small_def)+

lemma clamp_float_axis:
  assumes "small b" "small B" "small w" "w \<le> B"
  shows "clamp_checked (whole x) (whole b) (f32_max (whole b + whole B - whole w) (whole b)) =
    Some (whole (max b (min (b + B - w) x)))"
proof -
  have "max (b + B - w) b = b + B - w" using assms by simp
  then show ?thesis
    using assms by (simp only: whole_arith_small whole_minmax) (intro clamp_checked_whole, simp)
qed

lemma clamp_floating_axis:
  assumes "small b" "small B" "small w" "1 \<le> w" "w \<le> B"
  defines "m \<equiv> min 6 w"
  shows "clamp_checked (whole x)
      (f32_min (whole b + f32_min OFFSCREEN_MIN_VISIBLE (whole w) - whole w) (whole b + whole B - f32_min OFFSCREEN_MIN_VISIBLE (whole w)))
      (f32_max (whole b + whole B - f32_min OFFSCREEN_MIN_VISIBLE (whole w)) (whole b + f32_min OFFSCREEN_MIN_VISIBLE (whole w) - whole w)) =
    Some (whole (max (b + m - w) (min (b + B - m) x)))"
proof -
  have m: "small m" "m \<le> w" using assms by (auto simp: small_def)
  have le: "b + m - w \<le> b + B - m" using m assms(5) by (simp add: m_def)
  then have "min (b + m - w) (b + B - m) = b + m - w" "max (b + B - m) (b + m - w) = b + B - m" by simp_all
  then show ?thesis
    using assms(1-3) m(1) le
    by (simp only: num_whole whole_minmax m_def [symmetric] whole_arith_small) (intro clamp_checked_whole)
qed

lemma clamp_float_rect_cells:
  fixes bx b_y W H x y w h :: int
  assumes "small bx" "small b_y" "small W" "small H" "1 \<le> W" "1 \<le> H"
  defines "w' \<equiv> window_len 18 W w" and "h' \<equiv> window_len 6 H h"
  shows "clamp_float_rect (cell_rect x y w h) (cell_rect bx b_y W H) =
    Some (cell_rect (max bx (min (bx + W - w') x)) (max b_y (min (b_y + H - h') y)) w' h')"
proof -
  have len: "1 \<le> w'" "w' \<le> W" "1 \<le> h'" "h' \<le> H"
    using window_len_bounds [of W 18 w] window_len_bounds [of H 6 h] assms by (simp_all add: w'_def h'_def)
  then have "small w'" "small h'" using assms by (auto simp: small_def)
  then show ?thesis
    using len assms(1-6)
    by (simp only: clamp_float_rect_def clamp_window_size_cells w'_def [symmetric] h'_def [symmetric] Option.bind.simps
        cell_rect_simps Let_def prod.case clamp_float_axis) (simp add: cell_rect_def)
qed

lemma clamp_floating_rect_cells:
  fixes bx b_y W H x y w h :: int
  assumes "small bx" "small b_y" "small W" "small H" "1 \<le> W" "1 \<le> H"
  defines "w' \<equiv> window_len 18 W w" and "h' \<equiv> window_len 6 H h"
  shows "clamp_floating_rect (cell_rect x y w h) (cell_rect bx b_y W H) =
    Some (cell_rect (max (bx + min 6 w' - w') (min (bx + W - min 6 w') x))
                    (max (b_y + min 6 h' - h') (min (b_y + H - min 6 h') y)) w' h')"
proof -
  have len: "1 \<le> w'" "w' \<le> W" "1 \<le> h'" "h' \<le> H"
    using window_len_bounds [of W 18 w] window_len_bounds [of H 6 h] assms by (simp_all add: w'_def h'_def)
  then have "small w'" "small h'" using assms by (auto simp: small_def)
  then show ?thesis
    using len assms(1-6)
    by (simp only: clamp_floating_rect_def clamp_window_size_cells w'_def [symmetric] h'_def [symmetric] Option.bind.simps
        cell_rect_simps Let_def prod.case clamp_floating_axis) (simp add: cell_rect_def)
qed

subsection \<open>A dragged corner, one axis at a time\<close>

text \<open>
  The new low edge of a segment \<open>[s, e)\<close> on a canvas axis \<open>[b, b + B)\<close>, dragged by \<open>d\<close>, and the new
  high edge; \<open>least\<close> is the smallest window the axis allows.
\<close>

definition drag_low :: "int \<Rightarrow> int \<Rightarrow> int \<Rightarrow> int \<Rightarrow> int \<Rightarrow> int \<Rightarrow> int" where
  "drag_low least b B s e d =
     (let outer = max (min b s) (e - B); inner = min (e - least) (b + B - min 6 least)
      in max (min outer inner) (min inner (s + d)))"

definition drag_high :: "int \<Rightarrow> int \<Rightarrow> int \<Rightarrow> int \<Rightarrow> int \<Rightarrow> int \<Rightarrow> int" where
  "drag_high least b B s e d =
     (let outer = min (max (b + B) e) (s + B); inner = max (s + least) (b + min 6 least)
      in max inner (min (max outer inner) (e + d)))"

lemma drag_low_float:
  assumes "small b" "small B" "small s" "small e" "small d" "small least"
  shows "clamp_checked (whole s + whole d)
      (f32_min (f32_max (f32_min (whole b) (whole s)) (whole e - whole B))
        (f32_min (whole e - whole least) (whole b + whole B - f32_min OFFSCREEN_MIN_VISIBLE (whole least))))
      (f32_min (whole e - whole least) (whole b + whole B - f32_min OFFSCREEN_MIN_VISIBLE (whole least))) =
    Some (whole (drag_low least b B s e d))"
proof -
  have "small (min 6 least)" using assms by (simp add: small_def)
  then show ?thesis
    using assms by (simp only: num_whole whole_minmax whole_arith_small clamp_checked_whole min.cobounded2 drag_low_def Let_def)
qed

lemma drag_high_float:
  assumes "small b" "small B" "small s" "small e" "small d" "small least"
  shows "clamp_checked (whole e + whole d)
      (f32_max (whole s + whole least) (whole b + f32_min OFFSCREEN_MIN_VISIBLE (whole least)))
      (f32_max (f32_min (f32_max (whole b + whole B) (whole e)) (whole s + whole B))
        (f32_max (whole s + whole least) (whole b + f32_min OFFSCREEN_MIN_VISIBLE (whole least)))) =
    Some (whole (drag_high least b B s e d))"
proof -
  have "small (min 6 least)" using assms by (simp add: small_def)
  then show ?thesis
    using assms by (simp only: num_whole whole_minmax whole_arith_small clamp_checked_whole max.cobounded2 drag_high_def Let_def)
qed

text \<open>What a drag keeps: a window size within limits, and the visible margin.\<close>

definition window_ok :: "int \<Rightarrow> int \<Rightarrow> int \<Rightarrow> int \<Rightarrow> int \<Rightarrow> bool" where
  "window_ok least b B s e \<longleftrightarrow>
     least \<le> e - s \<and> e - s \<le> B \<and> min 6 least \<le> e - b \<and> min 6 least \<le> b + B - s"

lemma window_ok_drag:
  assumes ok: "window_ok least b B s e" and least: "1 \<le> least" "least \<le> B"
  shows "window_ok least b B (drag_low least b B s e d) e" "window_ok least b B s (drag_high least b B s e d)"
proof -
  define g where "g = min 6 least"
  have g: "g \<le> least" "g \<le> B" using least by (simp_all add: g_def)
  have k: "least \<le> e - s" "e - s \<le> B" "g \<le> e - b" "g \<le> b + B - s" using ok by (simp_all add: window_ok_def g_def)
  define outer inner where "outer = max (min b s) (e - B)" and "inner = min (e - least) (b + B - g)"
  have oi: "outer \<le> inner" using k g least by (auto simp: outer_def inner_def)
  have "drag_low least b B s e d = max outer (min inner (s + d))"
    using oi by (simp add: drag_low_def Let_def g_def [symmetric] outer_def [symmetric] inner_def [symmetric] min_absorb1)
  then have "outer \<le> drag_low least b B s e d" "drag_low least b B s e d \<le> inner" using oi by auto
  then have "e - B \<le> drag_low least b B s e d" "drag_low least b B s e d \<le> e - least" "drag_low least b B s e d \<le> b + B - g"
    by (simp_all add: outer_def inner_def)
  then show "window_ok least b B (drag_low least b B s e d) e"
    using k unfolding window_ok_def g_def [symmetric] by simp
  define outer' inner' where "outer' = min (max (b + B) e) (s + B)" and "inner' = max (s + least) (b + g)"
  have oi': "inner' \<le> outer'" using k g least by (auto simp: outer'_def inner'_def)
  have "drag_high least b B s e d = max inner' (min outer' (e + d))"
    using oi' by (simp add: drag_high_def Let_def g_def [symmetric] outer'_def [symmetric] inner'_def [symmetric] max_absorb1)
  then have "inner' \<le> drag_high least b B s e d" "drag_high least b B s e d \<le> outer'" using oi' by auto
  then have "drag_high least b B s e d \<le> s + B" "s + least \<le> drag_high least b B s e d" "b + g \<le> drag_high least b B s e d"
    by (simp_all add: outer'_def inner'_def)
  then show "window_ok least b B s (drag_high least b B s e d)"
    using k unfolding window_ok_def g_def [symmetric] by simp
qed

lemma window_ok_clamped:
  fixes B m w x b :: int
  assumes "1 \<le> B" "1 \<le> m"
  defines "w' \<equiv> window_len m B w"
  shows "window_ok (min B m) b B (max (b + min 6 w' - w') (min (b + B - min 6 w') x))
    (max (b + min 6 w' - w') (min (b + B - min 6 w') x) + w')"
proof -
  have w': "1 \<le> w'" "w' \<le> B" "min B m \<le> w'" using window_len_bounds [OF assms(1,2), of w] by (simp_all add: w'_def)
  define q where "q = min 6 w'"
  have q: "min 6 (min B m) \<le> q" "q \<le> w'" using w' by (auto simp: q_def)
  define s where "s = max (b + q - w') (min (b + B - q) x)"
  have s: "b + q - w' \<le> s" "s \<le> b + B - q" using q w' by (auto simp: s_def)
  show ?thesis
    unfolding q_def [symmetric] s_def [symmetric] window_ok_def using q w' s by linarith
qed

definition drag_axis :: "bool \<Rightarrow> int \<Rightarrow> int \<Rightarrow> int \<Rightarrow> int \<Rightarrow> int \<Rightarrow> int \<Rightarrow> int \<times> int" where
  "drag_axis low least b B s e d = (if low then (drag_low least b B s e d, e) else (s, drag_high least b B s e d))"

lemma window_ok_drag_axis:
  "window_ok least b B s e \<Longrightarrow> 1 \<le> least \<Longrightarrow> least \<le> B \<Longrightarrow>
   window_ok least b B (fst (drag_axis low least b B s e d)) (snd (drag_axis low least b B s e d))"
  by (simp add: drag_axis_def window_ok_drag)

lemma resize_corner_cells:
  fixes bx b_y W H x y w h dx dy :: int
  assumes small: "\<bar>bx\<bar> \<le> 2 ^ 18" "\<bar>b_y\<bar> \<le> 2 ^ 18" "W \<le> 2 ^ 18" "H \<le> 2 ^ 18" "\<bar>dx\<bar> \<le> 2 ^ 18" "\<bar>dy\<bar> \<le> 2 ^ 18"
    and pos: "1 \<le> W" "1 \<le> H"
    and clamped: "clamp_floating_rect (cell_rect x y w h) (cell_rect bx b_y W H) = Some (cell_rect l t lw lh)"
    and ok: "window_ok (min W 18) bx W l (l + lw)" "window_ok (min H 6) b_y H t (t + lh)"
  shows "resize_float_rect_from_corner (cell_rect x y w h) corner (whole dx) (whole dy) (cell_rect bx b_y W H) =
    (let (l', r') = drag_axis (corner = UpperLeft \<or> corner = LowerLeft) (min W 18) bx W l (l + lw) dx;
         (t', e') = drag_axis (corner = UpperLeft \<or> corner = UpperRight) (min H 6) b_y H t (t + lh) dy
     in Some (cell_rect l' t' (r' - l') (e' - t')))"
proof -
  define lx ly where "lx = min W 18" and "ly = min H 6"
  have least: "1 \<le> lx" "lx \<le> W" "1 \<le> ly" "ly \<le> H" using pos by (auto simp: lx_def ly_def)
  note ok = ok [folded lx_def ly_def]
  have seg: "lw \<le> W" "lh \<le> H" "lx \<le> lw" "ly \<le> lh" using ok by (auto simp: window_ok_def)
  have bounds: "bx - W \<le> l" "l \<le> bx + W" "b_y - H \<le> t" "t \<le> b_y + H"
    using ok least by (auto simp: window_ok_def)
  have sm: "small bx" "small b_y" "small W" "small H" "small dx" "small dy" "small l" "small t" "small lw" "small lh"
    "small (l + lw)" "small (t + lh)" "small lx" "small ly"
    using small pos seg least bounds by (auto simp: small_def)
  have max1: "max W 1 = W" "max H 1 = H" using pos by simp_all
  have lims: "f32_max (whole W) (Fin 1) = whole W" "f32_max (whole H) (Fin 1) = whole H"
    "f32_min (whole W) (Fin 18) = whole lx" "f32_min (whole H) (Fin 6) = whole ly"
    by (simp_all only: num_whole whole_minmax max1 lx_def ly_def)
  have edges: "whole l + whole lw = whole (l + lw)" "whole t + whole lh = whole (t + lh)"
    using sm by (simp_all only: whole_arith_small)
  have extent: "f32_max (whole e - whole s) (Fin 1) = whole (e - s)"
    if "window_ok least b B s e" "1 \<le> least" "\<bar>b\<bar> \<le> 2 ^ 18" "1 \<le> B" "B \<le> 2 ^ 18" for least b B s e
  proof -
    have "max (e - s) 1 = e - s" "small s" "small e" using that by (auto simp: window_ok_def small_def)
    then show ?thesis by (simp only: num_whole whole_arith_small whole_minmax)
  qed
  note size =
    extent [OF window_ok_drag(1) [OF ok(1) least(1,2)] least(1) small(1) pos(1) small(3)]
    extent [OF window_ok_drag(2) [OF ok(1) least(1,2)] least(1) small(1) pos(1) small(3)]
    extent [OF window_ok_drag(1) [OF ok(2) least(3,4)] least(3) small(2) pos(2) small(4)]
    extent [OF window_ok_drag(2) [OF ok(2) least(3,4)] least(3) small(2) pos(2) small(4)]
  note low = drag_low_float [OF sm(1,3,7,11,5,13)] drag_low_float [OF sm(2,4,8,12,6,14)]
  note high = drag_high_float [OF sm(1,3,7,11,5,13)] drag_high_float [OF sm(2,4,8,12,6,14)]
  show ?thesis
    unfolding lx_def [symmetric] ly_def [symmetric]
    by (cases corner)
      (simp_all only: resize_float_rect_from_corner_def clamped Option.bind.simps Let_def cell_rect_simps lims edges
        low high size drag_axis_def resize_corner.distinct simp_thms if_True if_False option.map prod.case
        cell_rect_def [symmetric])
qed

subsection \<open>Properties\<close>



text \<open>
  Dragging a corner of a floating pane never panics, moves only the two edges that meet in that
  corner, keeps the window between its minimum size and the canvas size, and keeps the grab margin
  on the canvas.
\<close>

theorem resize_corner_keeps_window:
  fixes bx b_y W H x y w h dx dy :: int
  assumes "\<bar>bx\<bar> \<le> 2 ^ 18" "\<bar>b_y\<bar> \<le> 2 ^ 18" "1 \<le> W" "W \<le> 2 ^ 18" "1 \<le> H" "H \<le> 2 ^ 18" "\<bar>dx\<bar> \<le> 2 ^ 18" "\<bar>dy\<bar> \<le> 2 ^ 18"
  shows "\<exists>l t lw lh l' t' w' h'.
    clamp_floating_rect (cell_rect x y w h) (cell_rect bx b_y W H) = Some (cell_rect l t lw lh) \<and>
    resize_float_rect_from_corner (cell_rect x y w h) corner (whole dx) (whole dy) (cell_rect bx b_y W H) =
      Some (cell_rect l' t' w' h') \<and>
    (if corner = UpperLeft \<or> corner = LowerLeft then l' + w' = l + lw else l' = l) \<and>
    (if corner = UpperLeft \<or> corner = UpperRight then t' + h' = t + lh else t' = t) \<and>
    window_ok (min W 18) bx W l' (l' + w') \<and> window_ok (min H 6) b_y H t' (t' + h')"
proof -
  have sm: "small bx" "small b_y" "small W" "small H" using assms by (simp_all add: small_def)
  define lw lh where "lw = window_len 18 W w" and "lh = window_len 6 H h"
  define l t where "l = max (bx + min 6 lw - lw) (min (bx + W - min 6 lw) x)"
    and "t = max (b_y + min 6 lh - lh) (min (b_y + H - min 6 lh) y)"
  have clamped: "clamp_floating_rect (cell_rect x y w h) (cell_rect bx b_y W H) = Some (cell_rect l t lw lh)"
    unfolding clamp_floating_rect_cells [OF sm assms(3,5)] l_def t_def lw_def lh_def ..
  have ok: "window_ok (min W 18) bx W l (l + lw)" "window_ok (min H 6) b_y H t (t + lh)"
    using window_ok_clamped [OF assms(3), of 18 bx w x] window_ok_clamped [OF assms(5), of 6 b_y h y]
    by (simp_all add: l_def t_def lw_def lh_def)
  obtain l' r' where hor: "drag_axis (corner = UpperLeft \<or> corner = LowerLeft) (min W 18) bx W l (l + lw) dx = (l', r')" by fastforce
  obtain t' e' where ver: "drag_axis (corner = UpperLeft \<or> corner = UpperRight) (min H 6) b_y H t (t + lh) dy = (t', e')" by fastforce
  have res: "resize_float_rect_from_corner (cell_rect x y w h) corner (whole dx) (whole dy) (cell_rect bx b_y W H) =
      Some (cell_rect l' t' (r' - l') (e' - t'))"
    using resize_corner_cells [OF assms(1,2,4,6,7,8,3,5) clamped ok, of corner] by (simp add: hor ver)
  have least: "1 \<le> min W 18" "1 \<le> min H 6" using assms by simp_all
  have "window_ok (min W 18) bx W l' r'" "window_ok (min H 6) b_y H t' e'"
    using window_ok_drag_axis [OF ok(1) least(1) min.cobounded1, of "corner = UpperLeft \<or> corner = LowerLeft" dx]
      window_ok_drag_axis [OF ok(2) least(2) min.cobounded1, of "corner = UpperLeft \<or> corner = UpperRight" dy]
    unfolding hor ver fst_conv snd_conv by - assumption+
  moreover have "if corner = UpperLeft \<or> corner = LowerLeft then r' = l + lw else l' = l"
    "if corner = UpperLeft \<or> corner = UpperRight then e' = t + lh else t' = t"
    using hor ver by (auto simp: drag_axis_def split: if_splits)
  moreover have sums: "l' + (r' - l') = r'" "t' + (e' - t') = e'" by simp_all
  ultimately show ?thesis
    using clamped res
    by - (rule exI [of _ l], rule exI [of _ t], rule exI [of _ lw], rule exI [of _ lh], rule exI [of _ l'], rule exI [of _ t'],
        rule exI [of _ "r' - l'"], rule exI [of _ "e' - t'"], unfold sums, intro conjI, assumption+)
qed

theorem resize_corner_keeps_window_witness:
  "\<exists>r. resize_float_rect_from_corner (cell_rect 5 5 30 10) LowerLeft (whole 500) (whole (- 40)) (cell_rect 0 0 80 24) = Some r"
  using resize_corner_keeps_window [of 0 0 80 24 500 "- 40" 5 5 30 10 LowerLeft] by auto

end
