(* ===== verification/Placement.thy ===== *)
theory Placement
  imports Geometry Workspace "HOL-Library.Product_Lexorder" "HOL-Library.Multiset"
begin

text \<open>
  Where the panes of a workspace go, \<^verbatim>\<open>src/layout/mod.rs\<close>: the tiled panes through the allocator
  of the layout kind, the floating panes clamped to their bounds, the painter's order, and the
  placement of a spawned or dropped pane in the tiling. A source of tiles is a \<open>tile_source\<close>; a
  computation that calls \<^verbatim>\<open>f32::clamp\<close> returns an option, \<open>None\<close> being its panic.

  Shown: every layout kind places each tiled pane once, in tree order, before the floating panes; a
  spawned pane lands directly after the pane it split, or last, and no other pane changes place;
  the painter's order layers live tiles, closing tiles, live floats and closing floats.
\<close>

subsection \<open>Target rectangles\<close>

definition horizontal_tile_intersection :: "float_rect \<Rightarrow> float_rect \<Rightarrow> float_rect option" where
  "horizontal_tile_intersection layout local =
     (let left = f32_max (rx layout) (rx local);
          right = f32_min (rx layout + rw layout) (rx local + rw local)
      in if \<not> is_finite left \<or> \<not> is_finite right then None
         else
           let width = right - left
           in if width \<le> Fin 0 \<or> \<not> is_finite width then None
              else Some \<lparr>rx = left, ry = ry layout, rw = width, rh = rh layout\<rparr>)"

definition tile_placements ::
  "tile_source \<Rightarrow> float_rect \<Rightarrow> float_rect option \<Rightarrow> pane_id option \<Rightarrow> f32 \<Rightarrow> tile_gap \<Rightarrow> pane_placement list option" where
  "tile_placements ts bounds visible_bounds exclude_tiled top_gap gap =
     (let tile_bounds = workspace_tile_bounds bounds top_gap;
          ids = order_driven_ids ts exclude_tiled
      in case ts_layout_kind ts of
           Dwindle \<Rightarrow>
             Some (case effective_tile_tree ts exclude_tiled of
                     Some tree \<Rightarrow> allocate_dwindle tree tile_bounds gap
                   | None \<Rightarrow> [])
         | Master \<Rightarrow> Some (allocate_master ids tile_bounds gap (ratio_at (ts_split_ratios ts) 0))
         | Grid \<Rightarrow> Some (allocate_grid ids tile_bounds gap)
         | Columns \<Rightarrow> Some (allocate_columns ids tile_bounds gap)
         | Rows \<Rightarrow> Some (allocate_rows ids tile_bounds gap)
         | Scrollable \<Rightarrow>
             (let panes = map (\<lambda>pid. (pid, ts_scrollable_width ts pid)) ids;
                  (anchor, reveal_edge) = ts_scrollable_viewport ts ids;
                  visible_tile = (case visible_bounds of
                      None \<Rightarrow> tile_bounds
                    | Some visible \<Rightarrow>
                        (case horizontal_tile_intersection tile_bounds (workspace_tile_bounds visible top_gap) of
                           Some tile \<Rightarrow> tile
                         | None \<Rightarrow> tile_bounds))
              in allocate_scrollable_with_visible panes tile_bounds visible_tile gap anchor reveal_edge)
         | Monocle \<Rightarrow> Some (allocate_monocle ids tile_bounds))"

text \<open>The visitor of the floating panes pushes one clamped placement per pane, in order.\<close>

fun float_placements :: "(pane_id \<times> float_rect) list \<Rightarrow> float_rect \<Rightarrow> pane_placement list option" where
  "float_placements [] float_bounds = Some []"
| "float_placements ((pid, rect) # floats) float_bounds = do {
     rect \<leftarrow> clamp_floating_rect (rect\<lparr>rx := rx rect + rx float_bounds, ry := ry rect + ry float_bounds\<rparr>) float_bounds;
     placements \<leftarrow> float_placements floats float_bounds;
     Some (\<lparr>placed_id = pid, placed_rect = rect\<rparr> # placements)
   }"

definition target_rects_for ::
  "tile_source \<Rightarrow> float_rect \<Rightarrow> float_rect \<Rightarrow> float_rect option \<Rightarrow> pane_id option \<Rightarrow> f32 \<Rightarrow> tile_gap \<Rightarrow>
   pane_placement list option" where
  "target_rects_for ts bounds float_bounds visible_bounds exclude_tiled top_gap gap = do {
     tiles \<leftarrow> tile_placements ts bounds visible_bounds exclude_tiled top_gap gap;
     floats \<leftarrow> float_placements (ts_floating ts) float_bounds;
     Some (tiles @ floats)
   }"

definition workspace_target_rects_excluding_with_visible ::
  "workspace \<Rightarrow> float_rect \<Rightarrow> float_rect option \<Rightarrow> pane_id option \<Rightarrow> f32 \<Rightarrow> tile_gap \<Rightarrow> pane_placement list option" where
  "workspace_target_rects_excluding_with_visible w bounds visible_bounds exclude_tiled top_gap gap =
     target_rects_for (workspace_source w) bounds bounds visible_bounds exclude_tiled top_gap gap"

definition workspace_target_rects_excluding ::
  "workspace \<Rightarrow> float_rect \<Rightarrow> pane_id option \<Rightarrow> f32 \<Rightarrow> tile_gap \<Rightarrow> pane_placement list option" where
  "workspace_target_rects_excluding w bounds exclude_tiled top_gap gap =
     workspace_target_rects_excluding_with_visible w bounds None exclude_tiled top_gap gap"

definition workspace_target_rects_with_visible_bounds ::
  "workspace \<Rightarrow> float_rect \<Rightarrow> float_rect \<Rightarrow> f32 \<Rightarrow> tile_gap \<Rightarrow> pane_placement list option" where
  "workspace_target_rects_with_visible_bounds w bounds visible_bounds top_gap gap =
     workspace_target_rects_excluding_with_visible w bounds (Some visible_bounds) None top_gap gap"

definition workspace_target_rects_with_float_bounds ::
  "workspace \<Rightarrow> float_rect \<Rightarrow> float_rect \<Rightarrow> f32 \<Rightarrow> tile_gap \<Rightarrow> pane_placement list option" where
  "workspace_target_rects_with_float_bounds w bounds float_bounds top_gap gap =
     target_rects_for (workspace_source w) bounds float_bounds None None top_gap gap"

definition workspace_target_rects :: "workspace \<Rightarrow> float_rect \<Rightarrow> f32 \<Rightarrow> tile_gap \<Rightarrow> pane_placement list option" where
  "workspace_target_rects w bounds top_gap gap = workspace_target_rects_with_float_bounds w bounds bounds top_gap gap"

definition placement_for :: "pane_placement list \<Rightarrow> pane_id \<Rightarrow> float_rect option" where
  "placement_for placements pid = map_option placed_rect (find (\<lambda>pl. placed_id pl = pid) placements)"

subsection \<open>The painter's order\<close>

definition pane_z_group :: "pane \<Rightarrow> nat" where
  "pane_z_group p =
     (case (closing p, p_floating p) of
        (False, False) \<Rightarrow> 0
      | (True, False) \<Rightarrow> 1
      | (False, True) \<Rightarrow> 2
      | (True, True) \<Rightarrow> 3)"

definition paint_key :: "pane_id option \<Rightarrow> (pane \<Rightarrow> bool) \<Rightarrow> pane \<Rightarrow> nat \<times> bool \<times> bool \<times> bool \<times> pane_id" where
  "paint_key focused is_alerting p = (pane_z_group p, p_fullscreen p, focused = Some (p_id p), is_alerting p, p_id p)"

definition ordered_panes :: "workspace \<Rightarrow> pane_id option \<Rightarrow> (pane \<Rightarrow> bool) \<Rightarrow> pane list" where
  "ordered_panes w focused is_alerting = sort_key (paint_key focused is_alerting) (w_panes w)"

subsection \<open>Placing a spawned or dropped pane\<close>

definition spawn_split_for_rect :: "float_rect \<Rightarrow> f32 \<Rightarrow> split_axis \<times> bool" where
  "spawn_split_for_rect rect split_width_multiplier =
     ((if rh rect * split_width_multiplier \<le> rw rect then Horizontal else Vertical), False)"

definition drop_split_for_target :: "float_rect \<Rightarrow> f32 \<times> f32 \<Rightarrow> split_axis \<times> bool" where
  "drop_split_for_target target_rect point =
     (let local_x = f32_clamp ((fst point - rx target_rect) div f32_max (rw target_rect) (Fin 1)) (Fin 0) (Fin 1);
          local_y = f32_clamp ((snd point - ry target_rect) div f32_max (rh target_rect) (Fin 1)) (Fin 0) (Fin 1);
          from_center_x = local_x - Fin (1 / 2);
          from_center_y = local_y - Fin (1 / 2)
      in if f32_abs from_center_y \<le> f32_abs from_center_x then (Horizontal, from_center_x < Fin 0)
         else (Vertical, from_center_y < Fin 0))"

definition target_tiled_pane_for_drop :: "pane_placement list \<Rightarrow> pane_id list \<Rightarrow> f32 \<times> f32 \<Rightarrow> pane_id option" where
  "target_tiled_pane_for_drop placements tiled point =
     (case find (\<lambda>pl. float_rect_contains_point (placed_rect pl) point) (rev placements) of
        Some pl \<Rightarrow> if placed_id pl \<in> set tiled then Some (placed_id pl) else None
      | None \<Rightarrow> None)"

definition insert_tiled_pane_at_point ::
  "workspace \<Rightarrow> pane_id \<Rightarrow> f32 \<times> f32 \<Rightarrow> float_rect \<Rightarrow> f32 \<Rightarrow> tile_gap \<Rightarrow> (workspace \<times> (pane_id \<times> bool) option) option" where
  "insert_tiled_pane_at_point w pid point bounds top_gap gap = do {
     placements \<leftarrow> workspace_target_rects_excluding w bounds (Some pid) top_gap gap;
     let tiled = filter (\<lambda>target. target \<noteq> pid) (tiled_ids w);
     let target = (case target_tiled_pane_for_drop placements tiled point of
                     Some target \<Rightarrow> map_option (Pair target) (placement_for placements target)
                   | None \<Rightarrow> None);
     Some (case target of
             None \<Rightarrow> (w, None)
           | Some (target_id, target_rect) \<Rightarrow>
               (let (axis, moving_first) = drop_split_for_target target_rect point;
                    (w, inserted) = insert_tiled_pane_around_target w pid target_id axis moving_first EVEN_SPLIT_RATIO
                in (w, if inserted then Some (target_id, moving_first) else None)))
   }"

datatype spawn_placement = SpawnSplit pane_id split_axis | Appended

datatype slide_edge = SlideLeft | SlideRight | SlideTop | SlideBottom

fun slide_edge_of :: "spawn_placement \<Rightarrow> layout_kind \<Rightarrow> slide_edge" where
  "slide_edge_of (SpawnSplit _ Horizontal) _ = SlideRight"
| "slide_edge_of (SpawnSplit _ Vertical) _ = SlideBottom"
| "slide_edge_of Appended kind = (if kind \<in> {Master, Columns, Scrollable} then SlideRight else SlideBottom)"

definition place_spawned_pane ::
  "workspace \<Rightarrow> pane_id \<Rightarrow> pane_id option \<Rightarrow> float_rect \<Rightarrow> f32 \<Rightarrow> tile_gap \<Rightarrow> f32 \<Rightarrow> (workspace \<times> spawn_placement) option" where
  "place_spawned_pane w pid previous_focused bounds top_gap gap split_width_multiplier =
     (if w_layout_kind w \<in> {Master, Grid, Columns, Rows, Scrollable, Monocle} then Some (append_tiled_window w pid, Appended)
      else
        case (case previous_focused of Some target \<Rightarrow> if target \<noteq> pid then Some target else None | None \<Rightarrow> None) of
          None \<Rightarrow> Some (append_tiled_window w pid, Appended)
        | Some target \<Rightarrow> do {
            placements \<leftarrow> workspace_target_rects_excluding w bounds (Some pid) top_gap gap;
            Some (case placement_for placements target of
                    None \<Rightarrow> (append_tiled_window w pid, Appended)
                  | Some rect \<Rightarrow>
                      (let axis = fst (spawn_split_for_rect rect split_width_multiplier);
                           (w', inserted) = insert_tiled_pane_around_target w pid target axis False EVEN_SPLIT_RATIO
                       in if inserted then (w', SpawnSplit target axis)
                          else (append_tiled_window w' pid, Appended)))
          })"

subsection \<open>Lemmas\<close>

lemma ids_float_placements:
  "float_placements floats float_bounds = Some placements \<Longrightarrow> map placed_id placements = map fst floats"
  by (induction floats float_bounds arbitrary: placements rule: float_placements.induct)
    (auto split: Option.bind_splits)

lemma length_strip_prefix: "length (strip_prefix g s ws) = Suc (length ws)"
  by (induction g s ws rule: strip_prefix.induct) auto

lemma length_scrollable_widths: "length (scrollable_allocated_widths panes vw g) = length panes"
  by (auto simp: scrollable_allocated_widths_def Let_def split: list.splits)

lemma ids_scrollable:
  assumes "allocate_scrollable_with_visible panes layout visible gap anchor reveal_edge = Some placements"
  shows "map placed_id placements = map fst panes"
proof (cases "panes = []")
  case False
  define usable where "usable = (if for_axis gap Horizontal < rw layout then for_axis gap Horizontal else Fin 0)"
  define widths where "widths = scrollable_allocated_widths panes (rw layout) usable"
  define prefix where "prefix = strip_prefix usable (Fin 0) widths"
  have len: "length widths = length panes" "length prefix = Suc (length panes)"
    by (simp_all add: widths_def prefix_def length_strip_prefix length_scrollable_widths)
  obtain scroll where pl: "placements = map (\<lambda>((pid, _), start, width).
        \<lparr>placed_id = pid, placed_rect = \<lparr>rx = rx layout + start - scroll, ry = ry layout, rw = width, rh = rh layout\<rparr>\<rparr>)
      (zip panes (zip prefix widths))"
    using assms False
    unfolding allocate_scrollable_with_visible_def Let_def usable_def [symmetric] widths_def [symmetric] prefix_def [symmetric]
    by auto
  have "map placed_id placements = map (fst \<circ> fst) (zip panes (zip prefix widths))"
    unfolding pl by (simp add: case_prod_beta comp_def)
  also have "\<dots> = map fst (map fst (zip panes (zip prefix widths)))" by simp
  also have "map fst (zip panes (zip prefix widths)) = panes" using len by (simp add: map_fst_zip_take)
  finally show ?thesis .
qed (use assms in \<open>simp add: allocate_scrollable_with_visible_def\<close>)

lemma ids_tile_placements:
  assumes "distinct (ts_tiled_ids ts)" "tile_placements ts bounds visible_bounds exclude_tiled top_gap gap = Some tiles"
  shows "map placed_id tiles = order_driven_ids ts exclude_tiled"
proof (cases "ts_layout_kind ts")
  case Dwindle
  then show ?thesis
    using assms leaves_effective_tile_tree [OF assms(1), of exclude_tiled]
    by (auto simp: tile_placements_def Let_def dwindle.in_order split: option.splits)
next
  case Scrollable
  then show ?thesis
    using assms(2) by (auto simp: tile_placements_def Let_def comp_def dest!: ids_scrollable split: prod.splits)
qed (use assms(2) in \<open>auto simp: tile_placements_def Let_def ids_master ids_monocle ids_grid ids_strips allocate_columns_def allocate_rows_def\<close>)

lemma in_insert_refused:
  "insert_tiled_pane_around_target w pid target axis mf ratio = (w', False) \<Longrightarrow> w' = w"
  by (auto simp: insert_tiled_pane_around_target_def split: if_splits option.splits)

lemma leaves_inserted_around:
  assumes "wf_workspace w" "insert_tiled_pane_around_target w pid target axis mf ratio = (w', True)"
  shows "opt_leaves (tile_tree w') = concat (map (beside mf target pid) (order_driven_ids (workspace_source w) (Some pid))) \<and>
    target \<in> set (order_driven_ids (workspace_source w) (Some pid)) \<and> w_panes w' = w_panes w"
proof -
  obtain tree inserted where tree: "effective_tile_tree (workspace_source w) (Some pid) = Some tree"
    and ins: "insert_leaf_around_target tree target pid axis mf ratio = Some inserted"
    and w': "w' = forget_hints (w\<lparr>tile_tree := Some inserted\<rparr>)"
    using assms(2) by (auto simp: insert_tiled_pane_around_target_def split: if_splits option.splits)
  have order: "leaves tree = order_driven_ids (workspace_source w) (Some pid)"
    using live.effective_leaves [OF assms(1), of "Some pid"] tree by simp
  have dist: "distinct (leaves tree)" using live.distinct_effective [OF assms(1), of "Some pid"] tree by simp
  have target: "target \<in> set (leaves tree)" using ins insert_None by (metis option.distinct(1))
  show ?thesis using leaves_insert [OF dist target, of pid axis mf ratio] ins target by (simp add: w' order)
qed

subsection \<open>Properties\<close>

text \<open>
  Whatever the layout kind, the placements name every tiled pane that is not excluded exactly
  once, in tree order, and then the floating panes in pane order.
\<close>

theorem placements_complete:
  assumes "wf_workspace w"
    and "workspace_target_rects_excluding_with_visible w bounds visible exclude top_gap gap = Some placements"
  shows "map placed_id placements = order_driven_ids (workspace_source w) exclude @
      map p_id (filter (\<lambda>p. p_floating p \<and> \<not> closing p) (w_panes w)) \<and> distinct (map placed_id placements)"
proof -
  let ?ts = "workspace_source w"
  obtain tiles floats where tiles: "tile_placements ?ts bounds visible exclude top_gap gap = Some tiles"
    and floats: "float_placements (ts_floating ?ts) bounds = Some floats" and pl: "placements = tiles @ floats"
    using assms(2) by (auto simp: workspace_target_rects_excluding_with_visible_def target_rects_for_def split: Option.bind_splits)
  have t: "map placed_id tiles = order_driven_ids ?ts exclude"
    using ids_tile_placements [OF live.tiled_distinct [OF assms(1)] tiles] .
  have f: "map placed_id floats = map p_id (filter (\<lambda>p. p_floating p \<and> \<not> closing p) (w_panes w))"
    using ids_float_placements [OF floats] by (simp add: workspace_source_def comp_def)
  have "distinct (order_driven_ids ?ts exclude)"
    using live.distinct_ordered [OF assms(1)] by (simp add: order_driven_ids_def)
  moreover have "distinct (map p_id (filter (\<lambda>p. p_floating p \<and> \<not> closing p) (w_panes w)))"
    using assms(1) by (auto simp: wf_workspace_def distinct_map intro: inj_on_subset)
  moreover have "set (order_driven_ids ?ts exclude) \<subseteq> {p_id p | p. p \<in> set (w_panes w) \<and> \<not> p_floating p \<and> \<not> closing p}"
    using live.set_ordered [OF assms(1)] tiled_ids_live [of w] by (auto simp: order_driven_ids_def)
  moreover have "inj_on p_id (set (w_panes w))" using assms(1) by (simp add: wf_workspace_def distinct_map)
  ultimately show ?thesis
    unfolding pl map_append t f by (auto simp: inj_on_def)
qed

definition two_tiles_one_float :: workspace where
  "two_tiles_one_float = (new_workspace 0)\<lparr>w_panes :=
     [new_pane 1 (cell_rect 0 0 8 8), (new_pane 2 (cell_rect 2 2 30 10))\<lparr>p_floating := True\<rparr>, new_pane 3 (cell_rect 0 0 8 8)]\<rparr>"

theorem placements_complete_witness:
  "\<exists>placements. workspace_target_rects_excluding_with_visible two_tiles_one_float (cell_rect 0 0 80 24) None (Some 1) (Fin 0) DEFAULT_GAP
      = Some placements \<and> map placed_id placements = [3, 2]"
proof -
  let ?w = two_tiles_one_float
  have wf: "wf_workspace ?w"
    by (simp add: wf_workspace_def two_tiles_one_float_def new_workspace_def new_pane_def)
  have "workspace_target_rects_excluding_with_visible ?w (cell_rect 0 0 80 24) None (Some 1) (Fin 0) DEFAULT_GAP \<noteq> None"
    by code_simp
  then obtain placements where pl:
    "workspace_target_rects_excluding_with_visible ?w (cell_rect 0 0 80 24) None (Some 1) (Fin 0) DEFAULT_GAP = Some placements"
    by blast
  show ?thesis
    using placements_complete [OF wf pl] pl
    by (simp add: order_driven_ids_def ordered_tiled_ids_def workspace_source_def active_tiled_ids_by_pane_order_def
        two_tiles_one_float_def new_workspace_def new_pane_def)
qed

text \<open>
  A spawned pane that splits the focused tile comes directly after it in the tiling and takes no
  other pane's place, and this happens under the Dwindle layout only; otherwise it is appended,
  unless the stored tree already names it.
\<close>

theorem spawned_pane_order:
  assumes "wf_workspace w"
    and "place_spawned_pane w pid previous_focused bounds top_gap gap multiplier = Some (w', placement)"
  shows "w_panes w' = w_panes w \<and>
    (case placement of
       SpawnSplit target axis \<Rightarrow>
         previous_focused = Some target \<and> target \<noteq> pid \<and> w_layout_kind w = Dwindle \<and>
         opt_leaves (tile_tree w') =
           concat (map (\<lambda>q. if q = target then [q, pid] else [q]) (order_driven_ids (workspace_source w) (Some pid))) \<and>
         target \<in> set (opt_leaves (tile_tree w'))
     | Appended \<Rightarrow>
         opt_leaves (tile_tree w') = opt_leaves (tile_tree w) @ (if pid \<in> set (opt_leaves (tile_tree w)) then [] else [pid]))"
proof -
  have appended: "w_panes (append_tiled_window w pid) = w_panes w \<and> opt_leaves (tile_tree (append_tiled_window w pid)) =
      opt_leaves (tile_tree w) @ (if pid \<in> set (opt_leaves (tile_tree w)) then [] else [pid])"
    by (cases "tile_tree w") (auto simp: append_tiled_window_def)
  show ?thesis
  proof (cases "placement")
    case Appended
    then have "w' = append_tiled_window w pid"
      using assms(2) by (auto simp: place_spawned_pane_def Let_def dest: in_insert_refused
          split: if_splits option.splits Option.bind_splits prod.splits)
    then show ?thesis using appended Appended by simp
  next
    case (SpawnSplit target axis)
    then have prev: "previous_focused = Some target" "target \<noteq> pid"
      and ins: "insert_tiled_pane_around_target w pid target axis False EVEN_SPLIT_RATIO = (w', True)"
      and kind: "w_layout_kind w \<notin> {Master, Grid, Columns, Rows, Scrollable, Monocle}"
      using assms(2) by (auto simp: place_spawned_pane_def Let_def
          split: if_splits option.splits Option.bind_splits prod.splits)
    have "beside False target pid = (\<lambda>q. if q = target then [q, pid] else [q])" by (auto simp: beside_def)
    moreover have "w_layout_kind w = Dwindle" using kind by (cases "w_layout_kind w") simp_all
    ultimately show ?thesis using leaves_inserted_around [OF assms(1) ins] prev SpawnSplit by auto
  qed
qed

definition one_tile :: workspace where
  "one_tile = (new_workspace 0)\<lparr>w_panes := [new_pane 1 (cell_rect 0 0 8 8)]\<rparr>"

theorem spawned_pane_order_witness:
  "\<exists>w' axis. place_spawned_pane one_tile 9 (Some 1) (cell_rect 0 0 80 24) (Fin 0) DEFAULT_GAP (Fin 2) =
      Some (w', SpawnSplit 1 axis) \<and> opt_leaves (tile_tree w') = [1, 9]"
proof -
  have wf: "wf_workspace one_tile"
    by (simp add: wf_workspace_def one_tile_def new_workspace_def new_pane_def)
  have "map_option snd (place_spawned_pane one_tile 9 (Some 1) (cell_rect 0 0 80 24) (Fin 0) DEFAULT_GAP (Fin 2)) =
      Some (SpawnSplit 1 Horizontal)"
    by code_simp
  then obtain w' where w': "place_spawned_pane one_tile 9 (Some 1) (cell_rect 0 0 80 24) (Fin 0) DEFAULT_GAP (Fin 2) =
      Some (w', SpawnSplit 1 Horizontal)"
    by auto
  show ?thesis
    using spawned_pane_order [OF wf w'] w'
    by (simp add: order_driven_ids_def ordered_tiled_ids_def workspace_source_def active_tiled_ids_by_pane_order_def
        one_tile_def new_workspace_def new_pane_def)
qed

lemma inj_paint_key: "distinct (map p_id ps) \<Longrightarrow> inj_on (paint_key focused is_alerting) (set ps)"
  by (auto simp: distinct_map inj_on_def paint_key_def)

text \<open>
  The painter's order draws every pane once, live tiles below closing tiles below live floats
  below closing floats, and it depends on the panes alone, not on the order the workspace holds
  them in.
\<close>

theorem painters_order:
  assumes "distinct (map p_id (w_panes w))" "mset (w_panes w') = mset (w_panes w)"
  shows "mset (ordered_panes w focused is_alerting) = mset (w_panes w) \<and>
    sorted (map pane_z_group (ordered_panes w focused is_alerting)) \<and>
    ordered_panes w' focused is_alerting = ordered_panes w focused is_alerting"
proof -
  let ?key = "paint_key focused is_alerting"
  have "sorted (map ?key (ordered_panes w focused is_alerting))" by (simp add: ordered_panes_def)
  then have "sorted_wrt (\<lambda>x y. pane_z_group x \<le> pane_z_group y) (ordered_panes w focused is_alerting)"
    unfolding sorted_map by (rule sorted_wrt_mono_rel [rotated]) (auto simp: less_eq_prod_def paint_key_def)
  then have z: "sorted (map pane_z_group (ordered_panes w focused is_alerting))"
    by (simp only: sorted_map)
  have "sort_key ?key (w_panes w') = sort_key ?key (w_panes w)"
  proof (rule sort_key_inj_key_eq)
    show "mset (w_panes w') = mset (sort_key ?key (w_panes w))" using assms(2) by simp
    show "inj_on ?key (set (w_panes w'))"
      using inj_paint_key [OF assms(1)] mset_eq_setD [OF assms(2)] by simp
  qed simp
  then show ?thesis using z by (simp add: ordered_panes_def)
qed

theorem painters_order_witness:
  "ordered_panes (two_tiles_one_float\<lparr>w_panes := rev (w_panes two_tiles_one_float)\<rparr>) (Some 1) (\<lambda>_. False) =
   ordered_panes two_tiles_one_float (Some 1) (\<lambda>_. False)"
proof -
  have "distinct (map p_id (w_panes two_tiles_one_float))"
    by (simp add: two_tiles_one_float_def new_workspace_def new_pane_def)
  then show ?thesis
    using painters_order [where w = two_tiles_one_float and w' = "two_tiles_one_float\<lparr>w_panes := rev (w_panes two_tiles_one_float)\<rparr>"
        and focused = "Some 1" and is_alerting = "\<lambda>_. False"]
    by simp
qed

end
