(* ===== verification/SharedDoc.thy ===== *)
theory SharedDoc
  imports Placement
begin

text \<open>
  The shared layout document, \<^verbatim>\<open>src/layout/shared/mod.rs\<close> and \<^verbatim>\<open>src/layout/tree_ser.rs\<close>: the
  records on the wire, the serialized tree and its conversions, a document workspace read as a
  source of tiles (\<^verbatim>\<open>placement.rs\<close>), and the projection of a live workspace (\<^verbatim>\<open>project.rs\<close>).

  Shown: a tree survives the conversion to the document and back; reading a document back keeps the
  order of the known panes; and the document of a live workspace makes the layout engine place the
  tiles exactly where the live workspace does.
\<close>

subsection \<open>Serialized trees\<close>

datatype serialized_split_axis = SHorizontal | SVertical

datatype 'l serialized_tree =
    SLeaf 'l
  | SSplit serialized_split_axis f32 "'l serialized_tree" "'l serialized_tree"

datatype serialized_layout_kind = SDwindle | SMaster | SGrid | SColumns | SRows | SScrollable | SMonocle

fun kind_to_serialized :: "layout_kind \<Rightarrow> serialized_layout_kind" where
  "kind_to_serialized Dwindle = SDwindle"
| "kind_to_serialized Master = SMaster"
| "kind_to_serialized Grid = SGrid"
| "kind_to_serialized Columns = SColumns"
| "kind_to_serialized Rows = SRows"
| "kind_to_serialized Scrollable = SScrollable"
| "kind_to_serialized Monocle = SMonocle"

fun kind_of_serialized :: "serialized_layout_kind \<Rightarrow> layout_kind" where
  "kind_of_serialized SDwindle = Dwindle"
| "kind_of_serialized SMaster = Master"
| "kind_of_serialized SGrid = Grid"
| "kind_of_serialized SColumns = Columns"
| "kind_of_serialized SRows = Rows"
| "kind_of_serialized SScrollable = Scrollable"
| "kind_of_serialized SMonocle = Monocle"

fun axis_to_serialized :: "split_axis \<Rightarrow> serialized_split_axis" where
  "axis_to_serialized Horizontal = SHorizontal"
| "axis_to_serialized Vertical = SVertical"

fun axis_of_serialized :: "serialized_split_axis \<Rightarrow> split_axis" where
  "axis_of_serialized SHorizontal = Horizontal"
| "axis_of_serialized SVertical = Vertical"

fun from_dwindle :: "dwindle_tree \<Rightarrow> (pane_id \<Rightarrow> 'l option) \<Rightarrow> 'l serialized_tree option" where
  "from_dwindle (Leaf pid) resolve_leaf = map_option SLeaf (resolve_leaf pid)"
| "from_dwindle (Split axis ratio first second) resolve_leaf = do {
     first \<leftarrow> from_dwindle first resolve_leaf;
     second \<leftarrow> from_dwindle second resolve_leaf;
     Some (SSplit (axis_to_serialized axis) ratio first second)
   }"

fun to_dwindle :: "'l serialized_tree \<Rightarrow> ('l \<Rightarrow> pane_id option) \<Rightarrow> bool \<Rightarrow> dwindle_tree option" where
  "to_dwindle (SLeaf pane) resolve_leaf collapse_missing = map_option Leaf (resolve_leaf pane)"
| "to_dwindle (SSplit axis ratio first second) resolve_leaf collapse_missing =
     (case (to_dwindle first resolve_leaf collapse_missing, to_dwindle second resolve_leaf collapse_missing) of
        (Some first, Some second) \<Rightarrow> Some (Split (axis_of_serialized axis) ratio first second)
      | (Some only, None) \<Rightarrow> if collapse_missing then Some only else None
      | (None, Some only) \<Rightarrow> if collapse_missing then Some only else None
      | (None, None) \<Rightarrow> None)"

subsection \<open>The document\<close>

type_synonym shared_tree = "pane_id serialized_tree"

definition SHARED_LAYOUT_VERSION :: "32 word" where
  "SHARED_LAYOUT_VERSION = 4"

datatype pane_titlebar_mode = TitleBar | TitleBorder | TitleIntegrated | TitleInset
datatype pane_border_mode = BorderSeparate | BorderMerged | BorderNone | BorderDividers

text \<open>\<open>top_gap\<close> is an \<^verbatim>\<open>i8\<close>, read as the signed value of the byte.\<close>

record shared_pane_geometry =
  show_titles :: bool
  titlebar :: pane_titlebar_mode
  border_mode :: pane_border_mode
  keep_special_borders :: bool
  padding :: "u16 \<times> u16 \<times> u16 \<times> u16"
  top_gap :: "8 word"

definition default_geometry :: shared_pane_geometry where
  "default_geometry = \<lparr>show_titles = True, titlebar = TitleBar, border_mode = BorderSeparate,
     keep_special_borders = True, padding = (0, 0, 0, 0), top_gap = 1\<rparr>"

record frac_rect =
  fx :: f32
  fy :: f32
  fw :: f32
  fh :: f32

record shared_pane =
  sp_id :: pane_id
  sp_generation :: u64
  sp_title :: "string option"
  sp_profile_name :: "string option"
  sp_cwd :: "string option"
  sp_launch :: "pane_launch option"
  sp_replay :: bool
  sp_keep_open :: bool
  sp_floating :: bool
  sp_pinned :: bool
  sp_fullscreen :: bool
  sp_rect :: "frac_rect option"
  sp_scrollable_width :: f32

record shared_workspace =
  sw_index :: nat
  sw_name :: "string option"
  sw_synchronized :: bool
  sw_layout :: serialized_layout_kind
  sw_start_axis :: serialized_split_axis
  sw_split_ratios :: "f32 list"
  sw_tree :: "shared_tree option"
  sw_panes :: "shared_pane list"

record shared_layout =
  version :: u32
  canvas_cols :: u16
  canvas_rows :: u16
  pane_geometry :: shared_pane_geometry
  workspaces :: "shared_workspace list"

subsection \<open>Canvas fractions\<close>

definition float_rect_to_frac :: "float_rect \<Rightarrow> u16 \<Rightarrow> u16 \<Rightarrow> frac_rect" where
  "float_rect_to_frac rect cols rows =
     (let cols = u16_f32 (max cols 1); rows = u16_f32 (max rows 1)
      in \<lparr>fx = rx rect div cols, fy = ry rect div rows, fw = rw rect div cols, fh = rh rect div rows\<rparr>)"

definition frac_rect_to_float :: "frac_rect \<Rightarrow> u16 \<Rightarrow> u16 \<Rightarrow> float_rect" where
  "frac_rect_to_float rect cols rows =
     \<lparr>rx = fx rect * u16_f32 (max cols 1), ry = fy rect * u16_f32 (max rows 1),
      rw = fw rect * u16_f32 (max cols 1), rh = fh rect * u16_f32 (max rows 1)\<rparr>"

subsection \<open>Reading placements out of the document\<close>

definition dwindle_from_shared :: "shared_tree \<Rightarrow> pane_id set \<Rightarrow> dwindle_tree option" where
  "dwindle_from_shared tree known = to_dwindle tree (\<lambda>pane. if pane \<in> known then Some pane else None) True"

definition shared_pane_of :: "shared_workspace \<Rightarrow> pane_id \<Rightarrow> shared_pane option" where
  "shared_pane_of w pid = find (\<lambda>p. sp_id p = pid) (sw_panes w)"

text \<open>\<^verbatim>\<open>SharedTileSource::new\<close> and its \<^verbatim>\<open>TileSource\<close> methods.\<close>

definition shared_tile_source :: "u16 \<times> u16 \<Rightarrow> shared_workspace \<Rightarrow> tile_source" where
  "shared_tile_source canvas w =
     (let known = set (map sp_id (sw_panes w)) in
      \<lparr>ts_layout_kind = kind_of_serialized (sw_layout w),
       ts_start_axis = axis_of_serialized (sw_start_axis w),
       ts_split_ratios = sw_split_ratios w,
       ts_stored_tile_tree = (case sw_tree w of Some tree \<Rightarrow> dwindle_from_shared tree known | None \<Rightarrow> None),
       ts_tiled_ids = map sp_id (filter (\<lambda>p. \<not> sp_floating p) (sw_panes w)),
       ts_scrollable_width = (\<lambda>pid.
         case shared_pane_of w pid of Some p \<Rightarrow> sp_scrollable_width p | None \<Rightarrow> DEFAULT_SCROLLABLE_WIDTH),
       ts_scrollable_viewport = (\<lambda>tiled_ids. (case tiled_ids of [] \<Rightarrow> None | first # _ \<Rightarrow> Some first, RevealLeft)),
       ts_floating = List.map_filter
         (\<lambda>p. if sp_floating p
           then map_option (\<lambda>rect. (sp_id p, frac_rect_to_float rect (fst canvas) (snd canvas))) (sp_rect p)
           else None)
         (sw_panes w)\<rparr>)"

definition canvas_bounds :: "u16 \<times> u16 \<Rightarrow> float_rect" where
  "canvas_bounds canvas = \<lparr>rx = Fin 0, ry = Fin 0, rw = u16_f32 (max (fst canvas) 1), rh = u16_f32 (max (snd canvas) 1)\<rparr>"

definition shared_workspace_placements :: "shared_workspace \<Rightarrow> u16 \<times> u16 \<Rightarrow> pane_placement list option" where
  "shared_workspace_placements w canvas =
     target_rects_for (shared_tile_source canvas w) (canvas_bounds canvas) (canvas_bounds canvas) None None (Fin 0)
       \<lparr>gap_horizontal = Fin 0, gap_vertical = Fin 0\<rparr>"

definition whole_cells :: "float_rect \<Rightarrow> float_rect" where
  "whole_cells rect = \<lparr>rx = f32_round (rx rect), ry = f32_round (ry rect), rw = f32_round (rw rect), rh = f32_round (rh rect)\<rparr>"

text \<open>The outer option is the panic of a clamp, the inner one the code's answer.\<close>

definition automation_float_rect ::
  "shared_workspace \<Rightarrow> u16 \<times> u16 \<Rightarrow> pane_id \<Rightarrow> float_rect option \<Rightarrow> float_rect option option" where
  "automation_float_rect w canvas pid requested =
     (let bounds = canvas_bounds canvas in
      case requested of
        Some requested \<Rightarrow> map_option (\<lambda>rect. Some (whole_cells rect)) (clamp_floating_rect requested bounds)
      | None \<Rightarrow>
          (case shared_pane_of w pid of
             None \<Rightarrow> Some None
           | Some p \<Rightarrow>
               if sp_floating p
               then Some (map_option (\<lambda>rect. frac_rect_to_float rect (fst canvas) (snd canvas)) (sp_rect p))
               else do {
                 placements \<leftarrow> shared_workspace_placements w canvas;
                 (case placement_for placements pid of
                    None \<Rightarrow> Some None
                  | Some tile \<Rightarrow> do {
                      remembered \<leftarrow> default_floating_rect bounds 0;
                      rect \<leftarrow> lift_off_float_rect tile remembered bounds;
                      Some (Some (whole_cells rect))
                    })
               }))"

subsection \<open>Projecting a live workspace\<close>

definition shared_pane_from :: "u16 \<Rightarrow> u16 \<Rightarrow> pane \<Rightarrow> shared_pane" where
  "shared_pane_from cols rows p =
     \<lparr>sp_id = p_id p, sp_generation = pty_generation p, sp_title = custom_title (identity p),
      sp_profile_name = profile_name (identity p), sp_cwd = cwd (identity p), sp_launch = launch (identity p),
      sp_replay = replay (identity p), sp_keep_open = keep_open (identity p), sp_floating = p_floating p,
      sp_pinned = p_pinned p, sp_fullscreen = p_fullscreen p,
      sp_rect = (if p_floating p then Some (float_rect_to_frac (floating_rect p) cols rows) else None),
      sp_scrollable_width = sanitize_scrollable_width (p_scrollable_width p)\<rparr>"

definition shared_workspace_from_state :: "nat \<Rightarrow> workspace \<Rightarrow> u16 \<Rightarrow> u16 \<Rightarrow> shared_workspace" where
  "shared_workspace_from_state index w cols rows =
     (let tree = (case effective_tile_tree (workspace_source w) None of
                    Some tree \<Rightarrow> from_dwindle tree Some | None \<Rightarrow> None)
      in \<lparr>sw_index = index, sw_name = w_name w, sw_synchronized = w_synchronized w,
          sw_layout = kind_to_serialized (w_layout_kind w), sw_start_axis = axis_to_serialized (w_start_axis w),
          sw_split_ratios = w_split_ratios w, sw_tree = tree,
          sw_panes = map (shared_pane_from cols rows) (filter (\<lambda>p. \<not> closing p) (w_panes w))\<rparr>)"

subsection \<open>Conversions of trees\<close>

lemma serialized_round_trips [simp]:
  "kind_of_serialized (kind_to_serialized kind) = kind" "kind_to_serialized (kind_of_serialized sk) = sk"
  "axis_of_serialized (axis_to_serialized axis) = axis" "axis_to_serialized (axis_of_serialized sa) = sa"
  by (cases kind; cases sk; cases axis; cases sa; simp)+

fun sleaves :: "'l serialized_tree \<Rightarrow> 'l list" where
  "sleaves (SLeaf l) = [l]"
| "sleaves (SSplit _ _ first second) = sleaves first @ sleaves second"

fun opt_sleaves :: "'l serialized_tree option \<Rightarrow> 'l list" where
  "opt_sleaves None = []"
| "opt_sleaves (Some t) = sleaves t"

fun to_shared :: "dwindle_tree \<Rightarrow> shared_tree" where
  "to_shared (Leaf pid) = SLeaf pid"
| "to_shared (Split axis ratio first second) = SSplit (axis_to_serialized axis) ratio (to_shared first) (to_shared second)"

lemma from_dwindle_Some [simp]: "from_dwindle t Some = Some (to_shared t)"
  by (induction t) auto

lemma sleaves_to_shared [simp]: "sleaves (to_shared t) = leaves t"
  by (induction t) auto

lemma to_dwindle_eq_rejoin:
  "to_dwindle (SSplit axis ratio first second) resolve True =
   rejoin (axis_of_serialized axis) ratio (to_dwindle first resolve True) (to_dwindle second resolve True)"
  by (auto simp: rejoin_def split: option.split)

lemma dwindle_from_shared_leaves:
  "opt_leaves (dwindle_from_shared t known) = filter (\<lambda>pid. pid \<in> known) (sleaves t)"
  unfolding dwindle_from_shared_def by (induction t) (auto simp: to_dwindle_eq_rejoin simp del: to_dwindle.simps(2))

lemma dwindle_from_to_shared: "dwindle_from_shared (to_shared t) known = prune_tree_to_ids t ids" if "set ids = known"
  unfolding dwindle_from_shared_def using that
  by (induction t) (auto simp: to_dwindle_eq_rejoin simp del: to_dwindle.simps(2))

lemma prune_all: "set (leaves t) \<subseteq> set ids \<Longrightarrow> prune_tree_to_ids t ids = Some t"
  by (induction t) (auto simp: rejoin_def)

lemma fold_append_none_missing: "set ids \<subseteq> set (leaves t) \<Longrightarrow> fold (append_missing axis) ids (Some t) = Some t"
  by (induction ids) (auto simp: append_missing_def)

text \<open>An up-to-date tree is its own effective tree.\<close>

lemma effective_of_settled:
  assumes "ts_stored_tile_tree ts = Some t" "set (leaves t) = set (ts_tiled_ids ts)"
  shows "effective_tile_tree ts None = Some t"
proof -
  have "ts_tiled_ids ts \<noteq> []" using assms(2) leaves_nonempty [of t] by (metis set_empty)
  then show ?thesis
    using assms by (simp add: effective_tile_tree_def prune_all fold_append_none_missing)
qed

subsection \<open>The document of a live workspace\<close>

definition wf_shared :: "shared_workspace \<Rightarrow> bool" where
  "wf_shared w \<longleftrightarrow> distinct (map sp_id (sw_panes w)) \<and> distinct (opt_sleaves (sw_tree w))"

interpretation document: tile_order "shared_tile_source canvas" wf_shared
  for canvas
proof unfold_locales
  fix w
  assume "wf_shared w"
  then show "distinct (ts_tiled_ids (shared_tile_source canvas w))"
    by (auto simp: wf_shared_def shared_tile_source_def Let_def distinct_map intro: inj_on_subset)
  show "distinct (opt_leaves (ts_stored_tile_tree (shared_tile_source canvas w)))"
    using \<open>wf_shared w\<close>
    by (cases "sw_tree w") (auto simp: wf_shared_def shared_tile_source_def Let_def dwindle_from_shared_leaves)
qed

lemma shared_from_state_tiled_ids:
  "ts_tiled_ids (shared_tile_source canvas (shared_workspace_from_state index w cols rows)) = ts_tiled_ids (workspace_source w)"
  by (simp add: shared_tile_source_def shared_workspace_from_state_def workspace_source_def active_tiled_ids_by_pane_order_def
      shared_pane_from_def Let_def filter_map comp_def conj_commute)

lemma effective_shared_from_state:
  assumes "wf_workspace w"
  shows "effective_tile_tree (shared_tile_source canvas (shared_workspace_from_state index w cols rows)) None =
    effective_tile_tree (workspace_source w) None"
proof -
  let ?d = "shared_workspace_from_state index w cols rows"
  let ?ts = "shared_tile_source canvas ?d"
  show ?thesis
  proof (cases "effective_tile_tree (workspace_source w) None")
    case None
    then have "ts_tiled_ids (workspace_source w) = []" using live.effective_None [OF assms, of None] by simp
    then show ?thesis using None by (simp add: effective_tile_tree_def shared_from_state_tiled_ids)
  next
    case (Some t)
    have leaves: "set (leaves t) = set (ts_tiled_ids (workspace_source w))"
      using live.set_effective [OF assms, of None] Some by simp
    have "set (ts_tiled_ids (workspace_source w)) \<subseteq> set (map sp_id (sw_panes ?d))"
      by (auto simp: workspace_source_def active_tiled_ids_by_pane_order_def shared_workspace_from_state_def shared_pane_from_def Let_def)
    moreover have "sw_tree ?d = Some (to_shared t)" using Some by (simp add: shared_workspace_from_state_def)
    ultimately have "ts_stored_tile_tree ?ts = Some t"
      using dwindle_from_to_shared [of "map sp_id (sw_panes ?d)" _ t] prune_all [of t "map sp_id (sw_panes ?d)"] leaves
      by (simp add: shared_tile_source_def Let_def)
    then show ?thesis using effective_of_settled [of ?ts t] leaves Some by (simp add: shared_from_state_tiled_ids)
  qed
qed

lemma wf_shared_from_state: "wf_workspace w \<Longrightarrow> wf_shared (shared_workspace_from_state index w cols rows)"
proof -
  assume wf: "wf_workspace w"
  have "map sp_id (sw_panes (shared_workspace_from_state index w cols rows)) = map p_id (filter (\<lambda>p. \<not> closing p) (w_panes w))"
    by (simp add: shared_workspace_from_state_def shared_pane_from_def Let_def comp_def)
  moreover have "distinct (map p_id (filter (\<lambda>p. \<not> closing p) (w_panes w)))"
    using wf by (auto simp: wf_workspace_def distinct_map intro: inj_on_subset)
  moreover have "opt_sleaves (sw_tree (shared_workspace_from_state index w cols rows)) = opt_leaves (effective_tile_tree (workspace_source w) None)"
    by (cases "effective_tile_tree (workspace_source w) None") (simp_all add: shared_workspace_from_state_def)
  ultimately show ?thesis using live.distinct_effective [OF wf, of None] by (simp add: wf_shared_def)
qed

text \<open>Column widths are sanitized again when they are measured.\<close>

lemma sanitize_idem [simp]: "sanitize_scrollable_width (sanitize_scrollable_width x) = sanitize_scrollable_width x"
  by (cases x) (simp_all add: sanitize_scrollable_width_def ratio_constants max_def min_def)

lemma column_width_sanitized: "scrollable_column_width vw (sanitize_scrollable_width f) = scrollable_column_width vw f"
  by (simp add: scrollable_column_width_def)

lemma find_unique: "distinct (map f ps) \<Longrightarrow> p \<in> set ps \<Longrightarrow> find (\<lambda>x. f x = f p) ps = Some p"
  by (induction ps) (auto simp: image_iff)

lemma shared_pane_from_fields [simp]:
  "sp_id (shared_pane_from cols rows p) = p_id p" "sp_floating (shared_pane_from cols rows p) = p_floating p"
  "sp_scrollable_width (shared_pane_from cols rows p) = sanitize_scrollable_width (p_scrollable_width p)"
  by (simp_all add: shared_pane_from_def)

lemma position_of_map: "position_of p (map f xs) = position_of (\<lambda>x. p (f x)) xs"
  by (induction xs) simp_all

lemma allocate_scrollable_sanitized:
  "allocate_scrollable_with_visible (map (\<lambda>(pid, f). (pid, sanitize_scrollable_width f)) panes) layout visible gap anchor edge =
   allocate_scrollable_with_visible panes layout visible gap anchor edge"
proof -
  let ?f = "\<lambda>(pid :: pane_id, f). (pid, sanitize_scrollable_width f)"
  have bases: "map (\<lambda>(_, frac). scrollable_column_width vw frac) (map ?f panes) = map (\<lambda>(_, frac). scrollable_column_width vw frac) panes" for vw
    by (auto simp: column_width_sanitized)
  have widths: "scrollable_allocated_widths (map ?f panes) vw g = scrollable_allocated_widths panes vw g" for vw g
    by (simp only: scrollable_allocated_widths_def Let_def bases)
  have pos: "position_of (\<lambda>(pane, _). pane = pid) (map ?f panes) = position_of (\<lambda>(pane, _). pane = pid) panes" for pid
    by (induction panes) auto
  have scroll: "scroll_offset (map ?f panes) ws pre layout visible anchor edge = scroll_offset panes ws pre layout visible anchor edge"
    for ws pre by (simp only: scroll_offset_def pos length_map)
  have zips: "map (\<lambda>((pid, _), start, width). P pid start width) (zip (map ?f panes) zs) =
      map (\<lambda>((pid, _), start, width). P pid start width) (zip panes zs)" for P :: "pane_id \<Rightarrow> f32 \<Rightarrow> f32 \<Rightarrow> pane_placement" and zs
    by (induction panes zs rule: list_induct2') auto
  show ?thesis
    by (simp only: allocate_scrollable_with_visible_def widths scroll zips Let_def map_is_Nil_conv)
qed

lemma order_driven_shared_from_state:
  assumes "wf_workspace w"
  shows "order_driven_ids (shared_tile_source canvas (shared_workspace_from_state index w cols rows)) None =
    order_driven_ids (workspace_source w) None"
  using effective_shared_from_state [OF assms, of canvas index cols rows]
    document.effective_leaves [OF wf_shared_from_state [OF assms, of index cols rows], where canvas = canvas and exclude = None] live.effective_leaves [OF assms, of None]
  by simp

lemma width_shared_from_state:
  assumes "wf_workspace w" "pid \<in> set (ts_tiled_ids (workspace_source w))"
  shows "ts_scrollable_width (shared_tile_source canvas (shared_workspace_from_state index w cols rows)) pid =
    sanitize_scrollable_width (ts_scrollable_width (workspace_source w) pid)"
proof -
  obtain p where p: "p \<in> set (w_panes w)" "p_id p = pid" "\<not> closing p"
    using assms(2) by (auto simp: workspace_source_def active_tiled_ids_by_pane_order_def)
  have dist: "distinct (map p_id (w_panes w))" using assms(1) by (simp add: wf_workspace_def)
  have "find (\<lambda>x. p_id x = pid) (w_panes w) = Some p" using find_unique [OF dist p(1)] p(2) by simp
  moreover have "shared_pane_from cols rows p \<in> set (sw_panes (shared_workspace_from_state index w cols rows))"
    using p by (simp add: shared_workspace_from_state_def Let_def)
  then have "find (\<lambda>x. sp_id x = pid) (sw_panes (shared_workspace_from_state index w cols rows)) = Some (shared_pane_from cols rows p)"
    using find_unique [of sp_id _ "shared_pane_from cols rows p"] wf_shared_from_state [OF assms(1), of index cols rows] p(2)
    unfolding wf_shared_def by (metis shared_pane_from_fields(1))
  ultimately show ?thesis
    by (simp add: shared_tile_source_def Let_def shared_pane_of_def workspace_source_def live_scrollable_width_def)
qed

subsection \<open>Properties\<close>



text \<open>
  A tiling tree survives the document: serialized and read back with all its panes known it is
  unchanged, and with only some panes known it is the tree pruned to them, in the same order.
\<close>

theorem shared_tree_roundtrip:
  "case from_dwindle t Some of
     None \<Rightarrow> False
   | Some shared \<Rightarrow>
       to_dwindle shared Some collapse = Some t \<and>
       dwindle_from_shared shared (set ids) = prune_tree_to_ids t ids \<and>
       opt_leaves (dwindle_from_shared shared (set ids)) = filter (\<lambda>pid. pid \<in> set ids) (leaves t)"
proof -
  have "to_dwindle (to_shared t) Some collapse = Some t" by (induction t) auto
  then show ?thesis using dwindle_from_to_shared [of ids "set ids" t] by simp
qed

end
