(* ===== verification/SharedValidate.thy ===== *)
theory SharedValidate
  imports SharedDoc
begin

text \<open>
  Validation of a shared layout document, \<^verbatim>\<open>src/layout/shared/validate.rs\<close>. The checks run in the
  order of the code, so that the first violation is the one reported; the sets of panes and leaves
  seen so far are threaded through the loops.

  Shown: a document passes exactly when it satisfies the declarative invariants, and a reported error
  names a real violation.
\<close>

datatype shared_layout_validation_error =
    UnsupportedVersion u32
  | ZeroCanvasDimensions
  | InvalidPaneGeometry
  | DuplicateWorkspaceIndex nat
  | InvalidWorkspaceIndex nat
  | ReservedPaneId pane_id
  | DuplicatePaneId pane_id
  | TreeLeafNotInWorkspace nat pane_id
  | DuplicateTreeLeaf nat pane_id
  | InvalidSplitRatio nat
  | InvalidTreeSplitRatio nat
  | MissingFloatingRect pane_id
  | InvalidPin pane_id
  | InvalidFloatingRect pane_id string
  | InvalidScrollableWidth pane_id
  | InvalidGeneration pane_id u64

definition bad_ratio :: "f32 \<Rightarrow> bool" where
  "bad_ratio r \<longleftrightarrow> \<not> is_finite r \<or> r \<le> Fin 0 \<or> Fin 1 \<le> r"

fun validate_shared_tree ::
  "shared_tree \<Rightarrow> nat \<Rightarrow> pane_id set \<Rightarrow> pane_id set \<Rightarrow> shared_layout_validation_error + pane_id set" where
  "validate_shared_tree (SLeaf pane) workspace_idx workspace_panes seen =
     (if pane \<notin> workspace_panes then Inl (TreeLeafNotInWorkspace workspace_idx pane)
      else if pane \<in> seen then Inl (DuplicateTreeLeaf workspace_idx pane)
      else Inr (insert pane seen))"
| "validate_shared_tree (SSplit _ ratio first second) workspace_idx workspace_panes seen =
     (if bad_ratio ratio then Inl (InvalidTreeSplitRatio workspace_idx)
      else case validate_shared_tree first workspace_idx workspace_panes seen of
        Inl e \<Rightarrow> Inl e
      | Inr seen \<Rightarrow> validate_shared_tree second workspace_idx workspace_panes seen)"

text \<open>One pass of the pane loop after the identity checks.\<close>

definition validate_pane_fields :: "shared_pane \<Rightarrow> shared_layout_validation_error option" where
  "validate_pane_fields p =
     (if sp_generation p = 0 then Some (InvalidGeneration (sp_id p) (sp_generation p))
      else if \<not> is_finite (sp_scrollable_width p) \<or> sp_scrollable_width p \<le> Fin 0 then Some (InvalidScrollableWidth (sp_id p))
      else
        let pin = (if sp_pinned p \<and> (\<not> sp_floating p \<or> sp_fullscreen p) then Some (InvalidPin (sp_id p)) else None)
        in if sp_floating p then
          (case sp_rect p of
             None \<Rightarrow> Some (MissingFloatingRect (sp_id p))
           | Some rect \<Rightarrow>
               if \<not> is_finite (fx rect) \<or> \<not> is_finite (fy rect) \<or> \<not> is_finite (fw rect) \<or> \<not> is_finite (fh rect)
               then Some (InvalidFloatingRect (sp_id p) ''coordinates must be finite'')
               else if fw rect \<le> Fin 0 \<or> fh rect \<le> Fin 0
               then Some (InvalidFloatingRect (sp_id p) ''dimensions must be positive'')
               else pin)
        else if sp_rect p \<noteq> None
        then Some (InvalidFloatingRect (sp_id p) ''non-floating pane must not carry a floating rect'')
        else pin)"

fun validate_panes ::
  "shared_pane list \<Rightarrow> pane_id set \<Rightarrow> pane_id set \<Rightarrow> shared_layout_validation_error + pane_id set \<times> pane_id set" where
  "validate_panes [] seen_panes ws_pane_ids = Inr (seen_panes, ws_pane_ids)"
| "validate_panes (p # ps) seen_panes ws_pane_ids =
     (if sp_id p = POPUP_PANE_ID then Inl (ReservedPaneId (sp_id p))
      else if sp_id p \<in> seen_panes then Inl (DuplicatePaneId (sp_id p))
      else case validate_pane_fields p of
        Some e \<Rightarrow> Inl e
      | None \<Rightarrow> validate_panes ps (insert (sp_id p) seen_panes) (insert (sp_id p) ws_pane_ids))"

fun validate_workspaces ::
  "shared_workspace list \<Rightarrow> nat set \<Rightarrow> pane_id set \<Rightarrow> shared_layout_validation_error + unit" where
  "validate_workspaces [] seen_workspaces seen_panes = Inr ()"
| "validate_workspaces (w # ws) seen_workspaces seen_panes =
     (if WORKSPACE_COUNT \<le> sw_index w then Inl (InvalidWorkspaceIndex (sw_index w))
      else if sw_index w \<in> seen_workspaces then Inl (DuplicateWorkspaceIndex (sw_index w))
      else case validate_panes (sw_panes w) seen_panes {} of
        Inl e \<Rightarrow> Inl e
      | Inr (seen_panes, ws_pane_ids) \<Rightarrow>
          if list_ex bad_ratio (sw_split_ratios w) then Inl (InvalidSplitRatio (sw_index w))
          else
            (case (case sw_tree w of
                     Some tree \<Rightarrow> validate_shared_tree tree (sw_index w) ws_pane_ids {}
                   | None \<Rightarrow> Inr {}) of
               Inl e \<Rightarrow> Inl e
             | Inr _ \<Rightarrow> validate_workspaces ws (insert (sw_index w) seen_workspaces) seen_panes))"

definition validate :: "shared_layout \<Rightarrow> shared_layout_validation_error + unit" where
  "validate l =
     (if version l \<noteq> SHARED_LAYOUT_VERSION then Inl (UnsupportedVersion (version l))
      else if canvas_cols l = 0 \<or> canvas_rows l = 0 then Inl ZeroCanvasDimensions
      else
        let (a, b, c, d) = padding (pane_geometry l);
            gap = sint (top_gap (pane_geometry l))
        in if list_ex (\<lambda>side. 8 < side) [a, b, c, d] \<or> \<not> (- 1 \<le> gap \<and> gap \<le> 1) then Inl InvalidPaneGeometry
           else validate_workspaces (workspaces l) {} {})"

subsection \<open>The invariants a document has to satisfy\<close>

definition good_ratio :: "f32 \<Rightarrow> bool" where
  "good_ratio r \<longleftrightarrow> (\<exists>q. r = Fin q \<and> 0 < q \<and> q < 1)"

definition positive :: "f32 \<Rightarrow> bool" where
  "positive r \<longleftrightarrow> (\<exists>q. r = Fin q \<and> 0 < q)"

fun tree_ratios :: "'l serialized_tree \<Rightarrow> f32 list" where
  "tree_ratios (SLeaf _) = []"
| "tree_ratios (SSplit _ r first second) = r # tree_ratios first @ tree_ratios second"

definition rect_ok :: "frac_rect \<Rightarrow> bool" where
  "rect_ok rect \<longleftrightarrow> is_finite (fx rect) \<and> is_finite (fy rect) \<and> positive (fw rect) \<and> positive (fh rect)"

definition valid_pane :: "shared_pane \<Rightarrow> bool" where
  "valid_pane p \<longleftrightarrow>
     sp_id p \<noteq> POPUP_PANE_ID \<and> sp_generation p \<noteq> 0 \<and> positive (sp_scrollable_width p) \<and>
     (sp_floating p \<longleftrightarrow> sp_rect p \<noteq> None) \<and> (\<forall>rect. sp_rect p = Some rect \<longrightarrow> rect_ok rect) \<and>
     (sp_pinned p \<longrightarrow> sp_floating p \<and> \<not> sp_fullscreen p)"

definition valid_tree :: "shared_tree \<Rightarrow> pane_id set \<Rightarrow> bool" where
  "valid_tree t ids \<longleftrightarrow> distinct (sleaves t) \<and> set (sleaves t) \<subseteq> ids \<and> (\<forall>r \<in> set (tree_ratios t). good_ratio r)"

definition valid_workspace :: "shared_workspace \<Rightarrow> bool" where
  "valid_workspace w \<longleftrightarrow>
     sw_index w < WORKSPACE_COUNT \<and> (\<forall>p \<in> set (sw_panes w). valid_pane p) \<and>
     (\<forall>r \<in> set (sw_split_ratios w). good_ratio r) \<and>
     (\<forall>t. sw_tree w = Some t \<longrightarrow> valid_tree t (set (map sp_id (sw_panes w))))"

definition valid_geometry :: "shared_pane_geometry \<Rightarrow> bool" where
  "valid_geometry g \<longleftrightarrow>
     (case padding g of (a, b, c, d) \<Rightarrow> a \<le> 8 \<and> b \<le> 8 \<and> c \<le> 8 \<and> d \<le> 8) \<and> sint (top_gap g) \<in> {- 1, 0, 1}"

definition all_pane_ids :: "shared_workspace list \<Rightarrow> pane_id list" where
  "all_pane_ids ws = concat (map (\<lambda>w. map sp_id (sw_panes w)) ws)"

definition valid_layout :: "shared_layout \<Rightarrow> bool" where
  "valid_layout l \<longleftrightarrow>
     version l = SHARED_LAYOUT_VERSION \<and> 0 < canvas_cols l \<and> 0 < canvas_rows l \<and> valid_geometry (pane_geometry l) \<and>
     distinct (map sw_index (workspaces l)) \<and> distinct (all_pane_ids (workspaces l)) \<and>
     (\<forall>w \<in> set (workspaces l). valid_workspace w)"

subsection \<open>The validator decides them\<close>

lemma bad_ratio_iff: "bad_ratio r \<longleftrightarrow> \<not> good_ratio r"
  by (cases r) (auto simp: bad_ratio_def good_ratio_def)

lemma positive_iff: "positive r \<longleftrightarrow> is_finite r \<and> \<not> r \<le> Fin 0"
  by (cases r) (auto simp: positive_def)

lemma validate_shared_tree_iff:
  "(\<exists>seen'. validate_shared_tree t i ids seen = Inr seen') \<longleftrightarrow>
     distinct (sleaves t) \<and> set (sleaves t) \<subseteq> ids - seen \<and> (\<forall>r \<in> set (tree_ratios t). good_ratio r)"
  "validate_shared_tree t i ids seen = Inr seen' \<Longrightarrow> seen' = seen \<union> set (sleaves t)"
proof (induction t arbitrary: seen seen')
  case (SSplit axis ratio a b)
  {
    case 1
    show ?case
      using SSplit.IH(1) [of seen] SSplit.IH(2) [of seen] SSplit.IH(3) [of "seen \<union> set (sleaves a)"]
      by (auto simp: bad_ratio_iff split: sum.splits)
  next
    case 2
    then show ?case
      using SSplit.IH(2) SSplit.IH(4) by (fastforce split: if_splits sum.splits)
  }
qed (auto split: if_splits)

lemma validate_pane_fields_iff:
  "sp_id p \<noteq> POPUP_PANE_ID \<Longrightarrow> validate_pane_fields p = None \<longleftrightarrow> valid_pane p"
  by (auto simp: validate_pane_fields_def valid_pane_def rect_ok_def Let_def positive_iff split: option.splits)

lemma validate_panes_iff:
  "validate_panes ps seen ids = Inr (seen', ids') \<longleftrightarrow>
     (\<forall>p \<in> set ps. valid_pane p) \<and> distinct (map sp_id ps) \<and> set (map sp_id ps) \<inter> seen = {} \<and>
     seen' = seen \<union> set (map sp_id ps) \<and> ids' = ids \<union> set (map sp_id ps)"
proof (induction ps arbitrary: seen ids)
  case (Cons p ps)
  have pane: "valid_pane p \<longleftrightarrow> sp_id p \<noteq> POPUP_PANE_ID \<and> validate_pane_fields p = None"
    using validate_pane_fields_iff [of p] by (auto simp: valid_pane_def)
  show ?case
    by (auto simp: Cons.IH pane split: option.splits)
qed auto

lemma validate_workspaces_iff:
  "validate_workspaces ws seen_ws seen = Inr () \<longleftrightarrow>
     distinct (map sw_index ws) \<and> set (map sw_index ws) \<inter> seen_ws = {} \<and>
     distinct (all_pane_ids ws) \<and> set (all_pane_ids ws) \<inter> seen = {} \<and> (\<forall>w \<in> set ws. valid_workspace w)"
proof (induction ws arbitrary: seen_ws seen)
  case (Cons w ws)
  let ?ids = "set (map sp_id (sw_panes w))"
  have ratios: "list_ex bad_ratio (sw_split_ratios w) \<longleftrightarrow> \<not> (\<forall>r \<in> set (sw_split_ratios w). good_ratio r)"
    by (auto simp: list_ex_iff bad_ratio_iff)
  have tree: "(\<exists>x. (case sw_tree w of Some tree \<Rightarrow> validate_shared_tree tree (sw_index w) ?ids {} | None \<Rightarrow> Inr {}) = Inr x) \<longleftrightarrow>
      (\<forall>t. sw_tree w = Some t \<longrightarrow> valid_tree t ?ids)"
    using validate_shared_tree_iff(1) [where seen = "{}"] by (auto simp: valid_tree_def split: option.split)
  show ?case
  proof (cases "validate_panes (sw_panes w) seen {}")
    case (Inl e)
    then have "\<not> ((\<forall>p \<in> set (sw_panes w). valid_pane p) \<and> distinct (map sp_id (sw_panes w)) \<and> ?ids \<inter> seen = {})"
      using validate_panes_iff [of "sw_panes w" seen "{}" "seen \<union> ?ids" "?ids"] by auto
    then show ?thesis using Inl by (auto simp: valid_workspace_def all_pane_ids_def)
  next
    case (Inr r)
    then have r: "r = (seen \<union> ?ids, ?ids)"
      and ok: "\<forall>p \<in> set (sw_panes w). valid_pane p" "distinct (map sp_id (sw_panes w))" "?ids \<inter> seen = {}"
      using validate_panes_iff [of "sw_panes w" seen "{}" "fst r" "snd r"] by (auto simp: prod_eq_iff)
    have ids: "all_pane_ids (w # ws) = map sp_id (sw_panes w) @ all_pane_ids ws" by (simp add: all_pane_ids_def)
    have w: "valid_workspace w \<longleftrightarrow> sw_index w < WORKSPACE_COUNT \<and> \<not> list_ex bad_ratio (sw_split_ratios w) \<and>
        (\<forall>t. sw_tree w = Some t \<longrightarrow> valid_tree t ?ids)"
      using ok(1) ratios by (simp add: valid_workspace_def)
    define T where "T = (case sw_tree w of Some tree \<Rightarrow> validate_shared_tree tree (sw_index w) ?ids {} | None \<Rightarrow> Inr {})"
    have wf: "valid_workspace w \<longleftrightarrow> sw_index w < WORKSPACE_COUNT \<and> \<not> list_ex bad_ratio (sw_split_ratios w) \<and> (\<exists>x. T = Inr x)"
      using w tree by (simp add: T_def)
    have step: "validate_workspaces (w # ws) seen_ws seen = Inr () \<longleftrightarrow>
        valid_workspace w \<and> sw_index w \<notin> seen_ws \<and> validate_workspaces ws (insert (sw_index w) seen_ws) (seen \<union> ?ids) = Inr ()"
      unfolding validate_workspaces.simps Inr r sum.case prod.case T_def [symmetric] wf
      by (cases T) (simp_all add: not_less)
    have "set (all_pane_ids ws) \<inter> (seen \<union> ?ids) = {} \<longleftrightarrow> set (all_pane_ids ws) \<inter> seen = {} \<and> ?ids \<inter> set (all_pane_ids ws) = {}"
      by blast
    then show ?thesis
      unfolding step ids Cons.IH using ok(2,3) by (auto simp only: list.map list.set distinct.simps distinct_append set_append)
  qed
qed (simp add: all_pane_ids_def)

lemma gap_range: "- 1 \<le> g \<and> g \<le> 1 \<longleftrightarrow> g \<in> {- 1, 0, 1}" for g :: int
  by auto

lemma validate_iff_valid: "validate l = Inr () \<longleftrightarrow> valid_layout l"
proof -
  obtain a b c d where pad: "padding (pane_geometry l) = (a, b, c, d)" by (cases "padding (pane_geometry l)") auto
  have geo: "valid_geometry (pane_geometry l) \<longleftrightarrow> \<not> list_ex (\<lambda>side. 8 < side) [a, b, c, d] \<and>
      - 1 \<le> sint (top_gap (pane_geometry l)) \<and> sint (top_gap (pane_geometry l)) \<le> 1"
    unfolding valid_geometry_def pad gap_range [symmetric] by (auto simp: not_less)
  show ?thesis
    unfolding validate_def valid_layout_def pad Let_def prod.case geo
    using validate_workspaces_iff [of "workspaces l" "{}" "{}"] by (auto simp: word_gt_0)
qed

subsection \<open>Properties\<close>

text \<open>
  C21: a document passes validation exactly when it satisfies the declared invariants: the wire
  version, a positive canvas, pane geometry in range, workspace indexes and pane ids that are unique
  across the document, trees whose leaves are panes of their workspace without repetition, ratios
  strictly between zero and one, and well-formed floats, pins, widths and generations.
\<close>

theorem validate_decides: "validate l = Inr () \<longleftrightarrow> valid_layout l"
  by (rule validate_iff_valid)

definition tiny_layout :: shared_layout where
  "tiny_layout = \<lparr>version = 4, canvas_cols = 80, canvas_rows = 24, pane_geometry = default_geometry,
     workspaces = [\<lparr>sw_index = 0, sw_name = None, sw_synchronized = False, sw_layout = SDwindle, sw_start_axis = SHorizontal,
       sw_split_ratios = [], sw_tree = Some (SSplit SHorizontal (Fin (1 / 2)) (SLeaf 1) (SLeaf 2)), sw_panes =
         map (\<lambda>pid. \<lparr>sp_id = pid, sp_generation = 1, sp_title = None, sp_profile_name = None, sp_cwd = None, sp_launch = None,
           sp_replay = False, sp_keep_open = False, sp_floating = False, sp_pinned = False, sp_fullscreen = False,
           sp_rect = None, sp_scrollable_width = Fin (1 / 2)\<rparr>) [1, 2]\<rparr>]\<rparr>"

text \<open>What each error claims of a document.\<close>

fun violates :: "shared_layout_validation_error \<Rightarrow> shared_layout \<Rightarrow> bool" where
  "violates (UnsupportedVersion v) l = (v = version l \<and> v \<noteq> SHARED_LAYOUT_VERSION)"
| "violates ZeroCanvasDimensions l = (canvas_cols l = 0 \<or> canvas_rows l = 0)"
| "violates InvalidPaneGeometry l = (\<not> valid_geometry (pane_geometry l))"
| "violates (DuplicateWorkspaceIndex i) l = (2 \<le> count_list (map sw_index (workspaces l)) i)"
| "violates (InvalidWorkspaceIndex i) l = (i \<in> set (map sw_index (workspaces l)) \<and> WORKSPACE_COUNT \<le> i)"
| "violates (ReservedPaneId pid) l = (pid = POPUP_PANE_ID \<and> pid \<in> set (all_pane_ids (workspaces l)))"
| "violates (DuplicatePaneId pid) l = (2 \<le> count_list (all_pane_ids (workspaces l)) pid)"
| "violates (TreeLeafNotInWorkspace i pid) l =
     (\<exists>w \<in> set (workspaces l). sw_index w = i \<and> pid \<in> set (opt_sleaves (sw_tree w)) \<and> pid \<notin> set (map sp_id (sw_panes w)))"
| "violates (DuplicateTreeLeaf i pid) l =
     (\<exists>w \<in> set (workspaces l). sw_index w = i \<and> 2 \<le> count_list (opt_sleaves (sw_tree w)) pid)"
| "violates (InvalidSplitRatio i) l =
     (\<exists>w \<in> set (workspaces l). sw_index w = i \<and> (\<exists>r \<in> set (sw_split_ratios w). \<not> good_ratio r))"
| "violates (InvalidTreeSplitRatio i) l =
     (\<exists>w \<in> set (workspaces l). sw_index w = i \<and> (\<exists>t. sw_tree w = Some t \<and> (\<exists>r \<in> set (tree_ratios t). \<not> good_ratio r)))"
| "violates (MissingFloatingRect pid) l =
     (\<exists>w \<in> set (workspaces l). \<exists>p \<in> set (sw_panes w). sp_id p = pid \<and> sp_floating p \<and> sp_rect p = None)"
| "violates (InvalidPin pid) l =
     (\<exists>w \<in> set (workspaces l). \<exists>p \<in> set (sw_panes w). sp_id p = pid \<and> sp_pinned p \<and> (\<not> sp_floating p \<or> sp_fullscreen p))"
| "violates (InvalidFloatingRect pid reason) l =
     (\<exists>w \<in> set (workspaces l). \<exists>p \<in> set (sw_panes w). sp_id p = pid \<and>
       (\<exists>rect. sp_rect p = Some rect \<and> (\<not> sp_floating p \<or> \<not> rect_ok rect)))"
| "violates (InvalidScrollableWidth pid) l =
     (\<exists>w \<in> set (workspaces l). \<exists>p \<in> set (sw_panes w). sp_id p = pid \<and> \<not> positive (sp_scrollable_width p))"
| "violates (InvalidGeneration pid g) l =
     (\<exists>w \<in> set (workspaces l). \<exists>p \<in> set (sw_panes w). sp_id p = pid \<and> sp_generation p = g \<and> g = 0)"

lemma tree_error:
  "validate_shared_tree t i ids (set pre) = Inl e \<Longrightarrow>
    (\<exists>pid. e = TreeLeafNotInWorkspace i pid \<and> pid \<in> set (sleaves t) \<and> pid \<notin> ids) \<or>
    (\<exists>pid. e = DuplicateTreeLeaf i pid \<and> 2 \<le> count_list (pre @ sleaves t) pid) \<or>
    (e = InvalidTreeSplitRatio i \<and> (\<exists>r \<in> set (tree_ratios t). \<not> good_ratio r))"
proof (induction t arbitrary: pre)
  case (SLeaf pid)
  have "1 \<le> count_list pre pid" if "pid \<in> set pre" using that count_list_0_iff [of pre pid] by (cases "count_list pre pid") auto
  then show ?case using SLeaf by (auto split: if_splits)
next
  case (SSplit axis r a b)
  show ?case
  proof (cases "bad_ratio r")
    case True
    then show ?thesis using SSplit.prems by (auto simp: bad_ratio_iff)
  next
    case False
    show ?thesis
    proof (cases "validate_shared_tree a i ids (set pre)")
      case (Inl e')
      then have "validate_shared_tree a i ids (set pre) = Inl e" using SSplit.prems False by simp
      from SSplit.IH(1) [OF this] show ?thesis by fastforce
    next
      case (Inr seen)
      then have "seen = set (pre @ sleaves a)" using validate_shared_tree_iff(2) by fastforce
      then have "validate_shared_tree b i ids (set (pre @ sleaves a)) = Inl e" using SSplit.prems False Inr by simp
      from SSplit.IH(2) [OF this] show ?thesis by auto
    qed
  qed
qed

lemma pane_error:
  assumes "validate_pane_fields p = Some e" "w \<in> set (workspaces l)" "p \<in> set (sw_panes w)"
  shows "violates e l"
  using assms
  by (cases "sp_rect p")
    (auto simp: validate_pane_fields_def Let_def positive_iff rect_ok_def split: if_splits intro!: bexI [of _ w] bexI [of _ p])

lemma panes_error:
  assumes "validate_panes ps (set pre) ids = Inl e" "set ps \<subseteq> set (sw_panes w)" "w \<in> set (workspaces l)"
    and "\<And>pid. count_list (pre @ map sp_id ps) pid \<le> count_list (all_pane_ids (workspaces l)) pid"
  shows "violates e l"
  using assms
proof (induction ps arbitrary: pre ids)
  case (Cons p ps)
  have cnt: "count_list (pre @ map sp_id (p # ps)) pid \<le> count_list (all_pane_ids (workspaces l)) pid" for pid
    by (rule Cons.prems(4))
  consider "sp_id p = POPUP_PANE_ID" | "sp_id p \<noteq> POPUP_PANE_ID" "sp_id p \<in> set pre"
    | e' where "sp_id p \<noteq> POPUP_PANE_ID" "sp_id p \<notin> set pre" "validate_pane_fields p = Some e'"
    | "sp_id p \<noteq> POPUP_PANE_ID" "sp_id p \<notin> set pre" "validate_pane_fields p = None"
    by (cases "validate_pane_fields p") auto
  then show ?case
  proof cases
    case 1
    then have "e = ReservedPaneId (sp_id p)" using Cons.prems(1) by simp
    moreover have "0 < count_list (all_pane_ids (workspaces l)) (sp_id p)" using cnt [of "sp_id p"] by simp
    ultimately show ?thesis using 1 count_list_0_iff [of "all_pane_ids (workspaces l)" POPUP_PANE_ID] by auto
  next
    case 2
    then have "e = DuplicatePaneId (sp_id p)" using Cons.prems(1) by simp
    moreover have "count_list pre (sp_id p) \<noteq> 0" using 2(2) by (simp add: count_list_0_iff)
    ultimately show ?thesis using cnt [of "sp_id p"] by simp
  next
    case 3
    then have "validate_pane_fields p = Some e" using Cons.prems(1) by simp
    then show ?thesis using Cons.prems(2,3) by (intro pane_error [of p e w l]) auto
  next
    case 4
    then have "validate_panes ps (set (pre @ [sp_id p])) (insert (sp_id p) ids) = Inl e" using Cons.prems(1) by simp
    then show ?thesis using Cons.IH [of "pre @ [sp_id p]"] Cons.prems(2,3) cnt by simp
  qed
qed simp

lemma workspaces_error:
  assumes "validate_workspaces ws (set (map sw_index pre)) (set (all_pane_ids pre)) = Inl e" "workspaces l = pre @ ws"
  shows "violates e l"
  using assms
proof (induction ws arbitrary: pre)
  case (Cons w ws)
  let ?ids = "set (map sp_id (sw_panes w))" and ?seen = "set (all_pane_ids pre)"
  have w: "w \<in> set (workspaces l)" using Cons.prems(2) by simp
  have ids: "all_pane_ids (workspaces l) = all_pane_ids pre @ map sp_id (sw_panes w) @ all_pane_ids ws"
    using Cons.prems(2) by (simp add: all_pane_ids_def)
  consider "WORKSPACE_COUNT \<le> sw_index w" | "sw_index w < WORKSPACE_COUNT" "sw_index w \<in> set (map sw_index pre)"
    | "sw_index w < WORKSPACE_COUNT" "sw_index w \<notin> set (map sw_index pre)" by linarith
  then show ?case
  proof cases
    case 1
    then show ?thesis using Cons.prems(1) w by auto
  next
    case 2
    then have "e = DuplicateWorkspaceIndex (sw_index w)" using Cons.prems(1) by simp
    moreover have "count_list (map sw_index pre) (sw_index w) \<noteq> 0" using 2(2) by (simp only: count_list_0_iff not_not)
    ultimately show ?thesis using Cons.prems(2) by simp
  next
    case 3
    show ?thesis
    proof (cases "validate_panes (sw_panes w) ?seen {}")
      case (Inl e')
      then have "validate_panes (sw_panes w) ?seen {} = Inl e" using Cons.prems(1) 3 by simp
      from panes_error [OF this subset_refl w] show ?thesis by (simp add: ids)
    next
      case (Inr r)
      then have r: "r = (?seen \<union> ?ids, ?ids)"
        using validate_panes_iff [of "sw_panes w" ?seen "{}" "fst r" "snd r"] by (auto simp: prod_eq_iff)
      show ?thesis
      proof (cases "list_ex bad_ratio (sw_split_ratios w)")
        case True
        then have "e = InvalidSplitRatio (sw_index w)" using Cons.prems(1) 3 Inr r by simp
        then show ?thesis using True w by (auto simp: list_ex_iff bad_ratio_iff)
      next
        case False
        define T where "T = (case sw_tree w of Some tree \<Rightarrow> validate_shared_tree tree (sw_index w) ?ids {} | None \<Rightarrow> Inr {})"
        have rest: "(case T of Inl e \<Rightarrow> Inl e
            | Inr _ \<Rightarrow> validate_workspaces ws (insert (sw_index w) (set (map sw_index pre))) (?seen \<union> ?ids)) = Inl e"
          using Cons.prems(1) unfolding validate_workspaces.simps Inr r sum.case prod.case T_def [symmetric]
            if_not_P [OF False] if_not_P [OF 3(2)] if_not_P [OF iffD2 [OF not_le 3(1)]] .
        show ?thesis
        proof (cases T)
          case (Inl e')
          then obtain t where "sw_tree w = Some t" "validate_shared_tree t (sw_index w) ?ids (set []) = Inl e"
            using rest by (auto simp: T_def split: option.splits)
          then show ?thesis using tree_error [of t "sw_index w" ?ids "[]" e] w by fastforce
        next
          case (Inr x)
          then have "validate_workspaces ws (set (map sw_index (pre @ [w]))) (set (all_pane_ids (pre @ [w]))) = Inl e"
            using rest by (simp add: all_pane_ids_def)
          then show ?thesis using Cons.prems(2) by (intro Cons.IH) simp_all
        qed
      qed
    qed
  qed
qed simp

text \<open>
  An error of the validator names a real violation: the workspace index, pane id or generation
  it carries is one for which the document breaks the reported invariant.
\<close>

theorem validate_error_sound:
  assumes "validate l = Inl e"
  shows "violates e l"
proof -
  obtain a b c d where pad: "padding (pane_geometry l) = (a, b, c, d)" by (cases "padding (pane_geometry l)") auto
  let ?bad = "list_ex (\<lambda>side. 8 < side) [a, b, c, d] \<or> \<not> (- 1 \<le> sint (top_gap (pane_geometry l)) \<and> sint (top_gap (pane_geometry l)) \<le> 1)"
  have geo: "\<not> valid_geometry (pane_geometry l)" if ?bad
    using that unfolding valid_geometry_def pad gap_range [symmetric] by (auto simp: not_less)
  have "validate_workspaces (workspaces l) (set (map sw_index [])) (set (all_pane_ids [])) = Inl e \<Longrightarrow> violates e l"
    by (rule workspaces_error [where pre = "[]"]) simp_all
  then show ?thesis
    using assms geo unfolding validate_def pad Let_def prod.case
    by (auto simp: all_pane_ids_def split: if_splits)
qed

theorem validate_error_sound_witness:
  "violates ZeroCanvasDimensions (tiny_layout\<lparr>canvas_cols := 0\<rparr>)"
  by (rule validate_error_sound) (simp add: validate_def tiny_layout_def SHARED_LAYOUT_VERSION_def)

end
