(* ===== verification/ControlEdit.thy ===== *)
theory ControlEdit
  imports SharedValidate
begin

text \<open>
  The layout writes of the control protocol, \<^verbatim>\<open>src/control.rs\<close>: a requested rectangle, the
  validation of \<^verbatim>\<open>pane set\<close> and \<^verbatim>\<open>layout set\<close>, and the checks against the state of the pane. A
  refusal is its error code; the message text is left out. An \<^verbatim>\<open>f64\<close> argument is a value of the same
  type of floating-point values, and \<^verbatim>\<open>as f32\<close> rounds it.

  Shown: exactly which requests are accepted, and that an accepted ratio lies between the divider
  limits after rounding, so that it is one a document accepts.
\<close>

datatype control_error_code =
    InvalidRequest | RequestTimeout | MessageTooLarge | ExtensionInactive | UnknownEvent | PaneNotFound
  | TargetRequired | PaneNotRunning | SessionNotAttached | SessionNotConnected | InputLocked | ReadOnly
  | NotController | Unsupported | InvalidArgument | SpawnFailed | Conflict | Unavailable | AgentGone
  | AgentBlocked | AgentReplaced | StaleReference | Timeout | CursorExpired | RequestFailed | NotPermitted
  | OutOfScope | ActionNotFound | ActionBusy | ActionFailed | InvalidArguments | InvalidResult
  | InvocationCancelled | InvocationDepth | InvocationLimit | InvocationNotFound | InvocationTimeout

record requested_cells =
  req_x :: "32 word"
  req_y :: "32 word"
  req_width :: "32 word"
  req_height :: "32 word"

record fraction_rect =
  frac_x :: f64
  frac_y :: f64
  frac_width :: f64
  frac_height :: f64

datatype control_layout_kind = CDwindle | CMaster | CGrid | CColumns | CRows | CScrollable | CMonocle

fun kind_of_control :: "control_layout_kind \<Rightarrow> layout_kind" where
  "kind_of_control CDwindle = Dwindle"
| "kind_of_control CMaster = Master"
| "kind_of_control CGrid = Grid"
| "kind_of_control CColumns = Columns"
| "kind_of_control CRows = Rows"
| "kind_of_control CScrollable = Scrollable"
| "kind_of_control CMonocle = Monocle"

fun control_of_kind :: "layout_kind \<Rightarrow> control_layout_kind" where
  "control_of_kind Dwindle = CDwindle"
| "control_of_kind Master = CMaster"
| "control_of_kind Grid = CGrid"
| "control_of_kind Columns = CColumns"
| "control_of_kind Rows = CRows"
| "control_of_kind Scrollable = CScrollable"
| "control_of_kind Monocle = CMonocle"

fun kind_as_str :: "control_layout_kind \<Rightarrow> string" where
  "kind_as_str CDwindle = ''dwindle''"
| "kind_as_str CMaster = ''master''"
| "kind_as_str CGrid = ''grid''"
| "kind_as_str CColumns = ''columns''"
| "kind_as_str CRows = ''rows''"
| "kind_as_str CScrollable = ''scrollable''"
| "kind_as_str CMonocle = ''monocle''"

definition to_ascii_lower :: "char \<Rightarrow> char" where
  "to_ascii_lower c = (let n = (of_char c :: nat) in if 65 \<le> n \<and> n \<le> 90 then char_of (n + 32) else c)"

definition eq_ignore_ascii_case :: "string \<Rightarrow> string \<Rightarrow> bool" where
  "eq_ignore_ascii_case a b \<longleftrightarrow> map to_ascii_lower a = map to_ascii_lower b"

definition parse_kind :: "string \<Rightarrow> control_layout_kind option" where
  "parse_kind s =
     find (\<lambda>kind. eq_ignore_ascii_case (kind_as_str kind) s)
       [CDwindle, CMaster, CGrid, CColumns, CRows, CScrollable, CMonocle]"

datatype requested_rect = ReqCells requested_cells | ReqFraction fraction_rect

definition f64_as_f32 :: "f64 \<Rightarrow> f32" where
  "f64_as_f32 v = (case v of Fin q \<Rightarrow> rnd q | _ \<Rightarrow> v)"

fun to_cells :: "requested_rect \<Rightarrow> u16 \<times> u16 \<Rightarrow> float_rect" where
  "to_cells (ReqCells r) canvas =
     \<lparr>rx = rnd (of_int (sint (req_x r))), ry = rnd (of_int (sint (req_y r))),
      rw = f32_of_nat (unat (req_width r)), rh = f32_of_nat (unat (req_height r))\<rparr>"
| "to_cells (ReqFraction r) canvas =
     (let cols = u16_f32 (max (fst canvas) 1); rows = u16_f32 (max (snd canvas) 1)
      in \<lparr>rx = f64_as_f32 (frac_x r) * cols, ry = f64_as_f32 (frac_y r) * rows,
          rw = f64_as_f32 (frac_width r) * cols, rh = f64_as_f32 (frac_height r) * rows\<rparr>)"

record pane_edit =
  e_floating :: "bool option"
  e_fullscreen :: "bool option"
  e_rect :: "requested_rect option"
  e_split_ratio :: "f32 option"
  e_width_ratio :: "f32 option"

definition validate_ratio :: "f64 \<Rightarrow> control_error_code + f32" where
  "validate_ratio v =
     (if is_finite v \<and> MIN_SPLIT_RATIO \<le> v \<and> v \<le> MAX_SPLIT_RATIO then Inr (f64_as_f32 v) else Inl InvalidArgument)"

text \<open>\<^verbatim>\<open>Option::map(validate_ratio).transpose()\<close>.\<close>

fun validate_opt_ratio :: "f64 option \<Rightarrow> control_error_code + f32 option" where
  "validate_opt_ratio None = Inr None"
| "validate_opt_ratio (Some v) = (case validate_ratio v of Inl e \<Rightarrow> Inl e | Inr r \<Rightarrow> Inr (Some r))"

fun requested :: "requested_cells option \<Rightarrow> fraction_rect option \<Rightarrow> control_error_code + requested_rect option" where
  "requested (Some _) (Some _) = Inl InvalidArgument"
| "requested (Some rect) None =
     (if req_width rect = 0 \<or> req_height rect = 0 then Inl InvalidArgument else Inr (Some (ReqCells rect)))"
| "requested None (Some rect) =
     (if \<not> (list_all is_finite [frac_x rect, frac_y rect, frac_width rect, frac_height rect]) \<or>
         frac_width rect \<le> Fin 0 \<or> frac_height rect \<le> Fin 0
      then Inl InvalidArgument else Inr (Some (ReqFraction rect)))"
| "requested None None = Inr None"

definition validate_pane_edit ::
  "bool option \<Rightarrow> bool option \<Rightarrow> requested_cells option \<Rightarrow> fraction_rect option \<Rightarrow> f64 option \<Rightarrow> f64 option \<Rightarrow>
   control_error_code + pane_edit" where
  "validate_pane_edit floating fullscreen rect rect_fraction split_ratio width_ratio =
     (case requested rect rect_fraction of
        Inl e \<Rightarrow> Inl e
      | Inr rect \<Rightarrow>
          if rect \<noteq> None \<and> floating = Some False then Inl InvalidArgument
          else case validate_opt_ratio split_ratio of
            Inl e \<Rightarrow> Inl e
          | Inr split_ratio \<Rightarrow>
              (case validate_opt_ratio width_ratio of
                 Inl e \<Rightarrow> Inl e
               | Inr width_ratio \<Rightarrow>
                   let sizes = split_ratio \<noteq> None \<or> width_ratio \<noteq> None
                   in if sizes \<and> (floating \<noteq> None \<or> rect \<noteq> None) then Inl InvalidArgument
                      else if floating = None \<and> fullscreen = None \<and> rect = None \<and> \<not> sizes then Inl InvalidArgument
                      else Inr \<lparr>e_floating = floating, e_fullscreen = fullscreen, e_rect = rect,
                                e_split_ratio = split_ratio, e_width_ratio = width_ratio\<rparr>))"

definition check_sizes :: "pane_edit \<Rightarrow> bool \<Rightarrow> layout_kind \<Rightarrow> bool \<Rightarrow> control_error_code + unit" where
  "check_sizes edit floating layout in_split =
     (if (e_split_ratio edit \<noteq> None \<or> e_width_ratio edit \<noteq> None) \<and> floating then Inl Unsupported
      else if e_split_ratio edit \<noteq> None \<and> layout \<noteq> Dwindle then Inl Unsupported
      else if e_split_ratio edit \<noteq> None \<and> \<not> in_split then Inl Unsupported
      else if e_width_ratio edit \<noteq> None \<and> layout \<noteq> Scrollable then Inl Unsupported
      else Inr ())"

definition edit_floats :: "pane_edit \<Rightarrow> bool \<Rightarrow> bool" where
  "edit_floats edit floating_now = (case e_floating edit of Some b \<Rightarrow> b | None \<Rightarrow> floating_now)"

definition check_rect_target :: "pane_edit \<Rightarrow> bool \<Rightarrow> control_error_code + unit" where
  "check_rect_target edit floating_now =
     (if e_rect edit \<noteq> None \<and> \<not> edit_floats edit floating_now then Inl InvalidArgument else Inr ())"

record layout_edit =
  le_kind :: "layout_kind option"
  le_master_ratio :: "f32 option"

definition validate_layout_edit :: "control_layout_kind option \<Rightarrow> f64 option \<Rightarrow> control_error_code + layout_edit" where
  "validate_layout_edit layout master_ratio =
     (case validate_opt_ratio master_ratio of
        Inl e \<Rightarrow> Inl e
      | Inr master_ratio \<Rightarrow>
          if layout = None \<and> master_ratio = None then Inl InvalidArgument
          else Inr \<lparr>le_kind = map_option kind_of_control layout, le_master_ratio = master_ratio\<rparr>)"

definition check_layout_edit :: "layout_edit \<Rightarrow> layout_kind \<Rightarrow> control_error_code + unit" where
  "check_layout_edit edit current =
     (if le_master_ratio edit \<noteq> None \<and> (case le_kind edit of Some kind \<Rightarrow> kind | None \<Rightarrow> current) \<noteq> Master
      then Inl Unsupported else Inr ())"

definition check_if_revision :: "u64 option \<Rightarrow> u64 option \<Rightarrow> control_error_code + unit" where
  "check_if_revision if_revision current =
     (case if_revision of
        Some expected \<Rightarrow> if current \<noteq> Some expected then Inl Conflict else Inr ()
      | None \<Rightarrow> Inr ())"

definition validate_layout_workspace :: "nat option \<Rightarrow> control_error_code + unit" where
  "validate_layout_workspace workspace =
     (case workspace of
        Some index \<Rightarrow> if \<not> (1 \<le> index \<and> index \<le> WORKSPACE_COUNT) then Inl InvalidArgument else Inr ()
      | None \<Rightarrow> Inr ())"

subsection \<open>Accepted ratios\<close>

lemma rval_limits: "rval (13421773 / 67108864) = 13421773 / 67108864" "rval (13421773 / 16777216) = 13421773 / 16777216"
  by code_simp+

lemma validate_ratio_ok:
  "validate_ratio v = Inr r \<Longrightarrow> MIN_SPLIT_RATIO \<le> r \<and> r \<le> MAX_SPLIT_RATIO \<and> good_ratio r"
proof -
  assume ok: "validate_ratio v = Inr r"
  then obtain q where q: "v = Fin q" "13421773 / 67108864 \<le> q" "q \<le> 13421773 / 16777216" "r = rnd q"
    by (cases v) (auto simp: validate_ratio_def ratio_constants f64_as_f32_def split: if_splits)
  have b: "13421773 / 67108864 \<le> rval q" "rval q \<le> 13421773 / 16777216"
    using rval_mono [OF q(2)] rval_mono [OF q(3)] by (simp_all only: rval_limits)
  then have "\<bar>rval q\<bar> < 2 ^ 128" by (simp add: abs_less_iff)
  then have "r = Fin (rval q)" using q(4) by (simp add: rnd_small)
  then show ?thesis using b by (simp add: ratio_constants good_ratio_def)
qed

definition opt_ratio_ok :: "f64 option \<Rightarrow> bool" where
  "opt_ratio_ok v \<longleftrightarrow> (case v of None \<Rightarrow> True | Some v \<Rightarrow> is_finite v \<and> MIN_SPLIT_RATIO \<le> v \<and> v \<le> MAX_SPLIT_RATIO)"

lemma validate_opt_ratio_eq:
  "validate_opt_ratio v = (if opt_ratio_ok v then Inr (map_option f64_as_f32 v) else Inl InvalidArgument)"
  by (cases v) (auto simp: opt_ratio_ok_def validate_ratio_def)

text \<open>What \<open>pane set\<close> asks for, and the rectangle it names.\<close>

definition acceptable ::
  "bool option \<Rightarrow> bool option \<Rightarrow> requested_cells option \<Rightarrow> fraction_rect option \<Rightarrow> f64 option \<Rightarrow> f64 option \<Rightarrow> bool" where
  "acceptable floating fullscreen rect rect_fraction split_ratio width_ratio \<longleftrightarrow>
     (rect = None \<or> rect_fraction = None) \<and>
     pred_option (\<lambda>r. req_width r \<noteq> 0 \<and> req_height r \<noteq> 0) rect \<and>
     pred_option (\<lambda>r. is_finite (frac_x r) \<and> is_finite (frac_y r) \<and> positive (frac_width r) \<and> positive (frac_height r)) rect_fraction \<and>
     \<not> ((rect \<noteq> None \<or> rect_fraction \<noteq> None) \<and> floating = Some False) \<and>
     opt_ratio_ok split_ratio \<and> opt_ratio_ok width_ratio \<and>
     \<not> ((split_ratio \<noteq> None \<or> width_ratio \<noteq> None) \<and> (floating \<noteq> None \<or> rect \<noteq> None \<or> rect_fraction \<noteq> None)) \<and>
     (floating \<noteq> None \<or> fullscreen \<noteq> None \<or> rect \<noteq> None \<or> rect_fraction \<noteq> None \<or> split_ratio \<noteq> None \<or> width_ratio \<noteq> None)"

definition named_rect :: "requested_cells option \<Rightarrow> fraction_rect option \<Rightarrow> requested_rect option" where
  "named_rect rect rect_fraction = (case rect of Some r \<Rightarrow> Some (ReqCells r) | None \<Rightarrow> map_option ReqFraction rect_fraction)"

lemma requested_eq:
  "requested rect rect_fraction =
     (if (rect = None \<or> rect_fraction = None) \<and>
         pred_option (\<lambda>r. req_width r \<noteq> 0 \<and> req_height r \<noteq> 0) rect \<and>
         pred_option (\<lambda>r. is_finite (frac_x r) \<and> is_finite (frac_y r) \<and> positive (frac_width r) \<and> positive (frac_height r)) rect_fraction
      then Inr (named_rect rect rect_fraction) else Inl InvalidArgument)"
  by (cases rect; cases rect_fraction) (auto simp: named_rect_def positive_iff)

lemma named_rect_None: "named_rect rect rect_fraction = None \<longleftrightarrow> rect = None \<and> rect_fraction = None"
  by (cases rect) (auto simp: named_rect_def)

lemma opt_ratio_good: "opt_ratio_ok v \<Longrightarrow> pred_option good_ratio (map_option f64_as_f32 v)"
proof (cases v)
  case (Some x)
  assume "opt_ratio_ok v"
  then have "validate_ratio x = Inr (f64_as_f32 x)" using Some by (simp add: opt_ratio_ok_def validate_ratio_def)
  from validate_ratio_ok [OF this] Some show ?thesis by simp
qed simp

subsection \<open>Properties\<close>

text \<open>
  \<open>pane set\<close> accepts a request exactly when it asks for something, its rectangle is given in one
  unit with positive size and does not accompany an explicit re-tiling, its ratios are within the
  divider limits, and ratios do not come with a float or a rectangle; every other request is an
  invalid argument. An accepted ratio, rounded to single precision, is strictly between zero and one.
\<close>

theorem pane_edit_accepted:
  "validate_pane_edit floating fullscreen rect rect_fraction split_ratio width_ratio =
     (if acceptable floating fullscreen rect rect_fraction split_ratio width_ratio
      then Inr \<lparr>e_floating = floating, e_fullscreen = fullscreen, e_rect = named_rect rect rect_fraction,
        e_split_ratio = map_option f64_as_f32 split_ratio, e_width_ratio = map_option f64_as_f32 width_ratio\<rparr>
      else Inl InvalidArgument) \<and>
   (case validate_pane_edit floating fullscreen rect rect_fraction split_ratio width_ratio of
      Inl _ \<Rightarrow> True
    | Inr edit \<Rightarrow> pred_option good_ratio (e_split_ratio edit) \<and> pred_option good_ratio (e_width_ratio edit))"
proof -
  have eq: "validate_pane_edit floating fullscreen rect rect_fraction split_ratio width_ratio =
     (if acceptable floating fullscreen rect rect_fraction split_ratio width_ratio
      then Inr \<lparr>e_floating = floating, e_fullscreen = fullscreen, e_rect = named_rect rect rect_fraction,
        e_split_ratio = map_option f64_as_f32 split_ratio, e_width_ratio = map_option f64_as_f32 width_ratio\<rparr>
      else Inl InvalidArgument)"
  proof -
    define P where "P \<longleftrightarrow> (rect = None \<or> rect_fraction = None) \<and>
       pred_option (\<lambda>r. req_width r \<noteq> 0 \<and> req_height r \<noteq> 0) rect \<and>
       pred_option (\<lambda>r. is_finite (frac_x r) \<and> is_finite (frac_y r) \<and> positive (frac_width r) \<and> positive (frac_height r)) rect_fraction"
    define N where "N = named_rect rect rect_fraction"
    have req: "requested rect rect_fraction = (if P then Inr N else Inl InvalidArgument)"
      unfolding P_def N_def by (rule requested_eq)
    have acc: "acceptable floating fullscreen rect rect_fraction split_ratio width_ratio \<longleftrightarrow>
        P \<and> \<not> (N \<noteq> None \<and> floating = Some False) \<and> opt_ratio_ok split_ratio \<and> opt_ratio_ok width_ratio \<and>
        \<not> ((split_ratio \<noteq> None \<or> width_ratio \<noteq> None) \<and> (floating \<noteq> None \<or> N \<noteq> None)) \<and>
        (floating \<noteq> None \<or> fullscreen \<noteq> None \<or> N \<noteq> None \<or> split_ratio \<noteq> None \<or> width_ratio \<noteq> None)"
      unfolding acceptable_def P_def N_def named_rect_None by (simp only: de_Morgan_conj conj_assoc disj_assoc)
    show ?thesis
      unfolding acc validate_pane_edit_def req validate_opt_ratio_eq N_def [symmetric]
      by (cases P; cases "opt_ratio_ok split_ratio"; cases "opt_ratio_ok width_ratio"; cases "N = None \<and> floating = None";
          simp add: Let_def)
  qed
  have "opt_ratio_ok split_ratio" "opt_ratio_ok width_ratio" if "acceptable floating fullscreen rect rect_fraction split_ratio width_ratio"
    using that by (simp_all add: acceptable_def)
  then show ?thesis unfolding eq using opt_ratio_good by simp
qed

end
