(* ===== verification/SharedEdit.thy ===== *)
theory SharedEdit
  imports ControlEdit
begin

text \<open>
  Absolute edits to a shared layout document, \<^verbatim>\<open>src/layout/shared/edit.rs\<close>, applied by the session
  server and by a client alike. A method with \<^verbatim>\<open>&mut self\<close> returns its result and the document it
  leaves behind, also when it refuses; \<open>None\<close> around a result is the panic of \<^verbatim>\<open>f32::clamp\<close>.
  Equality of floats is that of the code: \<open>NaN\<close> differs from itself.

  Shown: the edits keep a valid document valid, so that a move is never refused as an invalid
  document; a workspace keeps at most one fullscreen pane; a move takes one pane to the end of the
  target's tiling and disturbs no other; a swap exchanges exactly two panes.
\<close>

datatype shared_edit_error =
    PaneNotPlaced pane_id
  | NotSwappable pane_id pane_id
  | InvalidDocument shared_layout_validation_error

subsection \<open>Access\<close>

definition workspace_position_of :: "shared_layout \<Rightarrow> pane_id \<Rightarrow> nat option" where
  "workspace_position_of l pid = position_of (\<lambda>w. list_ex (\<lambda>p. sp_id p = pid) (sw_panes w)) (workspaces l)"

definition update_at :: "nat \<Rightarrow> (shared_workspace \<Rightarrow> shared_workspace) \<Rightarrow> shared_layout \<Rightarrow> shared_layout" where
  "update_at i f l = l\<lparr>workspaces := (workspaces l)[i := f (workspaces l ! i)]\<rparr>"

definition fresh_workspace :: "nat \<Rightarrow> shared_workspace" where
  "fresh_workspace index =
     \<lparr>sw_index = index, sw_name = None, sw_synchronized = False, sw_layout = kind_to_serialized LAYOUT_DEFAULT,
      sw_start_axis = axis_to_serialized (start_for_workspace index), sw_split_ratios = default_split_ratios,
      sw_tree = None, sw_panes = []\<rparr>"

definition ensure_workspace :: "nat \<Rightarrow> shared_layout \<Rightarrow> shared_layout" where
  "ensure_workspace index l =
     (if list_ex (\<lambda>w. sw_index w = index) (workspaces l) then l
      else l\<lparr>workspaces := sort_key sw_index (workspaces l @ [fresh_workspace index])\<rparr>)"

definition workspace_at :: "nat \<Rightarrow> shared_layout \<Rightarrow> nat" where
  "workspace_at index l = the (position_of (\<lambda>w. sw_index w = index) (workspaces l))"

text \<open>Mutation of the pane that \<^verbatim>\<open>iter_mut().find\<close> yields.\<close>

definition update_pane :: "pane_id \<Rightarrow> (shared_pane \<Rightarrow> shared_pane) \<Rightarrow> shared_workspace \<Rightarrow> shared_workspace" where
  "update_pane pid f w =
     (case position_of (\<lambda>p. sp_id p = pid) (sw_panes w) of
        Some i \<Rightarrow> w\<lparr>sw_panes := (sw_panes w)[i := f (sw_panes w ! i)]\<rparr>
      | None \<Rightarrow> w)"

definition doc_canvas :: "shared_layout \<Rightarrow> u16 \<times> u16" where
  "doc_canvas l = (max (canvas_cols l) 1, max (canvas_rows l) 1)"

definition settle :: "u16 \<times> u16 \<Rightarrow> shared_workspace \<Rightarrow> shared_workspace" where
  "settle canvas w =
     w\<lparr>sw_tree := (case effective_tile_tree (shared_tile_source canvas w) None of
                     Some tree \<Rightarrow> from_dwindle tree Some | None \<Rightarrow> None)\<rparr>"

definition settle_tree :: "nat \<Rightarrow> shared_layout \<Rightarrow> shared_layout" where
  "settle_tree position l = update_at position (settle (doc_canvas l)) l"

subsection \<open>Layout kind and master share\<close>

definition set_layout_kind :: "nat \<Rightarrow> layout_kind \<Rightarrow> shared_layout \<Rightarrow> bool \<times> shared_layout" where
  "set_layout_kind index kind l =
     (let kind = kind_to_serialized kind;
          present = list_ex (\<lambda>w. sw_index w = index) (workspaces l);
          l = ensure_workspace index l
      in if present \<and> sw_layout (workspaces l ! workspace_at index l) = kind then (False, l)
         else (True, update_at (workspace_at index l) (\<lambda>w. w\<lparr>sw_layout := kind\<rparr>) l))"

definition layout_kind_of :: "nat \<Rightarrow> shared_layout \<Rightarrow> layout_kind" where
  "layout_kind_of index l =
     (case find (\<lambda>w. sw_index w = index) (workspaces l) of
        None \<Rightarrow> LAYOUT_DEFAULT
      | Some w \<Rightarrow> kind_of_serialized (sw_layout w))"

definition set_master_share :: "f32 list \<Rightarrow> f32 \<Rightarrow> bool \<times> f32 list" where
  "set_master_share split_ratios ratio =
     (if f32_eq (case split_ratios of r # _ \<Rightarrow> r | [] \<Rightarrow> DEFAULT_RATIO) ratio then (False, split_ratios)
      else (True, case split_ratios of _ # rest \<Rightarrow> ratio # rest | [] \<Rightarrow> [ratio]))"

definition set_master_ratio :: "nat \<Rightarrow> f32 \<Rightarrow> shared_layout \<Rightarrow> bool \<times> shared_layout" where
  "set_master_ratio index ratio l =
     (let l = ensure_workspace index l; i = workspace_at index l;
          (changed, ratios) = set_master_share (sw_split_ratios (workspaces l ! i)) ratio
      in (changed, update_at i (\<lambda>w. w\<lparr>sw_split_ratios := ratios\<rparr>) l))"

subsection \<open>Pins, floats and fullscreen\<close>

definition clear_other_shared_fullscreen :: "pane_id \<Rightarrow> shared_workspace \<Rightarrow> shared_workspace" where
  "clear_other_shared_fullscreen keep w =
     w\<lparr>sw_panes := map (\<lambda>p. if sp_id p \<noteq> keep then p\<lparr>sp_fullscreen := False\<rparr> else p) (sw_panes w)\<rparr>"

definition set_pinned :: "pane_id \<Rightarrow> bool \<Rightarrow> shared_layout \<Rightarrow> bool \<times> shared_layout" where
  "set_pinned pid pinned l =
     (case workspace_position_of l pid of
        None \<Rightarrow> (False, l)
      | Some i \<Rightarrow>
          (case shared_pane_of (workspaces l ! i) pid of
             None \<Rightarrow> (False, l)
           | Some p \<Rightarrow>
               let pinned = (pinned \<and> sp_floating p)
               in (sp_pinned p \<noteq> pinned \<or> (pinned \<and> sp_fullscreen p),
                   update_at i (update_pane pid (\<lambda>p. p\<lparr>sp_pinned := pinned, sp_fullscreen := sp_fullscreen p \<and> \<not> pinned\<rparr>)) l)))"

definition frac_rect_eq :: "frac_rect option \<Rightarrow> frac_rect option \<Rightarrow> bool" where
  "frac_rect_eq a b =
     (case (a, b) of
        (Some r, Some s) \<Rightarrow> f32_eq (fx r) (fx s) \<and> f32_eq (fy r) (fy s) \<and> f32_eq (fw r) (fw s) \<and> f32_eq (fh r) (fh s)
      | (None, None) \<Rightarrow> True
      | _ \<Rightarrow> False)"

definition set_float_placement :: "pane_id \<Rightarrow> float_rect option \<Rightarrow> shared_layout \<Rightarrow> bool \<times> shared_layout" where
  "set_float_placement pid rect l =
     (case workspace_position_of l pid of
        None \<Rightarrow> (False, l)
      | Some position \<Rightarrow>
          (case shared_pane_of (workspaces l ! position) pid of
             None \<Rightarrow> (False, l)
           | Some p \<Rightarrow>
               let floating = (rect \<noteq> None);
                   rect = map_option (\<lambda>rect. float_rect_to_frac rect (canvas_cols l) (canvas_rows l)) rect;
                   changed = (sp_floating p \<noteq> floating \<or> \<not> frac_rect_eq (sp_rect p) rect);
                   l = update_at position (update_pane pid
                         (\<lambda>p. p\<lparr>sp_floating := floating, sp_pinned := sp_pinned p \<and> floating, sp_rect := rect\<rparr>)) l
               in (changed, if sp_floating p \<noteq> floating then settle_tree position l else l)))"

subsection \<open>Moving, swapping, removing\<close>

definition move_pane_fields :: "pane_id \<Rightarrow> nat \<Rightarrow> shared_layout \<Rightarrow> (shared_edit_error + bool) \<times> shared_layout" where
  "move_pane_fields pid target l =
     (case workspace_position_of l pid of
        None \<Rightarrow> (Inl (PaneNotPlaced pid), l)
      | Some source \<Rightarrow>
          if sw_index (workspaces l ! source) = target then (Inr False, l)
          else
            let panes = sw_panes (workspaces l ! source);
                i = the (position_of (\<lambda>p. sp_id p = pid) panes);
                pane = panes ! i;
                l = update_at source (\<lambda>w. w\<lparr>sw_panes := take i panes @ drop (Suc i) panes\<rparr>) l;
                l = settle_tree source l;
                l = ensure_workspace target l;
                destination = workspace_at target l;
                l = (if sp_floating pane then l
                     else
                       let l = settle_tree destination l;
                           w = workspaces l ! destination;
                           tree = append_tiled_leaf (ts_stored_tile_tree (shared_tile_source (doc_canvas l) w)) pid
                                    (axis_of_serialized (sw_start_axis w))
                       in update_at destination (\<lambda>w. w\<lparr>sw_tree := from_dwindle tree Some\<rparr>) l);
                l = update_at destination (\<lambda>w. w\<lparr>sw_panes := sw_panes w @ [pane]\<rparr>) l;
                l = (if sp_fullscreen pane then update_at destination (clear_other_shared_fullscreen pid) l else l)
            in (Inr True, l))"

definition checked :: "(shared_edit_error + bool) \<times> shared_layout \<Rightarrow> (shared_edit_error + bool) \<times> shared_layout" where
  "checked r =
     (case r of
        (Inl e, l) \<Rightarrow> (Inl e, l)
      | (Inr changed, l) \<Rightarrow> (case validate l of Inl e \<Rightarrow> (Inl (InvalidDocument e), l) | Inr _ \<Rightarrow> (Inr changed, l)))"

definition move_pane :: "pane_id \<Rightarrow> nat \<Rightarrow> shared_layout \<Rightarrow> (shared_edit_error + bool) \<times> shared_layout" where
  "move_pane pid target l =
     (let leaves = (case workspace_position_of l pid of
                      Some position \<Rightarrow> sw_index (workspaces l ! position) \<noteq> target | None \<Rightarrow> False);
          (unpinned, l) = (if leaves then set_pinned pid False l else (False, l))
      in checked (case move_pane_fields pid target l of
           (Inl e, l) \<Rightarrow> (Inl e, l)
         | (Inr changed, l) \<Rightarrow> (Inr (changed \<or> unpinned), l)))"

definition swap_pane_fields :: "pane_id \<Rightarrow> pane_id \<Rightarrow> shared_layout \<Rightarrow> (shared_edit_error + bool) \<times> shared_layout" where
  "swap_pane_fields pid other l =
     (case workspace_position_of l pid of
        None \<Rightarrow> (Inl (PaneNotPlaced pid), l)
      | Some position \<Rightarrow>
          (case workspace_position_of l other of
             None \<Rightarrow> (Inl (PaneNotPlaced other), l)
           | Some other_position \<Rightarrow>
               let tiled = (\<lambda>q. list_ex (\<lambda>p. sp_id p = q \<and> \<not> sp_floating p) (sw_panes (workspaces l ! position)))
               in if pid = other \<or> position \<noteq> other_position \<or> \<not> tiled pid \<or> \<not> tiled other
                  then (Inl (NotSwappable pid other), l)
                  else
                    let l = settle_tree position l;
                        known = set (map sp_id (sw_panes (workspaces l ! position)))
                    in (case (case sw_tree (workspaces l ! position) of
                                Some tree \<Rightarrow> dwindle_from_shared tree known | None \<Rightarrow> None) of
                          None \<Rightarrow> (Inl (NotSwappable pid other), l)
                        | Some tree \<Rightarrow>
                            (Inr True, update_at position
                               (\<lambda>w. w\<lparr>sw_tree := from_dwindle (fst (swap_tree_leaves tree pid other)) Some\<rparr>) l))))"

definition swap_panes :: "pane_id \<Rightarrow> pane_id \<Rightarrow> shared_layout \<Rightarrow> (shared_edit_error + bool) \<times> shared_layout" where
  "swap_panes pid other l = checked (swap_pane_fields pid other l)"

definition retain_workspace :: "u16 \<times> u16 \<Rightarrow> pane_id set \<Rightarrow> shared_workspace \<Rightarrow> shared_workspace" where
  "retain_workspace canvas known w =
     (let w' = w\<lparr>sw_panes := filter (\<lambda>p. sp_id p \<in> known) (sw_panes w)\<rparr>
      in if length (sw_panes w) \<noteq> length (sw_panes w') then settle canvas w' else w')"

definition retain_panes :: "pane_id set \<Rightarrow> shared_layout \<Rightarrow> shared_layout" where
  "retain_panes known l = l\<lparr>workspaces := map (retain_workspace (doc_canvas l) known) (workspaces l)\<rparr>"

definition remove_pane :: "pane_id \<Rightarrow> shared_layout \<Rightarrow> nat option \<times> shared_layout" where
  "remove_pane pid l =
     (case workspace_position_of l pid of
        None \<Rightarrow> (None, l)
      | Some position \<Rightarrow>
          (let l = settle_tree position
                 (update_at position (\<lambda>w. w\<lparr>sw_panes := filter (\<lambda>p. sp_id p \<noteq> pid) (sw_panes w)\<rparr>) l)
           in (Some (sw_index (workspaces l ! position)), l)))"

subsection \<open>Editing one pane\<close>

definition apply_shared_pane_sizes :: "u16 \<times> u16 \<Rightarrow> pane_id \<Rightarrow> pane_edit \<Rightarrow> shared_workspace \<Rightarrow> shared_workspace" where
  "apply_shared_pane_sizes canvas pid edit w =
     (let w = (case e_width_ratio edit of
                 Some width \<Rightarrow> update_pane pid (\<lambda>p. p\<lparr>sp_scrollable_width := width\<rparr>) w
               | None \<Rightarrow> w)
      in case e_split_ratio edit of
           Some share \<Rightarrow>
             (let tree = map_option (\<lambda>tree. fst (set_leaf_share tree pid share))
                           (effective_tile_tree (shared_tile_source canvas w) None)
              in w\<lparr>sw_tree := (case tree of Some tree \<Rightarrow> from_dwindle tree Some | None \<Rightarrow> None)\<rparr>)
         | None \<Rightarrow> w)"

text \<open>Derived equality of workspaces: structural, but no \<open>NaN\<close> equals itself.\<close>

definition workspace_floats :: "shared_workspace \<Rightarrow> f32 list" where
  "workspace_floats w =
     sw_split_ratios w @ (case sw_tree w of Some t \<Rightarrow> tree_ratios t | None \<Rightarrow> []) @
     concat (map (\<lambda>p. sp_scrollable_width p #
       (case sp_rect p of Some r \<Rightarrow> [fx r, fy r, fw r, fh r] | None \<Rightarrow> [])) (sw_panes w))"

definition workspace_eq :: "shared_workspace \<Rightarrow> shared_workspace \<Rightarrow> bool" where
  "workspace_eq a b \<longleftrightarrow> a = b \<and> NaN \<notin> set (workspace_floats a)"

definition edit_pane_fields ::
  "pane_id \<Rightarrow> pane_edit \<Rightarrow> shared_layout \<Rightarrow> ((shared_edit_error + bool) \<times> shared_layout) option" where
  "edit_pane_fields pid edit l =
     (let canvas = doc_canvas l in
      case workspace_position_of l pid of
        None \<Rightarrow> Some (Inl (PaneNotPlaced pid), l)
      | Some position \<Rightarrow>
          let before = workspaces l ! position;
              floating_now = (case shared_pane_of before pid of Some p \<Rightarrow> sp_floating p | None \<Rightarrow> False);
              floats = edit_floats edit floating_now
          in do {
            float_rect \<leftarrow> (if floats
               then automation_float_rect before canvas pid (map_option (\<lambda>r. to_cells r canvas) (e_rect edit))
               else Some None);
            let l = (if \<not> floats then snd (set_float_placement pid None l)
                     else case float_rect of
                       Some rect \<Rightarrow>
                         if e_rect edit \<noteq> None \<or> \<not> floating_now then snd (set_float_placement pid (Some rect) l) else l
                     | None \<Rightarrow> l);
            let l = (case e_fullscreen edit of
                       Some fullscreen \<Rightarrow>
                         update_at position (update_pane pid
                           (\<lambda>p. p\<lparr>sp_fullscreen := fullscreen, sp_pinned := sp_pinned p \<and> \<not> fullscreen\<rparr>)) l
                     | None \<Rightarrow> l);
            let l = (if e_fullscreen edit = Some True then update_at position (clear_other_shared_fullscreen pid) l else l);
            let l = update_at position (apply_shared_pane_sizes canvas pid edit) l;
            Some (Inr (\<not> workspace_eq (workspaces l ! position) before), l)
          })"

definition edit_pane :: "pane_id \<Rightarrow> pane_edit \<Rightarrow> shared_layout \<Rightarrow> ((shared_edit_error + bool) \<times> shared_layout) option" where
  "edit_pane pid edit l = map_option checked (edit_pane_fields pid edit l)"

definition pane_in_split :: "pane_id \<Rightarrow> shared_layout \<Rightarrow> bool" where
  "pane_in_split pid l =
     (case workspace_position_of l pid of
        None \<Rightarrow> False
      | Some position \<Rightarrow>
          (case effective_tile_tree (shared_tile_source (doc_canvas l) (workspaces l ! position)) None of
             None \<Rightarrow> False
           | Some tree \<Rightarrow> leaf_share tree pid \<noteq> None))"

subsection \<open>Ratios of a settled tree\<close>

fun dwindle_ratios :: "dwindle_tree \<Rightarrow> f32 set" where
  "dwindle_ratios (Leaf _) = {}"
| "dwindle_ratios (Split _ r first second) = insert r (dwindle_ratios first \<union> dwindle_ratios second)"

definition ratios_good :: "dwindle_tree option \<Rightarrow> bool" where
  "ratios_good t \<longleftrightarrow> (\<forall>u. t = Some u \<longrightarrow> (\<forall>r \<in> dwindle_ratios u. good_ratio r))"

lemma ratios_good_simps [simp]:
  "ratios_good None" "ratios_good (Some u) \<longleftrightarrow> (\<forall>r \<in> dwindle_ratios u. good_ratio r)"
  by (auto simp: ratios_good_def)

lemma tree_ratios_to_shared [simp]: "set (tree_ratios (to_shared t)) = dwindle_ratios t"
  by (induction t) auto

lemma good_default [simp]: "good_ratio DEFAULT_RATIO"
  by (auto simp: good_ratio_def ratio_constants intro: exI [of _ "9730785 / 16777216"])

lemma good_clamp [simp]: "good_ratio (clamp_split_ratio r)"
  using clamp_split_ratio_bounds [of r] by (auto simp: good_ratio_def)

lemma good_ratio_at [simp]: "good_ratio (ratio_at ratios i)"
  by (simp add: ratio_at_def)

lemma good_rejoin: "good_ratio r \<Longrightarrow> ratios_good a \<Longrightarrow> ratios_good b \<Longrightarrow> ratios_good (rejoin axis r a b)"
  by (auto simp: rejoin_def split: option.split)

lemma good_prune: "(\<forall>r \<in> dwindle_ratios t. good_ratio r) \<Longrightarrow> ratios_good (prune_tree_to_ids t ids)"
  by (induction t) (auto intro!: good_rejoin)

lemma good_build: "ratios_good (build_dwindle_tree ids axis ratios)"
proof -
  have "ratios_good (build_dwindle_tree_at ids axis ratios depth)" for depth
    by (induction ids axis ratios depth rule: build_dwindle_tree_at.induct) (auto split: option.split)
  then show ?thesis by (simp add: build_dwindle_tree_def)
qed

lemma good_append: "ratios_good t \<Longrightarrow> r \<in> dwindle_ratios (append_tiled_leaf t pid axis) \<Longrightarrow> good_ratio r"
proof (cases t)
  case (Some u)
  have "dwindle_ratios (append_tiled_leaf_at u pid axis depth) \<subseteq> insert DEFAULT_RATIO (dwindle_ratios u)" for depth
    by (induction u arbitrary: depth) fastforce+
  from this [of 0] show "ratios_good t \<Longrightarrow> r \<in> dwindle_ratios (append_tiled_leaf t pid axis) \<Longrightarrow> good_ratio r"
    using Some by auto
qed simp

lemma good_fold: "ratios_good t \<Longrightarrow> ratios_good (fold (append_missing axis) ids t)"
  by (induction ids arbitrary: t) (auto simp: append_missing_def good_append)

lemma good_effective: "ratios_good (ts_stored_tile_tree ts) \<Longrightarrow> ratios_good (effective_tile_tree ts exclude)"
proof -
  assume good: "ratios_good (ts_stored_tile_tree ts)"
  have "ratios_good (case ts_stored_tile_tree ts of Some tree \<Rightarrow> prune_tree_to_ids tree ids | None \<Rightarrow> None)" for ids
    using good good_prune by (cases "ts_stored_tile_tree ts") auto
  moreover have "ratios_good (case t of Some tree \<Rightarrow> Some tree | None \<Rightarrow> build_dwindle_tree ids axis ratios)" if "ratios_good t" for t ids axis ratios
    using that good_build by (cases t) auto
  ultimately show ?thesis
    unfolding effective_tile_tree_def Let_def by (auto intro!: good_fold simp del: ratios_good_simps) simp
qed

lemma good_stored: "(\<forall>r \<in> set (tree_ratios t). good_ratio r) \<Longrightarrow> ratios_good (dwindle_from_shared t known)"
  unfolding dwindle_from_shared_def
  by (induction t) (auto simp: to_dwindle_eq_rejoin simp del: to_dwindle.simps(2) intro!: good_rejoin)

lemma dwindle_ratios_swap [simp]: "dwindle_ratios (swap_tree_leaves_inner t a b) = dwindle_ratios t"
  by (induction t) auto

subsection \<open>One workspace of the document\<close>

definition shared_tiled :: "shared_workspace \<Rightarrow> pane_id list" where
  "shared_tiled w = map sp_id (filter (\<lambda>p. \<not> sp_floating p) (sw_panes w))"

definition tiling_order :: "u16 \<times> u16 \<Rightarrow> shared_workspace \<Rightarrow> pane_id list" where
  "tiling_order canvas w = ordered_tiled_ids (shared_tile_source canvas w)"

text \<open>A valid workspace, except that its tree may still name panes that have left.\<close>

definition settleable :: "shared_workspace \<Rightarrow> bool" where
  "settleable w \<longleftrightarrow>
     sw_index w < WORKSPACE_COUNT \<and> (\<forall>p \<in> set (sw_panes w). valid_pane p) \<and> distinct (map sp_id (sw_panes w)) \<and>
     (\<forall>r \<in> set (sw_split_ratios w). good_ratio r) \<and>
     (\<forall>t. sw_tree w = Some t \<longrightarrow> distinct (sleaves t) \<and> (\<forall>r \<in> set (tree_ratios t). good_ratio r))"

lemma settleable_wf: "settleable w \<Longrightarrow> wf_shared w"
  by (cases "sw_tree w") (simp_all add: settleable_def wf_shared_def)

lemma valid_settleable: "valid_workspace w \<Longrightarrow> distinct (map sp_id (sw_panes w)) \<Longrightarrow> settleable w"
  by (simp add: valid_workspace_def settleable_def valid_tree_def)

lemma source_fields [simp]:
  "ts_tiled_ids (shared_tile_source canvas w) = shared_tiled w"
  by (simp add: shared_tile_source_def shared_tiled_def Let_def)

lemma source_tree:
  "opt_leaves (ts_stored_tile_tree (shared_tile_source canvas w)) =
     filter (\<lambda>pid. pid \<in> set (map sp_id (sw_panes w))) (opt_sleaves (sw_tree w))"
  by (cases "sw_tree w") (simp_all add: shared_tile_source_def Let_def dwindle_from_shared_leaves)

lemma shared_tiled_known: "set (shared_tiled w) \<subseteq> set (map sp_id (sw_panes w))"
  by (auto simp: shared_tiled_def)

lemma tiling_order_eq:
  assumes "distinct (shared_tiled w)"
  shows "tiling_order canvas w =
    filter (\<lambda>pid. pid \<in> set (shared_tiled w)) (opt_sleaves (sw_tree w)) @
    filter (\<lambda>pid. pid \<notin> set (opt_sleaves (sw_tree w))) (shared_tiled w)"
proof -
  have "filter (\<lambda>pid. pid \<in> set (shared_tiled w)) (filter (\<lambda>pid. pid \<in> set (map sp_id (sw_panes w))) xs) =
      filter (\<lambda>pid. pid \<in> set (shared_tiled w)) xs" for xs
    using shared_tiled_known [of w] unfolding filter_filter by (intro filter_cong) auto
  moreover have "filter (\<lambda>pid. pid \<notin> set (filter (\<lambda>pid. pid \<in> set (map sp_id (sw_panes w))) xs)) (shared_tiled w) =
      filter (\<lambda>pid. pid \<notin> set xs) (shared_tiled w)" for xs
    using shared_tiled_known [of w] by (intro filter_cong) auto
  ultimately show ?thesis
    using assms by (simp only: tiling_order_def ordered_tiled_ids_eq source_fields source_tree)
qed

lemma distinct_tiled: "distinct (map sp_id (sw_panes w)) \<Longrightarrow> distinct (shared_tiled w)"
  by (auto simp: shared_tiled_def distinct_map intro: inj_on_subset)

lemma settleable_distinct [simp]: "settleable w \<Longrightarrow> distinct (map sp_id (sw_panes w))"
  by (simp add: settleable_def)

lemma settle_fields [simp]:
  "sw_index (settle c w) = sw_index w" "sw_panes (settle c w) = sw_panes w"
  "sw_split_ratios (settle c w) = sw_split_ratios w" "sw_start_axis (settle c w) = sw_start_axis w"
  "sw_layout (settle c w) = sw_layout w" "sw_name (settle c w) = sw_name w" "sw_synchronized (settle c w) = sw_synchronized w"
  "shared_tiled (settle c w) = shared_tiled w"
  by (simp_all add: settle_def shared_tiled_def)

lemma settle_tree_eq: "sw_tree (settle c w) = map_option to_shared (effective_tile_tree (shared_tile_source c w) None)"
  by (cases "effective_tile_tree (shared_tile_source c w) None") (simp_all add: settle_def)

lemma opt_sleaves_map [simp]: "opt_sleaves (map_option to_shared t) = opt_leaves t"
  by (cases t) simp_all

lemma settle_leaves: "settleable w \<Longrightarrow> opt_sleaves (sw_tree (settle c w)) = tiling_order c w"
  using document.effective_leaves [OF settleable_wf, of w c None]
  by (simp add: settle_tree_eq order_driven_ids_def tiling_order_def)

lemma set_tiling_order: "settleable w \<Longrightarrow> set (tiling_order c w) = set (shared_tiled w)"
  using document.set_ordered [OF settleable_wf, of w c] by (simp add: tiling_order_def)

lemma distinct_tiling_order: "settleable w \<Longrightarrow> distinct (tiling_order c w)"
  using document.distinct_ordered [OF settleable_wf, of w c] by (simp add: tiling_order_def)

lemma tiling_order_of_leaves:
  assumes "distinct (shared_tiled w)" "set (opt_sleaves (sw_tree w)) = set (shared_tiled w)"
  shows "tiling_order c w = opt_sleaves (sw_tree w)"
  using assms by (simp add: tiling_order_eq filter_id_conv filter_empty_conv)

lemma tiling_order_settle: "settleable w \<Longrightarrow> tiling_order c (settle c w) = tiling_order c w"
  using tiling_order_of_leaves [of "settle c w" c] by (simp add: settle_leaves set_tiling_order distinct_tiled)

lemma settleable_ratios: "settleable w \<Longrightarrow> ratios_good (effective_tile_tree (shared_tile_source c w) None)"
proof (rule good_effective)
  assume "settleable w"
  then show "ratios_good (ts_stored_tile_tree (shared_tile_source c w))"
    using good_stored by (cases "sw_tree w") (auto simp: shared_tile_source_def Let_def settleable_def)
qed

lemma settle_valid:
  assumes "settleable w"
  shows "valid_workspace (settle c w)" "settleable (settle c w)"
proof -
  have "valid_tree t (set (map sp_id (sw_panes w)))" if tree: "sw_tree (settle c w) = Some t" for t
  proof -
    obtain u where u: "effective_tile_tree (shared_tile_source c w) None = Some u" "t = to_shared u"
      using tree settle_tree_eq [of c w] by (cases "effective_tile_tree (shared_tile_source c w) None") auto
    have "sleaves t = tiling_order c w" using settle_leaves [OF assms, of c] tree by simp
    moreover have "\<forall>r \<in> set (tree_ratios t). good_ratio r" using settleable_ratios [OF assms, of c] u by simp
    ultimately show ?thesis
      using set_tiling_order [OF assms, of c] distinct_tiling_order [OF assms, of c] shared_tiled_known [of w]
      by (simp add: valid_tree_def)
  qed
  then show "valid_workspace (settle c w)" using assms by (simp add: valid_workspace_def settleable_def)
  then show "settleable (settle c w)" using assms by (simp add: valid_settleable)
qed

lemma stored_settle:
  assumes "settleable w"
  shows "ts_stored_tile_tree (shared_tile_source c (settle c w)) = effective_tile_tree (shared_tile_source c w) None"
proof (cases "effective_tile_tree (shared_tile_source c w) None")
  case None
  then show ?thesis by (simp add: shared_tile_source_def Let_def settle_tree_eq)
next
  case (Some t)
  have "set (leaves t) \<subseteq> set (map sp_id (sw_panes w))"
    using document.set_effective [OF settleable_wf [OF assms], of c None] shared_tiled_known [of w] Some by simp
  then have "dwindle_from_shared (to_shared t) (set (map sp_id (sw_panes w))) = Some t"
    by (simp only: dwindle_from_to_shared [OF refl] prune_all)
  then show ?thesis using Some by (simp add: shared_tile_source_def Let_def settle_tree_eq)
qed

subsection \<open>A pane leaves or arrives\<close>

definition depart :: "u16 \<times> u16 \<Rightarrow> pane_id \<Rightarrow> shared_workspace \<Rightarrow> shared_workspace" where
  "depart c pid w = settle c (w\<lparr>sw_panes := filter (\<lambda>p. sp_id p \<noteq> pid) (sw_panes w)\<rparr>)"

definition arrive :: "u16 \<times> u16 \<Rightarrow> shared_pane \<Rightarrow> shared_workspace \<Rightarrow> shared_workspace" where
  "arrive c p w =
     (let w = (if sp_floating p then w
               else (settle c w)\<lparr>sw_tree := Some (to_shared (append_tiled_leaf
                 (effective_tile_tree (shared_tile_source c w) None) (sp_id p) (axis_of_serialized (sw_start_axis w))))\<rparr>);
          w = w\<lparr>sw_panes := sw_panes w @ [p]\<rparr>
      in if sp_fullscreen p then clear_other_shared_fullscreen (sp_id p) w else w)"

lemma remove_first_filter:
  "distinct (map f xs) \<Longrightarrow> position_of (\<lambda>y. f y = a) xs = Some i \<Longrightarrow>
    take i xs @ drop (Suc i) xs = filter (\<lambda>y. f y \<noteq> a) xs"
proof (induction xs arbitrary: i)
  case (Cons x xs)
  show ?case
  proof (cases "f x = a")
    case True
    then have "a \<notin> f ` set xs" using Cons.prems(1) by simp
    then have "filter (\<lambda>y. f y \<noteq> a) xs = xs" unfolding filter_id_conv by blast
    then show ?thesis using True Cons.prems(2) by simp
  next
    case False
    then show ?thesis using Cons by auto
  qed
qed simp

lemma settleable_filter: "settleable w \<Longrightarrow> settleable (w\<lparr>sw_panes := filter P (sw_panes w)\<rparr>)"
  by (auto simp: settleable_def distinct_map intro: inj_on_subset)

lemma map_filter_id: "map sp_id (filter (\<lambda>p. P p \<and> sp_id p \<noteq> pid) ps) = filter (\<lambda>x. x \<noteq> pid) (map sp_id (filter P ps))"
  by (induction ps) auto

lemma tiling_order_filter:
  assumes "settleable w"
  shows "tiling_order c (w\<lparr>sw_panes := filter (\<lambda>p. sp_id p \<noteq> pid) (sw_panes w)\<rparr>) = filter (\<lambda>x. x \<noteq> pid) (tiling_order c w)"
proof -
  let ?w = "w\<lparr>sw_panes := filter (\<lambda>p. sp_id p \<noteq> pid) (sw_panes w)\<rparr>"
  have tiled: "shared_tiled ?w = filter (\<lambda>x. x \<noteq> pid) (shared_tiled w)"
    by (simp add: shared_tiled_def map_filter_id conj_commute)
  have "distinct (shared_tiled w)" using assms by (simp add: distinct_tiled)
  moreover from this have "distinct (shared_tiled ?w)" by (simp add: tiled)
  ultimately show ?thesis by (simp add: tiling_order_eq tiled conj_commute)
qed

lemma depart_facts:
  assumes "settleable w"
  shows "valid_workspace (depart c pid w)" "sw_index (depart c pid w) = sw_index w"
    "sw_panes (depart c pid w) = filter (\<lambda>p. sp_id p \<noteq> pid) (sw_panes w)"
    "tiling_order c (depart c pid w) = filter (\<lambda>x. x \<noteq> pid) (tiling_order c w)"
  using settle_valid [OF settleable_filter [OF assms]] tiling_order_settle [OF settleable_filter [OF assms]] tiling_order_filter [OF assms]
  by (simp_all add: depart_def)

lemma clear_fields [simp]:
  "sw_index (clear_other_shared_fullscreen pid w) = sw_index w" "sw_tree (clear_other_shared_fullscreen pid w) = sw_tree w"
  "sw_split_ratios (clear_other_shared_fullscreen pid w) = sw_split_ratios w"
  "map sp_id (sw_panes (clear_other_shared_fullscreen pid w)) = map sp_id (sw_panes w)"
  "sp_id ` set (sw_panes (clear_other_shared_fullscreen pid w)) = sp_id ` set (sw_panes w)"
proof -
  show ids: "map sp_id (sw_panes (clear_other_shared_fullscreen pid w)) = map sp_id (sw_panes w)"
    by (simp add: clear_other_shared_fullscreen_def)
  show "sp_id ` set (sw_panes (clear_other_shared_fullscreen pid w)) = sp_id ` set (sw_panes w)"
    using arg_cong [OF ids, of set] by simp
qed (simp_all add: clear_other_shared_fullscreen_def)

lemma valid_pane_unfullscreen: "valid_pane p \<Longrightarrow> valid_pane (p\<lparr>sp_fullscreen := False\<rparr>)"
  by (auto simp: valid_pane_def)

lemma clear_valid: "valid_workspace w \<Longrightarrow> valid_workspace (clear_other_shared_fullscreen pid w)"
proof -
  assume w: "valid_workspace w"
  have "\<forall>p \<in> set (sw_panes (clear_other_shared_fullscreen pid w)). valid_pane p"
    using w valid_pane_unfullscreen by (auto simp: clear_other_shared_fullscreen_def valid_workspace_def)
  then show ?thesis using w unfolding valid_workspace_def by simp
qed

lemma shared_tiled_clear [simp]: "shared_tiled (clear_other_shared_fullscreen pid w) = shared_tiled w"
proof -
  have "map sp_id (filter (\<lambda>p. \<not> sp_floating p) (map (\<lambda>p. if sp_id p \<noteq> pid then p\<lparr>sp_fullscreen := False\<rparr> else p) ps)) =
      map sp_id (filter (\<lambda>p. \<not> sp_floating p) ps)" for ps
    by (induction ps) auto
  then show ?thesis by (simp add: shared_tiled_def clear_other_shared_fullscreen_def)
qed

lemma arrive_facts:
  assumes w: "valid_workspace w" "distinct (map sp_id (sw_panes w))" and p: "valid_pane p" "sp_id p \<notin> set (map sp_id (sw_panes w))"
  shows "valid_workspace (arrive c p w)" "sw_index (arrive c p w) = sw_index w"
    "map sp_id (sw_panes (arrive c p w)) = map sp_id (sw_panes w) @ [sp_id p]"
    "tiling_order c (arrive c p w) = tiling_order c w @ (if sp_floating p then [] else [sp_id p])"
proof -
  define w1 where "w1 = (if sp_floating p then w
               else (settle c w)\<lparr>sw_tree := Some (to_shared (append_tiled_leaf
                 (effective_tile_tree (shared_tile_source c w) None) (sp_id p) (axis_of_serialized (sw_start_axis w))))\<rparr>)"
  define w2 where "w2 = w1\<lparr>sw_panes := sw_panes w1 @ [p]\<rparr>"
  have arrive: "arrive c p w = (if sp_fullscreen p then clear_other_shared_fullscreen (sp_id p) w2 else w2)"
    by (simp add: arrive_def Let_def w1_def [symmetric] w2_def [symmetric] del: settle_fields)
  note st = valid_settleable [OF w]
  have index: "sw_index w2 = sw_index w" and panes: "sw_panes w2 = sw_panes w @ [p]"
    and ratios: "sw_split_ratios w2 = sw_split_ratios w"
    by (simp_all add: w2_def w1_def)
  have tiled: "shared_tiled w2 = shared_tiled w @ (if sp_floating p then [] else [sp_id p])"
    by (simp add: shared_tiled_def panes)
  have new: "sp_id p \<notin> set (shared_tiled w)" using p(2) shared_tiled_known [of w] by auto
  have dist: "distinct (shared_tiled w2)" using tiled new distinct_tiled [OF w(2)] by simp
  have leaves: "opt_sleaves (sw_tree w2) = (if sp_floating p then opt_sleaves (sw_tree w) else tiling_order c w @ [sp_id p])"
    using settle_leaves [OF st, of c] by (simp add: w2_def w1_def settle_tree_eq)
  have tree: "valid_tree t (set (map sp_id (sw_panes w2)))" if t: "sw_tree w2 = Some t" for t
  proof (cases "sp_floating p")
    case True
    then have "sw_tree w = Some t" using t by (simp add: w2_def w1_def)
    then have "valid_tree t (set (map sp_id (sw_panes w)))" using w(1) by (simp add: valid_workspace_def)
    then show ?thesis unfolding valid_tree_def panes by auto
  next
    case False
    have "sleaves t = tiling_order c w @ [sp_id p]" using leaves t False by simp
    moreover have "\<forall>r \<in> set (tree_ratios t). good_ratio r"
    proof -
      have "t = to_shared (append_tiled_leaf (effective_tile_tree (shared_tile_source c w) None) (sp_id p) (axis_of_serialized (sw_start_axis w)))"
        using t False by (simp add: w2_def w1_def)
      then show ?thesis using good_append [OF settleable_ratios [OF st]] by simp
    qed
    ultimately show ?thesis
      using set_tiling_order [OF st, of c] distinct_tiling_order [OF st, of c] shared_tiled_known [of w] new
      unfolding valid_tree_def panes by auto
  qed
  have valid: "valid_workspace w2"
    using w(1) p(1) tree unfolding valid_workspace_def index ratios by (simp add: panes)
  have order: "tiling_order c w2 = tiling_order c w @ (if sp_floating p then [] else [sp_id p])"
  proof (cases "sp_floating p")
    case True
    then have eqs: "shared_tiled w2 = shared_tiled w" "opt_sleaves (sw_tree w2) = opt_sleaves (sw_tree w)"
      by (simp_all add: tiled leaves)
    show ?thesis using True tiling_order_eq [OF dist] tiling_order_eq [OF distinct_tiled [OF w(2)]] by (simp add: eqs)
  next
    case False
    then have "opt_sleaves (sw_tree w2) = tiling_order c w @ [sp_id p]" by (simp add: leaves)
    then show ?thesis
      using False tiled set_tiling_order [OF st, of c] tiling_order_of_leaves [OF dist] by simp
  qed
  have clear: "tiling_order c (clear_other_shared_fullscreen pid w2) = tiling_order c w2" for pid
    using dist by (simp add: tiling_order_eq)
  show "valid_workspace (arrive c p w)" using valid clear_valid by (simp add: arrive)
  show "sw_index (arrive c p w) = sw_index w" by (simp add: arrive index)
  show "map sp_id (sw_panes (arrive c p w)) = map sp_id (sw_panes w) @ [sp_id p]" by (simp add: arrive panes)
  show "tiling_order c (arrive c p w) = tiling_order c w @ (if sp_floating p then [] else [sp_id p])"
    using order clear by (simp add: arrive)
qed

subsection \<open>Changing workspaces of a document\<close>

abbreviation pane_ids :: "shared_workspace \<Rightarrow> pane_id list" where
  "pane_ids w \<equiv> map sp_id (sw_panes w)"

definition workspace_of :: "nat \<Rightarrow> shared_layout \<Rightarrow> shared_workspace option" where
  "workspace_of index l = find (\<lambda>w. sw_index w = index) (workspaces l)"

lemma canvas_update [simp]:
  "doc_canvas (update_at i f l) = doc_canvas l" "doc_canvas (ensure_workspace t l) = doc_canvas l"
  "doc_canvas (settle_tree i l) = doc_canvas l" "doc_canvas (l\<lparr>workspaces := ws\<rparr>) = doc_canvas l"
  by (simp_all add: doc_canvas_def update_at_def ensure_workspace_def settle_tree_def)

lemma header_update [simp]:
  "version (update_at i f l) = version l" "canvas_cols (update_at i f l) = canvas_cols l"
  "canvas_rows (update_at i f l) = canvas_rows l" "pane_geometry (update_at i f l) = pane_geometry l"
  "version (ensure_workspace t l) = version l" "canvas_cols (ensure_workspace t l) = canvas_cols l"
  "canvas_rows (ensure_workspace t l) = canvas_rows l" "pane_geometry (ensure_workspace t l) = pane_geometry l"
  by (simp_all add: update_at_def ensure_workspace_def)

lemma length_update [simp]: "length (workspaces (update_at i f l)) = length (workspaces l)"
  by (simp add: update_at_def)

lemma nth_update [simp]: "i < length (workspaces l) \<Longrightarrow> workspaces (update_at i f l) ! i = f (workspaces l ! i)"
  by (simp add: update_at_def)

lemma update_update [simp]:
  "i < length (workspaces l) \<Longrightarrow> update_at i g (update_at i f l) = update_at i (\<lambda>w. g (f w)) l"
  by (simp add: update_at_def)

lemma mset_all_pane_ids: "mset (all_pane_ids ws) = (\<Sum>w \<in># mset ws. mset (pane_ids w))"
  by (induction ws) (simp_all add: all_pane_ids_def)

lemma mset_ids_update:
  "i < length ws \<Longrightarrow> mset (all_pane_ids (ws[i := w])) + mset (pane_ids (ws ! i)) = mset (all_pane_ids ws) + mset (pane_ids w)"
proof (induction ws arbitrary: i)
  case (Cons v ws)
  then show ?case by (cases i) (auto simp: all_pane_ids_def ac_simps)
qed simp

lemma all_pane_ids_ensure [simp]: "mset (all_pane_ids (workspaces (ensure_workspace t l))) = mset (all_pane_ids (workspaces l))"
proof -
  have "mset (workspaces (ensure_workspace t l)) = mset (workspaces l) \<or>
      mset (workspaces (ensure_workspace t l)) = add_mset (fresh_workspace t) (mset (workspaces l))"
    by (simp add: ensure_workspace_def)
  then show ?thesis unfolding mset_all_pane_ids by (auto simp: fresh_workspace_def)
qed

lemma set_ensure: "set (workspaces (ensure_workspace t l)) =
    (if \<exists>w \<in> set (workspaces l). sw_index w = t then set (workspaces l) else insert (fresh_workspace t) (set (workspaces l)))"
  by (auto simp: ensure_workspace_def list_ex_iff)

lemma fresh_valid: "t < WORKSPACE_COUNT \<Longrightarrow> valid_workspace (fresh_workspace t)"
  by (simp add: valid_workspace_def fresh_workspace_def default_split_ratios_def)

lemma fresh_index [simp]: "sw_index (fresh_workspace t) = t" "sw_panes (fresh_workspace t) = []"
  by (simp_all add: fresh_workspace_def)

lemma ensure_valid:
  assumes "valid_layout l" "t < WORKSPACE_COUNT"
  shows "valid_layout (ensure_workspace t l)"
proof -
  have "mset (map sw_index (workspaces (ensure_workspace t l))) =
      (if t \<in> set (map sw_index (workspaces l)) then mset (map sw_index (workspaces l))
       else add_mset t (mset (map sw_index (workspaces l))))"
    by (auto simp: ensure_workspace_def list_ex_iff)
  then have "distinct (map sw_index (workspaces (ensure_workspace t l)))"
    using assms(1) unfolding valid_layout_def by (metis distinct.simps(2) mset.simps(2) mset_eq_imp_distinct_iff)
  moreover have "distinct (all_pane_ids (workspaces (ensure_workspace t l)))"
    using assms(1) mset_eq_imp_distinct_iff [OF all_pane_ids_ensure, of t l] by (simp add: valid_layout_def)
  moreover have "\<forall>w \<in> set (workspaces (ensure_workspace t l)). valid_workspace w"
    using assms fresh_valid by (auto simp: set_ensure valid_layout_def)
  ultimately show ?thesis using assms(1) by (simp add: valid_layout_def)
qed

lemma update_valid:
  assumes "valid_layout l" "i < length (workspaces l)" "valid_workspace (f (workspaces l ! i))"
    and "sw_index (f (workspaces l ! i)) = sw_index (workspaces l ! i)"
    and "distinct (all_pane_ids (workspaces (update_at i f l)))"
  shows "valid_layout (update_at i f l)"
proof -
  have "map sw_index ((workspaces l)[i := f (workspaces l ! i)]) = map sw_index (workspaces l)"
    using assms(2,4) by (simp add: map_update list_update_same_conv)
  moreover have "\<forall>w \<in> set ((workspaces l)[i := f (workspaces l ! i)]). valid_workspace w"
    using assms(1,3) set_update_subset_insert [of "workspaces l" i] by (auto simp: valid_layout_def)
  ultimately show ?thesis using assms(1,5) by (simp add: valid_layout_def update_at_def)
qed

lemma distinct_submset: "mset ys \<subseteq># mset xs \<Longrightarrow> distinct xs \<Longrightarrow> distinct ys"
proof -
  assume sub: "mset ys \<subseteq># mset xs" and "distinct xs"
  then have "count (mset xs) a \<le> 1" for a by (simp add: distinct_count_atmost_1)
  then have "count (mset ys) a \<le> 1" for a using mset_subset_eq_count [OF sub, of a] le_trans by blast
  then have "count (mset ys) a = (if a \<in> set ys then 1 else 0)" for a
    using count_greater_zero_iff [of "mset ys" a] by (cases "count (mset ys) a") (auto simp: le_Suc_eq)
  then show "distinct ys" by (simp add: distinct_count_atmost_1)
qed

lemma distinct_minus: "distinct xs \<Longrightarrow> mset ys = mset xs - {#x#} \<Longrightarrow> x \<notin> set ys"
proof -
  assume "distinct xs" and eq: "mset ys = mset xs - {#x#}"
  then have "count (mset xs) x \<le> 1" by (simp add: distinct_count_atmost_1)
  then have "count (mset ys) x = 0" unfolding eq by simp
  then show ?thesis by (simp add: count_mset_0_iff)
qed

lemma distinct_update:
  assumes "distinct (all_pane_ids (workspaces l))" "i < length (workspaces l)"
    and "mset (pane_ids (f (workspaces l ! i))) \<subseteq># mset (pane_ids (workspaces l ! i))"
  shows "distinct (all_pane_ids (workspaces (update_at i f l)))"
proof -
  have "mset (all_pane_ids (workspaces (update_at i f l))) \<subseteq># mset (all_pane_ids (workspaces l))"
  proof -
    obtain C where "mset (pane_ids (workspaces l ! i)) = mset (pane_ids (f (workspaces l ! i))) + C"
      using assms(3) by (auto simp: mset_subset_eq_exists_conv)
    then have "mset (all_pane_ids (workspaces l)) = mset (all_pane_ids (workspaces (update_at i f l))) + C"
      using mset_ids_update [OF assms(2), of "f (workspaces l ! i)"] by (simp add: update_at_def ac_simps)
    then show ?thesis by simp
  qed
  then show ?thesis
    using assms(1) by (rule distinct_submset)
qed

lemma distinct_pane_ids: "distinct (all_pane_ids ws) \<Longrightarrow> w \<in> set ws \<Longrightarrow> distinct (pane_ids w)"
  by (induction ws) (auto simp: all_pane_ids_def)

lemma position_workspace:
  assumes "workspace_position_of l pid = Some i"
  shows "i < length (workspaces l)" "pid \<in> set (pane_ids (workspaces l ! i))"
  using position_of_Some [OF assms [unfolded workspace_position_of_def]] by (auto simp: list_ex_iff)

lemma workspace_at_spec:
  assumes "\<exists>w \<in> set (workspaces l). sw_index w = t"
  shows "workspace_at t l < length (workspaces l)" "sw_index (workspaces l ! workspace_at t l) = t"
proof -
  obtain i where "position_of (\<lambda>w. sw_index w = t) (workspaces l) = Some i"
    using assms by (cases "position_of (\<lambda>w. sw_index w = t) (workspaces l)") auto
  then show "workspace_at t l < length (workspaces l)" "sw_index (workspaces l ! workspace_at t l) = t"
    using position_of_Some by (fastforce simp: workspace_at_def)+
qed

lemma workspace_at_ensure:
  "workspace_at t (ensure_workspace t l) < length (workspaces (ensure_workspace t l))"
  "sw_index (workspaces (ensure_workspace t l) ! workspace_at t (ensure_workspace t l)) = t"
  by (rule workspace_at_spec; auto simp: set_ensure)+

lemma workspace_of_iff:
  "distinct (map sw_index (workspaces l)) \<Longrightarrow> workspace_of t l = Some w \<longleftrightarrow> w \<in> set (workspaces l) \<and> sw_index w = t"
proof -
  assume dist: "distinct (map sw_index (workspaces l))"
  have "workspace_of (sw_index w) l = Some w" if "w \<in> set (workspaces l)"
    using find_unique [OF dist that] by (simp add: workspace_of_def)
  moreover have "w \<in> set (workspaces l) \<and> sw_index w = t" if "workspace_of t l = Some w"
    using that by (auto simp: workspace_of_def find_Some_iff)
  ultimately show ?thesis by auto
qed

lemma index_update [simp]:
  "i < length (workspaces l) \<Longrightarrow> sw_index (f (workspaces l ! i)) = sw_index (workspaces l ! i) \<Longrightarrow>
    map sw_index (workspaces (update_at i f l)) = map sw_index (workspaces l)"
  by (simp add: update_at_def map_update list_update_same_conv)

lemma set_update_at:
  "i < length (workspaces l) \<Longrightarrow> set (workspaces (update_at i f l)) \<subseteq> insert (f (workspaces l ! i)) (set (workspaces l))"
  by (simp add: update_at_def set_update_subset_insert)

text \<open>An update of one workspace, seen through the index.\<close>

lemma workspace_of_update:
  assumes "distinct (map sw_index (workspaces l))" "i < length (workspaces l)" "sw_index (f (workspaces l ! i)) = sw_index (workspaces l ! i)"
  shows "workspace_of t (update_at i f l) = (if t = sw_index (workspaces l ! i) then Some (f (workspaces l ! i)) else workspace_of t l)"
proof -
  have dist: "map sw_index (workspaces (update_at i f l)) = map sw_index (workspaces l)" using assms(2,3) by simp
  show ?thesis
  proof (cases "t = sw_index (workspaces l ! i)")
    case True
    have "f (workspaces l ! i) \<in> set (workspaces (update_at i f l))"
      using assms(2) nth_mem [of i "workspaces (update_at i f l)"] by simp
    then show ?thesis using True assms dist by (simp add: workspace_of_iff)
  next
    case False
    have "w \<in> set (workspaces (update_at i f l)) \<longleftrightarrow> w \<in> set (workspaces l)" if "sw_index w = t" for w
      using that False assms(2,3) by (auto simp: update_at_def in_set_conv_nth nth_list_update split: if_splits)
    then have "workspace_of t (update_at i f l) = Some w \<longleftrightarrow> workspace_of t l = Some w" for w
      using assms(1) dist by (auto simp: workspace_of_iff)
    then show ?thesis using False by (metis (full_types) not_Some_eq)
  qed
qed

lemma workspace_of_nth:
  "distinct (map sw_index (workspaces l)) \<Longrightarrow> i < length (workspaces l) \<Longrightarrow>
    workspace_of (sw_index (workspaces l ! i)) l = Some (workspaces l ! i)"
  by (simp add: workspace_of_iff)

lemma workspace_of_ensure:
  assumes "valid_layout l" "t < WORKSPACE_COUNT"
  shows "workspace_of u (ensure_workspace t l) =
    (if u = t \<and> workspace_of t l = None then Some (fresh_workspace t) else workspace_of u l)"
proof -
  have d: "distinct (map sw_index (workspaces l))" "distinct (map sw_index (workspaces (ensure_workspace t l)))"
    using assms(1) ensure_valid [OF assms] by (simp_all add: valid_layout_def)
  have none: "workspace_of v l = None \<longleftrightarrow> \<not> (\<exists>w \<in> set (workspaces l). sw_index w = v)" for v
    by (auto simp: workspace_of_def find_None_iff)
  have "workspace_of u (ensure_workspace t l) = Some w \<longleftrightarrow>
      (if u = t \<and> workspace_of t l = None then Some (fresh_workspace t) else workspace_of u l) = Some w" for w
    using d none by (auto simp: workspace_of_iff set_ensure)
  then show ?thesis by (metis (full_types) not_Some_eq)
qed

subsection \<open>Changing one pane\<close>

lemma update_pane_map:
  "distinct (pane_ids w) \<Longrightarrow>
    update_pane pid f w = w\<lparr>sw_panes := map (\<lambda>p. if sp_id p = pid then f p else p) (sw_panes w)\<rparr>"
proof -
  have "(case position_of (\<lambda>p. sp_id p = pid) ps of Some i \<Rightarrow> ps[i := f (ps ! i)] | None \<Rightarrow> ps) =
      map (\<lambda>p. if sp_id p = pid then f p else p) ps" if "distinct (map sp_id ps)" for ps
    using that
  proof (induction ps)
    case (Cons p ps)
    show ?case
    proof (cases "sp_id p = pid")
      case True
      then have "pid \<notin> sp_id ` set ps" using Cons.prems by simp
      then have "map (\<lambda>p. if sp_id p = pid then f p else p) ps = ps" by (auto intro!: map_idI)
      then show ?thesis using True by simp
    next
      case False
      then show ?thesis
        using Cons by (cases "position_of (\<lambda>p. sp_id p = pid) ps") (simp_all del: position_of_None)
    qed
  qed simp
  moreover have "update_pane pid f w = w\<lparr>sw_panes := (case position_of (\<lambda>p. sp_id p = pid) (sw_panes w) of
      Some i \<Rightarrow> (sw_panes w)[i := f (sw_panes w ! i)] | None \<Rightarrow> sw_panes w)\<rparr>"
    by (cases "position_of (\<lambda>p. sp_id p = pid) (sw_panes w)") (simp_all add: update_pane_def del: position_of_None)
  moreover assume "distinct (pane_ids w)"
  ultimately show "update_pane pid f w = w\<lparr>sw_panes := map (\<lambda>p. if sp_id p = pid then f p else p) (sw_panes w)\<rparr>"
    by simp
qed

lemma update_pane_facts:
  assumes "distinct (pane_ids w)" "\<And>p. sp_id (f p) = sp_id p"
  shows "pane_ids (update_pane pid f w) = pane_ids w" "sw_index (update_pane pid f w) = sw_index w"
    "sw_tree (update_pane pid f w) = sw_tree w" "sw_split_ratios (update_pane pid f w) = sw_split_ratios w"
  using assms by (simp_all add: update_pane_map comp_def if_distrib cong: if_cong)

lemma update_pane_tiled:
  assumes "distinct (pane_ids w)" "\<And>p. sp_id (f p) = sp_id p" "\<And>p. sp_floating (f p) = sp_floating p"
  shows "shared_tiled (update_pane pid f w) = shared_tiled w"
proof -
  have "map sp_id (filter (\<lambda>p. \<not> sp_floating p) (map (\<lambda>p. if sp_id p = pid then f p else p) ps)) =
      map sp_id (filter (\<lambda>p. \<not> sp_floating p) ps)" for ps
    using assms(2,3) by (induction ps) auto
  then show ?thesis using assms(1) by (simp add: update_pane_map shared_tiled_def)
qed

lemma update_pane_valid:
  assumes "valid_workspace w" "distinct (pane_ids w)" "\<And>p. sp_id (f p) = sp_id p"
    and "\<And>p. p \<in> set (sw_panes w) \<Longrightarrow> sp_id p = pid \<Longrightarrow> valid_pane (f p)"
  shows "valid_workspace (update_pane pid f w)"
proof -
  have "\<forall>p \<in> set (sw_panes (update_pane pid f w)). valid_pane p"
    using assms by (auto simp: update_pane_map valid_workspace_def)
  then show ?thesis
    using assms(1) update_pane_facts [OF assms(2,3), of pid] unfolding valid_workspace_def by simp
qed

lemma shared_pane_of_iff: "distinct (pane_ids w) \<Longrightarrow> shared_pane_of w pid = Some p \<longleftrightarrow> p \<in> set (sw_panes w) \<and> sp_id p = pid"
  using find_unique [of sp_id "sw_panes w"] by (auto simp: shared_pane_of_def find_Some_iff)

lemma valid_nth:
  assumes "valid_layout l" "i < length (workspaces l)"
  shows "valid_workspace (workspaces l ! i)" "distinct (pane_ids (workspaces l ! i))" "settleable (workspaces l ! i)"
proof -
  show v: "valid_workspace (workspaces l ! i)" using assms by (simp add: valid_layout_def)
  show d: "distinct (pane_ids (workspaces l ! i))"
    using assms(1) distinct_pane_ids [OF _ nth_mem [OF assms(2)]] by (simp add: valid_layout_def)
  show "settleable (workspaces l ! i)" by (rule valid_settleable [OF v d])
qed

lemma valid_indexes: "valid_layout l \<Longrightarrow> distinct (map sw_index (workspaces l))"
  by (simp add: valid_layout_def)

lemma position_cong:
  "map pane_ids (workspaces l') = map pane_ids (workspaces l) \<Longrightarrow> workspace_position_of l' pid = workspace_position_of l pid"
proof -
  have "(\<lambda>w. list_ex (\<lambda>p. sp_id p = pid) (sw_panes w)) = (\<lambda>w. pid \<in> set (pane_ids w))"
    by (auto simp: list_ex_iff)
  then have "workspace_position_of l pid = position_of (\<lambda>ids. pid \<in> set ids) (map pane_ids (workspaces l))" for l
    unfolding workspace_position_of_def position_of_map by (rule arg_cong)
  then show "map pane_ids (workspaces l') = map pane_ids (workspaces l) \<Longrightarrow> ?thesis" by (simp only:)
qed

subsection \<open>Pinning\<close>

definition pin :: "bool \<Rightarrow> shared_pane \<Rightarrow> shared_pane" where
  "pin pinned p = p\<lparr>sp_pinned := pinned, sp_fullscreen := sp_fullscreen p \<and> \<not> pinned\<rparr>"

lemma set_pinned_eq:
  assumes "valid_layout l" "workspace_position_of l pid = Some i"
  shows "\<exists>p. p \<in> set (sw_panes (workspaces l ! i)) \<and> sp_id p = pid \<and>
    set_pinned pid pinned l =
      (sp_pinned p \<noteq> (pinned \<and> sp_floating p) \<or> ((pinned \<and> sp_floating p) \<and> sp_fullscreen p),
       update_at i (update_pane pid (pin (pinned \<and> sp_floating p))) l)"
proof -
  note i = position_workspace [OF assms(2)]
  note dist = valid_nth(2) [OF assms(1) i(1)]
  obtain p where p: "p \<in> set (sw_panes (workspaces l ! i))" "sp_id p = pid" using i(2) by auto
  then have "shared_pane_of (workspaces l ! i) pid = Some p" using shared_pane_of_iff [OF dist] by simp
  then have "set_pinned pid pinned l =
      (sp_pinned p \<noteq> (pinned \<and> sp_floating p) \<or> ((pinned \<and> sp_floating p) \<and> sp_fullscreen p),
       update_at i (update_pane pid (pin (pinned \<and> sp_floating p))) l)"
    unfolding set_pinned_def assms(2) pin_def by (simp add: Let_def)
  with p show ?thesis by blast
qed

lemma pin_fields [simp]: "sp_id (pin b p) = sp_id p" "sp_floating (pin b p) = sp_floating p" "sp_fullscreen (pin False p) = sp_fullscreen p"
  by (simp_all add: pin_def)

lemma pin_valid: "valid_pane p \<Longrightarrow> b \<longrightarrow> sp_floating p \<Longrightarrow> valid_pane (pin b p)"
  by (auto simp: valid_pane_def pin_def)

text \<open>An update that keeps the pane ids of a workspace keeps a valid document valid.\<close>

lemma update_same_ids:
  assumes "valid_layout l" "i < length (workspaces l)" "valid_workspace (f (workspaces l ! i))"
    and "sw_index (f (workspaces l ! i)) = sw_index (workspaces l ! i)"
    and "pane_ids (f (workspaces l ! i)) = pane_ids (workspaces l ! i)"
  shows "valid_layout (update_at i f l)" "map pane_ids (workspaces (update_at i f l)) = map pane_ids (workspaces l)"
proof -
  show "map pane_ids (workspaces (update_at i f l)) = map pane_ids (workspaces l)"
    using assms(2,5) by (simp add: update_at_def map_update list_update_same_conv)
  have "distinct (all_pane_ids (workspaces (update_at i f l)))"
    using assms by (intro distinct_update) (auto simp: valid_layout_def)
  then show "valid_layout (update_at i f l)" using assms by (intro update_valid)
qed

lemma update_pin_facts:
  assumes "valid_layout l" "i < length (workspaces l)"
    and "\<And>p. p \<in> set (sw_panes (workspaces l ! i)) \<Longrightarrow> sp_id p = pid \<Longrightarrow> b \<longrightarrow> sp_floating p"
  shows "valid_layout (update_at i (update_pane pid (pin b)) l)"
    "map pane_ids (workspaces (update_at i (update_pane pid (pin b)) l)) = map pane_ids (workspaces l)"
proof -
  note w = valid_nth [OF assms(1,2)]
  have "valid_pane (pin b p)" if "p \<in> set (sw_panes (workspaces l ! i))" "sp_id p = pid" for p
    using w(1) assms(3) [OF that] that pin_valid by (auto simp: valid_workspace_def)
  then have "valid_workspace (update_pane pid (pin b) (workspaces l ! i))"
    using w(1,2) by (intro update_pane_valid) auto
  then show "valid_layout (update_at i (update_pane pid (pin b)) l)"
    "map pane_ids (workspaces (update_at i (update_pane pid (pin b)) l)) = map pane_ids (workspaces l)"
    using update_same_ids [OF assms(1,2)] update_pane_facts [OF w(2)] by simp_all
qed

subsection \<open>Moving a pane\<close>

definition pane_at :: "shared_layout \<Rightarrow> nat \<Rightarrow> pane_id \<Rightarrow> shared_pane" where
  "pane_at l i pid = the (shared_pane_of (workspaces l ! i) pid)"

lemma pane_at:
  assumes "valid_layout l" "workspace_position_of l pid = Some i"
  shows "shared_pane_of (workspaces l ! i) pid = Some (pane_at l i pid)" "pane_at l i pid \<in> set (sw_panes (workspaces l ! i))"
    "sp_id (pane_at l i pid) = pid" "valid_pane (pane_at l i pid)"
proof -
  note i = position_workspace [OF assms(2)]
  note w = valid_nth [OF assms(1) i(1)]
  obtain p where p: "p \<in> set (sw_panes (workspaces l ! i))" "sp_id p = pid" using i(2) by auto
  then have eq: "shared_pane_of (workspaces l ! i) pid = Some p" using shared_pane_of_iff [OF w(2)] by simp
  then show "shared_pane_of (workspaces l ! i) pid = Some (pane_at l i pid)" "pane_at l i pid \<in> set (sw_panes (workspaces l ! i))"
    "sp_id (pane_at l i pid) = pid" "valid_pane (pane_at l i pid)"
    using p w(1) by (simp_all add: pane_at_def valid_workspace_def)
qed

definition moved :: "pane_id \<Rightarrow> nat \<Rightarrow> nat \<Rightarrow> shared_layout \<Rightarrow> shared_layout" where
  "moved pid source target l =
     (let p = pane_at l source pid;
          l = ensure_workspace target (update_at source (depart (doc_canvas l) pid) l)
      in update_at (workspace_at target l) (arrive (doc_canvas l) p) l)"

lemma depart_layout:
  assumes "valid_layout l" "i < length (workspaces l)"
  shows "valid_layout (update_at i (depart c pid) l)"
    "pid \<in> set (pane_ids (workspaces l ! i)) \<Longrightarrow> mset (all_pane_ids (workspaces (update_at i (depart c pid) l))) = mset (all_pane_ids (workspaces l)) - {#pid#}"
proof -
  note w = valid_nth [OF assms]
  note d = depart_facts [OF w(3), of c pid]
  have ids: "pane_ids (depart c pid (workspaces l ! i)) = filter (\<lambda>x. x \<noteq> pid) (pane_ids (workspaces l ! i))"
    unfolding d(3) by (simp add: filter_map comp_def)
  have sub: "mset (pane_ids (depart c pid (workspaces l ! i))) \<subseteq># mset (pane_ids (workspaces l ! i))"
    unfolding ids by (simp add: multiset_filter_subset del: mset_map)
  show "valid_layout (update_at i (depart c pid) l)"
    using assms d distinct_update [where f = "depart c pid", OF _ assms(2) sub] by (intro update_valid) (auto simp: valid_layout_def)
  assume "pid \<in> set (pane_ids (workspaces l ! i))"
  then have "mset (pane_ids (workspaces l ! i)) = add_mset pid (mset (pane_ids (depart c pid (workspaces l ! i))))"
  proof -
    have "mset xs = add_mset x (mset (filter (\<lambda>y. y \<noteq> x) xs))" if "distinct xs" "x \<in> set xs" for x :: pane_id and xs
    proof -
      have "filter (\<lambda>y. y \<noteq> x) xs = remove1 x xs"
        unfolding distinct_remove1_removeAll [OF that(1)] removeAll_filter_not_eq by (rule filter_cong) auto
      then show ?thesis using that(2) by simp
    qed
    then show ?thesis using w(2) \<open>pid \<in> _\<close> unfolding ids by blast
  qed
  then show "mset (all_pane_ids (workspaces (update_at i (depart c pid) l))) = mset (all_pane_ids (workspaces l)) - {#pid#}"
    using mset_ids_update [OF assms(2), of "depart c pid (workspaces l ! i)"] unfolding update_at_def
    by (simp del: mset_map) (metis add_mset_remove_trivial)
qed

lemma arrive_layout:
  assumes "valid_layout l" "i < length (workspaces l)" "valid_pane p" "sp_id p \<notin> set (all_pane_ids (workspaces l))"
  shows "valid_layout (update_at i (arrive c p) l)"
    "mset (all_pane_ids (workspaces (update_at i (arrive c p) l))) = add_mset (sp_id p) (mset (all_pane_ids (workspaces l)))"
proof -
  note w = valid_nth [OF assms(1,2)]
  have new: "sp_id p \<notin> set (pane_ids (workspaces l ! i))"
    using assms(2,4) nth_mem [of i "workspaces l"] by (auto simp: all_pane_ids_def)
  note a = arrive_facts [OF w(1,2) assms(3) new, of c]
  show ids: "mset (all_pane_ids (workspaces (update_at i (arrive c p) l))) = add_mset (sp_id p) (mset (all_pane_ids (workspaces l)))"
    using mset_ids_update [OF assms(2), of "arrive c p (workspaces l ! i)"] a(3) by (simp add: update_at_def del: mset_map)
  have "distinct (all_pane_ids (workspaces (update_at i (arrive c p) l)))"
    using assms(1,4) mset_eq_imp_distinct_iff [of "all_pane_ids (workspaces (update_at i (arrive c p) l))" "sp_id p # all_pane_ids (workspaces l)"] ids
    by (simp add: valid_layout_def)
  then show "valid_layout (update_at i (arrive c p) l)" using assms(1,2) a by (intro update_valid)
qed

lemma move_pane_fields_eq:
  assumes l: "valid_layout l" "workspace_position_of l pid = Some s" "sw_index (workspaces l ! s) \<noteq> target" "target < WORKSPACE_COUNT"
  shows "move_pane_fields pid target l = (Inr True, moved pid s target l)"
proof -
  note s = position_workspace [OF l(2)]
  note w = valid_nth [OF l(1) s(1)]
  let ?ps = "sw_panes (workspaces l ! s)"
  let ?c = "doc_canvas l"
  obtain i where i: "position_of (\<lambda>p. sp_id p = pid) ?ps = Some i"
    using s(2) by (cases "position_of (\<lambda>p. sp_id p = pid) ?ps") auto
  have p: "?ps ! i = pane_at l s pid"
  proof -
    have "?ps ! i \<in> set ?ps" "sp_id (?ps ! i) = pid" using position_of_Some [OF i] by simp_all
    then have "shared_pane_of (workspaces l ! s) pid = Some (?ps ! i)" using shared_pane_of_iff [OF w(2)] by simp
    then show ?thesis by (simp add: pane_at_def)
  qed
  have rest: "take i ?ps @ drop (Suc i) ?ps = filter (\<lambda>p. sp_id p \<noteq> pid) ?ps" by (rule remove_first_filter [OF w(2) i])
  define l1 where "l1 = ensure_workspace target (update_at s (depart ?c pid) l)"
  define d where "d = workspace_at target l1"
  have l1: "settle_tree s (update_at s (\<lambda>w. w\<lparr>sw_panes := take i ?ps @ drop (Suc i) ?ps\<rparr>) l) = update_at s (depart ?c pid) l"
    using s(1) unfolding rest by (simp add: settle_tree_def depart_def update_at_def doc_canvas_def)
  have d: "d < length (workspaces l1)" unfolding d_def l1_def by (rule workspace_at_ensure)
  have valid1: "valid_layout l1"
    unfolding l1_def by (rule ensure_valid [OF depart_layout(1) [OF l(1) s(1)] l(4)])
  note stored = stored_settle [OF valid_nth(3) [OF valid1 d]]
  have c: "doc_canvas l1 = ?c" by (simp add: l1_def)
  have id: "sp_id (pane_at l s pid) = pid" by (rule pane_at [OF l(1,2)])
  have ax: "sw_start_axis (settle ?c (workspaces l1 ! d)) = sw_start_axis (workspaces l1 ! d)" by simp
  have mv: "moved pid s target l = update_at d (arrive ?c (pane_at l s pid)) l1"
    unfolding moved_def Let_def l1_def [symmetric] d_def [symmetric] c ..
  show ?thesis
    unfolding move_pane_fields_def l(2) option.case if_not_P [OF l(3)] Let_def i option.sel p l1 l1_def [symmetric] d_def [symmetric] mv
    using d stored
    by (cases "sp_floating (pane_at l s pid)"; cases "sp_fullscreen (pane_at l s pid)";
        simp add: settle_tree_def c arrive_def id Let_def update_at_def)
qed

lemma validate_ok: "valid_layout l \<Longrightarrow> validate l = Inr ()"
  by (simp add: validate_iff_valid)

lemma checked_ok: "valid_layout l \<Longrightarrow> checked (Inr b, l) = (Inr b, l)"
  by (simp add: checked_def validate_ok)

lemma moved_valid:
  assumes "valid_layout l" "workspace_position_of l pid = Some s" "target < WORKSPACE_COUNT"
  shows "valid_layout (moved pid s target l)"
    "mset (all_pane_ids (workspaces (moved pid s target l))) = mset (all_pane_ids (workspaces l))"
proof -
  let ?c = "doc_canvas l"
  note s = position_workspace [OF assms(2)]
  note p = pane_at [OF assms(1,2)]
  define l0 where "l0 = update_at s (depart ?c pid) l"
  define l1 where "l1 = ensure_workspace target l0"
  have l0: "valid_layout l0" "mset (all_pane_ids (workspaces l0)) = mset (all_pane_ids (workspaces l)) - {#pid#}"
    using depart_layout [OF assms(1) s(1)] s(2) by (simp_all add: l0_def)
  have in_ids: "pid \<in># mset (all_pane_ids (workspaces l))"
    using s nth_mem [of s "workspaces l"] by (auto simp: all_pane_ids_def)
  have valid1: "valid_layout l1" unfolding l1_def by (rule ensure_valid [OF l0(1) assms(3)])
  have ids1: "mset (all_pane_ids (workspaces l1)) = mset (all_pane_ids (workspaces l)) - {#pid#}"
    using l0(2) by (simp add: l1_def)
  have "distinct (all_pane_ids (workspaces l))" using assms(1) by (simp add: valid_layout_def)
  then have new: "sp_id (pane_at l s pid) \<notin> set (all_pane_ids (workspaces l1))"
    using distinct_minus [OF _ ids1] p(3) by simp
  have "moved pid s target l = update_at (workspace_at target l1) (arrive ?c (pane_at l s pid)) l1"
    by (simp add: moved_def Let_def l1_def l0_def)
  moreover have "workspace_at target l1 < length (workspaces l1)" unfolding l1_def by (rule workspace_at_ensure)
  ultimately show "valid_layout (moved pid s target l)"
    "mset (all_pane_ids (workspaces (moved pid s target l))) = mset (all_pane_ids (workspaces l))"
    using arrive_layout [OF valid1 _ p(4) new, of "workspace_at target l1" ?c] ids1 in_ids p(3) by simp_all
qed

lemma unpinned_facts:
  assumes "valid_layout l" "workspace_position_of l pid = Some s"
  shows "valid_layout (snd (set_pinned pid False l))" "workspace_position_of (snd (set_pinned pid False l)) q = workspace_position_of l q"
    "snd (set_pinned pid False l) = update_at s (update_pane pid (pin False)) l"
    "mset (all_pane_ids (workspaces (snd (set_pinned pid False l)))) = mset (all_pane_ids (workspaces l))"
proof -
  note s = position_workspace [OF assms(2)]
  show eq: "snd (set_pinned pid False l) = update_at s (update_pane pid (pin False)) l"
    using set_pinned_eq [OF assms, of False] by auto
  note u = update_pin_facts [OF assms(1) s(1), of pid False]
  show "valid_layout (snd (set_pinned pid False l))" using u(1) by (simp add: eq)
  show "workspace_position_of (snd (set_pinned pid False l)) q = workspace_position_of l q"
    using position_cong [of "snd (set_pinned pid False l)" l] u(2) by (simp add: eq)
  have "all_pane_ids (workspaces (snd (set_pinned pid False l))) = all_pane_ids (workspaces l)"
    using u(2) by (simp add: all_pane_ids_def eq)
  then show "mset (all_pane_ids (workspaces (snd (set_pinned pid False l)))) = mset (all_pane_ids (workspaces l))" by simp
qed

lemma set_pinned_valid: "valid_layout l \<Longrightarrow> valid_layout (snd (set_pinned pid b l))"
proof (cases "workspace_position_of l pid")
  case None
  then show "valid_layout l \<Longrightarrow> ?thesis" by (simp add: set_pinned_def)
next
  case (Some i)
  assume l: "valid_layout l"
  note i = position_workspace [OF Some]
  obtain p where p: "p \<in> set (sw_panes (workspaces l ! i))" "sp_id p = pid"
    "snd (set_pinned pid b l) = update_at i (update_pane pid (pin (b \<and> sp_floating p))) l"
    using set_pinned_eq [OF l Some, of b] by auto
  have "q = p" if "q \<in> set (sw_panes (workspaces l ! i))" "sp_id q = pid" for q
    using shared_pane_of_iff [OF valid_nth(2) [OF l i(1)]] p that by (metis option.inject)
  then show ?thesis using update_pin_facts(1) [OF l i(1), of pid "b \<and> sp_floating p"] by (auto simp: p(3))
qed

text \<open>A move of a placed pane to another workspace: unpinned, taken out, settled, appended.\<close>

lemma move_pane_eq:
  assumes "valid_layout l" "workspace_position_of l pid = Some s" "sw_index (workspaces l ! s) \<noteq> target" "target < WORKSPACE_COUNT"
  defines "l' \<equiv> update_at s (update_pane pid (pin False)) l"
  shows "move_pane pid target l = (Inr True, moved pid s target l')" "valid_layout (moved pid s target l')" "valid_layout l'"
    "workspace_position_of l' pid = Some s" "sw_index (workspaces l' ! s) = sw_index (workspaces l ! s)"
    "mset (all_pane_ids (workspaces (moved pid s target l'))) = mset (all_pane_ids (workspaces l))"
proof -
  note s = position_workspace [OF assms(2)]
  note u = unpinned_facts [OF assms(1,2), folded l'_def]
  have l': "valid_layout l'" "workspace_position_of l' pid = Some s" "snd (set_pinned pid False l) = l'"
    using u(1,3) u(2) [of pid] assms(2) by (simp_all add: l'_def)
  show "valid_layout l'" "workspace_position_of l' pid = Some s" by (rule l')+
  show index: "sw_index (workspaces l' ! s) = sw_index (workspaces l ! s)"
    using s(1) update_pane_facts [OF valid_nth(2) [OF assms(1) s(1)]] by (simp add: l'_def)
  note m = moved_valid [OF l'(1,2) assms(4)]
  show "valid_layout (moved pid s target l')" by (rule m)
  show "mset (all_pane_ids (workspaces (moved pid s target l'))) = mset (all_pane_ids (workspaces l))"
    using m(2) u(4) l'(3) by simp
  have fields: "move_pane_fields pid target l' = (Inr True, moved pid s target l')"
    using move_pane_fields_eq [OF l'(1,2) _ assms(4)] assms(3) index by simp
  obtain b where "set_pinned pid False l = (b, l')" using l'(3) by (metis prod.collapse)
  then show "move_pane pid target l = (Inr True, moved pid s target l')"
    using fields assms(2,3) checked_ok [OF m(1)] by (simp add: move_pane_def)
qed

subsection \<open>Swapping, retaining, removing\<close>

definition exchange :: "u16 \<times> u16 \<Rightarrow> pane_id \<Rightarrow> pane_id \<Rightarrow> shared_workspace \<Rightarrow> shared_workspace" where
  "exchange c a b w = (settle c w)\<lparr>sw_tree :=
     map_option (\<lambda>t. to_shared (swap_tree_leaves_inner t a b)) (effective_tile_tree (shared_tile_source c w) None)\<rparr>"

definition transpose_ids :: "pane_id \<Rightarrow> pane_id \<Rightarrow> pane_id \<Rightarrow> pane_id" where
  "transpose_ids a b x = (if x = a then b else if x = b then a else x)"

lemma inj_transpose_ids: "inj (transpose_ids a b)"
  by (auto simp: inj_def transpose_ids_def split: if_splits)

lemma exchange_facts:
  assumes "settleable w" "a \<in> set (shared_tiled w)" "b \<in> set (shared_tiled w)"
  shows "valid_workspace (exchange c a b w)" "sw_index (exchange c a b w) = sw_index w"
    "sw_panes (exchange c a b w) = sw_panes w"
    "tiling_order c (exchange c a b w) = map (transpose_ids a b) (tiling_order c w)"
proof -
  show fields: "sw_index (exchange c a b w) = sw_index w" "sw_panes (exchange c a b w) = sw_panes w"
    by (simp_all add: exchange_def)
  have tiled: "shared_tiled (exchange c a b w) = shared_tiled w" by (simp add: exchange_def shared_tiled_def)
  have ratios: "sw_split_ratios (exchange c a b w) = sw_split_ratios w" by (simp add: exchange_def)
  obtain t where t: "effective_tile_tree (shared_tile_source c w) None = Some t"
    using document.effective_None [OF settleable_wf [OF assms(1)], of c None] assms(2) by fastforce
  have leaves: "leaves t = tiling_order c w" using settle_leaves [OF assms(1), of c] t by (simp add: settle_tree_eq)
  have tree: "sw_tree (exchange c a b w) = Some (to_shared (swap_tree_leaves_inner t a b))" by (simp add: exchange_def t)
  have order: "opt_sleaves (sw_tree (exchange c a b w)) = map (transpose_ids a b) (tiling_order c w)"
    unfolding tree by (simp add: leaves_swap leaves transpose_ids_def [abs_def])
  have img: "transpose_ids a b ` set (shared_tiled w) = set (shared_tiled w)"
    using assms(2,3) by (auto simp: transpose_ids_def image_iff)
  have set: "set (opt_sleaves (sw_tree (exchange c a b w))) = set (shared_tiled w)"
    unfolding order using set_tiling_order [OF assms(1), of c] img by simp
  show "tiling_order c (exchange c a b w) = map (transpose_ids a b) (tiling_order c w)"
    using tiling_order_of_leaves [of "exchange c a b w" c] set order tiled distinct_tiled assms(1) by simp
  have dist: "distinct (map (transpose_ids a b) (tiling_order c w))"
    using distinct_tiling_order [OF assms(1), of c] inj_on_subset [OF inj_transpose_ids subset_UNIV] by (simp add: distinct_map)
  have "\<forall>r \<in> dwindle_ratios t. good_ratio r" using settleable_ratios [OF assms(1), of c] t by simp
  then have "valid_tree (to_shared (swap_tree_leaves_inner t a b)) (set (pane_ids w))"
    using dist order set shared_tiled_known [of w] unfolding valid_tree_def tree by auto
  then show "valid_workspace (exchange c a b w)"
    using assms(1) unfolding valid_workspace_def fields ratios tree by (simp add: settleable_def)
qed

lemma tiled_iff: "list_ex (\<lambda>p. sp_id p = q \<and> \<not> sp_floating p) (sw_panes w) \<longleftrightarrow> q \<in> set (shared_tiled w)"
  by (auto simp: list_ex_iff shared_tiled_def)

definition swappable :: "pane_id \<Rightarrow> pane_id \<Rightarrow> shared_layout \<Rightarrow> bool" where
  "swappable a b l \<longleftrightarrow> a \<noteq> b \<and> (\<exists>i. workspace_position_of l a = Some i \<and> workspace_position_of l b = Some i \<and>
     a \<in> set (shared_tiled (workspaces l ! i)) \<and> b \<in> set (shared_tiled (workspaces l ! i)))"

lemma swap_pane_fields_eq:
  assumes "valid_layout l" "workspace_position_of l a = Some i" "swappable a b l"
  shows "swap_pane_fields a b l = (Inr True, update_at i (exchange (doc_canvas l) a b) l)"
proof -
  let ?w = "workspaces l ! i" and ?c = "doc_canvas l"
  have ab: "a \<noteq> b" "workspace_position_of l b = Some i" "a \<in> set (shared_tiled ?w)" "b \<in> set (shared_tiled ?w)"
    using assms(2,3) by (auto simp: swappable_def)
  note i = position_workspace(1) [OF assms(2)]
  note w = valid_nth [OF assms(1) i]
  obtain t where t: "effective_tile_tree (shared_tile_source ?c ?w) None = Some t"
    using document.effective_None [OF settleable_wf [OF w(3)], of ?c None] ab(3) by fastforce
  have leaves: "set (leaves t) = set (shared_tiled ?w)"
    using document.set_effective [OF settleable_wf [OF w(3)], of ?c None] t by simp
  have nth: "workspaces (settle_tree i l) ! i = settle ?c ?w" using i by (simp add: settle_tree_def)
  have tree: "sw_tree (settle ?c ?w) = Some (to_shared t)" by (simp add: settle_tree_eq t)
  have read: "dwindle_from_shared (to_shared t) (set (pane_ids ?w)) = Some t"
    using leaves shared_tiled_known [of ?w] by (simp only: dwindle_from_to_shared [OF refl] prune_all)
  have swap: "fst (swap_tree_leaves t a b) = swap_tree_leaves_inner t a b"
    using ab leaves by (simp add: swap_tree_leaves_def)
  have cond: "\<not> (a = b \<or> i \<noteq> i \<or> \<not> a \<in> set (shared_tiled ?w) \<or> \<not> b \<in> set (shared_tiled ?w))"
    using ab by simp
  have upd: "update_at i (\<lambda>w. w\<lparr>sw_tree := Some (to_shared (swap_tree_leaves_inner t a b))\<rparr>) (settle_tree i l) = update_at i (exchange ?c a b) l"
    using i by (simp add: settle_tree_def update_at_def exchange_def t)
  show ?thesis
    unfolding swap_pane_fields_def assms(2) ab(2) option.case Let_def tiled_iff if_not_P [OF cond] nth settle_fields tree read swap
      from_dwindle_Some upd ..
qed

lemma swap_refused:
  assumes "\<not> swappable a b l" "workspace_position_of l a = Some i" "workspace_position_of l b = Some j"
  shows "swap_pane_fields a b l = (Inl (NotSwappable a b), l)"
proof -
  have "a = b \<or> i \<noteq> j \<or> a \<notin> set (shared_tiled (workspaces l ! i)) \<or> b \<notin> set (shared_tiled (workspaces l ! i))"
    using assms by (auto simp: swappable_def)
  then have c: "a = b \<or> i \<noteq> j \<or> \<not> a \<in> set (shared_tiled (workspaces l ! i)) \<or> \<not> b \<in> set (shared_tiled (workspaces l ! i))"
    by simp
  show ?thesis unfolding swap_pane_fields_def assms(2,3) option.case Let_def tiled_iff if_P [OF c] ..
qed

lemma exchange_layout:
  assumes "valid_layout l" "workspace_position_of l a = Some i" "swappable a b l"
  shows "valid_layout (update_at i (exchange c a b) l)"
proof -
  note i = position_workspace(1) [OF assms(2)]
  have "a \<in> set (shared_tiled (workspaces l ! i))" "b \<in> set (shared_tiled (workspaces l ! i))"
    using assms(2,3) by (auto simp: swappable_def)
  note e = exchange_facts [OF valid_nth(3) [OF assms(1) i] this, of c]
  show ?thesis using e by (intro update_same_ids(1) [OF assms(1) i]) simp_all
qed

lemma retain_workspace_facts:
  assumes "valid_workspace w" "distinct (pane_ids w)"
  shows "valid_workspace (retain_workspace c known w)" "sw_index (retain_workspace c known w) = sw_index w"
    "pane_ids (retain_workspace c known w) = filter (\<lambda>x. x \<in> known) (pane_ids w)"
proof -
  have "filter (\<lambda>p. sp_id p \<in> known) (sw_panes w) = sw_panes w" if "length (filter (\<lambda>p. sp_id p \<in> known) (sw_panes w)) = length (sw_panes w)"
    using that unfolding filter_id_conv by (metis length_filter_less less_irrefl)
  then have "retain_workspace c known w = w" if "length (filter (\<lambda>p. sp_id p \<in> known) (sw_panes w)) = length (sw_panes w)"
    using that by (simp add: retain_workspace_def)
  then show "valid_workspace (retain_workspace c known w)"
    using assms settle_valid(1) [OF settleable_filter [OF valid_settleable [OF assms]]]
    by (cases "length (filter (\<lambda>p. sp_id p \<in> known) (sw_panes w)) = length (sw_panes w)") (simp_all add: retain_workspace_def)
  show "sw_index (retain_workspace c known w) = sw_index w"
    "pane_ids (retain_workspace c known w) = filter (\<lambda>x. x \<in> known) (pane_ids w)"
    by (simp_all add: retain_workspace_def Let_def filter_map comp_def)
qed

lemma retain_valid:
  assumes "valid_layout l"
  shows "valid_layout (retain_panes known l)" "all_pane_ids (workspaces (retain_panes known l)) = filter (\<lambda>x. x \<in> known) (all_pane_ids (workspaces l))"
proof -
  have ws: "\<forall>w \<in> set (workspaces l). valid_workspace w \<and> distinct (pane_ids w)"
    using assms distinct_pane_ids by (auto simp: valid_layout_def)
  then show ids: "all_pane_ids (workspaces (retain_panes known l)) = filter (\<lambda>x. x \<in> known) (all_pane_ids (workspaces l))"
  proof -
    have "pane_ids (retain_workspace (doc_canvas l) known w) = filter (\<lambda>x. x \<in> known) (pane_ids w)" if "w \<in> set (workspaces l)" for w
      using ws that by (intro retain_workspace_facts(3)) auto
    then show ?thesis by (simp add: retain_panes_def all_pane_ids_def filter_concat comp_def cong: map_cong)
  qed
  have "map sw_index (workspaces (retain_panes known l)) = map sw_index (workspaces l)"
    using ws retain_workspace_facts(2) by (simp add: retain_panes_def)
  then show "valid_layout (retain_panes known l)"
    using assms ws ids retain_workspace_facts(1) [where c = "doc_canvas l"]
    by (simp add: valid_layout_def) (simp add: retain_panes_def)
qed

lemma remove_pane_eq:
  assumes "workspace_position_of l pid = Some i"
  shows "remove_pane pid l = (Some (sw_index (workspaces l ! i)), update_at i (depart (doc_canvas l) pid) l)"
  using position_workspace(1) [OF assms] by (simp add: remove_pane_def assms Let_def settle_tree_def update_at_def depart_def)

subsection \<open>Properties\<close>

definition order_at :: "nat \<Rightarrow> shared_layout \<Rightarrow> pane_id list" where
  "order_at t l = (case workspace_of t l of None \<Rightarrow> [] | Some w \<Rightarrow> tiling_order (doc_canvas l) w)"

lemma tiling_order_pin:
  assumes "distinct (pane_ids w)"
  shows "tiling_order c (update_pane pid (pin False) w) = tiling_order c w"
proof -
  have "shared_tiled (update_pane pid (pin False) w) = shared_tiled w"
    using assms by (intro update_pane_tiled) simp_all
  moreover have "sw_tree (update_pane pid (pin False) w) = sw_tree w" using update_pane_facts(3) [OF assms] by simp
  ultimately show ?thesis using assms by (simp add: tiling_order_eq distinct_tiled)
qed

lemma tiling_order_fresh: "tiling_order c (fresh_workspace t) = []"
  by (simp add: tiling_order_eq shared_tiled_def fresh_workspace_def)

lemma pane_at_pinned:
  assumes "valid_layout l" "workspace_position_of l pid = Some s"
  shows "sp_floating (pane_at (update_at s (update_pane pid (pin False)) l) s pid) = sp_floating (pane_at l s pid)"
proof -
  note s = position_workspace(1) [OF assms(2)] and p = pane_at [OF assms]
  let ?l = "update_at s (update_pane pid (pin False)) l"
  note dist = valid_nth(2) [OF assms(1) s]
  have pos: "workspace_position_of ?l pid = Some s" using unpinned_facts(2,3) [OF assms] assms(2) by simp
  note q = pane_at [OF unpinned_facts(1) [OF assms, unfolded unpinned_facts(3) [OF assms]] pos]
  have "pane_at ?l s pid = pin False (pane_at l s pid)"
  proof -
    have "pin False (pane_at l s pid) \<in> set (sw_panes (workspaces ?l ! s))"
      using s p(2,3) dist by (force simp: update_pane_map)
    moreover have "distinct (pane_ids (workspaces ?l ! s))" using s update_pane_facts(1) [OF dist] dist by simp
    ultimately have "shared_pane_of (workspaces ?l ! s) pid = Some (pin False (pane_at l s pid))"
      using p(3) by (simp add: shared_pane_of_iff)
    then show ?thesis using q(1) by simp
  qed
  then show ?thesis by simp
qed

lemma moved_orders:
  assumes "valid_layout l" "workspace_position_of l pid = Some s" "target < WORKSPACE_COUNT"
    and "sw_index (workspaces l ! s) \<noteq> target"
  shows "order_at target (moved pid s target l) = order_at target l @ (if sp_floating (pane_at l s pid) then [] else [pid])"
    "order_at (sw_index (workspaces l ! s)) (moved pid s target l) = filter (\<lambda>x. x \<noteq> pid) (order_at (sw_index (workspaces l ! s)) l)"
    "t \<noteq> target \<Longrightarrow> t \<noteq> sw_index (workspaces l ! s) \<Longrightarrow> workspace_of t (moved pid s target l) = workspace_of t l"
proof -
  let ?c = "doc_canvas l" and ?src = "sw_index (workspaces l ! s)" and ?p = "pane_at l s pid"
  note s = position_workspace [OF assms(2)]
  note w = valid_nth [OF assms(1) s(1)]
  note p = pane_at [OF assms(1,2)]
  define l0 where "l0 = update_at s (depart ?c pid) l"
  define l1 where "l1 = ensure_workspace target l0"
  define d where "d = workspace_at target l1"
  have l0: "valid_layout l0" using depart_layout(1) [OF assms(1) s(1)] by (simp add: l0_def)
  have l1: "valid_layout l1" unfolding l1_def by (rule ensure_valid [OF l0 assms(3)])
  have d: "d < length (workspaces l1)" "sw_index (workspaces l1 ! d) = target"
    unfolding d_def l1_def by (rule workspace_at_ensure)+
  note wd = valid_nth [OF l1 d(1)]
  have new: "sp_id ?p \<notin> set (pane_ids (workspaces l1 ! d))"
  proof -
    have "mset (all_pane_ids (workspaces l1)) = mset (all_pane_ids (workspaces l)) - {#pid#}"
      using depart_layout(2) [OF assms(1) s] by (simp add: l1_def l0_def)
    moreover have "distinct (all_pane_ids (workspaces l))" using assms(1) by (simp add: valid_layout_def)
    ultimately have "pid \<notin> set (all_pane_ids (workspaces l1))" by (rule distinct_minus [rotated])
    then show ?thesis using p(3) d(1) nth_mem [of d "workspaces l1"] by (auto simp: all_pane_ids_def)
  qed
  note a = arrive_facts [OF wd(1,2) p(4) new, of ?c]
  have moved: "moved pid s target l = update_at d (arrive ?c ?p) l1"
    by (simp add: moved_def Let_def l1_def l0_def d_def)
  have of0: "workspace_of t l0 = (if t = ?src then Some (depart ?c pid (workspaces l ! s)) else workspace_of t l)" for t
    unfolding l0_def using workspace_of_update [where f = "depart ?c pid", OF valid_indexes [OF assms(1)] s(1)] depart_facts(2) [OF w(3)] by simp
  have of1: "workspace_of t l1 = (if t = target \<and> workspace_of target l = None then Some (fresh_workspace target) else workspace_of t l0)" for t
    unfolding l1_def using workspace_of_ensure [OF l0 assms(3)] of0 assms(4) by auto
  have of2: "workspace_of t (moved pid s target l) = (if t = target then Some (arrive ?c ?p (workspaces l1 ! d)) else workspace_of t l1)" for t
    unfolding moved using workspace_of_update [where f = "arrive ?c ?p", OF valid_indexes [OF l1] d(1)] a(2) d(2) by simp
  have c: "doc_canvas (moved pid s target l) = ?c" by (simp add: moved l1_def l0_def)
  have "workspace_of target l1 = Some (workspaces l1 ! d)" using workspace_of_nth [OF valid_indexes [OF l1] d(1)] d(2) by simp
  then have "workspaces l1 ! d = (case workspace_of target l of None \<Rightarrow> fresh_workspace target | Some w \<Rightarrow> w)"
    using of1 of0 assms(4) by (cases "workspace_of target l") auto
  then have "tiling_order ?c (workspaces l1 ! d) = order_at target l"
    by (cases "workspace_of target l") (simp_all add: order_at_def tiling_order_fresh)
  then show "order_at target (moved pid s target l) = order_at target l @ (if sp_floating ?p then [] else [pid])"
    using of2 a(4) p(3) c by (simp add: order_at_def)
  have "workspace_of ?src l = Some (workspaces l ! s)" by (rule workspace_of_nth [OF valid_indexes [OF assms(1)] s(1)])
  then show "order_at ?src (moved pid s target l) = filter (\<lambda>x. x \<noteq> pid) (order_at ?src l)"
    using of2 of1 of0 depart_facts(4) [OF w(3)] assms(4) c by (simp add: order_at_def)
  show "workspace_of t (moved pid s target l) = workspace_of t l" if "t \<noteq> target" "t \<noteq> ?src"
    using that of2 of1 of0 by simp
qed



lemma swap_cases:
  assumes "valid_layout l" "workspace_position_of l a = Some i" "workspace_position_of l b = Some j"
  shows "(\<exists>l'. swap_panes a b l = (Inr True, l') \<and> valid_layout l') \<or> swap_panes a b l = (Inl (NotSwappable a b), l)"
proof (cases "swappable a b l")
  case True
  then show ?thesis
    using swap_pane_fields_eq [OF assms(1,2) True] exchange_layout [OF assms(1,2) True]
    by (simp add: swap_panes_def checked_ok)
next
  case False
  then show ?thesis using swap_refused [OF False assms(2,3)] by (simp add: swap_panes_def checked_def)
qed

text \<open>
  A swap succeeds on a valid document exactly for two different tiled panes of one workspace; it
  exchanges the two in the tiling order and moves no other pane, and every other workspace is
  untouched. A refused swap of placed panes reports that they cannot swap and changes nothing.
\<close>

theorem swap_exchanges_two:
  assumes "valid_layout l" "workspace_position_of l a = Some i" "workspace_position_of l b = Some j"
  shows "if swappable a b l
     then \<exists>l'. swap_panes a b l = (Inr True, l') \<and> valid_layout l' \<and>
       order_at (sw_index (workspaces l ! i)) l' = map (transpose_ids a b) (order_at (sw_index (workspaces l ! i)) l) \<and>
       map pane_ids (workspaces l') = map pane_ids (workspaces l) \<and>
       (\<forall>t. t \<noteq> sw_index (workspaces l ! i) \<longrightarrow> workspace_of t l' = workspace_of t l)
     else swap_panes a b l = (Inl (NotSwappable a b), l)"
proof (cases "swappable a b l")
  case False
  then show ?thesis using swap_refused [OF False assms(2,3)] by (simp add: swap_panes_def checked_def)
next
  case True
  let ?c = "doc_canvas l" and ?src = "sw_index (workspaces l ! i)"
  define l' where "l' = update_at i (exchange ?c a b) l"
  note i = position_workspace(1) [OF assms(2)]
  have tiled: "a \<in> set (shared_tiled (workspaces l ! i))" "b \<in> set (shared_tiled (workspaces l ! i))"
    using True assms(2) by (auto simp: swappable_def)
  note e = exchange_facts [OF valid_nth(3) [OF assms(1) i] tiled, of ?c]
  note same = update_same_ids [where f = "exchange ?c a b", OF assms(1) i e(1,2), unfolded e(3), OF refl, folded l'_def]
  have of: "workspace_of t l' = (if t = ?src then Some (exchange ?c a b (workspaces l ! i)) else workspace_of t l)" for t
    unfolding l'_def using workspace_of_update [where f = "exchange ?c a b", OF valid_indexes [OF assms(1)] i] e(2) by simp
  have "doc_canvas l' = ?c" by (simp add: l'_def)
  then have "order_at ?src l' = map (transpose_ids a b) (order_at ?src l)"
    using of e(4) workspace_of_nth [OF valid_indexes [OF assms(1)] i] by (simp add: order_at_def)
  moreover have "swap_panes a b l = (Inr True, l')"
    using swap_pane_fields_eq [OF assms(1,2) True] checked_ok [OF same(1)] by (simp add: swap_panes_def l'_def)
  ultimately show ?thesis using True same of by auto
qed

theorem swap_exchanges_two_witness:
  "order_at 0 (snd (swap_panes 1 2 tiny_layout)) = [2, 1] \<and> swap_panes 1 1 tiny_layout = (Inl (NotSwappable 1 1), tiny_layout)"
proof -
  have valid: "valid_layout tiny_layout" by (simp only: validate_iff_valid [symmetric]) code_simp
  have pos: "workspace_position_of tiny_layout 1 = Some 0" "workspace_position_of tiny_layout 2 = Some 0" by code_simp+
  have tiled: "shared_tiled (workspaces tiny_layout ! 0) = [1, 2]" by code_simp
  have idx: "sw_index (workspaces tiny_layout ! 0) = 0" by (simp add: tiny_layout_def)
  have "swappable 1 2 tiny_layout" by (simp add: swappable_def pos tiled)
  moreover have "\<not> swappable 1 1 tiny_layout" by (simp add: swappable_def)
  moreover have "map (transpose_ids 1 2) (order_at 0 tiny_layout) = [2, 1]" by code_simp
  ultimately show ?thesis
    using swap_exchanges_two [OF valid pos] swap_exchanges_two [OF valid pos(1) pos(1)] unfolding idx by auto
qed

lemma set_kind_valid:
  assumes "valid_layout l" "index < WORKSPACE_COUNT"
  shows "valid_layout (snd (set_layout_kind index kind l))"
proof -
  note e = ensure_valid [OF assms]
  note a = workspace_at_ensure [of index l]
  let ?f = "\<lambda>w. w\<lparr>sw_layout := kind_to_serialized kind\<rparr>"
  have "valid_workspace (?f (workspaces (ensure_workspace index l) ! workspace_at index (ensure_workspace index l)))"
    using valid_nth(1) [OF e a(1)] by (simp add: valid_workspace_def)
  then have "valid_layout (update_at (workspace_at index (ensure_workspace index l)) ?f (ensure_workspace index l))"
    by (intro update_same_ids(1) [OF e a(1)]) simp_all
  then show ?thesis using e by (auto simp: set_layout_kind_def Let_def ensure_workspace_def)
qed

lemma set_ratio_valid:
  assumes "valid_layout l" "index < WORKSPACE_COUNT" "good_ratio ratio"
  shows "valid_layout (snd (set_master_ratio index ratio l))"
proof -
  note e = ensure_valid [OF assms(1,2)]
  note a = workspace_at_ensure [of index l]
  let ?w = "workspaces (ensure_workspace index l) ! workspace_at index (ensure_workspace index l)"
  obtain changed ratios where r: "set_master_share (sw_split_ratios ?w) ratio = (changed, ratios)" by fastforce
  have "\<forall>r \<in> set (sw_split_ratios ?w). good_ratio r" using valid_nth(1) [OF e a(1)] by (simp add: valid_workspace_def)
  then have "\<forall>r \<in> set ratios. good_ratio r"
    using r assms(3) by (auto simp: set_master_share_def split: if_splits list.splits)
  then have "valid_workspace (?w\<lparr>sw_split_ratios := ratios\<rparr>)"
    using valid_nth(1) [OF e a(1)] by (simp add: valid_workspace_def)
  then have "valid_layout (update_at (workspace_at index (ensure_workspace index l)) (\<lambda>w. w\<lparr>sw_split_ratios := ratios\<rparr>) (ensure_workspace index l))"
    by (intro update_same_ids(1) [OF e a(1)]) simp_all
  then show ?thesis by (simp add: set_master_ratio_def Let_def r)
qed

lemma remove_valid: "valid_layout l \<Longrightarrow> valid_layout (snd (remove_pane pid l))"
  using remove_pane_eq [of l pid] depart_layout(1) [OF _ position_workspace(1)]
  by (cases "workspace_position_of l pid") (auto simp: remove_pane_def)

lemma move_valid:
  assumes "valid_layout l" "target < WORKSPACE_COUNT"
  shows "valid_layout (snd (move_pane pid target l)) \<and> (\<forall>e. fst (move_pane pid target l) \<noteq> Inl (InvalidDocument e))"
proof (cases "workspace_position_of l pid")
  case None
  then show ?thesis using assms by (simp add: move_pane_def move_pane_fields_def checked_def)
next
  case (Some s)
  show ?thesis
  proof (cases "sw_index (workspaces l ! s) = target")
    case True
    then show ?thesis using Some assms by (simp add: move_pane_def move_pane_fields_def checked_ok)
  next
    case False
    then show ?thesis using move_pane_eq(1,2) [OF assms(1) Some False assms(2)] by simp
  qed
qed

lemma swap_valid:
  assumes "valid_layout l"
  shows "valid_layout (snd (swap_panes a b l)) \<and> (\<forall>e. fst (swap_panes a b l) \<noteq> Inl (InvalidDocument e))"
proof (cases "workspace_position_of l a")
  case None
  then show ?thesis using assms by (simp add: swap_panes_def swap_pane_fields_def checked_def)
next
  case a: (Some i)
  show ?thesis
  proof (cases "workspace_position_of l b")
    case None
    then show ?thesis using assms a by (simp add: swap_panes_def swap_pane_fields_def checked_def)
  next
    case (Some j)
    show ?thesis using swap_cases [OF assms a Some] assms by (auto split: if_splits)
  qed
qed



subsection \<open>At most one fullscreen pane\<close>

definition one_fullscreen :: "shared_workspace \<Rightarrow> bool" where
  "one_fullscreen w \<longleftrightarrow> length (filter sp_fullscreen (sw_panes w)) \<le> 1"

lemma one_fullscreen_cong: "map sp_fullscreen (sw_panes w') = map sp_fullscreen (sw_panes w) \<Longrightarrow> one_fullscreen w' = one_fullscreen w"
proof -
  have "one_fullscreen w \<longleftrightarrow> length (filter id (map sp_fullscreen (sw_panes w))) \<le> 1" for w
    by (simp add: one_fullscreen_def filter_map)
  then show "map sp_fullscreen (sw_panes w') = map sp_fullscreen (sw_panes w) \<Longrightarrow> ?thesis" by (simp only:)
qed

lemma one_fullscreen_clear: "distinct (pane_ids w) \<Longrightarrow> one_fullscreen (clear_other_shared_fullscreen pid w)"
proof -
  have "length (filter sp_fullscreen (map (\<lambda>p. if sp_id p \<noteq> pid then p\<lparr>sp_fullscreen := False\<rparr> else p) ps)) \<le> length (filter (\<lambda>x. x = pid) (map sp_id ps))" for ps
    by (induction ps) auto
  moreover have "length (filter (\<lambda>x. x = pid) xs) \<le> 1" if "distinct xs" for xs
    using that by (induction xs) (auto simp: filter_empty_conv)
  moreover assume "distinct (pane_ids w)"
  ultimately have "length (filter sp_fullscreen (map (\<lambda>p. if sp_id p \<noteq> pid then p\<lparr>sp_fullscreen := False\<rparr> else p) (sw_panes w))) \<le> 1"
    using le_trans by blast
  then show ?thesis by (simp add: one_fullscreen_def clear_other_shared_fullscreen_def)
qed

lemma one_fullscreen_depart: "one_fullscreen w \<Longrightarrow> one_fullscreen (depart c pid w)"
proof -
  have "length (filter sp_fullscreen (filter P ps)) \<le> length (filter sp_fullscreen ps)" for P ps by (induction ps) auto
  then show "one_fullscreen w \<Longrightarrow> ?thesis" unfolding one_fullscreen_def depart_def settle_fields by (auto intro: le_trans simp del: filter_filter)
qed

lemma one_fullscreen_arrive:
  assumes "one_fullscreen w" "distinct (pane_ids w)" "sp_id p \<notin> set (pane_ids w)"
  shows "one_fullscreen (arrive c p w)"
proof (cases "sp_fullscreen p")
  case True
  then show ?thesis using assms by (auto simp: arrive_def Let_def intro!: one_fullscreen_clear)
next
  case False
  then show ?thesis using assms(1) by (simp add: arrive_def Let_def one_fullscreen_def)
qed

definition fullscreen_ok :: "shared_layout \<Rightarrow> bool" where
  "fullscreen_ok l \<longleftrightarrow> (\<forall>w \<in> set (workspaces l). one_fullscreen w)"

lemma fullscreen_update:
  "fullscreen_ok l \<Longrightarrow> i < length (workspaces l) \<Longrightarrow> one_fullscreen (f (workspaces l ! i)) \<Longrightarrow> fullscreen_ok (update_at i f l)"
  using set_update_at [of i l f] by (auto simp: fullscreen_ok_def)

lemma fullscreen_nth: "fullscreen_ok l \<Longrightarrow> i < length (workspaces l) \<Longrightarrow> one_fullscreen (workspaces l ! i)"
  by (simp add: fullscreen_ok_def)

lemma fullscreen_ensure: "fullscreen_ok l \<Longrightarrow> fullscreen_ok (ensure_workspace t l)"
  by (auto simp: fullscreen_ok_def set_ensure one_fullscreen_def)

lemma update_pane_fullscreen:
  assumes "distinct (pane_ids w)" "\<And>p. sp_fullscreen (f p) = sp_fullscreen p" "one_fullscreen w"
  shows "one_fullscreen (update_pane pid f w)"
  using assms one_fullscreen_cong [of "update_pane pid f w" w] by (simp add: update_pane_map comp_def if_distrib cong: if_cong)

lemma fullscreen_moved:
  assumes "valid_layout l" "workspace_position_of l pid = Some s" "sw_index (workspaces l ! s) \<noteq> target" "target < WORKSPACE_COUNT" "fullscreen_ok l"
  shows "fullscreen_ok (moved pid s target l)"
proof -
  let ?c = "doc_canvas l" and ?p = "pane_at l s pid"
  note s = position_workspace [OF assms(2)]
  define l0 where "l0 = update_at s (depart ?c pid) l"
  define l1 where "l1 = ensure_workspace target l0"
  define d where "d = workspace_at target l1"
  have l0: "valid_layout l0" using depart_layout(1) [OF assms(1) s(1)] by (simp add: l0_def)
  have l1: "valid_layout l1" unfolding l1_def by (rule ensure_valid [OF l0 assms(4)])
  have d: "d < length (workspaces l1)" unfolding d_def l1_def by (rule workspace_at_ensure)
  have "mset (all_pane_ids (workspaces l1)) = mset (all_pane_ids (workspaces l)) - {#pid#}"
    using depart_layout(2) [OF assms(1) s] by (simp add: l1_def l0_def)
  then have "pid \<notin> set (all_pane_ids (workspaces l1))" using assms(1) by (intro distinct_minus) (auto simp: valid_layout_def)
  then have new: "sp_id ?p \<notin> set (pane_ids (workspaces l1 ! d))"
    using pane_at(3) [OF assms(1,2)] d nth_mem [of d "workspaces l1"] by (auto simp: all_pane_ids_def)
  have "fullscreen_ok l1" unfolding l1_def l0_def
    using assms(5) s(1) by (intro fullscreen_ensure fullscreen_update one_fullscreen_depart fullscreen_nth)
  then have "fullscreen_ok (update_at d (arrive ?c ?p) l1)"
    using d valid_nth(2) [OF l1 d] new by (intro fullscreen_update one_fullscreen_arrive fullscreen_nth)
  then show ?thesis by (simp add: moved_def Let_def l1_def l0_def d_def)
qed

lemma fullscreen_move:
  assumes "valid_layout l" "target < WORKSPACE_COUNT" "fullscreen_ok l"
  shows "fullscreen_ok (snd (move_pane pid target l))"
proof (cases "workspace_position_of l pid")
  case None
  then show ?thesis using assms by (simp add: move_pane_def move_pane_fields_def checked_def)
next
  case (Some s)
  show ?thesis
  proof (cases "sw_index (workspaces l ! s) = target")
    case True
    then show ?thesis using Some assms by (simp add: move_pane_def move_pane_fields_def checked_ok)
  next
    case False
    note m = move_pane_eq [OF assms(1) Some False assms(2)]
    note s = position_workspace(1) [OF Some]
    have "one_fullscreen (update_pane pid (pin False) (workspaces l ! s))"
      using valid_nth(2) [OF assms(1) s] fullscreen_nth [OF assms(3) s] by (intro update_pane_fullscreen) simp_all
    then have "fullscreen_ok (update_at s (update_pane pid (pin False)) l)"
      using assms(3) s by (intro fullscreen_update)
    then show ?thesis using fullscreen_moved [OF m(3,4) _ assms(2)] m(1,5) False by simp
  qed
qed

text \<open>What an edit does to the fullscreen flags alone.\<close>

definition flags :: "shared_workspace \<Rightarrow> (pane_id \<times> bool) list" where
  "flags w = map (\<lambda>p. (sp_id p, sp_fullscreen p)) (sw_panes w)"

lemma one_fullscreen_flags: "one_fullscreen w \<longleftrightarrow> length (filter snd (flags w)) \<le> 1"
  by (simp add: one_fullscreen_def flags_def filter_map comp_def)

lemma flags_fields [simp]: "flags (settle c w) = flags w" "flags (w\<lparr>sw_tree := t\<rparr>) = flags w"
  by (simp_all add: flags_def)

lemma pane_ids_flags: "pane_ids w = map fst (flags w)"
  by (simp add: flags_def)

lemma flags_update_pane:
  "(\<And>p. sp_id (f p) = sp_id p \<and> sp_fullscreen (f p) = sp_fullscreen p) \<Longrightarrow> flags (update_pane pid f w) = flags w"
  by (auto simp: update_pane_def flags_def map_update list_update_same_conv split: option.split dest: position_of_Some)

lemma flags_update_at:
  "i < length (workspaces l) \<Longrightarrow> flags (f (workspaces l ! i)) = flags (workspaces l ! i) \<Longrightarrow>
    map flags (workspaces (update_at i f l)) = map flags (workspaces l)"
  by (simp add: update_at_def map_update list_update_same_conv)

lemma flags_set_float: "map flags (workspaces (snd (set_float_placement pid rect l))) = map flags (workspaces l)"
proof (cases "workspace_position_of l pid")
  case (Some i)
  note i = position_workspace(1) [OF Some]
  have upd: "map flags (workspaces (update_at i (update_pane pid f) l)) = map flags (workspaces l)"
    if "\<And>p. sp_id (f p) = sp_id p \<and> sp_fullscreen (f p) = sp_fullscreen p" for f
    using that i by (intro flags_update_at flags_update_pane) auto
  have st: "map flags (workspaces (settle_tree i l')) = map flags (workspaces l')" if "i < length (workspaces l')" for l'
    unfolding settle_tree_def using that by (intro flags_update_at) auto
  show ?thesis
    using i by (auto simp: set_float_placement_def Some Let_def upd st split: option.split)
qed (simp add: set_float_placement_def)

lemma flags_sizes: "flags (apply_shared_pane_sizes c pid edit w) = flags w"
proof -
  have "flags (update_pane pid (\<lambda>p. p\<lparr>sp_scrollable_width := width\<rparr>) w) = flags w" for width
    by (rule flags_update_pane) simp
  then show ?thesis by (simp add: apply_shared_pane_sizes_def Let_def split: option.split)
qed

lemma one_fullscreen_unset:
  assumes "distinct (pane_ids w)" "one_fullscreen w"
  shows "one_fullscreen (update_pane pid (\<lambda>p. p\<lparr>sp_fullscreen := False, sp_pinned := q p\<rparr>) w)"
proof -
  have "length (filter sp_fullscreen (map (\<lambda>p. if sp_id p = pid then p\<lparr>sp_fullscreen := False, sp_pinned := q p\<rparr> else p) ps)) \<le>
      length (filter sp_fullscreen ps)" for ps
    by (induction ps) auto
  from this [of "sw_panes w"] have "length (filter sp_fullscreen (sw_panes (update_pane pid (\<lambda>p. p\<lparr>sp_fullscreen := False, sp_pinned := q p\<rparr>) w))) \<le> 1"
    using assms by (auto simp: update_pane_map one_fullscreen_def simp del: filter_map)
  then show ?thesis by (simp add: one_fullscreen_def)
qed

lemma fullscreen_ok_flags: "map flags (workspaces l') = map flags (workspaces l) \<Longrightarrow> fullscreen_ok l' = fullscreen_ok l"
proof -
  have "fullscreen_ok l \<longleftrightarrow> (\<forall>fs \<in> set (map flags (workspaces l)). length (filter snd fs) \<le> 1)" for l
    by (simp add: fullscreen_ok_def one_fullscreen_flags)
  then show "map flags (workspaces l') = map flags (workspaces l) \<Longrightarrow> ?thesis" by (simp only:)
qed

definition edit_fullscreen :: "nat \<Rightarrow> pane_id \<Rightarrow> bool option \<Rightarrow> shared_layout \<Rightarrow> shared_layout" where
  "edit_fullscreen i pid flag l =
     (let l = (case flag of
                 Some fullscreen \<Rightarrow>
                   update_at i (update_pane pid
                     (\<lambda>p. p\<lparr>sp_fullscreen := fullscreen, sp_pinned := sp_pinned p \<and> \<not> fullscreen\<rparr>)) l
               | None \<Rightarrow> l)
      in if flag = Some True then update_at i (clear_other_shared_fullscreen pid) l else l)"

lemma edit_fullscreen_ok:
  assumes "i < length (workspaces l)" "distinct (pane_ids (workspaces l ! i))" "fullscreen_ok l"
  shows "fullscreen_ok (edit_fullscreen i pid flag l)" "length (workspaces (edit_fullscreen i pid flag l)) = length (workspaces l)"
proof -
  let ?f = "\<lambda>b p. p\<lparr>sp_fullscreen := b, sp_pinned := sp_pinned p \<and> \<not> b\<rparr>"
  let ?w = "workspaces l ! i"
  have dist: "distinct (pane_ids (update_pane pid (?f b) ?w))" for b
    using update_pane_facts(1) [OF assms(2), of "?f b"] assms(2) by simp
  have "one_fullscreen (clear_other_shared_fullscreen pid (update_pane pid (?f True) ?w))"
    by (rule one_fullscreen_clear [OF dist])
  moreover have "one_fullscreen (update_pane pid (?f False) ?w)"
    by (rule one_fullscreen_unset [OF assms(2) fullscreen_nth [OF assms(3,1)]])
  ultimately show "fullscreen_ok (edit_fullscreen i pid flag l)"
    using assms(1,3) by (auto simp: edit_fullscreen_def Let_def intro!: fullscreen_update split: option.split bool.split)
  show "length (workspaces (edit_fullscreen i pid flag l)) = length (workspaces l)"
    by (simp add: edit_fullscreen_def Let_def split: option.split)
qed

lemma edit_pane_fields_steps:
  assumes "edit_pane_fields pid edit l = Some (r, l')" "workspace_position_of l pid = Some i"
  shows "\<exists>l1. (l1 = l \<or> (\<exists>rect. l1 = snd (set_float_placement pid rect l))) \<and>
    l' = update_at i (apply_shared_pane_sizes (doc_canvas l) pid edit) (edit_fullscreen i pid (e_fullscreen edit) l1)"
proof -
  define now where "now = (case shared_pane_of (workspaces l ! i) pid of Some p \<Rightarrow> sp_floating p | None \<Rightarrow> False)"
  define F where "F = edit_floats edit now"
  define L1 where "L1 fr = (if \<not> F then snd (set_float_placement pid None l)
     else case fr of
       Some rect \<Rightarrow> if e_rect edit \<noteq> None \<or> \<not> now then snd (set_float_placement pid (Some rect) l) else l
     | None \<Rightarrow> l)" for fr
  have "L1 fr = l \<or> (\<exists>rect. L1 fr = snd (set_float_placement pid rect l))" for fr
    by (cases fr) (auto simp: L1_def)
  moreover have "\<exists>fr. l' = update_at i (apply_shared_pane_sizes (doc_canvas l) pid edit) (edit_fullscreen i pid (e_fullscreen edit) (L1 fr))"
    using assms(1) unfolding edit_pane_fields_def edit_fullscreen_def assms(2) option.case Let_def bind_eq_Some_conv
      now_def [symmetric] F_def [symmetric] L1_def [symmetric] option.inject prod.inject
    by blast
  ultimately show ?thesis by blast
qed

lemma checked_snd [simp]: "snd (checked r) = snd r"
  by (cases r; cases "fst r") (auto simp: checked_def split: sum.split)

lemma fullscreen_edit:
  assumes "valid_layout l" "fullscreen_ok l" "edit_pane pid edit l = Some (r, l')"
  shows "fullscreen_ok l'"
proof -
  obtain x where x: "edit_pane_fields pid edit l = Some x" "checked x = (r, l')"
    using assms(3) by (auto simp: edit_pane_def)
  then have "snd x = l'" using checked_snd [of x] by simp
  then obtain r0 where fields: "edit_pane_fields pid edit l = Some (r0, l')" using x(1) by (cases x) auto
  show ?thesis
  proof (cases "workspace_position_of l pid")
    case None
    then show ?thesis using fields assms(2) by (simp add: edit_pane_fields_def)
  next
    case (Some i)
    note i = position_workspace(1) [OF Some]
    obtain l1 where l1: "l1 = l \<or> (\<exists>rect. l1 = snd (set_float_placement pid rect l))"
      "l' = update_at i (apply_shared_pane_sizes (doc_canvas l) pid edit) (edit_fullscreen i pid (e_fullscreen edit) l1)"
      using edit_pane_fields_steps [OF fields Some] by blast
    then have fl: "map flags (workspaces l1) = map flags (workspaces l)" using flags_set_float by auto
    have len: "length (workspaces l1) = length (workspaces l)" using arg_cong [OF fl, of length] by simp
    have "flags (workspaces l1 ! i) = flags (workspaces l ! i)" using arg_cong [OF fl, of "\<lambda>xs. xs ! i"] i len by simp
    then have dist: "distinct (pane_ids (workspaces l1 ! i))" using valid_nth(2) [OF assms(1) i] by (simp add: pane_ids_flags)
    have ok1: "fullscreen_ok l1" using fullscreen_ok_flags [OF fl] assms(2) by simp
    have i1: "i < length (workspaces l1)" using i len by simp
    note e = edit_fullscreen_ok [OF i1 dist ok1, of pid "e_fullscreen edit"]
    have "map flags (workspaces l') = map flags (workspaces (edit_fullscreen i pid (e_fullscreen edit) l1))"
      unfolding l1(2) using e(2) i1 by (intro flags_update_at flags_sizes) simp
    then show ?thesis using fullscreen_ok_flags e(1) by blast
  qed
qed

text \<open>
  At most one pane of a workspace is fullscreen: moving a pane and editing a pane keep it so,
  whatever they are asked for and whether or not the result passes validation; a fullscreen pane
  that moves takes the place of the one the target had.
\<close>

theorem at_most_one_fullscreen:
  assumes "valid_layout l" "target < WORKSPACE_COUNT" "fullscreen_ok l"
  shows "fullscreen_ok (snd (move_pane pid target l)) \<and>
    (case edit_pane pid edit l of None \<Rightarrow> True | Some (_, l') \<Rightarrow> fullscreen_ok l')"
  using fullscreen_move [OF assms] fullscreen_edit [OF assms(1,3)] by (auto split: option.split)

theorem at_most_one_fullscreen_witness:
  "fullscreen_ok (snd (move_pane 1 4 tiny_layout))"
proof -
  have "valid_layout tiny_layout" by (simp only: validate_iff_valid [symmetric]) code_simp
  moreover have "fullscreen_ok tiny_layout" by code_simp
  ultimately show ?thesis using at_most_one_fullscreen [of tiny_layout 4 1] by (simp add: WORKSPACE_COUNT_def)
qed

end
