(* ===== verification/Lease.thy ===== *)
theory Lease
  imports SharedEdit "HOL-Library.AList"
begin

text \<open>
  The attached clients of a session server and the lease on its layout: \<^verbatim>\<open>src/session/server/lease.rs\<close>,
  the control messages of \<^verbatim>\<open>src/session/server/connection.rs\<close> that touch it, and the protocol
  negotiation of an attach. A handler takes the state to the messages it returns and the new state;
  \<open>now\<close> is the monotonic clock in milliseconds. Message texts, session events, and the output,
  media and automation state of a client are left out.

  The theory \<open>Session\<close> runs these handlers, the headless writes, connects and disconnects in any
  order and proves what every reachable state satisfies.
\<close>

subsection \<open>Protocol negotiation\<close>

definition PROTOCOL_VERSION :: u32 where
  "PROTOCOL_VERSION = 51"

definition MIN_SUPPORTED_PROTOCOL :: u32 where
  "MIN_SUPPORTED_PROTOCOL = PROTOCOL_VERSION"

datatype protocol_side = ClientSide | ServerSide

record protocol_mismatch =
  client_max :: u32
  client_min :: u32
  server_max :: u32
  server_min :: u32
  older_side :: protocol_side

definition normalize_min_protocol :: "u32 \<Rightarrow> u32 \<Rightarrow> u32" where
  "normalize_min_protocol mx mn = (if mn = 0 then mx else mn)"

definition negotiate_protocol :: "u32 \<Rightarrow> u32 \<Rightarrow> u32 \<Rightarrow> u32 \<Rightarrow> protocol_mismatch + u32" where
  "negotiate_protocol cmax cmin smax smin =
     (let cmin = normalize_min_protocol cmax cmin;
          effective = min cmax smax
      in if effective < cmin \<or> effective < smin then
           Inl \<lparr>client_max = cmax, client_min = cmin, server_max = smax, server_min = smin,
                older_side = (if cmax < smin then ClientSide else ServerSide)\<rparr>
         else Inr effective)"

subsection \<open>State\<close>

type_synonym client_id = u64

record client_conn =
  c_id :: client_id
  attached :: bool
  c_label :: "string option"
  c_read_only :: bool
  parked :: bool
  requesting_control :: bool
  last_request_notify :: "nat option"
  close_after_flush :: bool

definition new_client :: "client_id \<Rightarrow> client_conn" where
  "new_client cid = \<lparr>c_id = cid, attached = False, c_label = None, c_read_only = False, parked = False,
     requesting_control = False, last_request_notify = None, close_after_flush = False\<rparr>"

record server_pane =
  spn_generation :: u64
  spn_exited :: "int option"
  spn_status_revision :: u64

record session_server =
  session_name :: string
  startup_nonce :: "string option"
  clients :: "client_conn list"
  next_client_id :: client_id
  controller :: "client_id option"
  input_locked :: bool
  allow_takeover :: bool
  layout_rev :: u64
  doc :: "shared_layout option"
  server_panes :: "(pane_id \<times> server_pane) list"
  local_panes :: "(client_id \<times> pane_id) list"
  next_generation :: u64

text \<open>Messages to clients. \<open>Attached\<close> carries what the server shares with a joining client.\<close>

record client_info =
  ci_id :: client_id
  ci_label :: string
  ci_read_only :: bool
  ci_requesting_control :: bool
  ci_parked :: bool

datatype controller_change_reason = Released | Expired | Granted

datatype server_message =
    Attached client_id u32 u64 "shared_layout option" "client_id option" "client_info list" bool bool
  | ErrorCode string
  | ClientsChanged "client_info list" bool bool
  | ControllerChanged "client_id option" controller_change_reason
  | ControlRequested client_id
  | ControlDeclined
  | LayoutRejected u64 "shared_layout option"
  | LayoutCommitted u64 client_id shared_layout bool
  | ProgramStatusChanged pane_id u64 u64
  | PaneMetadata pane_id
  | SpawnResult pane_id u64 bool
  | DragChanged client_id "(pane_id \<times> frac_rect) option"

datatype target = Sender | ToClient client_id | Broadcast

type_synonym messages = "(target \<times> server_message) list"

definition REQUEST_NOTIFY_COOLDOWN :: nat where
  "REQUEST_NOTIFY_COOLDOWN = 4000"

definition EVICTED_ERROR_CODE :: string where
  "EVICTED_ERROR_CODE = ''evicted''"

subsection \<open>Questions about clients\<close>

definition is_controller :: "session_server \<Rightarrow> client_id \<Rightarrow> bool" where
  "is_controller s cid \<longleftrightarrow> controller s = Some cid"

definition client_attached :: "session_server \<Rightarrow> client_id \<Rightarrow> bool" where
  "client_attached s cid \<longleftrightarrow> list_ex (\<lambda>c. c_id c = cid \<and> attached c) (clients s)"

definition client_parked :: "session_server \<Rightarrow> client_id \<Rightarrow> bool" where
  "client_parked s cid \<longleftrightarrow> list_ex (\<lambda>c. c_id c = cid \<and> attached c \<and> parked c) (clients s)"

definition client_read_only :: "session_server \<Rightarrow> client_id \<Rightarrow> bool" where
  "client_read_only s cid =
     (case find (\<lambda>c. c_id c = cid \<and> attached c) (clients s) of None \<Rightarrow> True | Some c \<Rightarrow> c_read_only c)"

definition client_may_input :: "session_server \<Rightarrow> client_id \<Rightarrow> bool" where
  "client_may_input s cid \<longleftrightarrow>
     client_attached s cid \<and> \<not> client_read_only s cid \<and> (\<not> input_locked s \<or> is_controller s cid)"

definition client_info_of :: "client_conn \<Rightarrow> client_info" where
  "client_info_of c = \<lparr>ci_id = c_id c, ci_label = (case c_label c of Some l \<Rightarrow> l | None \<Rightarrow> ''client''),
     ci_read_only = c_read_only c, ci_requesting_control = requesting_control c, ci_parked = parked c\<rparr>"

definition client_roster :: "session_server \<Rightarrow> client_info list" where
  "client_roster s = map client_info_of (filter attached (clients s))"

definition clients_changed :: "session_server \<Rightarrow> server_message" where
  "clients_changed s = ClientsChanged (client_roster s) (input_locked s) (allow_takeover s)"

definition attached_count :: "session_server \<Rightarrow> u32" where
  "attached_count s = of_nat (length (filter attached (clients s)))"

text \<open>The client the lease falls to: the smallest id, that is the earliest connection.\<close>

definition eligible :: "client_conn \<Rightarrow> bool" where
  "eligible c \<longleftrightarrow> attached c \<and> \<not> c_read_only c \<and> \<not> parked c"

definition promotion_candidate :: "session_server \<Rightarrow> client_id option" where
  "promotion_candidate s =
     (case map c_id (filter eligible (clients s)) of [] \<Rightarrow> None | cid # ids \<Rightarrow> Some (fold min ids cid))"

text \<open>Mutation through \<^verbatim>\<open>client_mut(id)\<close>: the first connection with the id.\<close>

fun update_first :: "('a \<Rightarrow> bool) \<Rightarrow> ('a \<Rightarrow> 'a) \<Rightarrow> 'a list \<Rightarrow> 'a list" where
  "update_first p f [] = []"
| "update_first p f (x # xs) = (if p x then f x # xs else x # update_first p f xs)"

definition update_client :: "client_id \<Rightarrow> (client_conn \<Rightarrow> client_conn) \<Rightarrow> session_server \<Rightarrow> session_server" where
  "update_client cid f s = s\<lparr>clients := update_first (\<lambda>c. c_id c = cid) f (clients s)\<rparr>"

definition client_of :: "session_server \<Rightarrow> client_id \<Rightarrow> client_conn option" where
  "client_of s cid = find (\<lambda>c. c_id c = cid) (clients s)"

definition clear_request :: "client_conn \<Rightarrow> client_conn" where
  "clear_request c = c\<lparr>requesting_control := False, last_request_notify := None\<rparr>"

subsection \<open>The lease\<close>

definition assign_controller :: "client_id \<Rightarrow> controller_change_reason \<Rightarrow> session_server \<Rightarrow> messages \<times> session_server" where
  "assign_controller to reason s =
     (let s = update_client to clear_request (s\<lparr>controller := Some to\<rparr>)
      in ([(Broadcast, ControllerChanged (controller s) reason), (Broadcast, clients_changed s)], s))"

text \<open>The lease moves to the promotion candidate, whose own request is answered by it.\<close>

definition promote :: "session_server \<Rightarrow> session_server" where
  "promote s =
     (let candidate = promotion_candidate s; s = s\<lparr>controller := candidate\<rparr>
      in case candidate of Some promoted \<Rightarrow> update_client promoted clear_request s | None \<Rightarrow> s)"

definition release_controller :: "session_server \<Rightarrow> messages \<times> session_server" where
  "release_controller s =
     (let s = promote s;
          reason = (if controller s \<noteq> None then Granted else Released)
      in ([(Broadcast, ControllerChanged (controller s) reason), (Broadcast, clients_changed s)], s))"

definition handle_request_control :: "nat \<Rightarrow> client_id \<Rightarrow> session_server \<Rightarrow> messages \<times> session_server" where
  "handle_request_control now cid s =
     (if client_read_only s cid \<or> \<not> client_attached s cid \<or> client_parked s cid then ([], s)
      else if controller s = Some cid then ([], s)
      else case controller s of
        None \<Rightarrow> assign_controller cid Granted s
      | Some holder \<Rightarrow>
          if allow_takeover s then assign_controller cid Granted s
          else case client_of s cid of
            None \<Rightarrow> ([], s)
          | Some c \<Rightarrow>
              let already = requesting_control c;
                  notify = (case last_request_notify c of None \<Rightarrow> True
                            | Some previous \<Rightarrow> REQUEST_NOTIFY_COOLDOWN \<le> now - previous);
                  s = update_client cid (\<lambda>c. c\<lparr>requesting_control := True,
                        last_request_notify := (if notify then Some now else last_request_notify c)\<rparr>) s
              in ((if \<not> already then [(Broadcast, clients_changed s)] else []) @
                  (if notify then [(ToClient holder, ControlRequested cid)] else []), s))"

definition handle_set_parked :: "client_id \<Rightarrow> bool \<Rightarrow> session_server \<Rightarrow> messages \<times> session_server" where
  "handle_set_parked cid park s =
     (case client_of s cid of
        None \<Rightarrow> ([], s)
      | Some c \<Rightarrow>
          if parked c = park then ([], s)
          else
            let s = update_client cid (\<lambda>c. c\<lparr>parked := park\<rparr>) s in
            if park \<and> controller s = Some cid then release_controller s
            else if \<not> park \<and> controller s = None \<and> \<not> client_read_only s cid then assign_controller cid Granted s
            else ([(Broadcast, clients_changed s)], s))"

definition handle_grant_control :: "client_id \<Rightarrow> client_id \<Rightarrow> session_server \<Rightarrow> messages \<times> session_server" where
  "handle_grant_control cid to s =
     (if \<not> is_controller s cid \<or> \<not> client_attached s to \<or> client_read_only s to \<or> client_parked s to then ([], s)
      else assign_controller to Granted s)"

definition handle_set_control_takeover :: "client_id \<Rightarrow> bool \<Rightarrow> session_server \<Rightarrow> messages \<times> session_server" where
  "handle_set_control_takeover cid allowed s =
     (if \<not> is_controller s cid \<or> client_read_only s cid then ([], s)
      else let s = s\<lparr>allow_takeover := allowed\<rparr> in ([(Broadcast, clients_changed s)], s))"

definition handle_decline_control :: "client_id \<Rightarrow> client_id \<Rightarrow> session_server \<Rightarrow> messages \<times> session_server" where
  "handle_decline_control cid to s =
     (if \<not> is_controller s cid then ([], s)
      else case client_of s to of
        None \<Rightarrow> ([], s)
      | Some c \<Rightarrow>
          if \<not> requesting_control c then ([], s)
          else let s = update_client to clear_request s
               in ([(Broadcast, clients_changed s), (ToClient to, ControlDeclined)], s))"

definition set_close_after_flush :: "client_id \<Rightarrow> session_server \<Rightarrow> session_server" where
  "set_close_after_flush cid = update_client cid (\<lambda>c. c\<lparr>close_after_flush := True\<rparr>)"

definition handle_evict_client :: "client_id \<Rightarrow> client_id \<Rightarrow> session_server \<Rightarrow> messages \<times> session_server" where
  "handle_evict_client cid victim s =
     (if \<not> is_controller s cid \<or> client_read_only s cid \<or> victim = cid \<or> \<not> client_attached s victim then ([], s)
      else ([(ToClient victim, ErrorCode EVICTED_ERROR_CODE)], set_close_after_flush victim s))"

definition handle_set_input_lock :: "client_id \<Rightarrow> bool \<Rightarrow> session_server \<Rightarrow> messages \<times> session_server" where
  "handle_set_input_lock cid locked s =
     (if \<not> is_controller s cid \<or> client_read_only s cid then ([], s)
      else let s = s\<lparr>input_locked := locked\<rparr> in ([(Broadcast, clients_changed s)], s))"

definition handle_drag :: "client_id \<Rightarrow> (pane_id \<times> frac_rect) option \<Rightarrow> session_server \<Rightarrow> messages \<times> session_server" where
  "handle_drag cid drag s =
     (if \<not> is_controller s cid \<or> client_read_only s cid then ([], s) else ([(Broadcast, DragChanged cid drag)], s))"

subsection \<open>Layout commits\<close>

definition doc_panes :: "shared_layout \<Rightarrow> shared_pane list" where
  "doc_panes l = concat (map sw_panes (workspaces l))"

definition server_pane_of :: "session_server \<Rightarrow> pane_id \<Rightarrow> server_pane option" where
  "server_pane_of s = map_of (server_panes s)"

definition validate_shared_layout_against_panes :: "session_server \<Rightarrow> shared_layout \<Rightarrow> bool" where
  "validate_shared_layout_against_panes s l \<longleftrightarrow>
     list_all (\<lambda>p. sp_id p \<noteq> POPUP_PANE_ID \<and>
       (case server_pane_of s (sp_id p) of None \<Rightarrow> False | Some q \<Rightarrow> spn_generation q = sp_generation p)) (doc_panes l) \<and>
     list_all (\<lambda>(pid, q). spn_exited q \<noteq> None \<or> pid \<in> set (map sp_id (doc_panes l))) (server_panes s)"

definition program_status_for_new_layout_panes :: "session_server \<Rightarrow> shared_layout \<Rightarrow> messages" where
  "program_status_for_new_layout_panes s l =
     (let known = (case doc s of None \<Rightarrow> [] | Some old \<Rightarrow> map (\<lambda>p. (sp_id p, sp_generation p)) (doc_panes old))
      in List.map_filter
           (\<lambda>p. case server_pane_of s (sp_id p) of
                  None \<Rightarrow> None
                | Some q \<Rightarrow>
                    if spn_generation q = sp_generation p \<and> 0 < spn_status_revision q
                    then Some (Broadcast, ProgramStatusChanged (sp_id p) (sp_generation p) (spn_status_revision q))
                    else None)
           (filter (\<lambda>p. (sp_id p, sp_generation p) \<notin> set known) (doc_panes l)))"

definition publish_shared_layout :: "shared_layout \<Rightarrow> client_id \<Rightarrow> bool \<Rightarrow> session_server \<Rightarrow> messages \<times> session_server" where
  "publish_shared_layout l author live s =
     (let status = program_status_for_new_layout_panes s l;
          s = s\<lparr>layout_rev := layout_rev s + 1, doc := Some l\<rparr>
      in ((Broadcast, LayoutCommitted (layout_rev s) author l live) # status, s))"

definition handle_commit_layout :: "client_id \<Rightarrow> u64 \<Rightarrow> shared_layout \<Rightarrow> bool \<Rightarrow> session_server \<Rightarrow> messages \<times> session_server" where
  "handle_commit_layout cid base_rev l live s =
     (if \<not> is_controller s cid \<or> client_read_only s cid then ([], s)
      else if base_rev \<noteq> layout_rev s \<or> validate l \<noteq> Inr () \<or> \<not> validate_shared_layout_against_panes s l
      then ([(Sender, LayoutRejected (layout_rev s) (doc s))], s)
      else publish_shared_layout l cid live s)"

subsection \<open>Spawning a shared pane\<close>

definition may_spawn_shared :: "session_server \<Rightarrow> client_id \<Rightarrow> bool" where
  "may_spawn_shared s author =
     (if author = 0 then controller s = None else is_controller s author \<and> \<not> client_read_only s author)"

definition validate_spawn_placement :: "session_server \<Rightarrow> shared_layout \<Rightarrow> pane_id \<Rightarrow> u64 \<Rightarrow> bool" where
  "validate_spawn_placement s l pid generation =
     (let placements = map_of (rev (map (\<lambda>p. (sp_id p, sp_generation p)) (doc_panes l)))
      in placements pid = Some generation \<and>
         list_all (\<lambda>q. q = pid \<or>
           (case server_pane_of s q of None \<Rightarrow> False | Some p \<Rightarrow> placements q = Some (spn_generation p)))
           (map sp_id (doc_panes l)) \<and>
         list_all (\<lambda>(q, p). q = pid \<or> spn_exited p \<noteq> None \<or> placements q = Some (spn_generation p)) (server_panes s))"

fun validate_launch :: "pane_launch \<Rightarrow> bool" where
  "validate_launch (Shell _) = True"
| "validate_launch (Direct argv) =
     (case argv of [] \<Rightarrow> False | program # _ \<Rightarrow> program \<noteq> [] \<and> \<not> list_ex (\<lambda>arg. CHR 0x00 \<in> set arg) argv)"

text \<open>
  Installing a shared pane, with \<open>started\<close> the outcome of starting its process. A pane that has
  exited makes way for its successor before the process starts, also when that fails.
\<close>

definition install_pane :: "pane_id \<Rightarrow> u64 \<Rightarrow> pane_launch option \<Rightarrow> bool \<Rightarrow> session_server \<Rightarrow> bool \<times> session_server" where
  "install_pane pid generation intent started s =
     (if (case intent of Some l \<Rightarrow> \<not> validate_launch l | None \<Rightarrow> False) then (False, s)
      else if (case server_pane_of s pid of Some p \<Rightarrow> spn_exited p = None | None \<Rightarrow> False) then (False, s)
      else
        let s = s\<lparr>server_panes := AList.delete pid (server_panes s),
                  next_generation := max (next_generation s) (saturating_add generation 1)\<rparr>
        in if \<not> started then (False, s)
           else (True, s\<lparr>server_panes := AList.update pid
                  \<lparr>spn_generation = generation, spn_exited = None, spn_status_revision = 0\<rparr> (server_panes s)\<rparr>))"

text \<open>The placement is the base revision and the document; \<open>owned\<close> marks a client's local pane.\<close>

definition spawn_shared_pane ::
  "pane_id \<Rightarrow> u64 \<Rightarrow> pane_launch option \<Rightarrow> bool \<Rightarrow> (u64 \<times> shared_layout) option \<Rightarrow> client_id \<Rightarrow> bool \<Rightarrow> session_server \<Rightarrow>
   server_message \<times> messages \<times> session_server" where
  "spawn_shared_pane pid generation intent owned placement author started s =
     (let refused = SpawnResult pid generation False in
      if \<not> may_spawn_shared s author \<or> owned then (refused, [], s)
      else case placement of
        None \<Rightarrow> (refused, [], s)
      | Some (base_rev, l) \<Rightarrow>
          if base_rev \<noteq> layout_rev s \<or> validate l \<noteq> Inr () \<or> \<not> validate_spawn_placement s l pid generation
          then (refused, [(Sender, LayoutRejected (layout_rev s) (doc s))], s)
          else
            let (ok, s) = install_pane pid generation intent started s
            in if \<not> ok then (refused, [], s)
               else let (published, s) = publish_shared_layout l author False s
                    in (SpawnResult pid generation True, (Broadcast, PaneMetadata pid) # published, s))"

subsection \<open>Joining and leaving\<close>

record attach_request =
  a_session :: string
  a_protocol_version :: u32
  a_min_protocol_version :: u32
  a_label :: string
  a_read_only :: bool
  a_expected_server_nonce :: "string option"

definition attach_refusal :: "attach_request \<Rightarrow> session_server \<Rightarrow> string + u32" where
  "attach_refusal r s =
     (case negotiate_protocol (a_protocol_version r) (a_min_protocol_version r) PROTOCOL_VERSION MIN_SUPPORTED_PROTOCOL of
        Inl _ \<Rightarrow> Inl ''protocol-mismatch''
      | Inr effective \<Rightarrow>
          if a_session r \<noteq> session_name s then Inl ''session-mismatch''
          else if a_expected_server_nonce r \<noteq> None \<and> startup_nonce s \<noteq> a_expected_server_nonce r
          then Inl ''server-identity-mismatch''
          else Inr effective)"

definition handle_attach :: "client_id \<Rightarrow> attach_request \<Rightarrow> session_server \<Rightarrow> messages \<times> session_server" where
  "handle_attach cid r s =
     (case attach_refusal r s of
        Inl code \<Rightarrow> ([(Sender, ErrorCode code)], s)
      | Inr effective \<Rightarrow>
          let s = update_client cid
                (\<lambda>c. c\<lparr>attached := True, c_label := Some (a_label r), c_read_only := a_read_only r\<rparr>) s;
              granted = (controller s = None \<and> \<not> a_read_only r);
              s = (if granted then s\<lparr>controller := Some cid\<rparr> else s)
          in ([(Sender, Attached cid effective (layout_rev s) (doc s) (controller s) (client_roster s)
                 (input_locked s) (allow_takeover s)),
               (Broadcast, clients_changed s)] @
              (if granted then [(Broadcast, ControllerChanged (controller s) Granted)] else []), s))"

definition accept_new :: "session_server \<Rightarrow> session_server" where
  "accept_new s = s\<lparr>next_client_id := next_client_id s + 1, clients := clients s @ [new_client (next_client_id s)]\<rparr>"

definition remove_client_with_reason ::
  "client_id \<Rightarrow> controller_change_reason \<Rightarrow> session_server \<Rightarrow> messages \<times> session_server" where
  "remove_client_with_reason cid promotion_reason s =
     (case position_of (\<lambda>c. c_id c = cid) (clients s) of
        None \<Rightarrow> ([], s)
      | Some index \<Rightarrow>
          let removed = clients s ! index;
              s = s\<lparr>clients := take index (clients s) @ drop (Suc index) (clients s),
                    local_panes := filter (\<lambda>(owner, _). owner \<noteq> cid) (local_panes s)\<rparr>
          in if \<not> attached removed then ([], s)
             else if controller s = Some cid then
               (let s = promote s;
                    reason = (if promotion_reason = Expired then Expired
                              else if controller s \<noteq> None then promotion_reason else Released)
                in ([(Broadcast, ControllerChanged (controller s) reason), (Broadcast, clients_changed s)], s))
             else ([(Broadcast, clients_changed s)], s))"

subsection \<open>Control messages\<close>

datatype client_message =
    Attach attach_request
  | RequestControl
  | SetControlTakeover bool
  | SetParked bool
  | GrantControl client_id
  | DeclineControl client_id
  | EvictClient client_id
  | SetInputLock bool
  | CommitLayout u64 shared_layout bool
  | DragUpdate pane_id frac_rect
  | DragEnd
  | Detach

fun handle_message :: "nat \<Rightarrow> client_id \<Rightarrow> client_message \<Rightarrow> session_server \<Rightarrow> messages \<times> session_server" where
  "handle_message now cid (Attach r) s = handle_attach cid r s"
| "handle_message now cid RequestControl s = handle_request_control now cid s"
| "handle_message now cid (SetControlTakeover allowed) s =
     (if list_ex (\<lambda>c. c_id c = cid) (clients s) then handle_set_control_takeover cid allowed s else ([], s))"
| "handle_message now cid (SetParked park) s = handle_set_parked cid park s"
| "handle_message now cid (GrantControl to) s = handle_grant_control cid to s"
| "handle_message now cid (DeclineControl to) s = handle_decline_control cid to s"
| "handle_message now cid (EvictClient victim) s = handle_evict_client cid victim s"
| "handle_message now cid (SetInputLock locked) s = handle_set_input_lock cid locked s"
| "handle_message now cid (CommitLayout base_rev l live) s = handle_commit_layout cid base_rev l live s"
| "handle_message now cid (DragUpdate pid rect) s = handle_drag cid (Some (pid, rect)) s"
| "handle_message now cid DragEnd s = handle_drag cid None s"
| "handle_message now cid Detach s = ([], s)"

definition accepts_client_control :: "client_id \<Rightarrow> client_message \<Rightarrow> session_server \<Rightarrow> bool" where
  "accepts_client_control cid m s \<longleftrightarrow> (case m of Attach _ \<Rightarrow> True | _ \<Rightarrow> False) \<or> client_attached s cid"

definition process_client_control_now :: "nat \<Rightarrow> client_id \<Rightarrow> client_message \<Rightarrow> session_server \<Rightarrow> messages \<times> session_server" where
  "process_client_control_now now cid m s =
     (if \<not> accepts_client_control cid m s then ([(Sender, ErrorCode ''attach-required'')], set_close_after_flush cid s)
      else
        let (responses, s) = handle_message now cid m s;
            s = (case m of Attach _ \<Rightarrow> if client_attached s cid then s else set_close_after_flush cid s | _ \<Rightarrow> s)
        in case m of
             Detach \<Rightarrow> (let (left, s) = remove_client_with_reason cid Granted s in (responses @ left, s))
           | _ \<Rightarrow> (responses, s))"

subsection \<open>Updating one connection\<close>

lemma update_first_map:
  "distinct (map c_id cs) \<Longrightarrow> update_first (\<lambda>c. c_id c = cid) f cs = map (\<lambda>c. if c_id c = cid then f c else c) cs"
proof (induction cs)
  case (Cons c cs)
  have "map (\<lambda>x. if c_id x = c_id c then f x else x) cs = cs"
    using Cons.prems by (intro map_idI) (metis distinct.simps(2) image_eqI list.set_map list.simps(9))
  then show ?case using Cons by auto
qed simp

lemma update_first_absent: "\<forall>x \<in> set xs. \<not> p x \<Longrightarrow> update_first p f xs = xs"
  by (induction xs) auto

lemma map_update_first: "(\<And>x. x \<in> set xs \<Longrightarrow> p x \<Longrightarrow> g (f x) = g x) \<Longrightarrow> map g (update_first p f xs) = map g xs"
  by (induction xs) auto

lemma update_client_fields [simp]:
  "controller (update_client cid f s) = controller s" "input_locked (update_client cid f s) = input_locked s"
  "allow_takeover (update_client cid f s) = allow_takeover s" "layout_rev (update_client cid f s) = layout_rev s"
  "doc (update_client cid f s) = doc s" "server_panes (update_client cid f s) = server_panes s"
  "next_client_id (update_client cid f s) = next_client_id s" "session_name (update_client cid f s) = session_name s"
  "startup_nonce (update_client cid f s) = startup_nonce s" "local_panes (update_client cid f s) = local_panes s"
  "next_generation (update_client cid f s) = next_generation s"
  by (simp_all add: update_client_def)

lemma client_of_None: "client_of s cid = None \<longleftrightarrow> cid \<notin> c_id ` set (clients s)"
  by (auto simp: client_of_def find_None_iff)

lemma update_client_absent: "client_of s cid = None \<Longrightarrow> update_client cid f s = s"
proof -
  assume "client_of s cid = None"
  then have "\<forall>c \<in> set (clients s). \<not> c_id c = cid" by (auto simp: client_of_None)
  then show ?thesis by (simp add: update_client_def update_first_absent)
qed

subsection \<open>What a client that follows the broadcasts knows\<close>

type_synonym view = "client_id option \<times> client_info list \<times> bool \<times> bool"

definition view_of :: "session_server \<Rightarrow> view" where
  "view_of s = (controller s, client_roster s, input_locked s, allow_takeover s)"

fun see :: "target \<times> server_message \<Rightarrow> view \<Rightarrow> view" where
  "see (Broadcast, ClientsChanged roster locked takeover) (holder, _) = (holder, roster, locked, takeover)"
| "see (Broadcast, ControllerChanged holder _) (_, rest) = (holder, rest)"
| "see _ v = v"

definition follow :: "messages \<Rightarrow> view \<Rightarrow> view" where
  "follow msgs v = fold see msgs v"

lemma follow_simps [simp]:
  "follow [] v = v" "follow (m # ms) v = follow ms (see m v)" "follow (ms @ ns) v = follow ns (follow ms v)"
  by (simp_all add: follow_def)

lemma see_cases [simp]:
  "see (Sender, m) v = v" "see (ToClient cid, m) v = v"
  "see (Broadcast, clients_changed s) (holder, rest) = (holder, client_roster s, input_locked s, allow_takeover s)"
  by (cases rest; simp add: clients_changed_def)+

text \<open>Changes that no roster shows.\<close>

lemma roster_update_invisible:
  assumes "\<And>c. attached (f c) = attached c \<and> client_info_of (f c) = client_info_of c"
  shows "client_roster (update_client cid f s) = client_roster s"
proof -
  have "map client_info_of (filter attached (update_first p f cs)) = map client_info_of (filter attached cs)" for p cs
    using assms by (induction cs) auto
  then show ?thesis by (simp add: client_roster_def update_client_def)
qed

lemma view_close [simp]: "view_of (set_close_after_flush cid s) = view_of s"
  by (simp add: view_of_def set_close_after_flush_def roster_update_invisible client_info_of_def)

lemma follow_assign: "follow (fst (assign_controller to reason s)) v = view_of (snd (assign_controller to reason s))"
  by (cases v) (simp add: assign_controller_def Let_def view_of_def)

lemma promote_fields [simp]:
  "input_locked (promote s) = input_locked s" "allow_takeover (promote s) = allow_takeover s"
  "layout_rev (promote s) = layout_rev s" "doc (promote s) = doc s" "controller (promote s) = promotion_candidate s"
  by (simp_all add: promote_def Let_def split: option.split)

lemma follow_release: "follow (fst (release_controller s)) v = view_of (snd (release_controller s))"
  by (cases v) (simp add: release_controller_def Let_def view_of_def)

lemma roster_update_same:
  assumes "client_of s cid = Some c" "client_info_of (f c) = client_info_of c" "attached (f c) = attached c"
  shows "client_roster (update_client cid f s) = client_roster s"
proof -
  have "map client_info_of (filter attached (update_first (\<lambda>c. c_id c = cid) f cs)) = map client_info_of (filter attached cs)"
    if "find (\<lambda>c. c_id c = cid) cs = Some c" for cs
    using that assms(2,3) by (induction cs) (auto split: if_splits)
  then show ?thesis using assms(1) by (simp add: client_roster_def update_client_def client_of_def)
qed

lemma follow_request: "follow (fst (handle_request_control now cid s)) (view_of s) = view_of (snd (handle_request_control now cid s))"
  by (auto simp: handle_request_control_def Let_def follow_assign view_of_def client_info_of_def roster_update_same split: option.split)

lemma follow_parked: "follow (fst (handle_set_parked cid park s)) (view_of s) = view_of (snd (handle_set_parked cid park s))"
  by (auto simp: handle_set_parked_def Let_def follow_assign follow_release view_of_def split: option.split)

lemma follow_attach: "follow (fst (handle_attach cid r s)) (view_of s) = view_of (snd (handle_attach cid r s))"
  by (auto simp: handle_attach_def Let_def view_of_def split: sum.split)

lemma status_invisible: "follow (program_status_for_new_layout_panes s l) v = v"
proof -
  have skip: "follow (List.map_filter g xs) v = v" if "\<And>x m. g x = Some m \<Longrightarrow> see m v = v" for g :: "shared_pane \<Rightarrow> _" and xs
    using that by (induction xs) (auto simp: List.map_filter_simps split: option.split)
  show ?thesis
    unfolding program_status_for_new_layout_panes_def Let_def
  proof (rule skip)
    show "see m v = v" if "(case server_pane_of s (sp_id p) of None \<Rightarrow> None | Some q \<Rightarrow>
        if spn_generation q = sp_generation p \<and> 0 < spn_status_revision q
        then Some (Broadcast, ProgramStatusChanged (sp_id p) (sp_generation p) (spn_status_revision q)) else None) = Some m" for p m
      using that by (cases v) (auto split: option.splits if_splits)
  qed
qed

lemma publish_fields [simp]:
  "controller (snd (publish_shared_layout l a live s)) = controller s" "clients (snd (publish_shared_layout l a live s)) = clients s"
  "layout_rev (snd (publish_shared_layout l a live s)) = layout_rev s + 1" "doc (snd (publish_shared_layout l a live s)) = Some l"
  "input_locked (snd (publish_shared_layout l a live s)) = input_locked s" "allow_takeover (snd (publish_shared_layout l a live s)) = allow_takeover s"
  "next_client_id (snd (publish_shared_layout l a live s)) = next_client_id s"
  "server_panes (snd (publish_shared_layout l a live s)) = server_panes s"
  by (simp_all add: publish_shared_layout_def Let_def)

lemma follow_publish: "follow (fst (publish_shared_layout l a live s)) v = v"
  by (cases v) (simp add: publish_shared_layout_def Let_def status_invisible)

lemma view_publish [simp]: "view_of (snd (publish_shared_layout l a live s)) = view_of s"
  by (simp add: view_of_def client_roster_def)

lemma follow_commit: "follow (fst (handle_commit_layout cid base l live s)) (view_of s) = view_of (snd (handle_commit_layout cid base l live s))"
  by (simp add: handle_commit_layout_def follow_publish)

lemma roster_remove:
  "\<not> attached (cs ! i) \<Longrightarrow> i < length cs \<Longrightarrow> filter attached (take i cs @ drop (Suc i) cs) = filter attached cs"
proof (induction cs arbitrary: i)
  case (Cons c cs)
  then show ?case by (cases i) auto
qed simp

lemma follow_remove:
  "follow (fst (remove_client_with_reason cid reason s)) (view_of s) = view_of (snd (remove_client_with_reason cid reason s))"
proof (cases "position_of (\<lambda>c. c_id c = cid) (clients s)")
  case None
  then show ?thesis by (simp add: remove_client_with_reason_def del: position_of_None)
next
  case (Some i)
  note i = position_of_Some [OF Some]
  show ?thesis
    using roster_remove [of "clients s" i] i
    by (simp add: remove_client_with_reason_def Some Let_def view_of_def) (simp add: client_roster_def)
qed

lemma follow_message: "follow (fst (handle_message now cid m s)) (view_of s) = view_of (snd (handle_message now cid m s))"
proof (cases m)
  case (SetControlTakeover b)
  then show ?thesis by (simp add: handle_set_control_takeover_def Let_def view_of_def client_roster_def)
next
  case (GrantControl to)
  then show ?thesis by (simp add: handle_grant_control_def follow_assign)
next
  case (DeclineControl to)
  then show ?thesis by (auto simp: handle_decline_control_def Let_def view_of_def split: option.split)
next
  case (EvictClient victim)
  then show ?thesis by (simp add: handle_evict_client_def)
next
  case (SetInputLock b)
  then show ?thesis by (simp add: handle_set_input_lock_def Let_def view_of_def client_roster_def)
next
  case (DragUpdate pid rect)
  then show ?thesis by (cases "view_of s") (simp add: handle_drag_def)
next
  case DragEnd
  then show ?thesis by (cases "view_of s") (simp add: handle_drag_def)
qed (simp_all add: follow_attach follow_request follow_parked follow_commit)

text \<open>
  C22: the broadcasts of every control message and of every departure are enough to follow the lease:
  a client that applies them to what it knew ends with the controller, the roster, the input lock
  and the takeover setting of the server, whoever sent the message and whether or not it was refused.
\<close>

theorem followers_track_the_lease:
  "follow (fst (process_client_control_now now cid m s)) (view_of s) = view_of (snd (process_client_control_now now cid m s)) \<and>
   follow (fst (remove_client_with_reason cid reason s)) (view_of s) = view_of (snd (remove_client_with_reason cid reason s)) \<and>
   view_of (accept_new s) = view_of s"
proof (intro conjI)
  obtain msgs s1 where h: "handle_message now cid m s = (msgs, s1)" by fastforce
  have f: "follow msgs (view_of s) = view_of s1" using follow_message [of now cid m s] h by simp
  show "follow (fst (process_client_control_now now cid m s)) (view_of s) = view_of (snd (process_client_control_now now cid m s))"
  proof (cases "accepts_client_control cid m s")
    case False
    then show ?thesis by (simp add: process_client_control_now_def)
  next
    case True
    obtain left s2 where r: "remove_client_with_reason cid Granted s1 = (left, s2)" by fastforce
    have "follow left (view_of s1) = view_of s2" using follow_remove [of cid Granted s1] r by simp
    then show ?thesis
      unfolding process_client_control_now_def h Let_def prod.case using True f by (cases m) (simp_all add: r)
  qed
  show "follow (fst (remove_client_with_reason cid reason s)) (view_of s) = view_of (snd (remove_client_with_reason cid reason s))"
    by (rule follow_remove)
  show "view_of (accept_new s) = view_of s"
    by (simp add: view_of_def accept_new_def client_roster_def new_client_def)
qed

text \<open>
  C39: an attach takes a free lease whatever the state of its connection: a writable one makes the
  sender the controller even when its connection has already been removed, so that the lease is held
  by a client nobody can disconnect, and even when the client is parked, which an attached client
  may be when it attaches again.
\<close>

theorem attach_grants_unconditionally:
  assumes "controller s = None" "attach_refusal r s = Inr effective" "\<not> a_read_only r"
  shows "controller (snd (process_client_control_now now cid (Attach r) s)) = Some cid \<and>
    (client_of s cid = None \<longrightarrow>
      clients (snd (process_client_control_now now cid (Attach r) s)) = clients s \<and>
      remove_client_with_reason cid reason (snd (process_client_control_now now cid (Attach r) s)) =
        ([], snd (process_client_control_now now cid (Attach r) s))) \<and>
    (client_parked s cid \<longrightarrow> client_parked (snd (process_client_control_now now cid (Attach r) s)) cid)"
proof -
  let ?f = "\<lambda>c. c\<lparr>attached := True, c_label := Some (a_label r), c_read_only := a_read_only r\<rparr>"
  let ?s = "(update_client cid ?f s)\<lparr>controller := Some cid\<rparr>"
  have final: "snd (process_client_control_now now cid (Attach r) s) = ?s \<or>
      snd (process_client_control_now now cid (Attach r) s) = set_close_after_flush cid ?s"
    using assms by (auto simp: process_client_control_now_def accepts_client_control_def handle_attach_def Let_def)
  then have held: "controller (snd (process_client_control_now now cid (Attach r) s)) = Some cid"
    by (auto simp: set_close_after_flush_def)
  have ghost: "clients (snd (process_client_control_now now cid (Attach r) s)) = clients s \<and>
      remove_client_with_reason cid reason (snd (process_client_control_now now cid (Attach r) s)) =
        ([], snd (process_client_control_now now cid (Attach r) s))" if none: "client_of s cid = None"
  proof -
    have same: "snd (process_client_control_now now cid (Attach r) s) = s\<lparr>controller := Some cid\<rparr>"
      using final none update_client_absent [of s cid] update_client_absent [of "s\<lparr>controller := Some cid\<rparr>" cid]
      by (auto simp: set_close_after_flush_def client_of_def)
    moreover have "position_of (\<lambda>c. c_id c = cid) (clients s) = None" using none by (auto simp: client_of_None)
    ultimately show ?thesis by (simp add: remove_client_with_reason_def del: position_of_None)
  qed
  have keep: "client_parked (update_client cid f t) cid" if "client_parked t cid" "\<And>c. c_id (f c) = c_id c \<and> parked (f c) = parked c \<and> (attached c \<longrightarrow> attached (f c))" for f t
  proof -
    have "\<exists>c \<in> set (update_first p f cs). c_id c = cid \<and> attached c \<and> parked c" if "\<exists>c \<in> set cs. c_id c = cid \<and> attached c \<and> parked c" for p cs
      using that \<open>\<And>c. c_id (f c) = c_id c \<and> parked (f c) = parked c \<and> (attached c \<longrightarrow> attached (f c))\<close>
      by (induction cs) auto
    then show ?thesis using that(1) by (auto simp: client_parked_def list_ex_iff update_client_def)
  qed
  have "client_parked (snd (process_client_control_now now cid (Attach r) s)) cid" if "client_parked s cid"
  proof -
    have "client_parked (update_client cid ?f s) cid" using that by (intro keep) simp_all
    then have p: "client_parked ?s cid" by (simp add: client_parked_def)
    then have "client_parked (set_close_after_flush cid ?s) cid" unfolding set_close_after_flush_def by (intro keep) simp_all
    with p final show ?thesis by auto
  qed
  with held ghost show ?thesis by blast
qed

definition fresh_server :: session_server where
  "fresh_server = \<lparr>session_name = ''main'', startup_nonce = None, clients = [], next_client_id = 1, controller = None,
     input_locked = False, allow_takeover = False, layout_rev = 0, doc = None, server_panes = [], local_panes = [],
     next_generation = 1\<rparr>"

definition plain_attach :: attach_request where
  "plain_attach = \<lparr>a_session = ''main'', a_protocol_version = 51, a_min_protocol_version = 51, a_label = ''term'',
     a_read_only = False, a_expected_server_nonce = None\<rparr>"

text \<open>Attach, detach and attach again in one batch of frames: the last one finds no connection.\<close>

theorem attach_grants_unconditionally_witness:
  "\<exists>s. s = snd (process_client_control_now 0 1 Detach (snd (process_client_control_now 0 1 (Attach plain_attach) (accept_new fresh_server)))) \<and>
    clients s = [] \<and> controller s = None \<and>
    controller (snd (process_client_control_now 0 1 (Attach plain_attach) s)) = Some 1 \<and>
    clients (snd (process_client_control_now 0 1 (Attach plain_attach) s)) = []"
proof -
  define s where "s = snd (process_client_control_now 0 1 Detach (snd (process_client_control_now 0 1 (Attach plain_attach) (accept_new fresh_server))))"
  have s: "clients s = []" "controller s = None" "attach_refusal plain_attach s = Inr 51"
    unfolding s_def by code_simp+
  moreover have "\<not> a_read_only plain_attach" "client_of s 1 = None" using s(1) by (simp_all add: plain_attach_def client_of_def)
  ultimately show ?thesis using attach_grants_unconditionally [of s plain_attach 51 0 1] s_def by auto
qed

end
