(* ===== verification/Headless.thy ===== *)
theory Headless
  imports Lease
begin

text \<open>
  Layout writes served by the session server itself while no client holds the lease:
  \<^verbatim>\<open>src/session/server/headless.rs\<close>. They compose the validation of the request (\<open>ControlEdit\<close>), the
  edit of the document (\<open>SharedEdit\<close>) and its publication (\<open>Lease\<close>). A reply is an error code or the
  change, with the workspace of the document that the layout report describes. \<open>None\<close> around a result
  is the panic of a float clamp.

  Shown: such a write never gets past a client that holds the lease or a stale revision, a refused
  one changes nothing, and an accepted one leaves a valid document at the next revision, announced
  to every client, or changes nothing at all.
\<close>

definition SERVER_LAYOUT_AUTHOR :: client_id where
  "SERVER_LAYOUT_AUTHOR = 0"

definition HEADLESS_SPAWN_COLS :: u16 where
  "HEADLESS_SPAWN_COLS = 120"

definition HEADLESS_SPAWN_ROWS :: u16 where
  "HEADLESS_SPAWN_ROWS = 32"

record layout_change =
  lc_changed :: bool
  lc_revision :: "u64 option"
  lc_workspace :: shared_workspace

record pane_closed =
  pc_id :: pane_id
  pc_revision :: "u64 option"
  pc_workspace :: "shared_workspace option"

definition empty_document :: shared_layout where
  "empty_document = \<lparr>version = SHARED_LAYOUT_VERSION, canvas_cols = HEADLESS_SPAWN_COLS, canvas_rows = HEADLESS_SPAWN_ROWS,
     pane_geometry = default_geometry, workspaces = []\<rparr>"

definition commit_server_layout :: "shared_layout \<Rightarrow> session_server \<Rightarrow> messages \<times> session_server" where
  "commit_server_layout l s = publish_shared_layout l SERVER_LAYOUT_AUTHOR False s"

definition current_revision :: "session_server \<Rightarrow> u64 option" where
  "current_revision s = map_option (\<lambda>_. layout_rev s) (doc s)"

definition layout_for_headless_write :: "u64 option \<Rightarrow> session_server \<Rightarrow> control_error_code + shared_layout" where
  "layout_for_headless_write if_revision s =
     (if controller s \<noteq> None then Inl NotController
      else case check_if_revision if_revision (current_revision s) of
        Inl e \<Rightarrow> Inl e
      | Inr _ \<Rightarrow>
          (case doc s of
             Some l \<Rightarrow> Inr l
           | None \<Rightarrow> if server_panes s = [] then Inr empty_document else Inl Unavailable))"

text \<open>\<^verbatim>\<open>WorkspaceLayout::from_shared(layout, Some(index + 1)).pop()\<close>: the workspace it reports.\<close>

definition reported_workspace :: "nat \<Rightarrow> shared_layout \<Rightarrow> shared_workspace option" where
  "reported_workspace index l =
     (case rev (filter (\<lambda>w. sw_index w = index) (workspaces l)) of [] \<Rightarrow> None | w # _ \<Rightarrow> Some w)"

type_synonym 'r reply = "(control_error_code + 'r) \<times> messages \<times> session_server"

definition headless_layout_change :: "shared_layout \<Rightarrow> bool \<Rightarrow> nat \<Rightarrow> session_server \<Rightarrow> layout_change reply" where
  "headless_layout_change l changed index s =
     (let (broadcasts, s) = (if changed then commit_server_layout l s else ([], s))
      in case reported_workspace index l of
           None \<Rightarrow> (Inl RequestFailed, broadcasts, s)
         | Some w \<Rightarrow> (Inr \<lparr>lc_changed = changed, lc_revision = current_revision s, lc_workspace = w\<rparr>, broadcasts, s))"

definition session_layout_set :: "nat \<Rightarrow> layout_edit \<Rightarrow> u64 option \<Rightarrow> session_server \<Rightarrow> layout_change reply" where
  "session_layout_set number edit if_revision s =
     (case validate_layout_workspace (Some number) of
        Inl e \<Rightarrow> (Inl e, [], s)
      | Inr _ \<Rightarrow>
          (case layout_for_headless_write if_revision s of
             Inl e \<Rightarrow> (Inl e, [], s)
           | Inr l \<Rightarrow>
               let index = number - 1 in
               (case check_layout_edit edit (layout_kind_of index l) of
                  Inl e \<Rightarrow> (Inl e, [], s)
                | Inr _ \<Rightarrow>
                    let (changed, l) = (case le_kind edit of Some kind \<Rightarrow> set_layout_kind index kind l | None \<Rightarrow> (False, l));
                        (changed, l) = (case le_master_ratio edit of
                          Some ratio \<Rightarrow> (let (set, l) = set_master_ratio index ratio l in (changed \<or> set, l))
                        | None \<Rightarrow> (changed, l))
                    in headless_layout_change l changed index s)))"

definition floating_in :: "shared_workspace \<Rightarrow> pane_id \<Rightarrow> bool" where
  "floating_in w pid \<longleftrightarrow> list_ex (\<lambda>p. sp_id p = pid \<and> sp_floating p) (sw_panes w)"

definition session_pane_set :: "pane_id \<Rightarrow> pane_edit \<Rightarrow> u64 option \<Rightarrow> session_server \<Rightarrow> layout_change reply option" where
  "session_pane_set pid edit if_revision s =
     (case layout_for_headless_write if_revision s of
        Inl e \<Rightarrow> Some (Inl e, [], s)
      | Inr l \<Rightarrow>
          (case workspace_position_of l pid of
             None \<Rightarrow> Some (Inl PaneNotFound, [], s)
           | Some position \<Rightarrow>
               let w = workspaces l ! position;
                   floating_now = floating_in w pid
               in (case check_rect_target edit floating_now of
                     Inl e \<Rightarrow> Some (Inl e, [], s)
                   | Inr _ \<Rightarrow>
                       (case check_sizes edit floating_now (kind_of_serialized (sw_layout w)) (pane_in_split pid l) of
                          Inl e \<Rightarrow> Some (Inl e, [], s)
                        | Inr _ \<Rightarrow> do {
                            (result, l') \<leftarrow> edit_pane pid edit l;
                            Some (case result of
                              Inr changed \<Rightarrow> headless_layout_change l' changed (sw_index w) s
                            | Inl _ \<Rightarrow> (Inl InvalidArgument, [], s))
                          }))))"

fun shared_edit_refusal :: "shared_edit_error \<Rightarrow> control_error_code" where
  "shared_edit_refusal (PaneNotPlaced _) = PaneNotFound"
| "shared_edit_refusal (NotSwappable _ _) = InvalidArgument"
| "shared_edit_refusal (InvalidDocument _) = InvalidArgument"

definition session_pane_move :: "pane_id \<Rightarrow> nat \<Rightarrow> u64 option \<Rightarrow> session_server \<Rightarrow> layout_change reply" where
  "session_pane_move pid number if_revision s =
     (case validate_layout_workspace (Some number) of
        Inl e \<Rightarrow> (Inl e, [], s)
      | Inr _ \<Rightarrow>
          (case layout_for_headless_write if_revision s of
             Inl e \<Rightarrow> (Inl e, [], s)
           | Inr l \<Rightarrow>
               (case move_pane pid (number - 1) l of
                  (Inr changed, l) \<Rightarrow> headless_layout_change l changed (number - 1) s
                | (Inl error, _) \<Rightarrow> (Inl (shared_edit_refusal error), [], s))))"

text \<open>A swap that succeeds is of a placed pane; the other branch is \<^verbatim>\<open>unreachable!\<close>.\<close>

definition session_pane_swap :: "pane_id \<Rightarrow> pane_id \<Rightarrow> u64 option \<Rightarrow> session_server \<Rightarrow> layout_change reply option" where
  "session_pane_swap pid other if_revision s =
     (case layout_for_headless_write if_revision s of
        Inl e \<Rightarrow> Some (Inl e, [], s)
      | Inr l \<Rightarrow>
          let index = map_option (\<lambda>position. sw_index (workspaces l ! position)) (workspace_position_of l pid)
          in (case (index, swap_panes pid other l) of
                (Some index, Inr changed, l) \<Rightarrow> Some (headless_layout_change l changed index s)
              | (_, Inl error, _) \<Rightarrow> Some (Inl (shared_edit_refusal error), [], s)
              | (None, Inr _, _) \<Rightarrow> None))"

definition session_pane_close :: "pane_id \<Rightarrow> u64 option \<Rightarrow> session_server \<Rightarrow> pane_closed reply" where
  "session_pane_close pid if_revision s =
     (if controller s \<noteq> None then (Inl NotController, [], s)
      else case check_if_revision if_revision (current_revision s) of
        Inl e \<Rightarrow> (Inl e, [], s)
      | Inr _ \<Rightarrow>
          if server_pane_of s pid = None then (Inl PaneNotFound, [], s)
          else
            let (left, l) = (case doc s of
                  None \<Rightarrow> (None, None)
                | Some l \<Rightarrow> (let (left, l) = remove_pane pid l in (left, Some l)))
            in if left \<noteq> None \<and> (case l of Some l \<Rightarrow> validate l \<noteq> Inr () | None \<Rightarrow> False)
               then (Inl InvalidArgument, [], s)
               else
                 let s = s\<lparr>server_panes := AList.delete pid (server_panes s)\<rparr>;
                     (w, broadcasts, s) = (case (l, left) of
                       (Some l, Some index) \<Rightarrow>
                         (let (broadcasts, s) = commit_server_layout l s
                          in (reported_workspace index l, broadcasts, s))
                     | _ \<Rightarrow> (None, [], s))
                 in (Inr \<lparr>pc_id = pid, pc_revision = current_revision s, pc_workspace = w\<rparr>, broadcasts, s))"

subsection \<open>Opening a pane\<close>

datatype float_position =
    Center | Cursor | TopLeft | Top | TopRight | LeftSide | RightSide | BottomLeft | Bottom | BottomRight

record spawn_float =
  sf_width :: f32
  sf_height :: f32
  sf_position :: float_position
  sf_pointer :: "(f32 \<times> f32) option"

definition spawn_float_rect :: "spawn_float \<Rightarrow> float_rect \<Rightarrow> float_rect option" where
  "spawn_float_rect f bounds =
     (let w = rw bounds * sf_width f;
          h = rh bounds * sf_height f;
          cx = rx bounds + (rw bounds - w) div Fin 2;
          cy = ry bounds + (rh bounds - h) div Fin 2;
          right = rx bounds + rw bounds - w;
          bottom = ry bounds + rh bounds - h;
          (x, y) = (case sf_position f of
              Center \<Rightarrow> (cx, cy)
            | Cursor \<Rightarrow> (case sf_pointer f of Some (px, py) \<Rightarrow> (px - w div Fin 2, py - h div Fin 2) | None \<Rightarrow> (cx, cy))
            | TopLeft \<Rightarrow> (rx bounds, ry bounds)
            | Top \<Rightarrow> (cx, ry bounds)
            | TopRight \<Rightarrow> (right, ry bounds)
            | LeftSide \<Rightarrow> (rx bounds, cy)
            | RightSide \<Rightarrow> (right, cy)
            | BottomLeft \<Rightarrow> (rx bounds, bottom)
            | Bottom \<Rightarrow> (cx, bottom)
            | BottomRight \<Rightarrow> (right, bottom))
      in clamp_float_rect \<lparr>rx = x, ry = y, rw = w, rh = h\<rparr> bounds)"

record pane_spawn_placement =
  spawn_at_float :: "spawn_float option"
  spawn_fullscreen :: bool

definition next_headless_pane_id :: "session_server \<Rightarrow> pane_id option" where
  "next_headless_pane_id s =
     (let highest = fold max (map fst (server_panes s) @ map snd (local_panes s) @
            (case doc s of None \<Rightarrow> [] | Some l \<Rightarrow> map sp_id (doc_panes l))) 0
      in if highest = - 1 then None
         else if highest + 1 = POPUP_PANE_ID then None else Some (highest + 1))"

definition spawned_shared_pane ::
  "pane_id \<Rightarrow> u64 \<Rightarrow> pane_spawn_placement \<Rightarrow> frac_rect option \<Rightarrow> pane_launch option \<Rightarrow> string option \<Rightarrow> string option \<Rightarrow> bool \<Rightarrow> shared_pane" where
  "spawned_shared_pane pid generation placement rect intent directory title keep =
     \<lparr>sp_id = pid, sp_generation = generation, sp_title = title, sp_profile_name = None, sp_cwd = directory,
      sp_launch = intent, sp_replay = False, sp_keep_open = keep, sp_floating = (spawn_at_float placement \<noteq> None),
      sp_pinned = False, sp_fullscreen = spawn_fullscreen placement, sp_rect = rect,
      sp_scrollable_width = DEFAULT_SCROLLABLE_WIDTH\<rparr>"

definition headless_workspace :: "nat \<Rightarrow> shared_pane \<Rightarrow> shared_workspace" where
  "headless_workspace index p =
     \<lparr>sw_index = index, sw_name = None, sw_synchronized = False, sw_layout = SDwindle, sw_start_axis = SHorizontal,
      sw_split_ratios = [], sw_tree = None, sw_panes = [p]\<rparr>"

definition add_to_workspace :: "shared_pane \<Rightarrow> bool \<Rightarrow> shared_workspace \<Rightarrow> shared_workspace" where
  "add_to_workspace p fullscreen w =
     w\<lparr>sw_panes := (if fullscreen then map (\<lambda>q. q\<lparr>sp_fullscreen := False\<rparr>) (sw_panes w) else sw_panes w) @ [p]\<rparr>"

definition headless_layout_with_pane ::
  "pane_id \<Rightarrow> u64 \<Rightarrow> nat \<Rightarrow> pane_spawn_placement \<Rightarrow> pane_launch option \<Rightarrow> string option \<Rightarrow> string option \<Rightarrow> bool \<Rightarrow>
   session_server \<Rightarrow> shared_layout option option" where
  "headless_layout_with_pane pid generation index placement intent directory title keep s =
     (let l = (case doc s of Some l \<Rightarrow> l | None \<Rightarrow> empty_document) in do {
        rect \<leftarrow> (case spawn_at_float placement of
           None \<Rightarrow> Some None
         | Some f \<Rightarrow> map_option (\<lambda>r. Some (float_rect_to_frac r (canvas_cols l) (canvas_rows l)))
             (spawn_float_rect f \<lparr>rx = Fin 0, ry = Fin 0, rw = u16_f32 (max (canvas_cols l) 1), rh = u16_f32 (max (canvas_rows l) 1)\<rparr>));
        let p = spawned_shared_pane pid generation placement rect intent directory title keep;
        let l = (if list_ex (\<lambda>w. sw_index w = index) (workspaces l)
                 then l\<lparr>workspaces := update_first (\<lambda>w. sw_index w = index) (add_to_workspace p (spawn_fullscreen placement)) (workspaces l)\<rparr>
                 else l\<lparr>workspaces := workspaces l @ [headless_workspace index p]\<rparr>);
        Some (if validate l = Inr () then Some l else None)
      })"

text \<open>
  \<^verbatim>\<open>session_new_pane\<close> from the resolved request on: the launch intent, the workspace and the float that
  the rules gave it. \<open>started\<close> is the outcome of starting the process.
\<close>

definition session_new_pane ::
  "nat \<Rightarrow> pane_spawn_placement \<Rightarrow> pane_launch option \<Rightarrow> string option \<Rightarrow> string option \<Rightarrow> bool \<Rightarrow> bool \<Rightarrow> session_server \<Rightarrow>
   pane_id reply option" where
  "session_new_pane index placement intent directory title keep started s =
     (if controller s \<noteq> None then Some (Inl NotController, [], s)
      else if doc s = None \<and> server_panes s \<noteq> [] then Some (Inl RequestFailed, [], s)
      else case next_headless_pane_id s of
        None \<Rightarrow> Some (Inl RequestFailed, [], s)
      | Some pid \<Rightarrow> do {
          layout \<leftarrow> headless_layout_with_pane pid (next_generation s) index placement intent directory title keep s;
          Some (case layout of
            None \<Rightarrow> (Inl RequestFailed, [], s)
          | Some l \<Rightarrow>
              (let (result, broadcasts, s) =
                 spawn_shared_pane pid (next_generation s) intent False (Some (layout_rev s, l)) SERVER_LAYOUT_AUTHOR started s
               in case result of SpawnResult _ _ True \<Rightarrow> (Inr pid, broadcasts, s) | _ \<Rightarrow> (Inl RequestFailed, broadcasts, s)))
        })"

subsection \<open>The workspaces an edit keeps\<close>

lemma reported_iff: "(\<exists>w. reported_workspace index l = Some w) \<longleftrightarrow> index \<in> set (map sw_index (workspaces l))"
proof -
  have "(\<exists>w. reported_workspace index l = Some w) \<longleftrightarrow> filter (\<lambda>w. sw_index w = index) (workspaces l) \<noteq> []"
    by (cases "rev (filter (\<lambda>w. sw_index w = index) (workspaces l))") (auto simp: reported_workspace_def)
  then show ?thesis by (auto simp: filter_empty_conv)
qed

lemma position_index: "workspace_position_of l pid = Some i \<Longrightarrow> sw_index (workspaces l ! i) \<in> set (map sw_index (workspaces l))"
  using position_workspace(1) [of l pid i] by simp

lemma ensure_index: "index \<in> set (map sw_index (workspaces (ensure_workspace index l)))"
  by (auto simp: set_ensure image_iff)

lemma update_ensured_index:
  assumes "\<And>w. sw_index (f w) = sw_index w"
  shows "index \<in> set (map sw_index (workspaces (update_at (workspace_at index (ensure_workspace index l)) f (ensure_workspace index l))))"
  using ensure_index [of index l] workspace_at_ensure(1) [of index l] assms by (simp del: set_map)

lemma set_kind_index: "index \<in> set (map sw_index (workspaces (snd (set_layout_kind index kind l))))"
proof -
  let ?l = "ensure_workspace index l"
  have "snd (set_layout_kind index kind l) = ?l \<or>
      snd (set_layout_kind index kind l) = update_at (workspace_at index ?l) (\<lambda>w. w\<lparr>sw_layout := kind_to_serialized kind\<rparr>) ?l"
    by (simp add: set_layout_kind_def Let_def)
  then show ?thesis
  proof
    assume eq: "snd (set_layout_kind index kind l) = ?l"
    show ?thesis unfolding eq by (rule ensure_index)
  next
    assume eq: "snd (set_layout_kind index kind l) = update_at (workspace_at index ?l) (\<lambda>w. w\<lparr>sw_layout := kind_to_serialized kind\<rparr>) ?l"
    show ?thesis unfolding eq by (rule update_ensured_index) simp
  qed
qed

lemma set_ratio_index: "index \<in> set (map sw_index (workspaces (snd (set_master_ratio index ratio l))))"
proof -
  have "snd (set_master_ratio index ratio l) = update_at (workspace_at index (ensure_workspace index l))
      (\<lambda>w. w\<lparr>sw_split_ratios := snd (set_master_share (sw_split_ratios (workspaces (ensure_workspace index l) !
        workspace_at index (ensure_workspace index l))) ratio)\<rparr>) (ensure_workspace index l)"
    by (simp add: set_master_ratio_def Let_def case_prod_beta)
  then show ?thesis by (simp only:) (rule update_ensured_index, simp)
qed

lemma index_set_float: "map sw_index (workspaces (snd (set_float_placement pid rect l))) = map sw_index (workspaces l)"
proof (cases "workspace_position_of l pid")
  case (Some i)
  note i = position_workspace(1) [OF Some]
  have "sw_index (update_pane pid f w) = sw_index w" for f w by (simp add: update_pane_def split: option.split)
  then show ?thesis
    using i by (auto simp: set_float_placement_def Some Let_def settle_tree_def split: option.split)
qed (simp add: set_float_placement_def)

lemma index_edit:
  assumes "edit_pane pid edit l = Some (r, l')"
  shows "map sw_index (workspaces l') = map sw_index (workspaces l)"
proof -
  obtain x where x: "edit_pane_fields pid edit l = Some x" "checked x = (r, l')"
    using assms by (auto simp: edit_pane_def)
  then have "snd x = l'" using checked_snd [of x] by simp
  then obtain r0 where fields: "edit_pane_fields pid edit l = Some (r0, l')" using x(1) by (cases x) auto
  show ?thesis
  proof (cases "workspace_position_of l pid")
    case None
    then show ?thesis using fields by (simp add: edit_pane_fields_def)
  next
    case (Some i)
    obtain l1 where l1: "l1 = l \<or> (\<exists>rect. l1 = snd (set_float_placement pid rect l))"
      "l' = update_at i (apply_shared_pane_sizes (doc_canvas l) pid edit) (edit_fullscreen i pid (e_fullscreen edit) l1)"
      using edit_pane_fields_steps [OF fields Some] by blast
    have idx: "map sw_index (workspaces l1) = map sw_index (workspaces l)" using l1(1) index_set_float by auto
    then have i1: "i < length (workspaces l1)" using position_workspace(1) [OF Some] by (metis length_map)
    have u: "sw_index (update_pane pid f w) = sw_index w" for f w by (simp add: update_pane_def split: option.split)
    then have "sw_index (apply_shared_pane_sizes c pid edit w) = sw_index w" for c w
      by (simp add: apply_shared_pane_sizes_def Let_def split: option.split)
    moreover have "map sw_index (workspaces (edit_fullscreen i pid flag l1)) = map sw_index (workspaces l1)"
      "length (workspaces (edit_fullscreen i pid flag l1)) = length (workspaces l1)" for flag
      using i1 u by (auto simp: edit_fullscreen_def Let_def split: option.split)
    ultimately show ?thesis unfolding l1(2) using i1 idx by simp
  qed
qed

lemma edit_valid: "edit_pane pid edit l = Some (Inr changed, l') \<Longrightarrow> valid_layout l'"
proof -
  assume "edit_pane pid edit l = Some (Inr changed, l')"
  then obtain x where x: "checked x = (Inr changed, l')" by (auto simp: edit_pane_def)
  then have "snd x = l'" using checked_snd [of x] by simp
  then have "validate l' = Inr ()"
    using x by (cases x; cases "fst x"; cases "validate l'") (simp_all add: checked_def)
  then show ?thesis by (simp add: validate_iff_valid)
qed

lemma move_index:
  assumes "valid_layout l" "target < WORKSPACE_COUNT" "move_pane pid target l = (Inr changed, l')"
  shows "target \<in> set (map sw_index (workspaces l'))"
proof (cases "workspace_position_of l pid")
  case None
  then show ?thesis using assms by (simp add: move_pane_def move_pane_fields_def checked_def)
next
  case (Some s)
  show ?thesis
  proof (cases "sw_index (workspaces l ! s) = target")
    case True
    then show ?thesis using position_index [OF Some] Some assms by (simp add: move_pane_def move_pane_fields_def checked_ok)
  next
    case False
    define u where "u = update_at s (update_pane pid (pin False)) l"
    note m = move_pane_eq [OF assms(1) Some False assms(2), folded u_def]
    have "sw_index (arrive c p w) = sw_index w" for c p w
      by (simp add: arrive_def Let_def)
    then have "target \<in> set (map sw_index (workspaces (moved pid s target u)))"
      unfolding moved_def Let_def by (rule update_ensured_index)
    then show ?thesis using m(1) assms(3) by simp
  qed
qed

subsection \<open>The discipline of a layout write\<close>

definition doc_ok :: "session_server \<Rightarrow> bool" where
  "doc_ok s \<longleftrightarrow> (case doc s of None \<Rightarrow> True | Some l \<Rightarrow> valid_layout l)"

text \<open>
  What a write may do: with a controller or past a stale revision it is refused; refused, or asked
  for what is already so, it changes and announces nothing; otherwise it publishes one valid document.
\<close>

definition write_allowed :: "u64 option \<Rightarrow> session_server \<Rightarrow> bool" where
  "write_allowed if_revision s \<longleftrightarrow> controller s = None \<and> (\<forall>r. if_revision = Some r \<longrightarrow> current_revision s = Some r)"

definition disciplined :: "u64 option \<Rightarrow> session_server \<Rightarrow> layout_change reply \<Rightarrow> bool" where
  "disciplined if_revision s r =
     (case r of
        (Inl _, msgs, s') \<Rightarrow> msgs = [] \<and> s' = s
      | (Inr change, msgs, s') \<Rightarrow>
          write_allowed if_revision s \<and>
          (if lc_changed change
           then \<exists>l. valid_layout l \<and> (msgs, s') = publish_shared_layout l SERVER_LAYOUT_AUTHOR False s
           else msgs = [] \<and> s' = s))"

lemma empty_document_valid: "valid_layout empty_document"
  by (simp add: valid_layout_def empty_document_def valid_geometry_def default_geometry_def all_pane_ids_def
      HEADLESS_SPAWN_COLS_def HEADLESS_SPAWN_ROWS_def)

lemma layout_for_write:
  assumes "layout_for_headless_write if_revision s = Inr l" "doc_ok s"
  shows "write_allowed if_revision s" "valid_layout l"
proof -
  have "controller s = None" using assms(1) by (auto simp: layout_for_headless_write_def split: if_splits)
  moreover have "check_if_revision if_revision (current_revision s) = Inr ()"
    using assms(1) by (cases "check_if_revision if_revision (current_revision s)") (auto simp: layout_for_headless_write_def split: if_splits)
  ultimately show "write_allowed if_revision s"
    by (auto simp: write_allowed_def check_if_revision_def split: option.splits if_splits)
  show "valid_layout l"
    using assms empty_document_valid
    by (auto simp: layout_for_headless_write_def doc_ok_def split: if_splits sum.splits option.splits)
qed

lemma disciplined_error [simp]: "disciplined if_revision s (Inl e, [], s)"
  by (simp add: disciplined_def)

lemma disciplined_change:
  assumes "write_allowed if_revision s" "valid_layout l" "index \<in> set (map sw_index (workspaces l))"
  shows "disciplined if_revision s (headless_layout_change l changed index s)"
proof -
  obtain w where "reported_workspace index l = Some w" using assms(3) reported_iff [of index l] by auto
  then show ?thesis
    using assms(1,2)
    by (cases "publish_shared_layout l SERVER_LAYOUT_AUTHOR False s")
      (auto simp: headless_layout_change_def commit_server_layout_def disciplined_def Let_def)
qed

lemma validate_number: "validate_layout_workspace (Some n) = Inr () \<Longrightarrow> n - 1 < WORKSPACE_COUNT"
  by (auto simp: validate_layout_workspace_def WORKSPACE_COUNT_def split: if_splits)

lemma validated_master: "validate_layout_edit kind ratio = Inr edit \<Longrightarrow> le_master_ratio edit = Some r \<Longrightarrow> good_ratio r"
proof -
  assume edit: "validate_layout_edit kind ratio = Inr edit" "le_master_ratio edit = Some r"
  then obtain m where m: "validate_opt_ratio ratio = Inr m" by (auto simp: validate_layout_edit_def split: sum.splits)
  then have "m = Some r" using edit by (auto simp: validate_layout_edit_def split: if_splits)
  then obtain v where "validate_ratio v = Inr r" using m by (cases ratio) (auto split: sum.splits)
  then show ?thesis using validate_ratio_ok by blast
qed

lemma validated_asks: "validate_layout_edit kind ratio = Inr edit \<Longrightarrow> le_kind edit \<noteq> None \<or> le_master_ratio edit \<noteq> None"
  by (auto simp: validate_layout_edit_def split: sum.splits if_splits)

lemma layout_set_disciplined:
  assumes "doc_ok s" "validate_layout_edit kind ratio = Inr edit"
  shows "disciplined if_revision s (session_layout_set n edit if_revision s)"
proof (cases "validate_layout_workspace (Some n)")
  case (Inr x)
  then have n: "n - 1 < WORKSPACE_COUNT" using validate_number [of n] by simp
  let ?i = "n - 1"
  show ?thesis
  proof (cases "layout_for_headless_write if_revision s")
    case w: (Inr l)
    note l = layout_for_write [OF w assms(1)]
    show ?thesis
    proof (cases "check_layout_edit edit (layout_kind_of ?i l)")
      case check: (Inr y)
      define a where "a = (case le_kind edit of Some kind \<Rightarrow> set_layout_kind ?i kind l | None \<Rightarrow> (False, l))"
      define b where "b = (case le_master_ratio edit of
          Some ratio \<Rightarrow> (fst a \<or> fst (set_master_ratio ?i ratio (snd a)), snd (set_master_ratio ?i ratio (snd a)))
        | None \<Rightarrow> a)"
      have a: "valid_layout (snd a)" "le_kind edit \<noteq> None \<Longrightarrow> ?i \<in> set (map sw_index (workspaces (snd a)))"
        using l(2) set_kind_valid [OF l(2) n] set_kind_index by (auto simp: a_def split: option.split)
      have b: "valid_layout (snd b)" "?i \<in> set (map sw_index (workspaces (snd b)))"
        using a set_ratio_valid [OF a(1) n validated_master [OF assms(2)]] set_ratio_index validated_asks [OF assms(2)]
        by (auto simp: b_def split: option.split)
      have "session_layout_set n edit if_revision s = headless_layout_change (snd b) (fst b) ?i s"
        unfolding session_layout_set_def Inr w check sum.case Let_def a_def [symmetric] b_def
        by (cases a; cases "le_master_ratio edit") (simp_all add: case_prod_beta)
      then show ?thesis using disciplined_change [OF l(1) b] by simp
    qed (simp add: session_layout_set_def Inr w)
  qed (simp add: session_layout_set_def Inr)
qed (simp add: session_layout_set_def)

lemma pane_set_disciplined:
  assumes "doc_ok s" "session_pane_set pid edit if_revision s = Some r"
  shows "disciplined if_revision s r"
proof (cases "layout_for_headless_write if_revision s")
  case (Inr l)
  note l = layout_for_write [OF Inr assms(1)]
  show ?thesis
  proof (cases "workspace_position_of l pid")
    case (Some i)
    let ?w = "workspaces l ! i"
    show ?thesis
    proof (cases "check_rect_target edit (floating_in ?w pid)")
      case rect: (Inr x)
      show ?thesis
      proof (cases "check_sizes edit (floating_in ?w pid) (kind_of_serialized (sw_layout ?w)) (pane_in_split pid l)")
        case sizes: (Inr y)
        obtain result l' where e: "edit_pane pid edit l = Some (result, l')"
          and r: "r = (case result of Inr changed \<Rightarrow> headless_layout_change l' changed (sw_index ?w) s | Inl _ \<Rightarrow> (Inl InvalidArgument, [], s))"
          using assms(2) unfolding session_pane_set_def Inr Some rect sizes sum.case option.case Let_def bind_eq_Some_conv by auto
        show ?thesis
        proof (cases result)
          case Inl
          then show ?thesis by (simp add: r)
        next
          case changed: (Inr changed)
          have "sw_index ?w \<in> set (map sw_index (workspaces l'))"
            using position_index [OF Some] index_edit [OF e] by metis
          then show ?thesis using disciplined_change [OF l(1) edit_valid [OF e [unfolded changed]]] by (simp add: r changed)
        qed
      qed (use assms(2) in \<open>simp add: session_pane_set_def Inr Some rect Let_def\<close>, clarsimp)
    qed (use assms(2) in \<open>simp add: session_pane_set_def Inr Some Let_def\<close>, clarsimp)
  qed (use assms(2) in \<open>simp add: session_pane_set_def Inr\<close>, clarsimp)
qed (use assms(2) in \<open>simp add: session_pane_set_def\<close>, clarsimp)

lemma pane_move_disciplined:
  assumes "doc_ok s"
  shows "disciplined if_revision s (session_pane_move pid n if_revision s)"
proof (cases "validate_layout_workspace (Some n)")
  case (Inr x)
  then have n: "n - 1 < WORKSPACE_COUNT" using validate_number [of n] by simp
  show ?thesis
  proof (cases "layout_for_headless_write if_revision s")
    case w: (Inr l)
    note l = layout_for_write [OF w assms(1)]
    obtain result l' where m: "move_pane pid (n - 1) l = (result, l')" by fastforce
    show ?thesis
    proof (cases result)
      case (Inl e)
      then show ?thesis by (simp add: session_pane_move_def Inr w m del: One_nat_def)
    next
      case changed: (Inr changed)
      have "valid_layout l'" using move_valid [OF l(2) n, of pid] m by simp
      then show ?thesis
        using disciplined_change [OF l(1) _ move_index [OF l(2) n m [unfolded changed]]] by (simp add: session_pane_move_def Inr w m changed del: One_nat_def)
    qed
  qed (simp add: session_pane_move_def Inr)
qed (simp add: session_pane_move_def)

lemma pane_swap_disciplined:
  assumes "doc_ok s" "session_pane_swap pid other if_revision s = Some r"
  shows "disciplined if_revision s r"
proof (cases "layout_for_headless_write if_revision s")
  case w: (Inr l)
  note l = layout_for_write [OF w assms(1)]
  obtain result l' where m: "swap_panes pid other l = (result, l')" by fastforce
  show ?thesis
  proof (cases result)
    case (Inl e)
    then show ?thesis
      using assms(2) by (cases "workspace_position_of l pid") (auto simp: session_pane_swap_def w m)
  next
    case changed: (Inr changed)
    obtain i where i: "workspace_position_of l pid = Some i"
      using assms(2) by (cases "workspace_position_of l pid") (auto simp: session_pane_swap_def w m changed)
    obtain j where j: "workspace_position_of l other = Some j"
      using m changed by (cases "workspace_position_of l other") (auto simp: swap_panes_def swap_pane_fields_def i checked_def)
    have sw: "swappable pid other l"
    proof (rule ccontr)
      assume "\<not> swappable pid other l"
      then have "swap_pane_fields pid other l = (Inl (NotSwappable pid other), l)" by (rule swap_refused [OF _ i j])
      then show False using m changed by (simp add: swap_panes_def checked_def)
    qed
    have l': "l' = update_at i (exchange (doc_canvas l) pid other) l"
      using swap_pane_fields_eq [OF l(2) i sw] m exchange_layout [OF l(2) i sw] by (simp add: swap_panes_def checked_ok)
    have "valid_layout l'" using exchange_layout [OF l(2) i sw] l' by simp
    moreover have "map sw_index (workspaces l') = map sw_index (workspaces l)"
      unfolding l' using position_workspace(1) [OF i] by (simp add: exchange_def)
    then have "sw_index (workspaces l ! i) \<in> set (map sw_index (workspaces l'))" using position_index [OF i] by simp
    ultimately show ?thesis
      using disciplined_change [OF l(1)] assms(2) by (simp add: session_pane_swap_def w m changed i) blast
  qed
qed (use assms(2) in \<open>simp add: session_pane_swap_def\<close>, clarsimp)

lemma remove_pane_gone:
  assumes "valid_layout l"
  shows "pid \<notin> set (all_pane_ids (workspaces (snd (remove_pane pid l))))"
proof (cases "workspace_position_of l pid")
  case None
  then have "snd (remove_pane pid l) = l" by (simp add: remove_pane_def)
  moreover have "pid \<notin> set (all_pane_ids (workspaces l))"
    using None by (auto simp: workspace_position_of_def all_pane_ids_def list_ex_iff)
  ultimately show ?thesis by simp
next
  case (Some i)
  note i = position_workspace [OF Some]
  have "distinct (all_pane_ids (workspaces l))" using assms by (simp add: valid_layout_def)
  from distinct_minus [OF this depart_layout(2) [OF assms i]] show ?thesis by (simp add: remove_pane_eq [OF Some])
qed

definition closes :: "pane_id \<Rightarrow> u64 option \<Rightarrow> session_server \<Rightarrow> pane_closed reply \<Rightarrow> bool" where
  "closes pid if_revision s r =
     (case r of
        (Inl _, msgs, s') \<Rightarrow> msgs = [] \<and> s' = s
      | (Inr _, msgs, s') \<Rightarrow>
          write_allowed if_revision s \<and> server_pane_of s pid \<noteq> None \<and> server_pane_of s' pid = None \<and> doc_ok s' \<and>
          (case doc s' of Some l \<Rightarrow> pid \<notin> set (all_pane_ids (workspaces l)) | None \<Rightarrow> True) \<and>
          (doc s' = doc s \<and> layout_rev s' = layout_rev s \<or> layout_rev s' = layout_rev s + 1))"

lemma server_pane_delete: "map_of (AList.delete pid ps) pid = None"
  by (simp add: AList.delete_conv')

lemma pane_close_closes:
  assumes "doc_ok s"
  shows "closes pid if_revision s (session_pane_close pid if_revision s)"
proof (cases "controller s = None \<and> check_if_revision if_revision (current_revision s) = Inr () \<and> server_pane_of s pid \<noteq> None")
  case False
  then have "\<exists>e. session_pane_close pid if_revision s = (Inl e, [], s)"
    by (cases "check_if_revision if_revision (current_revision s)") (auto simp: session_pane_close_def)
  then show ?thesis by (auto simp: closes_def)
next
  case True
  then have allowed: "write_allowed if_revision s"
    by (auto simp: write_allowed_def check_if_revision_def split: option.splits if_splits)
  let ?s = "s\<lparr>server_panes := AList.delete pid (server_panes s)\<rparr>"
  show ?thesis
  proof (cases "doc s")
    case None
    then have "session_pane_close pid if_revision s = (Inr \<lparr>pc_id = pid, pc_revision = None, pc_workspace = None\<rparr>, [], ?s)"
      using True by (simp add: session_pane_close_def current_revision_def Let_def)
    then show ?thesis
      using True allowed None by (simp add: closes_def server_pane_of_def server_pane_delete doc_ok_def)
  next
    case (Some l)
    have l: "valid_layout l" using assms Some by (simp add: doc_ok_def)
    obtain left l' where rem: "remove_pane pid l = (left, l')" by fastforce
    have l': "valid_layout l'" "pid \<notin> set (all_pane_ids (workspaces l'))"
      using remove_valid [OF l, of pid] remove_pane_gone [OF l, of pid] rem by simp_all
    have ok: "validate l' = Inr ()" using l'(1) by (simp add: validate_ok)
    show ?thesis
    proof (cases left)
      case None
      have "l' = l" using rem None by (cases "workspace_position_of l pid") (auto simp: remove_pane_def Let_def)
      moreover have "session_pane_close pid if_revision s =
          (Inr \<lparr>pc_id = pid, pc_revision = Some (layout_rev s), pc_workspace = None\<rparr>, [], ?s)"
        using True Some rem None ok by (simp add: session_pane_close_def current_revision_def Let_def)
      ultimately show ?thesis
        using True allowed Some l' by (simp add: closes_def server_pane_of_def server_pane_delete doc_ok_def)
    next
      case index: (Some index)
      obtain msgs s2 where pub: "publish_shared_layout l' SERVER_LAYOUT_AUTHOR False ?s = (msgs, s2)" by fastforce
      have s2: "doc s2 = Some l'" "layout_rev s2 = layout_rev s + 1" "server_panes s2 = server_panes ?s"
        using publish_fields(3,4,8) [of l' SERVER_LAYOUT_AUTHOR False ?s] unfolding pub by simp_all
      have "session_pane_close pid if_revision s =
          (Inr \<lparr>pc_id = pid, pc_revision = Some (layout_rev s2), pc_workspace = reported_workspace index l'\<rparr>, msgs, s2)"
        using True Some rem index ok pub s2(1) by (simp add: session_pane_close_def commit_server_layout_def current_revision_def Let_def)
      then show ?thesis
        using True allowed s2 l' by (simp add: closes_def server_pane_of_def server_pane_delete doc_ok_def)
    qed
  qed
qed

subsection \<open>A new pane\<close>

lemma fold_max_ge: "a \<le> fold max xs a \<and> (\<forall>x \<in> set xs. x \<le> fold max xs a)" for a :: "'a::linorder"
proof (induction xs arbitrary: a)
  case (Cons x xs)
  have "max x a \<le> fold max xs (max x a)" "\<forall>y \<in> set xs. y \<le> fold max xs (max x a)" using Cons [of "max x a"] by auto
  then show ?case by simp
qed simp

lemma next_id_fresh:
  assumes "next_headless_pane_id s = Some pid"
  shows "pid \<noteq> POPUP_PANE_ID" "pid \<notin> fst ` set (server_panes s)" "pid \<notin> snd ` set (local_panes s)"
    "doc s = Some l \<Longrightarrow> pid \<notin> set (map sp_id (doc_panes l))"
proof -
  define used where "used = map fst (server_panes s) @ map snd (local_panes s) @ (case doc s of None \<Rightarrow> [] | Some l \<Rightarrow> map sp_id (doc_panes l))"
  define top where "top = fold max used 0"
  have pid: "top \<noteq> - 1" "pid = top + 1" "pid \<noteq> POPUP_PANE_ID"
    using assms by (auto simp: next_headless_pane_id_def used_def [symmetric] top_def [symmetric] Let_def split: if_splits)
  show "pid \<noteq> POPUP_PANE_ID" by (rule pid)
  have "unat top \<noteq> unat (- 1 :: 32 word)" using pid(1) by (simp only: word_unat_eq_iff not_False_eq_True)
  then have "unat top < 2 ^ 32 - 1" using unat_bound [of top] unat_max_word [where 'a = 32] by simp
  then have "unat pid = unat top + 1" using unat_plus_less [of top 1] pid(2) by simp
  then have "top < pid" by (simp add: word_less_nat_alt)
  then have "x \<noteq> pid" if "x \<in> set used" for x
    using fold_max_ge [of 0 used] that unfolding top_def by (auto simp: not_le dest: bspec)
  then have "pid \<notin> set used" by auto
  then show "pid \<notin> fst ` set (server_panes s)" "pid \<notin> snd ` set (local_panes s)"
    "doc s = Some l \<Longrightarrow> pid \<notin> set (map sp_id (doc_panes l))"
    by (auto simp: used_def)
qed

lemma doc_panes_ids: "map sp_id (doc_panes l) = all_pane_ids (workspaces l)"
  by (simp add: doc_panes_def all_pane_ids_def map_concat comp_def)

lemma install_fresh:
  assumes "install_pane pid generation intent started s = (True, s')" "pid \<notin> fst ` set (server_panes s)"
  shows "server_panes s' = AList.update pid \<lparr>spn_generation = generation, spn_exited = None, spn_status_revision = 0\<rparr> (server_panes s)"
    "layout_rev s' = layout_rev s" "doc s' = doc s" "controller s' = controller s"
  using assms by (auto simp: install_pane_def Let_def delete_id split: if_splits)

lemma update_new_key: "k \<notin> fst ` set al \<Longrightarrow> set (AList.update k v al) = insert (k, v) (set al)"
  by (induction al) auto

lemma placements_of:
  assumes "distinct (map sp_id (doc_panes l))"
  shows "map_of (rev (map (\<lambda>p. (sp_id p, sp_generation p)) (doc_panes l))) q = Some g \<longleftrightarrow>
    (\<exists>p \<in> set (doc_panes l). sp_id p = q \<and> sp_generation p = g)"
proof -
  have "distinct (map fst (rev (map (\<lambda>p. (sp_id p, sp_generation p)) (doc_panes l))))"
    using assms by (simp add: rev_map [symmetric] comp_def)
  from map_of_eq_Some_iff [OF this] show ?thesis by auto
qed

text \<open>After a spawn the document names exactly the live panes, with their generations.\<close>

lemma spawned_panes_match:
  assumes "validate_spawn_placement s l pid generation" "valid_layout l" "pid \<notin> fst ` set (server_panes s)"
    and "server_panes s' = AList.update pid \<lparr>spn_generation = generation, spn_exited = None, spn_status_revision = 0\<rparr> (server_panes s)"
  shows "validate_shared_layout_against_panes s' l"
proof -
  have dist: "distinct (map sp_id (doc_panes l))" using assms(2) by (simp add: doc_panes_ids valid_layout_def)
  note pl = placements_of [OF dist]
  have v: "\<exists>p \<in> set (doc_panes l). sp_id p = pid \<and> sp_generation p = generation"
    "\<forall>p \<in> set (doc_panes l). sp_id p = pid \<or> (\<exists>q. server_pane_of s (sp_id p) = Some q \<and> (\<exists>p' \<in> set (doc_panes l). sp_id p' = sp_id p \<and> sp_generation p' = spn_generation q))"
    "\<forall>(q, p) \<in> set (server_panes s). q = pid \<or> spn_exited p \<noteq> None \<or> (\<exists>p' \<in> set (doc_panes l). sp_id p' = q)"
    using assms(1) unfolding validate_spawn_placement_def Let_def pl
    by (auto simp: list_all_iff split: option.splits) (fastforce simp: pl)+
  have same: "p = p'" if "p \<in> set (doc_panes l)" "p' \<in> set (doc_panes l)" "sp_id p = sp_id p'" for p p'
    using dist that by (auto simp: distinct_map inj_on_def)
  have lookup: "server_pane_of s' q = (if q = pid then Some \<lparr>spn_generation = generation, spn_exited = None, spn_status_revision = 0\<rparr> else server_pane_of s q)" for q
    by (simp add: server_pane_of_def assms(4) update_conv')
  have set: "set (server_panes s') = insert (pid, \<lparr>spn_generation = generation, spn_exited = None, spn_status_revision = 0\<rparr>) (set (server_panes s))"
    unfolding assms(4) by (rule update_new_key [OF assms(3)])
  have popup: "\<forall>p \<in> set (doc_panes l). sp_id p \<noteq> POPUP_PANE_ID"
    using assms(2) by (auto simp: valid_layout_def valid_workspace_def valid_pane_def doc_panes_def)
  have "(case server_pane_of s' (sp_id p) of None \<Rightarrow> False | Some q \<Rightarrow> spn_generation q = sp_generation p)" if "p \<in> set (doc_panes l)" for p
    using v(1,2) that same lookup by (cases "sp_id p = pid") (fastforce split: option.split)+
  moreover have "spn_exited q \<noteq> None \<or> k \<in> set (map sp_id (doc_panes l))" if "(k, q) \<in> set (server_panes s')" for k q
    using v(1,3) that set by auto
  ultimately show ?thesis using popup by (auto simp: validate_shared_layout_against_panes_def list_all_iff)
qed

lemma layout_with_pane:
  assumes "headless_layout_with_pane pid generation index placement intent directory title keep s = Some (Some l)"
  shows "valid_layout l" "\<exists>p \<in> set (doc_panes l). sp_id p = pid \<and> sp_generation p = generation"
proof -
  define base where "base = (case doc s of Some l \<Rightarrow> l | None \<Rightarrow> empty_document)"
  define L where "L rect = (let p = spawned_shared_pane pid generation placement rect intent directory title keep in
        if list_ex (\<lambda>w. sw_index w = index) (workspaces base)
        then base\<lparr>workspaces := update_first (\<lambda>w. sw_index w = index) (add_to_workspace p (spawn_fullscreen placement)) (workspaces base)\<rparr>
        else base\<lparr>workspaces := workspaces base @ [headless_workspace index p]\<rparr>)" for rect
  obtain rect where r: "(if validate (L rect) = Inr () then Some (L rect) else None) = Some l"
    using assms unfolding headless_layout_with_pane_def Let_def base_def [symmetric] bind_eq_Some_conv option.inject L_def by blast
  then have l: "validate l = Inr ()" "l = L rect" by (auto split: if_splits)
  show "valid_layout l" using l(1) by (simp add: validate_iff_valid)
  let ?p = "spawned_shared_pane pid generation placement rect intent directory title keep"
  have "?p \<in> \<Union> (set ` sw_panes ` set (update_first (\<lambda>w. sw_index w = index) (add_to_workspace ?p (spawn_fullscreen placement)) ws))"
    if "list_ex (\<lambda>w. sw_index w = index) ws" for ws
    using that by (induction ws) (auto simp: add_to_workspace_def)
  then have "?p \<in> set (doc_panes l)"
    using l(2) by (auto simp: L_def doc_panes_def Let_def headless_workspace_def split: if_splits)
  then show "\<exists>p \<in> set (doc_panes l). sp_id p = pid \<and> sp_generation p = generation"
    by (rule rev_bexI) (simp add: spawned_shared_pane_def)
qed

subsection \<open>Properties\<close>

text \<open>
  C11: layout writes without a UI respect the lease and the revision they name: none gets past a
  controlling client or a stale revision; a refused one changes and announces nothing, and so does
  one that asks for what already holds; any other publishes one valid document as the next revision.
  Closing a pane ends it and takes it out of the document.
\<close>

theorem headless_writes_disciplined:
  assumes "doc_ok s" "validate_layout_edit kind ratio = Inr ledit"
  shows "disciplined base s (session_layout_set n ledit base s) \<and>
    pred_option (disciplined base s) (session_pane_set pid edit base s) \<and>
    disciplined base s (session_pane_move pid n base s) \<and>
    pred_option (disciplined base s) (session_pane_swap pid other base s) \<and>
    closes pid base s (session_pane_close pid base s)"
  using layout_set_disciplined [OF assms] pane_set_disciplined [OF assms(1)] pane_move_disciplined [OF assms(1)]
    pane_swap_disciplined [OF assms(1)] pane_close_closes [OF assms(1)]
  by (auto simp: option.pred_set)

theorem headless_writes_disciplined_witness:
  "disciplined None fresh_server (session_layout_set 2 \<lparr>le_kind = Some Grid, le_master_ratio = None\<rparr> None fresh_server) \<and>
   (case session_layout_set 2 \<lparr>le_kind = Some Grid, le_master_ratio = None\<rparr> None fresh_server of
      (Inr change, msgs, s') \<Rightarrow> lc_changed change \<and> layout_rev s' = 1 | _ \<Rightarrow> False)"
proof -
  have "doc_ok fresh_server" by (simp add: doc_ok_def fresh_server_def)
  moreover have "validate_layout_edit (Some CGrid) None = Inr \<lparr>le_kind = Some Grid, le_master_ratio = None\<rparr>"
    by (simp add: validate_layout_edit_def)
  moreover have "(case session_layout_set 2 \<lparr>le_kind = Some Grid, le_master_ratio = None\<rparr> None fresh_server of
      (Inr change, msgs, s') \<Rightarrow> lc_changed change \<and> layout_rev s' = 1 | _ \<Rightarrow> False)"
    by code_simp
  ultimately show ?thesis using headless_writes_disciplined [of fresh_server "Some CGrid" None] by blast
qed

lemma install_refused:
  assumes "install_pane pid generation intent started s = (False, s')"
  shows "layout_rev s' = layout_rev s \<and> doc s' = doc s \<and> controller s' = controller s"
  using assms by (auto simp: install_pane_def Let_def split: if_splits)

lemma new_pane_steps:
  assumes "session_new_pane index placement intent directory title keep started s = Some (result, msgs, s')"
  shows "(\<exists>e. result = Inl e) \<and> layout_rev s' = layout_rev s \<and> doc s' = doc s \<and> controller s' = controller s \<or>
    (\<exists>pid l s1. result = Inr pid \<and> controller s = None \<and> next_headless_pane_id s = Some pid \<and>
      headless_layout_with_pane pid (next_generation s) index placement intent directory title keep s = Some (Some l) \<and>
      validate_spawn_placement s l pid (next_generation s) \<and>
      install_pane pid (next_generation s) intent started s = (True, s1) \<and>
      msgs = (Broadcast, PaneMetadata pid) # fst (publish_shared_layout l SERVER_LAYOUT_AUTHOR False s1) \<and>
      s' = snd (publish_shared_layout l SERVER_LAYOUT_AUTHOR False s1))"
proof (cases "controller s \<noteq> None \<or> doc s = None \<and> server_panes s \<noteq> [] \<or> next_headless_pane_id s = None")
  case True
  then show ?thesis using assms by (auto simp: session_new_pane_def split: if_splits)
next
  case False
  then obtain pid where pid: "next_headless_pane_id s = Some pid" by blast
  obtain layout where layout: "headless_layout_with_pane pid (next_generation s) index placement intent directory title keep s = Some layout"
    using assms False pid by (auto simp: session_new_pane_def bind_eq_Some_conv split: if_splits)
  show ?thesis
  proof (cases layout)
    case None
    then show ?thesis using assms False pid layout by (auto simp: session_new_pane_def split: if_splits)
  next
    case (Some l)
    obtain m1 msgs1 s1 where sp: "spawn_shared_pane pid (next_generation s) intent False (Some (layout_rev s, l)) SERVER_LAYOUT_AUTHOR started s = (m1, msgs1, s1)"
      by (cases "spawn_shared_pane pid (next_generation s) intent False (Some (layout_rev s, l)) SERVER_LAYOUT_AUTHOR started s")
    obtain ok s2 where inst: "install_pane pid (next_generation s) intent started s = (ok, s2)" by fastforce
    obtain published s3 where pub: "publish_shared_layout l SERVER_LAYOUT_AUTHOR False s2 = (published, s3)" by fastforce
    have final: "(result, msgs, s') = (case m1 of SpawnResult _ _ True \<Rightarrow> (Inr pid, msgs1, s1) | _ \<Rightarrow> (Inl RequestFailed, msgs1, s1))"
      using assms False pid layout Some sp by (auto simp: session_new_pane_def split: if_splits)
    consider "m1 = SpawnResult pid (next_generation s) False" "layout_rev s1 = layout_rev s" "doc s1 = doc s" "controller s1 = controller s"
      | "m1 = SpawnResult pid (next_generation s) True" "ok" "validate_spawn_placement s l pid (next_generation s)"
        "msgs1 = (Broadcast, PaneMetadata pid) # published" "s1 = s3"
      using sp inst pub install_refused [of pid "next_generation s" intent started s]
      by (auto simp: spawn_shared_pane_def Let_def split: if_splits prod.splits)
    then show ?thesis
    proof cases
      case 1
      then show ?thesis using final by simp
    next
      case 2
      then show ?thesis using final False pid layout Some inst pub by simp
    qed
  qed
qed

text \<open>
  C32: a pane opened without a UI gets an id that no pane of the server, of a client or of the
  document has and that is not the popup's; the document that names it is valid, is published as the
  next revision and places exactly the live panes of the server, with their generations. A refused
  request leaves the document and its revision as they were.
\<close>

theorem new_pane_is_fresh_and_placed:
  assumes "session_new_pane index placement intent directory title keep started s = Some (result, msgs, s')"
  shows "case result of
      Inl _ \<Rightarrow> layout_rev s' = layout_rev s \<and> doc s' = doc s
    | Inr pid \<Rightarrow>
        controller s = None \<and> pid \<noteq> POPUP_PANE_ID \<and> pid \<notin> fst ` set (server_panes s) \<and> pid \<notin> snd ` set (local_panes s) \<and>
        pred_option (\<lambda>l. pid \<notin> set (map sp_id (doc_panes l))) (doc s) \<and> layout_rev s' = layout_rev s + 1 \<and>
        (\<exists>l. doc s' = Some l \<and> valid_layout l \<and> pid \<in> set (map sp_id (doc_panes l)) \<and>
           validate_shared_layout_against_panes s' l \<and>
           (Broadcast, LayoutCommitted (layout_rev s') SERVER_LAYOUT_AUTHOR l False) \<in> set msgs)"
  using new_pane_steps [OF assms]
proof (elim disjE exE conjE)
  fix pid l s1
  assume r: "result = Inr pid" "controller s = None" "next_headless_pane_id s = Some pid"
    and layout: "headless_layout_with_pane pid (next_generation s) index placement intent directory title keep s = Some (Some l)"
    and placed: "validate_spawn_placement s l pid (next_generation s)"
    and inst: "install_pane pid (next_generation s) intent started s = (True, s1)"
    and msgs: "msgs = (Broadcast, PaneMetadata pid) # fst (publish_shared_layout l SERVER_LAYOUT_AUTHOR False s1)"
    and s': "s' = snd (publish_shared_layout l SERVER_LAYOUT_AUTHOR False s1)"
  note fresh = next_id_fresh [OF r(3)]
  note panes = install_fresh [OF inst fresh(2)]
  have match: "validate_shared_layout_against_panes s' l"
    by (rule spawned_panes_match [OF placed layout_with_pane(1) [OF layout] fresh(2)]) (simp add: s' panes(1))
  have told: "(Broadcast, LayoutCommitted (layout_rev s') SERVER_LAYOUT_AUTHOR l False) \<in> set msgs"
    unfolding msgs s' by (simp add: publish_shared_layout_def Let_def)
  have there: "pid \<in> set (map sp_id (doc_panes l))" using layout_with_pane(2) [OF layout] by auto
  show ?thesis
    using r fresh match told there layout_with_pane(1) [OF layout] panes s' by (auto simp: option.pred_set)
qed auto

theorem new_pane_is_fresh_and_placed_witness:
  "\<exists>msgs s'. session_new_pane 2 \<lparr>spawn_at_float = None, spawn_fullscreen = False\<rparr> None None None False True fresh_server = Some (Inr 1, msgs, s') \<and>
    layout_rev s' = 1 \<and> (\<exists>l. doc s' = Some l \<and> validate_shared_layout_against_panes s' l)"
proof -
  have "case session_new_pane 2 \<lparr>spawn_at_float = None, spawn_fullscreen = False\<rparr> None None None False True fresh_server of
      Some (Inr pid, _) \<Rightarrow> pid = 1 | _ \<Rightarrow> False" by code_simp
  then obtain msgs s' where run: "session_new_pane 2 \<lparr>spawn_at_float = None, spawn_fullscreen = False\<rparr> None None None False True fresh_server = Some (Inr 1, msgs, s')"
    by (auto split: option.splits prod.splits sum.splits)
  from new_pane_is_fresh_and_placed [OF this] run show ?thesis by (auto simp: fresh_server_def)
qed

end
