(* ===== verification/Session.thy ===== *)
theory Session
  imports Headless
begin

text \<open>
  A session server as a transition system: connections come and go, attached clients send control
  messages, pane processes start, exit and report, and requests without a UI write the layout, in
  any order. One step is one call of a handler of \<open>Lease\<close> or \<open>Headless\<close>, as the single server thread
  (\<^verbatim>\<open>src/session/server/runtime.rs\<close>) makes them.

  A connection attaches at most once here, and only while it is connected, which is what Rozi's client
  does; \<open>attach_grants_unconditionally\<close> of \<open>Lease\<close> shows that the server does not enforce it.

  Shown: in every reachable state the lease is held by an attached, writable, unparked client with no
  request of its own pending exactly when there is such a client, and the document is valid; and a
  layout revision names one document.
\<close>

subsection \<open>Steps\<close>

datatype server_event =
    Connect
  | Control nat client_id client_message
  | Disconnect client_id controller_change_reason
  | SpawnPane client_id pane_id u64 "pane_launch option" bool "(u64 \<times> shared_layout) option" bool
  | SessionLayoutSet nat "control_layout_kind option" "f64 option" "u64 option"
  | SessionPaneSet pane_id pane_edit "u64 option"
  | SessionPaneMove pane_id nat "u64 option"
  | SessionPaneSwap pane_id pane_id "u64 option"
  | SessionPaneClose pane_id "u64 option"
  | SessionNewPane nat pane_spawn_placement "pane_launch option" "string option" "string option" bool bool
  | PanesChange "(pane_id \<times> server_pane) list" "(client_id \<times> pane_id) list" u64

definition connected_unattached :: "session_server \<Rightarrow> client_id \<Rightarrow> bool" where
  "connected_unattached s cid \<longleftrightarrow> (case client_of s cid of Some c \<Rightarrow> \<not> attached c | None \<Rightarrow> False)"

fun is_attach :: "client_message \<Rightarrow> bool" where
  "is_attach (Attach _) = True"
| "is_attach _ = False"

inductive session_step :: "session_server \<Rightarrow> server_event \<Rightarrow> session_server \<Rightarrow> bool" where
  connect: "next_client_id s \<noteq> - 1 \<Longrightarrow> session_step s Connect (accept_new s)"
| control: "(is_attach m \<Longrightarrow> connected_unattached s cid) \<Longrightarrow>
    session_step s (Control now cid m) (snd (process_client_control_now now cid m s))"
| disconnect: "session_step s (Disconnect cid reason) (snd (remove_client_with_reason cid reason s))"
| spawn_pane: "author \<noteq> SERVER_LAYOUT_AUTHOR \<Longrightarrow>
    spawn_shared_pane pid generation intent owned placement author started s = (result, msgs, s') \<Longrightarrow>
    session_step s (SpawnPane author pid generation intent owned placement started) s'"
| layout_set: "validate_layout_edit kind ratio = Inr edit \<Longrightarrow> session_layout_set number edit base s = (result, msgs, s') \<Longrightarrow>
    session_step s (SessionLayoutSet number kind ratio base) s'"
| pane_set: "session_pane_set pid edit base s = Some (result, msgs, s') \<Longrightarrow> session_step s (SessionPaneSet pid edit base) s'"
| pane_move: "session_pane_move pid number base s = (result, msgs, s') \<Longrightarrow> session_step s (SessionPaneMove pid number base) s'"
| pane_swap: "session_pane_swap pid other base s = Some (result, msgs, s') \<Longrightarrow> session_step s (SessionPaneSwap pid other base) s'"
| pane_close: "session_pane_close pid base s = (result, msgs, s') \<Longrightarrow> session_step s (SessionPaneClose pid base) s'"
| new_pane: "session_new_pane index placement intent directory title keep started s = Some (result, msgs, s') \<Longrightarrow>
    session_step s (SessionNewPane index placement intent directory title keep started) s'"
| panes_change: "session_step s (PanesChange ps locals generation)
    (s\<lparr>server_panes := ps, local_panes := locals, next_generation := generation\<rparr>)"

inductive_cases session_stepE: "session_step s e s'"

inductive_simps connect_step [simp]: "session_step s Connect s'"
inductive_simps control_step [simp]: "session_step s (Control now cid m) s'"
inductive_simps disconnect_step [simp]: "session_step s (Disconnect cid reason) s'"
inductive_simps layout_set_step [simp]: "session_step s (SessionLayoutSet number kind ratio base) s'"

inductive session_run :: "session_server \<Rightarrow> server_event list \<Rightarrow> session_server \<Rightarrow> bool" where
  run_nil: "session_run s [] s"
| run_step: "session_step s e s' \<Longrightarrow> session_run s' es s'' \<Longrightarrow> session_run s (e # es) s''"

inductive_simps run_nil_iff [simp]: "session_run s [] s'"
inductive_simps run_step_iff: "session_run s (e # es) s'"

text \<open>A server as it starts: no connection, no lease, no document or a restored one.\<close>

definition session_start :: "session_server \<Rightarrow> bool" where
  "session_start s \<longleftrightarrow> clients s = [] \<and> controller s = None \<and> doc_ok s"

subsection \<open>Transition systems with a state invariant and a revision\<close>

locale invariant_system =
  fixes step :: "'s \<Rightarrow> 'e \<Rightarrow> 's \<Rightarrow> bool" and run :: "'s \<Rightarrow> 'e list \<Rightarrow> 's \<Rightarrow> bool" and inv :: "'s \<Rightarrow> bool"
  assumes run_done: "run s [] s' \<longleftrightarrow> s' = s"
    and run_more: "run s (e # es) s'' \<longleftrightarrow> (\<exists>s'. step s e s' \<and> run s' es s'')"
    and kept: "inv s \<Longrightarrow> step s e s' \<Longrightarrow> inv s'"
begin

lemma inv_run: "run s es s' \<Longrightarrow> inv s \<Longrightarrow> inv s'"
proof (induction es arbitrary: s)
  case Nil
  then show ?case by (simp add: run_done)
next
  case (Cons e es)
  then obtain s1 where "step s e s1" "run s1 es s'" by (auto simp: run_more)
  with Cons kept show ?case by blast
qed

end

locale revision_system = invariant_system step run inv
  for step :: "'s \<Rightarrow> 'e \<Rightarrow> 's \<Rightarrow> bool" and run :: "'s \<Rightarrow> 'e list \<Rightarrow> 's \<Rightarrow> bool" and inv :: "'s \<Rightarrow> bool" +
  fixes number :: "'s \<Rightarrow> u64" and contents :: "'s \<Rightarrow> 'd"
  assumes publishes: "inv s \<Longrightarrow> step s e s' \<Longrightarrow>
    number s' = number s \<and> contents s' = contents s \<or> number s' = number s + 1"
begin

lemma distance: "run s es s' \<Longrightarrow> inv s \<Longrightarrow> \<exists>k \<le> length es. number s' = number s + of_nat k \<and> (k = 0 \<longrightarrow> contents s' = contents s)"
proof (induction es arbitrary: s)
  case Nil
  then show ?case by (simp add: run_done)
next
  case (Cons e es)
  then obtain s1 where s1: "step s e s1" "run s1 es s'" by (auto simp: run_more)
  then have "inv s1" using Cons.prems kept by blast
  with Cons.IH [OF s1(2)] obtain k where k: "k \<le> length es" "number s' = number s1 + of_nat k" "k = 0 \<longrightarrow> contents s' = contents s1" by blast
  from publishes [OF Cons.prems(2) s1(1)] show ?case
  proof
    assume "number s1 = number s \<and> contents s1 = contents s"
    with k show ?thesis by (intro exI [of _ k]) auto
  next
    assume "number s1 = number s + 1"
    with k show ?thesis by (intro exI [of _ "Suc k"]) (auto simp: algebra_simps)
  qed
qed

lemma same_number_same_contents:
  assumes "run s es s'" "inv s" "length es < 2 ^ 64" "number s' = number s"
  shows "contents s' = contents s"
proof -
  obtain k where k: "k \<le> length es" "number s' = number s + of_nat k" "k = 0 \<longrightarrow> contents s' = contents s"
    using distance [OF assms(1,2)] by blast
  then have "(of_nat k :: u64) = 0" using assms(4) by simp
  moreover have "k < 2 ^ 64" using k(1) assms(3) by simp
  ultimately have "k = 0" using nat_dvd_not_less [of k "2 ^ 64"] by (cases "k = 0") (auto simp: word_of_nat_eq_0_iff)
  with k(3) show ?thesis by simp
qed

end

subsection \<open>The invariant of the lease\<close>

definition connections_ok :: "session_server \<Rightarrow> bool" where
  "connections_ok s \<longleftrightarrow> distinct (map c_id (clients s)) \<and>
     list_all (\<lambda>c. c_id c < next_client_id s \<and> (\<not> attached c \<longrightarrow> \<not> parked c \<and> \<not> requesting_control c)) (clients s)"

definition may_hold :: "session_server \<Rightarrow> client_id \<Rightarrow> bool" where
  "may_hold s cid \<longleftrightarrow> list_ex (\<lambda>c. c_id c = cid \<and> eligible c \<and> \<not> requesting_control c) (clients s)"

definition holder_ok :: "session_server \<Rightarrow> bool" where
  "holder_ok s \<longleftrightarrow> (case controller s of None \<Rightarrow> \<not> list_ex eligible (clients s) | Some cid \<Rightarrow> may_hold s cid)"

definition lease_ok :: "session_server \<Rightarrow> bool" where
  "lease_ok s \<longleftrightarrow> connections_ok s \<and> holder_ok s"

lemma lease_ok_same:
  "clients s' = clients s \<Longrightarrow> next_client_id s' = next_client_id s \<Longrightarrow> controller s' = controller s \<Longrightarrow> lease_ok s' = lease_ok s"
  by (cases "controller s") (simp_all add: lease_ok_def connections_ok_def holder_ok_def may_hold_def)

lemma same_client:
  "connections_ok s \<Longrightarrow> c \<in> set (clients s) \<Longrightarrow> d \<in> set (clients s) \<Longrightarrow> c_id c = c_id d \<Longrightarrow> c = d"
  by (auto simp: connections_ok_def distinct_map inj_on_def)

lemma set_update_client:
  "connections_ok s \<Longrightarrow> set (clients (update_client cid f s)) = (\<lambda>c. if c_id c = cid then f c else c) ` set (clients s)"
  by (simp add: connections_ok_def update_client_def update_first_map)

lemma connections_update:
  assumes "connections_ok s" "\<And>c. c_id (f c) = c_id c"
    and "\<And>c. c \<in> set (clients s) \<Longrightarrow> c_id c = cid \<Longrightarrow> \<not> attached (f c) \<Longrightarrow> \<not> parked (f c) \<and> \<not> requesting_control (f c)"
  shows "connections_ok (update_client cid f s)"
proof -
  have "map c_id (clients (update_client cid f s)) = map c_id (clients s)"
    unfolding update_client_def using assms(2) by (simp add: map_update_first)
  moreover have "\<forall>c \<in> set (clients (update_client cid f s)). c_id c < next_client_id s \<and> (\<not> attached c \<longrightarrow> \<not> parked c \<and> \<not> requesting_control c)"
    unfolding set_update_client [OF assms(1)] using assms by (auto simp: connections_ok_def list_all_iff)
  ultimately show ?thesis using assms(1) by (simp add: connections_ok_def list_all_iff)
qed

lemma may_hold_update:
  assumes "connections_ok s" "may_hold s holder" "\<And>c. c_id (f c) = c_id c"
    and "\<And>c. c \<in> set (clients s) \<Longrightarrow> c_id c = cid \<Longrightarrow> cid = holder \<Longrightarrow> eligible c \<Longrightarrow> \<not> requesting_control c \<Longrightarrow> eligible (f c) \<and> \<not> requesting_control (f c)"
  shows "may_hold (update_client cid f s) holder"
proof -
  obtain c where c: "c \<in> set (clients s)" "c_id c = holder" "eligible c" "\<not> requesting_control c"
    using assms(2) by (auto simp: may_hold_def list_ex_iff)
  then show ?thesis
    unfolding may_hold_def list_ex_iff set_update_client [OF assms(1)] using assms(3,4) by (cases "c_id c = cid") auto
qed

lemma about_client:
  assumes "connections_ok s" "c \<in> set (clients s)"
  shows "client_attached s (c_id c) \<longleftrightarrow> attached c" "client_parked s (c_id c) \<longleftrightarrow> attached c \<and> parked c"
    "client_read_only s (c_id c) \<longleftrightarrow> \<not> attached c \<or> c_read_only c"
proof -
  have only: "d \<in> set (clients s) \<and> c_id d = c_id c \<longleftrightarrow> d = c" for d using same_client [OF assms(1) _ assms(2), of d] assms(2) by auto
  show "client_attached s (c_id c) \<longleftrightarrow> attached c" "client_parked s (c_id c) \<longleftrightarrow> attached c \<and> parked c"
    using only [THEN iffD1] assms(2) by (auto simp: client_attached_def client_parked_def list_ex_iff)
  show "client_read_only s (c_id c) \<longleftrightarrow> \<not> attached c \<or> c_read_only c"
  proof (cases "find (\<lambda>d. c_id d = c_id c \<and> attached d) (clients s)")
    case None
    then have "\<not> attached c" using assms(2) by (auto simp: find_None_iff)
    then show ?thesis using None by (simp add: client_read_only_def)
  next
    case (Some d)
    then have "d = c" "attached d" using only [of d] by (auto simp: find_Some_iff)
    then show ?thesis using Some by (simp add: client_read_only_def)
  qed
qed

lemma eligible_client:
  assumes "connections_ok s" "client_attached s cid" "\<not> client_read_only s cid" "\<not> client_parked s cid"
  shows "\<exists>c \<in> set (clients s). c_id c = cid \<and> eligible c"
proof -
  obtain c where c: "c \<in> set (clients s)" "c_id c = cid" using assms(2) by (auto simp: client_attached_def list_ex_iff)
  then show ?thesis using about_client [OF assms(1) c(1)] assms(2-4) by (auto simp: eligible_def)
qed

subsection \<open>Handing the lease over\<close>

lemma assign_keeps:
  assumes "connections_ok s" "\<exists>c \<in> set (clients s). c_id c = to \<and> eligible c"
  shows "lease_ok (snd (assign_controller to reason s))"
proof -
  let ?s = "update_client to clear_request (s\<lparr>controller := Some to\<rparr>)"
  have s: "connections_ok (s\<lparr>controller := Some to\<rparr>)" using assms(1) by (simp add: connections_ok_def)
  have "connections_ok ?s"
    by (rule connections_update [OF s]) (use s in \<open>auto simp: clear_request_def connections_ok_def list_all_iff\<close>)
  moreover obtain c where "c \<in> set (clients s)" "c_id c = to" "eligible c" using assms(2) by blast
  then have "may_hold ?s to"
    unfolding may_hold_def list_ex_iff set_update_client [OF s]
    by (intro bexI [of _ "clear_request c"]) (auto simp: clear_request_def eligible_def intro!: rev_image_eqI)
  ultimately show ?thesis by (simp add: assign_controller_def Let_def lease_ok_def holder_ok_def)
qed

lemma candidate:
  "promotion_candidate s = None \<longleftrightarrow> \<not> list_ex eligible (clients s)"
  "promotion_candidate s = Some cid \<Longrightarrow> \<exists>c \<in> set (clients s). c_id c = cid \<and> eligible c"
proof -
  let ?ids = "map c_id (filter eligible (clients s))"
  show "promotion_candidate s = None \<longleftrightarrow> \<not> list_ex eligible (clients s)"
    by (auto simp: promotion_candidate_def list_ex_iff filter_empty_conv split: list.split)
      (auto simp: filter_eq_Cons_iff)
  assume "promotion_candidate s = Some cid"
  then obtain c0 cs where cs: "?ids = c0 # cs" "cid = fold min cs c0"
    by (auto simp: promotion_candidate_def split: list.splits)
  have "cid = Min (set (c0 # cs))" unfolding cs(2) by (rule Min.set_eq_fold [symmetric])
  then have "cid \<in> set ?ids" unfolding cs(1) using Min_in [of "set (c0 # cs)"] by simp
  then show "\<exists>c \<in> set (clients s). c_id c = cid \<and> eligible c" by auto
qed

lemma promote_keeps: "connections_ok s \<Longrightarrow> lease_ok (promote s)"
proof (cases "promotion_candidate s")
  case None
  assume "connections_ok s"
  with None candidate(1) [of s] show ?thesis
    by (simp add: promote_def lease_ok_def holder_ok_def connections_ok_def)
next
  case (Some cid)
  assume "connections_ok s"
  from assign_keeps [OF this candidate(2) [OF Some]] show ?thesis
    by (simp add: promote_def Some assign_controller_def Let_def)
qed

lemma release_keeps: "connections_ok s \<Longrightarrow> lease_ok (snd (release_controller s))"
  by (simp add: release_controller_def Let_def promote_keeps)

subsection \<open>Every handler keeps the lease invariant\<close>

lemma update_keeps:
  assumes "lease_ok s" "\<And>c. c_id (f c) = c_id c"
    and "\<And>c. c \<in> set (clients s) \<Longrightarrow> c_id c = cid \<Longrightarrow> \<not> attached (f c) \<Longrightarrow> \<not> parked (f c) \<and> \<not> requesting_control (f c)"
    and "\<And>c. c \<in> set (clients s) \<Longrightarrow> c_id c = cid \<Longrightarrow> controller s = Some cid \<Longrightarrow> eligible c \<Longrightarrow> \<not> requesting_control c \<Longrightarrow> eligible (f c) \<and> \<not> requesting_control (f c)"
    and "\<And>c. c \<in> set (clients s) \<Longrightarrow> c_id c = cid \<Longrightarrow> controller s = None \<Longrightarrow> \<not> eligible c \<Longrightarrow> \<not> eligible (f c)"
  shows "lease_ok (update_client cid f s)"
proof -
  have c: "connections_ok s" "holder_ok s" using assms(1) by (simp_all add: lease_ok_def)
  have "holder_ok (update_client cid f s)"
  proof (cases "controller s")
    case None
    then show ?thesis
      using c(2) assms(5) unfolding holder_ok_def update_client_fields None option.case list_ex_iff set_update_client [OF c(1)] by auto
  next
    case (Some holder)
    then show ?thesis
      using c(2) may_hold_update [OF c(1), of holder f cid] assms(2,4) by (auto simp: holder_ok_def)
  qed
  with connections_update [OF c(1) assms(2,3)] show ?thesis by (simp add: lease_ok_def)
qed

lemma close_keeps: "lease_ok s \<Longrightarrow> lease_ok (set_close_after_flush cid s)"
  unfolding set_close_after_flush_def
  by (rule update_keeps) (auto simp: lease_ok_def connections_ok_def list_all_iff eligible_def)

lemma clear_keeps: "lease_ok s \<Longrightarrow> lease_ok (update_client cid clear_request s)"
  by (rule update_keeps) (auto simp: lease_ok_def connections_ok_def list_all_iff eligible_def clear_request_def)

lemma request_keeps:
  assumes "lease_ok s"
  shows "lease_ok (snd (handle_request_control now cid s))"
proof (cases "client_read_only s cid \<or> \<not> client_attached s cid \<or> client_parked s cid \<or> controller s = Some cid")
  case True
  then show ?thesis using assms by (auto simp: handle_request_control_def)
next
  case False
  have ok: "connections_ok s" using assms by (simp add: lease_ok_def)
  have take: "lease_ok (snd (assign_controller cid Granted s))"
    by (rule assign_keeps [OF ok eligible_client [OF ok]]) (use False in auto)
  have ask: "lease_ok (update_client cid (\<lambda>c. c\<lparr>requesting_control := True, last_request_notify := n c\<rparr>) s)" if held: "controller s \<noteq> None" for n
  proof (rule update_keeps [OF assms])
    fix c assume c: "c \<in> set (clients s)" "c_id c = cid" "\<not> attached (c\<lparr>requesting_control := True, last_request_notify := n c\<rparr>)"
    obtain d where "d \<in> set (clients s)" "c_id d = cid" "attached d" using False by (auto simp: client_attached_def list_ex_iff)
    with same_client [OF ok c(1) this(1)] c show "\<not> parked (c\<lparr>requesting_control := True, last_request_notify := n c\<rparr>) \<and>
        \<not> requesting_control (c\<lparr>requesting_control := True, last_request_notify := n c\<rparr>)" by simp
  qed (use False held in auto)
  show ?thesis
  proof (cases "controller s")
    case None
    then show ?thesis using False take by (simp add: handle_request_control_def)
  next
    case (Some holder)
    then show ?thesis
      using False take ask assms by (auto simp: handle_request_control_def Let_def split: option.split)
  qed
qed

lemma parked_keeps:
  assumes "lease_ok s" "client_attached s cid"
  shows "lease_ok (snd (handle_set_parked cid park s))"
proof -
  let ?f = "\<lambda>c. c\<lparr>parked := park\<rparr>"
  let ?s = "update_client cid ?f s"
  have ok: "connections_ok s" using assms by (simp add: lease_ok_def)
  obtain c where c: "c \<in> set (clients s)" "c_id c = cid" "attached c" using assms(2) by (auto simp: client_attached_def list_ex_iff)
  have only: "e = c" if "e \<in> set (clients s)" "c_id e = cid" for e using same_client [OF ok that(1) c(1)] c(2) that(2) by simp
  have "client_of s cid = Some c"
  proof (cases "client_of s cid")
    case None
    then show ?thesis using c by (auto simp: client_of_None)
  next
    case (Some e)
    then show ?thesis using only [of e] by (auto simp: client_of_def find_Some_iff)
  qed
  then have executes: "handle_set_parked cid park s =
      (if parked c = park then ([], s)
       else if park \<and> controller s = Some cid then release_controller ?s
       else if \<not> park \<and> controller s = None \<and> \<not> client_read_only ?s cid then assign_controller cid Granted ?s
       else ([(Broadcast, clients_changed ?s)], ?s))"
    unfolding handle_set_parked_def Let_def by (simp only: option.case update_client_fields)
  have ok': "connections_ok ?s" by (rule connections_update [OF ok]) (use c in \<open>auto dest: only\<close>)
  have "?f c \<in> set (clients ?s)" unfolding set_update_client [OF ok] using c by (intro rev_image_eqI [OF c(1)]) simp
  from about_client [OF ok' this] have after: "client_attached ?s cid" "client_parked ?s cid \<longleftrightarrow> park" "client_read_only ?s cid \<longleftrightarrow> c_read_only c"
    using c(2,3) by simp_all
  have taken: "lease_ok (snd (assign_controller cid Granted ?s))" if "\<not> park" "\<not> client_read_only ?s cid"
    by (rule assign_keeps [OF ok' eligible_client [OF ok' after(1) that(2)]]) (use after(2) that(1) in blast)
  have kept: "lease_ok ?s" if "park \<and> controller s \<noteq> Some cid \<or> \<not> park \<and> (controller s \<noteq> None \<or> c_read_only c)"
    by (rule update_keeps [OF assms(1)]) (use that c in \<open>auto simp: eligible_def dest: only\<close>)
  consider "parked c = park" | "parked c \<noteq> park" "park" "controller s = Some cid"
    | "parked c \<noteq> park" "\<not> park" "controller s = None" "\<not> client_read_only ?s cid"
    | "parked c \<noteq> park" "park \<and> controller s \<noteq> Some cid \<or> \<not> park \<and> (controller s \<noteq> None \<or> c_read_only c)"
    using after(3) by blast
  then show ?thesis
  proof cases
    case 1
    then show ?thesis unfolding executes using assms(1) by simp
  next
    case 2
    then show ?thesis unfolding executes using release_keeps [OF ok'] by simp
  next
    case 3
    then show ?thesis unfolding executes using taken by simp
  next
    case 4
    then have "snd (handle_set_parked cid park s) = ?s" unfolding executes using after(3) by auto
    with kept [OF 4(2)] show ?thesis by simp
  qed
qed

lemma attach_keeps:
  assumes "lease_ok s" "connected_unattached s cid"
  shows "lease_ok (snd (handle_attach cid r s))"
proof (cases "attach_refusal r s")
  case (Inl code)
  then show ?thesis using assms by (simp add: handle_attach_def)
next
  case (Inr effective)
  let ?f = "\<lambda>c. c\<lparr>attached := True, c_label := Some (a_label r), c_read_only := a_read_only r\<rparr>"
  have ok: "connections_ok s" using assms by (simp add: lease_ok_def)
  obtain d where d: "d \<in> set (clients s)" "c_id d = cid" "\<not> attached d"
    using assms(2) by (auto simp: connected_unattached_def client_of_def find_Some_iff intro: nth_mem split: option.splits)
  have idle: "\<not> parked e \<and> \<not> requesting_control e \<and> \<not> attached e" if "e \<in> set (clients s)" "c_id e = cid" for e
    using same_client [OF ok that(1) d(1)] d that(2) ok by (auto simp: connections_ok_def list_all_iff)
  show ?thesis
  proof (cases "controller s = None \<and> \<not> a_read_only r")
    case True
    have ok': "connections_ok (update_client cid ?f s)" by (rule connections_update [OF ok]) auto
    have "?f d \<in> set (clients (update_client cid ?f s))" unfolding set_update_client [OF ok] using d by (auto intro!: rev_image_eqI)
    then have "may_hold (update_client cid ?f s) cid"
      unfolding may_hold_def list_ex_iff by (rule bexI [rotated]) (use idle [OF d(1,2)] d True in \<open>simp add: eligible_def\<close>)
    with ok' show ?thesis using True Inr by (simp add: handle_attach_def Let_def lease_ok_def holder_ok_def connections_ok_def may_hold_def)
  next
    case False
    have "lease_ok (update_client cid ?f s)"
      by (rule update_keeps [OF assms(1)]) (use idle False in \<open>auto simp: eligible_def\<close>)
    then show ?thesis using False Inr by (auto simp: handle_attach_def Let_def)
  qed
qed

lemma commit_keeps: "lease_ok s \<Longrightarrow> lease_ok (snd (handle_commit_layout cid base l live s))"
  by (simp add: handle_commit_layout_def lease_ok_same [of "snd (publish_shared_layout l cid live s)" s])

lemma message_keeps:
  fixes now :: nat
  assumes "lease_ok s" "is_attach m \<Longrightarrow> connected_unattached s cid" "\<not> is_attach m \<Longrightarrow> client_attached s cid"
  shows "lease_ok (snd (handle_message now cid m s))"
proof (cases m)
  case (SetControlTakeover b)
  then show ?thesis using assms by (simp add: handle_set_control_takeover_def Let_def lease_ok_same [of "s\<lparr>allow_takeover := b\<rparr>" s])
next
  case (GrantControl to)
  have "connections_ok s" using assms by (simp add: lease_ok_def)
  with GrantControl assms assign_keeps [OF this eligible_client [OF this]] show ?thesis by (simp add: handle_grant_control_def)
next
  case (DeclineControl to)
  then show ?thesis using assms clear_keeps by (auto simp: handle_decline_control_def Let_def split: option.split)
next
  case (EvictClient victim)
  then show ?thesis using assms close_keeps by (simp add: handle_evict_client_def)
next
  case (SetInputLock b)
  then show ?thesis using assms by (simp add: handle_set_input_lock_def Let_def lease_ok_same [of "s\<lparr>input_locked := b\<rparr>" s])
qed (use assms attach_keeps request_keeps parked_keeps commit_keeps in \<open>simp_all add: handle_drag_def\<close>)

lemma remove_keeps:
  assumes "lease_ok s"
  shows "lease_ok (snd (remove_client_with_reason cid reason s))"
proof (cases "position_of (\<lambda>c. c_id c = cid) (clients s)")
  case None
  then show ?thesis using assms by (simp add: remove_client_with_reason_def del: position_of_None)
next
  case (Some i)
  note i = position_of_Some [OF Some]
  let ?cs = "take i (clients s) @ drop (Suc i) (clients s)"
  let ?s = "s\<lparr>clients := ?cs, local_panes := filter (\<lambda>(owner, _). owner \<noteq> cid) (local_panes s)\<rparr>"
  have ok: "connections_ok s" "holder_ok s" using assms by (simp_all add: lease_ok_def)
  have split: "clients s = take i (clients s) @ clients s ! i # drop (Suc i) (clients s)" using i by (simp add: id_take_nth_drop)
  have sub: "set (clients s) = insert (clients s ! i) (set ?cs)" by (subst split) auto
  have ok': "connections_ok ?s"
    using ok(1) unfolding connections_ok_def by (subst (asm) (1 2) split) auto
  show ?thesis
  proof (cases "attached (clients s ! i) \<and> controller s = Some cid")
    case True
    with promote_keeps [OF ok'] show ?thesis by (simp add: remove_client_with_reason_def Some Let_def)
  next
    case False
    have "holder_ok ?s"
    proof (cases "controller s")
      case None
      then show ?thesis using ok(2) by (auto simp: holder_ok_def list_ex_iff sub)
    next
      case holder: (Some holder)
      obtain c where c: "c \<in> set (clients s)" "c_id c = holder" "eligible c" "\<not> requesting_control c"
        using ok(2) holder by (auto simp: holder_ok_def may_hold_def list_ex_iff)
      have "c \<noteq> clients s ! i" using False c i holder by (auto simp: eligible_def)
      then have "c \<in> set ?cs" using c(1) sub by blast
      with c holder show ?thesis by (auto simp: holder_ok_def may_hold_def list_ex_iff)
    qed
    with ok' have "lease_ok ?s" by (simp add: lease_ok_def)
    with False show ?thesis by (auto simp: remove_client_with_reason_def Some Let_def)
  qed
qed

lemma control_keeps:
  assumes "lease_ok s" "is_attach m \<Longrightarrow> connected_unattached s cid"
  shows "lease_ok (snd (process_client_control_now now cid m s))"
proof (cases "accepts_client_control cid m s")
  case False
  then show ?thesis using assms close_keeps by (simp add: process_client_control_now_def)
next
  case True
  obtain msgs s1 where h: "handle_message now cid m s = (msgs, s1)" by fastforce
  have "\<not> is_attach m \<Longrightarrow> client_attached s cid" using True by (cases m) (auto simp: accepts_client_control_def)
  then have "lease_ok s1" using message_keeps [of s m cid now] assms unfolding h by auto
  then have "lease_ok s1" "lease_ok (set_close_after_flush cid s1)" "lease_ok (snd (remove_client_with_reason cid Granted s1))"
    by (simp_all add: close_keeps remove_keeps)
  then show ?thesis
    using True unfolding process_client_control_now_def h Let_def prod.case by (cases m) (auto split: prod.splits)
qed

lemma less_add_one: "x \<noteq> - 1 \<Longrightarrow> x < x + 1" for x :: "'a::len word"
proof -
  assume "x \<noteq> - 1"
  then have "unat x \<noteq> unat (- 1 :: 'a word)" by (simp only: word_unat_eq_iff not_False_eq_True)
  then have "unat x < 2 ^ LENGTH('a) - 1" using unat_bound [of x] unfolding unat_max_word by linarith
  then show ?thesis using unat_plus_less [of x 1] by (simp add: word_less_nat_alt)
qed

lemma accept_keeps: "lease_ok s \<Longrightarrow> next_client_id s \<noteq> - 1 \<Longrightarrow> lease_ok (accept_new s)"
proof -
  assume s: "lease_ok s" "next_client_id s \<noteq> - 1"
  have "next_client_id s < next_client_id s + 1" by (rule less_add_one [OF s(2)])
  then show ?thesis
    using s unfolding lease_ok_def connections_ok_def holder_ok_def may_hold_def
    by (auto simp: accept_new_def new_client_def list_all_iff eligible_def split: option.splits intro: less_trans)
qed

subsection \<open>Steps that leave the clients alone\<close>

text \<open>Every step publishes at most one document, a valid one; most steps are no more than that.\<close>

definition publishes_at_most_one :: "session_server \<Rightarrow> session_server \<Rightarrow> bool" where
  "publishes_at_most_one s s' \<longleftrightarrow> layout_rev s' = layout_rev s \<and> doc s' = doc s \<or>
     layout_rev s' = layout_rev s + 1 \<and> pred_option valid_layout (doc s')"

definition writes_only :: "session_server \<Rightarrow> session_server \<Rightarrow> bool" where
  "writes_only s s' \<longleftrightarrow> clients s' = clients s \<and> next_client_id s' = next_client_id s \<and> controller s' = controller s \<and>
     publishes_at_most_one s s'"

lemma publishes_refl [simp]: "publishes_at_most_one s s"
  by (simp add: publishes_at_most_one_def)

lemma writes_only_lease: "writes_only s s' \<Longrightarrow> lease_ok s' = lease_ok s"
  by (rule lease_ok_same) (simp_all add: writes_only_def)

lemma writes_only_refl [simp]: "writes_only s s"
  by (simp add: writes_only_def)

lemma writes_publish: "valid_layout l \<Longrightarrow> writes_only s (snd (publish_shared_layout l author live s))"
  by (simp add: writes_only_def publishes_at_most_one_def)

lemma writes_publish_after:
  assumes "publish_shared_layout l author live s1 = (msgs, s')" "valid_layout l"
    "clients s1 = clients s" "next_client_id s1 = next_client_id s" "controller s1 = controller s" "layout_rev s1 = layout_rev s"
  shows "writes_only s s'"
proof -
  have "s' = snd (publish_shared_layout l author live s1)" using assms(1) by simp
  then show ?thesis using assms(2-) by (simp add: writes_only_def publishes_at_most_one_def)
qed

lemma install_same:
  "clients (snd (install_pane pid generation intent started s)) = clients s"
  "next_client_id (snd (install_pane pid generation intent started s)) = next_client_id s"
  "controller (snd (install_pane pid generation intent started s)) = controller s"
  "layout_rev (snd (install_pane pid generation intent started s)) = layout_rev s"
  "doc (snd (install_pane pid generation intent started s)) = doc s"
  by (simp_all add: install_pane_def Let_def)

lemma spawn_writes:
  assumes "spawn_shared_pane pid generation intent owned placement author started s = (result, msgs, s')"
  shows "writes_only s s'"
proof -
  obtain ok s1 where inst: "install_pane pid generation intent started s = (ok, s1)" by fastforce
  note same = install_same [of pid generation intent started s, unfolded inst snd_conv]
  have "writes_only s s1" using same by (simp add: writes_only_def publishes_at_most_one_def)
  moreover have "writes_only s s2" if "publish_shared_layout l author False s1 = (ms, s2)" "validate l = Inr ()" for l ms s2
    using writes_publish_after [OF that(1) _ same(1-4)] that(2) by (simp add: validate_iff_valid)
  ultimately show ?thesis
    using assms inst by (auto simp: spawn_shared_pane_def Let_def split: if_splits option.splits prod.splits)
qed

lemma disciplined_writes: "disciplined base s (result, msgs, s') \<Longrightarrow> writes_only s s'"
  using writes_publish_after [of _ SERVER_LAYOUT_AUTHOR False s msgs s' s]
  by (auto simp: disciplined_def split: sum.splits if_splits dest: sym)

lemma new_pane_writes:
  assumes "session_new_pane index placement intent directory title keep started s = Some (result, msgs, s')"
  shows "writes_only s s'"
proof -
  have spawned: "writes_only s (snd (snd (spawn_shared_pane pid generation intent owned placement author started s)))" for pid generation owned placement author
    by (rule spawn_writes [where result = "fst (spawn_shared_pane pid generation intent owned placement author started s)"
        and msgs = "fst (snd (spawn_shared_pane pid generation intent owned placement author started s))"]) simp
  have skip: "s'' = s1" if "(case m of SpawnResult _ _ True \<Rightarrow> (Inr pid, ms, s1) | _ \<Rightarrow> (Inl RequestFailed, ms, s1)) = (r, msgs, s'')"
    for m :: server_message and pid :: pane_id and ms s1 s'' and r :: "control_error_code + pane_id"
    using that by (auto split: server_message.splits bool.splits)
  show ?thesis
    using assms unfolding session_new_pane_def
    by (auto simp: Let_def bind_eq_Some_conv case_prod_unfold spawned
        split: if_splits option.splits dest!: skip)
qed

lemma close_writes:
  assumes "session_pane_close pid base s = (result, msgs, s')" "doc_ok s"
  shows "writes_only s s'"
proof -
  have clients: "clients s' = clients s \<and> next_client_id s' = next_client_id s \<and> controller s' = controller s"
    using assms(1) by (auto simp: session_pane_close_def commit_server_layout_def publish_shared_layout_def Let_def
        split: if_splits sum.splits option.splits prod.splits)
  moreover have "layout_rev s' = layout_rev s \<and> doc s' = doc s \<or> layout_rev s' = layout_rev s + 1 \<and> pred_option valid_layout (doc s')"
    using pane_close_closes [OF assms(2), of pid base] assms(1)
    by (auto simp: closes_def doc_ok_def option.pred_set split: sum.splits option.splits)
  ultimately show ?thesis by (simp add: writes_only_def publishes_at_most_one_def)
qed

subsection \<open>Steps of the clients\<close>

lemma document_fields [simp]:
  "layout_rev (snd (assign_controller to reason s)) = layout_rev s" "doc (snd (assign_controller to reason s)) = doc s"
  "layout_rev (snd (release_controller s)) = layout_rev s" "doc (snd (release_controller s)) = doc s"
  "layout_rev (set_close_after_flush cid s) = layout_rev s" "doc (set_close_after_flush cid s) = doc s"
  by (simp_all add: assign_controller_def release_controller_def set_close_after_flush_def Let_def)

lemma remove_document:
  "layout_rev (snd (remove_client_with_reason cid reason s)) = layout_rev s"
  "doc (snd (remove_client_with_reason cid reason s)) = doc s"
  by (auto simp: remove_client_with_reason_def Let_def simp del: position_of_None split: option.split)

lemma message_document: "publishes_at_most_one s (snd (handle_message now cid m s))"
proof (cases m)
  case (CommitLayout base l live)
  have "publishes_at_most_one s (snd (publish_shared_layout l cid live s))" if "validate l = Inr ()"
    using that by (simp add: publishes_at_most_one_def validate_iff_valid)
  then show ?thesis using CommitLayout by (auto simp: handle_commit_layout_def)
next
  case (Attach r)
  then show ?thesis by (auto simp: handle_attach_def Let_def publishes_at_most_one_def split: sum.split)
next
  case RequestControl
  then show ?thesis by (auto simp: handle_request_control_def Let_def publishes_at_most_one_def split: option.split)
next
  case (SetParked park)
  then show ?thesis by (auto simp: handle_set_parked_def Let_def publishes_at_most_one_def split: option.split)
next
  case (DeclineControl to)
  then show ?thesis by (auto simp: handle_decline_control_def Let_def publishes_at_most_one_def split: option.split)
qed (simp_all add: handle_set_control_takeover_def handle_grant_control_def handle_evict_client_def handle_set_input_lock_def
    handle_drag_def Let_def publishes_at_most_one_def)

lemma control_document: "publishes_at_most_one s (snd (process_client_control_now now cid m s))"
proof -
  obtain msgs s1 where h: "handle_message now cid m s = (msgs, s1)" by fastforce
  have doc: "publishes_at_most_one s s1" using message_document [of s now cid m] h by simp
  obtain left s2 where r: "remove_client_with_reason cid Granted s1 = (left, s2)" by fastforce
  have s2: "layout_rev s2 = layout_rev s1" "doc s2 = doc s1" using remove_document [of cid Granted s1] unfolding r by simp_all
  have eq: "layout_rev (snd (process_client_control_now now cid m s)) = (if accepts_client_control cid m s then layout_rev s1 else layout_rev s) \<and>
      doc (snd (process_client_control_now now cid m s)) = (if accepts_client_control cid m s then doc s1 else doc s)"
    unfolding process_client_control_now_def h Let_def prod.case
    by (cases m) (simp_all add: r s2)
  show ?thesis using doc eq by (cases "accepts_client_control cid m s") (simp_all add: publishes_at_most_one_def)
qed

subsection \<open>Every reachable state\<close>

definition session_ok :: "session_server \<Rightarrow> bool" where
  "session_ok s \<longleftrightarrow> lease_ok s \<and> doc_ok s"

lemma publishes_doc: "publishes_at_most_one s s' \<Longrightarrow> doc_ok s \<Longrightarrow> doc_ok s'"
  by (auto simp: publishes_at_most_one_def doc_ok_def split: option.split)

lemma writes_step: "writes_only s s' \<Longrightarrow> session_ok s \<Longrightarrow> publishes_at_most_one s s' \<and> lease_ok s'"
  using writes_only_lease [of s s'] by (simp add: session_ok_def writes_only_def)

lemma step_publishes: "session_step s e s' \<Longrightarrow> session_ok s \<Longrightarrow> publishes_at_most_one s s' \<and> lease_ok s'"
proof (induction rule: session_step.induct)
  case (connect s)
  then show ?case using accept_keeps by (simp add: session_ok_def accept_new_def publishes_at_most_one_def)
next
  case (control m s cid now)
  then show ?case using control_keeps control_document by (simp add: session_ok_def)
next
  case (disconnect s cid reason)
  then show ?case using remove_keeps remove_document by (simp add: session_ok_def publishes_at_most_one_def)
next
  case (spawn_pane author pid generation intent owned placement started s result msgs s')
  then show ?case by (intro writes_step spawn_writes)
next
  case (layout_set kind ratio edit number base s result msgs s')
  then show ?case
    using layout_set_disciplined [where s = s and if_revision = base and kind = kind and ratio = ratio and edit = edit and n = number] disciplined_writes [of base s result msgs s']
    by (intro writes_step) (simp_all add: session_ok_def)
next
  case (pane_set pid edit base s result msgs s')
  then show ?case
    using pane_set_disciplined [where s = s and if_revision = base and pid = pid and edit = edit and r = "(result, msgs, s')"] disciplined_writes [of base s result msgs s']
    by (intro writes_step) (simp_all add: session_ok_def)
next
  case (pane_move pid number base s result msgs s')
  then show ?case
    using pane_move_disciplined [where s = s and if_revision = base and pid = pid and n = number] disciplined_writes [of base s result msgs s']
    by (intro writes_step) (simp_all add: session_ok_def)
next
  case (pane_swap pid other base s result msgs s')
  then show ?case
    using pane_swap_disciplined [where s = s and if_revision = base and pid = pid and other = other and r = "(result, msgs, s')"] disciplined_writes [of base s result msgs s']
    by (intro writes_step) (simp_all add: session_ok_def)
next
  case (pane_close pid base s result msgs s')
  then show ?case using close_writes [of pid base s result msgs s'] by (intro writes_step) (simp_all add: session_ok_def)
next
  case (new_pane index placement intent directory title keep started s result msgs s')
  then show ?case by (intro writes_step new_pane_writes)
next
  case (panes_change s ps locals generation)
  let ?s = "s\<lparr>server_panes := ps, local_panes := locals, next_generation := generation\<rparr>"
  have "lease_ok ?s = lease_ok s" by (rule lease_ok_same) simp_all
  then show ?case using panes_change by (simp add: session_ok_def publishes_at_most_one_def)
qed

lemma step_ok: "session_ok s \<Longrightarrow> session_step s e s' \<Longrightarrow> session_ok s'"
  using step_publishes [of s e s'] publishes_doc [of s s'] by (simp add: session_ok_def)

lemma start_ok: "session_start s \<Longrightarrow> session_ok s"
  by (simp add: session_start_def session_ok_def lease_ok_def connections_ok_def holder_ok_def)

interpretation server: revision_system session_step session_run session_ok layout_rev doc
proof (unfold_locales, goal_cases)
  case (1 s s')
  show ?case by auto
next
  case (2 s e es s'')
  show ?case by (auto simp: run_step_iff)
next
  case (3 s e s')
  then show ?case by (rule step_ok)
next
  case (4 s e s')
  then show ?case using step_publishes [of s e s'] by (auto simp: publishes_at_most_one_def)
qed


text \<open>Two clients attach; the first, which holds the lease, parks, and the second gets it.\<close>

definition attached_server :: session_server where
  "attached_server = snd (process_client_control_now 0 1 (Attach plain_attach) (accept_new fresh_server))"

definition shared_server :: session_server where
  "shared_server = snd (process_client_control_now 0 2 (Attach plain_attach) (accept_new attached_server))"

lemma fresh_start: "session_start fresh_server"
  by (simp add: session_start_def fresh_server_def doc_ok_def)

lemma attach_run: "session_run fresh_server [Connect, Control 0 1 (Attach plain_attach)] attached_server"
proof -
  have "next_client_id fresh_server \<noteq> - 1" "connected_unattached (accept_new fresh_server) 1" by code_simp+
  then show ?thesis by (simp add: run_step_iff attached_server_def)
qed

lemma share_run: "session_run attached_server [Connect, Control 0 2 (Attach plain_attach)] shared_server"
proof -
  have "next_client_id attached_server \<noteq> - 1" "connected_unattached (accept_new attached_server) 2" by code_simp+
  then show ?thesis by (simp add: run_step_iff shared_server_def)
qed


text \<open>
  C17: a layout revision names one document: as long as fewer than $2^{64}$ steps lie between two
  states of a server, equal revisions mean equal documents, so that a commit accepted against the
  revision its author saw replaces the document its author saw.
\<close>

theorem revision_names_document:
  assumes "session_start s0" "session_run s0 es s" "session_run s es' s'" "length es' < 2 ^ 64" "layout_rev s' = layout_rev s"
  shows "doc s' = doc s"
  using server.same_number_same_contents [OF assms(3) server.inv_run [OF assms(2) start_ok [OF assms(1)]] assms(4,5)] .

theorem revision_names_document_witness:
  "doc shared_server = doc attached_server \<and> layout_rev shared_server = layout_rev attached_server"
proof -
  have "layout_rev shared_server = layout_rev attached_server" by code_simp
  with revision_names_document [OF fresh_start attach_run share_run] show ?thesis by simp
qed

end
