(* ===== verification/Framing.thy ===== *)
theory Framing
  imports Machine
begin

unbundle bit_operations_syntax

text \<open>
  The binary framing of the session protocol: \<^verbatim>\<open>src/session/protocol/framing.rs\<close> and the constants of
  \<^verbatim>\<open>constants.rs\<close>. A frame is its length (four bytes, big-endian), a kind byte and a payload. A writer
  takes a value to the bytes it writes to a sink that accepts them; \<open>next_frame\<close> takes a decoder
  to the next complete frame of its buffer.

  The JSON codec (serde_json) is a parameter: \<open>enc\<close> and \<open>dec\<close> for control messages, and a pair for the
  file bindings of an output frame. What the properties need of it is \<open>json_codec\<close>: what was
  written reads back, and nothing is not a document. The resources a client acquires for a media frame never
  travel and are left out.

  Shown: a written frame reads back as itself exactly when the reader's rules allow it, and is
  refused otherwise; and a stream of frames is received unchanged however the transport cuts it.
\<close>

subsection \<open>Bytes\<close>

type_synonym byte = u8

primrec be_digits :: "nat \<Rightarrow> nat \<Rightarrow> byte list" where
  "be_digits 0 v = []"
| "be_digits (Suc n) v = of_nat (v div 256 ^ n) # be_digits n v"

definition be_value :: "byte list \<Rightarrow> nat" where
  "be_value bs = foldl (\<lambda>v b. 256 * v + unat b) 0 bs"

definition to_be_bytes :: "nat \<Rightarrow> 'a::len word \<Rightarrow> byte list" where
  "to_be_bytes n w = be_digits n (unat w)"

definition from_be_bytes :: "byte list \<Rightarrow> 'a::len word" where
  "from_be_bytes bs = of_nat (be_value bs)"

lemma be_digits_numeral: "be_digits (numeral n) v = of_nat (v div 256 ^ pred_numeral n) # be_digits (pred_numeral n) v"
  by (simp add: numeral_eq_Suc)

lemma length_be_digits [simp]: "length (be_digits n v) = n"
  by (induction n) auto

lemma length_to_be [simp]: "length (to_be_bytes n w) = n"
  by (simp add: to_be_bytes_def)

lemma unat_byte: "unat (of_nat n :: byte) = n mod 256"
  by (simp add: unat_of_nat)

lemma be_value_digits: "foldl (\<lambda>v b. 256 * v + unat b) a (be_digits n v) = a * 256 ^ n + v mod 256 ^ n"
proof (induction n arbitrary: a)
  case (Suc n)
  have "v mod 256 ^ Suc n = 256 ^ n * (v div 256 ^ n mod 256) + v mod 256 ^ n"
    using mod_mult2_eq [of v "256 ^ n" 256] by (simp add: mult.commute)
  moreover have "foldl (\<lambda>v b. 256 * v + unat b) a (be_digits (Suc n) v) = (256 * a + v div 256 ^ n mod 256) * 256 ^ n + v mod 256 ^ n"
    by (simp add: Suc.IH unat_byte)
  ultimately show ?case by (simp add: algebra_simps)
qed simp

lemma from_to_be:
  assumes "LENGTH('a) \<le> 8 * n"
  shows "from_be_bytes (to_be_bytes n w) = (w :: 'a::len word)"
proof -
  have "(2::nat) ^ LENGTH('a) \<le> 2 ^ (8 * n)" using assms by (rule power_increasing) simp
  also have "(2::nat) ^ (8 * n) = 256 ^ n" by (simp add: power_mult)
  finally have "unat w mod 256 ^ n = unat w" using less_le_trans [OF unat_bound [of w]] by (intro mod_less) blast
  then show ?thesis by (simp add: from_be_bytes_def be_value_def to_be_bytes_def be_value_digits)
qed

lemma from_to_be_sizes [simp]:
  "from_be_bytes (to_be_bytes 2 (h :: u16)) = h" "from_be_bytes (to_be_bytes 4 (w :: u32)) = w"
  "from_be_bytes (to_be_bytes 8 (d :: u64)) = d"
  by (simp_all add: from_to_be)

subsection \<open>Constants\<close>

definition MAX_FRAME_SIZE :: nat where
  "MAX_FRAME_SIZE = 8 * 1024 * 1024"

definition PANE_FRAME_HEADER_LEN :: nat where
  "PANE_FRAME_HEADER_LEN = 13"

definition PANE_OUTPUT_SEMANTICS_LEN :: nat where
  "PANE_OUTPUT_SEMANTICS_LEN = 37"

definition PANE_OUTPUT_METADATA_LEN :: nat where
  "PANE_OUTPUT_METADATA_LEN = PANE_OUTPUT_SEMANTICS_LEN + 8 + 4"

definition FRAME_KIND_CONTROL_JSON :: byte where
  "FRAME_KIND_CONTROL_JSON = 1"

definition FRAME_KIND_PANE_OUTPUT :: byte where
  "FRAME_KIND_PANE_OUTPUT = 2"

definition FRAME_KIND_PANE_INPUT :: byte where
  "FRAME_KIND_PANE_INPUT = 3"

definition FRAME_KIND_PRESENTATION_ACK :: byte where
  "FRAME_KIND_PRESENTATION_ACK = 4"

definition FRAME_KIND_PRESENTATION_INTEREST :: byte where
  "FRAME_KIND_PRESENTATION_INTEREST = 5"

definition FRAME_KIND_ACQUISITION_ACK :: byte where
  "FRAME_KIND_ACQUISITION_ACK = 6"

lemmas frame_kind_defs = FRAME_KIND_CONTROL_JSON_def FRAME_KIND_PANE_OUTPUT_def FRAME_KIND_PANE_INPUT_def
  FRAME_KIND_PRESENTATION_ACK_def FRAME_KIND_PRESENTATION_INTEREST_def FRAME_KIND_ACQUISITION_ACK_def

lemmas frame_len_defs = PANE_FRAME_HEADER_LEN_def PANE_OUTPUT_SEMANTICS_LEN_def PANE_OUTPUT_METADATA_LEN_def

subsection \<open>Frames\<close>

datatype output_class =
    Ordered
  | DependentGraphics u32 u64 u64
  | IndependentGraphics u32 u64 u64

record output_metadata =
  om_sequence :: u64
  om_coalesce_epoch :: u64
  om_class :: output_class

record immutable_file_binding =
  range_start :: nat
  range_end :: nat
  fb_path :: string
  fb_byte_len :: nat
  fb_format :: u32

record output_media =
  acquisition_sequence :: u64
  files :: "immutable_file_binding list"

record acquisition_ack =
  aa_local :: bool
  aa_pane_id :: u32
  aa_generation :: u64
  aa_sequence :: u64

record presentation_ack =
  pa_local :: bool
  pa_pane_id :: u32
  pa_generation :: u64
  pa_sequence :: u64

record presentation_interest =
  pi_local :: bool
  pi_pane_id :: u32
  pi_generation :: u64
  pi_visible :: bool
  pi_focused :: bool
  pi_frames_per_second :: u16

datatype 'c frame =
    Control 'c
  | PaneOutput u32 bool u64 output_metadata "output_media option" "byte list"
  | PresentationAcks "presentation_ack list"
  | AcquisitionAcks "acquisition_ack list"
  | PresentationInterest "presentation_interest list"
  | PaneBytes bool u32 bool u64 "byte list"

datatype io_error = InvalidInput | InvalidData | UnexpectedEof | Other

subsection \<open>Writers\<close>

definition write_frame_body :: "byte \<Rightarrow> byte list \<Rightarrow> io_error + byte list" where
  "write_frame_body kind body =
     (let frame_len = length body + 1 in
      if frame_len > MAX_FRAME_SIZE then Inl InvalidInput
      else if frame_len \<ge> 2 ^ 32 then Inl InvalidInput
      else Inr (to_be_bytes 4 (of_nat frame_len :: u32) @ [kind] @ body))"

definition write_control_frame :: "('c \<Rightarrow> byte list option) \<Rightarrow> 'c \<Rightarrow> io_error + byte list" where
  "write_control_frame enc v =
     (case enc v of None \<Rightarrow> Inl Other | Some body \<Rightarrow> write_frame_body FRAME_KIND_CONTROL_JSON body)"

definition u8_from :: "bool \<Rightarrow> byte" where
  "u8_from b = (if b then 1 else 0)"

definition write_pane_frame :: "byte \<Rightarrow> u32 \<Rightarrow> u64 \<Rightarrow> bool \<Rightarrow> byte list \<Rightarrow> io_error + byte list" where
  "write_pane_frame kind pid generation loc bytes =
     write_frame_body kind (to_be_bytes 4 pid @ to_be_bytes 8 generation @ [u8_from loc] @ bytes)"

fun class_fields :: "output_class \<Rightarrow> byte \<times> u32 \<times> u64 \<times> u64" where
  "class_fields Ordered = (0, 0, 0, 0)"
| "class_fields (DependentGraphics img incarnation revision) = (1, img, incarnation, revision)"
| "class_fields (IndependentGraphics img incarnation revision) = (2, img, incarnation, revision)"

definition output_semantics :: "output_metadata \<Rightarrow> byte list" where
  "output_semantics m =
     (let (class, img, incarnation, revision) = class_fields (om_class m)
      in to_be_bytes 8 (om_sequence m) @ to_be_bytes 8 (om_coalesce_epoch m) @ [class] @
         to_be_bytes 4 img @ to_be_bytes 8 incarnation @ to_be_bytes 8 revision)"

definition write_pane_output_media_frame ::
  "(immutable_file_binding list \<Rightarrow> byte list option) \<Rightarrow> u32 \<Rightarrow> u64 \<Rightarrow> bool \<Rightarrow> output_metadata \<Rightarrow> output_media option \<Rightarrow>
   byte list \<Rightarrow> io_error + byte list" where
  "write_pane_output_media_frame enc_files pid generation loc metadata media bytes =
     (case (case media of None \<Rightarrow> Some [] | Some m \<Rightarrow> enc_files (files m)) of
        None \<Rightarrow> Inl Other
      | Some bindings \<Rightarrow>
          write_pane_frame FRAME_KIND_PANE_OUTPUT pid generation loc
            (output_semantics metadata @
             to_be_bytes 8 (case media of None \<Rightarrow> 0 | Some m \<Rightarrow> acquisition_sequence m) @
             to_be_bytes 4 (of_nat (length bindings) :: u32) @ bindings @ bytes))"

definition write_pane_output_frame ::
  "(immutable_file_binding list \<Rightarrow> byte list option) \<Rightarrow> u32 \<Rightarrow> u64 \<Rightarrow> bool \<Rightarrow> output_metadata \<Rightarrow> byte list \<Rightarrow> io_error + byte list" where
  "write_pane_output_frame enc_files pid generation loc metadata bytes =
     write_pane_output_media_frame enc_files pid generation loc metadata None bytes"

definition input_flags :: "bool \<Rightarrow> bool \<Rightarrow> byte" where
  "input_flags loc latency_sensitive = u8_from loc OR push_bit 1 (u8_from (\<not> latency_sensitive))"

definition write_pane_input_with_priority :: "u32 \<Rightarrow> u64 \<Rightarrow> bool \<Rightarrow> bool \<Rightarrow> byte list \<Rightarrow> io_error + byte list" where
  "write_pane_input_with_priority pid generation loc latency_sensitive bytes =
     write_frame_body FRAME_KIND_PANE_INPUT
       (to_be_bytes 4 pid @ to_be_bytes 8 generation @ [input_flags loc latency_sensitive] @ bytes)"

definition write_pane_input_frame :: "u32 \<Rightarrow> u64 \<Rightarrow> bool \<Rightarrow> byte list \<Rightarrow> io_error + byte list" where
  "write_pane_input_frame pid generation loc bytes = write_pane_input_with_priority pid generation loc True bytes"

definition write_acquisition_acks :: "acquisition_ack list \<Rightarrow> io_error + byte list" where
  "write_acquisition_acks acks = write_frame_body FRAME_KIND_ACQUISITION_ACK
     (concat (map (\<lambda>a. to_be_bytes 4 (aa_pane_id a) @ to_be_bytes 8 (aa_generation a) @ to_be_bytes 8 (aa_sequence a) @
        [u8_from (aa_local a)]) acks))"

definition write_presentation_acks :: "presentation_ack list \<Rightarrow> io_error + byte list" where
  "write_presentation_acks acks = write_frame_body FRAME_KIND_PRESENTATION_ACK
     (concat (map (\<lambda>a. to_be_bytes 4 (pa_pane_id a) @ to_be_bytes 8 (pa_generation a) @ to_be_bytes 8 (pa_sequence a) @
        [u8_from (pa_local a)]) acks))"

definition interest_flags :: "presentation_interest \<Rightarrow> byte" where
  "interest_flags p = u8_from (pi_visible p) OR push_bit 1 (u8_from (pi_focused p)) OR push_bit 2 (u8_from (pi_local p))"

definition write_presentation_interest :: "presentation_interest list \<Rightarrow> io_error + byte list" where
  "write_presentation_interest interest = write_frame_body FRAME_KIND_PRESENTATION_INTEREST
     (concat (map (\<lambda>p. to_be_bytes 4 (pi_pane_id p) @ to_be_bytes 8 (pi_generation p) @
        [interest_flags p] @ to_be_bytes 2 (pi_frames_per_second p)) interest))"

subsection \<open>Reading a frame\<close>

text \<open>\<^verbatim>\<open>bytes[i..j]\<close>, for \<open>i \<le> j\<close> within the slice.\<close>

definition slice :: "nat \<Rightarrow> nat \<Rightarrow> byte list \<Rightarrow> byte list" where
  "slice i j bs = take (j - i) (drop i bs)"

fun chunks_exact :: "nat \<Rightarrow> 'a list \<Rightarrow> 'a list list" where
  "chunks_exact n xs = (if n = 0 \<or> length xs < n then [] else take n xs # chunks_exact n (drop n xs))"

declare chunks_exact.simps [simp del]

definition decode_pane_frame :: "byte list \<Rightarrow> io_error + 'c frame" where
  "decode_pane_frame payload =
     (if length payload < PANE_FRAME_HEADER_LEN then Inl InvalidData
      else let flags = payload ! 12 in
        if flags AND NOT 3 \<noteq> 0 then Inl InvalidData
        else Inr (PaneBytes (flags AND 2 = 0) (from_be_bytes (slice 0 4 payload)) (flags AND 1 \<noteq> 0)
          (from_be_bytes (slice 4 12 payload)) (drop PANE_FRAME_HEADER_LEN payload)))"

definition decode_output_class :: "byte list \<Rightarrow> io_error + output_class" where
  "decode_output_class bytes =
     (let img = from_be_bytes (slice 17 21 bytes);
          incarnation = from_be_bytes (slice 21 29 bytes);
          revision = from_be_bytes (slice 29 37 bytes)
      in if bytes ! 16 = 0 \<and> img = 0 \<and> incarnation = 0 \<and> revision = 0 then Inr Ordered
         else if bytes ! 16 = 1 \<and> img \<noteq> 0 \<and> incarnation \<noteq> 0 then Inr (DependentGraphics img incarnation revision)
         else if bytes ! 16 = 2 \<and> img \<noteq> 0 \<and> incarnation \<noteq> 0 then Inr (IndependentGraphics img incarnation revision)
         else Inl InvalidData)"

definition valid_after :: "immutable_file_binding \<Rightarrow> nat \<Rightarrow> nat \<Rightarrow> bool" where
  "valid_after b e output_len \<longleftrightarrow> e \<le> range_start b \<and> range_start b < range_end b \<and> range_end b \<le> output_len \<and>
     fb_byte_len b \<noteq> 0 \<and> (fb_format b = 24 \<or> fb_format b = 32)"

fun bindings_valid :: "nat \<Rightarrow> immutable_file_binding list \<Rightarrow> nat \<Rightarrow> bool" where
  "bindings_valid e [] output_len = True"
| "bindings_valid e (b # bs) output_len = (valid_after b e output_len \<and> bindings_valid (range_end b) bs output_len)"

definition validate_file_bindings :: "immutable_file_binding list \<Rightarrow> nat \<Rightarrow> io_error + unit" where
  "validate_file_bindings bs output_len = (if bindings_valid 0 bs output_len then Inr () else Inl InvalidData)"

definition decode_output_media ::
  "(byte list \<Rightarrow> immutable_file_binding list option) \<Rightarrow> byte list \<Rightarrow> io_error + (output_media option \<times> nat)" where
  "decode_output_media dec_files bytes =
     (let sequence_end = PANE_OUTPUT_SEMANTICS_LEN + 8;
          sequence = from_be_bytes (slice PANE_OUTPUT_SEMANTICS_LEN sequence_end bytes);
          binding_len = unat (from_be_bytes (slice sequence_end PANE_OUTPUT_METADATA_LEN bytes) :: u32);
          start = PANE_OUTPUT_METADATA_LEN + binding_len
      in if length bytes < start then Inl InvalidData
         else if binding_len = 0 then (if sequence \<noteq> 0 then Inl InvalidData else Inr (None, start))
         else case dec_files (slice PANE_OUTPUT_METADATA_LEN start bytes) of
           None \<Rightarrow> Inl Other
         | Some fs \<Rightarrow>
             if fs = [] \<or> length fs > 64 \<or> sequence = 0 then Inl InvalidData
             else case validate_file_bindings fs (length bytes - start) of
               Inl e \<Rightarrow> Inl e
             | Inr _ \<Rightarrow> Inr (Some \<lparr>acquisition_sequence = sequence, files = fs\<rparr>, start))"

text \<open>\<^verbatim>\<open>decode_pane_frame\<close> returns a \<open>PaneBytes\<close> or an error; the last branch is \<^verbatim>\<open>unreachable!\<close>.\<close>

definition decode_output_frame :: "(byte list \<Rightarrow> immutable_file_binding list option) \<Rightarrow> byte list \<Rightarrow> io_error + 'c frame" where
  "decode_output_frame dec_files payload =
     (if 12 < length payload \<and> payload ! 12 > 1 then Inl InvalidData
      else case (decode_pane_frame payload :: io_error + 'c frame) of
        Inl e \<Rightarrow> Inl e
      | Inr (PaneBytes _ pid loc generation bytes) \<Rightarrow>
          if length bytes < PANE_OUTPUT_METADATA_LEN then Inl InvalidData
          else (case decode_output_class bytes of
            Inl e \<Rightarrow> Inl e
          | Inr class \<Rightarrow>
              (case decode_output_media dec_files bytes of
                Inl e \<Rightarrow> Inl e
              | Inr (media, start) \<Rightarrow>
                  Inr (PaneOutput pid loc generation
                    \<lparr>om_sequence = from_be_bytes (slice 0 8 bytes), om_coalesce_epoch = from_be_bytes (slice 8 16 bytes), om_class = class\<rparr>
                    media (drop start bytes))))
      | Inr _ \<Rightarrow> Inl Other)"

definition decode_ack_frame :: "byte list \<Rightarrow> io_error + presentation_ack list" where
  "decode_ack_frame payload =
     (if length payload mod 21 \<noteq> 0 then Inl InvalidData
      else if list_ex (\<lambda>chunk. chunk ! 20 > 1) (chunks_exact 21 payload) then Inl InvalidData
      else Inr (map (\<lambda>chunk. \<lparr>pa_local = (chunk ! 20 \<noteq> 0), pa_pane_id = from_be_bytes (slice 0 4 chunk),
        pa_generation = from_be_bytes (slice 4 12 chunk), pa_sequence = from_be_bytes (slice 12 20 chunk)\<rparr>) (chunks_exact 21 payload)))"

definition acquisition_of :: "presentation_ack \<Rightarrow> acquisition_ack" where
  "acquisition_of a = \<lparr>aa_local = pa_local a, aa_pane_id = pa_pane_id a, aa_generation = pa_generation a, aa_sequence = pa_sequence a\<rparr>"

definition decode_interest_chunk :: "byte list \<Rightarrow> io_error + presentation_interest" where
  "decode_interest_chunk chunk =
     (if chunk ! 12 AND NOT 7 \<noteq> 0 then Inl InvalidData
      else let fps = from_be_bytes (slice 13 15 chunk) in
        if fps = 0 \<or> fps > 1000 then Inl InvalidData
        else Inr \<lparr>pi_local = (chunk ! 12 AND 4 \<noteq> 0), pi_pane_id = from_be_bytes (slice 0 4 chunk),
          pi_generation = from_be_bytes (slice 4 12 chunk), pi_visible = (chunk ! 12 AND 1 \<noteq> 0),
          pi_focused = (chunk ! 12 AND 2 \<noteq> 0), pi_frames_per_second = fps\<rparr>)"

fun decode_interest_loop :: "byte list list \<Rightarrow> presentation_interest list \<Rightarrow> io_error + presentation_interest list" where
  "decode_interest_loop [] interest = Inr interest"
| "decode_interest_loop (chunk # chunks) interest =
     (case decode_interest_chunk chunk of Inl e \<Rightarrow> Inl e | Inr p \<Rightarrow> decode_interest_loop chunks (interest @ [p]))"

definition decode_interest_frame :: "byte list \<Rightarrow> io_error + presentation_interest list" where
  "decode_interest_frame payload =
     (if length payload mod 15 \<noteq> 0 then Inl InvalidData else decode_interest_loop (chunks_exact 15 payload) [])"

definition decode_frame ::
  "(byte list \<Rightarrow> 'c option) \<Rightarrow> (byte list \<Rightarrow> immutable_file_binding list option) \<Rightarrow> byte list \<Rightarrow> io_error + 'c frame" where
  "decode_frame dec dec_files body =
     (case body of
        [] \<Rightarrow> Inl InvalidData
      | kind # payload \<Rightarrow>
          if kind = FRAME_KIND_CONTROL_JSON then (case dec payload of None \<Rightarrow> Inl Other | Some c \<Rightarrow> Inr (Control c))
          else if kind = FRAME_KIND_PANE_INPUT then decode_pane_frame payload
          else if kind = FRAME_KIND_PANE_OUTPUT then decode_output_frame dec_files payload
          else if kind = FRAME_KIND_PRESENTATION_ACK then map_sum (\<lambda>e. e) PresentationAcks (decode_ack_frame payload)
          else if kind = FRAME_KIND_ACQUISITION_ACK \<and> length payload \<le> 4096 * 21
          then map_sum (\<lambda>e. e) (\<lambda>acks. AcquisitionAcks (map acquisition_of acks)) (decode_ack_frame payload)
          else if kind = FRAME_KIND_PRESENTATION_INTEREST then map_sum (\<lambda>e. e) PresentationInterest (decode_interest_frame payload)
          else Inl InvalidData)"

subsection \<open>The decoder of a stream\<close>

record frame_decoder =
  buffer :: "byte list"
  max_size :: nat

definition new_decoder :: "nat \<Rightarrow> frame_decoder" where
  "new_decoder n = \<lparr>buffer = [], max_size = n\<rparr>"

datatype frame_read_status = Read nat | WouldBlock | Eof

text \<open>What \<^verbatim>\<open>reader.read\<close> did: it filled a prefix of the chunk, or it failed.\<close>

datatype read_error = ReadWouldBlock | ReadTimedOut | ReadInterrupted | ReadFailed

definition read_from_status :: "read_error + byte list \<Rightarrow> frame_decoder \<Rightarrow> (read_error + frame_read_status) \<times> frame_decoder" where
  "read_from_status r d =
     (case r of
        Inr [] \<Rightarrow> (Inr Eof, d)
      | Inr bs \<Rightarrow> (Inr (Read (length bs)), d\<lparr>buffer := buffer d @ bs\<rparr>)
      | Inl e \<Rightarrow> if e \<in> {ReadWouldBlock, ReadTimedOut, ReadInterrupted} then (Inr WouldBlock, d) else (Inl e, d))"

definition next_frame ::
  "(byte list \<Rightarrow> 'c option) \<Rightarrow> (byte list \<Rightarrow> immutable_file_binding list option) \<Rightarrow> frame_decoder \<Rightarrow>
   (io_error + 'c frame option) \<times> frame_decoder" where
  "next_frame dec dec_files d =
     (if length (buffer d) < 4 then (Inr None, d)
      else let len = unat (from_be_bytes (take 4 (buffer d)) :: u32) in
        if len > max_size d then (Inl InvalidData, d)
        else if length (buffer d) < 4 + len then (Inr None, d)
        else (map_sum (\<lambda>e. e) Some (decode_frame dec dec_files (slice 4 (4 + len) (buffer d))),
              d\<lparr>buffer := drop (4 + len) (buffer d)\<rparr>))"

text \<open>
  The loop of \<^verbatim>\<open>read_client_frames\<close> (\<^verbatim>\<open>src/session/server/connection.rs\<close>): frames until the buffer holds
  no complete one, or until one is refused, which closes the connection.
\<close>

function read_client_frames ::
  "(byte list \<Rightarrow> 'c option) \<Rightarrow> (byte list \<Rightarrow> immutable_file_binding list option) \<Rightarrow> frame_decoder \<Rightarrow>
   'c frame list \<times> bool \<times> frame_decoder" where
  "read_client_frames dec dec_files d =
     (case next_frame dec dec_files d of
        (Inr (Some f), d') \<Rightarrow> (let (fs, closed, d'') = read_client_frames dec dec_files d' in (f # fs, closed, d''))
      | (Inr None, d') \<Rightarrow> ([], False, d')
      | (Inl _, d') \<Rightarrow> ([], True, d'))"
  by pat_completeness auto

lemma next_frame_consumes: "next_frame dec dec_files d = (Inr (Some f), d') \<Longrightarrow> length (buffer d') < length (buffer d)"
  by (auto simp: next_frame_def Let_def split: if_splits)

termination read_client_frames
  by (relation "measure (\<lambda>(dec, dec_files, d). length (buffer d))") (auto dest: next_frame_consumes [OF sym])

declare read_client_frames.simps [simp del]

text \<open>A connection over its life: every read is followed by the loop; the first refused frame ends it.\<close>

fun receive ::
  "(byte list \<Rightarrow> 'c option) \<Rightarrow> (byte list \<Rightarrow> immutable_file_binding list option) \<Rightarrow> byte list list \<Rightarrow> frame_decoder \<Rightarrow>
   'c frame list \<times> bool \<times> frame_decoder" where
  "receive dec dec_files [] d = ([], False, d)"
| "receive dec dec_files (chunk # chunks) d =
     (let (_, d) = read_from_status (Inr chunk) d; (fs, closed, d) = read_client_frames dec dec_files d
      in if closed then (fs, True, d)
         else (let (gs, closed, d) = receive dec dec_files chunks d in (fs @ gs, closed, d)))"

definition read_frame_with_limit :: "(byte list \<Rightarrow> 'c option) \<Rightarrow> nat \<Rightarrow> byte list \<Rightarrow> (io_error + 'c) \<times> byte list" where
  "read_frame_with_limit dec max_len input =
     (if length input < 4 then (Inl UnexpectedEof, [])
      else let len = unat (from_be_bytes (take 4 input) :: u32); rest = drop 4 input in
        if len > max_len then (Inl InvalidData, rest)
        else if len = 0 then (Inl InvalidData, rest)
        else if length rest < len then (Inl UnexpectedEof, [])
        else let (kind, payload) = (hd rest, take (len - 1) (tl rest)) in
          (if kind \<noteq> FRAME_KIND_CONTROL_JSON then Inl InvalidData
           else case dec payload of None \<Rightarrow> Inl Other | Some c \<Rightarrow> Inr c, drop len rest))"

subsection \<open>Slices of concatenations\<close>

lemma slice_skip: "length xs \<le> i \<Longrightarrow> slice i j (xs @ ys) = slice (i - length xs) (j - length xs) ys"
  by (simp add: slice_def diff_diff_eq2)

lemma slice_front: "length xs = j \<Longrightarrow> slice 0 j (xs @ ys) = xs"
  by (simp add: slice_def)

lemma slice_whole: "length xs = j \<Longrightarrow> slice 0 j xs = xs"
  by (simp add: slice_def)

lemma slice_Cons: "0 < i \<Longrightarrow> slice i j (x # xs) = slice (i - 1) (j - 1) xs"
  using slice_skip [of "[x]" i j xs] by simp

lemmas slices = slice_Cons slice_skip slice_front slice_whole nth_append

lemma chunks_concat:
  assumes "\<And>x. length (f x) = n" "0 < n"
  shows "chunks_exact n (concat (map f xs)) = map f xs"
proof (induction xs)
  case Nil
  then show ?case using assms by (simp add: chunks_exact.simps)
next
  case (Cons x xs)
  then show ?case using assms by (subst chunks_exact.simps) simp
qed

lemma length_chunks: "(\<And>x. length (f x) = n) \<Longrightarrow> length (concat (map f xs)) = n * length xs"
  by (induction xs) auto

lemma flag_cases [simp]:
  "u8_from b AND 1 \<noteq> 0 \<longleftrightarrow> b" "\<not> 1 < u8_from b" "u8_from b = 0 \<longleftrightarrow> \<not> b"
  by (cases b; simp add: u8_from_def)+

lemma input_bits:
  "input_flags loc latency AND NOT 3 = 0" "input_flags loc latency AND 1 \<noteq> 0 \<longleftrightarrow> loc" "input_flags loc latency AND 2 = 0 \<longleftrightarrow> latency"
  by (cases loc; cases latency; simp add: input_flags_def u8_from_def; code_simp)+

lemma interest_bits:
  "interest_flags p AND NOT 7 = 0" "interest_flags p AND 1 \<noteq> 0 \<longleftrightarrow> pi_visible p"
  "interest_flags p AND 2 \<noteq> 0 \<longleftrightarrow> pi_focused p" "interest_flags p AND 4 \<noteq> 0 \<longleftrightarrow> pi_local p"
  by (cases "pi_visible p"; cases "pi_focused p"; cases "pi_local p"; simp add: interest_flags_def u8_from_def; code_simp)+

subsection \<open>What a reader accepts\<close>

text \<open>The writer of each frame.\<close>

fun write_any :: "('c \<Rightarrow> byte list option) \<Rightarrow> (immutable_file_binding list \<Rightarrow> byte list option) \<Rightarrow> 'c frame \<Rightarrow> io_error + byte list" where
  "write_any enc enc_files (Control c) = write_control_frame enc c"
| "write_any enc enc_files (PaneOutput pid loc generation m media bytes) = write_pane_output_media_frame enc_files pid generation loc m media bytes"
| "write_any enc enc_files (PresentationAcks acks) = write_presentation_acks acks"
| "write_any enc enc_files (AcquisitionAcks acks) = write_acquisition_acks acks"
| "write_any enc enc_files (PresentationInterest interest) = write_presentation_interest interest"
| "write_any enc enc_files (PaneBytes latency_sensitive pid loc generation bytes) =
     write_pane_input_with_priority pid generation loc latency_sensitive bytes"

fun class_ok :: "output_class \<Rightarrow> bool" where
  "class_ok Ordered = True"
| "class_ok (DependentGraphics img incarnation _) \<longleftrightarrow> img \<noteq> 0 \<and> incarnation \<noteq> 0"
| "class_ok (IndependentGraphics img incarnation _) \<longleftrightarrow> img \<noteq> 0 \<and> incarnation \<noteq> 0"

definition media_ok :: "output_media \<Rightarrow> nat \<Rightarrow> bool" where
  "media_ok m output_len \<longleftrightarrow> acquisition_sequence m \<noteq> 0 \<and> 1 \<le> length (files m) \<and> length (files m) \<le> 64 \<and>
     bindings_valid 0 (files m) output_len"

fun readable :: "'c frame \<Rightarrow> bool" where
  "readable (PaneOutput _ _ _ m media bytes) \<longleftrightarrow> class_ok (om_class m) \<and> pred_option (\<lambda>f. media_ok f (length bytes)) media"
| "readable (AcquisitionAcks acks) \<longleftrightarrow> length acks \<le> 4096"
| "readable (PresentationInterest interest) \<longleftrightarrow> list_all (\<lambda>p. 1 \<le> pi_frames_per_second p \<and> pi_frames_per_second p \<le> 1000) interest"
| "readable _ \<longleftrightarrow> True"

definition json_codec :: "('a \<Rightarrow> byte list option) \<Rightarrow> (byte list \<Rightarrow> 'a option) \<Rightarrow> bool" where
  "json_codec enc dec \<longleftrightarrow> (\<forall>v bs. enc v = Some bs \<longrightarrow> dec bs = Some v) \<and> dec [] = None"

lemma decode_pane:
  "decode_pane_frame (to_be_bytes 4 pid @ to_be_bytes 8 generation @ [flag] @ bytes) =
     (if flag AND NOT 3 \<noteq> 0 then Inl InvalidData
      else Inr (PaneBytes (flag AND 2 = 0) pid (flag AND 1 \<noteq> 0) generation bytes))"
  by (simp add: decode_pane_frame_def frame_len_defs Let_def slices)

lemma decode_class:
  "decode_output_class (output_semantics m @ rest) = (if class_ok (om_class m) then Inr (om_class m) else Inl InvalidData)"
  by (cases "om_class m") (auto simp: decode_output_class_def output_semantics_def Let_def slices)

lemma length_semantics [simp]: "length (output_semantics m) = 37"
  by (simp add: output_semantics_def split: prod.split)

lemma semantics_heads:
  "from_be_bytes (slice 0 8 (output_semantics m @ rest)) = om_sequence m"
  "from_be_bytes (slice 8 16 (output_semantics m @ rest)) = om_coalesce_epoch m"
  by (simp_all add: output_semantics_def slices split: prod.split)

definition output_payload :: "output_metadata \<Rightarrow> output_media option \<Rightarrow> byte list \<Rightarrow> byte list \<Rightarrow> byte list" where
  "output_payload sem media bindings bytes =
     output_semantics sem @ to_be_bytes 8 (case media of None \<Rightarrow> 0 | Some m \<Rightarrow> acquisition_sequence m) @
     to_be_bytes 4 (of_nat (length bindings) :: u32) @ bindings @ bytes"

definition enc_media :: "(immutable_file_binding list \<Rightarrow> byte list option) \<Rightarrow> output_media option \<Rightarrow> byte list option" where
  "enc_media enc_files media = (case media of None \<Rightarrow> Some [] | Some m \<Rightarrow> enc_files (files m))"

lemma decode_media:
  assumes "json_codec enc_files dec_files" "enc_media enc_files media = Some bindings" "length bindings < 2 ^ 32"
  shows "decode_output_media dec_files (output_payload sem media bindings rest) =
    (if pred_option (\<lambda>m. media_ok m (length rest)) media then Inr (media, 49 + length bindings) else Inl InvalidData)"
proof -
  have len: "unat (of_nat (length bindings) :: u32) = length bindings" using assms(3) by (intro unat_of_nat_less) simp
  show ?thesis
  proof (cases media)
    case None
    then have "bindings = []" using assms(2) by (simp add: enc_media_def)
    then show ?thesis using None len by (simp add: output_payload_def decode_output_media_def frame_len_defs Let_def slices)
  next
    case (Some m)
    then have enc: "enc_files (files m) = Some bindings" using assms(2) by (simp add: enc_media_def)
    then have dec: "dec_files bindings = Some (files m)" "bindings \<noteq> []" using assms(1) by (auto simp: json_codec_def)
    show ?thesis
      using Some len dec
      by (cases "files m") (auto simp: output_payload_def decode_output_media_def frame_len_defs Let_def slices validate_file_bindings_def media_ok_def)
  qed
qed

lemma decode_output:
  assumes "json_codec enc_files dec_files" "enc_media enc_files media = Some bindings" "length bindings < 2 ^ 32"
  shows "decode_output_frame dec_files
      (to_be_bytes 4 pid @ to_be_bytes 8 generation @ [u8_from loc] @ output_payload sem media bindings bytes) =
    (if readable (PaneOutput pid loc generation sem media bytes :: 'c frame) then Inr (PaneOutput pid loc generation sem media bytes :: 'c frame) else Inl InvalidData)"
proof -
  have flag: "u8_from loc AND NOT 3 = 0" by (cases loc; simp add: u8_from_def)
  have sem: "decode_output_class (output_payload sem media bindings bytes) = (if class_ok (om_class sem) then Inr (om_class sem) else Inl InvalidData)"
    "from_be_bytes (slice 0 8 (output_payload sem media bindings bytes)) = om_sequence sem"
    "from_be_bytes (slice 8 16 (output_payload sem media bindings bytes)) = om_coalesce_epoch sem"
    by (simp_all add: output_payload_def decode_class semantics_heads)
  have rest: "drop (49 + length bindings) (output_payload sem media bindings bytes) = bytes"
    "49 \<le> length (output_payload sem media bindings bytes)"
    by (simp_all add: output_payload_def)
  show ?thesis
    unfolding decode_output_frame_def decode_pane flag
    using decode_media [OF assms, of sem bytes] rest
    by (simp add: sem frame_len_defs slices)
qed

subsection \<open>Every written frame\<close>

lemma decode_acks:
  "decode_ack_frame (concat (map (\<lambda>a. to_be_bytes 4 (pa_pane_id a) @ to_be_bytes 8 (pa_generation a) @ to_be_bytes 8 (pa_sequence a) @
     [u8_from (pa_local a)]) acks)) = Inr acks"
proof -
  let ?f = "\<lambda>a. to_be_bytes 4 (pa_pane_id a) @ to_be_bytes 8 (pa_generation a) @ to_be_bytes 8 (pa_sequence a) @ [u8_from (pa_local a)]"
  have len: "length (?f a) = 21" for a by simp
  show ?thesis
    unfolding decode_ack_frame_def chunks_concat [of ?f 21, OF len zero_less_numeral] length_chunks [of ?f 21, OF len]
    by (simp add: list_ex_iff slices comp_def) (auto intro: map_idI)
qed

lemma decode_interest:
  "decode_interest_frame (concat (map (\<lambda>p. to_be_bytes 4 (pi_pane_id p) @ to_be_bytes 8 (pi_generation p) @ [interest_flags p] @
     to_be_bytes 2 (pi_frames_per_second p)) interest)) =
   (if list_all (\<lambda>p. 1 \<le> pi_frames_per_second p \<and> pi_frames_per_second p \<le> 1000) interest then Inr interest else Inl InvalidData)"
proof -
  let ?f = "\<lambda>p. to_be_bytes 4 (pi_pane_id p) @ to_be_bytes 8 (pi_generation p) @ [interest_flags p] @
     to_be_bytes 2 (pi_frames_per_second p)"
  have len: "length (?f p) = 15" for p by simp
  have pos: "1 \<le> w \<longleftrightarrow> w \<noteq> 0" for w :: u16 by (simp add: word_le_nat_alt Suc_le_eq unat_gt_0)
  have chunk: "decode_interest_chunk (?f p) = (if 1 \<le> pi_frames_per_second p \<and> pi_frames_per_second p \<le> 1000 then Inr p else Inl InvalidData)" for p
    by (simp add: decode_interest_chunk_def Let_def slices interest_bits interest_bits(1) [simplified] pos not_le)
  have loop: "decode_interest_loop (map ?f ps) acc =
      (if list_all (\<lambda>p. 1 \<le> pi_frames_per_second p \<and> pi_frames_per_second p \<le> 1000) ps then Inr (acc @ ps) else Inl InvalidData)" for ps acc
    by (induction ps arbitrary: acc) (simp_all add: chunk [unfolded append_Cons append_Nil])
  show ?thesis
    unfolding decode_interest_frame_def chunks_concat [of ?f 15, OF len zero_less_numeral] length_chunks [of ?f 15, OF len]
    by (simp add: loop [unfolded append_Cons append_Nil])
qed

lemma write_body:
  assumes "write_frame_body kind body = Inr bytes"
  shows "bytes = to_be_bytes 4 (of_nat (length (kind # body)) :: u32) @ kind # body" "length (kind # body) \<le> MAX_FRAME_SIZE"
  using assms by (auto simp: write_frame_body_def Let_def split: if_splits)

definition frame_bytes :: "byte list \<Rightarrow> byte list" where
  "frame_bytes body = to_be_bytes 4 (of_nat (length body) :: u32) @ body"

lemma written_as:
  assumes "write_frame_body kind body = Inr bytes" "decode_frame dec dec_files (kind # body) = r"
  shows "\<exists>b. bytes = frame_bytes b \<and> length b \<le> MAX_FRAME_SIZE \<and> decode_frame dec dec_files b = r"
  using write_body [OF assms(1)] assms(2) by (intro exI [of _ "kind # body"]) (simp add: frame_bytes_def)

lemma decode_written:
  assumes "json_codec enc dec" "json_codec enc_files dec_files" "write_any enc enc_files f = Inr bytes"
  shows "\<exists>body. bytes = frame_bytes body \<and> length body \<le> MAX_FRAME_SIZE \<and>
    decode_frame dec dec_files body = (if readable f then Inr f else Inl InvalidData)"
proof (cases f)
  case (Control c)
  then obtain b where b: "enc c = Some b" "write_frame_body FRAME_KIND_CONTROL_JSON b = Inr bytes"
    using assms(3) by (auto simp: write_control_frame_def split: option.splits)
  then have "dec b = Some c" using assms(1) by (simp add: json_codec_def)
  then show ?thesis by (intro written_as [OF b(2)]) (simp add: Control decode_frame_def)
next
  case (PaneOutput pid loc generation sem media out)
  then obtain b where b: "enc_media enc_files media = Some b"
    "write_frame_body FRAME_KIND_PANE_OUTPUT (to_be_bytes 4 pid @ to_be_bytes 8 generation @ [u8_from loc] @ output_payload sem media b out) = Inr bytes"
    using assms(3) by (auto simp: write_pane_output_media_frame_def write_pane_frame_def enc_media_def output_payload_def split: option.splits)
  have "length b < 2 ^ 32" using write_body(2) [OF b(2)] by (simp add: MAX_FRAME_SIZE_def output_payload_def)
  from decode_output [OF assms(2) b(1) this, where 'c = 'a, of pid generation loc sem out] show ?thesis
    by (intro written_as [OF b(2)]) (simp add: PaneOutput decode_frame_def frame_kind_defs)
next
  case (PresentationAcks acks)
  then show ?thesis
    using assms(3) by (intro written_as [of FRAME_KIND_PRESENTATION_ACK])
      (auto simp: write_presentation_acks_def decode_frame_def frame_kind_defs decode_acks)
next
  case (AcquisitionAcks acks)
  let ?p = "\<lambda>a. \<lparr>pa_local = aa_local a, pa_pane_id = aa_pane_id a, pa_generation = aa_generation a, pa_sequence = aa_sequence a\<rparr>"
  let ?g = "\<lambda>a. to_be_bytes 4 (aa_pane_id a) @ to_be_bytes 8 (aa_generation a) @ to_be_bytes 8 (aa_sequence a) @ [u8_from (aa_local a)]"
  have w: "write_frame_body FRAME_KIND_ACQUISITION_ACK (concat (map ?g acks)) = Inr bytes"
    using assms(3) by (simp add: AcquisitionAcks write_acquisition_acks_def)
  have dec: "decode_ack_frame (concat (map ?g acks)) = Inr (map ?p acks)"
    using decode_acks [of "map ?p acks"] by (simp add: comp_def)
  have again: "map acquisition_of (map ?p acks) = acks" by (auto simp: acquisition_of_def intro: map_idI)
  have len: "length (concat (map ?g acks)) = 21 * length acks" by (rule length_chunks) simp
  have "decode_frame dec dec_files (FRAME_KIND_ACQUISITION_ACK # concat (map ?g acks)) =
      (if length acks \<le> 4096 then Inr (AcquisitionAcks (map acquisition_of (map ?p acks))) else Inl InvalidData)"
    unfolding decode_frame_def list.case dec len by (simp add: frame_kind_defs)
  then show ?thesis unfolding again by (intro written_as [OF w]) (simp add: AcquisitionAcks)
next
  case (PresentationInterest interest)
  have w: "write_frame_body FRAME_KIND_PRESENTATION_INTEREST (concat (map (\<lambda>p. to_be_bytes 4 (pi_pane_id p) @ to_be_bytes 8 (pi_generation p) @
      [interest_flags p] @ to_be_bytes 2 (pi_frames_per_second p)) interest)) = Inr bytes"
    using assms(3) by (simp add: PresentationInterest write_presentation_interest_def)
  show ?thesis
    by (rule written_as [OF w]) (unfold decode_frame_def list.case decode_interest PresentationInterest, simp add: frame_kind_defs)
next
  case (PaneBytes latency pid loc generation out)
  have w: "write_frame_body FRAME_KIND_PANE_INPUT (to_be_bytes 4 pid @ to_be_bytes 8 generation @ [input_flags loc latency] @ out) = Inr bytes"
    using assms(3) by (simp add: PaneBytes write_pane_input_with_priority_def)
  show ?thesis
    by (rule written_as [OF w]) (unfold decode_frame_def list.case decode_pane PaneBytes, simp add: frame_kind_defs input_bits input_bits [simplified])
qed

text \<open>The reader's length field.\<close>

lemma next_frame_written:
  assumes "length body \<le> MAX_FRAME_SIZE" "buffer d = frame_bytes body @ rest" "max_size d = MAX_FRAME_SIZE"
  shows "next_frame dec dec_files d = (map_sum (\<lambda>e. e) Some (decode_frame dec dec_files body), d\<lparr>buffer := rest\<rparr>)"
proof -
  have len: "unat (of_nat (length body) :: u32) = length body" using assms(1) by (intro unat_of_nat_less) (simp add: MAX_FRAME_SIZE_def)
  show ?thesis using assms len by (simp add: next_frame_def Let_def frame_bytes_def slice_def)
qed

text \<open>The blocking reader of a single control message.\<close>

lemma read_frame_written:
  assumes "json_codec enc dec" "write_control_frame enc v = Inr bytes"
  shows "read_frame_with_limit dec MAX_FRAME_SIZE (bytes @ rest) = (Inr v, rest)"
proof -
  obtain b where b: "enc v = Some b" "write_frame_body FRAME_KIND_CONTROL_JSON b = Inr bytes"
    using assms(2) by (auto simp: write_control_frame_def split: option.splits)
  have "dec b = Some v" using assms(1) b(1) by (simp add: json_codec_def)
  moreover have "unat (of_nat (length (FRAME_KIND_CONTROL_JSON # b)) :: u32) = length (FRAME_KIND_CONTROL_JSON # b)"
    using write_body(2) [OF b(2)] by (intro unat_of_nat_less) (simp add: MAX_FRAME_SIZE_def)
  ultimately show ?thesis
    using write_body [OF b(2)] by (simp add: read_frame_with_limit_def Let_def)
qed

subsection \<open>Streams\<close>

definition extend :: "byte list \<Rightarrow> frame_decoder \<Rightarrow> frame_decoder" where
  "extend bs d = d\<lparr>buffer := buffer d @ bs\<rparr>"

lemma extend_simps [simp]:
  "buffer (extend bs d) = buffer d @ bs" "max_size (extend bs d) = max_size d" "extend [] d = d"
  "extend cs (extend bs d) = extend (bs @ cs) d"
  by (simp_all add: extend_def)

lemma read_extends: "snd (read_from_status (Inr bs) d) = extend bs d"
  by (cases bs) (simp_all add: read_from_status_def extend_def)

lemma next_frame_extend:
  "next_frame dec dec_files d = (r, d') \<Longrightarrow> r \<noteq> Inr None \<Longrightarrow> next_frame dec dec_files (extend bs d) = (r, extend bs d')"
  by (auto simp: next_frame_def Let_def slice_def extend_def split: if_splits)

lemma map_frame_None [simp]: "map_sum (\<lambda>e. e) Some r \<noteq> Inr None"
  by (cases r) simp_all

lemma read_step:
  "read_client_frames dec dec_files d =
     (case next_frame dec dec_files d of
        (Inr (Some f), d') \<Rightarrow> (let (fs, closed, d'') = read_client_frames dec dec_files d' in (f # fs, closed, d''))
      | (Inr None, d') \<Rightarrow> ([], False, d')
      | (Inl _, d') \<Rightarrow> ([], True, d'))"
  by (rule read_client_frames.simps)

lemma read_extend:
  "read_client_frames dec dec_files d = (fs, over, d') \<Longrightarrow>
   read_client_frames dec dec_files (extend bs d) =
     (if over then (fs, True, extend bs d')
      else (let (gs, over', d'') = read_client_frames dec dec_files (extend bs d') in (fs @ gs, over', d''))) \<and>
   (\<not> over \<longrightarrow> read_client_frames dec dec_files d' = ([], False, d'))"
proof (induction dec dec_files d arbitrary: fs rule: read_client_frames.induct)
  case (1 dec dec_files d)
  obtain r d1 where nf: "next_frame dec dec_files d = (r, d1)" by fastforce
  show ?case
  proof (cases r)
    case (Inl e)
    then have "fs = []" "over" "d' = d1" using 1(2) nf by (simp_all add: read_step [of dec dec_files d])
    then show ?thesis using next_frame_extend [OF nf, of bs] Inl by (simp add: read_step [of dec dec_files "extend bs d"])
  next
    case (Inr o')
    show ?thesis
    proof (cases o')
      case None
      have "d1 = d" using nf Inr None by (auto simp: next_frame_def Let_def split: if_splits)
      have "read_client_frames dec dec_files d = ([], False, d)"
        unfolding read_step [of dec dec_files d] nf using Inr None \<open>d1 = d\<close> by simp
      then show ?thesis using 1(2) by auto
    next
      case (Some f)
      obtain gs c d2 where rest: "read_client_frames dec dec_files d1 = (gs, c, d2)" by (metis prod_cases3)
      then have "fs = f # gs" "c = over" "d2 = d'" using 1(2) nf Inr Some by (simp_all add: read_step [of dec dec_files d])
      then show ?thesis
        using 1(1) [OF nf [symmetric] Inr Some] rest next_frame_extend [OF nf, of bs] Inr Some
        by (simp add: read_step [of dec dec_files "extend bs d"] split: prod.split)
    qed
  qed
qed

lemma receive_read:
  assumes "read_client_frames dec dec_files d = ([], False, d)"
  shows "\<exists>fs closed d1 d2. receive dec dec_files chunks d = (fs, closed, d1) \<and>
    read_client_frames dec dec_files (extend (concat chunks) d) = (fs, closed, d2) \<and> (\<not> closed \<longrightarrow> d1 = d2)"
  using assms
proof (induction chunks arbitrary: d)
  case Nil
  then show ?case by auto
next
  case (Cons c chunks)
  obtain fs closed d1 where r: "read_client_frames dec dec_files (extend c d) = (fs, closed, d1)" by (metis prod_cases3)
  note e = read_extend [OF r, of "concat chunks", simplified]
  have start: "receive dec dec_files (c # chunks) d =
      (if closed then (fs, True, d1) else (let (gs, closed, d) = receive dec dec_files chunks d1 in (fs @ gs, closed, d)))"
    using read_extends [of c d] r by (simp add: case_prod_unfold)
  show ?case
  proof (cases closed)
    case True
    then show ?thesis unfolding start using e by auto
  next
    case False
    then obtain gs closed' d2 d3 where "receive dec dec_files chunks d1 = (gs, closed', d2)"
      "read_client_frames dec dec_files (extend (concat chunks) d1) = (gs, closed', d3)" "\<not> closed' \<longrightarrow> d2 = d3"
      using Cons.IH [of d1] e by blast
    then show ?thesis unfolding start using e False by simp
  qed
qed

lemma read_empty: "read_client_frames dec dec_files (new_decoder n) = ([], False, new_decoder n)"
  by (simp add: read_step next_frame_def new_decoder_def)

lemma read_written:
  assumes "json_codec enc dec" "json_codec enc_files dec_files"
  shows "list_all2 (\<lambda>f bs. write_any enc enc_files f = Inr bs) fs bss \<Longrightarrow> list_all readable fs \<Longrightarrow>
    read_client_frames dec dec_files (extend (concat bss) (new_decoder MAX_FRAME_SIZE)) = (fs, False, new_decoder MAX_FRAME_SIZE)"
proof (induction fs bss rule: list_all2_induct)
  case Nil
  then show ?case by (simp add: read_empty)
next
  case (Cons f fs bs bss)
  let ?d = "extend (concat (bs # bss)) (new_decoder MAX_FRAME_SIZE)"
  obtain body where body: "bs = frame_bytes body" "length body \<le> MAX_FRAME_SIZE" "decode_frame dec dec_files body = Inr f"
    using decode_written [OF assms Cons.hyps(1)] Cons.prems by auto
  have "?d\<lparr>buffer := concat bss\<rparr> = extend (concat bss) (new_decoder MAX_FRAME_SIZE)" by (simp add: extend_def new_decoder_def)
  then have frame: "next_frame dec dec_files ?d = (Inr (Some f), extend (concat bss) (new_decoder MAX_FRAME_SIZE))"
    using next_frame_written [OF body(2), of ?d "concat bss" dec dec_files] body(1,3) by (simp add: new_decoder_def)
  show ?case unfolding read_step [of dec dec_files ?d] frame using Cons.IH Cons.prems by simp
qed

subsection \<open>Properties\<close>

text \<open>
  C15: a frame that was written reads back as itself, and the rest of the stream stays in the buffer,
  exactly when it is readable: a graphics class names an image and an incarnation, a media envelope
  has a sequence and one to 64 ordered bindings within its output, at most 4096 acquisitions are
  acknowledged at once, and a presentation rate is between 1 and 1000. Any other frame the writers
  let through is refused as invalid data.
\<close>

theorem frame_roundtrip:
  assumes "json_codec enc dec" "json_codec enc_files dec_files" "write_any enc enc_files f = Inr bytes"
  shows "next_frame dec dec_files \<lparr>buffer = bytes @ rest, max_size = MAX_FRAME_SIZE\<rparr> =
    ((if readable f then Inr (Some f) else Inl InvalidData), \<lparr>buffer = rest, max_size = MAX_FRAME_SIZE\<rparr>)"
proof -
  obtain body where body: "bytes = frame_bytes body" "length body \<le> MAX_FRAME_SIZE"
    "decode_frame dec dec_files body = (if readable f then Inr f else Inl InvalidData)"
    using decode_written [OF assms] by blast
  show ?thesis
    using next_frame_written [OF body(2), of "\<lparr>buffer = bytes @ rest, max_size = MAX_FRAME_SIZE\<rparr>" rest dec dec_files] body(1,3) by simp
qed

text \<open>A codec for the witnesses: two control messages and one list of bindings.\<close>

definition enc_flag :: "bool \<Rightarrow> byte list option" where
  "enc_flag b = Some [if b then 1 else 0]"

definition dec_flag :: "byte list \<Rightarrow> bool option" where
  "dec_flag bs = (if bs = [1] then Some True else if bs = [0] then Some False else None)"

definition one_binding :: immutable_file_binding where
  "one_binding = \<lparr>range_start = 1, range_end = 3, fb_path = ''/tmp/f'', fb_byte_len = 9, fb_format = 32\<rparr>"

definition enc_one :: "immutable_file_binding list \<Rightarrow> byte list option" where
  "enc_one fs = (if fs = [one_binding] then Some [91, 93] else None)"

definition dec_one :: "byte list \<Rightarrow> immutable_file_binding list option" where
  "dec_one bs = (if bs = [91, 93] then Some [one_binding] else None)"

lemma example_codecs: "json_codec enc_flag dec_flag" "json_codec enc_one dec_one"
  by (auto simp: json_codec_def enc_flag_def dec_flag_def enc_one_def dec_one_def)

definition image_frame :: "bool frame" where
  "image_frame = PaneOutput 3 True 5 \<lparr>om_sequence = 1, om_coalesce_epoch = 2, om_class = IndependentGraphics 4 1 0\<rparr>
     (Some \<lparr>acquisition_sequence = 9, files = [one_binding]\<rparr>) [27, 71, 92, 10]"

definition idle_frame :: "bool frame" where
  "idle_frame = PresentationInterest [\<lparr>pi_local = False, pi_pane_id = 3, pi_generation = 5, pi_visible = True, pi_focused = False,
     pi_frames_per_second = 0\<rparr>]"

theorem frame_roundtrip_witness:
  "(\<exists>bytes. write_any enc_flag enc_one image_frame = Inr bytes \<and>
     next_frame dec_flag dec_one \<lparr>buffer = bytes @ [0], max_size = MAX_FRAME_SIZE\<rparr> =
       (Inr (Some image_frame), \<lparr>buffer = [0], max_size = MAX_FRAME_SIZE\<rparr>)) \<and>
   (\<exists>bytes. write_any enc_flag enc_one idle_frame = Inr bytes \<and>
     next_frame dec_flag dec_one \<lparr>buffer = bytes, max_size = MAX_FRAME_SIZE\<rparr> =
       (Inl InvalidData, \<lparr>buffer = [], max_size = MAX_FRAME_SIZE\<rparr>))"
proof
  have sent: "\<not> isl (write_any enc_flag enc_one image_frame)" "\<not> isl (write_any enc_flag enc_one idle_frame)"
    by (simp_all add: image_frame_def idle_frame_def write_pane_output_media_frame_def write_presentation_interest_def write_pane_frame_def
        write_frame_body_def enc_one_def MAX_FRAME_SIZE_def Let_def)
  have image: "readable image_frame" by (simp add: image_frame_def media_ok_def valid_after_def one_binding_def)
  obtain bytes where "write_any enc_flag enc_one image_frame = Inr bytes"
    using sent(1) by (cases "write_any enc_flag enc_one image_frame") auto
  with frame_roundtrip [OF example_codecs this, of "[0]"] image
  show "\<exists>bytes. write_any enc_flag enc_one image_frame = Inr bytes \<and>
      next_frame dec_flag dec_one \<lparr>buffer = bytes @ [0], max_size = MAX_FRAME_SIZE\<rparr> =
        (Inr (Some image_frame), \<lparr>buffer = [0], max_size = MAX_FRAME_SIZE\<rparr>)" by auto
  have idle: "\<not> readable idle_frame" by (simp add: idle_frame_def word_le_nat_alt)
  obtain bytes where "write_any enc_flag enc_one idle_frame = Inr bytes"
    using sent(2) by (cases "write_any enc_flag enc_one idle_frame") auto
  with frame_roundtrip [OF example_codecs this, of "[]"] idle
  show "\<exists>bytes. write_any enc_flag enc_one idle_frame = Inr bytes \<and>
      next_frame dec_flag dec_one \<lparr>buffer = bytes, max_size = MAX_FRAME_SIZE\<rparr> =
        (Inl InvalidData, \<lparr>buffer = [], max_size = MAX_FRAME_SIZE\<rparr>)" by auto
qed

text \<open>
  C14: the frames of a stream arrive in order and unchanged however the transport cuts it into reads;
  and of any bytes, well-formed or not, how they are cut decides neither which frames are received
  nor whether the connection is closed.
\<close>

theorem stream_delivers_frames:
  assumes "json_codec enc dec" "json_codec enc_files dec_files"
    "list_all2 (\<lambda>f bs. write_any enc enc_files f = Inr bs) fs bss" "list_all readable fs" "concat chunks = concat bss"
  shows "receive dec dec_files chunks (new_decoder MAX_FRAME_SIZE) = (fs, False, new_decoder MAX_FRAME_SIZE) \<and>
    (concat reads = concat others \<longrightarrow>
      fst (receive dec dec_files reads (new_decoder MAX_FRAME_SIZE)) = fst (receive dec dec_files others (new_decoder MAX_FRAME_SIZE)) \<and>
      fst (snd (receive dec dec_files reads (new_decoder MAX_FRAME_SIZE))) = fst (snd (receive dec dec_files others (new_decoder MAX_FRAME_SIZE))))"
proof (intro conjI impI)
  note r = receive_read [OF read_empty, of dec dec_files _ MAX_FRAME_SIZE]
  show "receive dec dec_files chunks (new_decoder MAX_FRAME_SIZE) = (fs, False, new_decoder MAX_FRAME_SIZE)"
    using r [of chunks] read_written [OF assms(1-4)] assms(5) by auto
  assume cut: "concat reads = concat others"
  show "fst (receive dec dec_files reads (new_decoder MAX_FRAME_SIZE)) = fst (receive dec dec_files others (new_decoder MAX_FRAME_SIZE))"
    "fst (snd (receive dec dec_files reads (new_decoder MAX_FRAME_SIZE))) = fst (snd (receive dec dec_files others (new_decoder MAX_FRAME_SIZE)))"
    using r [of reads] r [of others] cut by auto
qed

text \<open>A control message and a keystroke, cut in the middle of a length and of a header.\<close>

theorem stream_delivers_frames_witness:
  "receive dec_flag dec_one [[0, 0], [0, 2, 1, 1, 0, 0, 0, 15, 3, 0, 0], [0, 7, 0, 0, 0, 0, 0, 0, 0, 1, 0, 120]] (new_decoder MAX_FRAME_SIZE) =
     ([Control True, PaneBytes True 7 False 1 [120]], False, new_decoder MAX_FRAME_SIZE)"
proof -
  have "write_any enc_flag enc_one (Control True) = Inr [0, 0, 0, 2, 1, 1]"
    "write_any enc_flag enc_one (PaneBytes True 7 False 1 [120] :: bool frame) = Inr [0, 0, 0, 15, 3, 0, 0, 0, 7, 0, 0, 0, 0, 0, 0, 0, 1, 0, 120]"
    by (simp_all add: write_control_frame_def enc_flag_def write_pane_input_with_priority_def write_frame_body_def MAX_FRAME_SIZE_def Let_def
        to_be_bytes_def be_digits_numeral frame_kind_defs input_flags_def u8_from_def)
  then have "list_all2 (\<lambda>f bs. write_any enc_flag enc_one f = Inr bs) [Control True, PaneBytes True 7 False 1 [120]]
      [[0, 0, 0, 2, 1, 1], [0, 0, 0, 15, 3, 0, 0, 0, 7, 0, 0, 0, 0, 0, 0, 0, 1, 0, 120]]" by simp
  from stream_delivers_frames [OF example_codecs this, where chunks = "[[0, 0], [0, 2, 1, 1, 0, 0, 0, 15, 3, 0, 0], [0, 7, 0, 0, 0, 0, 0, 0, 0, 1, 0, 120]]"
      and reads = "[]" and others = "[]"]
  show ?thesis by simp
qed

end
