(* ===== verification/Events.thy ===== *)
theory Events
  imports Machine "HOL-Library.AList"
begin

text \<open>
  The events of a session: the vocabulary of \<^verbatim>\<open>src/session/protocol/events.rs\<close>, the bounded buffer of
  recent events and the watches over titles and bells of \<^verbatim>\<open>src/session/server/events.rs\<close>, and the
  filters and cursors of a subscription (\<^verbatim>\<open>src/session/server/subscriptions.rs\<close>). Times are
  milliseconds of the monotonic clock, strings their UTF-8 bytes, byte counts natural numbers.

  Shown: a subscriber that resumes after a sequence number gets exactly the events recorded since,
  or is told that it cannot; the buffer keeps to its limits; a settled title continues the one
  reported before; bells are spaced.
\<close>

subsection \<open>Events\<close>

datatype event_kind =
    PaneSpawned | PaneExited | PaneStatusChanged | PaneTitleChanged | PaneCwdChanged | AgentStateChanged
  | ForegroundChanged | Bell | SessionNotification | FocusChanged | WorkspaceSwitched | LayoutChanged
  | SessionAttached | SessionDetached | SessionRenamed | SessionCreated | ControllerChange | ClientJoined
  | ClientLeft | ProfileLoaded | ProfileApplied | ProfileSaved | ConfigReloaded

definition all_event_kinds :: "event_kind list" where
  "all_event_kinds =
     [PaneSpawned, PaneExited, PaneStatusChanged, PaneTitleChanged, PaneCwdChanged, AgentStateChanged,
      ForegroundChanged, Bell, SessionNotification, FocusChanged, WorkspaceSwitched, LayoutChanged,
      SessionAttached, SessionDetached, SessionRenamed, SessionCreated, ControllerChange, ClientJoined,
      ClientLeft, ProfileLoaded, ProfileApplied, ProfileSaved, ConfigReloaded]"

fun kind_id :: "event_kind \<Rightarrow> string" where
  "kind_id PaneSpawned = ''pane-spawned''"
| "kind_id PaneExited = ''pane-exited''"
| "kind_id PaneStatusChanged = ''pane-status-changed''"
| "kind_id PaneTitleChanged = ''pane-title-changed''"
| "kind_id PaneCwdChanged = ''pane-cwd-changed''"
| "kind_id AgentStateChanged = ''agent-state-changed''"
| "kind_id ForegroundChanged = ''foreground-changed''"
| "kind_id Bell = ''bell''"
| "kind_id SessionNotification = ''session-notification''"
| "kind_id FocusChanged = ''focus-changed''"
| "kind_id WorkspaceSwitched = ''workspace-switched''"
| "kind_id LayoutChanged = ''layout-changed''"
| "kind_id SessionAttached = ''session-attached''"
| "kind_id SessionDetached = ''session-detached''"
| "kind_id SessionRenamed = ''session-renamed''"
| "kind_id SessionCreated = ''session-created''"
| "kind_id ControllerChange = ''controller-changed''"
| "kind_id ClientJoined = ''client-joined''"
| "kind_id ClientLeft = ''client-left''"
| "kind_id ProfileLoaded = ''profile-loaded''"
| "kind_id ProfileApplied = ''profile-applied''"
| "kind_id ProfileSaved = ''profile-saved''"
| "kind_id ConfigReloaded = ''config-reloaded''"

definition parse_event_kind :: "string \<Rightarrow> event_kind option" where
  "parse_event_kind name = find (\<lambda>kind. kind_id kind = name) all_event_kinds"

definition is_session_owned :: "event_kind \<Rightarrow> bool" where
  "is_session_owned kind \<longleftrightarrow>
     (case kind of
        FocusChanged \<Rightarrow> False | WorkspaceSwitched \<Rightarrow> False | SessionAttached \<Rightarrow> False | SessionDetached \<Rightarrow> False
      | SessionCreated \<Rightarrow> False | ProfileLoaded \<Rightarrow> False | ProfileApplied \<Rightarrow> False | ProfileSaved \<Rightarrow> False
      | ConfigReloaded \<Rightarrow> False | _ \<Rightarrow> True)"

text \<open>A \<^verbatim>\<open>BTreeMap\<close> as a list of its entries: only lookup and the held length matter here.\<close>

type_synonym event_fields = "(string \<times> string) list"

record session_event =
  se_instance :: string
  se_seq :: u64
  se_kind :: event_kind
  se_data :: "(string \<times> string) list"

definition byte_len :: "session_event \<Rightarrow> nat" where
  "byte_len e = length (kind_id (se_kind e)) + length (se_instance e) +
     sum_list (map (\<lambda>(key, text). length key + length text) (se_data e))"

record cursor_expired =
  current_instance :: string
  expired_oldest :: "u64 option"
  expired_latest :: u64

subsection \<open>The buffer\<close>

definition DEFAULT_MAX_EVENTS :: nat where
  "DEFAULT_MAX_EVENTS = 1024"

definition DEFAULT_MAX_BYTES :: nat where
  "DEFAULT_MAX_BYTES = 1024 * 1024"

record event_buffer =
  eb_instance :: string
  events :: "session_event list"
  total_bytes :: nat
  eb_latest :: u64
  max_events :: nat
  max_bytes :: nat

definition with_limits :: "string \<Rightarrow> nat \<Rightarrow> nat \<Rightarrow> event_buffer" where
  "with_limits inst n b = \<lparr>eb_instance = inst, events = [], total_bytes = 0, eb_latest = 0, max_events = n, max_bytes = b\<rparr>"

definition new_event_buffer :: "string \<Rightarrow> event_buffer" where
  "new_event_buffer inst = with_limits inst DEFAULT_MAX_EVENTS DEFAULT_MAX_BYTES"

definition oldest_seq :: "event_buffer \<Rightarrow> u64 option" where
  "oldest_seq b = (case events b of [] \<Rightarrow> None | e # _ \<Rightarrow> Some (se_seq e))"

definition cursor_expired_of :: "event_buffer \<Rightarrow> cursor_expired" where
  "cursor_expired_of b = \<lparr>current_instance = eb_instance b, expired_oldest = oldest_seq b, expired_latest = eb_latest b\<rparr>"

text \<open>The eviction loop, from the front, until the entry fits.\<close>

fun evict :: "nat \<Rightarrow> nat \<Rightarrow> nat \<Rightarrow> session_event list \<Rightarrow> nat \<Rightarrow> session_event list \<times> nat" where
  "evict entry_bytes n b [] held = ([], held)"
| "evict entry_bytes n b (e # es) held =
     (if n \<le> length (e # es) \<or> b < held + entry_bytes
      then evict entry_bytes n b es (held - byte_len e) else (e # es, held))"

definition record_event :: "event_kind \<Rightarrow> event_fields \<Rightarrow> event_buffer \<Rightarrow> session_event \<times> event_buffer" where
  "record_event kind content b =
     (let b = b\<lparr>eb_latest := saturating_add (eb_latest b) 1\<rparr>;
          event = \<lparr>se_instance = eb_instance b, se_seq = eb_latest b, se_kind = kind,
                   se_data = fold (\<lambda>(key, text). AList.update key text) content []\<rparr>;
          entry_bytes = byte_len event
      in if max_events b = 0 \<or> max_bytes b < entry_bytes
         then (event, b\<lparr>events := [], total_bytes := 0\<rparr>)
         else let (kept, held) = evict entry_bytes (max_events b) (max_bytes b) (events b) (total_bytes b)
              in (event, b\<lparr>events := kept @ [event], total_bytes := held + entry_bytes\<rparr>))"

definition events_after :: "string \<Rightarrow> u64 \<Rightarrow> event_buffer \<Rightarrow> cursor_expired + session_event list" where
  "events_after inst seq b =
     (if inst \<noteq> eb_instance b \<or> seq > eb_latest b then Inl (cursor_expired_of b)
      else if seq = eb_latest b then Inr []
      else let next_seq = saturating_add seq 1 in
        case oldest_seq b of
          None \<Rightarrow> Inl (cursor_expired_of b)
        | Some oldest \<Rightarrow>
            if next_seq < oldest then Inl (cursor_expired_of b)
            else Inr (drop (unat (next_seq - oldest)) (events b)))"

subsection \<open>Subscriptions\<close>

record subscriber =
  sub_filter :: "event_kind set option"

definition wants :: "subscriber \<Rightarrow> event_kind \<Rightarrow> bool" where
  "wants s kind \<longleftrightarrow> (case sub_filter s of None \<Rightarrow> True | Some ks \<Rightarrow> kind \<in> ks)"

datatype filter_error = UiEvent string | UnknownEvent string

fun filter_loop :: "string list \<Rightarrow> event_kind set \<Rightarrow> filter_error + event_kind set" where
  "filter_loop [] ks = Inr ks"
| "filter_loop (name # names) ks =
     (case parse_event_kind name of
        Some kind \<Rightarrow> if is_session_owned kind then filter_loop names (insert kind ks) else Inl (UiEvent name)
      | None \<Rightarrow> Inl (UnknownEvent name))"

definition parse_event_filter :: "string list \<Rightarrow> filter_error + subscriber" where
  "parse_event_filter names =
     (if names = [] then Inr \<lparr>sub_filter = None\<rparr>
      else case filter_loop names {} of Inl e \<Rightarrow> Inl e | Inr ks \<Rightarrow> Inr \<lparr>sub_filter = Some ks\<rparr>)"

text \<open>What a subscription opens with: the wanted events after its cursor.\<close>

definition subscription_replay :: "subscriber \<Rightarrow> (string \<times> u64) option \<Rightarrow> event_buffer \<Rightarrow> cursor_expired + session_event list" where
  "subscription_replay s cursor b =
     (case cursor of
        None \<Rightarrow> Inr []
      | Some (inst, seq) \<Rightarrow>
          (case events_after inst seq b of Inl e \<Rightarrow> Inl e | Inr es \<Rightarrow> Inr (filter (\<lambda>e. wants s (se_kind e)) es)))"

subsection \<open>Titles and bells\<close>

definition TITLE_SETTLE :: nat where
  "TITLE_SETTLE = 400"

definition BELL_COALESCE :: nat where
  "BELL_COALESCE = 250"

record title_watch =
  reported :: "string option"
  pending_title :: "(string option \<times> nat) option"

definition observe_title :: "string option \<Rightarrow> nat \<Rightarrow> title_watch \<Rightarrow> title_watch" where
  "observe_title title now w =
     (if title = reported w then w\<lparr>pending_title := None\<rparr>
      else if (case pending_title w of None \<Rightarrow> True | Some (pending, _) \<Rightarrow> pending \<noteq> title)
      then w\<lparr>pending_title := Some (title, now)\<rparr> else w)"

definition settle_now :: "title_watch \<Rightarrow> (string option \<times> string option) option \<times> title_watch" where
  "settle_now w =
     (case pending_title w of
        None \<Rightarrow> (None, w)
      | Some (title, _) \<Rightarrow> (Some (reported w, title), \<lparr>reported = title, pending_title = None\<rparr>))"

definition settle_title :: "nat \<Rightarrow> title_watch \<Rightarrow> (string option \<times> string option) option \<times> title_watch" where
  "settle_title now w =
     (case pending_title w of
        None \<Rightarrow> (None, w)
      | Some (_, since) \<Rightarrow> if now - since < TITLE_SETTLE then (None, w) else settle_now w)"

record event_watch =
  seen_bells :: u64
  last_bell :: "nat option"
  watch_title :: title_watch
  exit_recorded :: bool

definition ring :: "u64 \<Rightarrow> nat \<Rightarrow> event_watch \<Rightarrow> bool \<times> event_watch" where
  "ring bell_count now w =
     (if bell_count \<le> seen_bells w then (False, w)
      else let w = w\<lparr>seen_bells := bell_count\<rparr>;
               rings = (case last_bell w of None \<Rightarrow> True | Some before \<Rightarrow> BELL_COALESCE \<le> now - before)
           in (rings, if rings then w\<lparr>last_bell := Some now\<rparr> else w))"

subsection \<open>What the buffer retains\<close>

fun record_all :: "(event_kind \<times> event_fields) list \<Rightarrow> event_buffer \<Rightarrow> session_event list \<times> event_buffer" where
  "record_all [] b = ([], b)"
| "record_all ((kind, content) # rest) b =
     (let (e, b) = record_event kind content b; (es, b) = record_all rest b in (e # es, b))"

lemma evict_suffix: "\<exists>k \<le> length es. fst (evict x n b es t) = drop k es"
proof (induction es arbitrary: t)
  case (Cons e es)
  obtain k where "k \<le> length es" "fst (evict x n b es (t - byte_len e)) = drop k es" using Cons by blast
  then show ?case by (cases "n \<le> length (e # es) \<or> b < t + x") (auto intro: exI [of _ "Suc k"] exI [of _ 0])
qed simp

lemma evict_total:
  "t = sum_list (map byte_len es) \<Longrightarrow> snd (evict x n b es t) = sum_list (map byte_len (fst (evict x n b es t)))"
  by (induction es arbitrary: t) auto

lemma evict_fits:
  "0 < n \<Longrightarrow> x \<le> b \<Longrightarrow> t = sum_list (map byte_len es) \<Longrightarrow>
   length (fst (evict x n b es t)) < n \<and> snd (evict x n b es t) + x \<le> b"
  by (induction es arbitrary: t) auto

text \<open>The buffer after a history of recorded events.\<close>

definition retains :: "session_event list \<Rightarrow> event_buffer \<Rightarrow> bool" where
  "retains h b \<longleftrightarrow>
     (\<exists>k \<le> length h. events b = drop k h) \<and> map se_seq h = map of_nat [1..<Suc (length h)] \<and>
     eb_latest b = of_nat (length h) \<and> total_bytes b = sum_list (map byte_len (events b)) \<and>
     length (events b) \<le> max_events b \<and> total_bytes b \<le> max_bytes b"

lemma retains_record:
  assumes "retains h b" "Suc (length h) < 2 ^ 64" "record_event kind content b = (e, b')"
  shows "retains (h @ [e]) b' \<and> eb_instance b' = eb_instance b \<and> max_events b' = max_events b \<and> max_bytes b' = max_bytes b"
proof -
  obtain k where k: "k \<le> length h" "events b = drop k h" using assms(1) by (auto simp: retains_def)
  have latest: "saturating_add (eb_latest b) 1 = of_nat (Suc (length h))"
  proof -
    have "unat (eb_latest b) = length h" using assms(1,2) by (simp add: retains_def unat_of_nat_less)
    then have "unat (saturating_add (eb_latest b) 1) = Suc (length h)" using assms(2) by (simp add: unat_saturating_add)
    moreover have "unat (of_nat (Suc (length h)) :: u64) = Suc (length h)" using assms(2) by (intro unat_of_nat_less) simp
    ultimately show ?thesis by (simp only: word_unat_eq_iff)
  qed
  let ?b = "b\<lparr>eb_latest := saturating_add (eb_latest b) 1\<rparr>"
  have e: "se_seq e = of_nat (Suc (length h))"
    using assms(3) latest by (auto simp: record_event_def Let_def split: if_splits prod.splits)
  have seqs: "map se_seq (h @ [e]) = map of_nat [1..<Suc (length (h @ [e]))]"
    using assms(1) e by (simp add: retains_def)
  show ?thesis
  proof (cases "max_events b = 0 \<or> max_bytes b < byte_len e")
    case True
    then have "b' = ?b\<lparr>events := [], total_bytes := 0\<rparr>"
      using assms(3) by (auto simp: record_event_def Let_def split: if_splits prod.splits)
    then show ?thesis using seqs latest by (auto simp: retains_def intro!: exI [of _ "Suc (length h)"])
  next
    case False
    obtain kept held where ev: "evict (byte_len e) (max_events b) (max_bytes b) (events b) (total_bytes b) = (kept, held)" by fastforce
    have b': "b' = ?b\<lparr>events := kept @ [e], total_bytes := held + byte_len e\<rparr>"
      using assms(3) False ev by (auto simp: record_event_def Let_def split: if_splits prod.splits)
    obtain j where j: "j \<le> length (events b)" "kept = drop j (events b)"
      using evict_suffix [of "events b" "byte_len e" "max_events b" "max_bytes b" "total_bytes b"] ev by auto
    have held: "held = sum_list (map byte_len kept)" "length kept < max_events b" "held + byte_len e \<le> max_bytes b"
      using evict_total [of "total_bytes b" "events b" "byte_len e" "max_events b" "max_bytes b"]
        evict_fits [of "max_events b" "byte_len e" "max_bytes b" "total_bytes b" "events b"] ev False assms(1)
      by (auto simp: retains_def)
    have "kept @ [e] = drop (k + j) (h @ [e])" using j k by (simp add: drop_append add.commute)
    then have "\<exists>i \<le> length (h @ [e]). kept @ [e] = drop i (h @ [e])" using j(1) k by (intro exI [of _ "k + j"]) simp
    then show ?thesis using b' held seqs latest by (simp add: retains_def)
  qed
qed

lemma retains_all:
  assumes "record_all fs b = (es, b')" "retains h b" "length h + length fs < 2 ^ 64"
  shows "retains (h @ es) b' \<and> eb_instance b' = eb_instance b \<and> length es = length fs \<and> max_events b' = max_events b \<and> max_bytes b' = max_bytes b"
  using assms
proof (induction fs arbitrary: b h es)
  case (Cons f fs)
  obtain kind content where f: "f = (kind, content)" by fastforce
  obtain e b1 where e: "record_event kind content b = (e, b1)" by fastforce
  obtain rest b2 where r: "record_all fs b1 = (rest, b2)" by fastforce
  have es: "es = e # rest" "b' = b2" using Cons.prems(1) f e r by simp_all
  have "retains (h @ [e]) b1 \<and> eb_instance b1 = eb_instance b \<and> max_events b1 = max_events b \<and> max_bytes b1 = max_bytes b"
    using retains_record [OF Cons.prems(2) _ e] Cons.prems(3) by simp
  then show ?case using Cons.IH [OF r [folded es(2)], of "h @ [e]"] Cons.prems(3) es by simp
qed simp

lemma after_retained:
  assumes "retains h b" "length h < 2 ^ 64"
  shows "events_after inst seq b =
    (if inst = eb_instance b \<and> unat seq \<le> length h \<and> length h - unat seq \<le> length (events b)
     then Inr (drop (unat seq) h) else Inl (cursor_expired_of b))"
proof -
  let ?n = "length h"
  have n: "unat (eb_latest b) = ?n" using assms by (simp add: retains_def unat_of_nat_less)
  obtain k where k: "k \<le> ?n" "events b = drop k h" using assms(1) by (auto simp: retains_def)
  have seq_at: "se_seq (h ! i) = of_nat (Suc i)" if "i < ?n" for i
  proof -
    have "map se_seq h ! i = map of_nat [1..<Suc ?n] ! i" using assms(1) by (simp only: retains_def)
    then show ?thesis using that by (simp del: upt_Suc add: nth_upt)
  qed
  consider "inst \<noteq> eb_instance b \<or> ?n < unat seq" | "inst = eb_instance b" "unat seq = ?n" | "inst = eb_instance b" "unat seq < ?n" by linarith
  then show ?thesis
  proof cases
    case 1
    then show ?thesis using n by (auto simp: events_after_def word_less_nat_alt)
  next
    case 2
    then have "seq = eb_latest b" using n by (simp add: word_unat_eq_iff)
    then show ?thesis using 2 by (simp add: events_after_def)
  next
    case 3
    then have seq: "\<not> eb_latest b < seq" "seq \<noteq> eb_latest b" using n by (auto simp: word_less_nat_alt)
    have step: "unat (saturating_add seq 1) = Suc (unat seq)" using 3(2) assms(2) by (simp add: unat_saturating_add)
    show ?thesis
    proof (cases "k = ?n")
      case True
      then show ?thesis using 3 seq k by (simp add: events_after_def oldest_seq_def)
    next
      case False
      then have less: "k < ?n" using k(1) by simp
      then obtain es where evs: "events b = h ! k # es" using k(2) by (metis Cons_nth_drop_Suc)
      have old: "oldest_seq b = Some (of_nat (Suc k))" using evs seq_at [OF less] by (simp add: oldest_seq_def)
      have uk: "unat (of_nat (Suc k) :: u64) = Suc k" using less assms(2) by (intro unat_of_nat_less) simp
      have "saturating_add seq 1 < of_nat (Suc k) \<longleftrightarrow> unat seq < k" using uk step by (simp add: word_less_nat_alt)
      moreover have "unat (saturating_add seq 1 - of_nat (Suc k)) = unat seq - k" if "\<not> unat seq < k"
      proof -
        have "unat (saturating_add seq 1 - of_nat (Suc k)) = unat (saturating_add seq 1) - unat (of_nat (Suc k) :: u64)"
          using that uk step by (intro unat_minus_le) (simp add: word_le_nat_alt)
        then show ?thesis using uk step by simp
      qed
      ultimately show ?thesis
        using 3 seq old k less by (simp add: events_after_def Let_def) arith
    qed
  qed
qed

text \<open>
  C33: the events a server records are numbered from one without a gap; a subscriber that resumes
  after a number gets exactly the events recorded since, in order, and otherwise is told that its
  cursor has expired: when it names another instance or the future, or when an event since then is no longer retained.
  The retained events are the last ones recorded and keep within the count and byte limits.
\<close>

theorem resume_is_complete:
  assumes "record_all fs (with_limits inst n b) = (es, buf)" "length fs < 2 ^ 64"
  shows "map se_seq es = map of_nat [1..<Suc (length fs)] \<and>
    (\<exists>k. events buf = drop k es) \<and> length (events buf) \<le> n \<and> sum_list (map byte_len (events buf)) \<le> b \<and>
    events_after inst' seq buf =
      (if inst' = inst \<and> unat seq \<le> length fs \<and> length fs - unat seq \<le> length (events buf)
       then Inr (drop (unat seq) es) else Inl (cursor_expired_of buf)) \<and>
    subscription_replay s (Some (inst', seq)) buf =
      map_sum (\<lambda>e. e) (filter (\<lambda>e. wants s (se_kind e))) (events_after inst' seq buf)"
proof -
  have "retains [] (with_limits inst n b)" by (simp add: retains_def with_limits_def)
  from retains_all [OF assms(1) this] have r: "retains es buf" "eb_instance buf = inst" "length es = length fs" "max_events buf = n" "max_bytes buf = b"
    using assms(2) by (simp_all add: with_limits_def)
  moreover have "subscription_replay s (Some (inst', seq)) buf = map_sum (\<lambda>e. e) (filter (\<lambda>e. wants s (se_kind e))) (events_after inst' seq buf)"
    by (simp add: subscription_replay_def split: sum.split)
  ultimately show ?thesis
    using after_retained [OF r(1), of inst' seq] assms(2) unfolding retains_def by auto
qed

text \<open>A buffer of two events after three: the first is gone, and resuming before it is refused.\<close>

theorem resume_is_complete_witness:
  "\<exists>e1 e2 e3 buf. record_all [(Bell, []), (LayoutChanged, []), (Bell, [])] (with_limits ''s1'' 2 100) = ([e1, e2, e3], buf) \<and>
     events_after ''s1'' 1 buf = Inr [e2, e3] \<and> events_after ''s1'' 0 buf = Inl (cursor_expired_of buf)"
proof -
  let ?fs = "[(Bell, []), (LayoutChanged, []), (Bell, [])] :: (event_kind \<times> event_fields) list"
  obtain es buf where run: "record_all ?fs (with_limits ''s1'' 2 100) = (es, buf)" by fastforce
  have two: "length (events buf) = 2" using arg_cong [OF run, of "\<lambda>r. length (events (snd r))"]
    by (simp add: record_event_def with_limits_def byte_len_def Let_def split: prod.splits)
  note r = resume_is_complete [OF run, where seq = 1 and inst' = "''s1''"] resume_is_complete [OF run, where seq = 0 and inst' = "''s1''"]
  have "length es = 3" using arg_cong [OF conjunct1 [OF r(1)], of length] by simp
  then obtain e1 e2 e3 where "es = [e1, e2, e3]" by (auto simp: numeral_eq_Suc length_Suc_conv)
  then show ?thesis using run r two by auto
qed

subsection \<open>Titles and bells over time\<close>

lemma settled_continues:
  "settle_title now w = (Some (previous, current), w') \<Longrightarrow>
   previous = reported w \<and> reported w' = current \<and> pending_title w' = None \<and>
   (\<exists>since. pending_title w = Some (current, since) \<and> TITLE_SETTLE \<le> now - since)"
  by (auto simp: settle_title_def settle_now_def split: option.splits prod.splits if_splits)

lemma bells_spaced:
  "ring n now w = (True, w') \<Longrightarrow> ring n' now' w' = (True, w'') \<Longrightarrow> n < n' \<and> BELL_COALESCE \<le> now' - now"
  by (auto simp: ring_def Let_def split: if_splits option.splits)

end
