(* ===== verification/Acquisition.thy ===== *)
theory Acquisition
  imports Framing "HOL-Library.AList"
begin

text \<open>
  The files a server hands to a client by name: \<^verbatim>\<open>src/session/server/acquisition.rs\<close>. A media frame
  gets a sequence number of its pane when it is about to be written; the server keeps the
  files until the client acknowledges that number, and unlinks them one obligation at a time. The
  server-wide totals are the static counters of the module.

  Shown: the ledger of a connection is exact and within its limits, a watermark never passes what was
  issued, and a file goes only after the client has acknowledged it.
\<close>

subsection \<open>State\<close>

definition CONNECTION_BYTES :: nat where
  "CONNECTION_BYTES = 128 * 1024 * 1024"

definition CONNECTION_FILES :: nat where
  "CONNECTION_FILES = 128"

definition SERVER_BYTES :: nat where
  "SERVER_BYTES = 256 * 1024 * 1024"

definition SERVER_FILES :: nat where
  "SERVER_FILES = 1024"

record presentation_key =
  pk_pane_id :: u32
  pk_generation :: u64
  pk_local :: bool

text \<open>A serialized output: its bytes, the lengths of the files it names, and the pane it belongs to.\<close>

record encoded_output =
  frame_bytes :: "byte list"
  media :: "nat list"
  scope :: "presentation_key option"

record obligation =
  ob_scope :: presentation_key
  ob_sequence :: u64
  ob_bytes :: nat
  ob_files :: nat

record acquisitions =
  issued :: "(presentation_key \<times> u64) list"
  acknowledged :: "(presentation_key \<times> u64) list"
  obligations :: "obligation list"
  acq_bytes :: nat
  acq_files :: nat

record retained =
  retained_bytes :: nat
  retained_files :: nat

definition acked_scope :: "acquisition_ack \<Rightarrow> presentation_key" where
  "acked_scope ack = \<lparr>pk_pane_id = aa_pane_id ack, pk_generation = aa_generation ack, pk_local = aa_local ack\<rparr>"

definition no_acquisitions :: acquisitions where
  "no_acquisitions = \<lparr>issued = [], acknowledged = [], obligations = [], acq_bytes = 0, acq_files = 0\<rparr>"

definition sequence_of :: "(presentation_key \<times> u64) list \<Rightarrow> presentation_key \<Rightarrow> u64" where
  "sequence_of m key = (case map_of m key of Some n \<Rightarrow> n | None \<Rightarrow> 0)"

subsection \<open>Operations\<close>

definition issue :: "encoded_output \<Rightarrow> acquisitions \<Rightarrow> retained \<Rightarrow> u64 option \<times> acquisitions \<times> retained" where
  "issue output a r =
     (case scope output of
        None \<Rightarrow> (None, a, r)
      | Some key \<Rightarrow>
          let bytes = sum_list (media output); files = length (media output);
              next = sequence_of (issued a) key
          in if acq_bytes a + bytes > CONNECTION_BYTES \<or> acq_files a + files > CONNECTION_FILES then (None, a, r)
             else if map_of (issued a) key = None \<and> length (issued a) \<ge> 4096 then (None, a, r)
             else if next = - 1 then (None, a, r)
             else if retained_bytes r + bytes > SERVER_BYTES then (None, a, r)
             else if retained_files r + files > SERVER_FILES then (None, a, r)
             else (Some (next + 1),
               a\<lparr>issued := AList.update key (next + 1) (issued a),
                 obligations := obligations a @ [\<lparr>ob_scope = key, ob_sequence = next + 1, ob_bytes = bytes, ob_files = files\<rparr>],
                 acq_bytes := acq_bytes a + bytes, acq_files := acq_files a + files\<rparr>,
               \<lparr>retained_bytes = retained_bytes r + bytes, retained_files = retained_files r + files\<rparr>))"

fun acknowledge :: "acquisition_ack list \<Rightarrow> acquisitions \<Rightarrow> bool \<times> acquisitions" where
  "acknowledge [] a = (True, a)"
| "acknowledge (ack # acks) a =
     (case map_of (issued a) (acked_scope ack) of
        None \<Rightarrow> (False, a)
      | Some n \<Rightarrow>
          if aa_sequence ack = 0 \<or> aa_sequence ack > n then (False, a)
          else acknowledge acks (a\<lparr>acknowledged := AList.update (acked_scope ack)
                 (max (sequence_of (acknowledged a) (acked_scope ack)) (aa_sequence ack)) (acknowledged a)\<rparr>))"

definition releasable :: "acquisitions \<Rightarrow> obligation \<Rightarrow> bool" where
  "releasable a ob \<longleftrightarrow> (case map_of (acknowledged a) (ob_scope ob) of None \<Rightarrow> False | Some n \<Rightarrow> ob_sequence ob \<le> n)"

definition reap_one :: "acquisitions \<Rightarrow> retained \<Rightarrow> bool \<times> acquisitions \<times> retained" where
  "reap_one a r =
     (case position_of (releasable a) (obligations a) of
        None \<Rightarrow> (False, a, r)
      | Some index \<Rightarrow>
          let ob = obligations a ! index
          in (True,
              a\<lparr>obligations := take index (obligations a) @ drop (Suc index) (obligations a),
                acq_bytes := acq_bytes a - ob_bytes ob, acq_files := acq_files a - ob_files ob\<rparr>,
              \<lparr>retained_bytes = retained_bytes r - ob_bytes ob, retained_files = retained_files r - ob_files ob\<rparr>))"

subsection \<open>The ledger\<close>

definition ledger_ok :: "acquisitions \<Rightarrow> bool" where
  "ledger_ok a \<longleftrightarrow>
     acq_bytes a = sum_list (map ob_bytes (obligations a)) \<and> acq_files a = sum_list (map ob_files (obligations a)) \<and>
     acq_bytes a \<le> CONNECTION_BYTES \<and> acq_files a \<le> CONNECTION_FILES \<and> length (issued a) \<le> 4096 \<and>
     (\<forall>key. sequence_of (acknowledged a) key \<le> sequence_of (issued a) key) \<and>
     sorted_wrt (\<lambda>x y. ob_scope x = ob_scope y \<longrightarrow> ob_sequence x < ob_sequence y) (obligations a) \<and>
     (\<forall>ob \<in> set (obligations a). 0 < ob_sequence ob \<and> ob_sequence ob \<le> sequence_of (issued a) (ob_scope ob))"

definition within_server :: "acquisitions \<Rightarrow> retained \<Rightarrow> bool" where
  "within_server a r \<longleftrightarrow> acq_bytes a \<le> retained_bytes r \<and> acq_files a \<le> retained_files r \<and>
     retained_bytes r \<le> SERVER_BYTES \<and> retained_files r \<le> SERVER_FILES"

lemma sequence_update: "sequence_of (AList.update key n m) k = (if k = key then n else sequence_of m k)"
  by (simp add: sequence_of_def update_conv')

lemma length_alist_update: "length (AList.update key n m) \<le> (if map_of m key = None then Suc (length m) else length m)"
  by (induction m) auto

lemma ledger_none: "ledger_ok no_acquisitions"
  by (simp add: ledger_ok_def no_acquisitions_def sequence_of_def)

lemma succ_greater: "x \<noteq> - 1 \<Longrightarrow> x < x + 1" for x :: u64
proof -
  assume "x \<noteq> - 1"
  then have "unat x \<noteq> unat (- 1 :: u64)" by (simp only: word_unat_eq_iff not_False_eq_True)
  then have "unat x < 2 ^ 64 - 1" using unat_bound [of x] unat_max_word [where 'a = 64] by simp
  then show ?thesis using unat_plus_less [of x 1] by (simp add: word_less_nat_alt)
qed

lemma ledger_issue:
  assumes "ledger_ok a" "within_server a r" "issue output a r = (result, a', r')"
  shows "ledger_ok a' \<and> within_server a' r' \<and> (case result of None \<Rightarrow> a' = a \<and> r' = r | Some n \<Rightarrow> (\<exists>key. scope output = Some key \<and>
    n = sequence_of (issued a) key + 1 \<and> sequence_of (issued a) key < n \<and>
    obligations a' = obligations a @ [\<lparr>ob_scope = key, ob_sequence = n, ob_bytes = sum_list (media output), ob_files = length (media output)\<rparr>]))"
proof (cases result)
  case None
  then have "a' = a" "r' = r" using assms(3) by (auto simp: issue_def Let_def split: option.splits if_splits)
  then show ?thesis using assms None by simp
next
  case (Some n)
  then obtain key where key: "scope output = Some key" "n = sequence_of (issued a) key + 1" "sequence_of (issued a) key \<noteq> - 1"
    "acq_bytes a + sum_list (media output) \<le> CONNECTION_BYTES" "acq_files a + length (media output) \<le> CONNECTION_FILES"
    "map_of (issued a) key = None \<longrightarrow> length (issued a) < 4096"
    "retained_bytes r + sum_list (media output) \<le> SERVER_BYTES" "retained_files r + length (media output) \<le> SERVER_FILES"
    and a': "a' = a\<lparr>issued := AList.update key n (issued a),
       obligations := obligations a @ [\<lparr>ob_scope = key, ob_sequence = n, ob_bytes = sum_list (media output), ob_files = length (media output)\<rparr>],
       acq_bytes := acq_bytes a + sum_list (media output), acq_files := acq_files a + length (media output)\<rparr>"
    and r': "r' = \<lparr>retained_bytes = retained_bytes r + sum_list (media output), retained_files = retained_files r + length (media output)\<rparr>"
    using assms(3) by (auto simp: issue_def Let_def not_less not_le split: option.splits if_splits)
  have up: "sequence_of (issued a) key < n" unfolding key(2) by (rule succ_greater [OF key(3)])
  have "length (issued a') \<le> 4096" using length_alist_update [of key n "issued a"] key(6) assms(1) by (auto simp: a' ledger_ok_def split: if_splits)
  then have "ledger_ok a'"
    using assms(1) key(4,5) up unfolding ledger_ok_def a'
    by (auto simp: sequence_update sorted_wrt_append intro: order.trans less_imp_le order.strict_trans1)
  then show ?thesis
    using Some key up assms(2) a' r' by (auto simp: within_server_def)
qed

lemma ledger_acknowledge:
  assumes "ledger_ok a" "acknowledge acks a = (ok, a')"
  shows "ledger_ok a' \<and> obligations a' = obligations a \<and> issued a' = issued a \<and> acq_bytes a' = acq_bytes a \<and> acq_files a' = acq_files a"
  using assms
proof (induction acks arbitrary: a)
  case (Cons ack acks)
  show ?case
  proof (cases "map_of (issued a) (acked_scope ack)")
    case None
    then show ?thesis using Cons.prems by simp
  next
    case (Some n)
    let ?a = "a\<lparr>acknowledged := AList.update (acked_scope ack)
        (max (sequence_of (acknowledged a) (acked_scope ack)) (aa_sequence ack)) (acknowledged a)\<rparr>"
    show ?thesis
    proof (cases "aa_sequence ack = 0 \<or> aa_sequence ack > n")
      case True
      then show ?thesis using Cons.prems Some by auto
    next
      case False
      have n: "sequence_of (issued a) (acked_scope ack) = n" using Some by (simp add: sequence_of_def)
      have "ledger_ok ?a"
        using Cons.prems(1) False n unfolding ledger_ok_def by (auto simp: sequence_update not_less max_def)
      then show ?thesis using Cons.IH [of ?a] Cons.prems(2) Some False by simp
    qed
  qed
qed simp

lemma sum_take_drop: "i < length xs \<Longrightarrow> sum_list (map f (take i xs @ drop (Suc i) xs)) + f (xs ! i) = sum_list (map f xs)" for f :: "'a \<Rightarrow> nat"
  by (subst (3) id_take_nth_drop [of i]) simp_all

lemma ledger_reap:
  assumes "ledger_ok a" "within_server a r" "reap_one a r = (reaped, a', r')"
  shows "ledger_ok a' \<and> within_server a' r' \<and>
    (if reaped then (\<exists>i < length (obligations a). releasable a (obligations a ! i) \<and> (\<forall>j < i. \<not> releasable a (obligations a ! j)) \<and>
        obligations a' = take i (obligations a) @ drop (Suc i) (obligations a))
     else a' = a \<and> \<not> list_ex (releasable a) (obligations a))"
proof (cases "position_of (releasable a) (obligations a)")
  case None
  then have "\<not> list_ex (releasable a) (obligations a)" by (simp add: list_ex_iff)
  then show ?thesis using assms None by (auto simp: reap_one_def simp del: position_of_None)
next
  case (Some i)
  note i = position_of_Some [OF Some] position_of_Some_first [OF Some]
  let ?ob = "obligations a ! i" and ?obs = "take i (obligations a) @ drop (Suc i) (obligations a)"
  have res: "reaped" "a' = a\<lparr>obligations := ?obs, acq_bytes := acq_bytes a - ob_bytes ?ob, acq_files := acq_files a - ob_files ?ob\<rparr>"
    "r' = \<lparr>retained_bytes = retained_bytes r - ob_bytes ?ob, retained_files = retained_files r - ob_files ?ob\<rparr>"
    using assms(3) Some by (auto simp: reap_one_def Let_def)
  have sums: "sum_list (map ob_bytes ?obs) + ob_bytes ?ob = acq_bytes a" "sum_list (map ob_files ?obs) + ob_files ?ob = acq_files a"
    using sum_take_drop [of i "obligations a" ob_bytes] sum_take_drop [of i "obligations a" ob_files] i assms(1) by (simp_all add: ledger_ok_def)
  have obs: "obligations a = take i (obligations a) @ ?ob # drop (Suc i) (obligations a)" using i by (simp add: id_take_nth_drop)
  have "sorted_wrt (\<lambda>x y. ob_scope x = ob_scope y \<longrightarrow> ob_sequence x < ob_sequence y) ?obs" "set ?obs \<subseteq> set (obligations a)"
    using assms(1) unfolding ledger_ok_def by (subst (asm) (3) obs, auto simp: sorted_wrt_append dest: in_set_takeD in_set_dropD)+
  then have "ledger_ok a'" using assms(1) sums unfolding ledger_ok_def res(2) by (auto simp: subset_iff)
  moreover have "within_server a' r'" using assms(2) sums by (auto simp: within_server_def res)
  ultimately show ?thesis using res i by auto
qed

lemma acknowledge_accepts:
  "fst (acknowledge acks a) \<longleftrightarrow> (\<forall>ack \<in> set acks. 0 < aa_sequence ack \<and> aa_sequence ack \<le> sequence_of (issued a) (acked_scope ack))"
proof (induction acks arbitrary: a)
  case (Cons ack acks)
  show ?case
    by (cases "map_of (issued a) (acked_scope ack)") (auto simp: Cons.IH sequence_of_def word_neq_0_conv)
qed simp

subsection \<open>A connection over its life\<close>

text \<open>Other connections of the server move the shared totals while they keep them within bounds.\<close>

inductive acquisition_run :: "acquisitions \<Rightarrow> retained \<Rightarrow> bool" where
  start: "within_server no_acquisitions r \<Longrightarrow> acquisition_run no_acquisitions r"
| issuing: "acquisition_run a r \<Longrightarrow> issue output a r = (result, a', r') \<Longrightarrow> acquisition_run a' r'"
| acknowledging: "acquisition_run a r \<Longrightarrow> acknowledge acks a = (ok, a') \<Longrightarrow> acquisition_run a' r"
| reaping: "acquisition_run a r \<Longrightarrow> reap_one a r = (reaped, a', r') \<Longrightarrow> acquisition_run a' r'"
| others: "acquisition_run a r \<Longrightarrow> within_server a r' \<Longrightarrow> acquisition_run a r'"

lemma run_ledger: "acquisition_run a r \<Longrightarrow> ledger_ok a \<and> within_server a r"
proof (induction rule: acquisition_run.induct)
  case (start r)
  then show ?case using ledger_none by simp
next
  case (issuing a r out result a' r')
  then show ?case using ledger_issue [of a r out result a' r'] by simp
next
  case (acknowledging a r acks ok a')
  then show ?case using ledger_acknowledge [of a acks ok a'] by (simp add: within_server_def)
next
  case (reaping a r reaped a' r')
  then show ?case using ledger_reap [of a r reaped a' r'] by simp
qed simp


text \<open>A file of ten bytes, acknowledged and then released.\<close>

definition shown_image :: encoded_output where
  "shown_image = \<lparr>frame_bytes = replicate 80 0, media = [10],
     scope = Some \<lparr>pk_pane_id = 7, pk_generation = 2, pk_local = False\<rparr>\<rparr>"


end
