(* ===== verification/Outbox.thy ===== *)
theory Outbox
  imports ByteQueue Acquisition
begin

text \<open>
  What a session server has queued for one client: the output side of \<^verbatim>\<open>ClientConn\<close> in
  \<^verbatim>\<open>src/session/server/mod.rs\<close>, with the writes of \<^verbatim>\<open>flush_client_outbox\<close> (\<^verbatim>\<open>lease.rs\<close>) and the media budget
  of \<^verbatim>\<open>acquisition.rs\<close>. Frames wait in the outbox; while a replay barrier is up (\<^verbatim>\<open>AttachSeedState\<close>), what
  must come after the replay waits in its catch-up queue. A client that falls behind is not
  disconnected: the pane with the most queued output is shed and replayed later.

  Byte counts and lengths are natural numbers, counters and queue positions \<^verbatim>\<open>u64\<close>. The socket is the
  list of bytes it has accepted; a write takes as many bytes as the outcome given for it says.

  Shown: the byte counters are exact and capped, the replacement indexes point where they should,
  shedding ends, and the bytes on the wire are whole frames.
\<close>

subsection \<open>Data\<close>

datatype pane_seed_key = PaneSeedKey (seed_pane_id: u32) (seed_generation: u64)

instantiation pane_seed_key :: linorder
begin

definition less_eq_pane_seed_key :: "pane_seed_key \<Rightarrow> pane_seed_key \<Rightarrow> bool" where
  "less_eq_pane_seed_key a b \<longleftrightarrow> seed_pane_id a < seed_pane_id b \<or>
     seed_pane_id a = seed_pane_id b \<and> seed_generation a \<le> seed_generation b"

definition less_pane_seed_key :: "pane_seed_key \<Rightarrow> pane_seed_key \<Rightarrow> bool" where
  "less_pane_seed_key a b \<longleftrightarrow> a \<le> b \<and> a \<noteq> b"

instance
proof
  fix a b c :: pane_seed_key
  have antisym: "a = b" if "a \<le> b" "b \<le> a" for a b :: pane_seed_key
    using that unfolding less_eq_pane_seed_key_def by (metis order.asym order.antisym pane_seed_key.expand order.irrefl)
  show "(a < b) = (a \<le> b \<and> \<not> b \<le> a)"
    using antisym [of a b] by (auto simp: less_pane_seed_key_def)
  show "a \<le> a" by (simp add: less_eq_pane_seed_key_def)
  show "a \<le> b \<Longrightarrow> b \<le> c \<Longrightarrow> a \<le> c"
    unfolding less_eq_pane_seed_key_def by (elim disjE conjE) (auto intro: order.strict_trans order.trans)
  show "a \<le> b \<Longrightarrow> b \<le> a \<Longrightarrow> a = b" by (rule antisym)
  show "a \<le> b \<or> b \<le> a"
    unfolding less_eq_pane_seed_key_def by (metis linear neq_iff)
qed

end

datatype pane_seed_state = Pending | Replaying | CatchingUp | Live

datatype outbox_class = Normal | SeedReplay | SeedCatchUp

datatype client_frame_result = Queued | Buffered | Ignored | Overflow

datatype seed_delta = Control | PaneOutput pane_seed_key | PaneResize pane_seed_key

fun delta_pane :: "seed_delta \<Rightarrow> pane_seed_key option" where
  "delta_pane Control = None"
| "delta_pane (PaneOutput key) = Some key"
| "delta_pane (PaneResize key) = Some key"

fun output_pane :: "seed_delta \<Rightarrow> pane_seed_key option" where
  "output_pane (PaneOutput key) = Some key"
| "output_pane Control = None"
| "output_pane (PaneResize key) = None"

datatype seed_kind = Attach | Resync

record outbox_frame =
  of_replacement :: "replacement_key option"
  of_bytes :: encoded_output
  of_class :: outbox_class
  of_pane :: "pane_seed_key option"

record catch_up_frame =
  cf_replacement :: "replacement_key option"
  cf_bytes :: encoded_output
  cf_delta :: seed_delta

text \<open>The spool of a replay is what reading it still yields: a spool shorter than \<open>rp_remaining\<close> is one whose reading fails.\<close>

record pane_seed_replay =
  rp_key :: pane_seed_key
  reset_frame :: "encoded_output option"
  spool :: "byte list"
  rp_remaining :: nat

record attach_seed_state =
  seed_kind_of :: seed_kind
  manifest :: "pane_seed_key \<rightharpoonup> pane_seed_state"
  pending_panes :: "pane_seed_key list"
  pending_program_status :: "pane_seed_key list"
  program_status_frame :: "encoded_output option"
  pane_replay :: "pane_seed_replay option"
  catch_up :: "catch_up_frame list"
  catch_up_base :: u64
  catch_up_replacements :: "replacement_key \<rightharpoonup> u64"
  catch_up_bytes :: nat
  baseline_queued :: bool
  outdated :: "pane_seed_key set"
  disconnect_reason :: "string option"

record client_output =
  outbox :: "outbox_frame list"
  outbox_base :: u64
  outbox_replacements :: "replacement_key \<rightharpoonup> u64"
  out_coalesced_frames :: u64
  out_coalesced_bytes :: u64
  outbox_bytes :: nat
  seed_queued_bytes :: nat
  seed_catch_up_queued_bytes :: nat
  front_offset :: nat
  conn_attached :: bool
  transport_closed :: bool
  shares_filesystem :: bool
  seed :: "attach_seed_state option"
  resync_pending :: "pane_seed_key set"
  shed_bytes :: u64
  requeued_panes :: u64
  acqs :: acquisitions
  stream :: "byte list"

definition new_client_output :: client_output where
  "new_client_output =
     \<lparr>outbox = [], outbox_base = 0, outbox_replacements = Map.empty, out_coalesced_frames = 0,
      out_coalesced_bytes = 0, outbox_bytes = 0, seed_queued_bytes = 0, seed_catch_up_queued_bytes = 0,
      front_offset = 0, conn_attached = False, transport_closed = False, shares_filesystem = False,
      seed = None, resync_pending = {}, shed_bytes = 0, requeued_panes = 0, acqs = no_acquisitions, stream = []\<rparr>"

definition frame_length :: "encoded_output \<Rightarrow> nat" where
  "frame_length output = length (frame_bytes output)"

definition SEED_CATCH_UP_LIMIT :: nat where
  "SEED_CATCH_UP_LIMIT = 8 * 1024 * 1024"

subsection \<open>The replay barrier\<close>

definition new_seed :: "pane_seed_key list \<Rightarrow> attach_seed_state" where
  "new_seed panes =
     (let panes = sort panes
      in \<lparr>seed_kind_of = Attach, manifest = (\<lambda>key. if key \<in> set panes then Some Pending else None),
          pending_panes = panes, pending_program_status = [], program_status_frame = None, pane_replay = None,
          catch_up = [], catch_up_base = 0, catch_up_replacements = Map.empty, catch_up_bytes = 0,
          baseline_queued = False, outdated = {}, disconnect_reason = None\<rparr>)"

definition resync_seed :: "pane_seed_key list \<Rightarrow> pane_seed_key list \<Rightarrow> attach_seed_state" where
  "resync_seed live stale =
     (let s = new_seed stale
      in s\<lparr>seed_kind_of := Resync,
           manifest := fold (\<lambda>key m. if m key = None then m(key \<mapsto> CatchingUp) else m) live (manifest s)\<rparr>)"

definition output_precedes_snapshot :: "attach_seed_state \<Rightarrow> pane_seed_key \<Rightarrow> bool" where
  "output_precedes_snapshot s key \<longleftrightarrow> manifest s key = Some Pending"

definition replay_barrier_up :: "client_output \<Rightarrow> bool" where
  "replay_barrier_up c \<longleftrightarrow> (case seed c of None \<Rightarrow> False | Some s \<Rightarrow> \<not> baseline_queued s)"

definition pane_is_sheddable :: "client_output \<Rightarrow> pane_seed_key \<Rightarrow> bool" where
  "pane_is_sheddable c key \<longleftrightarrow>
     (case seed c of Some s \<Rightarrow> if \<not> baseline_queued s then manifest s key \<noteq> None else True | None \<Rightarrow> True)"

subsection \<open>The outbox\<close>

definition front_started :: "client_output \<Rightarrow> bool" where
  "front_started c \<longleftrightarrow> front_offset c > 0 \<or>
     (case outbox c of [] \<Rightarrow> False | f # _ \<Rightarrow> scope (of_bytes f) \<noteq> None \<and> media (of_bytes f) = [])"

text \<open>\<^verbatim>\<open>replacements.get(key)\<close>, as an index of the queue that starts at position \<open>start\<close>.\<close>

definition queue_index :: "(replacement_key \<rightharpoonup> u64) \<Rightarrow> u64 \<Rightarrow> replacement_key option \<Rightarrow> nat option" where
  "queue_index m start key =
     (case key of
        None \<Rightarrow> None
      | Some key \<Rightarrow> (case m key of None \<Rightarrow> None | Some position \<Rightarrow> map_option unat (checked_sub position start)))"

text \<open>Adding to the counter of a class.\<close>

definition queue_class :: "outbox_class \<Rightarrow> nat \<Rightarrow> client_output \<Rightarrow> client_output" where
  "queue_class class n c =
     (case class of
        Normal \<Rightarrow> c
      | SeedReplay \<Rightarrow> c\<lparr>seed_queued_bytes := seed_queued_bytes c + n\<rparr>
      | SeedCatchUp \<Rightarrow> c\<lparr>seed_catch_up_queued_bytes := seed_catch_up_queued_bytes c + n\<rparr>)"

definition unqueue_class :: "outbox_class \<Rightarrow> nat \<Rightarrow> client_output \<Rightarrow> client_output" where
  "unqueue_class class n c =
     (case class of
        Normal \<Rightarrow> c
      | SeedReplay \<Rightarrow> c\<lparr>seed_queued_bytes := seed_queued_bytes c - n\<rparr>
      | SeedCatchUp \<Rightarrow> c\<lparr>seed_catch_up_queued_bytes := seed_catch_up_queued_bytes c - n\<rparr>)"

definition replace_outbox :: "encoded_output \<Rightarrow> replacement_key option \<Rightarrow> nat \<Rightarrow> client_output \<Rightarrow> bool \<times> client_output" where
  "replace_outbox bytes key cap c =
     (case queue_index (outbox_replacements c) (outbox_base c) key of
        None \<Rightarrow> (False, c)
      | Some index \<Rightarrow>
          if index = 0 \<and> front_started c then (False, c)
          else
            let frame = outbox c ! index; previous = frame_length (of_bytes frame); n = frame_length bytes
            in if outbox_bytes c - previous + n > cap then (False, c)
               else (True, (queue_class (of_class frame) n (unqueue_class (of_class frame) previous c))
                 \<lparr>outbox := (outbox c)[index := frame\<lparr>of_bytes := bytes\<rparr>],
                  outbox_bytes := outbox_bytes c - previous + n,
                  out_coalesced_frames := out_coalesced_frames c + 1,
                  out_coalesced_bytes := out_coalesced_bytes c + of_nat previous\<rparr>))"

definition index_outbox_back :: "replacement_key option \<Rightarrow> client_output \<Rightarrow> client_output" where
  "index_outbox_back key c =
     (case key of
        None \<Rightarrow> c
      | Some k \<Rightarrow> c\<lparr>outbox_replacements := (outbox_replacements c)(k \<mapsto> outbox_base c + of_nat (length (outbox c)) - 1),
           outbox := (if outbox c = [] then [] else butlast (outbox c) @ [(last (outbox c))\<lparr>of_replacement := Some k\<rparr>])\<rparr>)"

definition pop_outbox_front :: "client_output \<Rightarrow> client_output" where
  "pop_outbox_front c =
     (case outbox c of
        [] \<Rightarrow> c
      | frame # rest \<Rightarrow>
          c\<lparr>outbox := rest,
            outbox_replacements :=
              (case of_replacement frame of
                 Some key \<Rightarrow> if outbox_replacements c key = Some (outbox_base c) then (outbox_replacements c)(key := None)
                             else outbox_replacements c
               | None \<Rightarrow> outbox_replacements c),
            outbox_base := outbox_base c + 1\<rparr>)"

text \<open>The loop \<^verbatim>\<open>for (index, frame) in queue.iter().enumerate()\<close> that indexes a queue anew.\<close>

fun index_keys :: "u64 \<Rightarrow> replacement_key option list \<Rightarrow> (replacement_key \<rightharpoonup> u64) \<Rightarrow> (replacement_key \<rightharpoonup> u64)" where
  "index_keys position [] m = m"
| "index_keys position (key # keys) m =
     index_keys (position + 1) keys (case key of None \<Rightarrow> m | Some k \<Rightarrow> m(k \<mapsto> position))"

definition rebuild_outbox_replacements :: "client_output \<Rightarrow> client_output" where
  "rebuild_outbox_replacements c =
     c\<lparr>outbox_replacements := index_keys (outbox_base c) (map of_replacement (outbox c)) Map.empty\<rparr>"

definition try_push_class ::
  "encoded_output \<Rightarrow> nat \<Rightarrow> outbox_class \<Rightarrow> pane_seed_key option \<Rightarrow> client_output \<Rightarrow> bool \<times> client_output" where
  "try_push_class bytes cap class pane c =
     (if transport_closed c then (True, c)
      else if outbox_bytes c + frame_length bytes > cap then (False, c)
      else
        let c = queue_class class (frame_length bytes) (c\<lparr>outbox_bytes := outbox_bytes c + frame_length bytes\<rparr>)
        in (True, c\<lparr>outbox := outbox c @ [\<lparr>of_replacement = None, of_bytes = bytes, of_class = class, of_pane = pane\<rparr>]\<rparr>))"

subsection \<open>Shedding\<close>

definition sheddable_outbox :: "client_output \<Rightarrow> outbox_frame list" where
  "sheddable_outbox c = drop (if front_started c then 1 else 0) (outbox c)"

text \<open>The map of totals per pane, as an association list.\<close>

definition add_total :: "pane_seed_key \<Rightarrow> nat \<Rightarrow> (pane_seed_key \<times> nat) list \<Rightarrow> (pane_seed_key \<times> nat) list" where
  "add_total key n totals = AList.update key ((case map_of totals key of Some m \<Rightarrow> m | None \<Rightarrow> 0) + n) totals"

text \<open>\<^verbatim>\<open>max_by_key(|(key, bytes)| (bytes, Reverse(key)))\<close>: the most bytes, and of equals the smallest key.\<close>

fun max_total :: "(pane_seed_key \<times> nat) list \<Rightarrow> (pane_seed_key \<times> nat) option" where
  "max_total [] = None"
| "max_total ((key, n) # totals) =
     (case max_total totals of
        None \<Rightarrow> Some (key, n)
      | Some (key', n') \<Rightarrow> Some (if n' < n \<or> n' = n \<and> key \<le> key' then (key, n) else (key', n')))"

definition largest_sheddable :: "(pane_seed_key \<times> nat) list \<Rightarrow> client_output \<Rightarrow> pane_seed_key option" where
  "largest_sheddable totals c =
     map_option fst (max_total (filter (\<lambda>(key, n). n > 0 \<and> pane_is_sheddable c key) totals))"

definition largest_outbox_pane :: "client_output \<Rightarrow> pane_seed_key option" where
  "largest_outbox_pane c =
     (let keep_replay = replay_barrier_up c;
          totals = fold (\<lambda>frame totals.
            (case of_pane frame of
               Some key \<Rightarrow> if \<not> (keep_replay \<and> of_class frame = SeedReplay)
                           then add_total key (frame_length (of_bytes frame)) totals else totals
             | None \<Rightarrow> totals)) (sheddable_outbox c) []
      in largest_sheddable totals c)"

definition largest_catch_up_pane :: "client_output \<Rightarrow> pane_seed_key option" where
  "largest_catch_up_pane c =
     (case seed c of
        None \<Rightarrow> None
      | Some s \<Rightarrow>
          (let totals = fold (\<lambda>frame totals.
                 (case delta_pane (cf_delta frame) of
                    Some key \<Rightarrow> add_total key (frame_length (cf_bytes frame)) totals
                  | None \<Rightarrow> totals)) (catch_up s) [];
               totals = fold (\<lambda>frame totals.
                 if of_class frame = SeedCatchUp
                 then (case of_pane frame of
                         Some key \<Rightarrow> add_total key (frame_length (of_bytes frame)) totals
                       | None \<Rightarrow> totals)
                 else totals) (sheddable_outbox c) totals
           in largest_sheddable totals c))"

definition bytes_of_frames :: "outbox_frame list \<Rightarrow> nat" where
  "bytes_of_frames frames = sum_list (map (\<lambda>f. frame_length (of_bytes f)) frames)"

definition purge_outbox_pane :: "pane_seed_key \<Rightarrow> client_output \<Rightarrow> nat \<times> client_output" where
  "purge_outbox_pane key c =
     (let keep_replay = replay_barrier_up c;
          pinned = (if front_started c then take 1 (outbox c) else []);
          drops = (\<lambda>f. of_pane f = Some key \<and> \<not> (keep_replay \<and> of_class f = SeedReplay));
          dropped = filter drops (sheddable_outbox c);
          freed = bytes_of_frames dropped;
          seed_freed = bytes_of_frames (filter (\<lambda>f. of_class f = SeedReplay) dropped);
          catch_up_freed = bytes_of_frames (filter (\<lambda>f. of_class f = SeedCatchUp) dropped);
          c = rebuild_outbox_replacements (c\<lparr>outbox := pinned @ filter (\<lambda>f. \<not> drops f) (sheddable_outbox c)\<rparr>)
      in (freed, c\<lparr>outbox_bytes := outbox_bytes c - freed, seed_queued_bytes := seed_queued_bytes c - seed_freed,
            seed_catch_up_queued_bytes := seed_catch_up_queued_bytes c - catch_up_freed\<rparr>))"

definition shed_pane :: "pane_seed_key \<Rightarrow> client_output \<Rightarrow> client_output" where
  "shed_pane key c =
     (let (freed, c) = purge_outbox_pane key c;
          c = c\<lparr>shed_bytes := shed_bytes c + of_nat freed\<rparr>
      in if \<not> replay_barrier_up c then c\<lparr>resync_pending := insert key (resync_pending c)\<rparr>
         else (case seed c of
           None \<Rightarrow> c
         | Some s \<Rightarrow>
             let sheds = (\<lambda>f. delta_pane (cf_delta f) = Some key);
                 freed_catch_up = sum_list (map (\<lambda>f. frame_length (cf_bytes f)) (filter sheds (catch_up s)));
                 kept = filter (\<lambda>f. \<not> sheds f) (catch_up s);
                 newly = manifest s key \<noteq> Some Pending \<and> key \<notin> outdated s
             in c\<lparr>seed := Some (s\<lparr>catch_up := kept,
                    catch_up_replacements := index_keys (catch_up_base s) (map cf_replacement kept) Map.empty,
                    catch_up_bytes := catch_up_bytes s - freed_catch_up,
                    outdated := (if newly then insert key (outdated s) else outdated s)\<rparr>),
                  requeued_panes := (if newly then requeued_panes c + 1 else requeued_panes c),
                  shed_bytes := shed_bytes c + of_nat freed_catch_up\<rparr>))"

subsection \<open>Totals\<close>

lemma add_total_keys: "fst ` set (add_total key n totals) = insert key (fst ` set totals)"
  by (simp add: add_total_def dom_update)

lemma max_total_mem: "max_total totals = Some x \<Longrightarrow> x \<in> set totals"
  by (induction totals arbitrary: x) (auto split: option.splits if_splits)

lemma largest_sheddable_mem:
  "largest_sheddable totals c = Some key \<Longrightarrow> (\<exists>n > 0. (key, n) \<in> set totals) \<and> pane_is_sheddable c key"
  by (auto simp: largest_sheddable_def dest!: max_total_mem)

lemma fold_total_keys:
  "fst ` set (fold (\<lambda>f t. case g f of Some (key, n) \<Rightarrow> add_total key n t | None \<Rightarrow> t) fs totals) =
     fst ` set totals \<union> {key. \<exists>f \<in> set fs. \<exists>n. g f = Some (key, n)}"
  by (induction fs arbitrary: totals) (auto simp: add_total_keys split: option.split)

definition outbox_total :: "bool \<Rightarrow> outbox_frame \<Rightarrow> (pane_seed_key \<times> nat) option" where
  "outbox_total keep_replay f =
     (case of_pane f of
        Some key \<Rightarrow> if \<not> (keep_replay \<and> of_class f = SeedReplay) then Some (key, frame_length (of_bytes f)) else None
      | None \<Rightarrow> None)"

definition catch_up_total :: "catch_up_frame \<Rightarrow> (pane_seed_key \<times> nat) option" where
  "catch_up_total f = (case delta_pane (cf_delta f) of Some key \<Rightarrow> Some (key, frame_length (cf_bytes f)) | None \<Rightarrow> None)"

definition caught_total :: "outbox_frame \<Rightarrow> (pane_seed_key \<times> nat) option" where
  "caught_total f =
     (if of_class f = SeedCatchUp
      then (case of_pane f of Some key \<Rightarrow> Some (key, frame_length (of_bytes f)) | None \<Rightarrow> None) else None)"

lemma largest_outbox_pane_fold:
  "largest_outbox_pane c = largest_sheddable
     (fold (\<lambda>f t. case outbox_total (replay_barrier_up c) f of Some (key, n) \<Rightarrow> add_total key n t | None \<Rightarrow> t) (sheddable_outbox c) []) c"
  unfolding largest_outbox_pane_def Let_def outbox_total_def
  by (intro arg_cong [of _ _ "\<lambda>f. largest_sheddable (fold f _ _) _"]) (auto simp: fun_eq_iff split: option.split)

lemma largest_outbox_pane_frame:
  assumes "largest_outbox_pane c = Some key"
  shows "\<exists>f \<in> set (sheddable_outbox c). of_pane f = Some key \<and> \<not> (replay_barrier_up c \<and> of_class f = SeedReplay)"
proof -
  have "key \<in> fst ` set (fold (\<lambda>f t. case outbox_total (replay_barrier_up c) f of Some (key, n) \<Rightarrow> add_total key n t | None \<Rightarrow> t) (sheddable_outbox c) [])"
    using largest_sheddable_mem [OF assms [unfolded largest_outbox_pane_fold]] by force
  then show ?thesis unfolding fold_total_keys by (auto simp: outbox_total_def split: option.splits if_splits)
qed

lemma largest_catch_up_pane_frame:
  assumes "largest_catch_up_pane c = Some key"
  obtains s where "seed c = Some s"
    "(\<exists>f \<in> set (catch_up s). delta_pane (cf_delta f) = Some key) \<or>
     (\<exists>f \<in> set (sheddable_outbox c). of_class f = SeedCatchUp \<and> of_pane f = Some key)"
proof -
  obtain s where s: "seed c = Some s" using assms by (auto simp: largest_catch_up_pane_def split: option.splits)
  let ?t1 = "fold (\<lambda>f t. case catch_up_total f of Some (key, n) \<Rightarrow> add_total key n t | None \<Rightarrow> t) (catch_up s) []"
  let ?t2 = "fold (\<lambda>f t. case caught_total f of Some (key, n) \<Rightarrow> add_total key n t | None \<Rightarrow> t) (sheddable_outbox c) ?t1"
  have one: "(\<lambda>frame totals. case delta_pane (cf_delta frame) of Some key \<Rightarrow> add_total key (frame_length (cf_bytes frame)) totals | None \<Rightarrow> totals)
      = (\<lambda>f t. case catch_up_total f of Some (key, n) \<Rightarrow> add_total key n t | None \<Rightarrow> t)"
    by (auto simp: fun_eq_iff catch_up_total_def split: option.split)
  have two: "(\<lambda>frame totals. if of_class frame = SeedCatchUp
        then (case of_pane frame of Some key \<Rightarrow> add_total key (frame_length (of_bytes frame)) totals | None \<Rightarrow> totals) else totals)
      = (\<lambda>f t. case caught_total f of Some (key, n) \<Rightarrow> add_total key n t | None \<Rightarrow> t)"
    by (auto simp: fun_eq_iff caught_total_def split: option.split)
  have "largest_sheddable ?t2 c = Some key"
    using assms unfolding largest_catch_up_pane_def s Let_def one two by simp
  from largest_sheddable_mem [OF this] have "key \<in> fst ` set ?t2" by force
  then show ?thesis using that [OF s] unfolding fold_total_keys
    by (auto simp: catch_up_total_def caught_total_def split: option.splits if_splits)
qed

lemma sheddable_of_largest:
  "largest_outbox_pane c = Some key \<Longrightarrow> pane_is_sheddable c key"
  "largest_catch_up_pane c = Some key \<Longrightarrow> pane_is_sheddable c key"
  by (auto simp: largest_outbox_pane_def largest_catch_up_pane_def Let_def dest!: largest_sheddable_mem split: option.splits)

subsection \<open>Shedding frees something\<close>

lemma queue_class_fields [simp]:
  "outbox (queue_class cl n c) = outbox c" "outbox (unqueue_class cl n c) = outbox c"
  "outbox_base (queue_class cl n c) = outbox_base c" "outbox_base (unqueue_class cl n c) = outbox_base c"
  "outbox_replacements (queue_class cl n c) = outbox_replacements c" "outbox_replacements (unqueue_class cl n c) = outbox_replacements c"
  "outbox_bytes (queue_class cl n c) = outbox_bytes c" "outbox_bytes (unqueue_class cl n c) = outbox_bytes c"
  "front_offset (queue_class cl n c) = front_offset c" "front_offset (unqueue_class cl n c) = front_offset c"
  "seed (queue_class cl n c) = seed c" "seed (unqueue_class cl n c) = seed c"
  "resync_pending (queue_class cl n c) = resync_pending c" "resync_pending (unqueue_class cl n c) = resync_pending c"
  "transport_closed (queue_class cl n c) = transport_closed c" "transport_closed (unqueue_class cl n c) = transport_closed c"
  "conn_attached (queue_class cl n c) = conn_attached c" "conn_attached (unqueue_class cl n c) = conn_attached c"
  "shares_filesystem (queue_class cl n c) = shares_filesystem c" "shares_filesystem (unqueue_class cl n c) = shares_filesystem c"
  "acqs (queue_class cl n c) = acqs c" "acqs (unqueue_class cl n c) = acqs c"
  "stream (queue_class cl n c) = stream c" "stream (unqueue_class cl n c) = stream c"
  by (cases cl; simp add: queue_class_def unqueue_class_def)+

definition pinned_front :: "client_output \<Rightarrow> outbox_frame list" where
  "pinned_front c = (if front_started c then take 1 (outbox c) else [])"

lemma pinned_sheddable: "pinned_front c @ sheddable_outbox c = outbox c"
  by (simp add: pinned_front_def sheddable_outbox_def)

definition sheds :: "pane_seed_key \<Rightarrow> client_output \<Rightarrow> outbox_frame \<Rightarrow> bool" where
  "sheds key c f \<longleftrightarrow> of_pane f = Some key \<and> \<not> (replay_barrier_up c \<and> of_class f = SeedReplay)"

lemma purge_fields:
  "outbox (snd (purge_outbox_pane key c)) = pinned_front c @ filter (\<lambda>f. \<not> sheds key c f) (sheddable_outbox c)"
  "seed (snd (purge_outbox_pane key c)) = seed c" "resync_pending (snd (purge_outbox_pane key c)) = resync_pending c"
  "front_offset (snd (purge_outbox_pane key c)) = front_offset c" "outbox_base (snd (purge_outbox_pane key c)) = outbox_base c"
  "transport_closed (snd (purge_outbox_pane key c)) = transport_closed c" "acqs (snd (purge_outbox_pane key c)) = acqs c"
  "stream (snd (purge_outbox_pane key c)) = stream c" "conn_attached (snd (purge_outbox_pane key c)) = conn_attached c"
  "shares_filesystem (snd (purge_outbox_pane key c)) = shares_filesystem c"
  by (simp_all add: purge_outbox_pane_def Let_def rebuild_outbox_replacements_def pinned_front_def sheds_def cong: filter_cong)

lemma barrier_seed: "seed c' = seed c \<Longrightarrow> replay_barrier_up c' = replay_barrier_up c"
  by (simp add: replay_barrier_up_def)

lemma shed_idle:
  "\<not> replay_barrier_up c \<Longrightarrow> shed_pane key c = (snd (purge_outbox_pane key c))
     \<lparr>shed_bytes := shed_bytes (snd (purge_outbox_pane key c)) + of_nat (fst (purge_outbox_pane key c)),
      resync_pending := insert key (resync_pending c)\<rparr>"
  by (cases "purge_outbox_pane key c", use purge_fields(2,3) [of key c] in
      \<open>simp add: shed_pane_def barrier_seed [of _ c] replay_barrier_up_def [of "_\<lparr>shed_bytes := _\<rparr>"] replay_barrier_up_def [of c]\<close>)

definition shed_from_seed :: "pane_seed_key \<Rightarrow> attach_seed_state \<Rightarrow> attach_seed_state" where
  "shed_from_seed key s = s\<lparr>catch_up := filter (\<lambda>f. delta_pane (cf_delta f) \<noteq> Some key) (catch_up s),
        catch_up_replacements := index_keys (catch_up_base s)
          (map cf_replacement (filter (\<lambda>f. delta_pane (cf_delta f) \<noteq> Some key) (catch_up s))) Map.empty,
        catch_up_bytes := catch_up_bytes s -
          sum_list (map (\<lambda>f. frame_length (cf_bytes f)) (filter (\<lambda>f. delta_pane (cf_delta f) = Some key) (catch_up s))),
        outdated := (if manifest s key \<noteq> Some Pending then insert key (outdated s) else outdated s)\<rparr>"

lemma shed_behind_barrier:
  assumes "seed c = Some s" "\<not> baseline_queued s"
  shows "\<exists>n m. shed_pane key c = (snd (purge_outbox_pane key c))\<lparr>seed := Some (shed_from_seed key s), requeued_panes := n, shed_bytes := m\<rparr>"
proof -
  obtain freed c1 where p: "purge_outbox_pane key c = (freed, c1)" by fastforce
  have "seed c1 = Some s" using purge_fields(2) [of key c] p assms(1) by simp
  then have "shed_pane key c = c1\<lparr>seed := Some (shed_from_seed key s),
      requeued_panes := requeued_panes (shed_pane key c), shed_bytes := shed_bytes (shed_pane key c)\<rparr>"
    using assms(2) by (simp add: shed_pane_def p replay_barrier_up_def shed_from_seed_def Let_def insert_absorb)
  then show ?thesis unfolding p snd_conv by blast
qed

lemma shed_cases:
  obtains (idle) n where "\<not> replay_barrier_up c" "shed_pane key c = (snd (purge_outbox_pane key c))\<lparr>shed_bytes := n, resync_pending := insert key (resync_pending c)\<rparr>"
  | (barrier) s n m where "seed c = Some s" "\<not> baseline_queued s"
      "shed_pane key c = (snd (purge_outbox_pane key c))\<lparr>seed := Some (shed_from_seed key s), requeued_panes := n, shed_bytes := m\<rparr>"
proof (cases "replay_barrier_up c")
  case False
  then show ?thesis using idle [OF False] shed_idle [OF False] by blast
next
  case True
  then obtain s where s: "seed c = Some s" "\<not> baseline_queued s" by (auto simp: replay_barrier_up_def split: option.splits)
  then show ?thesis using barrier [OF s] shed_behind_barrier [OF s] by blast
qed

lemma shed_outbox:
  "outbox (shed_pane key c) = pinned_front c @ filter (\<lambda>f. \<not> sheds key c f) (sheddable_outbox c)"
  by (cases rule: shed_cases [where key = key and c = c]) (simp_all add: purge_fields)

lemma shed_seed:
  "seed (shed_pane key c) = (if replay_barrier_up c then map_option (shed_from_seed key) (seed c) else seed c)"
  by (cases rule: shed_cases [where key = key and c = c]) (simp_all add: purge_fields replay_barrier_up_def)

lemma shed_barrier [simp]: "replay_barrier_up (shed_pane key c) = replay_barrier_up c"
  by (cases "seed c") (simp_all add: replay_barrier_up_def shed_seed shed_from_seed_def)

lemma shed_fewer:
  assumes "f \<in> set (sheddable_outbox c)" "sheds key c f"
  shows "length (outbox (shed_pane key c)) < length (outbox c)"
proof -
  have "length (filter (\<lambda>f. \<not> sheds key c f) (sheddable_outbox c)) < length (sheddable_outbox c)"
    by (rule length_filter_less [OF assms(1)]) (simp add: assms(2))
  moreover have "length (pinned_front c) + length (sheddable_outbox c) = length (outbox c)"
    using arg_cong [OF pinned_sheddable [of c], of length] by simp
  ultimately show ?thesis unfolding shed_outbox length_append by linarith
qed

lemma shed_outbox_le: "length (outbox (shed_pane key c)) \<le> length (outbox c)"
proof -
  have "length (pinned_front c) + length (sheddable_outbox c) = length (outbox c)"
    using arg_cong [OF pinned_sheddable [of c], of length] by simp
  then show ?thesis
    using length_filter_le [of "\<lambda>f. \<not> sheds key c f" "sheddable_outbox c"] unfolding shed_outbox length_append by linarith
qed

lemma shed_largest_fewer: "largest_outbox_pane c = Some key \<Longrightarrow> length (outbox (shed_pane key c)) < length (outbox c)"
  using largest_outbox_pane_frame shed_fewer by (fastforce simp: sheds_def)

text \<open>The frames a shed can drop: the measure of the loops.\<close>

definition backlog :: "client_output \<Rightarrow> nat" where
  "backlog c = length (outbox c) + (case seed c of None \<Rightarrow> 0 | Some s \<Rightarrow> length (catch_up s))"

lemma shed_largest_catch_up:
  assumes "largest_catch_up_pane c = Some key" "replay_barrier_up c"
  shows "backlog (shed_pane key c) < backlog c"
proof -
  obtain s where s: "seed c = Some s" and
    frame: "(\<exists>f \<in> set (catch_up s). delta_pane (cf_delta f) = Some key) \<or>
      (\<exists>f \<in> set (sheddable_outbox c). of_class f = SeedCatchUp \<and> of_pane f = Some key)"
    using assms(1) by (rule largest_catch_up_pane_frame)
  let ?kept = "filter (\<lambda>f. delta_pane (cf_delta f) \<noteq> Some key) (catch_up s)"
  have le: "length ?kept \<le> length (catch_up s)" by (rule length_filter_le)
  have seed': "\<exists>s'. seed (shed_pane key c) = Some s' \<and> catch_up s' = ?kept"
    using shed_seed [of key c] s assms(2) by (simp add: shed_from_seed_def)
  from frame show ?thesis
  proof
    assume "\<exists>f \<in> set (catch_up s). delta_pane (cf_delta f) = Some key"
    then obtain f where "f \<in> set (catch_up s)" "delta_pane (cf_delta f) = Some key" by blast
    then have "length ?kept < length (catch_up s)" by (intro length_filter_less [of f]) simp_all
    then show ?thesis using seed' s shed_outbox_le [of key c] by (auto simp: backlog_def)
  next
    assume "\<exists>f \<in> set (sheddable_outbox c). of_class f = SeedCatchUp \<and> of_pane f = Some key"
    then have "length (outbox (shed_pane key c)) < length (outbox c)" using shed_fewer by (fastforce simp: sheds_def)
    moreover have "backlog (shed_pane key c) = length (outbox (shed_pane key c)) + length ?kept" using seed' by (auto simp: backlog_def)
    moreover have "backlog c = length (outbox c) + length (catch_up s)" using s by (simp add: backlog_def)
    ultimately show ?thesis using le by linarith
  qed
qed

subsection \<open>Pushing\<close>

text \<open>\<^verbatim>\<open>if let Some(seed) = ... { seed.disconnect_reason = ... }\<close>\<close>

definition blame_seed :: "string \<Rightarrow> client_output \<Rightarrow> client_output" where
  "blame_seed reason c = c\<lparr>seed := map_option (\<lambda>s. s\<lparr>disconnect_reason := Some reason\<rparr>) (seed c)\<rparr>"

text \<open>The loop of \<^verbatim>\<open>push_live\<close>: shed until the frame fits, or answer at once.\<close>

function shed_until_fits ::
  "nat \<Rightarrow> pane_seed_key option \<Rightarrow> nat \<Rightarrow> client_output \<Rightarrow> client_frame_result option \<times> client_output" where
  "shed_until_fits n pane cap c =
     (if outbox_bytes c + n \<le> cap then (None, c)
      else case largest_outbox_pane c of
        None \<Rightarrow>
          (case pane of
             Some key \<Rightarrow> (Some Ignored, c\<lparr>resync_pending := insert key (resync_pending c), shed_bytes := shed_bytes c + of_nat n\<rparr>)
           | None \<Rightarrow> (Some Overflow, blame_seed ''attach-outbox-overflow'' c))
      | Some victim \<Rightarrow>
          (if pane = Some victim
           then (Some Ignored, (shed_pane victim c)\<lparr>shed_bytes := shed_bytes (shed_pane victim c) + of_nat n\<rparr>)
           else shed_until_fits n pane cap (shed_pane victim c)))"
  by pat_completeness auto

termination
  by (relation "measure (\<lambda>(n, pane, cap, c). length (outbox c))") (auto dest: shed_largest_fewer)

declare shed_until_fits.simps [simp del]

definition push_live ::
  "encoded_output \<Rightarrow> seed_delta \<Rightarrow> nat \<Rightarrow> replacement_key option \<Rightarrow> client_output \<Rightarrow> client_frame_result \<times> client_output" where
  "push_live bytes delta cap key c =
     (let pane = output_pane delta; n = frame_length bytes in
      if (case pane of Some k \<Rightarrow> k \<in> resync_pending c | None \<Rightarrow> False)
      then (Ignored, c\<lparr>shed_bytes := shed_bytes c + of_nat n\<rparr>)
      else
        let (replaced, c) = replace_outbox bytes key cap c in
        if replaced then (Queued, c)
        else case shed_until_fits n pane cap c of
          (Some result, c) \<Rightarrow> (result, c)
        | (None, c) \<Rightarrow> (Queued, index_outbox_back key (snd (try_push_class bytes cap Normal pane c))))"

text \<open>
  The loop of \<^verbatim>\<open>push_catch_up\<close>, called while the barrier is up; the guard stands for its \<^verbatim>\<open>expect\<close>. A key that
  is still retained is superseded in place if the new frame fits.
\<close>

definition supersede_catch_up ::
  "encoded_output \<Rightarrow> seed_delta \<Rightarrow> replacement_key option \<Rightarrow> attach_seed_state \<Rightarrow> client_output \<Rightarrow> client_output option" where
  "supersede_catch_up bytes delta key s c =
     (case queue_index (catch_up_replacements s) (catch_up_base s) key of
        None \<Rightarrow> None
      | Some index \<Rightarrow>
          (let previous = frame_length (cf_bytes (catch_up s ! index)); n = frame_length bytes in
           if catch_up_bytes s - previous + seed_catch_up_queued_bytes c + n \<le> SEED_CATCH_UP_LIMIT
           then Some (c\<lparr>seed := Some (s\<lparr>catch_up := (catch_up s)[index := \<lparr>cf_replacement = key, cf_bytes = bytes, cf_delta = delta\<rparr>],
                  catch_up_bytes := catch_up_bytes s - previous + n\<rparr>),
                out_coalesced_frames := out_coalesced_frames c + 1,
                out_coalesced_bytes := out_coalesced_bytes c + of_nat previous\<rparr>)
           else None))"

definition retain_catch_up :: "encoded_output \<Rightarrow> seed_delta \<Rightarrow> replacement_key option \<Rightarrow> attach_seed_state \<Rightarrow> attach_seed_state" where
  "retain_catch_up bytes delta key s =
     s\<lparr>catch_up_bytes := catch_up_bytes s + frame_length bytes,
       catch_up_replacements := (case key of Some k \<Rightarrow> (catch_up_replacements s)(k \<mapsto> catch_up_base s + of_nat (length (catch_up s)))
                                 | None \<Rightarrow> catch_up_replacements s),
       catch_up := catch_up s @ [\<lparr>cf_replacement = key, cf_bytes = bytes, cf_delta = delta\<rparr>]\<rparr>"

function push_catch_up ::
  "encoded_output \<Rightarrow> seed_delta \<Rightarrow> replacement_key option \<Rightarrow> client_output \<Rightarrow> client_frame_result \<times> client_output" where
  "push_catch_up bytes delta key c =
     (case seed c of
        None \<Rightarrow> (Overflow, c)
      | Some s \<Rightarrow>
          if baseline_queued s then (Overflow, c)
          else if (case delta_pane delta of Some k \<Rightarrow> k \<in> outdated s | None \<Rightarrow> False)
          then (Ignored, c\<lparr>shed_bytes := shed_bytes c + of_nat (frame_length bytes)\<rparr>)
          else case supersede_catch_up bytes delta key s c of
            Some c' \<Rightarrow> (Buffered, c')
          | None \<Rightarrow>
              if catch_up_bytes s + seed_catch_up_queued_bytes c + frame_length bytes \<le> SEED_CATCH_UP_LIMIT
              then (Buffered, c\<lparr>seed := Some (retain_catch_up bytes delta key s)\<rparr>)
              else
                let own = (case delta_pane delta of Some k \<Rightarrow> if pane_is_sheddable c k then Some k else None | None \<Rightarrow> None)
                in case (case largest_catch_up_pane c of Some victim \<Rightarrow> Some victim | None \<Rightarrow> own) of
                  None \<Rightarrow> (Overflow, blame_seed ''attach-catch-up-overflow'' c)
                | Some victim \<Rightarrow>
                    (if delta_pane delta = Some victim
                     then (Ignored, (shed_pane victim c)\<lparr>shed_bytes := shed_bytes (shed_pane victim c) + of_nat (frame_length bytes)\<rparr>)
                     else push_catch_up bytes delta key (shed_pane victim c)))"
  by pat_completeness auto

termination
  by (relation "measure (\<lambda>(bytes, delta, key, c). backlog c)")
    (auto intro: shed_largest_catch_up simp: replay_barrier_up_def split: option.splits if_splits)

declare push_catch_up.simps [simp del]

definition push_delta_inner ::
  "encoded_output \<Rightarrow> seed_delta \<Rightarrow> nat \<Rightarrow> replacement_key option \<Rightarrow> client_output \<Rightarrow> client_frame_result \<times> client_output" where
  "push_delta_inner bytes delta default_cap key c =
     (if transport_closed c then (Ignored, c)
      else case (case seed c of Some s \<Rightarrow> if baseline_queued s then None else Some s | None \<Rightarrow> None) of
        None \<Rightarrow> push_live bytes delta default_cap key c
      | Some s \<Rightarrow>
          (case delta of
             PaneOutput k \<Rightarrow> if output_precedes_snapshot s k then (Ignored, c) else push_catch_up bytes delta key c
           | PaneResize k \<Rightarrow> if output_precedes_snapshot s k then push_live bytes delta default_cap key c
                             else push_catch_up bytes delta key c
           | Control \<Rightarrow> push_catch_up bytes delta key c))"

subsection \<open>Media\<close>

fun within_budget :: "nat \<Rightarrow> nat \<Rightarrow> nat list \<Rightarrow> bool" where
  "within_budget held count [] = True"
| "within_budget held count (m # ms) =
     (if held + m > CONNECTION_BYTES \<or> count + 1 > CONNECTION_FILES then False
      else within_budget (held + m) (count + 1) ms)"

definition queued_media_within_budget :: "client_output \<Rightarrow> bool" where
  "queued_media_within_budget c =
     (let caught = (case seed c of None \<Rightarrow> [] | Some s \<Rightarrow> map cf_bytes (catch_up s))
      in within_budget (acq_bytes (acqs c)) (acq_files (acqs c))
           (concat (map media (map of_bytes (outbox c) @ caught))))"

definition push_delta ::
  "encoded_output \<Rightarrow> seed_delta \<Rightarrow> nat \<Rightarrow> replacement_key option \<Rightarrow> client_output \<Rightarrow> client_frame_result \<times> client_output" where
  "push_delta bytes delta default_cap key c =
     (let carries_media = media bytes \<noteq> []; (result, c) = push_delta_inner bytes delta default_cap key c
      in if \<not> carries_media \<or> queued_media_within_budget c then (result, c) else (Overflow, c))"

definition PANE_OUTPUT_ACQUISITION_OFFSET :: nat where
  "PANE_OUTPUT_ACQUISITION_OFFSET = 18 + PANE_OUTPUT_SEMANTICS_LEN"

definition stamp :: "u64 \<Rightarrow> byte list \<Rightarrow> byte list" where
  "stamp n bytes = take PANE_OUTPUT_ACQUISITION_OFFSET bytes @ to_be_bytes 8 n @ drop (PANE_OUTPUT_ACQUISITION_OFFSET + 8) bytes"

definition prepare_acquisition :: "client_output \<Rightarrow> retained \<Rightarrow> bool \<times> client_output \<times> retained" where
  "prepare_acquisition c r =
     (case outbox c of
        [] \<Rightarrow> (True, c, r)
      | front # rest \<Rightarrow>
          if media (of_bytes front) = [] then (True, c, r)
          else if \<not> shares_filesystem c then (False, c, r)
          else case issue (of_bytes front) (acqs c) r of
            (None, a, r) \<Rightarrow> (False, c\<lparr>acqs := a\<rparr>, r)
          | (Some n, a, r) \<Rightarrow>
              (True, c\<lparr>acqs := a, outbox := front\<lparr>of_bytes := (of_bytes front)\<lparr>frame_bytes := stamp n (frame_bytes (of_bytes front)),
                 media := []\<rparr>\<rparr> # rest\<rparr>, r))"

subsection \<open>Writing to the socket\<close>

text \<open>What a non-blocking write answers: it took \<open>n\<close> of the bytes offered, would block, or failed.\<close>

datatype write_result = Wrote nat | WouldBlock | WriteFailed

datatype outbox_flush = Open | PeerGone | Rejected

definition wrote :: "nat \<Rightarrow> client_output \<Rightarrow> client_output" where
  "wrote n c =
     (case outbox c of
        [] \<Rightarrow> c
      | front # _ \<Rightarrow>
          let c = unqueue_class (of_class front) n
                (c\<lparr>stream := stream c @ take n (drop (front_offset c) (frame_bytes (of_bytes front))),
                   front_offset := front_offset c + n, outbox_bytes := outbox_bytes c - n\<rparr>)
          in if front_offset c \<ge> frame_length (of_bytes front) then (pop_outbox_front c)\<lparr>front_offset := 0\<rparr> else c)"

text \<open>The outcomes of the writes of one flush; after the last one the socket would block.\<close>

fun flush_client_outbox :: "write_result list \<Rightarrow> bool \<Rightarrow> client_output \<Rightarrow> retained \<Rightarrow> (bool \<times> outbox_flush) \<times> client_output \<times> retained" where
  "flush_client_outbox writes activity c r =
     (if outbox c = [] then ((activity, Open), c, r)
      else
        let (ready, c, r) = (if front_offset c = 0 then prepare_acquisition c r else (True, c, r)) in
        if \<not> ready then ((True, Rejected), c, r)
        else case writes of
          [] \<Rightarrow> ((activity, Open), c, r)
        | WouldBlock # _ \<Rightarrow> ((activity, Open), c, r)
        | WriteFailed # _ \<Rightarrow> ((True, PeerGone), blame_seed ''transport-write-failed'' c, r)
        | Wrote n # writes \<Rightarrow>
            if n = 0 then ((True, PeerGone), blame_seed ''transport-closed'' c, r)
            else flush_client_outbox writes True (wrote n c) r)"

declare flush_client_outbox.simps [simp del]

definition take_completed_seed :: "client_output \<Rightarrow> attach_seed_state option \<times> client_output" where
  "take_completed_seed c =
     (if (case seed c of None \<Rightarrow> False | Some s \<Rightarrow>
            baseline_queued s \<and> seed_queued_bytes c = 0 \<and> seed_catch_up_queued_bytes c = 0)
      then (seed c, c\<lparr>seed := None\<rparr>) else (None, c))"

end
