(* ===== verification/Seeding.thy ===== *)
theory Seeding
  imports Outbox
begin

text \<open>
  Replaying panes to one client, after an attach or after shedding: the attach-seed functions of
  \<^verbatim>\<open>src/session/server/lease.rs\<close> and \<^verbatim>\<open>program_status.rs\<close>. A replay is exported from the screen of its pane, reset
  frame first, in chunks that fit the send window; what happened meanwhile follows from the catch-up
  queue, and the barrier lifts when that is empty.

  What an export yields is a parameter, a function of the pane: nothing if the pane is gone, else the stored
  bytes, their number and the encoded reset message. So are the encoded status messages and the
  media pipeline's \<^verbatim>\<open>blocks_replay\<close>. A removed connection is \<open>None\<close>.

  Shown: a turn of the pump ends, within its byte budget.
\<close>

subsection \<open>Constants and encoding\<close>

definition SEED_SEND_WINDOW :: nat where
  "SEED_SEND_WINDOW = 4 * 1024 * 1024"

definition RESYNC_START_BACKLOG :: nat where
  "RESYNC_START_BACKLOG = SEED_SEND_WINDOW"

definition SEED_PUMP_BYTES_PER_TICK :: nat where
  "SEED_PUMP_BYTES_PER_TICK = 1024 * 1024"

definition SEED_CHUNK :: nat where
  "SEED_CHUNK = 256 * 1024"

definition PANE_OUTPUT_FRAME_OVERHEAD :: nat where
  "PANE_OUTPUT_FRAME_OVERHEAD = 18 + PANE_OUTPUT_METADATA_LEN"

definition default_metadata :: output_metadata where
  "default_metadata = \<lparr>om_sequence = 0, om_coalesce_epoch = 0, om_class = Ordered\<rparr>"

definition replacement_key_of :: "output_metadata \<Rightarrow> u32 \<Rightarrow> bool \<Rightarrow> u64 \<Rightarrow> replacement_key option" where
  "replacement_key_of metadata pane loc generation =
     (case om_class metadata of
        IndependentGraphics img incarnation _ \<Rightarrow>
          Some \<lparr>rk_pane = pane, rk_local = loc, rk_generation = generation, rk_epoch = om_coalesce_epoch metadata,
                rk_image = img, rk_incarnation = incarnation\<rparr>
      | _ \<Rightarrow> None)"

text \<open>Without media no bindings are encoded, so the codec for them does not matter.\<close>

definition encode_pane_output :: "u32 \<Rightarrow> u64 \<Rightarrow> bool \<Rightarrow> output_metadata \<Rightarrow> byte list \<Rightarrow> encoded_output option" where
  "encode_pane_output pane generation loc metadata bytes =
     (case write_pane_output_frame (\<lambda>_. None) pane generation loc metadata bytes of
        Inl _ \<Rightarrow> None
      | Inr buf \<Rightarrow> Some \<lparr>frame_bytes = buf, media = [], scope = None\<rparr>)"

record pane_snapshot =
  sn_stored :: "byte list"
  sn_length :: nat
  sn_reset :: "encoded_output option"

record pump_env =
  max_backlog :: nat
  snapshot_of :: "pane_seed_key \<Rightarrow> pane_snapshot option"
  status_of :: "pane_seed_key \<Rightarrow> encoded_output option"
  blocks_replay :: "pane_seed_key \<Rightarrow> bool"

subsection \<open>Raising the barrier\<close>

definition enqueue_attach_seeds :: "pane_seed_key list \<Rightarrow> pane_seed_key list \<Rightarrow> client_output \<Rightarrow> client_output" where
  "enqueue_attach_seeds panes statuses c =
     c\<lparr>seed := Some ((new_seed panes)\<lparr>pending_program_status := sort statuses\<rparr>)\<rparr>"

definition start_client_resync :: "pane_seed_key list \<Rightarrow> client_output \<Rightarrow> client_output" where
  "start_client_resync live c =
     (if \<not> conn_attached c \<or> seed c \<noteq> None \<or> resync_pending c = {} \<or> outbox_bytes c > RESYNC_START_BACKLOG then c
      else
        let stale = filter (\<lambda>key. key \<in> set live) (sorted_list_of_set (resync_pending c));
            c = c\<lparr>resync_pending := {}\<rparr>
        in if stale = [] then c else c\<lparr>seed := Some (resync_seed live stale)\<rparr>)"

subsection \<open>The work of the pump\<close>

datatype attach_seed_work =
    ProgramStatus pane_seed_key
  | ReplayReset
  | FinishReplay
  | ReplayChunk
  | BeginPane pane_seed_key
  | CatchUp
  | Complete
  | Done

definition next_attach_seed_work :: "client_output \<Rightarrow> attach_seed_work" where
  "next_attach_seed_work c =
     (case seed c of
        None \<Rightarrow> Done
      | Some s \<Rightarrow>
          if baseline_queued s then Done
          else case pending_program_status s of
            key # _ \<Rightarrow> ProgramStatus key
          | [] \<Rightarrow>
              (case pane_replay s of
                 Some replay \<Rightarrow>
                   if reset_frame replay \<noteq> None then ReplayReset
                   else if rp_remaining replay = 0 then FinishReplay
                   else ReplayChunk
               | None \<Rightarrow>
                   (case pending_panes s of
                      key # _ \<Rightarrow> BeginPane key
                    | [] \<Rightarrow> if catch_up s = [] then Complete else CatchUp)))"

definition on_seed :: "(attach_seed_state \<Rightarrow> attach_seed_state) \<Rightarrow> client_output \<Rightarrow> client_output" where
  "on_seed f c = c\<lparr>seed := map_option f (seed c)\<rparr>"

definition queue_attach_frame ::
  "nat \<Rightarrow> encoded_output \<Rightarrow> outbox_class \<Rightarrow> pane_seed_key option \<Rightarrow> client_output \<Rightarrow> client_output option" where
  "queue_attach_frame cap frame class pane c =
     (let (queued, c) = try_push_class frame cap class pane c in if queued then Some c else None)"

definition finish_program_status_baseline :: "client_output \<Rightarrow> client_output" where
  "finish_program_status_baseline =
     on_seed (\<lambda>s. s\<lparr>pending_program_status := tl (pending_program_status s), program_status_frame := None\<rparr>)"

text \<open>The second half of \<^verbatim>\<open>pump_program_status_baseline\<close>, with the frame at hand.\<close>

definition push_program_status :: "encoded_output \<Rightarrow> nat \<Rightarrow> client_output \<Rightarrow> bool \<times> nat \<times> client_output option" where
  "push_program_status frame remaining c =
     (let c = on_seed (\<lambda>s. s\<lparr>program_status_frame := Some frame\<rparr>) c;
          available = SEED_SEND_WINDOW - outbox_bytes c; n = frame_length frame
      in if n > available \<or> n > remaining \<and> remaining \<noteq> SEED_PUMP_BYTES_PER_TICK then (False, remaining, Some c)
         else let (queued, c) = try_push_class frame SEED_SEND_WINDOW SeedReplay None c
              in if \<not> queued then (False, remaining, Some c)
                 else (True, remaining - n, Some (finish_program_status_baseline c)))"

definition pump_program_status_baseline ::
  "pump_env \<Rightarrow> pane_seed_key \<Rightarrow> nat \<Rightarrow> client_output \<Rightarrow> bool \<times> nat \<times> client_output option" where
  "pump_program_status_baseline env key remaining c =
     (let cached = (case seed c of None \<Rightarrow> None | Some s \<Rightarrow> program_status_frame s)
      in case (case cached of Some frame \<Rightarrow> Some frame | None \<Rightarrow> status_of env key) of
        None \<Rightarrow> (True, remaining, Some (finish_program_status_baseline c))
      | Some frame \<Rightarrow> push_program_status frame remaining c)"

definition replay_of :: "client_output \<Rightarrow> pane_seed_replay option" where
  "replay_of c = (case seed c of None \<Rightarrow> None | Some s \<Rightarrow> pane_replay s)"

definition on_replay :: "(pane_seed_replay \<Rightarrow> pane_seed_replay) \<Rightarrow> client_output \<Rightarrow> client_output" where
  "on_replay f = on_seed (\<lambda>s. s\<lparr>pane_replay := map_option f (pane_replay s)\<rparr>)"

definition pump_replay_reset :: "pump_env \<Rightarrow> nat \<Rightarrow> client_output \<Rightarrow> bool \<times> nat \<times> client_output option" where
  "pump_replay_reset env remaining c =
     (case (case replay_of c of None \<Rightarrow> None | Some replay \<Rightarrow> reset_frame replay) of
        None \<Rightarrow> (True, remaining, Some c)
      | Some frame \<Rightarrow>
          let available = SEED_SEND_WINDOW - outbox_bytes c; n = frame_length frame in
          if n > available \<or> n > remaining then (False, remaining, Some c)
          else case queue_attach_frame (max_backlog env) frame SeedReplay None c of
            None \<Rightarrow> (True, remaining, None)
          | Some c \<Rightarrow> (True, remaining - n, Some (on_replay (\<lambda>replay. replay\<lparr>reset_frame := None\<rparr>) c)))"

definition finish_pane_replay :: "client_output \<Rightarrow> client_output" where
  "finish_pane_replay =
     on_seed (\<lambda>s. case pane_replay s of
        None \<Rightarrow> s
      | Some replay \<Rightarrow> s\<lparr>pane_replay := None, manifest := (manifest s)(rp_key replay \<mapsto> CatchingUp)\<rparr>)"

definition pump_replay_chunk :: "pump_env \<Rightarrow> nat \<Rightarrow> client_output \<Rightarrow> bool \<times> nat \<times> client_output option" where
  "pump_replay_chunk env remaining c =
     (case replay_of c of
        None \<Rightarrow> (True, remaining, Some c)
      | Some replay \<Rightarrow>
          let available = SEED_SEND_WINDOW - outbox_bytes c;
              payload_budget = min available remaining - PANE_OUTPUT_FRAME_OVERHEAD;
              payload_len = min (min SEED_CHUNK payload_budget) (rp_remaining replay);
              key = rp_key replay
          in if available \<le> PANE_OUTPUT_FRAME_OVERHEAD \<or> payload_len = 0 then (False, remaining, Some c)
             else if length (spool replay) < payload_len then (True, remaining, None)
             else case encode_pane_output (seed_pane_id key) (seed_generation key) False default_metadata (take payload_len (spool replay)) of
               None \<Rightarrow> (True, remaining, None)
             | Some frame \<Rightarrow>
                 (case queue_attach_frame (max_backlog env) frame SeedReplay (Some key) c of
                    None \<Rightarrow> (True, remaining, None)
                  | Some c \<Rightarrow>
                      (True, remaining - frame_length frame,
                       Some (on_replay (\<lambda>replay. replay\<lparr>spool := drop payload_len (spool replay),
                               rp_remaining := rp_remaining replay - payload_len\<rparr>) c))))"

definition begin_pane_replay :: "pump_env \<Rightarrow> pane_seed_key \<Rightarrow> client_output \<Rightarrow> client_output" where
  "begin_pane_replay env key =
     on_seed (\<lambda>s. let s = s\<lparr>pending_panes := tl (pending_panes s)\<rparr> in
       case snapshot_of env key of
         Some snapshot \<Rightarrow>
           s\<lparr>manifest := (manifest s)(key \<mapsto> Replaying),
             pane_replay := Some \<lparr>rp_key = key, reset_frame = sn_reset snapshot, spool = sn_stored snapshot,
                                  rp_remaining = sn_length snapshot\<rparr>\<rparr>
       | None \<Rightarrow> s\<lparr>manifest := (manifest s)(key \<mapsto> CatchingUp)\<rparr>)"

definition pop_catch_up :: "attach_seed_state \<Rightarrow> attach_seed_state" where
  "pop_catch_up s =
     (case catch_up s of
        [] \<Rightarrow> s
      | frame # rest \<Rightarrow>
          s\<lparr>catch_up := rest,
            catch_up_replacements :=
              (case cf_replacement frame of
                 Some key \<Rightarrow> if catch_up_replacements s key = Some (catch_up_base s) then (catch_up_replacements s)(key := None)
                             else catch_up_replacements s
               | None \<Rightarrow> catch_up_replacements s),
            catch_up_base := catch_up_base s + 1\<rparr>)"

definition pump_seed_catch_up :: "pump_env \<Rightarrow> nat \<Rightarrow> client_output \<Rightarrow> bool \<times> nat \<times> client_output option" where
  "pump_seed_catch_up env remaining c =
     (case (case seed c of None \<Rightarrow> [] | Some s \<Rightarrow> catch_up s) of
        [] \<Rightarrow> (True, remaining, Some c)
      | front # _ \<Rightarrow>
          let available = SEED_SEND_WINDOW - outbox_bytes c; frame = cf_bytes front; n = frame_length frame in
          if n > available \<or> n > remaining then (False, remaining, Some c)
          else case queue_attach_frame (max_backlog env) frame SeedCatchUp (output_pane (cf_delta front)) c of
            None \<Rightarrow> (True, remaining, None)
          | Some c \<Rightarrow>
              (True, remaining - n,
               Some (on_seed (\<lambda>s. (pop_catch_up s)\<lparr>catch_up_bytes := catch_up_bytes s - n\<rparr>)
                 (index_outbox_back (cf_replacement front) c))))"

definition complete_attach_baseline :: "client_output \<Rightarrow> client_output" where
  "complete_attach_baseline c =
     (case seed c of
        None \<Rightarrow> c
      | Some s \<Rightarrow>
          c\<lparr>seed := Some (s\<lparr>manifest := (\<lambda>key. map_option (\<lambda>_. Live) (manifest s key)), baseline_queued := True, outdated := {}\<rparr>),
            resync_pending := resync_pending c \<union> outdated s\<rparr>)"

text \<open>One piece of work: whether it progressed, what is left of the byte and export budgets, and the client.\<close>

definition pump_attach_seed_work ::
  "pump_env \<Rightarrow> attach_seed_work \<Rightarrow> nat \<Rightarrow> bool \<Rightarrow> client_output \<Rightarrow> bool \<times> nat \<times> bool \<times> client_output option" where
  "pump_attach_seed_work env work remaining export_available c =
     (case work of
        ProgramStatus key \<Rightarrow>
          if \<not> export_available then (False, remaining, export_available, Some c)
          else (case pump_program_status_baseline env key remaining c of (progressed, remaining, c) \<Rightarrow> (progressed, remaining, False, c))
      | ReplayReset \<Rightarrow> (case pump_replay_reset env remaining c of (progressed, remaining, c) \<Rightarrow> (progressed, remaining, export_available, c))
      | FinishReplay \<Rightarrow> (True, remaining, export_available, Some (finish_pane_replay c))
      | ReplayChunk \<Rightarrow> (case pump_replay_chunk env remaining c of (progressed, remaining, c) \<Rightarrow> (progressed, remaining, export_available, c))
      | BeginPane key \<Rightarrow>
          if blocks_replay env key then (False, remaining, export_available, Some c)
          else if \<not> export_available then (False, remaining, export_available, Some c)
          else (True, remaining, False, Some (begin_pane_replay env key c))
      | CatchUp \<Rightarrow> (case pump_seed_catch_up env remaining c of (progressed, remaining, c) \<Rightarrow> (progressed, remaining, export_available, c))
      | Complete \<Rightarrow> (False, remaining, export_available, Some c)
      | Done \<Rightarrow> (False, remaining, export_available, Some c))"

subsection \<open>The pump ends\<close>

text \<open>What is still to be pumped: panes and status messages, the current replay, the catch-up queue.\<close>

definition replay_left :: "pane_seed_replay option \<Rightarrow> nat" where
  "replay_left replay = (case replay of None \<Rightarrow> 0 | Some r \<Rightarrow> 1 + (if reset_frame r = None then 0 else 1) + rp_remaining r)"

definition pump_measure :: "((client_output) \<times> client_output) set" where
  "pump_measure = inv_image (less_than <*lex*> less_than <*lex*> less_than)
     (\<lambda>c. case seed c of
        None \<Rightarrow> (0, 0, 0)
      | Some s \<Rightarrow> (length (pending_program_status s) + length (pending_panes s), replay_left (pane_replay s), length (catch_up s)))"

lemma wf_pump_measure: "wf pump_measure"
  by (simp add: pump_measure_def wf_lex_prod)

definition pushed :: "outbox_class \<Rightarrow> pane_seed_key option \<Rightarrow> encoded_output \<Rightarrow> client_output \<Rightarrow> client_output" where
  "pushed cl pane frame c =
     (if transport_closed c then c
      else (queue_class cl (frame_length frame) c)\<lparr>outbox_bytes := outbox_bytes c + frame_length frame,
        outbox := outbox c @ [\<lparr>of_replacement = None, of_bytes = frame, of_class = cl, of_pane = pane\<rparr>]\<rparr>)"

lemma try_push_eq:
  "try_push_class frame cap cl pane c =
     (if \<not> transport_closed c \<and> outbox_bytes c + frame_length frame > cap then (False, c) else (True, pushed cl pane frame c))"
  by (cases cl) (auto simp: try_push_class_def pushed_def queue_class_def Let_def)

lemma pushed_fields [simp]:
  "seed (pushed cl pane frame c) = seed c" "resync_pending (pushed cl pane frame c) = resync_pending c"
  "front_offset (pushed cl pane frame c) = front_offset c" "outbox_base (pushed cl pane frame c) = outbox_base c"
  "outbox_replacements (pushed cl pane frame c) = outbox_replacements c" "acqs (pushed cl pane frame c) = acqs c"
  "stream (pushed cl pane frame c) = stream c" "conn_attached (pushed cl pane frame c) = conn_attached c"
  "shares_filesystem (pushed cl pane frame c) = shares_filesystem c" "transport_closed (pushed cl pane frame c) = transport_closed c"
  by (simp_all add: pushed_def)

lemma queue_attach_eq:
  "queue_attach_frame cap frame cl pane c =
     (if transport_closed c \<or> outbox_bytes c + frame_length frame \<le> cap then Some (pushed cl pane frame c) else None)"
  by (auto simp: queue_attach_frame_def try_push_eq)

lemma index_back_seed [simp]: "seed (index_outbox_back key c) = seed c"
  by (simp add: index_outbox_back_def split: option.split)

text \<open>The replay stages in the order in which the pump goes through them.\<close>

lemma next_work_cases:
  obtains (idle) "next_attach_seed_work c = Done \<or> next_attach_seed_work c = Complete"
  | (status) s key keys where "seed c = Some s" "\<not> baseline_queued s" "pending_program_status s = key # keys" "next_attach_seed_work c = ProgramStatus key"
  | (reset) s r frame where "seed c = Some s" "\<not> baseline_queued s" "pending_program_status s = []" "pane_replay s = Some r"
      "reset_frame r = Some frame" "next_attach_seed_work c = ReplayReset"
  | (finish) s r where "seed c = Some s" "\<not> baseline_queued s" "pending_program_status s = []" "pane_replay s = Some r" "reset_frame r = None"
      "rp_remaining r = 0" "next_attach_seed_work c = FinishReplay"
  | (chunk) s r where "seed c = Some s" "\<not> baseline_queued s" "pending_program_status s = []" "pane_replay s = Some r" "reset_frame r = None"
      "rp_remaining r > 0" "next_attach_seed_work c = ReplayChunk"
  | (launch) s key keys where "seed c = Some s" "\<not> baseline_queued s" "pending_program_status s = []" "pane_replay s = None" "pending_panes s = key # keys"
      "next_attach_seed_work c = BeginPane key"
  | (follow) s f fs where "seed c = Some s" "\<not> baseline_queued s" "pending_program_status s = []" "pane_replay s = None" "pending_panes s = []"
      "catch_up s = f # fs" "next_attach_seed_work c = CatchUp"
proof (cases "replay_barrier_up c")
  case False
  then show ?thesis by (intro idle) (auto simp: next_attach_seed_work_def replay_barrier_up_def split: option.splits)
next
  case True
  then obtain s where s: "seed c = Some s" "\<not> baseline_queued s" by (auto simp: replay_barrier_up_def split: option.splits)
  note next_work = next_attach_seed_work_def [of c]
  show ?thesis
  proof (cases "pending_program_status s")
    case Nil
    show ?thesis
    proof (cases "pane_replay s")
      case None
      show ?thesis
      proof (cases "pending_panes s")
        case Nil': Nil
        show ?thesis
          using follow [OF s Nil None Nil'] idle s Nil None Nil' by (cases "catch_up s") (simp_all add: next_work)
      next
        case (Cons key keys)
        then show ?thesis using launch [OF s Nil None Cons] s Nil None by (simp add: next_work)
      qed
    next
      case (Some r)
      show ?thesis
      proof (cases "reset_frame r")
        case None
        then show ?thesis
          using finish [OF s Nil Some None] chunk [OF s Nil Some None] s Nil Some by (cases "rp_remaining r = 0") (simp_all add: next_work)
      next
        case frame: (Some frame)
        then show ?thesis using reset [OF s Nil Some frame] s Nil Some by (simp add: next_work)
      qed
    qed
  next
    case (Cons key keys)
    then show ?thesis using status [OF s Cons] s by (simp add: next_work)
  qed
qed

lemma on_seed_seed [simp]: "seed (on_seed f c) = map_option f (seed c)"
  by (simp add: on_seed_def)

lemma on_seed_fields [simp]:
  "outbox (on_seed f c) = outbox c" "resync_pending (on_seed f c) = resync_pending c"
  "front_offset (on_seed f c) = front_offset c" "outbox_base (on_seed f c) = outbox_base c"
  "outbox_replacements (on_seed f c) = outbox_replacements c" "acqs (on_seed f c) = acqs c"
  "stream (on_seed f c) = stream c" "conn_attached (on_seed f c) = conn_attached c" "outbox_bytes (on_seed f c) = outbox_bytes c"
  "shares_filesystem (on_seed f c) = shares_filesystem c" "transport_closed (on_seed f c) = transport_closed c"
  "seed_queued_bytes (on_seed f c) = seed_queued_bytes c" "seed_catch_up_queued_bytes (on_seed f c) = seed_catch_up_queued_bytes c"
  by (simp_all add: on_seed_def)

text \<open>What each piece of work that progressed did.\<close>

lemma status_cases:
  assumes "pump_program_status_baseline env key remaining c = (progressed, remaining', Some c')" "seed c = Some s"
  obtains (blocked) frame where "\<not> progressed" "remaining' = remaining" "c' = on_seed (\<lambda>s. s\<lparr>program_status_frame := Some frame\<rparr>) c"
      "program_status_frame s = Some frame \<or> status_of env key = Some frame"
      "outbox_bytes c + frame_length frame > SEED_SEND_WINDOW \<or> frame_length frame > remaining \<and> remaining \<noteq> SEED_PUMP_BYTES_PER_TICK"
  | (gone) "progressed" "remaining' = remaining" "c' = finish_program_status_baseline c"
  | (sent) frame where "progressed" "frame_length frame \<le> SEED_SEND_WINDOW - outbox_bytes c" "remaining' = remaining - frame_length frame"
      "frame_length frame \<le> remaining \<or> remaining = SEED_PUMP_BYTES_PER_TICK" "program_status_frame s = Some frame \<or> status_of env key = Some frame"
      "c' = finish_program_status_baseline (pushed SeedReplay None frame (on_seed (\<lambda>s. s\<lparr>program_status_frame := Some frame\<rparr>) c))"
proof -
  define cached where "cached = (case program_status_frame s of Some frame \<Rightarrow> Some frame | None \<Rightarrow> status_of env key)"
  note work = assms(1) [unfolded pump_program_status_baseline_def assms(2) option.case Let_def, folded cached_def]
  show thesis
  proof (cases cached)
    case None
    then show thesis using work gone by simp
  next
    case (Some frame)
    have origin: "program_status_frame s = Some frame \<or> status_of env key = Some frame" using Some by (auto simp: cached_def split: option.splits)
    have work: "push_program_status frame remaining c = (progressed, remaining', Some c')" using work Some by simp
    show thesis
    proof (cases "frame_length frame > SEED_SEND_WINDOW - outbox_bytes c \<or> frame_length frame > remaining \<and> remaining \<noteq> SEED_PUMP_BYTES_PER_TICK")
      case True
      then show thesis using work origin by (intro blocked [of frame]) (auto simp: push_program_status_def Let_def)
    next
      case False
      then show thesis
        using work origin False blocked [of frame] sent [of frame]
        by (auto simp: push_program_status_def Let_def try_push_eq split: if_splits)
    qed
  qed
qed

lemma reset_cases:
  assumes "pump_replay_reset env remaining c = (progressed, remaining', Some c')" "seed c = Some s" "pane_replay s = Some r" "reset_frame r = Some frame"
  obtains (blocked) "\<not> progressed" "remaining' = remaining" "c' = c" "frame_length frame > SEED_SEND_WINDOW - outbox_bytes c \<or> frame_length frame > remaining"
  | (sent) "progressed" "frame_length frame \<le> SEED_SEND_WINDOW - outbox_bytes c" "frame_length frame \<le> remaining" "remaining' = remaining - frame_length frame"
      "transport_closed c \<or> outbox_bytes c + frame_length frame \<le> max_backlog env"
      "c' = on_replay (\<lambda>r. r\<lparr>reset_frame := None\<rparr>) (pushed SeedReplay None frame c)"
proof (cases "frame_length frame > SEED_SEND_WINDOW - outbox_bytes c \<or> frame_length frame > remaining")
  case True
  then show ?thesis using assms by (intro blocked) (simp_all add: pump_replay_reset_def replay_of_def Let_def)
next
  case False
  have fits: "transport_closed c \<or> outbox_bytes c + frame_length frame \<le> max_backlog env"
    using assms False by (auto simp: pump_replay_reset_def replay_of_def queue_attach_eq Let_def not_less split: if_splits)
  then show ?thesis using assms False by (intro sent) (simp_all add: pump_replay_reset_def replay_of_def queue_attach_eq Let_def)
qed

lemma chunk_cases:
  assumes "pump_replay_chunk env remaining c = (progressed, remaining', Some c')" "seed c = Some s" "pane_replay s = Some r" "rp_remaining r > 0"
  obtains (blocked) "\<not> progressed" "remaining' = remaining" "c' = c" "SEED_SEND_WINDOW - outbox_bytes c \<le> PANE_OUTPUT_FRAME_OVERHEAD \<or> remaining \<le> PANE_OUTPUT_FRAME_OVERHEAD"
  | (sent) n frame where "progressed" "0 < n" "n \<le> length (spool r)" "n \<le> rp_remaining r"
      "encode_pane_output (seed_pane_id (rp_key r)) (seed_generation (rp_key r)) False default_metadata (take n (spool r)) = Some frame"
      "n + PANE_OUTPUT_FRAME_OVERHEAD \<le> SEED_SEND_WINDOW - outbox_bytes c" "n + PANE_OUTPUT_FRAME_OVERHEAD \<le> remaining"
      "remaining' = remaining - frame_length frame" "transport_closed c \<or> outbox_bytes c + frame_length frame \<le> max_backlog env"
      "c' = on_replay (\<lambda>r. r\<lparr>spool := drop n (spool r), rp_remaining := rp_remaining r - n\<rparr>) (pushed SeedReplay (Some (rp_key r)) frame c)"
proof -
  define n where "n = min (min SEED_CHUNK (min (SEED_SEND_WINDOW - outbox_bytes c) remaining - PANE_OUTPUT_FRAME_OVERHEAD)) (rp_remaining r)"
  have replay: "replay_of c = Some r" using assms by (simp add: replay_of_def)
  note work = assms(1) [unfolded pump_replay_chunk_def replay option.case Let_def, folded n_def]
  show thesis
  proof (cases "SEED_SEND_WINDOW - outbox_bytes c \<le> PANE_OUTPUT_FRAME_OVERHEAD \<or> n = 0")
    case True
    have "SEED_SEND_WINDOW - outbox_bytes c \<le> PANE_OUTPUT_FRAME_OVERHEAD \<or> remaining \<le> PANE_OUTPUT_FRAME_OVERHEAD"
      using True assms(4) by (auto simp: n_def min_def SEED_CHUNK_def split: if_splits)
    then show thesis using work True by (intro blocked) auto
  next
    case False
    then have n: "0 < n" "n \<le> rp_remaining r" "n + PANE_OUTPUT_FRAME_OVERHEAD \<le> SEED_SEND_WINDOW - outbox_bytes c"
      "n + PANE_OUTPUT_FRAME_OVERHEAD \<le> remaining"
      by (auto simp: n_def)
    have "\<not> length (spool r) < n" using work False by (auto split: if_splits)
    moreover obtain frame where frame: "encode_pane_output (seed_pane_id (rp_key r)) (seed_generation (rp_key r)) False default_metadata (take n (spool r)) = Some frame"
      using work False by (auto split: if_splits option.splits)
    moreover have "transport_closed c \<or> outbox_bytes c + frame_length frame \<le> max_backlog env"
      using work False frame by (auto simp: queue_attach_eq split: if_splits)
    ultimately show thesis using work False n by (intro sent [of n frame]) (auto simp: queue_attach_eq not_less)
  qed
qed

lemma catch_up_cases:
  assumes "pump_seed_catch_up env remaining c = (progressed, remaining', Some c')" "seed c = Some s" "catch_up s = f # fs"
  obtains (blocked) "\<not> progressed" "remaining' = remaining" "c' = c"
      "frame_length (cf_bytes f) > SEED_SEND_WINDOW - outbox_bytes c \<or> frame_length (cf_bytes f) > remaining"
  | (sent) "progressed" "frame_length (cf_bytes f) \<le> SEED_SEND_WINDOW - outbox_bytes c" "frame_length (cf_bytes f) \<le> remaining"
      "remaining' = remaining - frame_length (cf_bytes f)"
      "transport_closed c \<or> outbox_bytes c + frame_length (cf_bytes f) \<le> max_backlog env"
      "c' = on_seed (\<lambda>s. (pop_catch_up s)\<lparr>catch_up_bytes := catch_up_bytes s - frame_length (cf_bytes f)\<rparr>)
        (index_outbox_back (cf_replacement f) (pushed SeedCatchUp (output_pane (cf_delta f)) (cf_bytes f) c))"
proof (cases "frame_length (cf_bytes f) > SEED_SEND_WINDOW - outbox_bytes c \<or> frame_length (cf_bytes f) > remaining")
  case True
  then show ?thesis using assms by (intro blocked) (simp_all add: pump_seed_catch_up_def Let_def)
next
  case False
  have fits: "transport_closed c \<or> outbox_bytes c + frame_length (cf_bytes f) \<le> max_backlog env"
    using assms False by (auto simp: pump_seed_catch_up_def queue_attach_eq Let_def not_less split: if_splits)
  then show ?thesis using assms False by (intro sent) (simp_all add: pump_seed_catch_up_def queue_attach_eq Let_def)
qed


lemma on_replay_seed [simp]: "seed (on_replay f c) = map_option (\<lambda>s. s\<lparr>pane_replay := map_option f (pane_replay s)\<rparr>) (seed c)"
  by (simp add: on_replay_def)

lemma finish_status_seed [simp]:
  "seed (finish_program_status_baseline c) =
     map_option (\<lambda>s. s\<lparr>pending_program_status := tl (pending_program_status s), program_status_frame := None\<rparr>) (seed c)"
  by (simp add: finish_program_status_baseline_def)

lemma pop_catch_up_fields [simp]:
  "catch_up (pop_catch_up s) = tl (catch_up s)" "pending_panes (pop_catch_up s) = pending_panes s"
  "pending_program_status (pop_catch_up s) = pending_program_status s" "pane_replay (pop_catch_up s) = pane_replay s"
  "baseline_queued (pop_catch_up s) = baseline_queued s" "manifest (pop_catch_up s) = manifest s" "outdated (pop_catch_up s) = outdated s"
  "catch_up_bytes (pop_catch_up s) = catch_up_bytes s"
  by (auto simp: pop_catch_up_def split: list.split)

lemma work_decreases:
  assumes "pump_attach_seed_work env (next_attach_seed_work c) remaining ex c = (True, remaining', ex', Some c')"
  shows "(c', c) \<in> pump_measure"
proof (cases rule: next_work_cases [of c])
  case idle
  then show ?thesis using assms by (auto simp: pump_attach_seed_work_def)
next
  case (status s key keys)
  have *: "pump_program_status_baseline env key remaining c = (True, remaining', Some c')"
    using assms status(4) by (auto simp: pump_attach_seed_work_def split: if_splits prod.splits)
  show ?thesis by (rule status_cases [OF * status(1)]) (use status in \<open>simp_all add: pump_measure_def\<close>)
next
  case (reset s r frame)
  have *: "pump_replay_reset env remaining c = (True, remaining', Some c')"
    using assms reset(6) by (auto simp: pump_attach_seed_work_def split: prod.splits)
  show ?thesis by (rule reset_cases [OF * reset(1,4,5)]) (use reset in \<open>simp_all add: pump_measure_def replay_left_def\<close>)
next
  case (finish s r)
  then show ?thesis using assms by (auto simp: pump_attach_seed_work_def finish_pane_replay_def pump_measure_def replay_left_def)
next
  case (chunk s r)
  have *: "pump_replay_chunk env remaining c = (True, remaining', Some c')"
    using assms chunk(7) by (auto simp: pump_attach_seed_work_def split: prod.splits)
  show ?thesis by (rule chunk_cases [OF * chunk(1,4,6)]) (use chunk in \<open>simp_all add: pump_measure_def replay_left_def\<close>)
next
  case (launch s key keys)
  then show ?thesis using assms
    by (cases "snapshot_of env key") (auto simp: pump_attach_seed_work_def begin_pane_replay_def pump_measure_def Let_def split: if_splits)
next
  case (follow s f fs)
  have *: "pump_seed_catch_up env remaining c = (True, remaining', Some c')"
    using assms follow(7) by (auto simp: pump_attach_seed_work_def split: prod.splits)
  show ?thesis by (rule catch_up_cases [OF * follow(1,6)]) (use follow in \<open>simp_all add: pump_measure_def\<close>)
qed

function pump_client_attach_seed ::
  "pump_env \<Rightarrow> nat \<Rightarrow> bool \<Rightarrow> bool \<Rightarrow> client_output \<Rightarrow> bool \<times> nat \<times> bool \<times> client_output option" where
  "pump_client_attach_seed env remaining export_available activity c =
     (if next_attach_seed_work c = Complete then (True, remaining, export_available, Some (complete_attach_baseline c))
      else if next_attach_seed_work c = Done then (activity, remaining, export_available, Some c)
      else
        (case pump_attach_seed_work env (next_attach_seed_work c) remaining export_available c of
           (False, remaining, export_available, after) \<Rightarrow> (activity, remaining, export_available, after)
         | (True, remaining, export_available, None) \<Rightarrow> (True, remaining, export_available, None)
         | (True, remaining, export_available, Some after) \<Rightarrow> pump_client_attach_seed env remaining export_available True after))"
  by pat_completeness auto

termination
proof (relation "inv_image pump_measure (\<lambda>(env, remaining, ex, activity, c). c)", goal_cases)
  case 1
  show ?case using wf_pump_measure by (rule wf_inv_image)
qed (simp, metis work_decreases)

declare pump_client_attach_seed.simps [simp del]

end
