(* ===== verification/OutboxAccounts.thy ===== *)
theory OutboxAccounts
  imports Seeding
begin

text \<open>
  The books of a client's queues: every byte counter of \<open>Outbox\<close> is the sum over the frames it stands for,
  less what of the front frame is written, and stays within its cap; and the replacement indexes
  name frames that carry their keys. Each operation of \<open>Outbox\<close> and \<open>Seeding\<close> keeps this.
\<close>

subsection \<open>The invariant\<close>

definition class_bytes :: "outbox_class \<Rightarrow> outbox_frame list \<Rightarrow> nat" where
  "class_bytes cl frames = bytes_of_frames (filter (\<lambda>f. of_class f = cl) frames)"

definition front_part :: "outbox_class \<Rightarrow> client_output \<Rightarrow> nat" where
  "front_part cl c = (case outbox c of [] \<Rightarrow> 0 | f # _ \<Rightarrow> if of_class f = cl then front_offset c else 0)"

definition queued_of :: "outbox_class \<Rightarrow> client_output \<Rightarrow> nat" where
  "queued_of cl c = (case cl of Normal \<Rightarrow> 0 | SeedReplay \<Rightarrow> seed_queued_bytes c | SeedCatchUp \<Rightarrow> seed_catch_up_queued_bytes c)"

definition counts_ok :: "client_output \<Rightarrow> bool" where
  "counts_ok c \<longleftrightarrow>
     outbox_bytes c + front_offset c = bytes_of_frames (outbox c) \<and>
     (\<forall>cl. cl \<noteq> Normal \<longrightarrow> queued_of cl c + front_part cl c = class_bytes cl (outbox c)) \<and>
     (\<forall>f \<in> set (outbox c). 0 < frame_length (of_bytes f)) \<and>
     (case outbox c of [] \<Rightarrow> front_offset c = 0 | f # _ \<Rightarrow> front_offset c < frame_length (of_bytes f))"

definition index_ok :: "client_output \<Rightarrow> bool" where
  "index_ok c \<longleftrightarrow> index_points (outbox_base c) (outbox_replacements c) (map of_replacement (outbox c))"

definition catch_up_ok :: "attach_seed_state \<Rightarrow> bool" where
  "catch_up_ok s \<longleftrightarrow>
     catch_up_bytes s = sum_list (map (\<lambda>f. frame_length (cf_bytes f)) (catch_up s)) \<and>
     (\<forall>f \<in> set (catch_up s). 0 < frame_length (cf_bytes f)) \<and>
     index_points (catch_up_base s) (catch_up_replacements s) (map cf_replacement (catch_up s))"

definition seed_ok :: "client_output \<Rightarrow> bool" where
  "seed_ok c \<longleftrightarrow>
     (seed c = None \<longrightarrow> seed_queued_bytes c = 0 \<and> seed_catch_up_queued_bytes c = 0) \<and>
     (\<forall>s. seed c = Some s \<longrightarrow> catch_up_ok s \<and>
       (\<not> baseline_queued s \<longrightarrow> catch_up_bytes s + seed_catch_up_queued_bytes c \<le> SEED_CATCH_UP_LIMIT))"

definition books :: "client_output \<Rightarrow> bool" where
  "books c \<longleftrightarrow> counts_ok c \<and> index_ok c \<and> seed_ok c"

subsection \<open>Sums and positions\<close>

lemma bytes_simps [simp]:
  "bytes_of_frames [] = 0" "bytes_of_frames (f # fs) = frame_length (of_bytes f) + bytes_of_frames fs"
  "bytes_of_frames (fs @ gs) = bytes_of_frames fs + bytes_of_frames gs"
  by (simp_all add: bytes_of_frames_def)

lemma class_bytes_simps [simp]:
  "class_bytes cl [] = 0" "class_bytes cl (f # fs) = (if of_class f = cl then frame_length (of_bytes f) else 0) + class_bytes cl fs"
  "class_bytes cl (fs @ gs) = class_bytes cl fs + class_bytes cl gs"
  by (simp_all add: class_bytes_def)

lemma bytes_partition: "bytes_of_frames (filter P fs) + bytes_of_frames (filter (\<lambda>f. \<not> P f) fs) = bytes_of_frames fs"
  by (induction fs) auto

lemma class_partition: "class_bytes cl (filter P fs) + class_bytes cl (filter (\<lambda>f. \<not> P f) fs) = class_bytes cl fs"
  by (induction fs) auto

lemma class_le: "class_bytes cl fs \<le> bytes_of_frames fs"
  by (induction fs) auto

lemma bytes_update:
  "i < length fs \<Longrightarrow> bytes_of_frames (fs[i := f]) + frame_length (of_bytes (fs ! i)) = bytes_of_frames fs + frame_length (of_bytes f)"
  by (induction fs arbitrary: i) (auto split: nat.split)

lemma class_update:
  "i < length fs \<Longrightarrow> of_class f = of_class (fs ! i) \<Longrightarrow>
   class_bytes cl (fs[i := f]) + (if of_class f = cl then frame_length (of_bytes (fs ! i)) else 0) =
   class_bytes cl fs + (if of_class f = cl then frame_length (of_bytes f) else 0)"
proof (induction fs arbitrary: i)
  case (Cons g fs)
  show ?case
  proof (cases i)
    case (Suc j)
    then show ?thesis using Cons.IH [of j] Cons.prems by auto
  qed (use Cons.prems in auto)
qed simp

lemma bytes_nth: "i < length fs \<Longrightarrow> frame_length (of_bytes (fs ! i)) \<le> bytes_of_frames fs"
  by (induction fs arbitrary: i) (auto simp: nth_Cons' trans_le_add2)

lemma class_nth: "i < length fs \<Longrightarrow> of_class (fs ! i) = cl \<Longrightarrow> frame_length (of_bytes (fs ! i)) \<le> class_bytes cl fs"
  by (induction fs arbitrary: i) (auto simp: nth_Cons' trans_le_add2 split: if_splits)

lemma length_le_bytes: "(\<forall>f \<in> set fs. 0 < frame_length (of_bytes f)) \<Longrightarrow> length fs \<le> bytes_of_frames fs"
  by (induction fs) auto

lemma queue_class_simps [simp]:
  "queued_of cl (queue_class cl' n c) = queued_of cl c + (if cl = cl' \<and> cl \<noteq> Normal then n else 0)"
  "queued_of cl (unqueue_class cl' n c) = queued_of cl c - (if cl = cl' \<and> cl \<noteq> Normal then n else 0)"
  by (cases cl; cases cl'; simp add: queued_of_def queue_class_def unqueue_class_def)+

lemma queue_index_entry:
  assumes "index_points start m keys" "queue_index m start key = Some i" "length keys < 2 ^ 64"
  shows "i < length keys \<and> keys ! i = key \<and> key \<noteq> None"
proof -
  obtain k p where k: "key = Some k" "m k = Some p" "i = unat (p - start)"
    using assms(2) by (auto simp: queue_index_def checked_sub_def split: option.splits if_splits)
  then obtain j where j: "j < length keys" "p = start + of_nat j" "keys ! j = Some k" using assms(1) unfolding index_points_def by blast
  then have "i = j" using k assms(3) by (simp add: unat_of_nat_less)
  then show ?thesis using j k by simp
qed

lemma index_keys_points:
  "index_points start m keys' \<Longrightarrow> start + of_nat (length keys') = position \<Longrightarrow>
   index_points start (index_keys position keys m) (keys' @ keys)"
proof (induction keys arbitrary: m keys' position)
  case (Cons key keys)
  have "index_points start (case key of None \<Rightarrow> m | Some k \<Rightarrow> m(k \<mapsto> position)) (keys' @ [key])"
    using index_points_append [OF Cons.prems(1), of "[key]"] index_points_insert [OF Cons.prems(1)] Cons.prems(2)
    by (auto split: option.split)
  from Cons.IH [OF this, of "position + 1"] show ?case using Cons.prems(2) by (simp add: algebra_simps)
qed simp

lemma index_rebuilt: "index_points start (index_keys start keys Map.empty) keys"
  using index_keys_points [of start Map.empty "[]" start keys] by simp

lemma index_popped:
  "index_points start m (key # keys) \<Longrightarrow>
   index_points (start + 1) (case key of Some k \<Rightarrow> if m k = Some start then m(k := None) else m | None \<Rightarrow> m) keys"
  by (erule index_points_pop) (auto split: option.splits if_splits)

text \<open>A frame of the outbox is never longer than what is queued, so positions do not wrap.\<close>

lemma outbox_short:
  assumes "counts_ok c" "outbox_bytes c \<le> n"
  shows "length (outbox c) \<le> n"
proof (cases "outbox c")
  case (Cons f fs)
  have "length fs \<le> bytes_of_frames fs" using assms(1) Cons by (intro length_le_bytes) (simp add: counts_ok_def)
  moreover have "bytes_of_frames fs < outbox_bytes c" using assms(1) Cons by (simp add: counts_ok_def)
  ultimately show ?thesis using assms(2) Cons by simp
qed simp


subsection \<open>The operations of the outbox\<close>

lemma pushed_open:
  "\<not> transport_closed c \<Longrightarrow> outbox (pushed cl pane frame c) =
     outbox c @ [\<lparr>of_replacement = None, of_bytes = frame, of_class = cl, of_pane = pane\<rparr>]"
  "\<not> transport_closed c \<Longrightarrow> outbox_bytes (pushed cl pane frame c) = outbox_bytes c + frame_length frame"
  "\<not> transport_closed c \<Longrightarrow> queued_of k (pushed cl pane frame c) = queued_of k c + (if k = cl \<and> k \<noteq> Normal then frame_length frame else 0)"
  by (cases k; cases cl; simp add: pushed_def queued_of_def queue_class_def)+

lemma counts_pushed:
  assumes "counts_ok c" "0 < frame_length frame" "\<not> transport_closed c"
  shows "counts_ok (pushed cl pane frame c)"
proof -
  have "front_part k (pushed cl pane frame c) = front_part k c" for k
    using assms(1) by (auto simp: front_part_def pushed_open [OF assms(3)] counts_ok_def split: list.split)
  then show ?thesis
    using assms(1,2) unfolding counts_ok_def by (auto simp: pushed_open [OF assms(3)] split: list.splits)
qed

lemma index_pushed: "index_ok c \<Longrightarrow> index_ok (pushed cl pane frame c)"
  using index_points_append [of "outbox_base c" "outbox_replacements c" "map of_replacement (outbox c)" "[None]"]
  by (simp add: index_ok_def pushed_def)

lemma index_back_fields [simp]:
  "resync_pending (index_outbox_back key c) = resync_pending c" "front_offset (index_outbox_back key c) = front_offset c"
  "outbox_bytes (index_outbox_back key c) = outbox_bytes c" "transport_closed (index_outbox_back key c) = transport_closed c"
  "seed_queued_bytes (index_outbox_back key c) = seed_queued_bytes c" "stream (index_outbox_back key c) = stream c"
  "seed_catch_up_queued_bytes (index_outbox_back key c) = seed_catch_up_queued_bytes c"
  "conn_attached (index_outbox_back key c) = conn_attached c" "acqs (index_outbox_back key c) = acqs c"
  "shares_filesystem (index_outbox_back key c) = shares_filesystem c"
  by (simp_all add: index_outbox_back_def split: option.split)

lemma index_back_queued [simp]: "queued_of cl (index_outbox_back key c) = queued_of cl c"
  by (cases cl) (simp_all add: queued_of_def)

lemma outbox_index_back:
  "outbox (index_outbox_back key c) = (if outbox c = [] \<or> key = None then outbox c
     else butlast (outbox c) @ [(last (outbox c))\<lparr>of_replacement := key\<rparr>])"
  by (simp add: index_outbox_back_def split: option.split)

lemma counts_index_back [simp]: "counts_ok (index_outbox_back key c) = counts_ok c"
proof (cases "outbox c = [] \<or> key = None")
  case True
  then show ?thesis by (cases "outbox c") (simp_all add: counts_ok_def front_part_def outbox_index_back)
next
  case False
  then obtain fs f k where fs: "outbox c = fs @ [f]" "key = Some k" by (cases "outbox c" rule: rev_cases) auto
  then have "outbox (index_outbox_back key c) = fs @ [f\<lparr>of_replacement := Some k\<rparr>]" by (simp add: outbox_index_back)
  then show ?thesis using fs by (cases fs) (simp_all add: counts_ok_def front_part_def)
qed

lemma index_back_pushed:
  assumes "index_ok c" "\<not> transport_closed c"
  shows "index_ok (index_outbox_back key (pushed cl pane frame c))"
proof (cases key)
  case None
  then show ?thesis using index_pushed [OF assms(1)] by (simp add: index_outbox_back_def)
next
  case (Some k)
  then show ?thesis
    using index_points_insert [OF assms(1) [unfolded index_ok_def], of k] assms(2)
    by (simp add: index_ok_def index_outbox_back_def pushed_open algebra_simps)
qed

lemma replace_outbox_cases:
  assumes "replace_outbox bytes key cap c = (replaced, c')"
  obtains (kept) "\<not> replaced" "c' = c"
  | (replaced) i where "replaced" "queue_index (outbox_replacements c) (outbox_base c) key = Some i" "\<not> (i = 0 \<and> front_started c)"
      "outbox_bytes c - frame_length (of_bytes (outbox c ! i)) + frame_length bytes \<le> cap"
      "outbox c' = (outbox c)[i := (outbox c ! i)\<lparr>of_bytes := bytes\<rparr>]"
      "outbox_bytes c' = outbox_bytes c - frame_length (of_bytes (outbox c ! i)) + frame_length bytes"
      "\<And>cl. queued_of cl c' = (if cl = of_class (outbox c ! i) \<and> cl \<noteq> Normal
         then queued_of cl c - frame_length (of_bytes (outbox c ! i)) + frame_length bytes else queued_of cl c)"
      "outbox_base c' = outbox_base c" "outbox_replacements c' = outbox_replacements c" "front_offset c' = front_offset c"
      "seed c' = seed c" "resync_pending c' = resync_pending c" "transport_closed c' = transport_closed c" "stream c' = stream c"
      "conn_attached c' = conn_attached c" "acqs c' = acqs c" "shares_filesystem c' = shares_filesystem c"
proof (cases "queue_index (outbox_replacements c) (outbox_base c) key")
  case None
  then show thesis using assms kept by (simp add: replace_outbox_def)
next
  case (Some i)
  let ?f = "outbox c ! i"
  show thesis
  proof (cases "i = 0 \<and> front_started c \<or> outbox_bytes c - frame_length (of_bytes ?f) + frame_length bytes > cap")
    case True
    then show thesis using assms kept Some by (auto simp: replace_outbox_def Let_def split: if_splits)
  next
    case False
    have c': "replaced" "c' = (queue_class (of_class ?f) (frame_length bytes) (unqueue_class (of_class ?f) (frame_length (of_bytes ?f)) c))
        \<lparr>outbox := (outbox c)[i := ?f\<lparr>of_bytes := bytes\<rparr>], outbox_bytes := outbox_bytes c - frame_length (of_bytes ?f) + frame_length bytes,
         out_coalesced_frames := out_coalesced_frames c + 1, out_coalesced_bytes := out_coalesced_bytes c + of_nat (frame_length (of_bytes ?f))\<rparr>"
      using assms Some False by (auto simp: replace_outbox_def Let_def)
    have "queued_of cl c' = queued_of cl (queue_class (of_class ?f) (frame_length bytes) (unqueue_class (of_class ?f) (frame_length (of_bytes ?f)) c))" for cl
      unfolding c' by (simp add: queued_of_def split: outbox_class.split)
    then show thesis using Some False by (intro replaced [of i]) (auto simp: c')
  qed
qed

lemma books_replace:
  assumes "replace_outbox bytes key cap c = (replaced, c')" "counts_ok c" "index_ok c" "length (outbox c) < 2 ^ 64" "0 < frame_length bytes"
  shows "counts_ok c' \<and> index_ok c' \<and> (replaced \<longrightarrow> outbox_bytes c' \<le> cap)"
  using assms(1)
proof (cases rule: replace_outbox_cases)
  case (replaced i)
  let ?f = "outbox c ! i"
  have i: "i < length (outbox c)" "of_replacement ?f = key"
    using queue_index_entry [OF assms(3) [unfolded index_ok_def] replaced(2)] assms(4) by auto
  have offset: "i = 0 \<Longrightarrow> front_offset c = 0" using replaced(3) by (simp add: front_started_def)
  have part: "front_part cl c' = front_part cl c" for cl
    using offset i by (cases "outbox c"; cases i) (auto simp: front_part_def replaced(5,10))
  have le: "frame_length (of_bytes ?f) \<le> outbox_bytes c"
  proof (cases i)
    case 0
    then show ?thesis using bytes_nth [OF i(1)] assms(2) offset by (simp add: counts_ok_def)
  next
    case (Suc j)
    then obtain f fs where fs: "outbox c = f # fs" "j < length fs" using i by (cases "outbox c") auto
    then show ?thesis using bytes_nth [of j fs] assms(2) Suc by (simp add: counts_ok_def)
  qed
  have class_le: "frame_length (of_bytes ?f) \<le> queued_of (of_class ?f) c" if "of_class ?f \<noteq> Normal"
  proof (cases i)
    case 0
    have "front_part (of_class ?f) c = 0" using offset [OF 0] by (simp add: front_part_def split: list.split)
    then show ?thesis using class_nth [OF i(1) refl] assms(2) that unfolding counts_ok_def by fastforce
  next
    case (Suc j)
    then obtain f fs where fs: "outbox c = f # fs" "j < length fs" using i by (cases "outbox c") auto
    have "frame_length (of_bytes (fs ! j)) \<le> class_bytes (of_class (fs ! j)) fs" using class_nth [OF fs(2) refl] .
    moreover have "queued_of (of_class ?f) c + front_part (of_class ?f) c = class_bytes (of_class ?f) (f # fs)"
      using assms(2) that fs(1) by (simp add: counts_ok_def)
    moreover have "front_part (of_class ?f) c \<le> (if of_class f = of_class ?f then frame_length (of_bytes f) else 0)"
      using assms(2) fs(1) by (auto simp: front_part_def counts_ok_def)
    ultimately show ?thesis using Suc fs(1) by auto
  qed
  have "outbox_bytes c' + front_offset c' = bytes_of_frames (outbox c')"
    using bytes_update [OF i(1), of "?f\<lparr>of_bytes := bytes\<rparr>"] assms(2) [unfolded counts_ok_def, THEN conjunct1] le
    unfolding replaced(5,6,10) by simp
  moreover have "queued_of cl c' + front_part cl c' = class_bytes cl (outbox c')" if "cl \<noteq> Normal" for cl
    using class_update [OF i(1), of "?f\<lparr>of_bytes := bytes\<rparr>" cl] assms(2) that class_le
    by (auto simp: part replaced counts_ok_def)
  moreover have "\<forall>f \<in> set (outbox c'). 0 < frame_length (of_bytes f)"
    using assms(2,5) set_update_subset_insert [of "outbox c" i "?f\<lparr>of_bytes := bytes\<rparr>"] by (auto simp: replaced counts_ok_def)
  moreover have "case outbox c' of [] \<Rightarrow> front_offset c' = 0 | f # _ \<Rightarrow> front_offset c' < frame_length (of_bytes f)"
    using assms(2,5) offset i(1) by (cases "outbox c"; cases i) (auto simp: replaced counts_ok_def)
  ultimately have "counts_ok c'" by (simp add: counts_ok_def)
  moreover have "map of_replacement (outbox c') = map of_replacement (outbox c)"
    using i(1) by (simp add: replaced map_update list_update_same_conv)
  then have "index_ok c'" using assms(3) by (simp add: index_ok_def replaced)
  ultimately show ?thesis using replaced by simp
qed (use assms in simp)


lemma wrote_cases:
  assumes "outbox c = f # fs"
  obtains (part) "front_offset c + n < frame_length (of_bytes f)" "outbox (wrote n c) = outbox c" "front_offset (wrote n c) = front_offset c + n"
      "outbox_base (wrote n c) = outbox_base c" "outbox_replacements (wrote n c) = outbox_replacements c"
  | (whole) "frame_length (of_bytes f) \<le> front_offset c + n" "outbox (wrote n c) = fs" "front_offset (wrote n c) = 0"
      "outbox_base (wrote n c) = outbox_base c + 1"
      "outbox_replacements (wrote n c) = (case of_replacement f of
         Some key \<Rightarrow> if outbox_replacements c key = Some (outbox_base c) then (outbox_replacements c)(key := None) else outbox_replacements c
       | None \<Rightarrow> outbox_replacements c)"
proof (cases "frame_length (of_bytes f) \<le> front_offset c + n")
  case True
  then show thesis using assms by (intro whole) (cases "of_replacement f"; simp add: wrote_def Let_def pop_outbox_front_def)+
next
  case False
  then show thesis using assms by (intro part) (simp_all add: wrote_def Let_def)
qed

lemma wrote_fields:
  "seed (wrote n c) = seed c" "resync_pending (wrote n c) = resync_pending c" "transport_closed (wrote n c) = transport_closed c"
  "conn_attached (wrote n c) = conn_attached c" "acqs (wrote n c) = acqs c"
  "shares_filesystem (wrote n c) = shares_filesystem c"
  by (simp_all add: wrote_def Let_def pop_outbox_front_def split: list.split)

lemma wrote_counts:
  assumes "outbox c = f # fs"
  shows "outbox_bytes (wrote n c) = outbox_bytes c - n"
    "queued_of cl (wrote n c) = queued_of cl c - (if cl = of_class f \<and> cl \<noteq> Normal then n else 0)"
    "stream (wrote n c) = stream c @ take n (drop (front_offset c) (frame_bytes (of_bytes f)))"
  using assms by (cases cl; cases "of_class f"; simp add: wrote_def Let_def pop_outbox_front_def queued_of_def unqueue_class_def)+

lemma books_wrote:
  assumes "counts_ok c" "index_ok c" "outbox c = f # fs" "front_offset c + n \<le> frame_length (of_bytes f)"
  shows "counts_ok (wrote n c) \<and> index_ok (wrote n c)"
proof -
  have sums: "outbox_bytes c + front_offset c = frame_length (of_bytes f) + bytes_of_frames fs"
    "\<And>cl. cl \<noteq> Normal \<Longrightarrow> queued_of cl c + (if of_class f = cl then front_offset c else 0) =
       (if of_class f = cl then frame_length (of_bytes f) else 0) + class_bytes cl fs"
    "\<forall>f \<in> set fs. 0 < frame_length (of_bytes f)"
    using assms(1,3) by (auto simp: counts_ok_def front_part_def)
  show ?thesis
    using assms(3)
  proof (cases rule: wrote_cases [where n = n])
    case part
    have "front_part cl (wrote n c) = (if of_class f = cl then front_offset c + n else 0)" for cl
      using part assms(3) by (simp add: front_part_def)
    moreover have "queued_of cl (wrote n c) + (if of_class f = cl then front_offset c + n else 0) =
        (if of_class f = cl then frame_length (of_bytes f) else 0) + class_bytes cl fs" if "cl \<noteq> Normal" for cl
      using sums(2) [OF that] part(1) that by (auto simp: wrote_counts [OF assms(3)] split: if_splits)
    ultimately have "counts_ok (wrote n c)"
      using part assms(1,3) sums(1) unfolding counts_ok_def by (simp add: wrote_counts [OF assms(3)])
    then show ?thesis using assms(2) part by (simp add: index_ok_def)
  next
    case whole
    have "front_part cl (wrote n c) = 0" for cl using whole by (simp add: front_part_def split: list.split)
    moreover have "case fs of [] \<Rightarrow> True | g # _ \<Rightarrow> 0 < frame_length (of_bytes g)" using sums(3) by (cases fs) auto
    moreover have "queued_of cl (wrote n c) = class_bytes cl fs" if "cl \<noteq> Normal" for cl
      using sums(2) [OF that] whole(1) assms(4) that by (auto simp: wrote_counts [OF assms(3)] split: if_splits)
    ultimately have "counts_ok (wrote n c)"
      using whole assms(4) sums(1,3) unfolding counts_ok_def by (cases fs) (auto simp: wrote_counts [OF assms(3)])
    moreover have "index_ok (wrote n c)"
      using index_popped [of "outbox_base c" "outbox_replacements c" "of_replacement f" "map of_replacement fs"] assms(2,3) whole
      by (simp add: index_ok_def)
    ultimately show ?thesis by simp
  qed
qed

subsection \<open>Shedding\<close>

lemma purge_counters:
  "outbox_bytes (snd (purge_outbox_pane key c)) = outbox_bytes c - bytes_of_frames (filter (sheds key c) (sheddable_outbox c))"
  "cl \<noteq> Normal \<Longrightarrow> queued_of cl (snd (purge_outbox_pane key c)) = queued_of cl c - class_bytes cl (filter (sheds key c) (sheddable_outbox c))"
  "outbox_replacements (snd (purge_outbox_pane key c)) =
     index_keys (outbox_base c) (map of_replacement (outbox (snd (purge_outbox_pane key c)))) Map.empty"
  by (cases cl; simp add: purge_outbox_pane_def Let_def rebuild_outbox_replacements_def queued_of_def class_bytes_def sheds_def [abs_def])+

lemma purge_books:
  assumes "counts_ok c" "index_ok c"
  shows "counts_ok (snd (purge_outbox_pane key c)) \<and> index_ok (snd (purge_outbox_pane key c))"
proof -
  let ?c = "snd (purge_outbox_pane key c)" and ?D = "filter (sheds key c) (sheddable_outbox c)" and ?K = "filter (\<lambda>f. \<not> sheds key c f) (sheddable_outbox c)"
  have split: "bytes_of_frames (outbox c) = bytes_of_frames (pinned_front c) + bytes_of_frames ?D + bytes_of_frames ?K"
    "class_bytes cl (outbox c) = class_bytes cl (pinned_front c) + class_bytes cl ?D + class_bytes cl ?K" for cl
    using bytes_partition [of "sheds key c" "sheddable_outbox c"] class_partition [of cl "sheds key c" "sheddable_outbox c"]
      arg_cong [OF pinned_sheddable [of c], of bytes_of_frames] arg_cong [OF pinned_sheddable [of c], of "class_bytes cl"]
    by simp_all
  have pinned: "front_offset c = 0 \<or> (\<exists>f. pinned_front c = [f] \<and> outbox c = f # sheddable_outbox c \<and> front_offset c < frame_length (of_bytes f))"
    using assms(1) by (cases "outbox c") (auto simp: pinned_front_def sheddable_outbox_def front_started_def counts_ok_def)
  have part: "front_part cl ?c = front_part cl c \<and> front_part cl c \<le> class_bytes cl (pinned_front c)" for cl
    using pinned by (auto simp: front_part_def purge_fields split: list.split)
  have "front_offset c \<le> bytes_of_frames (pinned_front c)" using pinned by auto
  then have "outbox_bytes ?c + front_offset ?c = bytes_of_frames (outbox ?c)"
    using assms(1) split(1) unfolding counts_ok_def purge_counters(1) purge_fields by simp
  moreover have "queued_of cl ?c + front_part cl ?c = class_bytes cl (outbox ?c)" if "cl \<noteq> Normal" for cl
  proof -
    have "queued_of cl c + front_part cl c = class_bytes cl (outbox c)" using assms(1) that by (simp add: counts_ok_def)
    then show ?thesis using part [of cl] split(2) [of cl] unfolding purge_counters(2) [OF that] purge_fields by simp
  qed
  moreover have "set (outbox ?c) \<subseteq> set (outbox c)" using arg_cong [OF pinned_sheddable [of c], of set] by (auto simp: purge_fields)
  then have "\<forall>f \<in> set (outbox ?c). 0 < frame_length (of_bytes f)" using assms(1) by (auto simp: counts_ok_def)
  moreover have "case outbox ?c of [] \<Rightarrow> front_offset ?c = 0 | f # _ \<Rightarrow> front_offset ?c < frame_length (of_bytes f)"
  proof (cases "outbox ?c")
    case Nil
    then show ?thesis using pinned by (auto simp: purge_fields)
  next
    case (Cons g gs)
    then have "0 < frame_length (of_bytes g)" using \<open>\<forall>f \<in> set (outbox ?c). _\<close> by simp
    then show ?thesis using pinned Cons by (auto simp: purge_fields)
  qed
  ultimately have "counts_ok ?c" by (simp add: counts_ok_def)
  moreover have "index_ok ?c" unfolding index_ok_def purge_fields(5) purge_counters(3) by (rule index_rebuilt)
  ultimately show ?thesis by simp
qed

lemma catch_partition:
  "sum_list (map g (filter P fs)) + sum_list (map g (filter (\<lambda>f. \<not> P f) fs)) = sum_list (map g fs)" for g :: "'a \<Rightarrow> nat"
  by (induction fs) auto

lemma catch_up_shed: "catch_up_ok s \<Longrightarrow> catch_up_ok (shed_from_seed key s) \<and> catch_up_bytes (shed_from_seed key s) \<le> catch_up_bytes s"
  using catch_partition [of "\<lambda>f. frame_length (cf_bytes f)" "\<lambda>f. delta_pane (cf_delta f) = Some key" "catch_up s"]
  by (auto simp: catch_up_ok_def shed_from_seed_def index_rebuilt)

lemma books_cong:
  assumes "outbox c' = outbox c" "outbox_bytes c' = outbox_bytes c" "front_offset c' = front_offset c" "seed_queued_bytes c' = seed_queued_bytes c"
    "seed_catch_up_queued_bytes c' = seed_catch_up_queued_bytes c" "outbox_base c' = outbox_base c" "outbox_replacements c' = outbox_replacements c"
  shows "counts_ok c' = counts_ok c \<and> index_ok c' = index_ok c"
proof -
  have "queued_of cl c' = queued_of cl c" for cl using assms by (cases cl) (simp_all add: queued_of_def)
  then show ?thesis using assms by (cases "outbox c") (simp_all add: counts_ok_def index_ok_def front_part_def)
qed


lemma seed_ok_weaken:
  assumes "seed_ok c" "seed c' = seed c" "seed_catch_up_queued_bytes c' \<le> seed_catch_up_queued_bytes c" "seed_queued_bytes c' \<le> seed_queued_bytes c"
  shows "seed_ok c'"
  using assms unfolding seed_ok_def by (metis add_left_mono order.trans le_zero_eq)

lemma purge_bytes_le:
  "outbox_bytes (snd (purge_outbox_pane key c)) \<le> outbox_bytes c"
  "seed_catch_up_queued_bytes (snd (purge_outbox_pane key c)) \<le> seed_catch_up_queued_bytes c"
  "seed_queued_bytes (snd (purge_outbox_pane key c)) \<le> seed_queued_bytes c"
  using purge_counters(2) [of SeedCatchUp key c] purge_counters(2) [of SeedReplay key c] by (simp_all add: purge_counters(1) queued_of_def)

lemma shed_books:
  assumes "books c"
  shows "books (shed_pane key c) \<and> outbox_bytes (shed_pane key c) \<le> outbox_bytes c"
proof (cases rule: shed_cases [where key = key and c = c])
  case (idle n)
  let ?c = "snd (purge_outbox_pane key c)"
  have "counts_ok ?c \<and> index_ok ?c" using purge_books assms by (simp add: books_def)
  moreover have "seed_ok ?c" using assms purge_fields(2) purge_bytes_le(2,3) by (auto simp: books_def intro: seed_ok_weaken)
  moreover have "counts_ok (shed_pane key c) = counts_ok ?c \<and> index_ok (shed_pane key c) = index_ok ?c"
    unfolding idle(2) by (rule books_cong) simp_all
  moreover have "seed_ok (shed_pane key c) = seed_ok ?c" unfolding idle(2) by (simp add: seed_ok_def)
  ultimately show ?thesis using purge_bytes_le(1) [of key c] idle(2) by (simp add: books_def)
next
  case (barrier s n m)
  let ?c = "snd (purge_outbox_pane key c)"
  have "counts_ok ?c \<and> index_ok ?c" using purge_books assms by (simp add: books_def)
  moreover have "counts_ok (shed_pane key c) = counts_ok ?c \<and> index_ok (shed_pane key c) = index_ok ?c"
    unfolding barrier(3) by (rule books_cong) simp_all
  moreover have "catch_up_ok s" "catch_up_bytes s + seed_catch_up_queued_bytes c \<le> SEED_CATCH_UP_LIMIT"
    using assms barrier by (auto simp: books_def seed_ok_def)
  then have "seed_ok (shed_pane key c)"
    using catch_up_shed [of s key] purge_bytes_le(2) [of key c] unfolding barrier(3) by (simp add: seed_ok_def)
  ultimately show ?thesis using purge_bytes_le(1) [of key c] barrier(3) by (simp add: books_def)
qed

lemma blame_fields [simp]:
  "outbox (blame_seed reason c) = outbox c" "outbox_bytes (blame_seed reason c) = outbox_bytes c"
  "front_offset (blame_seed reason c) = front_offset c" "stream (blame_seed reason c) = stream c"
  "transport_closed (blame_seed reason c) = transport_closed c" "resync_pending (blame_seed reason c) = resync_pending c"
  by (simp_all add: blame_seed_def)

lemma shed_fields [simp]:
  "transport_closed (shed_pane key c) = transport_closed c" "front_offset (shed_pane key c) = front_offset c"
  "stream (shed_pane key c) = stream c" "conn_attached (shed_pane key c) = conn_attached c" "acqs (shed_pane key c) = acqs c"
  "shares_filesystem (shed_pane key c) = shares_filesystem c"
  by (cases rule: shed_cases [where key = key and c = c]; simp add: purge_fields)+

lemma shed_resync: "resync_pending (shed_pane key c) = (if replay_barrier_up c then resync_pending c else insert key (resync_pending c))"
  by (cases rule: shed_cases [where key = key and c = c]) (simp_all add: purge_fields replay_barrier_up_def)

text \<open>Recording a loss, or the reason of a disconnect, leaves the books alone.\<close>

lemma books_noted [simp]:
  "books (c\<lparr>shed_bytes := n\<rparr>) = books c" "books (c\<lparr>resync_pending := K, shed_bytes := n\<rparr>) = books c"
  "books (c\<lparr>resync_pending := K\<rparr>) = books c" "books (c\<lparr>acqs := a\<rparr>) = books c" "books (c\<lparr>conn_attached := b, shares_filesystem := b'\<rparr>) = books c"
  using books_cong [of "c\<lparr>shed_bytes := n\<rparr>" c] books_cong [of "c\<lparr>resync_pending := K, shed_bytes := n\<rparr>" c]
    books_cong [of "c\<lparr>resync_pending := K\<rparr>" c] books_cong [of "c\<lparr>acqs := a\<rparr>" c]
    books_cong [of "c\<lparr>conn_attached := b, shares_filesystem := b'\<rparr>" c]
  by (simp_all add: books_def seed_ok_def)

lemma books_blame [simp]: "books (blame_seed reason c) = books c"
proof -
  have "seed_ok (blame_seed reason c) = seed_ok c"
    by (cases "seed c") (simp_all add: seed_ok_def blame_seed_def catch_up_ok_def)
  then show ?thesis using books_cong [of "blame_seed reason c" c] by (simp add: books_def blame_seed_def)
qed

text \<open>A pane a push may shed: one it may shed at all, and, without a barrier, one with a frame in the outbox.\<close>

definition may_shed :: "client_output \<Rightarrow> pane_seed_key \<Rightarrow> bool" where
  "may_shed c v \<longleftrightarrow> pane_is_sheddable c v \<and> (replay_barrier_up c \<or> (\<exists>f \<in> set (outbox c). of_pane f = Some v))"

lemma may_shed_largest:
  "largest_outbox_pane c = Some v \<Longrightarrow> may_shed c v"
  "largest_catch_up_pane c = Some v \<Longrightarrow> replay_barrier_up c \<Longrightarrow> may_shed c v"
  using largest_outbox_pane_frame [of c v] sheddable_of_largest [of c v]
  by (auto simp: may_shed_def sheddable_outbox_def dest: in_set_dropD)

text \<open>A run of sheds of panes that may be shed, sparing one, and what the two pushing loops come down to.\<close>

inductive sheds_to :: "pane_seed_key option \<Rightarrow> client_output \<Rightarrow> client_output \<Rightarrow> bool" where
  none: "sheds_to spared c c"
| more: "sheds_to spared c c1 \<Longrightarrow> may_shed c1 victim \<Longrightarrow> spared \<noteq> Some victim \<Longrightarrow> sheds_to spared c (shed_pane victim c1)"

lemma sheds_to_first:
  "sheds_to spared (shed_pane victim c) c1 \<Longrightarrow> may_shed c victim \<Longrightarrow> spared \<noteq> Some victim \<Longrightarrow> sheds_to spared c c1"
  by (induction spared "shed_pane victim c" c1 rule: sheds_to.induct) (auto intro: sheds_to.intros)

inductive shed_outcome :: "nat \<Rightarrow> pane_seed_key option \<Rightarrow> nat \<Rightarrow> client_output \<Rightarrow> client_frame_result option \<Rightarrow> client_output \<Rightarrow> bool" where
  fits: "sheds_to pane c c' \<Longrightarrow> outbox_bytes c' + n \<le> cap \<Longrightarrow> shed_outcome n pane cap c None c'"
| own: "sheds_to (Some key) c c1 \<Longrightarrow> may_shed c1 key \<Longrightarrow>
    shed_outcome n (Some key) cap c (Some Ignored) ((shed_pane key c1)\<lparr>shed_bytes := m\<rparr>)"
| lost: "sheds_to (Some key) c c1 \<Longrightarrow> largest_outbox_pane c1 = None \<Longrightarrow> outbox_bytes c1 + n > cap \<Longrightarrow>
    shed_outcome n (Some key) cap c (Some Ignored) (c1\<lparr>resync_pending := insert key (resync_pending c1), shed_bytes := m\<rparr>)"
| overflow: "sheds_to None c c1 \<Longrightarrow> largest_outbox_pane c1 = None \<Longrightarrow> outbox_bytes c1 + n > cap \<Longrightarrow>
    shed_outcome n None cap c (Some Overflow) (blame_seed ''attach-outbox-overflow'' c1)"

lemma shed_outcome_first:
  "shed_outcome n pane cap (shed_pane victim c) result c' \<Longrightarrow> may_shed c victim \<Longrightarrow> pane \<noteq> Some victim \<Longrightarrow>
   shed_outcome n pane cap c result c'"
  by (induction n pane cap "shed_pane victim c" result c' rule: shed_outcome.induct) (auto intro: shed_outcome.intros sheds_to_first)

lemma shed_until_outcome: "shed_until_fits n pane cap c = (result, c') \<Longrightarrow> shed_outcome n pane cap c result c'"
proof (induction n pane cap c rule: shed_until_fits.induct)
  case (1 n pane cap c)
  note eq = 1(2) [unfolded shed_until_fits.simps [of n pane cap c]]
  show ?case
  proof (cases "outbox_bytes c + n \<le> cap")
    case True
    then show ?thesis using eq by (auto intro: shed_outcome.fits sheds_to.none)
  next
    case False
    show ?thesis
    proof (cases "largest_outbox_pane c")
      case None
      then show ?thesis using eq False by (cases pane) (auto intro: shed_outcome.lost shed_outcome.overflow sheds_to.none)
    next
      case (Some victim)
      have may: "may_shed c victim" using may_shed_largest(1) [OF Some] .
      show ?thesis
      proof (cases "pane = Some victim")
        case True
        then show ?thesis using eq False Some may by (auto intro: shed_outcome.own sheds_to.none)
      next
        case other: False
        then have "shed_until_fits n pane cap (shed_pane victim c) = (result, c')" using eq False Some by simp
        then show ?thesis using 1(1) [OF False Some other] may other by (blast intro: shed_outcome_first)
      qed
    qed
  qed
qed

lemma sheds_to_books: "sheds_to spared c c' \<Longrightarrow> books c \<Longrightarrow> books c' \<and> outbox_bytes c' \<le> outbox_bytes c"
  by (induction rule: sheds_to.induct) (use shed_books in \<open>auto intro: order.trans\<close>)

lemma sheds_to_fields:
  "sheds_to spared c c' \<Longrightarrow> transport_closed c' = transport_closed c \<and> front_offset c' = front_offset c \<and> stream c' = stream c \<and>
     conn_attached c' = conn_attached c \<and> acqs c' = acqs c \<and> shares_filesystem c' = shares_filesystem c \<and>
     replay_barrier_up c' = replay_barrier_up c"
  by (induction rule: sheds_to.induct) auto

text \<open>The frame that is about to be retained, in place or at the end.\<close>

definition superseded_pane :: "seed_delta \<Rightarrow> attach_seed_state \<Rightarrow> bool" where
  "superseded_pane delta s \<longleftrightarrow> (case delta_pane delta of Some k \<Rightarrow> k \<in> outdated s | None \<Rightarrow> False)"

inductive catch_up_outcome ::
  "encoded_output \<Rightarrow> seed_delta \<Rightarrow> replacement_key option \<Rightarrow> client_output \<Rightarrow> client_frame_result \<Rightarrow> client_output \<Rightarrow> bool" where
  known: "sheds_to (delta_pane delta) c c1 \<Longrightarrow> seed c1 = Some s \<Longrightarrow> \<not> baseline_queued s \<Longrightarrow> superseded_pane delta s \<Longrightarrow>
    catch_up_outcome bytes delta key c Ignored (c1\<lparr>shed_bytes := m\<rparr>)"
| superseded: "sheds_to (delta_pane delta) c c1 \<Longrightarrow> seed c1 = Some s \<Longrightarrow> \<not> baseline_queued s \<Longrightarrow> \<not> superseded_pane delta s \<Longrightarrow>
    supersede_catch_up bytes delta key s c1 = Some c' \<Longrightarrow> catch_up_outcome bytes delta key c Buffered c'"
| retained: "sheds_to (delta_pane delta) c c1 \<Longrightarrow> seed c1 = Some s \<Longrightarrow> \<not> baseline_queued s \<Longrightarrow> \<not> superseded_pane delta s \<Longrightarrow>
    catch_up_bytes s + seed_catch_up_queued_bytes c1 + frame_length bytes \<le> SEED_CATCH_UP_LIMIT \<Longrightarrow>
    catch_up_outcome bytes delta key c Buffered (c1\<lparr>seed := Some (retain_catch_up bytes delta key s)\<rparr>)"
| shed: "sheds_to (Some k) c c1 \<Longrightarrow> delta_pane delta = Some k \<Longrightarrow> may_shed c1 k \<Longrightarrow>
    catch_up_outcome bytes delta key c Ignored ((shed_pane k c1)\<lparr>shed_bytes := m\<rparr>)"
| full: "sheds_to (delta_pane delta) c c1 \<Longrightarrow> largest_catch_up_pane c1 = None \<Longrightarrow>
    (case delta_pane delta of Some k \<Rightarrow> \<not> pane_is_sheddable c1 k | None \<Rightarrow> True) \<Longrightarrow>
    catch_up_outcome bytes delta key c Overflow (blame_seed ''attach-catch-up-overflow'' c1)"

lemma catch_up_outcome_first:
  "catch_up_outcome bytes delta key (shed_pane victim c) result c' \<Longrightarrow> may_shed c victim \<Longrightarrow> delta_pane delta \<noteq> Some victim \<Longrightarrow>
   catch_up_outcome bytes delta key c result c'"
  by (induction bytes delta key "shed_pane victim c" result c' rule: catch_up_outcome.induct) (auto intro: catch_up_outcome.intros sheds_to_first)

lemma push_catch_up_outcome:
  "push_catch_up bytes delta key c = (result, c') \<Longrightarrow> replay_barrier_up c \<Longrightarrow> catch_up_outcome bytes delta key c result c'"
proof (induction bytes delta key c rule: push_catch_up.induct)
  case (1 bytes delta key c)
  obtain s where s: "seed c = Some s" "\<not> baseline_queued s" using 1(3) by (auto simp: replay_barrier_up_def split: option.splits)
  note eq = 1(2) [unfolded push_catch_up.simps [of bytes delta key c] s(1) option.case, folded superseded_pane_def]
  let ?own = "case delta_pane delta of Some k \<Rightarrow> if pane_is_sheddable c k then Some k else None | None \<Rightarrow> None"
  let ?victim = "case largest_catch_up_pane c of Some victim \<Rightarrow> Some victim | None \<Rightarrow> ?own"
  show ?case
  proof (cases "superseded_pane delta s")
    case True
    then show ?thesis using eq s by (auto intro: catch_up_outcome.known sheds_to.none)
  next
    case new: False
    show ?thesis
    proof (cases "supersede_catch_up bytes delta key s c")
      case (Some c2)
      then show ?thesis using eq s new by (auto intro: catch_up_outcome.superseded sheds_to.none)
    next
      case None
      show ?thesis
      proof (cases "catch_up_bytes s + seed_catch_up_queued_bytes c + frame_length bytes \<le> SEED_CATCH_UP_LIMIT")
        case True
        then show ?thesis using eq s new None by (auto intro: catch_up_outcome.retained sheds_to.none)
      next
        case False
        show ?thesis
        proof (cases ?victim)
          case stuck: None
          then show ?thesis using eq s new None False
            by (auto simp: Let_def intro!: catch_up_outcome.full sheds_to.none split: option.splits if_splits)
        next
          case (Some victim)
          have may: "may_shed c victim"
            using Some may_shed_largest(2) [of c] 1(3) by (auto simp: may_shed_def [of c] split: option.splits if_splits)
          show ?thesis
          proof (cases "delta_pane delta = Some victim")
            case True
            then show ?thesis using eq s new None False Some may
              by (cases "largest_catch_up_pane c") (auto simp: Let_def intro: catch_up_outcome.shed sheds_to.none)
          next
            case other: False
            then have rest: "push_catch_up bytes delta key (shed_pane victim c) = (result, c')"
              using eq s new None False Some by (simp add: Let_def)
            have "catch_up_outcome bytes delta key (shed_pane victim c) result c'"
              using 1(1) [OF s(1,2) _ None False refl Some other rest] new 1(3) by (simp add: superseded_pane_def)
            then show ?thesis using may other by (rule catch_up_outcome_first)
          qed
        qed
      qed
    qed
  qed
qed


subsection \<open>Pushes keep the books\<close>

text \<open>A class without queued bytes has no frame in the outbox.\<close>

lemma absent_class:
  assumes "counts_ok c" "cl \<noteq> Normal" "queued_of cl c = 0" "f \<in> set (outbox c)"
  shows "of_class f \<noteq> cl"
proof
  assume f: "of_class f = cl"
  obtain g gs where g: "outbox c = g # gs" using assms(4) by (cases "outbox c") auto
  have "queued_of cl c + front_part cl c = class_bytes cl (outbox c)" using assms(1,2) by (simp add: counts_ok_def)
  then have sum: "front_part cl c = class_bytes cl (outbox c)" using assms(3) by simp
  have offset: "front_offset c < frame_length (of_bytes g)" using assms(1) g by (simp add: counts_ok_def)
  obtain i where i: "i < length (outbox c)" "outbox c ! i = f" using assms(4) by (auto simp: in_set_conv_nth)
  have pos: "0 < frame_length (of_bytes f)" using assms(1,4) by (simp add: counts_ok_def)
  have "frame_length (of_bytes f) \<le> class_bytes cl (outbox c)" using class_nth [OF i(1)] i(2) f by simp
  then show False using sum offset pos g by (auto simp: front_part_def split: if_splits)
qed

lemma queue_length_books:
  assumes "books c" "outbox_bytes c < 2 ^ 64"
  shows "length (outbox c) < 2 ^ 64"
  using outbox_short [of c "outbox_bytes c"] assms by (simp add: books_def)

lemma books_pushed:
  assumes "books c" "0 < frame_length frame" "\<not> transport_closed c" "cl = Normal \<or> seed c \<noteq> None"
    "cl = SeedCatchUp \<Longrightarrow> \<not> replay_barrier_up c \<or> (\<forall>s. seed c = Some s \<longrightarrow>
       catch_up_bytes s + seed_catch_up_queued_bytes c + frame_length frame \<le> SEED_CATCH_UP_LIMIT)"
  shows "books (index_outbox_back key (pushed cl pane frame c)) \<and> books (pushed cl pane frame c)"
proof -
  have queued: "seed_catch_up_queued_bytes (pushed cl pane frame c) = seed_catch_up_queued_bytes c + (if cl = SeedCatchUp then frame_length frame else 0)"
    using pushed_open(3) [OF assms(3), of SeedCatchUp cl pane frame] by (auto simp: queued_of_def)
  have replay: "seed_queued_bytes (pushed cl pane frame c) = seed_queued_bytes c + (if cl = SeedReplay then frame_length frame else 0)"
    using pushed_open(3) [OF assms(3), of SeedReplay cl pane frame] by (auto simp: queued_of_def)
  have "seed_ok (pushed cl pane frame c)"
    using assms(1,4,5) queued replay by (auto simp: books_def seed_ok_def replay_barrier_up_def)
  moreover from this have "seed_ok (index_outbox_back key (pushed cl pane frame c))" by (simp add: seed_ok_def)
  moreover have "counts_ok (pushed cl pane frame c)" using assms counts_pushed by (simp add: books_def)
  moreover have "index_ok (pushed cl pane frame c)" "index_ok (index_outbox_back key (pushed cl pane frame c))"
    using assms(1,3) index_pushed index_back_pushed by (simp_all add: books_def)
  ultimately show ?thesis by (simp add: books_def)
qed

lemma books_replaced:
  assumes "replace_outbox bytes key cap c = (replaced, c')" "books c" "outbox_bytes c < 2 ^ 64" "0 < frame_length bytes" "\<not> replay_barrier_up c \<or> key = None"
  shows "books c' \<and> (replaced \<longrightarrow> outbox_bytes c' \<le> cap) \<and> (\<not> replaced \<longrightarrow> c' = c)"
proof -
  have b: "counts_ok c' \<and> index_ok c' \<and> (replaced \<longrightarrow> outbox_bytes c' \<le> cap)"
    using books_replace [OF assms(1) _ _ queue_length_books [OF assms(2,3)] assms(4)] assms(2) by (simp add: books_def)
  from assms(1) show ?thesis
  proof (cases rule: replace_outbox_cases)
    case kept
    then show ?thesis using assms(2) by simp
  next
    case (replaced i)
    then have "\<not> replay_barrier_up c" using assms(5) by (auto simp: queue_index_def)
    moreover have "queued_of cl c' = 0" if "cl \<noteq> Normal" "seed c = None" for cl
    proof -
      have zero: "queued_of cl c = 0" using assms(2) that by (cases cl) (auto simp: books_def seed_ok_def queued_of_def)
      have "of_class (outbox c ! i) \<noteq> cl"
        using absent_class [OF _ that(1) zero] assms(2) queue_index_entry [OF _ replaced(2), of "map of_replacement (outbox c)"]
          queue_length_books [OF assms(2,3)] by (auto simp: books_def index_ok_def)
      then show ?thesis using replaced(7) [of cl] zero by auto
    qed
    then have "seed c = None \<longrightarrow> seed_queued_bytes c' = 0 \<and> seed_catch_up_queued_bytes c' = 0" by (auto simp: queued_of_def dest: meta_spec [of _ SeedReplay] meta_spec [of _ SeedCatchUp])
    ultimately have "seed_ok c'" using assms(2) replaced(11) by (auto simp: books_def seed_ok_def replay_barrier_up_def)
    then show ?thesis using b replaced by (simp add: books_def)
  qed
qed

text \<open>A push, by its outcome.\<close>

lemma push_live_books:
  assumes "push_live bytes delta cap key c = (result, c')" "books c" "outbox_bytes c < 2 ^ 64" "0 < frame_length bytes"
    "\<not> transport_closed c" "\<not> replay_barrier_up c \<or> key = None"
  shows "books c' \<and> outbox_bytes c' \<le> max (outbox_bytes c) cap"
proof (cases "case output_pane delta of Some k \<Rightarrow> k \<in> resync_pending c | None \<Rightarrow> False")
  case True
  then show ?thesis using assms(1,2) by (auto simp: push_live_def Let_def)
next
  case False
  obtain replaced c1 where rep: "replace_outbox bytes key cap c = (replaced, c1)" by fastforce
  note r = books_replaced [OF rep assms(2,3,4,6)]
  show ?thesis
  proof (cases replaced)
    case True
    then show ?thesis using r assms(1) False rep by (auto simp: push_live_def Let_def)
  next
    case not: False
    then have "c1 = c" using r by simp
    obtain shed c2 where shed: "shed_until_fits (frame_length bytes) (output_pane delta) cap c = (shed, c2)" by fastforce
    have res: "(result, c') = (case shed of Some result \<Rightarrow> (result, c2) | None \<Rightarrow>
        (Queued, index_outbox_back key (snd (try_push_class bytes cap Normal (output_pane delta) c2))))"
      using assms(1) False rep not shed \<open>c1 = c\<close> by (cases shed) (auto simp: push_live_def Let_def)
    from shed_until_outcome [OF shed] show ?thesis
    proof (cases rule: shed_outcome.cases)
      case fits
      have c2: "books c2" "outbox_bytes c2 \<le> outbox_bytes c" "\<not> transport_closed c2"
        using sheds_to_books [OF fits(2) assms(2)] sheds_to_fields [OF fits(2)] assms(5) by simp_all
      then have "c' = index_outbox_back key (pushed Normal (output_pane delta) bytes c2)" using res fits by (simp add: try_push_eq)
      then show ?thesis using books_pushed [OF c2(1) assms(4) c2(3), of Normal] fits c2 pushed_open(2) [OF c2(3)] by simp
    next
      case (own victim c1 m)
      then show ?thesis using res sheds_to_books [OF own(4) assms(2)] shed_books [of c1 victim] by (auto simp: le_max_iff_disj)
    next
      case (lost k c1 m)
      then show ?thesis using res sheds_to_books [OF lost(4) assms(2)] by (auto simp: le_max_iff_disj)
    next
      case (overflow c1)
      then show ?thesis using res sheds_to_books [OF overflow(4) assms(2)] by (auto simp: le_max_iff_disj)
    qed
  qed
qed


lemma sum_update: "i < length xs \<Longrightarrow> sum_list (map g (xs[i := x])) + g (xs ! i) = sum_list (map g xs) + g x" for g :: "'a \<Rightarrow> nat"
  by (induction xs arbitrary: i) (auto split: nat.split)

lemma elem_le_sum: "i < length xs \<Longrightarrow> g (xs ! i) \<le> sum_list (map g xs)" for g :: "'a \<Rightarrow> nat"
  by (induction xs arbitrary: i) (auto simp: nth_Cons' trans_le_add2)

lemma length_le_sum: "(\<forall>x \<in> set xs. 0 < g x) \<Longrightarrow> length xs \<le> sum_list (map g xs)" for g :: "'a \<Rightarrow> nat"
  by (induction xs) auto

lemma SEED_CATCH_UP_LIMIT_less: "SEED_CATCH_UP_LIMIT < 2 ^ 64"
  by (simp add: SEED_CATCH_UP_LIMIT_def)

text \<open>The entry a key of the catch-up queue stands for, while the barrier is up.\<close>

lemma catch_up_entry:
  assumes "seed_ok c" "seed c = Some s" "\<not> baseline_queued s" "queue_index (catch_up_replacements s) (catch_up_base s) key = Some i"
  shows "i < length (catch_up s) \<and> cf_replacement (catch_up s ! i) = key \<and> key \<noteq> None"
proof -
  have ok: "catch_up_ok s" "catch_up_bytes s \<le> SEED_CATCH_UP_LIMIT" using assms(1-3) by (auto simp: seed_ok_def)
  then have "length (catch_up s) \<le> SEED_CATCH_UP_LIMIT"
    using length_le_sum [of "catch_up s" "\<lambda>f. frame_length (cf_bytes f)"] by (simp add: catch_up_ok_def)
  then have "length (map cf_replacement (catch_up s)) < 2 ^ 64" using SEED_CATCH_UP_LIMIT_less by simp
  with queue_index_entry [OF _ assms(4), of "map cf_replacement (catch_up s)"] ok(1) show ?thesis by (auto simp: catch_up_ok_def)
qed

lemma supersede_cases:
  assumes "supersede_catch_up bytes delta key s c = Some c'" "seed_ok c" "seed c = Some s" "\<not> baseline_queued s"
  obtains i n m where "i < length (catch_up s)" "cf_replacement (catch_up s ! i) = key" "key \<noteq> None"
    "catch_up_bytes s - frame_length (cf_bytes (catch_up s ! i)) + seed_catch_up_queued_bytes c + frame_length bytes \<le> SEED_CATCH_UP_LIMIT"
    "c' = c\<lparr>seed := Some (s\<lparr>catch_up := (catch_up s)[i := \<lparr>cf_replacement = key, cf_bytes = bytes, cf_delta = delta\<rparr>],
       catch_up_bytes := catch_up_bytes s - frame_length (cf_bytes (catch_up s ! i)) + frame_length bytes\<rparr>),
       out_coalesced_frames := n, out_coalesced_bytes := m\<rparr>"
proof -
  obtain i where i: "queue_index (catch_up_replacements s) (catch_up_base s) key = Some i"
    using assms(1) by (auto simp: supersede_catch_up_def split: option.splits)
  then show thesis
    using assms(1) that [of i] catch_up_entry [OF assms(2-4) i] by (auto simp: supersede_catch_up_def Let_def split: if_splits)
qed

lemma catch_up_ok_superseded:
  assumes "catch_up_ok s" "i < length (catch_up s)" "cf_replacement (catch_up s ! i) = key" "0 < frame_length bytes"
  shows "catch_up_ok (s\<lparr>catch_up := (catch_up s)[i := \<lparr>cf_replacement = key, cf_bytes = bytes, cf_delta = delta\<rparr>],
       catch_up_bytes := catch_up_bytes s - frame_length (cf_bytes (catch_up s ! i)) + frame_length bytes\<rparr>)"
proof -
  let ?f = "\<lparr>cf_replacement = key, cf_bytes = bytes, cf_delta = delta\<rparr>"
  have "map cf_replacement ((catch_up s)[i := ?f]) = map cf_replacement (catch_up s)"
    using assms(2,3) by (simp add: map_update list_update_same_conv)
  moreover have "\<forall>f \<in> set ((catch_up s)[i := ?f]). 0 < frame_length (cf_bytes f)"
    using assms(1,4) set_update_subset_insert [of "catch_up s" i ?f] by (auto simp: catch_up_ok_def)
  moreover have "catch_up_bytes s - frame_length (cf_bytes (catch_up s ! i)) + frame_length bytes =
      sum_list (map (\<lambda>f. frame_length (cf_bytes f)) ((catch_up s)[i := ?f]))"
    using sum_update [OF assms(2), of "\<lambda>f. frame_length (cf_bytes f)" ?f] elem_le_sum [OF assms(2), of "\<lambda>f. frame_length (cf_bytes f)"] assms(1)
    by (simp add: catch_up_ok_def)
  ultimately show ?thesis using assms(1) by (simp add: catch_up_ok_def)
qed

lemma catch_up_ok_retained:
  assumes "catch_up_ok s" "0 < frame_length bytes"
  shows "catch_up_ok (retain_catch_up bytes delta key s)"
  using assms index_points_append [of "catch_up_base s" "catch_up_replacements s" "map cf_replacement (catch_up s)" "[None]"]
    index_points_insert [of "catch_up_base s" "catch_up_replacements s" "map cf_replacement (catch_up s)"]
  by (cases key) (auto simp: catch_up_ok_def retain_catch_up_def)

lemma books_seed:
  assumes "books c" "seed c' = Some s" "catch_up_ok s" "seed c \<noteq> None" "\<not> baseline_queued s \<Longrightarrow> catch_up_bytes s + seed_catch_up_queued_bytes c \<le> SEED_CATCH_UP_LIMIT"
    "c' = c\<lparr>seed := Some s, resync_pending := K, out_coalesced_frames := n, out_coalesced_bytes := m\<rparr>"
  shows "books c'"
proof -
  have "counts_ok c' = counts_ok c \<and> index_ok c' = index_ok c" unfolding assms(6) by (rule books_cong) simp_all
  moreover have "seed_ok c'" using assms(2,3,5,6) by (simp add: seed_ok_def)
  ultimately show ?thesis using assms(1) by (simp add: books_def)
qed

lemma push_catch_up_books:
  assumes "push_catch_up bytes delta key c = (result, c')" "books c" "0 < frame_length bytes" "replay_barrier_up c"
  shows "books c' \<and> outbox_bytes c' \<le> outbox_bytes c"
  using push_catch_up_outcome [OF assms(1,4)]
proof (cases rule: catch_up_outcome.cases)
  case (known c1 s m)
  then show ?thesis using sheds_to_books [OF known(3) assms(2)] by simp
next
  case (superseded c1 s)
  note b = sheds_to_books [OF superseded(2) assms(2)]
  have ok: "seed_ok c1" "catch_up_ok s" using b superseded(3) by (auto simp: books_def seed_ok_def)
  show ?thesis
  proof (rule supersede_cases [OF superseded(6) ok(1) superseded(3,4)])
    fix i n m
    let ?s = "s\<lparr>catch_up := (catch_up s)[i := \<lparr>cf_replacement = key, cf_bytes = bytes, cf_delta = delta\<rparr>],
       catch_up_bytes := catch_up_bytes s - frame_length (cf_bytes (catch_up s ! i)) + frame_length bytes\<rparr>"
    assume i: "i < length (catch_up s)" "cf_replacement (catch_up s ! i) = key"
      "catch_up_bytes s - frame_length (cf_bytes (catch_up s ! i)) + seed_catch_up_queued_bytes c1 + frame_length bytes \<le> SEED_CATCH_UP_LIMIT"
      "c' = c1\<lparr>seed := Some ?s, out_coalesced_frames := n, out_coalesced_bytes := m\<rparr>"
    have "books c'"
      by (rule books_seed [where c = c1 and s = ?s and K = "resync_pending c1" and n = n and m = m]) (use b i superseded(3) catch_up_ok_superseded [OF ok(2) i(1,2) assms(3)] in simp_all)
    then show ?thesis using b i(4) by simp
  qed
next
  case (retained c1 s)
  note b = sheds_to_books [OF retained(3) assms(2)]
  have ok: "catch_up_ok s" using b retained(4) by (auto simp: books_def seed_ok_def)
  have "books c'"
    by (rule books_seed [where c = c1 and s = "retain_catch_up bytes delta key s" and K = "resync_pending c1" and
        n = "out_coalesced_frames c1" and m = "out_coalesced_bytes c1"])
      (use b retained catch_up_ok_retained [OF ok assms(3)] in \<open>simp_all add: retain_catch_up_def\<close>)
  then show ?thesis using b retained(2) by simp
next
  case (shed k c1 m)
  then show ?thesis using sheds_to_books [OF shed(3) assms(2)] shed_books [of c1 k] by auto
next
  case (full c1)
  then show ?thesis using sheds_to_books [OF full(3) assms(2)] by simp
qed

lemma push_delta_books:
  assumes "push_delta bytes delta cap key c = (result, c')" "books c" "outbox_bytes c < 2 ^ 64" "0 < frame_length bytes"
    "case delta of PaneResize _ \<Rightarrow> key = None | _ \<Rightarrow> True"
  shows "books c' \<and> outbox_bytes c' \<le> max (outbox_bytes c) cap"
proof -
  obtain r where inner: "push_delta_inner bytes delta cap key c = (r, c')"
    using assms(1) by (auto simp: push_delta_def Let_def split: prod.splits if_splits)
  show ?thesis
  proof (cases "transport_closed c")
    case True
    then show ?thesis using inner assms(2) by (simp add: push_delta_inner_def)
  next
    case op: False
    show ?thesis
    proof (cases "replay_barrier_up c")
      case False
      then have "push_live bytes delta cap key c = (r, c')"
        using inner op by (auto simp: push_delta_inner_def replay_barrier_up_def split: option.splits)
      then show ?thesis using push_live_books assms(2-4) op False by blast
    next
      case True
      then obtain s where s: "seed c = Some s" "\<not> baseline_queued s" by (auto simp: replay_barrier_up_def split: option.splits)
      then consider "c' = c" | "push_live bytes delta cap key c = (r, c')" "key = None" | "push_catch_up bytes delta key c = (r, c')"
        using inner op assms(5) by (cases delta) (auto simp: push_delta_inner_def split: if_splits)
      then show ?thesis
      proof cases
        case 2
        then show ?thesis using push_live_books assms(2-4) op by blast
      next
        case 3
        then show ?thesis using push_catch_up_books [OF _ assms(2,4) True] by fastforce
      qed (use assms(2) in simp)
    qed
  qed
qed


subsection \<open>The pump keeps the books\<close>

lemma books_on_seed:
  assumes "books c"
    "\<And>s. seed c = Some s \<Longrightarrow> catch_up_ok s \<Longrightarrow> catch_up_ok (f s) \<and> catch_up_bytes (f s) \<le> catch_up_bytes s \<and> (baseline_queued s \<longrightarrow> baseline_queued (f s))"
  shows "books (on_seed f c)"
proof -
  have "counts_ok (on_seed f c) = counts_ok c \<and> index_ok (on_seed f c) = index_ok c" by (rule books_cong) simp_all
  moreover have "seed_ok (on_seed f c)"
    using assms by (cases "seed c") (fastforce simp: books_def seed_ok_def)+
  ultimately show ?thesis using assms(1) by (simp add: books_def)
qed

lemma encoded_length:
  assumes "encode_pane_output pane generation loc metadata bytes = Some frame"
  shows "frame_length frame = length bytes + PANE_OUTPUT_FRAME_OVERHEAD" "media frame = []" "scope frame = None"
  using assms
  by (auto simp: encode_pane_output_def write_pane_output_frame_def write_pane_output_media_frame_def write_pane_frame_def
      write_frame_body_def output_semantics_def frame_length_def PANE_OUTPUT_FRAME_OVERHEAD_def frame_len_defs Let_def
      split: sum.splits if_splits prod.splits)

definition positive_frames :: "pump_env \<Rightarrow> client_output \<Rightarrow> bool" where
  "positive_frames env c \<longleftrightarrow>
     (\<forall>key frame. status_of env key = Some frame \<longrightarrow> 0 < frame_length frame) \<and>
     (\<forall>s frame. seed c = Some s \<longrightarrow> program_status_frame s = Some frame \<longrightarrow> 0 < frame_length frame) \<and>
     (\<forall>s r frame. seed c = Some s \<longrightarrow> pane_replay s = Some r \<longrightarrow> reset_frame r = Some frame \<longrightarrow> 0 < frame_length frame)"

lemma pushed_replay_books:
  assumes "books c" "0 < frame_length frame" "\<not> transport_closed c" "seed c \<noteq> None" "frame_length frame \<le> SEED_SEND_WINDOW - outbox_bytes c"
  shows "books (pushed SeedReplay pane frame c) \<and> outbox_bytes (pushed SeedReplay pane frame c) \<le> SEED_SEND_WINDOW"
  using books_pushed [OF assms(1-3), of SeedReplay None pane] assms(2,4,5) pushed_open(2) [OF assms(3)]
  by (simp add: index_outbox_back_def)

lemma pushed_status_frame: "pushed cl pane frame (on_seed f c) = on_seed f (pushed cl pane frame c)"
  by (cases cl) (simp_all add: pushed_def on_seed_def queue_class_def)

lemma pump_status_books:
  assumes "pump_program_status_baseline env key remaining c = (p, remaining', Some c')" "books c" "positive_frames env c" "seed c = Some s" "\<not> transport_closed c"
  shows "books c' \<and> outbox_bytes c' \<le> max (outbox_bytes c) SEED_SEND_WINDOW"
  using assms(1,4)
proof (cases rule: status_cases)
  case (blocked frame)
  then show ?thesis using books_on_seed [OF assms(2)] by (simp add: catch_up_ok_def)
next
  case gone
  then show ?thesis using books_on_seed [OF assms(2)] by (simp add: finish_program_status_baseline_def catch_up_ok_def)
next
  case (sent frame)
  have pos: "0 < frame_length frame" using sent(5) assms(3,4) by (auto simp: positive_frames_def)
  have b: "books (pushed SeedReplay None frame c) \<and> outbox_bytes (pushed SeedReplay None frame c) \<le> SEED_SEND_WINDOW"
    using pushed_replay_books [OF assms(2) pos assms(5)] assms(4) sent(2) by simp
  have c': "c' = on_seed (\<lambda>s. s\<lparr>pending_program_status := tl (pending_program_status s), program_status_frame := None\<rparr>)
      (on_seed (\<lambda>s. s\<lparr>program_status_frame := Some frame\<rparr>) (pushed SeedReplay None frame c))"
    using sent(6) by (simp add: finish_program_status_baseline_def pushed_status_frame)
  show ?thesis unfolding c' using b by (auto intro!: books_on_seed simp: catch_up_ok_def le_max_iff_disj)
qed

lemma pump_reset_books:
  assumes "pump_replay_reset env remaining c = (p, remaining', Some c')" "books c" "positive_frames env c" "seed c = Some s"
    "pane_replay s = Some r" "reset_frame r = Some frame" "\<not> transport_closed c"
  shows "books c' \<and> outbox_bytes c' \<le> max (outbox_bytes c) SEED_SEND_WINDOW"
  using assms(1,4,5,6)
proof (cases rule: reset_cases)
  case sent
  have pos: "0 < frame_length frame" using assms(3-6) by (auto simp: positive_frames_def)
  have b: "books (pushed SeedReplay None frame c) \<and> outbox_bytes (pushed SeedReplay None frame c) \<le> SEED_SEND_WINDOW"
    using pushed_replay_books [OF assms(2) pos assms(7)] assms(4) sent(2) by simp
  show ?thesis unfolding sent(6) on_replay_def using b by (auto intro!: books_on_seed simp: catch_up_ok_def le_max_iff_disj)
qed (use assms(2) in simp)

lemma pump_chunk_books:
  assumes "pump_replay_chunk env remaining c = (p, remaining', Some c')" "books c" "seed c = Some s"
    "pane_replay s = Some r" "0 < rp_remaining r" "\<not> transport_closed c"
  shows "books c' \<and> outbox_bytes c' \<le> max (outbox_bytes c) SEED_SEND_WINDOW"
  using assms(1,3,4,5)
proof (cases rule: chunk_cases)
  case (sent n frame)
  have len: "frame_length frame = n + PANE_OUTPUT_FRAME_OVERHEAD" using encoded_length(1) [OF sent(5)] sent(3) by simp
  have b: "books (pushed SeedReplay (Some (rp_key r)) frame c) \<and> outbox_bytes (pushed SeedReplay (Some (rp_key r)) frame c) \<le> SEED_SEND_WINDOW"
    using pushed_replay_books [OF assms(2) _ assms(6)] assms(3) sent(2,6) len by simp
  show ?thesis unfolding sent(10) on_replay_def using b by (auto intro!: books_on_seed simp: catch_up_ok_def le_max_iff_disj)
qed (use assms(2) in simp)

lemma catch_up_ok_popped:
  assumes "catch_up_ok s" "catch_up s = f # fs"
  shows "catch_up_ok ((pop_catch_up s)\<lparr>catch_up_bytes := catch_up_bytes s - frame_length (cf_bytes f)\<rparr>)"
  using assms index_popped [of "catch_up_base s" "catch_up_replacements s" "cf_replacement f" "map cf_replacement fs"]
  by (simp add: catch_up_ok_def pop_catch_up_def)

lemma pump_catch_up_books:
  assumes "pump_seed_catch_up env remaining c = (p, remaining', Some c')" "books c" "seed c = Some s" "catch_up s = f # fs" "\<not> transport_closed c"
  shows "books c' \<and> outbox_bytes c' \<le> max (outbox_bytes c) SEED_SEND_WINDOW"
  using assms(1,3,4)
proof (cases rule: catch_up_cases)
  case sent
  let ?n = "frame_length (cf_bytes f)" and ?p = "pushed SeedCatchUp (output_pane (cf_delta f)) (cf_bytes f) c"
  let ?s = "(pop_catch_up s)\<lparr>catch_up_bytes := catch_up_bytes s - ?n\<rparr>"
  have ok: "catch_up_ok s" "\<not> baseline_queued s \<Longrightarrow> catch_up_bytes s + seed_catch_up_queued_bytes c \<le> SEED_CATCH_UP_LIMIT"
    using assms(2,3) by (auto simp: books_def seed_ok_def)
  then have n: "0 < ?n" "?n \<le> catch_up_bytes s" using assms(4) by (auto simp: catch_up_ok_def)
  have "counts_ok c' = counts_ok (index_outbox_back (cf_replacement f) ?p) \<and> index_ok c' = index_ok (index_outbox_back (cf_replacement f) ?p)"
    unfolding sent(6) by (rule books_cong) simp_all
  moreover have "counts_ok ?p" "index_ok (index_outbox_back (cf_replacement f) ?p)"
    using counts_pushed n(1) index_back_pushed assms(2,5) by (simp_all add: books_def)
  moreover have "seed c' = Some ?s" "seed_catch_up_queued_bytes c' = seed_catch_up_queued_bytes c + ?n"
    using sent(6) assms(3) pushed_open(3) [OF assms(5), of SeedCatchUp] by (simp_all add: queued_of_def)
  then have "seed_ok c'" using ok n catch_up_ok_popped [OF ok(1) assms(4)] by (simp add: seed_ok_def)
  ultimately show ?thesis using sent(2,6) pushed_open(2) [OF assms(5)] by (auto simp: books_def le_max_iff_disj)
qed (use assms(2) in simp)

lemma pump_work_books:
  assumes "pump_attach_seed_work env (next_attach_seed_work c) remaining ex c = (p, remaining', ex', Some c')"
    "books c" "positive_frames env c" "\<not> transport_closed c"
  shows "books c' \<and> outbox_bytes c' \<le> max (outbox_bytes c) SEED_SEND_WINDOW"
proof (cases rule: next_work_cases [of c])
  case idle
  then show ?thesis using assms by (auto simp: pump_attach_seed_work_def)
next
  case (status s key keys)
  then show ?thesis using assms pump_status_books [OF _ assms(2,3) status(1) assms(4)]
    by (auto simp: pump_attach_seed_work_def split: if_splits prod.splits)
next
  case (reset s r frame)
  then show ?thesis using assms pump_reset_books [OF _ assms(2,3) reset(1,4,5) assms(4)]
    by (auto simp: pump_attach_seed_work_def split: prod.splits)
next
  case (finish s r)
  then show ?thesis using assms by (auto simp: pump_attach_seed_work_def finish_pane_replay_def catch_up_ok_def intro!: books_on_seed split: option.split)
next
  case (chunk s r)
  then show ?thesis using assms pump_chunk_books [OF _ assms(2) chunk(1,4,6) assms(4)]
    by (auto simp: pump_attach_seed_work_def split: prod.splits)
next
  case (launch s key keys)
  have "books (begin_pane_replay env key c)"
    unfolding begin_pane_replay_def using assms(2) by (rule books_on_seed) (simp add: catch_up_ok_def Let_def split: option.split)
  then show ?thesis using assms launch by (auto simp: pump_attach_seed_work_def begin_pane_replay_def split: if_splits)
next
  case (follow s f fs)
  then show ?thesis using assms pump_catch_up_books [OF _ assms(2) follow(1,6) assms(4)]
    by (auto simp: pump_attach_seed_work_def split: prod.splits)
qed

lemma complete_books: "books c \<Longrightarrow> books (complete_attach_baseline c)"
  using books_cong [of "complete_attach_baseline c" c]
  by (auto simp: complete_attach_baseline_def books_def seed_ok_def catch_up_ok_def split: option.splits)

lemma completed_books: "books c \<Longrightarrow> books (snd (take_completed_seed c))"
  using books_cong [of "c\<lparr>seed := None\<rparr>" c] by (auto simp: take_completed_seed_def books_def seed_ok_def split: option.splits)

lemma new_seed_ok: "catch_up_ok (new_seed panes)" "catch_up_ok (resync_seed live stale)"
  "catch_up_bytes (new_seed panes) = 0" "catch_up_bytes (resync_seed live stale) = 0"
  "\<not> baseline_queued (new_seed panes)" "\<not> baseline_queued (resync_seed live stale)"
  by (simp_all add: new_seed_def resync_seed_def catch_up_ok_def Let_def)

lemma resync_books: "books c \<Longrightarrow> books (start_client_resync live c)"
  using books_cong [of "c\<lparr>resync_pending := {}, seed := s\<rparr>" c for s] books_cong [of "c\<lparr>resync_pending := {}\<rparr>" c] new_seed_ok
  by (auto simp: start_client_resync_def books_def seed_ok_def Let_def)

lemma attach_books: "books c \<Longrightarrow> seed c = None \<Longrightarrow> books (enqueue_attach_seeds panes statuses c)"
  using books_cong [of "c\<lparr>seed := s\<rparr>" c for s]
  by (auto simp: enqueue_attach_seeds_def books_def seed_ok_def catch_up_ok_def new_seed_def Let_def)

lemma new_books: "books new_client_output"
  by (auto simp: books_def counts_ok_def index_ok_def seed_ok_def new_client_output_def front_part_def queued_of_def split: outbox_class.split)


subsection \<open>What is left when nothing can be shed\<close>

lemma sheddable_subset: "set (sheddable_outbox c) \<subseteq> set (outbox c)"
  by (auto simp: sheddable_outbox_def dest: in_set_dropD)

lemma largest_sheddable_None:
  assumes "largest_sheddable totals c = None" "(key, n) \<in> set totals" "0 < n"
  shows "\<not> pane_is_sheddable c key"
proof -
  have empty: "max_total xs = None \<Longrightarrow> xs = []" for xs by (cases xs) (auto split: option.splits)
  have "max_total (filter (\<lambda>(key, n). n > 0 \<and> pane_is_sheddable c key) totals) = None" using assms(1) by (simp add: largest_sheddable_def)
  from empty [OF this] show ?thesis using assms(2,3) by (auto simp: filter_empty_conv)
qed

lemma add_total_positive: "\<forall>(k, m) \<in> set totals. 0 < m \<Longrightarrow> 0 < n \<Longrightarrow> \<forall>(k, m) \<in> set (add_total key n totals). 0 < m"
  unfolding add_total_def by (induction totals) auto

lemma fold_total_positive:
  "\<forall>f \<in> set fs. \<forall>key n. g f = Some (key, n) \<longrightarrow> 0 < n \<Longrightarrow> \<forall>(k, m) \<in> set totals. 0 < m \<Longrightarrow>
   \<forall>(k, m) \<in> set (fold (\<lambda>f t. case g f of Some (key, n) \<Rightarrow> add_total key n t | None \<Rightarrow> t) fs totals). 0 < m"
proof (induction fs arbitrary: totals)
  case (Cons f fs)
  have "\<forall>(k, m) \<in> set (case g f of Some (key, n) \<Rightarrow> add_total key n totals | None \<Rightarrow> totals). 0 < m"
  proof (cases "g f")
    case (Some x)
    then show ?thesis using add_total_positive [OF Cons.prems(2), of "snd x" "fst x"] Cons.prems(1) by (cases x) simp
  qed (use Cons.prems in simp)
  then show ?case using Cons.IH Cons.prems(1) by simp
qed simp

lemma nothing_sheddable:
  assumes "largest_outbox_pane c = None" "counts_ok c" "\<not> replay_barrier_up c" "f \<in> set (sheddable_outbox c)"
  shows "of_pane f = None"
proof (rule ccontr)
  assume "of_pane f \<noteq> None"
  then obtain k where k: "of_pane f = Some k" by blast
  let ?t = "fold (\<lambda>f t. case outbox_total (replay_barrier_up c) f of Some (key, n) \<Rightarrow> add_total key n t | None \<Rightarrow> t) (sheddable_outbox c) []"
  have "outbox_total (replay_barrier_up c) f = Some (k, frame_length (of_bytes f))" using k assms(3) by (simp add: outbox_total_def)
  then have "k \<in> fst ` set ?t" using assms(4) unfolding fold_total_keys by blast
  then obtain n where n: "(k, n) \<in> set ?t" by auto
  have "\<forall>f \<in> set (sheddable_outbox c). 0 < frame_length (of_bytes f)" using assms(2) sheddable_subset [of c] by (auto simp: counts_ok_def)
  then have "\<forall>(k, m) \<in> set ?t. 0 < m"
    by (intro fold_total_positive) (auto simp: outbox_total_def split: option.splits if_splits)
  then have "\<not> pane_is_sheddable c k"
    using largest_sheddable_None [OF _ n] assms(1) n unfolding largest_outbox_pane_fold by auto
  then show False using assms(3) by (auto simp: pane_is_sheddable_def replay_barrier_up_def split: option.splits)
qed

text \<open>Shedding leaves the manifest alone.\<close>

lemma sheds_to_manifest:
  "sheds_to spared c c' \<Longrightarrow> map_option manifest (seed c') = map_option manifest (seed c)"
proof (induction rule: sheds_to.induct)
  case (more spared c c1 victim)
  then show ?case by (cases "seed c1") (auto simp: shed_seed shed_from_seed_def)
qed simp

end
