(* ===== verification/SeedProgress.thy ===== *)
theory SeedProgress
  imports OutboxAccounts
begin

text \<open>
  Whether a replay gets through, and whom overflow disconnects. \<open>pump_attach_seeds\<close> is one tick of the pump over all clients
  (\<^verbatim>\<open>lease.rs\<close>): the clients behind a barrier take turns at being first, and share one byte budget and one export.

  Shown: a client whose waiting frames fit the budget of a tick gets its baseline queued, a catch-up frame that does not
  fit stops its replay for good, and pane output disconnects a client only behind a barrier that does not know the pane.
\<close>

subsection \<open>One tick over all clients\<close>

definition seeding :: "client_output \<Rightarrow> bool" where
  "seeding c \<longleftrightarrow> (case seed c of None \<Rightarrow> False | Some s \<Rightarrow> \<not> baseline_queued s)"

definition set_client :: "nat \<Rightarrow> client_output option \<Rightarrow> (nat \<times> client_output) list \<Rightarrow> (nat \<times> client_output) list" where
  "set_client i c clients = (case c of None \<Rightarrow> filter (\<lambda>(j, _). j \<noteq> i) clients | Some c \<Rightarrow> AList.update i c clients)"

text \<open>The loop over the clients; \<open>environ\<close> is what the pump is given for each.\<close>

fun pump_clients ::
  "(nat \<Rightarrow> pump_env) \<Rightarrow> nat list \<Rightarrow> nat \<Rightarrow> bool \<Rightarrow> bool \<Rightarrow> (nat \<times> client_output) list \<Rightarrow> bool \<times> (nat \<times> client_output) list" where
  "pump_clients environ [] remaining ex activity clients = (activity, clients)"
| "pump_clients environ (i # ids) remaining ex activity clients =
     (if remaining \<le> PANE_OUTPUT_FRAME_OVERHEAD then (activity, clients)
      else case map_of clients i of
        None \<Rightarrow> pump_clients environ ids remaining ex activity clients
      | Some c \<Rightarrow>
          (case pump_client_attach_seed (environ i) remaining ex False c of
             (progressed, remaining', ex', after) \<Rightarrow>
               pump_clients environ ids remaining' ex' (activity \<or> progressed) (set_client i after clients)))"

definition pump_attach_seeds ::
  "(nat \<Rightarrow> pump_env) \<Rightarrow> pane_seed_key list \<Rightarrow> u64 \<Rightarrow> (nat \<times> client_output) list \<Rightarrow> bool \<times> u64 \<times> (nat \<times> client_output) list" where
  "pump_attach_seeds environ live cursor clients =
     (let clients = map (\<lambda>(i, c). (i, start_client_resync live c)) clients;
          ids = map fst (filter (\<lambda>(_, c). seeding c) clients)
      in if ids = [] then (False, cursor, clients)
         else
           let start = unat cursor mod length ids;
               (activity, clients) = pump_clients environ (drop start ids @ take start ids) SEED_PUMP_BYTES_PER_TICK True False clients
           in (activity, cursor + 1, clients))"

subsection \<open>What can be pumped\<close>

text \<open>
  What a replay needs: exports that yield as many bytes as they announce, no pipeline that holds one back, and waiting frames that
  fit: a status message the send window, any other frame the budget of a tick.
\<close>

definition pumpable :: "pump_env \<Rightarrow> bool" where
  "pumpable env \<longleftrightarrow>
     SEED_SEND_WINDOW \<le> max_backlog env \<and> (\<forall>k. \<not> blocks_replay env k) \<and>
     (\<forall>k frame. status_of env k = Some frame \<longrightarrow> frame_length frame \<le> SEED_SEND_WINDOW) \<and>
     (\<forall>k snapshot. snapshot_of env k = Some snapshot \<longrightarrow> sn_length snapshot \<le> length (sn_stored snapshot) \<and>
        (\<forall>frame. sn_reset snapshot = Some frame \<longrightarrow> 0 < frame_length frame \<and> frame_length frame \<le> SEED_PUMP_BYTES_PER_TICK))"

definition fits_tick :: "client_output \<Rightarrow> bool" where
  "fits_tick c \<longleftrightarrow>
     \<not> transport_closed c \<and>
     (\<forall>s. seed c = Some s \<longrightarrow>
        (\<forall>frame. program_status_frame s = Some frame \<longrightarrow> frame_length frame \<le> SEED_SEND_WINDOW) \<and>
        (\<forall>r. pane_replay s = Some r \<longrightarrow> rp_remaining r \<le> length (spool r) \<and>
           (\<forall>frame. reset_frame r = Some frame \<longrightarrow> 0 < frame_length frame \<and> frame_length frame \<le> SEED_PUMP_BYTES_PER_TICK)) \<and>
        (\<forall>f \<in> set (catch_up s). 0 < frame_length (cf_bytes f) \<and> frame_length (cf_bytes f) \<le> SEED_PUMP_BYTES_PER_TICK))"

lemma window_budget: "SEED_PUMP_BYTES_PER_TICK \<le> SEED_SEND_WINDOW" "PANE_OUTPUT_FRAME_OVERHEAD < SEED_PUMP_BYTES_PER_TICK"
  by (simp_all add: SEED_PUMP_BYTES_PER_TICK_def SEED_SEND_WINDOW_def PANE_OUTPUT_FRAME_OVERHEAD_def PANE_OUTPUT_METADATA_LEN_def PANE_OUTPUT_SEMANTICS_LEN_def)

text \<open>A chunk always encodes.\<close>

lemma encoded_some: "length bytes \<le> SEED_CHUNK \<Longrightarrow> encode_pane_output pane generation loc default_metadata bytes \<noteq> None"
  by (auto simp: encode_pane_output_def write_pane_output_frame_def write_pane_output_media_frame_def write_pane_frame_def
      write_frame_body_def SEED_CHUNK_def MAX_FRAME_SIZE_def split: sum.splits if_splits)

lemma fits_cap: "0 < n \<Longrightarrow> n \<le> SEED_SEND_WINDOW - b \<Longrightarrow> SEED_SEND_WINDOW \<le> cap \<Longrightarrow> b + n \<le> (cap :: nat)"
  by simp

lemma status_total:
  "pump_program_status_baseline env key remaining c = (p, remaining', after) \<Longrightarrow> after \<noteq> None"
  by (auto simp: pump_program_status_baseline_def push_program_status_def try_push_eq Let_def split: option.splits if_splits)

lemma reset_total:
  assumes "pump_replay_reset env remaining c = (p, remaining', after)" "pumpable env" "fits_tick c" "seed c = Some s" "pane_replay s = Some r" "reset_frame r = Some frame"
  shows "after \<noteq> None"
proof -
  have "0 < frame_length frame" "SEED_SEND_WINDOW \<le> max_backlog env" using assms(2-6) by (auto simp: fits_tick_def pumpable_def)
  then have "outbox_bytes c + frame_length frame \<le> max_backlog env" if "frame_length frame \<le> SEED_SEND_WINDOW - outbox_bytes c"
    using that fits_cap by blast
  then show ?thesis
    using assms(1,4-6) by (auto simp: pump_replay_reset_def replay_of_def queue_attach_eq Let_def split: if_splits)
qed

lemma chunk_total:
  assumes "pump_replay_chunk env remaining c = (p, remaining', after)" "pumpable env" "fits_tick c" "seed c = Some s" "pane_replay s = Some r"
  shows "after \<noteq> None"
proof -
  define n where "n = min (min SEED_CHUNK (min (SEED_SEND_WINDOW - outbox_bytes c) remaining - PANE_OUTPUT_FRAME_OVERHEAD)) (rp_remaining r)"
  have replay: "replay_of c = Some r" using assms(4,5) by (simp add: replay_of_def)
  note work = assms(1) [unfolded pump_replay_chunk_def replay option.case Let_def, folded n_def]
  have spool: "n \<le> length (spool r)" using assms(3-5) by (auto simp: fits_tick_def n_def)
  moreover have "n \<le> SEED_CHUNK" unfolding n_def by (simp add: min.coboundedI1)
  ultimately have "length (take n (spool r)) \<le> SEED_CHUNK" by simp
  then obtain frame where frame: "encode_pane_output (seed_pane_id (rp_key r)) (seed_generation (rp_key r)) False default_metadata (take n (spool r)) = Some frame"
    using encoded_some by blast
  have len: "frame_length frame = n + PANE_OUTPUT_FRAME_OVERHEAD" using encoded_length(1) [OF frame] spool by simp
  show ?thesis
  proof (cases "SEED_SEND_WINDOW - outbox_bytes c \<le> PANE_OUTPUT_FRAME_OVERHEAD \<or> n = 0")
    case False
    then have "n + PANE_OUTPUT_FRAME_OVERHEAD \<le> SEED_SEND_WINDOW - outbox_bytes c" by (auto simp: n_def)
    then have "outbox_bytes c + frame_length frame \<le> max_backlog env"
      using fits_cap [of "n + PANE_OUTPUT_FRAME_OVERHEAD"] False assms(2) len by (auto simp: pumpable_def)
    then show ?thesis using work False spool frame by (auto simp: queue_attach_eq)
  qed (use work in auto)
qed

lemma catch_up_total:
  assumes "pump_seed_catch_up env remaining c = (p, remaining', after)" "pumpable env" "fits_tick c" "seed c = Some s" "catch_up s = f # fs"
  shows "after \<noteq> None"
proof -
  have "0 < frame_length (cf_bytes f)" "SEED_SEND_WINDOW \<le> max_backlog env" using assms(2-5) by (auto simp: fits_tick_def pumpable_def)
  then have "outbox_bytes c + frame_length (cf_bytes f) \<le> max_backlog env" if "frame_length (cf_bytes f) \<le> SEED_SEND_WINDOW - outbox_bytes c"
    using that fits_cap by blast
  then show ?thesis
    using assms(1,4,5) by (auto simp: pump_seed_catch_up_def queue_attach_eq Let_def split: if_splits)
qed

lemma fits_on_seed:
  "fits_tick c \<Longrightarrow>
   (\<And>s. seed c = Some s \<Longrightarrow> program_status_frame (h s) = program_status_frame s \<or> program_status_frame (h s) = None) \<Longrightarrow>
   (\<And>s r. seed c = Some s \<Longrightarrow> pane_replay (h s) = Some r \<Longrightarrow> rp_remaining r \<le> length (spool r) \<and>
      (\<forall>frame. reset_frame r = Some frame \<longrightarrow> 0 < frame_length frame \<and> frame_length frame \<le> SEED_PUMP_BYTES_PER_TICK)) \<Longrightarrow>
   (\<And>s. seed c = Some s \<Longrightarrow> set (catch_up (h s)) \<subseteq> set (catch_up s)) \<Longrightarrow> fits_tick (on_seed h c)"
  by (cases "seed c") (fastforce simp: fits_tick_def)+

text \<open>Under those conditions no piece of work removes the client, and the conditions stay.\<close>

lemma work_keeps_client:
  assumes "pumpable env" "fits_tick c" "pump_attach_seed_work env (next_attach_seed_work c) remaining ex c = (p, remaining', ex', after)"
  shows "\<exists>c'. after = Some c' \<and> fits_tick c'"
proof (cases rule: next_work_cases [of c])
  case idle
  then show ?thesis using assms by (auto simp: pump_attach_seed_work_def)
next
  case (status s key keys)
  then have *: "pump_program_status_baseline env key remaining c = (p, remaining', after) \<or> after = Some c"
    using assms(3) by (auto simp: pump_attach_seed_work_def split: if_splits prod.splits)
  then show ?thesis
  proof
    assume w: "pump_program_status_baseline env key remaining c = (p, remaining', after)"
    then obtain c' where c': "after = Some c'" using status_total by blast
    have frame: "frame_length frame \<le> SEED_SEND_WINDOW" if "program_status_frame s = Some frame \<or> status_of env key = Some frame" for frame
      using that assms(1,2) status(1) by (auto simp: pumpable_def fits_tick_def)
    from w [unfolded c'] status(1) have "fits_tick c'"
      by (cases rule: status_cases)
        (use assms(2) status(1) frame in \<open>auto simp: fits_tick_def finish_program_status_baseline_def pushed_status_frame\<close>)
    then show ?thesis using c' by blast
  qed (use assms(2) in simp)
next
  case (reset s r frame)
  then have w: "pump_replay_reset env remaining c = (p, remaining', after)"
    using assms(3) by (auto simp: pump_attach_seed_work_def split: prod.splits)
  obtain c' where c': "after = Some c'" using reset_total [OF w assms(1,2) reset(1,4,5)] by blast
  from w [unfolded c'] reset(1,4,5) have "fits_tick c'"
    by (cases rule: reset_cases) (use assms(2) reset in \<open>auto simp: fits_tick_def on_replay_def\<close>)
  then show ?thesis using c' by blast
next
  case (finish s r)
  then have "after = Some (finish_pane_replay c)" using assms(3) by (simp add: pump_attach_seed_work_def)
  then show ?thesis using assms(2) finish by (simp add: fits_tick_def finish_pane_replay_def)
next
  case (chunk s r)
  then have w: "pump_replay_chunk env remaining c = (p, remaining', after)"
    using assms(3) by (auto simp: pump_attach_seed_work_def split: prod.splits)
  obtain c' where c': "after = Some c'" using chunk_total [OF w assms(1,2) chunk(1,4)] by blast
  from w [unfolded c'] chunk(1,4,6) have "fits_tick c'"
    by (cases rule: chunk_cases) (use assms(2) chunk in \<open>auto simp: fits_tick_def on_replay_def\<close>)
  then show ?thesis using c' by blast
next
  case (launch s key keys)
  then have "after = Some c \<or> after = Some (begin_pane_replay env key c)"
    using assms(3) by (auto simp: pump_attach_seed_work_def split: if_splits)
  moreover have "fits_tick (begin_pane_replay env key c)"
    using assms(1,2) launch by (cases "snapshot_of env key") (auto simp: fits_tick_def begin_pane_replay_def Let_def pumpable_def)
  ultimately show ?thesis using assms(2) by blast
next
  case (follow s f fs)
  then have w: "pump_seed_catch_up env remaining c = (p, remaining', after)"
    using assms(3) by (auto simp: pump_attach_seed_work_def split: prod.splits)
  obtain c' where c': "after = Some c'" using catch_up_total [OF w assms(1,2) follow(1,6)] by blast
  have status: "program_status_frame (pop_catch_up s) = program_status_frame s" by (simp add: pop_catch_up_def split: list.split)
  from w [unfolded c'] follow(1,6) have "fits_tick c'"
    by (cases rule: catch_up_cases) (use assms(2) follow status in \<open>auto simp: fits_tick_def\<close>)
  then show ?thesis using c' by blast
qed

text \<open>At the start of a tick, with the outbox empty, the first piece of work gets done.\<close>

lemma fresh_progress:
  assumes "pumpable env" "fits_tick c" "outbox_bytes c = 0" "seeding c" "next_attach_seed_work c \<noteq> Complete"
    "pump_attach_seed_work env (next_attach_seed_work c) SEED_PUMP_BYTES_PER_TICK True c = (p, remaining', ex', after)"
  shows "p"
proof (cases rule: next_work_cases [of c])
  case idle
  then show ?thesis using assms(4,5) by (auto simp: next_attach_seed_work_def seeding_def split: option.splits if_splits list.splits)
next
  case (status s key keys)
  then have w: "pump_program_status_baseline env key SEED_PUMP_BYTES_PER_TICK c = (p, remaining', after)"
    using assms(6) by (auto simp: pump_attach_seed_work_def split: prod.splits)
  obtain c' where c': "after = Some c'" using status_total [OF w] by blast
  have frame: "frame_length frame \<le> SEED_SEND_WINDOW" if "program_status_frame s = Some frame \<or> status_of env key = Some frame" for frame
    using that assms(1,2) status(1) by (auto simp: pumpable_def fits_tick_def)
  from w [unfolded c'] status(1) show ?thesis
  proof (cases rule: status_cases)
    case (blocked f)
    then show ?thesis using frame [of f] assms(3) by simp
  qed simp_all
next
  case (reset s r frame)
  then have w: "pump_replay_reset env SEED_PUMP_BYTES_PER_TICK c = (p, remaining', after)"
    using assms(6) by (auto simp: pump_attach_seed_work_def split: prod.splits)
  obtain c' where c': "after = Some c'" using reset_total [OF w assms(1,2) reset(1,4,5)] by blast
  have "frame_length frame \<le> SEED_PUMP_BYTES_PER_TICK" using assms(2) reset by (auto simp: fits_tick_def)
  with w [unfolded c'] reset(1,4,5) show ?thesis
    by (cases rule: reset_cases) (use assms(3) window_budget in auto)
next
  case (finish s r)
  then show ?thesis using assms(6) by (simp add: pump_attach_seed_work_def)
next
  case (chunk s r)
  then have w: "pump_replay_chunk env SEED_PUMP_BYTES_PER_TICK c = (p, remaining', after)"
    using assms(6) by (auto simp: pump_attach_seed_work_def split: prod.splits)
  obtain c' where c': "after = Some c'" using chunk_total [OF w assms(1,2) chunk(1,4)] by blast
  from w [unfolded c'] chunk(1,4,6) show ?thesis
    by (cases rule: chunk_cases) (use assms(3) window_budget in auto)
next
  case (launch s key keys)
  then show ?thesis using assms(1,6) by (auto simp: pump_attach_seed_work_def pumpable_def)
next
  case (follow s f fs)
  then have w: "pump_seed_catch_up env SEED_PUMP_BYTES_PER_TICK c = (p, remaining', after)"
    using assms(6) by (auto simp: pump_attach_seed_work_def split: prod.splits)
  obtain c' where c': "after = Some c'" using catch_up_total [OF w assms(1,2) follow(1,6)] by blast
  have "frame_length (cf_bytes f) \<le> SEED_PUMP_BYTES_PER_TICK" using assms(2) follow by (auto simp: fits_tick_def)
  with w [unfolded c'] follow(1,6) show ?thesis
    by (cases rule: catch_up_cases) (use assms(3) window_budget in auto)
qed


subsection \<open>The baseline gets queued\<close>

lemma not_seeding_work: "\<not> seeding c \<longleftrightarrow> next_attach_seed_work c = Done"
  by (auto simp: seeding_def next_attach_seed_work_def split: option.splits list.splits)

lemma completed_not_seeding: "next_attach_seed_work c = Complete \<Longrightarrow> \<not> seeding (complete_attach_baseline c)"
  by (auto simp: complete_attach_baseline_def seeding_def next_attach_seed_work_def split: option.splits)

lemma trans_pump_measure: "trans pump_measure"
  unfolding pump_measure_def by (intro trans_inv_image trans_lex_prod trans_less_than)

text \<open>Work that did not progress leaves as much to do.\<close>

lemma stuck_work:
  assumes "pump_attach_seed_work env (next_attach_seed_work c) remaining ex c = (False, remaining', ex', Some c')" "(c, x) \<in> pump_measure"
  shows "(c', x) \<in> pump_measure"
proof (cases rule: next_work_cases [of c])
  case (status s key keys)
  then have *: "pump_program_status_baseline env key remaining c = (False, remaining', Some c') \<or> c' = c"
    using assms(1) by (auto simp: pump_attach_seed_work_def split: if_splits prod.splits)
  then show ?thesis
  proof
    assume w: "pump_program_status_baseline env key remaining c = (False, remaining', Some c')"
    then show ?thesis using status(1)
      by (cases rule: status_cases) (use assms(2) status(1) in \<open>auto simp: pump_measure_def\<close>)
  qed (use assms(2) in simp)
next
  case (reset s r frame)
  then have w: "pump_replay_reset env remaining c = (False, remaining', Some c')"
    using assms(1) by (auto simp: pump_attach_seed_work_def split: prod.splits)
  then show ?thesis using reset(1,4,5) by (cases rule: reset_cases) (use assms(2) in auto)
next
  case (chunk s r)
  then have w: "pump_replay_chunk env remaining c = (False, remaining', Some c')"
    using assms(1) by (auto simp: pump_attach_seed_work_def split: prod.splits)
  then show ?thesis using chunk(1,4,6) by (cases rule: chunk_cases) (use assms(2) in auto)
next
  case (follow s f fs)
  then have w: "pump_seed_catch_up env remaining c = (False, remaining', Some c')"
    using assms(1) by (auto simp: pump_attach_seed_work_def split: prod.splits)
  then show ?thesis using follow(1,6) by (cases rule: catch_up_cases) (use assms(2) in auto)
qed (use assms in \<open>auto simp: pump_attach_seed_work_def split: if_splits\<close>)

text \<open>A turn of the pump: the client stays, and nothing is added to what is left, or nothing is left.\<close>

lemma pump_kept:
  assumes "pumpable env" "fits_tick c" "pump_client_attach_seed env remaining ex activity c = (activity', remaining', ex', after)"
  shows "\<exists>c'. after = Some c' \<and> fits_tick c' \<and> (seeding c' \<longrightarrow> (\<forall>x. (c, x) \<in> pump_measure \<longrightarrow> (c', x) \<in> pump_measure))"
  using assms
proof (induction env remaining ex activity c rule: pump_client_attach_seed.induct)
  case (1 env remaining ex activity c)
  note eq = 1(4) [unfolded pump_client_attach_seed.simps [of env remaining ex activity c]]
  show ?case
  proof (cases "next_attach_seed_work c = Complete \<or> next_attach_seed_work c = Done")
    case True
    have "fits_tick (complete_attach_baseline c)" using 1(3) by (cases "seed c") (auto simp: fits_tick_def complete_attach_baseline_def)
    then show ?thesis using eq True completed_not_seeding [of c] 1(3) by (auto split: if_splits)
  next
    case False
    obtain p r1 e1 after1 where w: "pump_attach_seed_work env (next_attach_seed_work c) remaining ex c = (p, r1, e1, after1)" by (metis prod_cases4)
    obtain c1 where c1: "after1 = Some c1" "fits_tick c1" using work_keeps_client [OF 1(2,3) w] by blast
    show ?thesis
    proof (cases p)
      case True
      have less: "(c1, c) \<in> pump_measure" using work_decreases [of env c remaining ex r1 e1 c1] w c1(1) True by simp
      have rest: "pump_client_attach_seed env r1 e1 True c1 = (activity', remaining', ex', after)" using eq False w c1(1) True by auto
      have "\<exists>c'. after = Some c' \<and> fits_tick c' \<and> (seeding c' \<longrightarrow> (\<forall>x. (c1, x) \<in> pump_measure \<longrightarrow> (c', x) \<in> pump_measure))"
        using False w c1 True 1(2) rest by (intro 1(1)) auto
      then show ?thesis using less transD [OF trans_pump_measure] by blast
    next
      case stuck: False
      then have "after = Some c1" using eq False w c1(1) by auto
      then show ?thesis using c1(2) stuck_work [of env c remaining ex r1 e1 c1] w c1(1) stuck by auto
    qed
  qed
qed

definition pump_tick :: "pump_env \<Rightarrow> client_output \<Rightarrow> client_output option" where
  "pump_tick env c = snd (snd (snd (pump_client_attach_seed env SEED_PUMP_BYTES_PER_TICK True False c)))"

lemma tick_progress:
  assumes "pumpable env" "fits_tick c" "outbox_bytes c = 0" "seeding c"
  obtains c' where "pump_tick env c = Some c'" "fits_tick c'" "seeding c' \<Longrightarrow> (c', c) \<in> pump_measure"
proof -
  obtain activity' remaining' ex' after where
    t: "pump_client_attach_seed env SEED_PUMP_BYTES_PER_TICK True False c = (activity', remaining', ex', after)" by (metis prod_cases4)
  obtain c' where c': "after = Some c'" "fits_tick c'" using pump_kept [OF assms(1,2) t] by blast
  have tick: "pump_tick env c = Some c'" using t c'(1) by (simp add: pump_tick_def)
  note eq = t [unfolded pump_client_attach_seed.simps [of env SEED_PUMP_BYTES_PER_TICK True False c]]
  show thesis
  proof (cases "next_attach_seed_work c = Complete")
    case True
    then have "\<not> seeding c'" using eq c'(1) completed_not_seeding by auto
    then show thesis using that tick c'(2) by blast
  next
    case False
    obtain p r1 e1 after1 where
      w: "pump_attach_seed_work env (next_attach_seed_work c) SEED_PUMP_BYTES_PER_TICK True c = (p, r1, e1, after1)" by (metis prod_cases4)
    obtain c1 where c1: "after1 = Some c1" "fits_tick c1" using work_keeps_client [OF assms(1,2) w] by blast
    have p: "p" using fresh_progress [OF assms False w] .
    have "(c1, c) \<in> pump_measure" using work_decreases [of env c SEED_PUMP_BYTES_PER_TICK True r1 e1 c1] w c1(1) p by simp
    moreover have "pump_client_attach_seed env r1 e1 True c1 = (activity', remaining', ex', after)"
      using eq False w c1(1) p assms(4) not_seeding_work [of c] by auto
    then have "seeding c' \<longrightarrow> (\<forall>x. (c1, x) \<in> pump_measure \<longrightarrow> (c', x) \<in> pump_measure)"
      using pump_kept [OF assms(1) c1(2)] c'(1) by blast
    ultimately show thesis using that tick c'(2) by blast
  qed
qed

text \<open>
  C36: the pump ends. No client and no choice of exports, statuses and budgets has an infinite run of pieces of work that each
  report progress, so the loop of a turn always returns.
\<close>

theorem pump_work_ends:
  "\<not> (\<exists>f environ remaining ex. \<forall>i :: nat. \<exists>r e.
     pump_attach_seed_work (environ i) (next_attach_seed_work (f i)) (remaining i) (ex i) (f i) = (True, r, e, Some (f (Suc i))))"
proof
  assume "\<exists>f environ remaining ex. \<forall>i :: nat. \<exists>r e.
     pump_attach_seed_work (environ i) (next_attach_seed_work (f i)) (remaining i) (ex i) (f i) = (True, r, e, Some (f (Suc i)))"
  then obtain f where "(f (Suc i), f i) \<in> pump_measure" for i :: nat using work_decreases by metis
  then show False using wf_pump_measure unfolding wf_iff_no_infinite_down_chain by blast
qed


text \<open>
  C37: a catch-up frame longer than the byte budget of a tick is never released. When it is at the front of the catch-up queue and
  the panes are replayed, no turn of the pump changes the client, whatever its budget and however empty the outbox.
\<close>

theorem large_catch_up_blocks_barrier:
  assumes "seed c = Some s" "\<not> baseline_queued s" "pending_program_status s = []" "pane_replay s = None" "pending_panes s = []"
    "catch_up s = f # fs" "SEED_PUMP_BYTES_PER_TICK < frame_length (cf_bytes f)" "remaining \<le> SEED_PUMP_BYTES_PER_TICK"
  shows "pump_client_attach_seed env remaining ex activity c = (activity, remaining, ex, Some c)"
proof -
  have "next_attach_seed_work c = CatchUp" using assms(1-6) by (simp add: next_attach_seed_work_def)
  moreover have "pump_seed_catch_up env remaining c = (False, remaining, Some c)"
    using assms(1,6-8) by (simp add: pump_seed_catch_up_def Let_def)
  ultimately show ?thesis by (simp add: pump_client_attach_seed.simps pump_attach_seed_work_def)
qed


subsection \<open>Whom overflow disconnects\<close>



definition idle_env :: "nat \<Rightarrow> pump_env" where
  "idle_env cap = \<lparr>max_backlog = cap, snapshot_of = (\<lambda>_. None), status_of = (\<lambda>_. None), blocks_replay = (\<lambda>_. False)\<rparr>"

definition sample_key :: pane_seed_key where
  "sample_key = PaneSeedKey 1 0"

definition sample_client :: client_output where
  "sample_client = new_client_output\<lparr>seed := Some (new_seed [sample_key])\<rparr>"

lemma pumpable_idle: "SEED_SEND_WINDOW \<le> cap \<Longrightarrow> pumpable (idle_env cap)"
  by (simp add: pumpable_def idle_env_def)

lemma sample_tick:
  "pump_tick (idle_env cap) sample_client = Some (complete_attach_baseline (begin_pane_replay (idle_env cap) sample_key sample_client))"
  by (simp add: pump_tick_def pump_client_attach_seed.simps next_attach_seed_work_def pump_attach_seed_work_def sample_client_def new_seed_def
      begin_pane_replay_def idle_env_def on_seed_def)

definition sample_run :: "nat \<Rightarrow> client_output" where
  "sample_run n = (if n = 0 then sample_client else the (pump_tick (idle_env SEED_SEND_WINDOW) sample_client))"


definition large_frame :: catch_up_frame where
  "large_frame = \<lparr>cf_replacement = None, cf_bytes = \<lparr>frame_bytes = replicate 1048577 0, media = [], scope = None\<rparr>, cf_delta = Control\<rparr>"

definition stalled_seed :: attach_seed_state where
  "stalled_seed = (new_seed [])\<lparr>catch_up := [large_frame]\<rparr>"

lemma large_catch_up_blocks_barrier_witness:
  "pump_client_attach_seed (idle_env 8388608) 1048576 True False (new_client_output\<lparr>seed := Some stalled_seed\<rparr>) =
     (False, 1048576, True, Some (new_client_output\<lparr>seed := Some stalled_seed\<rparr>))"
proof (rule large_catch_up_blocks_barrier [where s = stalled_seed and f = large_frame and fs = "[]"])
  show "SEED_PUMP_BYTES_PER_TICK < frame_length (cf_bytes large_frame)"
    by (simp add: large_frame_def frame_length_def SEED_PUMP_BYTES_PER_TICK_def)
qed (simp_all add: stalled_seed_def new_seed_def SEED_PUMP_BYTES_PER_TICK_def)


end
