(* ===== verification/Tracking.thy ===== *)
theory Tracking
  imports Delivery SeedProgress
begin

text \<open>
  The invariant behind \<open>no_holes\<close>: for every live pane either a replay is owed to the client, or the
  frames written, queued and retained continue its last baseline without a gap. The other clauses say
  what tags and keys the queued frames carry, what the barrier's bookkeeping means, and that a frame
  that can still be superseded never has a reset of its pane behind it.

  Shown here: shedding and every push keep it.
\<close>

subsection \<open>What is still to come\<close>

text \<open>A pane whose replay has yet to be exported for this client.\<close>

definition owed :: "client_output \<Rightarrow> pane_seed_key \<Rightarrow> bool" where
  "owed c k \<longleftrightarrow> k \<in> resync_pending c \<or>
     (case seed c of None \<Rightarrow> False | Some s \<Rightarrow> \<not> baseline_queued s \<and> (k \<in> outdated s \<or> manifest s k = Some Pending))"

text \<open>What of the exported replay is not queued yet: its reset frame, and its bytes.\<close>

definition planned :: "client_output \<Rightarrow> outbox_frame list" where
  "planned c =
     (case replay_of c of
        None \<Rightarrow> []
      | Some r \<Rightarrow> (case reset_frame r of None \<Rightarrow> []
                  | Some frame \<Rightarrow> [\<lparr>of_replacement = None, of_bytes = frame, of_class = SeedReplay, of_pane = None\<rparr>]))"

definition unread :: "pane_seed_key \<Rightarrow> client_output \<Rightarrow> byte list" where
  "unread k c = (case replay_of c of None \<Rightarrow> [] | Some r \<Rightarrow> if rp_key r = k then take (rp_remaining r) (spool r) else [])"

definition replaying :: "pane_seed_key \<Rightarrow> client_output \<Rightarrow> bool" where
  "replaying k c \<longleftrightarrow> (case replay_of c of None \<Rightarrow> False | Some r \<Rightarrow> rp_key r = k)"

definition caught :: "pane_seed_key \<Rightarrow> client_output \<Rightarrow> catch_up_frame list" where
  "caught k c = (case seed c of None \<Rightarrow> [] | Some s \<Rightarrow> filter (\<lambda>f. cf_delta f = PaneOutput k) (catch_up s))"

text \<open>A chunk of a replay carries its payload; an output is known by its bytes and key.\<close>

definition chunk_of :: "pane_seed_key \<Rightarrow> byte list \<Rightarrow> outbox_frame \<Rightarrow> bool" where
  "chunk_of k payload f \<longleftrightarrow> of_replacement f = None \<and>
     encode_pane_output (seed_pane_id k) (seed_generation k) False default_metadata payload = Some (of_bytes f)"

definition output_of :: "outbox_frame \<Rightarrow> byte list \<times> replacement_key option" where
  "output_of f = (unstamped (bytes_of f), of_replacement f)"

definition retained_output :: "catch_up_frame \<Rightarrow> byte list \<times> replacement_key option" where
  "retained_output f = (unstamped (frame_bytes (cf_bytes f)), cf_replacement f)"

definition covered :: "(byte list \<Rightarrow> pane_seed_key option) \<Rightarrow> delivered \<Rightarrow> client_output \<Rightarrow> pane_seed_key \<Rightarrow> bool" where
  "covered resets g c k \<longleftrightarrow>
     (\<exists>payloads chunks outs.
        view resets k (d_sent g @ outbox c @ planned c) = chunks @ outs \<and> list_all2 (chunk_of k) payloads chunks \<and>
        concat payloads @ unread k c = d_base g k \<and> (replaying k c \<longrightarrow> outs = []) \<and>
        coalesced (d_since g k) (map output_of outs @ map retained_output (caught k c)))"

subsection \<open>The invariant\<close>

definition frame_tagged :: "(byte list \<Rightarrow> pane_seed_key option) \<Rightarrow> outbox_frame \<Rightarrow> bool" where
  "frame_tagged resets f \<longleftrightarrow>
     (case of_replacement f of None \<Rightarrow> True | Some key \<Rightarrow> of_pane f = output_pane (key_delta key) \<and> of_class f \<noteq> SeedReplay) \<and>
     (resets (bytes_of f) \<noteq> None \<longrightarrow> of_pane f = None \<and> of_replacement f = None \<and> media (of_bytes f) = []) \<and>
     (media (of_bytes f) \<noteq> [] \<longrightarrow> PANE_OUTPUT_ACQUISITION_OFFSET + 8 \<le> frame_length (of_bytes f) \<and>
        (\<forall>n. resets (stamp n (bytes_of f)) = None))"

definition catch_up_tagged :: "(byte list \<Rightarrow> pane_seed_key option) \<Rightarrow> catch_up_frame \<Rightarrow> bool" where
  "catch_up_tagged resets f \<longleftrightarrow>
     sendable resets (cf_bytes f) \<and> (case cf_replacement f of None \<Rightarrow> True | Some key \<Rightarrow> cf_delta f = key_delta key)"

definition tags_ok :: "(byte list \<Rightarrow> pane_seed_key option) \<Rightarrow> client_output \<Rightarrow> bool" where
  "tags_ok resets c \<longleftrightarrow>
     (\<forall>f \<in> set (outbox c). frame_tagged resets f) \<and>
     (\<forall>s. seed c = Some s \<longrightarrow> (\<forall>f \<in> set (catch_up s). catch_up_tagged resets f) \<and>
        (\<forall>f. program_status_frame s = Some f \<longrightarrow> sendable resets f \<and> media f = []) \<and>
        (\<forall>r f. pane_replay s = Some r \<longrightarrow> reset_frame r = Some f \<longrightarrow>
           resets (frame_bytes f) = Some (rp_key r) \<and> 0 < frame_length f \<and> media f = []))"

definition seed_tracks :: "attach_seed_state \<Rightarrow> bool" where
  "seed_tracks s \<longleftrightarrow>
     (if baseline_queued s then catch_up s = [] \<and> pane_replay s = None
      else finite (outdated s) \<and> distinct (pending_panes s) \<and> (\<forall>k. manifest s k = Some Pending \<longleftrightarrow> k \<in> set (pending_panes s)) \<and>
           (\<forall>r. pane_replay s = Some r \<longrightarrow> manifest s (rp_key r) \<noteq> Some Pending) \<and>
           (\<forall>f \<in> set (catch_up s). \<forall>k. cf_delta f = PaneOutput k \<longrightarrow> manifest s k \<noteq> Some Pending \<and> k \<notin> outdated s))"

definition barrier_ok :: "client_output \<Rightarrow> bool" where
  "barrier_ok c \<longleftrightarrow>
     finite (resync_pending c) \<and>
     (\<forall>s. seed c = Some s \<longrightarrow> seed_tracks s \<and> (\<not> baseline_queued s \<longrightarrow> resync_pending c = {})) \<and>
     (\<not> conn_attached c \<longrightarrow> seed c = None \<and> resync_pending c = {} \<and> (\<forall>f \<in> set (outbox c). of_pane f = None))"

definition known_ok :: "delivered \<Rightarrow> client_output \<Rightarrow> bool" where
  "known_ok g c \<longleftrightarrow>
     d_live g \<subseteq> d_known g \<and> (\<forall>f \<in> set (d_sent g @ outbox c). \<forall>k. of_pane f = Some k \<longrightarrow> k \<in> d_known g) \<and>
     (\<forall>s. seed c = Some s \<longrightarrow> set (pending_panes s) \<subseteq> d_known g \<and>
        (\<forall>f \<in> set (catch_up s). \<forall>k. cf_delta f = PaneOutput k \<longrightarrow> k \<in> d_known g) \<and>
        (\<forall>r. pane_replay s = Some r \<longrightarrow> rp_key r \<in> d_known g))"

text \<open>A keyed frame that can still be superseded has no reset of its pane behind it, and its pane is not owed.\<close>

definition stays_ahead :: "(byte list \<Rightarrow> pane_seed_key option) \<Rightarrow> outbox_frame \<Rightarrow> outbox_frame \<Rightarrow> bool" where
  "stays_ahead resets f g \<longleftrightarrow> (of_replacement f \<noteq> None \<longrightarrow> of_pane f \<noteq> None \<longrightarrow> resets (bytes_of g) \<noteq> of_pane f)"

definition order_ok :: "(byte list \<Rightarrow> pane_seed_key option) \<Rightarrow> client_output \<Rightarrow> bool" where
  "order_ok resets c \<longleftrightarrow>
     sorted_wrt (stays_ahead resets) (sheddable_outbox c @ planned c) \<and>
     (\<forall>f \<in> set (sheddable_outbox c). \<forall>k. of_replacement f \<noteq> None \<longrightarrow> of_pane f = Some k \<longrightarrow> \<not> owed c k)"

definition on_wire :: "delivered \<Rightarrow> client_output \<Rightarrow> bool" where
  "on_wire g c \<longleftrightarrow> stream c = concat (map bytes_of (d_sent g)) @
     (case outbox c of [] \<Rightarrow> [] | f # _ \<Rightarrow> take (front_offset c) (bytes_of f))"

definition tracks :: "nat \<Rightarrow> (byte list \<Rightarrow> pane_seed_key option) \<Rightarrow> delivered \<Rightarrow> client_output \<Rightarrow> bool" where
  "tracks cap resets g c \<longleftrightarrow>
     \<not> transport_closed c \<and> books c \<and> outbox_bytes c \<le> max cap SEED_SEND_WINDOW \<and> tags_ok resets c \<and> barrier_ok c \<and> known_ok g c \<and>
     order_ok resets c \<and> on_wire g c \<and> (conn_attached c \<longrightarrow> (\<forall>k \<in> d_live g. owed c k \<or> covered resets g c k))"

subsection \<open>Shedding\<close>

lemma replay_of_shed [simp]: "replay_of (shed_pane v c) = replay_of c"
  by (cases "seed c") (simp_all add: replay_of_def shed_seed shed_from_seed_def)

lemma planned_cong: "replay_of c' = replay_of c \<Longrightarrow> planned c' = planned c \<and> unread k c' = unread k c \<and> replaying k c' = replaying k c"
  by (simp add: planned_def unread_def replaying_def)

lemma caught_shed: "k \<noteq> v \<Longrightarrow> caught k (shed_pane v c) = caught k c"
  by (cases "seed c") (auto simp: caught_def shed_seed shed_from_seed_def intro!: filter_cong)

lemma owed_shed: "may_shed c v \<Longrightarrow> owed (shed_pane v c) k \<longleftrightarrow> owed c k \<or> k = v"
  by (cases "seed c") (auto simp: owed_def shed_seed shed_resync shed_from_seed_def replay_barrier_up_def may_shed_def)

lemma shed_sheddable: "\<exists>j. sheddable_outbox (shed_pane v c) = drop j (filter (\<lambda>f. \<not> sheds v c f) (sheddable_outbox c))"
proof (cases "front_started c")
  case True
  then have "front_started (shed_pane v c) \<or> outbox c = []"
    by (cases "outbox c") (auto simp: front_started_def shed_outbox pinned_front_def)
  then show ?thesis
  proof
    assume "front_started (shed_pane v c)"
    then show ?thesis using True by (cases "outbox c") (auto simp: sheddable_outbox_def shed_outbox pinned_front_def intro: exI [of _ 0])
  qed (auto simp: sheddable_outbox_def shed_outbox pinned_front_def)
next
  case False
  then have "outbox (shed_pane v c) = filter (\<lambda>f. \<not> sheds v c f) (sheddable_outbox c)" by (simp add: shed_outbox pinned_front_def)
  then show ?thesis unfolding sheddable_outbox_def [of "shed_pane v c"]
    by (cases "front_started (shed_pane v c)") (auto intro: exI [of _ 0])
qed

lemma shed_outbox_subset: "set (outbox (shed_pane v c)) \<subseteq> set (outbox c)"
  using arg_cong [OF pinned_sheddable [of c], of set] by (auto simp: shed_outbox)

lemma sorted_drop_append: "sorted_wrt R (xs @ zs) \<Longrightarrow> sorted_wrt R (drop j (filter P xs) @ zs)"
  by (auto simp: sorted_wrt_append sorted_wrt_filter sorted_wrt_drop dest: in_set_dropD)

lemma view_shed:
  assumes "\<forall>f \<in> set (outbox c). frame_tagged resets f" "k \<noteq> v"
  shows "view resets k (sent @ outbox (shed_pane v c) @ rest) = view resets k (sent @ outbox c @ rest)"
proof -
  have "foldl (view_step resets k) acc (filter (\<lambda>f. \<not> sheds v c f) (sheddable_outbox c)) = foldl (view_step resets k) acc (sheddable_outbox c)" for acc
    using assms sheddable_subset [of c] by (intro foldl_view_irrelevant) (auto simp: sheds_def frame_tagged_def)
  then have "view resets k (sent @ pinned_front c @ filter (\<lambda>f. \<not> sheds v c f) (sheddable_outbox c) @ rest) =
      view resets k (sent @ pinned_front c @ sheddable_outbox c @ rest)"
    by (simp add: view_simps)
  then show ?thesis using pinned_sheddable [of c] by (simp add: shed_outbox) (metis append.assoc)
qed

lemma tracks_shed:
  assumes "tracks cap resets g c" "may_shed c v"
  shows "tracks cap resets g (shed_pane v c)"
proof -
  let ?c = "shed_pane v c"
  note t = assms(1) [unfolded tracks_def]
  have tags: "tags_ok resets ?c"
    using t shed_outbox_subset [of v c] by (cases "seed c") (auto simp: tags_ok_def shed_seed shed_from_seed_def split: if_splits)
  have barrier: "barrier_ok ?c"
    using t shed_outbox_subset [of v c] assms(2)
    by (cases "seed c") (auto simp: barrier_ok_def shed_seed shed_resync shed_from_seed_def replay_barrier_up_def seed_tracks_def may_shed_def split: if_splits)
  have known: "known_ok g ?c"
    using t shed_outbox_subset [of v c] by (cases "seed c") (auto simp: known_ok_def shed_seed shed_from_seed_def split: if_splits)
  obtain j where j: "sheddable_outbox ?c = drop j (filter (\<lambda>f. \<not> sheds v c f) (sheddable_outbox c))" using shed_sheddable by blast
  have sorted: "sorted_wrt (stays_ahead resets) (sheddable_outbox ?c @ planned ?c)"
    using t planned_cong [OF replay_of_shed, of v c] unfolding j order_ok_def by (auto intro: sorted_drop_append)
  have "\<not> owed ?c k" if f: "f \<in> set (sheddable_outbox ?c)" "of_replacement f \<noteq> None" "of_pane f = Some k" for f k
  proof -
    have f': "f \<in> set (sheddable_outbox c)" "\<not> sheds v c f" using f(1) j by (auto dest: in_set_dropD)
    then have "of_class f \<noteq> SeedReplay" using t f(2) sheddable_subset [of c] by (auto simp: tags_ok_def frame_tagged_def split: option.splits)
    then have "k \<noteq> v" using f'(2) f(3) by (auto simp: sheds_def)
    moreover have "\<not> owed c k" using t f' f by (auto simp: order_ok_def)
    ultimately show ?thesis using owed_shed [OF assms(2)] by simp
  qed
  then have order: "order_ok resets ?c" using sorted by (simp add: order_ok_def)
  have "on_wire g ?c"
  proof (cases "front_offset c = 0")
    case True
    then show ?thesis using t by (auto simp: on_wire_def split: list.splits)
  next
    case False
    then obtain f fs where "outbox c = f # fs" using t by (cases "outbox c") (auto simp: books_def counts_ok_def)
    then show ?thesis using t False by (simp add: on_wire_def shed_outbox pinned_front_def front_started_def)
  qed
  moreover have "owed ?c k \<or> covered resets g ?c k" if "conn_attached c" "k \<in> d_live g" for k
  proof (cases "owed ?c k")
    case False
    then have "k \<noteq> v" "covered resets g c k" using t that owed_shed [OF assms(2)] by auto
    then show ?thesis
      using view_shed [of c resets k v "d_sent g" "planned c"] t planned_cong [OF replay_of_shed, of v c] caught_shed [of k v c]
      by (simp add: covered_def tags_ok_def)
  qed simp
  ultimately show ?thesis using t tags barrier known order shed_books [of c v] unfolding tracks_def by (auto intro: order.trans)
qed

lemma tracks_sheds: "sheds_to spared c c' \<Longrightarrow> tracks cap resets g c \<Longrightarrow> tracks cap resets g c'"
  by (induction rule: sheds_to.induct) (auto intro: tracks_shed)


subsection \<open>Pushing\<close>

lemma tracks_cong:
  assumes "outbox c' = outbox c" "outbox_bytes c' = outbox_bytes c" "front_offset c' = front_offset c" "seed_queued_bytes c' = seed_queued_bytes c"
    "seed_catch_up_queued_bytes c' = seed_catch_up_queued_bytes c" "outbox_base c' = outbox_base c" "outbox_replacements c' = outbox_replacements c"
    "seed c' = seed c" "resync_pending c' = resync_pending c" "transport_closed c' = transport_closed c" "conn_attached c' = conn_attached c" "stream c' = stream c"
  shows "tracks cap resets g c' = tracks cap resets g c"
proof -
  have "books c' = books c" using books_cong [of c' c] assms by (simp add: books_def seed_ok_def)
  moreover have "replay_of c' = replay_of c" using assms by (simp add: replay_of_def)
  moreover have "sheddable_outbox c' = sheddable_outbox c" using assms by (simp add: front_started_def sheddable_outbox_def)
  moreover have "owed c' k = owed c k" "caught k c' = caught k c" for k using assms by (simp_all add: owed_def caught_def)
  moreover have "on_wire g c' = on_wire g c" using assms by (cases "outbox c") (simp_all add: on_wire_def)
  ultimately show ?thesis
    using assms planned_cong [of c' c]
    by (simp add: tracks_def tags_ok_def barrier_ok_def known_ok_def order_ok_def covered_def)
qed

lemma tracks_noted [simp]:
  "tracks cap resets g (c\<lparr>shed_bytes := n\<rparr>) = tracks cap resets g c" "tracks cap resets g (c\<lparr>acqs := a\<rparr>) = tracks cap resets g c"
  by (rule tracks_cong; simp)+

lemma coveredI:
  assumes "view resets k (d_sent g @ outbox c @ planned c) = chunks @ outs" "list_all2 (chunk_of k) payloads chunks"
    "concat payloads @ unread k c = d_base g k" "replaying k c \<Longrightarrow> outs = []"
    "coalesced (d_since g k) (map output_of outs @ map retained_output (caught k c))"
  shows "covered resets g c k"
  using assms unfolding covered_def by blast

lemma coveredE:
  assumes "covered resets g c k"
  obtains chunks outs payloads where "view resets k (d_sent g @ outbox c @ planned c) = chunks @ outs" "list_all2 (chunk_of k) payloads chunks"
    "concat payloads @ unread k c = d_base g k" "replaying k c \<Longrightarrow> outs = []"
    "coalesced (d_since g k) (map output_of outs @ map retained_output (caught k c))"
  using assms unfolding covered_def by blast

text \<open>What is recorded when an output is produced.\<close>

definition produced :: "pane_seed_key option \<Rightarrow> encoded_output \<Rightarrow> replacement_key option \<Rightarrow> delivered \<Rightarrow> delivered" where
  "produced pane frame key g =
     (case pane of None \<Rightarrow> g
      | Some k \<Rightarrow> g\<lparr>d_since := (d_since g)(k := d_since g k @ [(unstamped (frame_bytes frame), key)])\<rparr>)"

lemma produced_fields [simp]:
  "d_live (produced pane frame key g) = d_live g" "d_known (produced pane frame key g) = d_known g"
  "d_base (produced pane frame key g) = d_base g" "d_sent (produced pane frame key g) = d_sent g"
  "d_since (produced pane frame key g) k = d_since g k @ (if pane = Some k then [(unstamped (frame_bytes frame), key)] else [])"
  by (simp_all add: produced_def split: option.split)

lemma tracks_owed:
  assumes "tracks cap resets g c" "case pane of None \<Rightarrow> True | Some k \<Rightarrow> owed c k"
  shows "tracks cap resets (produced pane frame key g) c"
proof -
  have "owed c k \<or> covered resets (produced pane frame key g) c k" if "conn_attached c" "k \<in> d_live g" for k
    using assms that by (cases "pane = Some k") (auto simp: tracks_def covered_def)
  then show ?thesis using assms(1) by (simp add: tracks_def known_ok_def on_wire_def)
qed

lemma unbarred:
  assumes "barrier_ok c" "\<not> replay_barrier_up c"
  shows "caught k c = []" "replay_of c = None" "planned c = []" "unread k c = []" "\<not> replaying k c"
proof -
  show "replay_of c = None" using assms by (cases "seed c") (auto simp: barrier_ok_def replay_barrier_up_def replay_of_def seed_tracks_def split: if_splits)
  then show "planned c = []" "unread k c = []" "\<not> replaying k c" by (simp_all add: planned_def unread_def replaying_def)
  show "caught k c = []" using assms by (cases "seed c") (auto simp: barrier_ok_def replay_barrier_up_def caught_def seed_tracks_def split: if_splits)
qed

lemma outbox_indexed:
  "\<not> transport_closed c \<Longrightarrow> outbox (index_outbox_back key (pushed cl pane frame c)) =
     outbox c @ [\<lparr>of_replacement = key, of_bytes = frame, of_class = cl, of_pane = pane\<rparr>]"
  by (cases key) (simp_all add: outbox_index_back pushed_open(1))

definition key_tagged :: "replacement_key option \<Rightarrow> seed_delta \<Rightarrow> bool" where
  "key_tagged key delta \<longleftrightarrow> (case key of None \<Rightarrow> True | Some k \<Rightarrow> delta = key_delta k)"

lemma sheddable_append:
  assumes "outbox c' = outbox c @ [f]" "front_offset c' = front_offset c" "counts_ok c"
  obtains j where "sheddable_outbox c' = drop j (sheddable_outbox c @ [f])"
proof (cases "outbox c")
  case Nil
  then have "sheddable_outbox c = []" by (simp add: sheddable_outbox_def)
  moreover have "\<exists>j. sheddable_outbox c' = drop j [f]" using assms(1) Nil by (auto simp: sheddable_outbox_def intro: exI [of _ 0])
  ultimately show thesis using that by auto
next
  case (Cons g gs)
  then have "front_started c' = front_started c" using assms by (simp add: front_started_def)
  then have "sheddable_outbox c' = drop 0 (sheddable_outbox c @ [f])" using assms(1) Cons by (simp add: sheddable_outbox_def)
  then show thesis by (rule that)
qed

lemma sendable_tagged:
  "sendable resets frame \<Longrightarrow> key_tagged key delta \<Longrightarrow> cl \<noteq> SeedReplay \<Longrightarrow>
   frame_tagged resets \<lparr>of_replacement = key, of_bytes = frame, of_class = cl, of_pane = output_pane delta\<rparr>"
  by (auto simp: frame_tagged_def sendable_def bytes_of_def key_tagged_def split: option.split)

lemma order_dropped:
  assumes "sheddable_outbox c = drop j fs" "sorted_wrt (stays_ahead resets) (fs @ planned c)"
    "\<And>f k. f \<in> set fs \<Longrightarrow> of_replacement f \<noteq> None \<Longrightarrow> of_pane f = Some k \<Longrightarrow> \<not> owed c k"
  shows "order_ok resets c"
  using assms(2,3) unfolding order_ok_def assms(1) by (auto simp: sorted_wrt_append sorted_wrt_drop dest: in_set_dropD)

lemma tracks_append:
  assumes "tracks cap resets g c" "\<not> replay_barrier_up c" "sendable resets frame" "key_tagged key delta" "outbox_bytes c + frame_length frame \<le> cap"
    "\<And>k. output_pane delta = Some k \<Longrightarrow> conn_attached c \<and> k \<in> d_known g \<and> \<not> owed c k"
  shows "tracks cap resets (produced (output_pane delta) frame key g) (index_outbox_back key (pushed Normal (output_pane delta) frame c))"
proof -
  let ?f = "\<lparr>of_replacement = key, of_bytes = frame, of_class = Normal, of_pane = output_pane delta\<rparr>"
  let ?c = "index_outbox_back key (pushed Normal (output_pane delta) frame c)"
  note t = assms(1) [unfolded tracks_def]
  have out: "outbox ?c = outbox c @ [?f]" "seed ?c = seed c" "resync_pending ?c = resync_pending c" "front_offset ?c = front_offset c"
    "conn_attached ?c = conn_attached c" "stream ?c = stream c" "replay_of ?c = replay_of c" "\<not> transport_closed ?c"
    using t by (simp_all add: outbox_indexed replay_of_def)
  have plain: "resets (bytes_of ?f) = None" using assms(3) by (simp add: sendable_def bytes_of_def)
  have owed: "owed ?c k = owed c k" for k by (simp add: owed_def)
  note none = unbarred [OF _ assms(2)]
  have caught: "caught k ?c = []" "planned ?c = []" "unread k ?c = []" "\<not> replaying k ?c" for k
    using none(1,2) t out by (simp_all add: caught_def planned_def unread_def replaying_def)
  have books: "books ?c" "outbox_bytes ?c \<le> max cap SEED_SEND_WINDOW"
    using books_pushed [of c frame Normal key "output_pane delta"] t assms(3,5) pushed_open(2) by (simp_all add: sendable_def)
  have tags: "tags_ok resets ?c" using t sendable_tagged [OF assms(3,4), of Normal] by (auto simp: tags_ok_def out)
  have barrier: "barrier_ok ?c" using t assms(6) unfolding barrier_ok_def out by (cases "output_pane delta") auto
  have known: "known_ok (produced (output_pane delta) frame key g) ?c" using t assms(6) by (auto simp: known_ok_def out)
  obtain j where j: "sheddable_outbox ?c = drop j (sheddable_outbox c @ [?f])" using sheddable_append [OF out(1,4)] t by (auto simp: books_def)
  have "sorted_wrt (stays_ahead resets) (sheddable_outbox c @ [?f])"
    using t plain none(3) by (auto simp: order_ok_def sorted_wrt_append stays_ahead_def)
  then have "order_ok resets ?c"
    using t assms(6) by (intro order_dropped [OF j]) (auto simp: order_ok_def owed caught)
  moreover have "on_wire (produced (output_pane delta) frame key g) ?c"
    using t by (cases "outbox c") (auto simp: on_wire_def out books_def counts_ok_def)
  moreover have "owed ?c k \<or> covered resets (produced (output_pane delta) frame key g) ?c k" if k: "conn_attached ?c" "k \<in> d_live g" for k
  proof (cases "owed c k")
    case False
    then have "covered resets g c k" using t k out(5) by auto
    then obtain payloads chunks outs where cov: "view resets k (d_sent g @ outbox c) = chunks @ outs" "list_all2 (chunk_of k) payloads chunks"
      "concat payloads = d_base g k" "coalesced (d_since g k) (map output_of outs)"
      using none t by (auto simp: covered_def)
    have "view resets k (d_sent g @ outbox c @ [?f]) = view_step resets k (chunks @ outs) ?f"
      using cov(1) view_simps(3) [of resets k "d_sent g @ outbox c" ?f] by simp
    then have "view resets k (d_sent g @ outbox c @ [?f]) = chunks @ outs @ (if output_pane delta = Some k then [?f] else [])"
      using plain by (simp add: view_step_def)
    moreover have "coalesced (d_since (produced (output_pane delta) frame key g) k) (map output_of (outs @ (if output_pane delta = Some k then [?f] else [])))"
      using coalesced.follows [OF cov(4), of "output_of ?f"] cov(4) by (auto simp: output_of_def bytes_of_def)
    ultimately have "covered resets (produced (output_pane delta) frame key g) ?c k" using cov(2,3)
      by (intro coveredI [of _ _ _ _ chunks "outs @ (if output_pane delta = Some k then [?f] else [])" payloads]) (simp_all add: out caught)
    then show ?thesis ..
  qed (simp add: owed)
  ultimately show ?thesis using books tags barrier known out unfolding tracks_def by simp
qed


text \<open>Superseding a queued frame in place.\<close>

lemma sheddable_change:
  assumes "outbox c = A @ f # B" "outbox c' = A @ f' # B" "front_offset c' = front_offset c" "\<not> (A = [] \<and> front_started c)"
  obtains A' j where "sheddable_outbox c = A' @ f # B" "sheddable_outbox c' = drop j (A' @ f' # B)"
proof (cases A)
  case Nil
  then have "sheddable_outbox c = [] @ f # B" using assms by (simp add: sheddable_outbox_def)
  moreover have "\<exists>j. sheddable_outbox c' = drop j ([] @ f' # B)"
    using assms(2) Nil by (cases "front_started c'") (auto simp: sheddable_outbox_def intro: exI [of _ 0] exI [of _ "Suc 0"])
  ultimately show thesis using that by blast
next
  case (Cons a as)
  then have "front_started c' = front_started c" using assms by (simp add: front_started_def)
  then have "sheddable_outbox c = drop (if front_started c then 1 else 0) A @ f # B"
    "sheddable_outbox c' = drop 0 (drop (if front_started c then 1 else 0) A @ f' # B)"
    using assms(1,2) Cons by (simp_all add: sheddable_outbox_def)
  then show thesis by (rule that)
qed

lemma keyed_is_output:
  assumes "chunks @ outs = xs @ f # ys" "list_all2 (chunk_of k) payloads chunks" "of_replacement f \<noteq> None"
  obtains os where "xs = chunks @ os" "outs = os @ f # ys"
proof -
  have "f \<notin> set chunks" using assms(2,3) by (auto simp: list_all2_conv_all_nth in_set_conv_nth chunk_of_def)
  then show thesis using assms(1) that by (auto simp: append_eq_append_conv2 Cons_eq_append_conv append_eq_Cons_conv)
qed

lemma tracks_replace:
  assumes "tracks cap resets g c" "\<not> replay_barrier_up c" "sendable resets frame" "key_tagged key delta" "outbox_bytes c < 2 ^ 64"
    "replace_outbox frame key cap c = (True, c')" "\<And>k. output_pane delta = Some k \<Longrightarrow> conn_attached c \<and> k \<in> d_known g \<and> \<not> owed c k"
  shows "tracks cap resets (produced (output_pane delta) frame key g) c'"
  using assms(6)
proof (cases rule: replace_outbox_cases)
  case (replaced i)
  note t = assms(1) [unfolded tracks_def]
  have ok: "counts_ok c" "index_ok c" using t by (simp_all add: books_def)
  have books: "books c'" "outbox_bytes c' \<le> max cap SEED_SEND_WINDOW"
    using books_replaced [OF assms(6)] t assms(2,3,5) by (auto simp: sendable_def le_max_iff_disj)
  have i: "i < length (outbox c)" "of_replacement (outbox c ! i) = key" "key \<noteq> None"
    using queue_index_entry [OF ok(2) [unfolded index_ok_def] replaced(2)] queue_length_books [of c] t assms(5) by auto
  define A B f f' where "A = take i (outbox c)" and "B = drop (Suc i) (outbox c)" and "f = outbox c ! i" and "f' = f\<lparr>of_bytes := frame\<rparr>"
  have out: "outbox c = A @ f # B" "outbox c' = A @ f' # B"
    using i(1) by (simp_all add: A_def B_def f_def f'_def replaced(5) id_take_nth_drop upd_conv_take_nth_drop)
  have first: "\<not> (A = [] \<and> front_started c)" using replaced(3) i(1) by (auto simp: A_def)
  have tagged: "frame_tagged resets f" using t out by (simp add: tags_ok_def)
  have f: "of_replacement f = key" "of_pane f = output_pane delta" "of_class f \<noteq> SeedReplay" "resets (bytes_of f) = None"
    using tagged i(2,3) assms(4) by (auto simp: f_def [symmetric] frame_tagged_def key_tagged_def split: option.splits)
  have f': "of_replacement f' = key" "of_pane f' = output_pane delta" "of_class f' \<noteq> SeedReplay" "resets (bytes_of f') = None"
    "output_of f' = (unstamped (frame_bytes frame), key)"
    using f assms(3) by (simp_all add: f'_def bytes_of_def sendable_def output_of_def)
  have "frame_tagged resets f'"
    using sendable_tagged [OF assms(3,4) f(3)] f(1,2) by (cases f) (simp add: f'_def)
  then have tags: "tags_ok resets c'" using t out by (auto simp: tags_ok_def replaced)
  have barrier: "barrier_ok c'" using t out f(2) f'(2) by (auto simp: barrier_ok_def replaced)
  have known: "known_ok (produced (output_pane delta) frame key g) c'" using t assms(7) out f(2) f'(2) by (auto simp: known_ok_def replaced)
  have owed: "owed c' k = owed c k" for k by (simp add: owed_def replaced)
  have "replay_of c' = replay_of c" by (simp add: replay_of_def replaced)
  note none = unbarred [OF _ assms(2)]
  have caught: "caught k c' = []" "planned c' = []" "unread k c' = []" "\<not> replaying k c'" for k
    using none(1,2) t \<open>replay_of c' = replay_of c\<close> by (simp_all add: caught_def planned_def unread_def replaying_def replaced)
  obtain A' j where shed: "sheddable_outbox c = A' @ f # B" "sheddable_outbox c' = drop j (A' @ f' # B)"
    using sheddable_change [OF out(1,2) replaced(10) first] .
  have sorted: "sorted_wrt (stays_ahead resets) (A' @ f # B)" using t none(3) shed(1) by (simp add: order_ok_def)
  then have "sorted_wrt (stays_ahead resets) (A' @ f' # B)"
    using f f' by (simp add: sorted_wrt_append stays_ahead_def)
  moreover have "\<not> owed c' k" if "h \<in> set (A' @ f' # B)" "of_replacement h \<noteq> None" "of_pane h = Some k" for h k
    using that t shed(1) f f' by (auto simp: order_ok_def owed)
  ultimately have order: "order_ok resets c'" by (intro order_dropped [OF shed(2)]) (auto simp: caught)
  have "on_wire (produced (output_pane delta) frame key g) c'"
  proof (cases A)
    case Nil
    then have "front_offset c = 0" using first by (simp add: front_started_def)
    then show ?thesis using t out Nil by (simp add: on_wire_def replaced)
  qed (use t out in \<open>simp add: on_wire_def replaced\<close>)
  moreover have "owed c' k \<or> covered resets (produced (output_pane delta) frame key g) c' k" if k: "conn_attached c'" "k \<in> d_live g" for k
  proof (cases "owed c k")
    case False
    then have "covered resets g c k" using t k by (auto simp: replaced)
    then obtain payloads chunks outs where cov: "view resets k (d_sent g @ A @ f # B) = chunks @ outs" "list_all2 (chunk_of k) payloads chunks"
      "concat payloads = d_base g k" "coalesced (d_since g k) (map output_of outs)"
      using none t by (auto simp: covered_def out)
    show ?thesis
    proof (cases "output_pane delta = Some k")
      case True
      have "\<forall>h \<in> set B. resets (bytes_of h) \<noteq> Some k"
        using sorted f(1,2) i(3) True by (auto simp: sorted_wrt_append stays_ahead_def)
      then obtain xs ys where v: "view resets k ((d_sent g @ A) @ f # B) = xs @ f # ys" "view resets k ((d_sent g @ A) @ f' # B) = xs @ f' # ys"
        using view_change [of B resets k f f' "d_sent g @ A"] f f' True by auto
      obtain os where os: "xs = chunks @ os" "outs = os @ f # ys"
        using keyed_is_output [of chunks outs xs f ys k payloads] cov(1,2) v(1) f(1) i(3) by auto
      obtain K where K: "key = Some K" using i(3) by auto
      have "coalesced (d_since g k @ [output_of f']) (map output_of os @ output_of f' # map output_of ys)"
        using cov(4) os(2) f(1) f'(5) K by (intro coalesced.supersedes [of _ _ "output_of f" _ K]) (simp_all add: output_of_def)
      then have "covered resets (produced (output_pane delta) frame key g) c' k"
        using v(2) os(1) cov(2,3) f'(5) True by (intro coveredI [of _ _ _ _ chunks "os @ f' # ys" payloads]) (simp_all add: out caught)
      then show ?thesis ..
    next
      case other: False
      then have "view resets k ((d_sent g @ A) @ f' # B) = view resets k ((d_sent g @ A) @ f # B)"
        using f f' by (intro view_change_other) simp_all
      then have "covered resets (produced (output_pane delta) frame key g) c' k"
        using cov other by (intro coveredI [of _ _ _ _ chunks outs payloads]) (simp_all add: out caught)
      then show ?thesis ..
    qed
  qed (simp add: owed)
  ultimately show ?thesis using books tags barrier known order t unfolding tracks_def by (simp add: replaced)
qed simp


text \<open>An output that nothing could make room for: its pane will be replayed.\<close>

lemma tracks_lost:
  assumes "tracks cap resets g c" "\<not> replay_barrier_up c" "largest_outbox_pane c = None" "conn_attached c"
  shows "tracks cap resets g (c\<lparr>resync_pending := insert k (resync_pending c), shed_bytes := m\<rparr>)"
proof -
  let ?c = "c\<lparr>resync_pending := insert k (resync_pending c), shed_bytes := m\<rparr>"
  note t = assms(1) [unfolded tracks_def]
  have owed: "owed ?c k' \<longleftrightarrow> owed c k' \<or> k' = k" for k' by (auto simp: owed_def)
  have same: "replay_of ?c = replay_of c" "sheddable_outbox ?c = sheddable_outbox c" "caught k' ?c = caught k' c" "on_wire g ?c = on_wire g c" for k'
    by (cases "outbox c"; simp add: replay_of_def sheddable_outbox_def front_started_def caught_def on_wire_def)+
  have untagged: "of_pane f = None" if "f \<in> set (sheddable_outbox c)" for f
    using nothing_sheddable [OF assms(3) _ assms(2) that] t by (simp add: books_def)
  have "barrier_ok ?c" using t assms(2,4) by (auto simp: barrier_ok_def replay_barrier_up_def)
  moreover have "order_ok resets ?c"
    using t untagged planned_cong [OF same(1)] by (auto simp: order_ok_def same)
  moreover have "covered resets g ?c k' = covered resets g c k'" for k' using planned_cong [OF same(1), of k'] by (simp add: covered_def same)
  moreover have "books ?c = books c" by simp
  ultimately show ?thesis using t owed unfolding tracks_def by (auto simp: tags_ok_def known_ok_def same)
qed

text \<open>A frame retained behind the barrier, in place or at the end.\<close>

lemma tracks_reseed:
  assumes t: "tracks cap resets g c" and s: "seed c = Some s" "\<not> baseline_queued s"
    and c': "c' = c\<lparr>seed := Some s', out_coalesced_frames := n, out_coalesced_bytes := m\<rparr>" and books: "books c'"
    and same: "baseline_queued s' = baseline_queued s" "manifest s' = manifest s" "pending_panes s' = pending_panes s" "outdated s' = outdated s"
      "pane_replay s' = pane_replay s" "program_status_frame s' = program_status_frame s"
    and frames: "\<And>f. f \<in> set (catch_up s') \<Longrightarrow> f \<in> set (catch_up s) \<or> f = f'"
    and f': "catch_up_tagged resets f'" "\<And>k. cf_delta f' = PaneOutput k \<Longrightarrow> k \<in> d_known g \<and> manifest s k \<noteq> Some Pending \<and> k \<notin> outdated s"
    and cov: "\<And>k outs. coalesced (d_since g k) (map output_of outs @ map retained_output (caught k c)) \<Longrightarrow> \<not> owed c k \<Longrightarrow>
      coalesced (d_since (produced pane frame key g) k) (map output_of outs @ map retained_output (caught k c'))"
  shows "tracks cap resets (produced pane frame key g) c'"
proof -
  note t = t [unfolded tracks_def]
  have replay: "replay_of c' = replay_of c" using s same(5) by (simp add: replay_of_def c')
  have fields: "outbox c' = outbox c" "sheddable_outbox c' = sheddable_outbox c" "resync_pending c' = resync_pending c" "conn_attached c' = conn_attached c"
    "seed c' = Some s'"
    by (simp_all add: c' sheddable_outbox_def front_started_def)
  have owed: "owed c' k = owed c k" for k using s same by (simp add: owed_def c')
  have "tags_ok resets c'" using t s same frames f'(1) by (auto simp: tags_ok_def fields dest!: frames)
  moreover have "barrier_ok c'"
    using t s same frames f'(2) by (auto simp: barrier_ok_def fields seed_tracks_def split: if_splits dest!: frames)
  moreover have "known_ok (produced pane frame key g) c'" using t s same frames f'(2) by (auto simp: known_ok_def fields dest!: frames)
  moreover have "order_ok resets c'" using t planned_cong [OF replay] by (simp add: order_ok_def fields owed)
  moreover have "on_wire (produced pane frame key g) c'" using t by (cases "outbox c") (simp_all add: on_wire_def c')
  moreover have "owed c' k \<or> covered resets (produced pane frame key g) c' k" if k: "conn_attached c'" "k \<in> d_live g" for k
  proof (cases "owed c k")
    case False
    then have "covered resets g c k" using t k fields by auto
    then show ?thesis
    proof (rule coveredE)
      fix chunks outs payloads
      assume a: "view resets k (d_sent g @ outbox c @ planned c) = chunks @ outs" "list_all2 (chunk_of k) payloads chunks"
        "concat payloads @ unread k c = d_base g k" "replaying k c \<Longrightarrow> outs = []"
        "coalesced (d_since g k) (map output_of outs @ map retained_output (caught k c))"
      have "covered resets (produced pane frame key g) c' k"
        using a cov [OF a(5) False] planned_cong [OF replay, of k]
        by (intro coveredI [of _ _ _ _ chunks outs payloads]) (simp_all add: fields)
      then show ?thesis ..
    qed
  qed (simp add: owed)
  ultimately show ?thesis using t books by (simp add: tracks_def c')
qed

lemma filter_update:
  assumes "i < length fs" "P (fs ! i)" "P f"
  obtains us vs where "filter P fs = us @ (fs ! i) # vs" "filter P (fs[i := f]) = us @ f # vs"
proof -
  have "filter P (take i fs @ (fs ! i) # drop (Suc i) fs) = filter P (take i fs) @ (fs ! i) # filter P (drop (Suc i) fs)"
    "filter P (take i fs @ f # drop (Suc i) fs) = filter P (take i fs) @ f # filter P (drop (Suc i) fs)"
    using assms(2,3) by simp_all
  then show thesis using that assms(1) by (metis id_take_nth_drop upd_conv_take_nth_drop)
qed

lemma filter_update_other: "i < length fs \<Longrightarrow> \<not> P (fs ! i) \<Longrightarrow> \<not> P f \<Longrightarrow> filter P (fs[i := f]) = filter P fs"
  by (induction fs arbitrary: i) (auto split: nat.split)


subsection \<open>A push\<close>

lemma sheds_to_owed: "sheds_to spared c c' \<Longrightarrow> spared = Some k \<Longrightarrow> owed c' k = owed c k"
  by (induction rule: sheds_to.induct) (auto simp: owed_shed)

lemma fresh_pane: "\<not> superseded_pane delta s \<Longrightarrow> delta = PaneOutput k \<Longrightarrow> k \<notin> outdated s"
  by (simp add: superseded_pane_def)

lemma owed_shed_noted [simp]: "owed (c\<lparr>shed_bytes := n\<rparr>) k = owed c k"
  by (simp add: owed_def)

lemma tracks_push_live:
  assumes "push_live frame delta cap key c = (result, c')" "result \<noteq> Overflow" "tracks cap resets g c" "\<not> replay_barrier_up c"
    "sendable resets frame" "key_tagged key delta" "outbox_bytes c < 2 ^ 64"
    "\<And>k. output_pane delta = Some k \<Longrightarrow> conn_attached c \<and> k \<in> d_known g"
  shows "tracks cap resets (produced (output_pane delta) frame key g) c'"
proof (cases "case output_pane delta of Some k \<Rightarrow> k \<in> resync_pending c | None \<Rightarrow> False")
  case True
  then have "c' = c\<lparr>shed_bytes := shed_bytes c + of_nat (frame_length frame)\<rparr>" using assms(1) by (simp add: push_live_def)
  then show ?thesis using tracks_owed [OF assms(3)] True by (auto simp: owed_def split: option.splits)
next
  case False
  have kept: "\<not> owed c k" if "output_pane delta = Some k" for k
    using False that assms(4) by (auto simp: owed_def replay_barrier_up_def split: option.splits)
  obtain replaced c1 where rep: "replace_outbox frame key cap c = (replaced, c1)" by fastforce
  show ?thesis
  proof (cases replaced)
    case True
    then have "c' = c1" using assms(1) False rep by (simp add: push_live_def Let_def)
    with rep True have "replace_outbox frame key cap c = (True, c')" by simp
    then show ?thesis using assms(8) kept by (intro tracks_replace [OF assms(3-7)]) auto
  next
    case not: False
    from rep have "c1 = c" using not by (cases rule: replace_outbox_cases) simp_all
    obtain shed c2 where shed: "shed_until_fits (frame_length frame) (output_pane delta) cap c = (shed, c2)" by fastforce
    have res: "(result, c') = (case shed of Some result \<Rightarrow> (result, c2) | None \<Rightarrow>
        (Queued, index_outbox_back key (snd (try_push_class frame cap Normal (output_pane delta) c2))))"
      using assms(1) False rep not shed \<open>c1 = c\<close> by (cases shed) (auto simp: push_live_def Let_def)
    from shed_until_outcome [OF shed] show ?thesis
    proof (cases rule: shed_outcome.cases)
      case fits
      note t2 = tracks_sheds [OF fits(2) assms(3)] and f2 = sheds_to_fields [OF fits(2)]
      have "c' = index_outbox_back key (pushed Normal (output_pane delta) frame c2)"
        using res fits t2 by (simp add: try_push_eq)
      then show ?thesis
        using tracks_append [OF t2 _ assms(5,6)] fits(3) f2 assms(4,8) kept sheds_to_owed [OF fits(2)] by simp
    next
      case (own k c1 m)
      then show ?thesis
        using res tracks_shed [OF tracks_sheds [OF own(4) assms(3)] own(5)] owed_shed [OF own(5), of k] by (auto intro!: tracks_owed)
    next
      case (lost k c1 m)
      have "tracks cap resets g (c1\<lparr>resync_pending := insert k (resync_pending c1), shed_bytes := m\<rparr>)"
        using tracks_lost [OF tracks_sheds [OF lost(4) assms(3)] _ lost(5)] sheds_to_fields [OF lost(4)] assms(4,8) lost(1) by auto
      then show ?thesis using res lost by (auto intro!: tracks_owed simp: owed_def)
    next
      case (overflow c1)
      then show ?thesis using res assms(2) by simp
    qed
  qed
qed

text \<open>A frame of no pane, queued as it is: also while the barrier is up.\<close>

lemma tracks_append_plain:
  assumes "tracks cap resets g c" "sendable resets frame" "cl = SeedReplay \<Longrightarrow> media frame = []" "cl \<noteq> SeedCatchUp" "cl = Normal \<or> seed c \<noteq> None"
    "outbox_bytes c + frame_length frame \<le> max cap SEED_SEND_WINDOW"
  shows "tracks cap resets g (pushed cl None frame c)"
proof -
  let ?f = "\<lparr>of_replacement = None, of_bytes = frame, of_class = cl, of_pane = None\<rparr>"
  let ?c = "pushed cl None frame c"
  note t = assms(1) [unfolded tracks_def]
  have out: "outbox ?c = outbox c @ [?f]" "replay_of ?c = replay_of c" "\<not> transport_closed ?c"
    using t by (simp_all add: pushed_open(1) replay_of_def)
  have plain: "resets (bytes_of ?f) = None" "frame_tagged resets ?f"
    using assms(2) by (auto simp: sendable_def bytes_of_def frame_tagged_def)
  have owed: "owed ?c k = owed c k" "caught k ?c = caught k c" for k by (simp_all add: owed_def caught_def)
  note planned = planned_cong [OF out(2)]
  have books: "books ?c" "outbox_bytes ?c \<le> max cap SEED_SEND_WINDOW"
    using books_pushed [of c frame cl None None] t assms pushed_open(2) by (auto simp: sendable_def)
  have tags: "tags_ok resets ?c" using t plain by (auto simp: tags_ok_def out)
  have barrier: "barrier_ok ?c" using t by (auto simp: barrier_ok_def out)
  have known: "known_ok g ?c" using t by (auto simp: known_ok_def out)
  obtain j where j: "sheddable_outbox ?c = drop j (sheddable_outbox c @ [?f])" using sheddable_append [OF out(1)] t by (auto simp: books_def)
  have "sorted_wrt (stays_ahead resets) ((sheddable_outbox c @ [?f]) @ planned c)"
    using t plain by (auto simp: order_ok_def sorted_wrt_append stays_ahead_def)
  then have "order_ok resets ?c" using t planned by (intro order_dropped [OF j]) (auto simp: order_ok_def owed)
  moreover have "on_wire g ?c"
    using t by (cases "outbox c") (auto simp: on_wire_def out books_def counts_ok_def)
  moreover have "owed ?c k \<or> covered resets g ?c k" if k: "conn_attached ?c" "k \<in> d_live g" for k
  proof -
    have "view resets k (d_sent g @ outbox ?c @ planned ?c) = view resets k (d_sent g @ outbox c @ planned c)"
      using plain planned by (simp add: out view_simps view_step_def)
    then have "covered resets g ?c k = covered resets g c k" using planned by (simp add: covered_def owed)
    then show ?thesis using t k by (simp add: owed)
  qed
  ultimately show ?thesis using books tags barrier known out unfolding tracks_def by simp
qed

lemma tracks_push_plain:
  assumes "push_live frame delta cap None c = (result, c')" "result \<noteq> Overflow" "tracks cap resets g c" "sendable resets frame" "output_pane delta = None"
  shows "tracks cap resets g c'"
proof -
  obtain shed c2 where shed: "shed_until_fits (frame_length frame) None cap c = (shed, c2)" by fastforce
  have res: "(result, c') = (case shed of Some result \<Rightarrow> (result, c2) | None \<Rightarrow>
      (Queued, index_outbox_back None (snd (try_push_class frame cap Normal None c2))))"
    using assms(1,5) shed by (cases shed) (auto simp: push_live_def Let_def replace_outbox_def queue_index_def)
  from shed_until_outcome [OF shed] show ?thesis
  proof (cases rule: shed_outcome.cases)
    case fits
    note t2 = tracks_sheds [OF fits(2) assms(3)]
    have "c' = pushed Normal None frame c2"
      using res fits t2 by (simp add: try_push_eq index_outbox_back_def)
    then show ?thesis using tracks_append_plain [OF t2 assms(4), of Normal] fits(3) by (simp add: le_max_iff_disj)
  qed (use res assms(2) in simp_all)
qed

text \<open>A push behind the barrier.\<close>

lemma produced_other: "output_pane delta \<noteq> Some k \<Longrightarrow> d_since (produced (output_pane delta) frame key g) k = d_since g k"
  by simp

lemma output_pane_eq: "output_pane delta = Some k \<longleftrightarrow> delta = PaneOutput k"
  by (cases delta) auto

lemma tracks_push_catch_up:
  assumes "push_catch_up frame delta key c = (result, c')" "result \<noteq> Overflow" "tracks cap resets g c" "seed c = Some s0" "\<not> baseline_queued s0"
    "sendable resets frame" "key_tagged key delta" "\<And>k. output_pane delta = Some k \<Longrightarrow> k \<in> d_known g \<and> manifest s0 k \<noteq> Some Pending"
  shows "tracks cap resets (produced (output_pane delta) frame key g) c'"
proof -
  have up: "replay_barrier_up c" using assms(4,5) by (simp add: replay_barrier_up_def)
  let ?f = "\<lparr>cf_replacement = key, cf_bytes = frame, cf_delta = delta\<rparr>"
  have tagged: "catch_up_tagged resets ?f" using assms(6,7) by (cases key) (auto simp: catch_up_tagged_def key_tagged_def)
  from push_catch_up_outcome [OF assms(1) up] show ?thesis
  proof (cases rule: catch_up_outcome.cases)
    case (known c1 s m)
    then show ?thesis
      using tracks_sheds [OF known(3) assms(3)]
      by (auto intro!: tracks_owed simp: owed_def superseded_pane_def output_pane_eq split: option.splits)
  next
    case (superseded c1 s)
    note t1 = tracks_sheds [OF superseded(2) assms(3)]
    have manifest: "manifest s = manifest s0" using sheds_to_manifest [OF superseded(2)] superseded(3) assms(4) by simp
    have ok: "seed_ok c1" using t1 by (simp add: tracks_def books_def)
    from superseded(6) ok superseded(3,4) show ?thesis
    proof (rule supersede_cases)
      fix i n m
      let ?s = "s\<lparr>catch_up := (catch_up s)[i := ?f], catch_up_bytes := catch_up_bytes s - frame_length (cf_bytes (catch_up s ! i)) + frame_length frame\<rparr>"
      assume i: "i < length (catch_up s)" "cf_replacement (catch_up s ! i) = key" "key \<noteq> None"
        "catch_up_bytes s - frame_length (cf_bytes (catch_up s ! i)) + seed_catch_up_queued_bytes c1 + frame_length frame \<le> SEED_CATCH_UP_LIMIT"
        "c' = c1\<lparr>seed := Some ?s, out_coalesced_frames := n, out_coalesced_bytes := m\<rparr>"
      have old: "cf_delta (catch_up s ! i) = delta"
        using t1 superseded(3) i assms(7) nth_mem [OF i(1)]
        by (fastforce simp: tracks_def tags_ok_def catch_up_tagged_def key_tagged_def split: option.splits)
      have "books c'"
        by (rule books_seed [where c = c1 and s = ?s and K = "resync_pending c1" and n = n and m = m])
          (use t1 i superseded(3) catch_up_ok_superseded [of s i key frame delta] ok assms(6) in \<open>simp_all add: tracks_def seed_ok_def sendable_def\<close>)
      moreover have "coalesced (d_since (produced (output_pane delta) frame key g) k) (map output_of outs @ map retained_output (caught k c'))"
        if c: "coalesced (d_since g k) (map output_of outs @ map retained_output (caught k c1))" for k outs
      proof (cases "delta = PaneOutput k")
        case True
        obtain us vs where "filter (\<lambda>f. cf_delta f = PaneOutput k) (catch_up s) = us @ (catch_up s ! i) # vs"
          "filter (\<lambda>f. cf_delta f = PaneOutput k) ((catch_up s)[i := ?f]) = us @ ?f # vs"
          using filter_update [OF i(1), of "\<lambda>f. cf_delta f = PaneOutput k" ?f] old True by auto
        then have caught: "caught k c1 = us @ (catch_up s ! i) # vs" "caught k c' = us @ ?f # vs"
          using superseded(3) i(5) by (simp_all add: caught_def)
        obtain K where "key = Some K" using i(3) by blast
        then show ?thesis
          using coalesced.supersedes [of "d_since g k" "map output_of outs @ map retained_output us" "retained_output (catch_up s ! i)"
              "map retained_output vs" K "retained_output ?f"] c i(2) caught True
          by (simp add: retained_output_def)
      next
        case False
        then have "caught k c' = caught k c1"
          using filter_update_other [OF i(1), of "\<lambda>f. cf_delta f = PaneOutput k" ?f] old superseded(3) i(5) by (simp add: caught_def)
        then show ?thesis using c False by (simp add: output_pane_eq)
      qed
      moreover have "f \<in> set (catch_up s) \<or> f = ?f" if "f \<in> set ((catch_up s)[i := ?f])" for f
        using set_update_subset_insert [of "catch_up s" i ?f] that by auto
      ultimately show ?thesis
        using tagged assms(8) manifest fresh_pane [OF superseded(5)]
        by (intro tracks_reseed [OF t1 superseded(3,4) i(5), of ?f "output_pane delta" frame key]) (simp_all add: output_pane_eq)
    qed
  next
    case (retained c1 s)
    note t1 = tracks_sheds [OF retained(3) assms(3)]
    have manifest: "manifest s = manifest s0" using sheds_to_manifest [OF retained(3)] retained(4) assms(4) by simp
    let ?s = "retain_catch_up frame delta key s"
    have c': "c' = c1\<lparr>seed := Some ?s, out_coalesced_frames := out_coalesced_frames c1, out_coalesced_bytes := out_coalesced_bytes c1\<rparr>"
      using retained(2) by simp
    have "books c'"
      by (rule books_seed [where c = c1 and s = ?s and K = "resync_pending c1" and n = "out_coalesced_frames c1" and m = "out_coalesced_bytes c1"])
        (use t1 retained catch_up_ok_retained [of s frame delta key] assms(6) in
          \<open>simp_all add: tracks_def books_def seed_ok_def sendable_def retain_catch_up_def\<close>)
    moreover have "coalesced (d_since (produced (output_pane delta) frame key g) k) (map output_of outs @ map retained_output (caught k c'))"
      if "coalesced (d_since g k) (map output_of outs @ map retained_output (caught k c1))" for k outs
    proof -
      have "caught k c' = caught k c1 @ (if delta = PaneOutput k then [?f] else [])"
        using retained(4) c' by (simp add: caught_def retain_catch_up_def)
      then show ?thesis using that coalesced.follows [OF that, of "retained_output ?f"] by (simp add: output_pane_eq retained_output_def)
    qed
    ultimately show ?thesis
      using tagged assms(8) manifest fresh_pane [OF retained(6)]
      by (intro tracks_reseed [OF t1 retained(4,5) c', of ?f "output_pane delta" frame key])
        (auto simp: output_pane_eq retain_catch_up_def)
  next
    case (shed k c1 m)
    then show ?thesis
      using tracks_shed [OF tracks_sheds [OF shed(3) assms(3)] shed(5)] owed_shed [OF shed(5), of k]
      by (auto intro!: tracks_owed simp: output_pane_eq split: option.splits)
  qed (use assms(2) in simp)
qed

lemma tracks_push_delta:
  assumes "push_delta frame delta cap key c = (result, c')" "result \<noteq> Overflow" "tracks cap resets g c" "max cap SEED_SEND_WINDOW < 2 ^ 64"
    "sendable resets frame" "key_tagged key delta" "\<And>k. delta = PaneOutput k \<Longrightarrow> conn_attached c \<and> k \<in> d_known g"
  shows "tracks cap resets (produced (output_pane delta) frame key g) c'"
proof -
  have inner: "push_delta_inner frame delta cap key c = (result, c')"
    using assms(1,2) by (auto simp: push_delta_def Let_def split: prod.splits if_splits)
  have c: "\<not> transport_closed c" "outbox_bytes c < 2 ^ 64" using assms(3,4) by (auto simp: tracks_def)
  show ?thesis
  proof (cases "replay_barrier_up c")
    case False
    then have "push_live frame delta cap key c = (result, c')"
      using inner c by (auto simp: push_delta_inner_def replay_barrier_up_def split: option.splits)
    then show ?thesis using tracks_push_live assms(2,3,5-7) c(2) False by (simp add: output_pane_eq)
  next
    case True
    then obtain s where s: "seed c = Some s" "\<not> baseline_queued s" by (auto simp: replay_barrier_up_def split: option.splits)
    have catch_up: ?thesis if "push_catch_up frame delta key c = (result, c')" "\<And>k. delta = PaneOutput k \<Longrightarrow> manifest s k \<noteq> Some Pending"
      using tracks_push_catch_up [OF that(1) assms(2,3) s assms(5,6)] that(2) assms(7) by (simp add: output_pane_eq)
    show ?thesis
    proof (cases delta)
      case Control
      then show ?thesis using catch_up inner s c by (simp add: push_delta_inner_def)
    next
      case (PaneOutput k)
      show ?thesis
      proof (cases "output_precedes_snapshot s k")
        case pending: True
        then have "c' = c" "owed c k" using inner s c PaneOutput by (auto simp: push_delta_inner_def output_precedes_snapshot_def owed_def)
        then show ?thesis using tracks_owed [OF assms(3)] PaneOutput by simp
      next
        case False
        then show ?thesis using catch_up inner s c PaneOutput by (simp add: push_delta_inner_def output_precedes_snapshot_def)
      qed
    next
      case (PaneResize k)
      then have "key = None" using assms(6) by (cases key) (auto simp: key_tagged_def key_delta_def split: if_splits)
      show ?thesis
      proof (cases "output_precedes_snapshot s k")
        case True
        then have "push_live frame delta cap None c = (result, c')" using inner s c PaneResize \<open>key = None\<close> by (simp add: push_delta_inner_def)
        then show ?thesis using tracks_push_plain assms(2,3,5) PaneResize by (simp add: produced_def)
      next
        case False
        then show ?thesis using catch_up inner s c PaneResize by (simp add: push_delta_inner_def)
      qed
    qed
  qed
qed

end
