(* ===== verification/TrackingPump.thy ===== *)
theory TrackingPump
  imports Tracking
begin

text \<open>
  The invariant of \<open>Tracking\<close> through the rest of a connection's run: writing to the socket, stamping the number of
  an output that names files, raising and lifting the barrier, and each piece of work of the pump.
\<close>

subsection \<open>Writing\<close>

lemma tracks_wrote:
  assumes "tracks cap resets g c" "outbox c = f # fs" "0 < n" "front_offset c + n \<le> frame_length (of_bytes f)"
  shows "tracks cap resets (g\<lparr>d_sent := d_sent g @ (if front_offset c + n = frame_length (of_bytes f) then [f] else [])\<rparr>) (wrote n c)"
proof -
  let ?c = "wrote n c" and ?done = "if front_offset c + n = frame_length (of_bytes f) then [f] else []"
  let ?g = "g\<lparr>d_sent := d_sent g @ ?done\<rparr>"
  note t = assms(1) [unfolded tracks_def]
  have out: "?done @ outbox ?c = outbox c" "front_offset ?c = (if front_offset c + n = frame_length (of_bytes f) then 0 else front_offset c + n)"
    using assms(2) wrote_cases [OF assms(2), of n] assms(4) by (cases "front_offset c + n = frame_length (of_bytes f)"; fastforce)+
  have replay: "replay_of ?c = replay_of c" by (simp add: replay_of_def wrote_fields)
  note planned = planned_cong [OF replay]
  have owed: "owed ?c k = owed c k" "caught k ?c = caught k c" for k by (simp_all add: owed_def caught_def wrote_fields)
  have subset: "set (outbox ?c) \<subseteq> set (outbox c)" using arg_cong [OF out(1), of set] by auto
  have "seed_queued_bytes ?c \<le> seed_queued_bytes c" "seed_catch_up_queued_bytes ?c \<le> seed_catch_up_queued_bytes c"
    using wrote_counts(2) [OF assms(2), of SeedReplay n] wrote_counts(2) [OF assms(2), of SeedCatchUp n] by (simp_all add: queued_of_def)
  then have "seed_ok ?c" using t by (auto simp: books_def wrote_fields intro: seed_ok_weaken)
  then have books: "books ?c" "outbox_bytes ?c \<le> max cap SEED_SEND_WINDOW"
    using books_wrote [OF _ _ assms(2,4)] t wrote_counts(1) [OF assms(2), of n] by (auto simp: books_def)
  have tags: "tags_ok resets ?c" using t subset by (auto simp: tags_ok_def wrote_fields)
  have barrier: "barrier_ok ?c" using t subset by (auto simp: barrier_ok_def wrote_fields)
  have known: "known_ok ?g ?c" using t out(1) arg_cong [OF out(1), of set] by (auto simp: known_ok_def wrote_fields)
  obtain j where j: "sheddable_outbox ?c = drop j (sheddable_outbox c)"
  proof (cases "front_offset c + n = frame_length (of_bytes f)")
    case True
    then have "outbox ?c = fs" using out(1) assms(2) by simp
    then have "sheddable_outbox ?c = drop ((if front_started c then 0 else 1) + (if front_started ?c then 1 else 0)) (sheddable_outbox c)"
      using assms(2) by (simp add: sheddable_outbox_def)
    then show thesis by (rule that)
  next
    case False
    then have "outbox ?c = f # fs" "front_started ?c" using out assms(2,3) by (simp_all add: front_started_def)
    then have "sheddable_outbox ?c = drop (if front_started c then 0 else 1) (sheddable_outbox c)"
      using assms(2) by (simp add: sheddable_outbox_def)
    then show thesis by (rule that)
  qed
  have "order_ok resets ?c" using t planned by (intro order_dropped [OF j]) (auto simp: order_ok_def owed)
  moreover have "on_wire ?g ?c"
  proof (cases "front_offset c + n = frame_length (of_bytes f)")
    case True
    then have "take (front_offset c) (bytes_of f) @ take n (drop (front_offset c) (bytes_of f)) = bytes_of f"
      by (simp add: bytes_of_def frame_length_def flip: take_add)
    then show ?thesis using t assms(2) out True by (simp add: on_wire_def wrote_counts [OF assms(2)] bytes_of_def split: list.split)
  next
    case False
    then have "outbox ?c = f # fs" using out(1) assms(2) by simp
    then show ?thesis using t assms(2) out(2) False by (simp add: on_wire_def wrote_counts [OF assms(2)] bytes_of_def take_add)
  qed
  moreover have "owed ?c k \<or> covered resets ?g ?c k" if k: "conn_attached ?c" "k \<in> d_live ?g" for k
  proof -
    have all: "d_sent ?g @ outbox ?c @ planned ?c = d_sent g @ outbox c @ planned c"
      using planned by (simp flip: out(1))
    have "covered resets ?g ?c k = covered resets g c k" unfolding covered_def all using planned by (simp add: owed)
    then show ?thesis using t k by (simp add: owed wrote_fields)
  qed
  ultimately show ?thesis using books tags barrier known t unfolding tracks_def by (simp add: wrote_fields)
qed

text \<open>Stamping a frame with its number.\<close>

lemma stamp_same:
  assumes "PANE_OUTPUT_ACQUISITION_OFFSET + 8 \<le> length bytes"
  shows "length (stamp n bytes) = length bytes" "unstamped (stamp n bytes) = unstamped bytes"
  using assms by (simp_all add: stamp_def unstamped_def min_def)

lemma output_split:
  assumes "chunks @ outs = xs @ f # ys" "f \<notin> set chunks"
  obtains os where "xs = chunks @ os" "outs = os @ f # ys"
  using assms that by (auto simp: append_eq_append_conv2 Cons_eq_append_conv append_eq_Cons_conv)

lemma prepare_cases:
  assumes "prepare_acquisition c r = (True, c', r')"
  obtains "c' = c"
  | f fs n a where "outbox c = f # fs" "media (of_bytes f) \<noteq> []"
      "c' = c\<lparr>acqs := a, outbox := f\<lparr>of_bytes := (of_bytes f)\<lparr>frame_bytes := stamp n (bytes_of f), media := []\<rparr>\<rparr> # fs\<rparr>"
  using assms by (auto simp: prepare_acquisition_def bytes_of_def split: list.splits option.splits if_splits prod.splits)

lemma books_stamped:
  assumes "books c" "outbox c = f # fs" "of_class f' = of_class f" "of_replacement f' = of_replacement f" "frame_length (of_bytes f') = frame_length (of_bytes f)"
  shows "books (c\<lparr>acqs := a, outbox := f' # fs\<rparr>)"
proof -
  let ?c = "c\<lparr>acqs := a, outbox := f' # fs\<rparr>"
  have "queued_of cl ?c = queued_of cl c" for cl by (cases cl) (simp_all add: queued_of_def)
  moreover have "front_part cl ?c = front_part cl c" for cl using assms(2-3) by (simp add: front_part_def)
  ultimately have "counts_ok ?c" using assms by (simp add: books_def counts_ok_def)
  moreover have "index_ok ?c" "seed_ok ?c" using assms by (simp_all add: books_def index_ok_def seed_ok_def)
  ultimately show ?thesis by (simp add: books_def)
qed

lemma tracks_prepared:
  assumes "tracks cap resets g c" "front_offset c = 0" "prepare_acquisition c r = (True, c', r')"
  shows "tracks cap resets g c'"
  using assms(3)
proof (cases rule: prepare_cases)
  case (2 f fs n a)
  define f' where "f' = f\<lparr>of_bytes := (of_bytes f)\<lparr>frame_bytes := stamp n (bytes_of f), media := []\<rparr>\<rparr>"
  have c': "c' = c\<lparr>acqs := a, outbox := f' # fs\<rparr>" using 2(3) by (simp add: f'_def)
  note t = assms(1) [unfolded tracks_def]
  have f: "frame_tagged resets f" using t 2(1) by (simp add: tags_ok_def)
  then have long: "PANE_OUTPUT_ACQUISITION_OFFSET + 8 \<le> length (bytes_of f)" "resets (bytes_of f) = None" "resets (bytes_of f') = None"
    using 2(2) by (auto simp: frame_tagged_def frame_length_def bytes_of_def f'_def)
  have same: "of_pane f' = of_pane f" "of_replacement f' = of_replacement f" "of_class f' = of_class f"
    "frame_length (of_bytes f') = frame_length (of_bytes f)" "output_of f' = output_of f"
    using stamp_same [OF long(1), of n] by (simp_all add: f'_def bytes_of_def frame_length_def output_of_def)
  have "frame_tagged resets f'" using f long same unfolding frame_tagged_def by (simp add: f'_def split: option.splits)
  then have tags: "tags_ok resets c'" using t 2(1) by (simp add: tags_ok_def c')
  have barrier: "barrier_ok c'" using t 2(1) same by (simp add: barrier_ok_def c')
  have known: "known_ok g c'" using t 2(1) same by (simp add: known_ok_def c')
  have replay: "replay_of c' = replay_of c" by (simp add: replay_of_def c')
  note planned = planned_cong [OF replay]
  have owed: "owed c' k = owed c k" "caught k c' = caught k c" for k by (simp_all add: owed_def caught_def c')
  have books: "books c'" using t 2(1) same by (auto simp: c' intro: books_stamped)
  have shed: "sheddable_outbox c = f # fs" using 2(1,2) assms(2) by (simp add: sheddable_outbox_def front_started_def)
  obtain j where j: "sheddable_outbox c' = drop j (f' # fs)" by (simp add: sheddable_outbox_def c')
  have "sorted_wrt (stays_ahead resets) ((f' # fs) @ planned c')"
    using t shed planned same by (simp add: order_ok_def stays_ahead_def)
  then have "order_ok resets c'" using t shed same by (intro order_dropped [OF j]) (auto simp: order_ok_def owed)
  moreover have "on_wire g c'" using t 2(1) assms(2) by (simp add: on_wire_def c')
  moreover have "owed c' k \<or> covered resets g c' k" if k: "conn_attached c'" "k \<in> d_live g" for k
  proof (cases "owed c k")
    case False
    then have "covered resets g c k" using t k by (auto simp: c')
    then show ?thesis
    proof (rule coveredE)
      fix chunks outs payloads
      assume a: "view resets k (d_sent g @ outbox c @ planned c) = chunks @ outs" "list_all2 (chunk_of k) payloads chunks"
        "concat payloads @ unread k c = d_base g k" "replaying k c \<Longrightarrow> outs = []"
        "coalesced (d_since g k) (map output_of outs @ map retained_output (caught k c))"
      have "f \<notin> set chunks"
        using a(2) 2(2) encoded_length(2) by (fastforce simp: list_all2_conv_all_nth in_set_conv_nth chunk_of_def)
      note like = view_change_like [OF long(2,3) same(1), of k "d_sent g" "fs @ planned c"]
      then have "\<exists>outs'. view resets k (d_sent g @ outbox c' @ planned c') = chunks @ outs' \<and> map output_of outs' = map output_of outs"
      proof (elim disjE exE conjE)
        fix xs ys
        assume v: "view resets k (d_sent g @ f # fs @ planned c) = xs @ f # ys" "view resets k (d_sent g @ f' # fs @ planned c) = xs @ f' # ys"
        then have "chunks @ outs = xs @ f # ys" using a(1) 2(1) by simp
        then show ?thesis
        proof (rule output_split)
          show "f \<notin> set chunks" by fact
          fix os
          assume "xs = chunks @ os" "outs = os @ f # ys"
          then show ?thesis using v(2) planned same(5) by (auto simp: c')
        qed
      qed (use a(1) 2(1) planned in \<open>auto simp: c'\<close>)
      then show ?thesis
      proof (elim exE conjE)
        fix outs'
        assume "view resets k (d_sent g @ outbox c' @ planned c') = chunks @ outs'" "map output_of outs' = map output_of outs"
        moreover from this(2) have "outs' = [] \<longleftrightarrow> outs = []" by (metis map_is_Nil_conv)
        ultimately have "covered resets g c' k" using a planned by (intro coveredI [of _ _ _ _ chunks outs' payloads]) (simp_all add: owed)
        then show ?thesis ..
      qed
    qed
  qed (simp add: owed)
  ultimately show ?thesis using books tags barrier known t unfolding tracks_def by (simp add: c')
qed (use assms(1) in simp)


subsection \<open>Raising and lifting the barrier\<close>

lemma tracks_drained:
  assumes "tracks cap resets g c" "take_completed_seed c = (s, c')"
  shows "tracks cap resets g c'"
proof (cases "c' = c")
  case False
  note t = assms(1) [unfolded tracks_def]
  obtain s0 where s: "seed c = Some s0" "baseline_queued s0" "c' = c\<lparr>seed := None\<rparr>"
    using assms(2) False by (auto simp: take_completed_seed_def split: option.splits if_splits)
  have books: "books c'" using completed_books [of c] t assms(2) by simp
  have down: "\<not> replay_barrier_up c" "\<not> replay_barrier_up c'" using s by (simp_all add: replay_barrier_up_def)
  have barrier: "barrier_ok c'" using t s by (auto simp: barrier_ok_def)
  note none = unbarred [OF _ down(1)] unbarred [OF barrier down(2)]
  have owed: "owed c' k = owed c k" for k using s by (simp add: owed_def)
  have shed: "sheddable_outbox c' = sheddable_outbox c" using s by (simp add: sheddable_outbox_def front_started_def)
  have "covered resets g c' k = covered resets g c k" for k using t none s by (simp add: covered_def)
  moreover have "order_ok resets c'" using t none by (simp add: order_ok_def owed shed)
  moreover have "on_wire g c'" using t s by (cases "outbox c") (simp_all add: on_wire_def)
  ultimately show ?thesis using t s books barrier owed unfolding tracks_def by (auto simp: tags_ok_def known_ok_def)
qed (use assms(1) in simp)

lemma manifest_of_resync:
  "fold (\<lambda>key m. if m key = None then m(key \<mapsto> CatchingUp) else m) live m k = Some Pending \<longleftrightarrow> m k = Some Pending"
  by (induction live arbitrary: m) auto

text \<open>A new barrier on a client that has none: the panes it replays are all pending.\<close>

lemma tracks_raised:
  assumes t: "tracks cap resets g c" and "seed c = None" "conn_attached c'"
    and c': "c' = c\<lparr>resync_pending := {}, conn_attached := conn_attached c', shares_filesystem := shares, seed := Some s\<rparr>"
    and s: "\<not> baseline_queued s" "catch_up s = []" "pane_replay s = None" "outdated s = {}" "program_status_frame s = None"
      "distinct (pending_panes s)" "\<And>k. manifest s k = Some Pending \<longleftrightarrow> k \<in> set (pending_panes s)" "set (pending_panes s) \<subseteq> d_known g" "catch_up_bytes s = 0" "catch_up_ok s"
    and owed: "\<And>k. k \<in> d_live g \<Longrightarrow> conn_attached c \<Longrightarrow> k \<in> resync_pending c \<Longrightarrow> k \<in> set (pending_panes s)"
      "\<And>k. conn_attached c \<Longrightarrow> k \<in> set (pending_panes s) \<Longrightarrow> k \<in> resync_pending c"
      "\<And>k. \<not> conn_attached c \<Longrightarrow> k \<in> d_live g \<Longrightarrow> k \<in> set (pending_panes s)"
  shows "tracks cap resets g c'"
proof -
  note t = t [unfolded tracks_def]
  have fields: "outbox c' = outbox c" "front_offset c' = front_offset c" "seed c' = Some s" "resync_pending c' = {}" "outbox_bytes c' = outbox_bytes c"
    "stream c' = stream c" "transport_closed c' = transport_closed c"
    by (subst c', simp)+
  have owed': "owed c' k \<longleftrightarrow> k \<in> set (pending_panes s)" for k using s by (simp add: owed_def fields)
  have none: "caught k c = []" "caught k c' = []" "replay_of c = None" "replay_of c' = None" for k
    using assms(2) s by (simp_all add: caught_def replay_of_def fields)
  then have planned: "planned c = []" "planned c' = []" "unread k c = []" "unread k c' = []" "\<not> replaying k c" "\<not> replaying k c'" for k
    by (simp_all add: planned_def unread_def replaying_def)
  have shed: "sheddable_outbox c' = sheddable_outbox c" by (simp add: sheddable_outbox_def front_started_def fields)
  have "counts_ok c' = counts_ok c \<and> index_ok c' = index_ok c" by (subst (1 2) c', rule books_cong) simp_all
  moreover have "seed_catch_up_queued_bytes c' = seed_catch_up_queued_bytes c" by (subst c', simp)
  ultimately have books: "books c'" using t assms(2) s by (simp add: books_def seed_ok_def fields)
  have tags: "tags_ok resets c'" using t s by (simp add: tags_ok_def fields)
  have barrier: "barrier_ok c'" using assms(3) s by (simp add: barrier_ok_def fields seed_tracks_def)
  have known: "known_ok g c'" using t s by (simp add: known_ok_def fields)
  have "\<not> owed c' k" if "f \<in> set (sheddable_outbox c)" "of_replacement f \<noteq> None" "of_pane f = Some k" for f k
  proof -
    have "conn_attached c" using t that sheddable_subset [of c] by (auto simp: barrier_ok_def)
    then show ?thesis using t that owed(2) [of k] owed' by (auto simp: order_ok_def owed_def [of c])
  qed
  then have "order_ok resets c'" using t planned by (simp add: order_ok_def shed)
  moreover have "on_wire g c'" using t by (cases "outbox c") (simp_all add: on_wire_def fields)
  moreover have "owed c' k \<or> covered resets g c' k" if k: "k \<in> d_live g" for k
  proof (cases "conn_attached c \<and> \<not> owed c k")
    case True
    then have "covered resets g c k" using t k by blast
    then show ?thesis by (simp add: covered_def fields none planned)
  next
    case False
    then show ?thesis using k owed(1,3) [of k] assms(2) by (auto simp: owed' owed_def [of c])
  qed
  ultimately show ?thesis using t books tags barrier known unfolding tracks_def by (simp add: fields)
qed

lemma tracks_resync:
  assumes "tracks cap resets g c" "set live = d_live g"
  shows "tracks cap resets g (start_client_resync live c)"
proof (cases "\<not> conn_attached c \<or> seed c \<noteq> None \<or> resync_pending c = {} \<or> outbox_bytes c > RESYNC_START_BACKLOG")
  case True
  then show ?thesis using assms by (simp add: start_client_resync_def)
next
  case False
  note t = assms(1) [unfolded tracks_def]
  define stale where "stale = filter (\<lambda>key. key \<in> set live) (sorted_list_of_set (resync_pending c))"
  have fin: "finite (resync_pending c)" using t by (simp add: barrier_ok_def)
  have stale: "set stale = resync_pending c \<inter> d_live g" "distinct stale" using fin assms(2) by (auto simp: stale_def)
  show ?thesis
  proof (cases "stale = []")
    case empty: True
    then have c': "start_client_resync live c = c\<lparr>resync_pending := {}\<rparr>" using False by (simp add: start_client_resync_def stale_def [symmetric])
    let ?c = "c\<lparr>resync_pending := {}\<rparr>"
    have owed: "owed ?c k \<Longrightarrow> owed c k" "k \<in> d_live g \<Longrightarrow> owed ?c k = owed c k" for k
      using False stale empty by (auto simp: owed_def)
    have same: "replay_of ?c = replay_of c" "sheddable_outbox ?c = sheddable_outbox c" "caught k ?c = caught k c" for k
      by (simp_all add: replay_of_def sheddable_outbox_def front_started_def caught_def)
    have "covered resets g ?c k = covered resets g c k" for k using planned_cong [OF same(1), of k] by (simp add: covered_def same)
    moreover have "order_ok resets ?c" using t planned_cong [OF same(1)] owed(1) by (auto simp: order_ok_def same)
    moreover have "on_wire g ?c" using t by (cases "outbox c") (simp_all add: on_wire_def)
    ultimately show ?thesis using t owed(2) unfolding c' tracks_def by (auto simp: tags_ok_def barrier_ok_def known_ok_def)
  next
    case False
    let ?s = "resync_seed live stale"
    have "conn_attached c" "seed c = None" using \<open>\<not> (\<not> conn_attached c \<or> _)\<close> by simp_all
    moreover have "start_client_resync live c = c\<lparr>resync_pending := {}, seed := Some ?s\<rparr>"
      using \<open>\<not> (\<not> conn_attached c \<or> _)\<close> False by (simp add: start_client_resync_def stale_def [symmetric])
    moreover have "set stale \<subseteq> d_known g" using t stale by (auto simp: known_ok_def)
    ultimately show ?thesis
      using stale new_seed_ok(2,4) [of live stale]
      by (intro tracks_raised [OF assms(1), where s = ?s and shares = "shares_filesystem c"])
        (auto simp: resync_seed_def new_seed_def Let_def manifest_of_resync split: if_splits)
  qed
qed

lemma tracks_attach:
  assumes "tracks cap resets g c" "\<not> conn_attached c" "set panes = d_live g" "distinct panes"
  shows "tracks cap resets g (enqueue_attach_seeds panes statuses (c\<lparr>conn_attached := True, shares_filesystem := shares\<rparr>))"
proof -
  note t = assms(1) [unfolded tracks_def]
  have none: "seed c = None" "resync_pending c = {}" using t assms(2) by (simp_all add: barrier_ok_def)
  have "catch_up_ok ((new_seed panes)\<lparr>pending_program_status := sort statuses\<rparr>)"
    using new_seed_ok(1) [of panes] by (simp add: catch_up_ok_def)
  then show ?thesis
    using assms none t
    by (intro tracks_raised [OF assms(1), where s = "(new_seed panes)\<lparr>pending_program_status := sort statuses\<rparr>" and shares = shares])
      (auto simp: enqueue_attach_seeds_def new_seed_def Let_def known_ok_def split: if_splits)
qed

lemma tracks_complete:
  assumes "tracks cap resets g c" "next_attach_seed_work c = Complete"
  shows "tracks cap resets g (complete_attach_baseline c)"
proof -
  let ?c = "complete_attach_baseline c"
  note t = assms(1) [unfolded tracks_def]
  obtain s where s: "seed c = Some s" "\<not> baseline_queued s" "pane_replay s = None" "pending_panes s = []" "catch_up s = []"
    using assms(2) by (auto simp: next_attach_seed_work_def split: option.splits list.splits if_splits)
  let ?s = "s\<lparr>manifest := (\<lambda>key. map_option (\<lambda>_. Live) (manifest s key)), baseline_queued := True, outdated := {}\<rparr>"
  have c': "?c = c\<lparr>seed := Some ?s, resync_pending := resync_pending c \<union> outdated s\<rparr>" using s by (simp add: complete_attach_baseline_def)
  have "seed_tracks s" "resync_pending c = {}" "conn_attached c" using t s by (auto simp: barrier_ok_def)
  then have owed: "owed ?c k = owed c k" for k using s by (auto simp: owed_def c' seed_tracks_def)
  have same: "replay_of ?c = replay_of c" "sheddable_outbox ?c = sheddable_outbox c" "caught k ?c = caught k c" "outbox ?c = outbox c" for k
    using s by (simp_all add: replay_of_def sheddable_outbox_def front_started_def caught_def c')
  have "covered resets g ?c k = covered resets g c k" for k using planned_cong [OF same(1), of k] by (simp add: covered_def same)
  moreover have "order_ok resets ?c" using t planned_cong [OF same(1)] by (auto simp: order_ok_def same owed)
  moreover have "on_wire g ?c" using t by (cases "outbox c") (simp_all add: on_wire_def c')
  moreover have "tags_ok resets ?c" using t s by (auto simp: tags_ok_def c')
  moreover have "known_ok g ?c" using t s by (auto simp: known_ok_def c')
  moreover have "books ?c" using t complete_books by blast
  ultimately show ?thesis using t s owed unfolding tracks_def by (auto simp: barrier_ok_def seed_tracks_def c')
qed


subsection \<open>The work of the pump\<close>

lemma tracks_on_seed:
  assumes "tracks cap resets g c" "books (on_seed h c)"
    "\<And>s. seed c = Some s \<Longrightarrow> baseline_queued (h s) = baseline_queued s \<and> manifest (h s) = manifest s \<and> pending_panes (h s) = pending_panes s \<and>
       outdated (h s) = outdated s \<and> pane_replay (h s) = pane_replay s \<and> catch_up (h s) = catch_up s \<and>
       (\<forall>frame. program_status_frame (h s) = Some frame \<longrightarrow> sendable resets frame \<and> media frame = [])"
  shows "tracks cap resets g (on_seed h c)"
proof (cases "seed c")
  case None
  then have "on_seed h c = c" by (simp add: on_seed_def)
  then show ?thesis using assms(1) by simp
next
  case (Some s)
  let ?c = "on_seed h c"
  note t = assms(1) [unfolded tracks_def] and h = assms(3) [OF Some]
  have owed: "owed ?c k = owed c k" for k using Some h by (simp add: owed_def)
  have same: "replay_of ?c = replay_of c" "sheddable_outbox ?c = sheddable_outbox c" "caught k ?c = caught k c" for k
    using Some h by (simp_all add: replay_of_def sheddable_outbox_def front_started_def caught_def)
  have "covered resets g ?c k = covered resets g c k" for k using planned_cong [OF same(1), of k] by (simp add: covered_def same)
  moreover have "order_ok resets ?c" using t planned_cong [OF same(1)] by (auto simp: order_ok_def same owed)
  moreover have "on_wire g ?c" using t by (cases "outbox c") (simp_all add: on_wire_def)
  moreover have "tags_ok resets ?c" using t Some h by (simp add: tags_ok_def)
  moreover have "seed_tracks (h s) = seed_tracks s" using h by (simp add: seed_tracks_def)
  then have "barrier_ok ?c" using t Some h by (simp add: barrier_ok_def)
  moreover have "known_ok g ?c" using t Some h by (simp add: known_ok_def)
  ultimately show ?thesis using t assms(2) owed unfolding tracks_def by simp
qed

lemma tracks_pumped:
  assumes t: "tracks cap resets g c" and s: "seed c = Some s" "\<not> baseline_queued s"
    and fields: "outbox c' = outbox c @ [f]" "seed c' = Some s'" "front_offset c' = front_offset c" "resync_pending c' = resync_pending c"
      "conn_attached c' = conn_attached c" "transport_closed c' = transport_closed c" "stream c' = stream c"
      "books c'" "outbox_bytes c' \<le> max cap SEED_SEND_WINDOW"
    and s': "baseline_queued s' = baseline_queued s" "manifest s' = manifest s" "pending_panes s' = pending_panes s" "outdated s' = outdated s"
      "program_status_frame s' = program_status_frame s" "set (catch_up s') \<subseteq> set (catch_up s)"
      "\<And>r'. pane_replay s' = Some r' \<Longrightarrow> reset_frame r' = None \<and> (\<exists>r. pane_replay s = Some r \<and> rp_key r' = rp_key r)"
    and f: "frame_tagged resets f" "\<And>k. of_pane f = Some k \<Longrightarrow> k \<in> d_known g" "sorted_wrt (stays_ahead resets) (sheddable_outbox c @ [f])"
      "\<And>k. of_replacement f \<noteq> None \<Longrightarrow> of_pane f = Some k \<Longrightarrow> \<not> owed c k"
    and cov: "\<And>k. covered resets g c k \<Longrightarrow> covered resets g c' k"
  shows "tracks cap resets g c'"
proof -
  note t = t [unfolded tracks_def]
  have attached: "conn_attached c" using t s by (auto simp: barrier_ok_def)
  have owed: "owed c' k = owed c k" for k using s s' by (simp add: owed_def fields)
  have planned: "planned c' = []" using s'(7) by (auto simp: planned_def replay_of_def fields split: option.split)
  have "\<forall>q \<in> set (catch_up s'). catch_up_tagged resets q" using t s(1) s'(6) by (auto simp: tags_ok_def)
  then have tags: "tags_ok resets c'" using t s(1) s'(5) f(1) by (auto simp: tags_ok_def fields dest: s'(7))
  have st: "seed_tracks s" using t s(1) by (simp add: barrier_ok_def)
  then have "\<forall>q \<in> set (catch_up s'). \<forall>k. cf_delta q = PaneOutput k \<longrightarrow> manifest s k \<noteq> Some Pending \<and> k \<notin> outdated s"
    using s(2) s'(6) by (auto simp: seed_tracks_def)
  moreover have "\<forall>r. pane_replay s' = Some r \<longrightarrow> manifest s (rp_key r) \<noteq> Some Pending" using st s(2) by (auto simp: seed_tracks_def dest!: s'(7))
  ultimately have "seed_tracks s'" using st s(2) unfolding seed_tracks_def s'(1-4) by simp
  then have barrier: "barrier_ok c'" using t s attached s'(1) by (simp add: barrier_ok_def fields)
  have "\<forall>q \<in> set (catch_up s'). \<forall>k. cf_delta q = PaneOutput k \<longrightarrow> k \<in> d_known g" using t s(1) s'(6) by (auto simp: known_ok_def)
  moreover have "\<forall>r. pane_replay s' = Some r \<longrightarrow> rp_key r \<in> d_known g" using t s(1) by (auto simp: known_ok_def dest!: s'(7))
  ultimately have known: "known_ok g c'" using t s(1) s'(3) f(2) by (auto simp: known_ok_def fields)
  obtain j where j: "sheddable_outbox c' = drop j (sheddable_outbox c @ [f])" using sheddable_append [OF fields(1,3)] t by (auto simp: books_def)
  have "order_ok resets c'" using t f(3,4) planned by (intro order_dropped [OF j]) (auto simp: order_ok_def owed)
  moreover have "on_wire g c'"
    using t by (cases "outbox c") (auto simp: on_wire_def fields books_def counts_ok_def)
  ultimately show ?thesis using t tags barrier known cov unfolding tracks_def by (auto simp: fields owed)
qed

lemma tracks_reset_sent:
  assumes "tracks cap resets g c" "seed c = Some s" "\<not> baseline_queued s" "pane_replay s = Some r" "reset_frame r = Some frame"
    "c' = on_replay (\<lambda>r. r\<lparr>reset_frame := None\<rparr>) (pushed SeedReplay None frame c)" "books c'" "outbox_bytes c' \<le> max cap SEED_SEND_WINDOW"
  shows "tracks cap resets g c'"
proof -
  let ?f = "\<lparr>of_replacement = None, of_bytes = frame, of_class = SeedReplay, of_pane = None\<rparr>"
  note t = assms(1) [unfolded tracks_def]
  have planned: "planned c = [?f]" "planned c' = []" using assms(2,4-6) by (simp_all add: planned_def replay_of_def)
  have frame: "resets (frame_bytes frame) = Some (rp_key r)" "media frame = []" using t assms(2,4,5) by (auto simp: tags_ok_def)
  have out: "outbox c' = outbox c @ [?f]" using t assms(6) by (simp add: on_replay_def pushed_open(1))
  have same: "unread k c' = unread k c" "replaying k c' = replaying k c" "caught k c' = caught k c" for k
    using assms(2,4-6) by (simp_all add: unread_def replaying_def caught_def replay_of_def)
  have "covered resets g c' k = covered resets g c k" for k
    by (simp add: covered_def same planned out)
  then show ?thesis
    using assms out frame t planned
    by (intro tracks_pumped [OF assms(1-3), of c' ?f "s\<lparr>pane_replay := Some (r\<lparr>reset_frame := None\<rparr>)\<rparr>"])
      (auto simp: on_replay_def frame_tagged_def bytes_of_def order_ok_def)
qed

lemma tracks_chunk_sent:
  assumes "tracks cap resets g c" "seed c = Some s" "\<not> baseline_queued s" "pane_replay s = Some r" "reset_frame r = None"
    "n \<le> rp_remaining r" "n \<le> length (spool r)"
    "encode_pane_output (seed_pane_id (rp_key r)) (seed_generation (rp_key r)) False default_metadata (take n (spool r)) = Some frame"
    "resets (frame_bytes frame) = None"
    "c' = on_replay (\<lambda>r. r\<lparr>spool := drop n (spool r), rp_remaining := rp_remaining r - n\<rparr>) (pushed SeedReplay (Some (rp_key r)) frame c)"
    "books c'" "outbox_bytes c' \<le> max cap SEED_SEND_WINDOW"
  shows "tracks cap resets g c'"
proof -
  let ?f = "\<lparr>of_replacement = None, of_bytes = frame, of_class = SeedReplay, of_pane = Some (rp_key r)\<rparr>"
  note t = assms(1) [unfolded tracks_def]
  have planned: "planned c = []" "planned c' = []" using assms(2,4,5,10) by (simp_all add: planned_def replay_of_def)
  have out: "outbox c' = outbox c @ [?f]" using t assms(10) by (simp add: on_replay_def pushed_open(1))
  have same: "replaying k c' = replaying k c" "caught k c' = caught k c" for k
    using assms(2,4,10) by (simp_all add: replaying_def caught_def replay_of_def)
  have unread: "unread k c' = (if k = rp_key r then take (rp_remaining r - n) (drop n (spool r)) else unread k c)" for k
    using assms(2,4,10) by (simp add: unread_def replay_of_def)
  have "covered resets g c' k" if cov: "covered resets g c k" for k
    using cov
  proof (rule coveredE)
    fix chunks outs payloads
    assume a: "view resets k (d_sent g @ outbox c @ planned c) = chunks @ outs" "list_all2 (chunk_of k) payloads chunks"
      "concat payloads @ unread k c = d_base g k" "replaying k c \<Longrightarrow> outs = []"
      "coalesced (d_since g k) (map output_of outs @ map retained_output (caught k c))"
    have v: "view resets k (d_sent g @ outbox c' @ planned c') = view_step resets k (chunks @ outs) ?f"
      using a(1) view_simps(3) [of resets k "d_sent g @ outbox c" ?f] planned by (simp add: out)
    show ?thesis
    proof (cases "k = rp_key r")
      case True
      then have "outs = []" using a(4) assms(2,4) by (simp add: replaying_def replay_of_def)
      moreover have "chunk_of k (take n (spool r)) ?f" using assms(8) True by (simp add: chunk_of_def)
      moreover have "take n (spool r) @ take (rp_remaining r - n) (drop n (spool r)) = unread k c"
        using assms(2,4,6) True by (simp add: unread_def replay_of_def flip: take_add)
      ultimately show ?thesis
        using a v True assms(9) unread same
        by (intro coveredI [of _ _ _ _ "chunks @ [?f]" "[]" "payloads @ [take n (spool r)]"])
          (auto simp: view_step_def bytes_of_def intro: list_all2_appendI)
    next
      case False
      then show ?thesis
        using a v assms(9) unread same
        by (intro coveredI [of _ _ _ _ chunks outs payloads]) (auto simp: view_step_def bytes_of_def)
    qed
  qed
  moreover have "rp_key r \<in> d_known g" using t assms(2,4) by (auto simp: known_ok_def)
  ultimately show ?thesis
    using assms out t planned encoded_length(2) [OF assms(8)]
    by (intro tracks_pumped [OF assms(1-3), of c' ?f "s\<lparr>pane_replay := Some (r\<lparr>spool := drop n (spool r), rp_remaining := rp_remaining r - n\<rparr>)\<rparr>"])
      (auto simp: on_replay_def frame_tagged_def bytes_of_def order_ok_def sorted_wrt_append stays_ahead_def)
qed

lemma tracks_caught_sent:
  assumes "tracks cap resets g c" "seed c = Some s" "\<not> baseline_queued s" "pane_replay s = None" "catch_up s = q # qs"
    "c' = on_seed (\<lambda>s. (pop_catch_up s)\<lparr>catch_up_bytes := catch_up_bytes s - frame_length (cf_bytes q)\<rparr>)
        (index_outbox_back (cf_replacement q) (pushed SeedCatchUp (output_pane (cf_delta q)) (cf_bytes q) c))"
    "books c'" "outbox_bytes c' \<le> max cap SEED_SEND_WINDOW"
  shows "tracks cap resets g c'"
proof -
  let ?f = "\<lparr>of_replacement = cf_replacement q, of_bytes = cf_bytes q, of_class = SeedCatchUp, of_pane = output_pane (cf_delta q)\<rparr>"
  let ?s = "(pop_catch_up s)\<lparr>catch_up_bytes := catch_up_bytes s - frame_length (cf_bytes q)\<rparr>"
  note t = assms(1) [unfolded tracks_def]
  have out: "outbox c' = outbox c @ [?f]" using t assms(6) by (simp add: outbox_indexed)
  have seed': "seed c' = Some ?s" using assms(2,6) by simp
  have none: "planned c = []" "planned c' = []" "unread k c = []" "unread k c' = []" "\<not> replaying k c" "\<not> replaying k c'" for k
    using assms(2,4) seed' by (simp_all add: planned_def unread_def replaying_def replay_of_def)
  have q: "sendable resets (cf_bytes q)" "key_tagged (cf_replacement q) (cf_delta q)"
    using t assms(2,5) by (auto simp: tags_ok_def catch_up_tagged_def key_tagged_def)
  then have plain: "resets (bytes_of ?f) = None" "frame_tagged resets ?f" using sendable_tagged [OF q, of SeedCatchUp] by (simp_all add: sendable_def bytes_of_def)
  have tracks: "seed_tracks s" "resync_pending c = {}" using t assms(2,3) by (auto simp: barrier_ok_def)
  have pane: "k \<in> d_known g \<and> \<not> owed c k" if "of_pane ?f = Some k" for k
    using that t assms(2,3,5) tracks by (auto simp: output_pane_eq known_ok_def owed_def seed_tracks_def)
  have caught: "caught k c = (if cf_delta q = PaneOutput k then [q] else []) @ caught k c'" for k
    using assms(2,5) seed' by (simp add: caught_def)
  have "covered resets g c' k" if cov: "covered resets g c k" for k
    using cov
  proof (rule coveredE)
    fix chunks outs payloads
    assume a: "view resets k (d_sent g @ outbox c @ planned c) = chunks @ outs" "list_all2 (chunk_of k) payloads chunks"
      "concat payloads @ unread k c = d_base g k" "replaying k c \<Longrightarrow> outs = []"
      "coalesced (d_since g k) (map output_of outs @ map retained_output (caught k c))"
    have v: "view resets k (d_sent g @ outbox c' @ planned c') = view_step resets k (chunks @ outs) ?f"
      using a(1) view_simps(3) [of resets k "d_sent g @ outbox c" ?f] none by (simp add: out)
    have "output_of ?f = retained_output q" by (simp add: output_of_def retained_output_def bytes_of_def)
    then show ?thesis
      using a v plain none caught
      by (intro coveredI [of _ _ _ _ chunks "outs @ (if cf_delta q = PaneOutput k then [?f] else [])" payloads])
        (auto simp: view_step_def output_pane_eq split: if_splits)
  qed
  moreover have "front_offset c' = front_offset c" "resync_pending c' = resync_pending c" "conn_attached c' = conn_attached c"
    "transport_closed c' = transport_closed c" "stream c' = stream c"
    by (simp_all add: assms(6))
  moreover have "sorted_wrt (stays_ahead resets) (sheddable_outbox c @ [?f])"
    using t none(1) plain(1) by (auto simp: order_ok_def sorted_wrt_append stays_ahead_def)
  moreover have "program_status_frame ?s = program_status_frame s" by (simp add: pop_catch_up_def split: list.split)
  ultimately show ?thesis
    using assms(4,5,7,8) out seed' plain(2) pane
    by (intro tracks_pumped [OF assms(1-3), of c' ?f ?s]) auto
qed


lemma tracks_finished:
  assumes "tracks cap resets g c" "seed c = Some s" "\<not> baseline_queued s" "pane_replay s = Some r" "reset_frame r = None" "rp_remaining r = 0"
  shows "tracks cap resets g (finish_pane_replay c)"
proof -
  let ?c = "finish_pane_replay c" and ?s = "s\<lparr>pane_replay := None, manifest := (manifest s)(rp_key r \<mapsto> CatchingUp)\<rparr>"
  note t = assms(1) [unfolded tracks_def]
  have fields: "seed ?c = Some ?s" "outbox ?c = outbox c" "front_offset ?c = front_offset c" "resync_pending ?c = resync_pending c"
    "outbox_bytes ?c = outbox_bytes c" "stream ?c = stream c" "transport_closed ?c = transport_closed c" "conn_attached ?c = conn_attached c"
    using assms(2,4) by (simp_all add: finish_pane_replay_def)
  have st: "seed_tracks s" using t assms(2) by (simp add: barrier_ok_def)
  then have ready: "manifest s (rp_key r) \<noteq> Some Pending" "rp_key r \<notin> set (pending_panes s)" using assms(3,4) by (auto simp: seed_tracks_def)
  have owed: "owed ?c k = owed c k" for k using ready assms(2) by (auto simp: owed_def fields)
  have none: "planned c = []" "planned ?c = []" "unread k c = []" "unread k ?c = []" "\<not> replaying k ?c" "caught k ?c = caught k c" for k
    using assms(2,4-6) by (simp_all add: planned_def unread_def replaying_def caught_def replay_of_def fields)
  have shed: "sheddable_outbox ?c = sheddable_outbox c" by (simp add: sheddable_outbox_def front_started_def fields)
  have "seed_tracks ?s" using st assms(3) ready by (auto simp: seed_tracks_def)
  then have "barrier_ok ?c" using t assms(2) by (simp add: barrier_ok_def fields)
  moreover have "books ?c"
    unfolding finish_pane_replay_def using t by (intro books_on_seed) (auto simp: catch_up_ok_def split: option.split)
  moreover have "tags_ok resets ?c" using t assms(2) by (auto simp: tags_ok_def fields)
  moreover have "known_ok g ?c" using t assms(2) by (auto simp: known_ok_def fields)
  moreover have "order_ok resets ?c" using t none by (simp add: order_ok_def shed owed)
  moreover have "on_wire g ?c" using t by (cases "outbox c") (simp_all add: on_wire_def fields)
  moreover have "covered resets g c k \<Longrightarrow> covered resets g ?c k" for k using none by (auto simp: covered_def fields)
  ultimately show ?thesis using t owed unfolding tracks_def by (auto simp: fields)
qed

text \<open>Exporting a pane: its outputs count from now on.\<close>

lemma tracks_launched:
  assumes "tracks cap resets g c" "env_ok cap resets (d_live g) env" "next_attach_seed_work c = BeginPane k"
    "g' = (case snapshot_of env k of
         None \<Rightarrow> g
       | Some snapshot \<Rightarrow> g\<lparr>d_since := (d_since g)(k := []), d_base := (d_base g)(k := take (sn_length snapshot) (sn_stored snapshot))\<rparr>)"
  shows "tracks cap resets g' (begin_pane_replay env k c)"
proof -
  let ?c = "begin_pane_replay env k c"
  note t = assms(1) [unfolded tracks_def]
  obtain s keys where s: "seed c = Some s" "\<not> baseline_queued s" "pane_replay s = None" "pending_panes s = k # keys"
    using assms(3) by (cases rule: next_work_cases [of c]) auto
  have st: "seed_tracks s" "resync_pending c = {}" "conn_attached c" using t s by (auto simp: barrier_ok_def)
  have pending: "owed c k" "k \<in> d_known g" "k \<notin> set keys" using st s t by (auto simp: owed_def seed_tracks_def known_ok_def)
  define replay where "replay = map_option (\<lambda>snapshot. \<lparr>rp_key = k, reset_frame = sn_reset snapshot, spool = sn_stored snapshot,
    rp_remaining = sn_length snapshot\<rparr>) (snapshot_of env k)"
  define s' where "s' = s\<lparr>pending_panes := keys, pane_replay := replay,
    manifest := (manifest s)(k \<mapsto> (if replay = None then CatchingUp else Replaying))\<rparr>"
  have fields: "seed ?c = Some s'" "outbox ?c = outbox c" "front_offset ?c = front_offset c" "resync_pending ?c = resync_pending c"
    "outbox_bytes ?c = outbox_bytes c" "stream ?c = stream c" "transport_closed ?c = transport_closed c" "conn_attached ?c = conn_attached c"
    using s by (cases "snapshot_of env k"; simp add: begin_pane_replay_def s'_def replay_def Let_def)+
  have g': "d_live g' = d_live g" "d_known g' = d_known g" "d_sent g' = d_sent g"
    "k' \<noteq> k \<Longrightarrow> d_since g' k' = d_since g k'" "k' \<noteq> k \<Longrightarrow> d_base g' k' = d_base g k'" for k'
    using assms(4) by (simp_all split: option.splits)
  have reset: "\<exists>frame. reset_frame r = Some frame \<and> rp_key r = k \<and> resets (frame_bytes frame) = Some k \<and> 0 < frame_length frame \<and> media frame = []"
    if "replay = Some r" for r
    using assms(2) that by (auto simp: env_ok_def replay_def)
  have "seed_tracks s'" using st s pending reset by (auto simp: seed_tracks_def s'_def split: if_splits)
  then have barrier: "barrier_ok ?c" using st s by (simp add: barrier_ok_def fields)
  have "begin_pane_replay env k c = on_seed (\<lambda>s. s') c" using s by (simp add: begin_pane_replay_def on_seed_def s'_def replay_def Let_def split: option.split)
  then have books: "books ?c" using t s by (auto simp: catch_up_ok_def s'_def intro!: books_on_seed)
  have tags: "tags_ok resets ?c" using t s reset by (fastforce simp: tags_ok_def fields s'_def)
  have known: "known_ok g' ?c" using t s pending reset by (auto simp: known_ok_def fields s'_def g')
  have owed: "owed ?c k' \<Longrightarrow> owed c k'" "k' \<noteq> k \<Longrightarrow> owed ?c k' = owed c k'" for k'
    using s by (auto simp: owed_def fields s'_def split: if_splits)
  have none: "planned c = []" "unread k' c = []" "\<not> replaying k' c" for k'
    using s by (simp_all add: planned_def unread_def replaying_def replay_of_def)
  have planned: "\<forall>f \<in> set (planned ?c). resets (bytes_of f) = Some k \<and> of_pane f = None \<and> of_replacement f = None"
    using reset by (auto simp: planned_def replay_of_def fields s'_def bytes_of_def split: option.splits)
  have caught: "caught k' ?c = caught k' c" "caught k c = []" for k'
    using s st pending by (auto simp: caught_def fields s'_def filter_empty_conv seed_tracks_def)
  have shed: "sheddable_outbox ?c = sheddable_outbox c" by (simp add: sheddable_outbox_def front_started_def fields)
  have "sorted_wrt (stays_ahead resets) (planned ?c)"
    using planned by (cases replay) (auto simp: planned_def replay_of_def fields s'_def split: option.split)
  moreover have "stays_ahead resets f h" if "f \<in> set (sheddable_outbox c)" "h \<in> set (planned ?c)" for f h
    using t that planned pending(1) by (fastforce simp: order_ok_def stays_ahead_def)
  ultimately have "order_ok resets ?c"
    using t owed(1) none by (auto simp: order_ok_def shed sorted_wrt_append)
  moreover have "on_wire g' ?c" using t by (cases "outbox c") (simp_all add: on_wire_def fields g')
  moreover have "owed ?c k' \<or> covered resets g' ?c k'" if k': "k' \<in> d_live g" for k'
  proof (cases "k' = k")
    case True
    then obtain snapshot where snap: "snapshot_of env k = Some snapshot" using assms(2) k' by (auto simp: env_ok_def)
    then have "replay = Some \<lparr>rp_key = k, reset_frame = sn_reset snapshot, spool = sn_stored snapshot, rp_remaining = sn_length snapshot\<rparr>"
      by (simp add: replay_def)
    from reset [OF this] obtain frame where "sn_reset snapshot = Some frame" "resets (frame_bytes frame) = Some k" by auto
    then have "planned ?c = [\<lparr>of_replacement = None, of_bytes = frame, of_class = SeedReplay, of_pane = None\<rparr>]"
      using snap by (simp add: planned_def replay_of_def fields s'_def replay_def)
    then have "view resets k (d_sent g' @ outbox ?c @ planned ?c) = []"
      using \<open>resets (frame_bytes frame) = Some k\<close> view_simps(3) [of resets k "d_sent g' @ outbox ?c"] by (simp add: view_step_def bytes_of_def)
    moreover have "d_since g' k = []" "d_base g' k = take (sn_length snapshot) (sn_stored snapshot)" using assms(4) snap by simp_all
    moreover have "unread k ?c = take (sn_length snapshot) (sn_stored snapshot)"
      using snap by (simp add: unread_def replay_of_def fields s'_def replay_def)
    ultimately have "covered resets g' ?c k"
      using caught by (intro coveredI [of _ _ _ _ "[]" "[]" "[]"]) (auto intro: coalesced.nothing)
    then show ?thesis using True by simp
  next
    case False
    have "view resets k' (d_sent g @ outbox c @ planned ?c) = view resets k' (d_sent g @ outbox c)"
      using planned False foldl_view_plain [of "planned ?c" resets k'] view_simps(2) [of resets k' "d_sent g @ outbox c" "planned ?c"]
      by (auto simp: filter_empty_conv)
    moreover have "unread k' ?c = []" "\<not> replaying k' ?c"
      using False reset by (auto simp: unread_def replaying_def replay_of_def fields s'_def split: option.split)
    ultimately have "covered resets g' ?c k' = covered resets g c k'"
      using False none caught g' by (simp add: covered_def fields)
    then show ?thesis using t st(3) k' owed(2) [OF False] by simp
  qed
  ultimately show ?thesis using t books tags barrier known unfolding tracks_def by (simp add: fields g')
qed

lemma tracks_work:
  assumes "tracks cap resets g c" "env_ok cap resets live env" "\<forall>k. next_attach_seed_work c \<noteq> BeginPane k"
    "pump_attach_seed_work env (next_attach_seed_work c) remaining ex c = (p, remaining', ex', Some c')"
  shows "tracks cap resets g c'"
proof -
  note t = assms(1) [unfolded tracks_def] and work = assms(4)
  have ready: "sendable resets frame \<and> media frame = []"
    if "(\<exists>s. seed c = Some s \<and> program_status_frame s = Some frame) \<or> status_of env key = Some frame" for key frame
    using that t assms(2) by (auto simp: tags_ok_def env_ok_def)
  have "positive_frames env c"
    using t ready by (fastforce simp: positive_frames_def tags_ok_def sendable_def)
  then have books: "books c'" "outbox_bytes c' \<le> max cap SEED_SEND_WINDOW"
    using pump_work_books [OF work] t by (auto intro: order.trans)
  show ?thesis
  proof (cases rule: next_work_cases [of c])
    case idle
    then show ?thesis using assms(1,4) by (auto simp: pump_attach_seed_work_def)
  next
    case (status s key keys)
    have *: "pump_program_status_baseline env key remaining c = (p, remaining', Some c') \<or> c' = c"
      using work status(4) by (auto simp: pump_attach_seed_work_def split: if_splits prod.splits)
    then show ?thesis
    proof
      assume w: "pump_program_status_baseline env key remaining c = (p, remaining', Some c')"
      have step: "tracks cap resets g1 (on_seed h c1)" if "tracks cap resets g1 c1"
        "\<And>s. h s = s\<lparr>program_status_frame := program_status_frame (h s), pending_program_status := pending_program_status (h s)\<rparr>"
        "\<And>s frame. program_status_frame (h s) = Some frame \<Longrightarrow> sendable resets frame \<and> media frame = []" for g1 h c1
      proof -
        have h: "catch_up_ok (h s) = catch_up_ok s" "catch_up_bytes (h s) = catch_up_bytes s" "baseline_queued (h s) = baseline_queued s"
          "manifest (h s) = manifest s" "pending_panes (h s) = pending_panes s" "outdated (h s) = outdated s" "pane_replay (h s) = pane_replay s"
          "catch_up (h s) = catch_up s" for s
          by (subst that(2), simp add: catch_up_ok_def)+
        have "books (on_seed h c1)" using that(1) h by (auto simp: tracks_def intro!: books_on_seed)
        then show ?thesis using that(1,3) h by (intro tracks_on_seed) auto
      qed
      from w status(1) show ?thesis
      proof (cases rule: status_cases)
        case (blocked frame)
        have "sendable resets frame \<and> media frame = []" using ready blocked(4) status(1) by blast
        then show ?thesis unfolding blocked(3) by (intro step [OF assms(1)]) auto
      next
        case gone
        show ?thesis unfolding gone(3) finish_program_status_baseline_def by (intro step [OF assms(1)]) auto
      next
        case (sent frame)
        have frame: "sendable resets frame \<and> media frame = []" using ready sent(5) status(1) by blast
        then have "0 < frame_length frame" by (simp add: sendable_def)
        then have fits: "outbox_bytes c + frame_length frame \<le> max cap SEED_SEND_WINDOW" using sent(2) by linarith
        have "tracks cap resets g (on_seed (\<lambda>s. s\<lparr>program_status_frame := Some frame\<rparr>) c)" using frame by (intro step [OF assms(1)]) auto
        then have "tracks cap resets g (pushed SeedReplay None frame (on_seed (\<lambda>s. s\<lparr>program_status_frame := Some frame\<rparr>) c))"
          using frame fits status(1) by (intro tracks_append_plain) simp_all
        then show ?thesis unfolding sent(6) finish_program_status_baseline_def by (intro step) auto
      qed
    qed (use assms(1) in simp)
  next
    case (reset s r frame)
    then have w: "pump_replay_reset env remaining c = (p, remaining', Some c')"
      using work by (auto simp: pump_attach_seed_work_def split: prod.splits)
    show ?thesis by (rule reset_cases [OF w reset(1,4,5)]) (use assms(1) books reset in \<open>auto intro: tracks_reset_sent\<close>)
  next
    case (finish s r)
    then have "c' = finish_pane_replay c" using work by (simp add: pump_attach_seed_work_def)
    then show ?thesis using tracks_finished [OF assms(1) finish(1,2,4,5,6)] by simp
  next
    case (chunk s r)
    then have w: "pump_replay_chunk env remaining c = (p, remaining', Some c')"
      using work by (auto simp: pump_attach_seed_work_def split: prod.splits)
    show ?thesis
    proof (rule chunk_cases [OF w chunk(1,4,6)])
      fix n frame
      assume n: "n \<le> length (spool r)" "n \<le> rp_remaining r"
        "encode_pane_output (seed_pane_id (rp_key r)) (seed_generation (rp_key r)) False default_metadata (take n (spool r)) = Some frame"
        "c' = on_replay (\<lambda>r. r\<lparr>spool := drop n (spool r), rp_remaining := rp_remaining r - n\<rparr>) (pushed SeedReplay (Some (rp_key r)) frame c)"
      have "resets (frame_bytes frame) = None" using assms(2) n(3) unfolding env_ok_def by blast
      then show ?thesis using tracks_chunk_sent [OF assms(1) chunk(1,2,4,5) n(2,1,3) _ n(4) books] by simp
    qed (use assms(1) in simp)
  next
    case (follow s q qs)
    then have w: "pump_seed_catch_up env remaining c = (p, remaining', Some c')"
      using work by (auto simp: pump_attach_seed_work_def split: prod.splits)
    show ?thesis by (rule catch_up_cases [OF w follow(1,6)]) (use assms(1) books follow in \<open>auto intro: tracks_caught_sent\<close>)
  qed (use assms(3) in auto)
qed

end
