(* ===== verification/NoHoles.thy ===== *)
theory NoHoles
  imports TrackingPump
begin

text \<open>
  What a client sees, over every run of its connection: the invariant of \<open>Tracking\<close> holds throughout, so nothing that a live pane
  printed is missing from what was sent, queued or is still to be replayed.
\<close>

subsection \<open>Every run keeps the invariant\<close>

lemma tracks_spawned:
  assumes "tracks cap resets g c" "k \<notin> d_known g"
  shows "tracks cap resets (g\<lparr>d_live := insert k (d_live g), d_known := insert k (d_known g), d_since := (d_since g)(k := []), d_base := (d_base g)(k := [])\<rparr>) c"
proof -
  let ?g = "g\<lparr>d_live := insert k (d_live g), d_known := insert k (d_known g), d_since := (d_since g)(k := []), d_base := (d_base g)(k := [])\<rparr>"
  note t = assms(1) [unfolded tracks_def]
  have "known_ok g c" using t by simp
  then have "known_ok ?g c" unfolding known_ok_def by (auto; blast)
  moreover have "on_wire ?g c" using t by (cases "outbox c") (simp_all add: on_wire_def)
  moreover have "owed c k' \<or> covered resets ?g c k'" if k': "conn_attached c" "k' \<in> insert k (d_live g)" for k'
  proof (cases "k' = k")
    case True
    have "\<forall>f \<in> set (planned c). of_pane f = None" by (auto simp: planned_def split: option.splits)
    then have "view resets k (d_sent g @ outbox c @ planned c) = []"
      using t assms(2) by (intro view_untagged) (auto simp: known_ok_def)
    moreover have "unread k c = []" "\<not> replaying k c" "caught k c = []"
      using \<open>known_ok g c\<close> assms(2)
      by (auto simp: unread_def replaying_def caught_def replay_of_def known_ok_def filter_empty_conv split: option.split)
    ultimately have "covered resets ?g c k" by (intro coveredI [of _ _ _ _ "[]" "[]" "[]"]) (auto intro: coalesced.nothing)
    then show ?thesis using True by simp
  next
    case False
    then show ?thesis using t k' by (auto simp: covered_def)
  qed
  ultimately show ?thesis using t unfolding tracks_def by simp
qed

lemma tracks_new:
  assumes "L \<subseteq> K"
  shows "tracks cap resets \<lparr>d_live = L, d_known = K, d_since = (\<lambda>_. []), d_base = (\<lambda>_. []), d_sent = []\<rparr> new_client_output"
proof -
  have "sheddable_outbox new_client_output = []" "planned new_client_output = []"
    by (simp_all add: sheddable_outbox_def planned_def replay_of_def new_client_output_def)
  then show ?thesis using assms new_books
    by (simp add: tracks_def tags_ok_def barrier_ok_def known_ok_def order_ok_def on_wire_def new_client_output_def)
qed

lemma tracks_exited: "tracks cap resets g c \<Longrightarrow> tracks cap resets (g\<lparr>d_live := d_live g - {k}\<rparr>) c"
  by (cases "outbox c") (auto simp: tracks_def known_ok_def on_wire_def covered_def)

lemma key_of_output:
  "key_tagged (replacement_key_of metadata (seed_pane_id k) False (seed_generation k)) (PaneOutput k)"
  by (auto simp: key_tagged_def replacement_key_of_def key_delta_def split: output_class.split)

lemma delivery_tracks:
  assumes "delivery cap resets g c" "max cap SEED_SEND_WINDOW < 2 ^ 64"
  shows "tracks cap resets g c"
  using assms(1)
proof (induction rule: delivery.induct)
  case (connect L K)
  then show ?case by (rule tracks_new)
next
  case (spawn g c k)
  show ?case using spawn.IH spawn.hyps(2) by (rule tracks_spawned)
next
  case (exits g c k)
  show ?case using exits.IH by (rule tracks_exited)
next
  case (message g c frame key result c')
  have "key_tagged key Control" using message.hyps(3) by (auto simp: key_tagged_def key_delta_def)
  then show ?case using tracks_push_delta [OF message.hyps(4,5) message.IH assms(2) message.hyps(2)] by (simp add: produced_def)
next
  case (resize g c frame k result c')
  have "key_tagged None (PaneResize k)" by (simp add: key_tagged_def)
  then show ?case using tracks_push_delta [OF resize.hyps(3,4) resize.IH assms(2) resize.hyps(2)] by (simp add: produced_def)
next
  case (outputs g c k frame key metadata result c')
  have "k \<in> d_known g" using outputs.IH outputs.hyps(3) by (auto simp: tracks_def known_ok_def)
  then show ?case
    using tracks_push_delta [OF outputs.hyps(6,7) outputs.IH assms(2) outputs.hyps(4)] key_of_output outputs.hyps(2,5) by (simp add: produced_def)
next
  case (attach g c panes statuses shares)
  show ?case by (rule tracks_attach [OF attach.IH attach.hyps(2-4)])
next
  case (ledger g c a)
  then show ?case by simp
next
  case (prepare g c r c' r')
  show ?case by (rule tracks_prepared [OF prepare.IH prepare.hyps(2,3)])
next
  case (written g c f fs n)
  show ?case by (rule tracks_wrote [OF written.IH written.hyps(2,4,5)])
next
  case (drained g c s c')
  show ?case by (rule tracks_drained [OF drained.IH drained.hyps(2)])
next
  case (resync g c live)
  show ?case by (rule tracks_resync [OF resync.IH resync.hyps(2)])
next
  case (launch g c env k)
  show ?case by (rule tracks_launched [OF launch.IH launch.hyps(2,3) refl])
next
  case (work g c env remaining ex p remaining' ex' c')
  show ?case by (rule tracks_work [OF work.IH work.hyps(2-4)])
next
  case (complete g c)
  show ?case by (rule tracks_complete [OF complete.IH complete.hyps(2)])
qed

subsection \<open>A turn of the pump is a run\<close>

lemma complete_now: "next_attach_seed_work c = Complete \<Longrightarrow> pump_client_attach_seed env remaining ex activity c = (True, remaining, ex, Some (complete_attach_baseline c))"
  by (simp add: pump_client_attach_seed.simps)


subsection \<open>What the client sees\<close>





subsection \<open>An example\<close>

text \<open>One pane, whose reset is the frame with the byte 7, and whose export is the byte 65.\<close>

definition sample_resets :: "byte list \<Rightarrow> pane_seed_key option" where
  "sample_resets bytes = (if bytes = [7] then Some sample_key else None)"

definition sample_env :: pump_env where
  "sample_env = (idle_env 100)\<lparr>snapshot_of := (\<lambda>k. if k = sample_key
     then Some \<lparr>sn_stored = [65], sn_length = 1, sn_reset = Some \<lparr>frame_bytes = [7], media = [], scope = None\<rparr>\<rparr> else None)\<rparr>"

definition sample_delivered :: "pane_seed_key set \<Rightarrow> delivered" where
  "sample_delivered live = \<lparr>d_live = live, d_known = live, d_since = (\<lambda>_. []), d_base = (\<lambda>_. []), d_sent = []\<rparr>"

definition sample_attached :: client_output where
  "sample_attached = enqueue_attach_seeds [sample_key] [] (new_client_output\<lparr>conn_attached := True, shares_filesystem := False\<rparr>)"

lemma sample_start: "delivery cap resets (sample_delivered live) new_client_output"
  unfolding sample_delivered_def by (rule delivery.connect) simp

lemma sample_attach: "delivery cap resets (sample_delivered {sample_key}) sample_attached"
  unfolding sample_attached_def
  by (rule delivery.attach [OF sample_start]) (simp_all add: sample_delivered_def new_client_output_def)

lemma sample_env_ok: "env_ok 100 sample_resets {sample_key} sample_env"
proof -
  have "sample_resets (frame_bytes frame) = None"
    if "encode_pane_output pane generation loc metadata bytes = Some frame" for pane generation loc metadata bytes frame
    using encoded_length(1) [OF that] by (auto simp: sample_resets_def frame_length_def PANE_OUTPUT_FRAME_OVERHEAD_def)
  then show ?thesis by (auto simp: env_ok_def sample_env_def idle_env_def sample_resets_def frame_length_def)
qed

lemma sample_small: "max 100 SEED_SEND_WINDOW < 2 ^ 64"
  by (simp add: SEED_SEND_WINDOW_def)

lemma sample_next: "next_attach_seed_work sample_attached = BeginPane sample_key"
  by (simp add: next_attach_seed_work_def sample_attached_def enqueue_attach_seeds_def new_seed_def)


definition sample_launched :: delivered where
  "sample_launched = (sample_delivered {sample_key})\<lparr>d_base := (\<lambda>_. [])(sample_key := [65])\<rparr>"

lemma sample_launch: "delivery 100 sample_resets sample_launched (begin_pane_replay sample_env sample_key sample_attached)"
  using delivery.launch [OF sample_attach [of 100 sample_resets] _ sample_next, of sample_env] sample_env_ok
  by (simp add: sample_delivered_def sample_launched_def sample_env_def fun_upd_def)


text \<open>A client that attached without panes, then a pane that prints one frame of two bytes.\<close>

definition sample_frame :: encoded_output where
  "sample_frame = \<lparr>frame_bytes = [1, 2], media = [], scope = None\<rparr>"

definition sample_idle :: client_output where
  "sample_idle = new_client_output\<lparr>conn_attached := True\<rparr>"

definition sample_printed :: delivered where
  "sample_printed = (sample_delivered {sample_key})\<lparr>d_since := (\<lambda>_. [])(sample_key := [(unstamped [1, 2], None)])\<rparr>"

definition sample_queued :: client_output where
  "sample_queued = sample_idle\<lparr>outbox := [\<lparr>of_replacement = None, of_bytes = sample_frame, of_class = Normal, of_pane = Some sample_key\<rparr>],
     outbox_bytes := 2\<rparr>"

lemma sample_spawned: "delivery 100 sample_resets (sample_delivered {sample_key}) sample_idle"
proof -
  let ?c = "enqueue_attach_seeds [] [] (new_client_output\<lparr>conn_attached := True, shares_filesystem := False\<rparr>)"
  have a: "delivery 100 sample_resets (sample_delivered {}) ?c"
    by (rule delivery.attach [OF sample_start]) (simp_all add: sample_delivered_def new_client_output_def)
  have b: "next_attach_seed_work ?c = Complete"
    by (simp add: next_attach_seed_work_def enqueue_attach_seeds_def new_seed_def)
  have "take_completed_seed (complete_attach_baseline ?c) = (seed (complete_attach_baseline ?c), sample_idle)"
    by (simp add: take_completed_seed_def complete_attach_baseline_def enqueue_attach_seeds_def new_seed_def new_client_output_def sample_idle_def)
  from delivery.drained [OF delivery.complete [OF a b] this]
  have "delivery 100 sample_resets (sample_delivered {}) sample_idle" .
  from delivery.spawn [OF this, of sample_key] show ?thesis by (simp add: sample_delivered_def fun_upd_def)
qed

lemma sample_output: "delivery 100 sample_resets sample_printed sample_queued"
proof -
  have "push_delta sample_frame (PaneOutput sample_key) 100
      (replacement_key_of default_metadata (seed_pane_id sample_key) False (seed_generation sample_key)) sample_idle = (Queued, sample_queued)"
    by (simp add: push_delta_def push_delta_inner_def push_live_def replace_outbox_def queue_index_def shed_until_fits.simps sample_idle_def
        new_client_output_def frame_length_def sample_frame_def replacement_key_of_def default_metadata_def try_push_class_def queue_class_def
        index_outbox_back_def sample_queued_def)
  from delivery.outputs [OF sample_spawned _ _ _ refl this] show ?thesis
    by (simp add: sample_idle_def sample_delivered_def sendable_def sample_frame_def frame_length_def sample_resets_def sample_printed_def
        replacement_key_of_def default_metadata_def fun_upd_def)
qed



end
