(* ===== verification/RowDiff.thy ===== *)
theory RowDiff
  imports Prelude
begin

text \<open>
  Rows of a recorded screen and the changes between them (\<^verbatim>\<open>src/recording/rows.rs\<close>, with the run
  types of \<^verbatim>\<open>src/control.rs\<close>).  A \<^verbatim>\<open>SpanRun\<close> is a record; the nine fields that say how its cells look
  are grouped in \<open>span_look\<close>, since every comparison and copy of a style in \<^verbatim>\<open>rows.rs\<close> takes all of
  them.  Texts are the bytes of the Rust strings, \<^verbatim>\<open>u16\<close> columns are naturals with the saturation and
  the truncations written out.  How a text splits into grapheme clusters and how wide one is drawn
  come from the crates \<^verbatim>\<open>unicode-segmentation\<close> and \<^verbatim>\<open>unicode-width\<close>: they are the two fields of the
  parameter \<open>unicode\<close>, and what the code relies on about them is \<open>unicode_ok\<close>.
\<close>

subsection \<open>Runs\<close>

datatype ansi_color_name = Black | Red | Green | Yellow | Blue | Magenta | Cyan | White
  | BrightBlack | BrightRed | BrightGreen | BrightYellow | BrightBlue | BrightMagenta | BrightCyan
  | BrightWhite

datatype span_color = Indexed nat | Named ansi_color_name | Rgb string

datatype span_underline = Single | Double | Curly | Dotted | Dashed

record span_look =
  look_fg :: "span_color option"
  look_bg :: "span_color option"
  look_underline_color :: "span_color option"
  look_bold :: bool
  look_dim :: bool
  look_italic :: bool
  look_underline :: "span_underline option"
  look_reverse :: bool
  look_strikethrough :: bool

record span_run =
  run_x :: nat
  run_width :: nat
  run_text :: string
  run_look :: span_look

record unicode =
  graphemes :: "string \<Rightarrow> string list"
  str_width :: "string \<Rightarrow> nat"

definition SPAN_GAP :: nat where "SPAN_GAP = 6"

definition DEFAULT_STYLE :: span_look where
  "DEFAULT_STYLE =
     \<lparr>look_fg = None, look_bg = None, look_underline_color = None, look_bold = False,
      look_dim = False, look_italic = False, look_underline = None, look_reverse = False,
      look_strikethrough = False\<rparr>"

definition same_style :: "span_look \<Rightarrow> span_look \<Rightarrow> bool" where
  "same_style a b \<longleftrightarrow>
     look_fg a = look_fg b \<and>
     look_bg a = look_bg b \<and>
     look_underline_color a = look_underline_color b \<and>
     look_bold a = look_bold b \<and>
     look_dim a = look_dim b \<and>
     look_italic a = look_italic b \<and>
     look_underline a = look_underline b \<and>
     look_reverse a = look_reverse b \<and>
     look_strikethrough a = look_strikethrough b"

lemma same_style_iff [simp]: "same_style a b \<longleftrightarrow> a = b"
  by (cases a; cases b) (simp add: same_style_def)

subsection \<open>Columns\<close>

record column =
  col_text :: string
  col_width :: nat
  col_look :: span_look

definition BLANK :: column where
  "BLANK = \<lparr>col_text = '' '', col_width = 1, col_look = DEFAULT_STYLE\<rparr>"

text \<open>\<^verbatim>\<open>iter_mut().take(j).skip(i)\<close>, every element set to \<open>v\<close>.\<close>

definition fill_range :: "nat \<Rightarrow> nat \<Rightarrow> 'a \<Rightarrow> 'a list \<Rightarrow> 'a list" where
  "fill_range i j v xs = map (\<lambda>k. if i \<le> k \<and> k < j then v else xs ! k) [0..<length xs]"

text \<open>The loop over a run's graphemes: the column it stopped at, and the columns it wrote.\<close>

fun lay_glyphs ::
  "unicode \<Rightarrow> span_look \<Rightarrow> nat \<Rightarrow> nat \<Rightarrow> string list \<Rightarrow> column list \<Rightarrow> nat \<times> column list" where
  "lay_glyphs u look stop x [] cols = (x, cols)"
| "lay_glyphs u look stop x (g # gs) cols =
     (if stop \<le> x then (x, cols)
      else let w = max (str_width u g) 1;
               cols = cols[x := \<lparr>col_text = g, col_width = w mod 2 ^ 16, col_look = look\<rparr>];
               cols = fill_range (x + 1) (min stop (x + w))
                        \<lparr>col_text = [], col_width = 0, col_look = look\<rparr> cols
           in lay_glyphs u look stop (x + w) gs cols)"

definition lay_run :: "unicode \<Rightarrow> span_run \<Rightarrow> column list \<Rightarrow> column list" where
  "lay_run u r cols =
     (let stop = min (min (run_x r + run_width r) (2 ^ 16 - 1)) (length cols);
          (x, cols) = lay_glyphs u (run_look r) stop (run_x r) (graphemes u (run_text r)) cols
      in fill_range x stop (BLANK\<lparr>col_look := run_look r\<rparr>) cols)"

definition lay :: "unicode \<Rightarrow> column list \<Rightarrow> span_run list \<Rightarrow> column list" where
  "lay u cols rs = fold (lay_run u) rs cols"

definition columns :: "unicode \<Rightarrow> span_run list \<Rightarrow> nat \<Rightarrow> column list" where
  "columns u rs width = lay u (replicate width BLANK) rs"

text \<open>One step of \<^verbatim>\<open>runs\<close>: the column extends the last run, or starts another.\<close>

fun push_column :: "nat \<times> column \<Rightarrow> span_run list \<Rightarrow> span_run list" where
  "push_column (x, c) out =
     (if out \<noteq> [] \<and> same_style (run_look (last out)) (col_look c)
      then butlast out @ [(last out)\<lparr>run_text := run_text (last out) @ col_text c,
                                     run_width := run_width (last out) + 1\<rparr>]
      else out @ [\<lparr>run_x = x, run_width = 1, run_text = col_text c, run_look = col_look c\<rparr>])"

definition runs :: "column list \<Rightarrow> nat \<Rightarrow> nat \<Rightarrow> span_run list" where
  "runs cols start stop = fold push_column (drop start (take stop (enumerate 0 cols))) []"

text \<open>\<^verbatim>\<open>trim_end_matches(' ')\<close>.\<close>

definition trim_end :: "string \<Rightarrow> string" where
  "trim_end s = rev (dropWhile (\<lambda>c. c = CHR '' '') (rev s))"

definition canonical :: "column list \<Rightarrow> span_run list" where
  "canonical cols =
     (let row = runs cols 0 (length cols)
      in if row \<noteq> [] \<and> same_style (run_look (last row)) DEFAULT_STYLE
         then let kept = length (trim_end (run_text (last row)));
                  trimmed = (length (run_text (last row)) - kept) mod 2 ^ 16;
                  width = run_width (last row) - trimmed
              in if width = 0 then butlast row
                 else butlast row @ [(last row)\<lparr>run_text := take kept (run_text (last row)),
                                                run_width := width\<rparr>]
         else row)"

subsection \<open>Changes\<close>

record row_change =
  change_y :: nat
  change_runs :: "span_run list"
  change_partial :: bool

definition apply_change ::
  "unicode \<Rightarrow> span_run list \<Rightarrow> row_change \<Rightarrow> nat \<Rightarrow> span_run list" where
  "apply_change u row change width =
     (if \<not> change_partial change then change_runs change
      else canonical (lay u (columns u row width) (change_runs change)))"

text \<open>The spans of changed columns: a column within \<open>SPAN_GAP\<close> of the last span extends it.\<close>

fun push_span :: "nat \<Rightarrow> (nat \<times> nat) list \<Rightarrow> (nat \<times> nat) list" where
  "push_span x spans =
     (if spans \<noteq> [] \<and> x \<le> snd (last spans) + SPAN_GAP
      then butlast spans @ [(fst (last spans), x + 1)]
      else spans @ [(x, x + 1)])"

definition changed_columns :: "column list \<Rightarrow> column list \<Rightarrow> nat list" where
  "changed_columns before after = filter (\<lambda>x. before ! x \<noteq> after ! x) [0..<length after]"

text \<open>Never start on, or stop inside, a wide glyph.\<close>

fun glyph_start :: "column list \<Rightarrow> nat \<Rightarrow> nat" where
  "glyph_start after 0 = 0"
| "glyph_start after (Suc s) =
     (if col_width (after ! Suc s) = 0 then glyph_start after s else Suc s)"

function glyph_stop :: "column list \<Rightarrow> nat \<Rightarrow> nat" where
  "glyph_stop after e =
     (if e < length after \<and> col_width (after ! e) = 0 then glyph_stop after (e + 1) else e)"
  by pat_completeness auto
termination by (relation "measure (\<lambda>(after, e). length after - e)") auto

declare glyph_stop.simps [simp del]

definition span_change :: "nat \<Rightarrow> column list \<Rightarrow> nat \<times> nat \<Rightarrow> row_change" where
  "span_change y after = (\<lambda>(s, e).
     \<lparr>change_y = y, change_runs = runs after (glyph_start after s) (glyph_stop after e),
      change_partial = True\<rparr>)"

text \<open>
  \<^verbatim>\<open>f64::from(changed) > f64::from(width) * WHOLE_ROW_SHARE\<close> with the share 0.6 compares a whole
  number with \<open>3 * width / 5\<close>; the rounding of the product is less than the distance to the next
  fifth, and a product that is a whole number is exact.
\<close>

definition mostly_changed :: "nat \<Rightarrow> nat \<Rightarrow> bool" where
  "mostly_changed changed width \<longleftrightarrow> 5 * changed > 3 * width"

definition row_diff ::
  "unicode \<Rightarrow> nat \<Rightarrow> span_run list \<Rightarrow> span_run list \<Rightarrow> nat \<Rightarrow> row_change list" where
  "row_diff u y old new width =
     (let whole = [\<lparr>change_y = y, change_runs = new, change_partial = False\<rparr>];
          before = columns u old width;
          after = columns u new width;
          changed = changed_columns before after;
          spans = fold push_span changed []
      in if spans = [] then []
         else if mostly_changed (length changed) width then whole
         else let changes = map (span_change y after) spans;
                  laid = fold (\<lambda>change laid. lay u laid (change_runs change)) changes before
              in if canonical laid \<noteq> new then whole else changes)"

subsection \<open>What the code relies on about text\<close>

definition glyph_width :: "unicode \<Rightarrow> string \<Rightarrow> nat" where
  "glyph_width u g = max (str_width u g) 1"

text \<open>Two clusters that stay apart when one is written right after the other.\<close>

definition apart :: "unicode \<Rightarrow> string \<Rightarrow> string \<Rightarrow> bool" where
  "apart u g h \<longleftrightarrow> graphemes u (g @ h) = [g, h]"

text \<open>
  The rules of Unicode Annex 29 decide a boundary from the cluster before it and the one character
  after it: the clusters of a text join to the text, each of them is a cluster on its own, two
  neighbours segment alone as they do inside the text, and a cluster that stays apart from the first
  cluster of a text stays apart from the text.  A space is a cluster, one column wide.
\<close>

definition unicode_ok :: "unicode \<Rightarrow> bool" where
  "unicode_ok u \<longleftrightarrow>
     (\<forall>s. concat (graphemes u s) = s) \<and>
     (\<forall>s. \<forall>g \<in> set (graphemes u s). graphemes u g = [g]) \<and>
     (\<forall>s as g h bs. graphemes u s = as @ g # h # bs \<longrightarrow> apart u g h) \<and>
     (\<forall>g s h hs. graphemes u g = [g] \<longrightarrow> graphemes u s = h # hs \<longrightarrow> apart u g h
        \<longrightarrow> graphemes u (g @ s) = g # graphemes u s) \<and>
     graphemes u '' '' = ['' ''] \<and> apart u '' '' '' '' \<and> str_width u '' '' = 1"

subsection \<open>Filling and laying\<close>

lemma length_fill_range [simp]: "length (fill_range i j v xs) = length xs"
  by (simp add: fill_range_def)

lemma fill_range_empty: "j \<le> i \<Longrightarrow> fill_range i j v xs = xs"
  unfolding fill_range_def by (rule nth_equalityI) auto

lemma fill_range_append:
  assumes "length pre = i" "j = i + length mid"
  shows "fill_range i j v (pre @ mid @ post) = pre @ replicate (length mid) v @ post"
  unfolding fill_range_def using assms
  by (intro nth_equalityI) (auto simp: nth_append)

lemma length_lay_glyphs [simp]: "length (snd (lay_glyphs u k stop x gs cols)) = length cols"
  by (induction u k stop x gs cols rule: lay_glyphs.induct) (auto simp: Let_def)

lemma length_lay_run [simp]: "length (lay_run u r cols) = length cols"
  by (simp add: lay_run_def Let_def split_beta)

lemma lay_Nil [simp]: "lay u cols [] = cols"
  by (simp add: lay_def)

lemma lay_Cons [simp]: "lay u cols (r # rs) = lay u (lay_run u r cols) rs"
  by (simp add: lay_def)

lemma length_lay [simp]: "length (lay u cols rs) = length cols"
  by (induction rs arbitrary: cols) auto

lemma length_columns [simp]: "length (columns u rs w) = w"
  by (simp add: columns_def)

end
