(* ===== verification/RowCells.thy ===== *)
theory RowCells
  imports RowDiff
begin

text \<open>
  What \<open>lay\<close>, \<open>runs\<close> and \<open>canonical\<close> do to rows made of whole glyphs: columns are read as a list of
  styled clusters, laying a tiled row writes exactly its clusters, and the runs of a clean list of
  columns lay back to it.
\<close>

subsection \<open>Glyphs and the columns they take\<close>

type_synonym glyph = "string \<times> span_look"

definition glyph_cells :: "unicode \<Rightarrow> glyph \<Rightarrow> column list" where
  "glyph_cells u = (\<lambda>(t, k).
     \<lparr>col_text = t, col_width = glyph_width u t, col_look = k\<rparr>
       # replicate (glyph_width u t - 1) \<lparr>col_text = [], col_width = 0, col_look = k\<rparr>)"

definition cells :: "unicode \<Rightarrow> glyph list \<Rightarrow> column list" where
  "cells u gl = concat (map (glyph_cells u) gl)"

definition text_width :: "unicode \<Rightarrow> string list \<Rightarrow> nat" where
  "text_width u gs = sum_list (map (glyph_width u) gs)"

definition styled :: "span_look \<Rightarrow> string list \<Rightarrow> glyph list" where
  "styled k gs = map (\<lambda>g. (g, k)) gs"

definition run_glyphs :: "unicode \<Rightarrow> span_run \<Rightarrow> glyph list" where
  "run_glyphs u r = styled (run_look r) (graphemes u (run_text r))"

definition row_glyphs :: "unicode \<Rightarrow> span_run list \<Rightarrow> glyph list" where
  "row_glyphs u row = concat (map (run_glyphs u) row)"

definition row_width :: "span_run list \<Rightarrow> nat" where
  "row_width row = sum_list (map run_width row)"

lemma cells_simps [simp]:
  "cells u [] = []"
  "cells u (g # gl) = glyph_cells u g @ cells u gl"
  "cells u (gl @ gl') = cells u gl @ cells u gl'"
  by (simp_all add: cells_def)

lemma styled_simps [simp]:
  "styled k [] = []"
  "styled k (g # gs) = (g, k) # styled k gs"
  "styled k (gs @ hs) = styled k gs @ styled k hs"
  "styled k gs = [] \<longleftrightarrow> gs = []"
  by (simp_all add: styled_def)

lemma row_glyphs_simps [simp]:
  "row_glyphs u [] = []"
  "row_glyphs u (r # rs) = run_glyphs u r @ row_glyphs u rs"
  "row_glyphs u (rs @ rs') = row_glyphs u rs @ row_glyphs u rs'"
  by (simp_all add: row_glyphs_def)

lemma row_width_simps [simp]:
  "row_width [] = 0"
  "row_width (r # rs) = run_width r + row_width rs"
  "row_width (rs @ rs') = row_width rs + row_width rs'"
  by (simp_all add: row_width_def)

lemma text_width_simps [simp]:
  "text_width u [] = 0"
  "text_width u (g # gs) = glyph_width u g + text_width u gs"
  by (simp_all add: text_width_def)

lemma glyph_width_pos [simp]: "0 < glyph_width u g" "glyph_width u g \<noteq> 0"
  by (simp_all add: glyph_width_def)

lemma length_glyph_cells [simp]: "length (glyph_cells u (t, k)) = glyph_width u t"
  by (simp add: glyph_cells_def Suc_leI)

lemma length_cells_styled [simp]: "length (cells u (styled k gs)) = text_width u gs"
  by (induction gs) auto

subsection \<open>Laying a tiled row\<close>

definition narrow :: "unicode \<Rightarrow> glyph list \<Rightarrow> bool" where
  "narrow u gl \<longleftrightarrow> (\<forall>(t, k) \<in> set gl. glyph_width u t \<le> 2)"

lemma narrow_simps [simp]:
  "narrow u []"
  "narrow u ((t, k) # gl) \<longleftrightarrow> glyph_width u t \<le> 2 \<and> narrow u gl"
  "narrow u (gl @ gl') \<longleftrightarrow> narrow u gl \<and> narrow u gl'"
  by (auto simp: narrow_def)

fun tiled :: "unicode \<Rightarrow> nat \<Rightarrow> span_run list \<Rightarrow> bool" where
  "tiled u x [] = True"
| "tiled u x (r # rs) =
     (run_x r = x \<and> graphemes u (run_text r) \<noteq> [] \<and>
      run_width r = text_width u (graphemes u (run_text r)) \<and>
      (rs \<noteq> [] \<longrightarrow> run_look (hd rs) \<noteq> run_look r) \<and>
      tiled u (x + run_width r) rs)"

lemma split_length_Suc:
  assumes "length mid = Suc n + m"
  obtains a mid1 mid2 where "mid = a # mid1 @ mid2" "length mid1 = n" "length mid2 = m"
proof -
  obtain a ms where ms: "mid = a # ms" "length ms = n + m"
    using assms by (cases mid) auto
  show thesis
    by (rule that [of a "take n ms" "drop n ms"]) (use ms in auto)
qed

lemma lay_glyphs_cells:
  assumes "length pre = x" "length mid = text_width u gs" "stop = x + length mid"
    and "narrow u (styled k gs)"
  shows "lay_glyphs u k stop x gs (pre @ mid @ post) = (stop, pre @ cells u (styled k gs) @ post)"
  using assms
proof (induction gs arbitrary: pre mid x)
  case Nil
  then show ?case by simp
next
  case (Cons g gs)
  define w where "w = glyph_width u g"
  have w: "max (str_width u g) 1 = w" "0 < w" "w \<le> 2"
    using Cons.prems by (simp_all add: w_def glyph_width_def)
  have len: "length mid = Suc (w - 1) + text_width u gs"
    using Cons.prems w by (simp add: w_def)
  obtain a m1 m2 where mid: "mid = a # m1 @ m2" and m1: "length m1 = w - 1"
    and m2: "length m2 = text_width u gs"
    by (rule split_length_Suc [OF len])
  define c where "c = \<lparr>col_text = g, col_width = w, col_look = k\<rparr>"
  define d where "d = \<lparr>col_text = [], col_width = 0, col_look = k\<rparr>"
  have bound: "min stop (x + w) = Suc x + length m1" and open_x: "\<not> stop \<le> x"
    using Cons.prems(2,3) w m1 m2 mid by auto
  have set_head: "(pre @ mid @ post)[x := c] = (pre @ [c]) @ m1 @ (m2 @ post)"
    using Cons.prems(1) mid by (simp add: list_update_append)
  have fill: "fill_range (Suc x) (Suc x + length m1) d ((pre @ [c]) @ m1 @ (m2 @ post))
      = (pre @ [c]) @ replicate (length m1) d @ (m2 @ post)"
    by (rule fill_range_append) (use Cons.prems(1) in auto)
  have wmod: "w mod 2 ^ 16 = w"
    using w by simp
  have step: "lay_glyphs u k stop x (g # gs) (pre @ mid @ post)
      = lay_glyphs u k stop (x + w) gs ((pre @ glyph_cells u (g, k)) @ m2 @ post)"
    using open_x fill set_head
    unfolding lay_glyphs.simps Let_def w(1) wmod c_def [symmetric] d_def [symmetric] bound
    by (simp add: glyph_cells_def w_def [symmetric] m1 c_def [symmetric] d_def [symmetric] bound)
  have len': "length (pre @ glyph_cells u (g, k)) = x + w" "stop = x + w + length m2"
    using Cons.prems mid m1 w by (simp_all add: w_def)
  have rest: "lay_glyphs u k stop (x + w) gs ((pre @ glyph_cells u (g, k)) @ m2 @ post)
      = (stop, (pre @ glyph_cells u (g, k)) @ cells u (styled k gs) @ post)"
    by (rule Cons.IH [OF len'(1) m2 len'(2)]) (use Cons.prems(4) in simp)
  show ?case
    unfolding step rest by simp
qed

lemma lay_run_cells:
  assumes "length pre = run_x r" "length mid = run_width r"
    and "run_width r = text_width u (graphemes u (run_text r))"
    and "narrow u (run_glyphs u r)" "length (pre @ mid @ post) < 2 ^ 16"
  shows "lay_run u r (pre @ mid @ post) = pre @ cells u (run_glyphs u r) @ post"
proof -
  have stop: "min (min (run_x r + run_width r) (2 ^ 16 - 1)) (length (pre @ mid @ post))
      = run_x r + length mid"
    using assms(1,2,5) by simp
  have "lay_glyphs u (run_look r) (run_x r + length mid) (run_x r)
      (graphemes u (run_text r)) (pre @ mid @ post)
      = (run_x r + length mid, pre @ cells u (run_glyphs u r) @ post)"
    unfolding run_glyphs_def
    by (rule lay_glyphs_cells) (use assms in \<open>simp_all add: run_glyphs_def\<close>)
  then show ?thesis
    unfolding lay_run_def stop by (simp add: fill_range_empty)
qed

lemma lay_tiled:
  assumes "tiled u x row" "length pre = x" "length mid = row_width row"
    and "narrow u (row_glyphs u row)" "length (pre @ mid @ post) < 2 ^ 16"
  shows "lay u (pre @ mid @ post) row = pre @ cells u (row_glyphs u row) @ post"
  using assms
proof (induction row arbitrary: pre mid x)
  case Nil
  then show ?case by simp
next
  case (Cons r row)
  define m1 where "m1 = take (run_width r) mid"
  define m2 where "m2 = drop (run_width r) mid"
  have mid: "mid = m1 @ m2" "length m1 = run_width r" "length m2 = row_width row"
    using Cons.prems(3) by (simp_all add: m1_def m2_def)
  have len_r: "length (cells u (run_glyphs u r)) = run_width r"
    using Cons.prems(1) by (simp add: run_glyphs_def)
  have first: "lay_run u r (pre @ m1 @ m2 @ post) = pre @ cells u (run_glyphs u r) @ m2 @ post"
    by (rule lay_run_cells) (use Cons.prems mid in auto)
  have "lay u ((pre @ cells u (run_glyphs u r)) @ m2 @ post) row
      = (pre @ cells u (run_glyphs u r)) @ cells u (row_glyphs u row) @ post"
    by (rule Cons.IH [where x = "x + run_width r"]) (use Cons.prems mid len_r in auto)
  then show ?case
    using mid first by simp
qed

lemma length_row_cells: "tiled u x row \<Longrightarrow> length (cells u (row_glyphs u row)) = row_width row"
  by (induction row arbitrary: x) (auto simp: run_glyphs_def)

lemma columns_tiled:
  assumes "tiled u 0 row" "narrow u (row_glyphs u row)" "row_width row + n < 2 ^ 16"
  shows "columns u row (row_width row + n) = cells u (row_glyphs u row) @ replicate n BLANK"
  using lay_tiled [OF assms(1), of "[]" "replicate (row_width row) BLANK" "replicate n BLANK"] assms
  by (simp add: columns_def replicate_add)

subsection \<open>The runs of a list of glyphs\<close>

lemma push_rest:
  assumes "out \<noteq> []" "run_look (last out) = k"
  shows "fold push_column (enumerate x (replicate n \<lparr>col_text = [], col_width = 0, col_look = k\<rparr>)) out
    = butlast out @ [(last out)\<lparr>run_width := run_width (last out) + n\<rparr>]"
  using assms
proof (induction n arbitrary: x out)
  case 0
  then show ?case by simp
next
  case (Suc n)
  show ?case
    using Suc.prems
    by (simp add: Suc.IH)
qed

lemma push_glyph:
  assumes "out \<noteq> []" "run_look (last out) = k"
  shows "fold push_column (enumerate x (glyph_cells u (t, k))) out
    = butlast out @ [(last out)\<lparr>run_text := run_text (last out) @ t,
                                run_width := run_width (last out) + glyph_width u t\<rparr>]"
  using assms by (simp add: glyph_cells_def push_rest)

lemma push_new_glyph:
  assumes "out = [] \<or> run_look (last out) \<noteq> k"
  shows "fold push_column (enumerate x (glyph_cells u (t, k))) out
    = out @ [\<lparr>run_x = x, run_width = glyph_width u t, run_text = t, run_look = k\<rparr>]"
  using assms by (auto simp: glyph_cells_def push_rest Suc_leI)

lemma push_styled:
  assumes "out \<noteq> []" "run_look (last out) = k"
  shows "fold push_column (enumerate x (cells u (styled k gs))) out
    = butlast out @ [(last out)\<lparr>run_text := run_text (last out) @ concat gs,
                                run_width := run_width (last out) + text_width u gs\<rparr>]"
  using assms
proof (induction gs arbitrary: x out)
  case Nil
  then show ?case by simp
next
  case (Cons g gs)
  then show ?case
    by (simp add: enumerate_append_eq push_glyph Cons.IH add.assoc)
qed

lemma push_new_styled:
  assumes "out = [] \<or> run_look (last out) \<noteq> k" "gs \<noteq> []"
  shows "fold push_column (enumerate x (cells u (styled k gs))) out
    = out @ [\<lparr>run_x = x, run_width = text_width u gs, run_text = concat gs, run_look = k\<rparr>]"
  using assms
  by (cases gs) (simp_all add: enumerate_append_eq push_new_glyph push_styled)

end
