(* ===== verification/RowReplay.thy ===== *)
theory RowReplay
  imports RowCells
begin

text \<open>
  Recorded rows come back: the columns of a tiled row give the row again, the runs of clean columns
  lay back to them, and applying the changes of \<^verbatim>\<open>rows::diff\<close> one after the other, each to the row the
  last one left, gives the row they were taken against.
\<close>

subsection \<open>Rows from their columns\<close>

lemma unicode_ok_concat: "unicode_ok u \<Longrightarrow> concat (graphemes u s) = s"
  by (simp add: unicode_ok_def)

lemma unicode_ok_alone: "unicode_ok u \<Longrightarrow> g \<in> set (graphemes u s) \<Longrightarrow> graphemes u g = [g]"
  by (auto simp: unicode_ok_def)

lemma unicode_ok_pair:
  "unicode_ok u \<Longrightarrow> graphemes u s = as @ g # h # bs \<Longrightarrow> apart u g h"
  unfolding unicode_ok_def by blast

lemma unicode_ok_prefix:
  "unicode_ok u \<Longrightarrow> graphemes u g = [g] \<Longrightarrow> graphemes u s = h # hs \<Longrightarrow> apart u g h
   \<Longrightarrow> graphemes u (g @ s) = g # graphemes u s"
  unfolding unicode_ok_def by blast

lemma unicode_ok_space:
  "unicode_ok u \<Longrightarrow> graphemes u '' '' = ['' '']" "unicode_ok u \<Longrightarrow> glyph_width u '' '' = 1"
  by (simp_all add: unicode_ok_def glyph_width_def)

lemma push_row:
  assumes "unicode_ok u" "tiled u x row" "out = [] \<or> row = [] \<or> run_look (last out) \<noteq> run_look (hd row)"
  shows "fold push_column (enumerate x (cells u (row_glyphs u row))) out = out @ row"
  using assms(2,3)
proof (induction row arbitrary: x out)
  case Nil
  then show ?case by simp
next
  case (Cons r row)
  have new: "fold push_column (enumerate x (cells u (run_glyphs u r))) out = out @ [r]"
    using Cons.prems unicode_ok_concat [OF assms(1)]
    by (simp add: run_glyphs_def push_new_styled)
  have "fold push_column (enumerate (x + run_width r) (cells u (row_glyphs u row))) (out @ [r])
      = (out @ [r]) @ row"
    by (rule Cons.IH) (use Cons.prems in auto)
  then show ?case
    using Cons.prems(1) new by (simp add: enumerate_append_eq run_glyphs_def)
qed

lemma dropWhile_replicate_append: "P a \<Longrightarrow> dropWhile P (replicate n a @ xs) = dropWhile P xs"
  by (induction n) auto

lemma trim_end_append_spaces: "trim_end (s @ replicate n (CHR '' '')) = trim_end s"
  by (simp add: trim_end_def dropWhile_replicate_append)

lemma text_width_pos: "gs \<noteq> [] \<Longrightarrow> 0 < text_width u gs"
  by (cases gs) auto

lemma tiled_last_pos: "tiled u x row \<Longrightarrow> row \<noteq> [] \<Longrightarrow> 0 < run_width (last row)"
  by (induction row arbitrary: x) (auto simp: text_width_pos)

lemma trim_end_id: "s = [] \<or> last s \<noteq> CHR '' '' \<Longrightarrow> trim_end s = s"
  by (cases s rule: rev_cases) (simp_all add: trim_end_def)

definition trimmed_row :: "span_run list \<Rightarrow> bool" where
  "trimmed_row row \<longleftrightarrow>
     (row \<noteq> [] \<longrightarrow> run_look (last row) = DEFAULT_STYLE \<longrightarrow>
        run_text (last row) \<noteq> [] \<and> last (run_text (last row)) \<noteq> CHR '' '')"

lemma blanks_are_spaces:
  "unicode_ok u \<Longrightarrow> replicate n BLANK = cells u (styled DEFAULT_STYLE (replicate n '' ''))"
  by (induction n) (simp_all add: glyph_cells_def BLANK_def unicode_ok_space)

lemma text_width_spaces: "unicode_ok u \<Longrightarrow> text_width u (replicate n '' '') = n"
  by (induction n) (simp_all add: unicode_ok_space)

lemma concat_spaces: "concat (replicate n '' '') = replicate n (CHR '' '')"
  by (induction n) auto

lemma runs_whole: "runs cols 0 (length cols) = fold push_column (enumerate 0 cols) []"
  by (simp add: runs_def)

lemma runs_row_blanks:
  assumes "unicode_ok u" "tiled u 0 row" "n \<noteq> 0"
  shows "runs (cells u (row_glyphs u row) @ replicate n BLANK) 0
            (length (cells u (row_glyphs u row) @ replicate n BLANK)) =
    (if row \<noteq> [] \<and> run_look (last row) = DEFAULT_STYLE
     then butlast row @ [(last row)\<lparr>run_text := run_text (last row) @ replicate n (CHR '' ''),
                                    run_width := run_width (last row) + n\<rparr>]
     else row @ [\<lparr>run_x = row_width row, run_width = n, run_text = replicate n (CHR '' ''),
                  run_look = DEFAULT_STYLE\<rparr>])"
  using assms length_row_cells [OF assms(2)]
  unfolding runs_whole enumerate_append_eq
  by (auto simp: push_row blanks_are_spaces push_styled push_new_styled text_width_spaces
      concat_spaces)

lemma canonical_cells:
  assumes u: "unicode_ok u" and row: "tiled u 0 row" "trimmed_row row" and n: "n < 2 ^ 16"
  shows "canonical (cells u (row_glyphs u row) @ replicate n BLANK) = row"
proof (cases "n = 0")
  case True
  have "runs (cells u (row_glyphs u row)) 0 (length (cells u (row_glyphs u row))) = row"
    using push_row [OF u row(1), of "[]"] by (simp add: runs_whole)
  moreover have "trim_end (run_text (last row)) = run_text (last row)"
    if "row \<noteq> []" "run_look (last row) = DEFAULT_STYLE"
    using row(2) that by (intro trim_end_id) (auto simp: trimmed_row_def)
  moreover have "run_width (last row) \<noteq> 0" if "row \<noteq> []"
    using tiled_last_pos [OF row(1) that] by simp
  ultimately show ?thesis
    using True by (cases "row = []") (auto simp: canonical_def Let_def)
next
  case False
  show ?thesis
  proof (cases "row \<noteq> [] \<and> run_look (last row) = DEFAULT_STYLE")
    case True
    have "trim_end (run_text (last row)) = run_text (last row)"
      using row(2) True by (intro trim_end_id) (auto simp: trimmed_row_def)
    moreover have "run_width (last row) \<noteq> 0"
      using tiled_last_pos [OF row(1)] True by simp
    ultimately show ?thesis
      using True False n unfolding canonical_def runs_row_blanks [OF u row(1) False]
      by (simp add: trim_end_append_spaces Let_def)
  next
    case other: False
    have "trim_end (replicate n (CHR '' '')) = []"
      using trim_end_append_spaces [of "[]" n] by (simp add: trim_end_def)
    then show ?thesis
      using other False n unfolding canonical_def runs_row_blanks [OF u row(1) False]
      by (simp only: if_not_P [OF other]) (simp add: Let_def)
  qed
qed

subsection \<open>Clean columns\<close>

text \<open>
  Columns that hold whole glyphs, each a cluster of one or two columns, a space only as a blank, and
  neighbours of one style that stay apart.
\<close>

definition glyph_ok :: "unicode \<Rightarrow> string \<Rightarrow> bool" where
  "glyph_ok u g \<longleftrightarrow>
     g \<noteq> [] \<and> graphemes u g = [g] \<and> glyph_width u g \<le> 2 \<and> (last g = CHR '' '' \<longrightarrow> g = '' '')"

definition neighbours_ok :: "unicode \<Rightarrow> glyph \<Rightarrow> glyph \<Rightarrow> bool" where
  "neighbours_ok u = (\<lambda>(g, k) (h, l). k = l \<longrightarrow> apart u g h)"

definition glyphs_ok :: "unicode \<Rightarrow> glyph list \<Rightarrow> bool" where
  "glyphs_ok u gl \<longleftrightarrow> (\<forall>(g, k) \<in> set gl. glyph_ok u g) \<and> successively (neighbours_ok u) gl"

definition clean :: "unicode \<Rightarrow> column list \<Rightarrow> bool" where
  "clean u cols \<longleftrightarrow> (\<exists>gl. glyphs_ok u gl \<and> cols = cells u gl)"

lemma glyphs_ok_append:
  "glyphs_ok u (gl @ gl') \<longleftrightarrow>
     glyphs_ok u gl \<and> glyphs_ok u gl' \<and>
     (gl \<noteq> [] \<longrightarrow> gl' \<noteq> [] \<longrightarrow> neighbours_ok u (last gl) (hd gl'))"
  by (auto simp: glyphs_ok_def successively_append_iff)

lemma glyphs_ok_narrow: "glyphs_ok u gl \<Longrightarrow> narrow u gl"
  by (auto simp: glyphs_ok_def glyph_ok_def narrow_def)

text \<open>The row a list of glyphs makes from column \<open>x\<close> on.\<close>

fun glyphs_row :: "unicode \<Rightarrow> nat \<Rightarrow> glyph list \<Rightarrow> span_run list" where
  "glyphs_row u x [] = []"
| "glyphs_row u x ((g, k) # gl) =
     (case glyphs_row u (x + glyph_width u g) gl of
        r # rs \<Rightarrow>
          if run_look r = k
          then r\<lparr>run_x := x, run_width := glyph_width u g + run_width r, run_text := g @ run_text r\<rparr> # rs
          else \<lparr>run_x = x, run_width = glyph_width u g, run_text = g, run_look = k\<rparr> # r # rs
      | [] \<Rightarrow> [\<lparr>run_x = x, run_width = glyph_width u g, run_text = g, run_look = k\<rparr>])"

lemma glyphs_row_ok:
  assumes "unicode_ok u" "glyphs_ok u gl"
  shows "tiled u x (glyphs_row u x gl) \<and> row_glyphs u (glyphs_row u x gl) = gl"
  using assms(2)
proof (induction gl arbitrary: x)
  case Nil
  then show ?case by simp
next
  case (Cons gk gl)
  obtain g k where gk: "gk = (g, k)" by (cases gk)
  have g: "graphemes u g = [g]" and gl: "glyphs_ok u gl"
    using Cons.prems by (auto simp: gk glyphs_ok_def glyph_ok_def successively_Cons)
  have IH: "tiled u (x + glyph_width u g) (glyphs_row u (x + glyph_width u g) gl)"
    "row_glyphs u (glyphs_row u (x + glyph_width u g) gl) = gl"
    using Cons.IH [OF gl] by simp_all
  show ?case
  proof (cases "glyphs_row u (x + glyph_width u g) gl")
    case Nil
    with IH show ?thesis
      by (simp add: gk g run_glyphs_def)
  next
    case (Cons r rs)
    obtain h hs where h: "graphemes u (run_text r) = h # hs"
      using IH(1) Cons by (cases "graphemes u (run_text r)") auto
    have hd_gl: "gl \<noteq> []" "hd gl = (h, run_look r)"
      using IH(2) Cons h by (auto simp: run_glyphs_def)
    have "graphemes u (g @ run_text r) = g # h # hs" if "run_look r = k"
    proof -
      have "neighbours_ok u (g, k) (hd gl)"
        using Cons.prems hd_gl(1) by (simp add: gk glyphs_ok_def successively_Cons)
      then have "apart u g h"
        using that hd_gl(2) by (simp add: neighbours_ok_def)
      then show ?thesis
        using unicode_ok_prefix [OF assms(1) g h] h by simp
    qed
    then show ?thesis
      using IH Cons h g by (auto simp: gk run_glyphs_def add.assoc)
  qed
qed

lemma strip_trailing: "\<exists>xs' n. xs = xs' @ replicate n a \<and> (xs' \<noteq> [] \<longrightarrow> last xs' \<noteq> a)"
proof (induction xs rule: rev_induct)
  case Nil
  then show ?case by simp
next
  case (snoc x xs)
  then obtain xs' n where xs: "xs = xs' @ replicate n a" "xs' \<noteq> [] \<longrightarrow> last xs' \<noteq> a"
    by auto
  show ?case
  proof (cases "x = a")
    case True
    then have "xs @ [x] = xs' @ replicate (Suc n) a"
      using xs(1) by (simp add: replicate_append_same)
    with xs(2) show ?thesis by blast
  next
    case False
    then have "xs @ [x] = (xs @ [x]) @ replicate 0 a \<and> (xs @ [x] \<noteq> [] \<longrightarrow> last (xs @ [x]) \<noteq> a)"
      by simp
    then show ?thesis by blast
  qed
qed

lemma last_run_glyph:
  assumes "tiled u x row" "row \<noteq> []"
  shows "last (row_glyphs u row) = (last (graphemes u (run_text (last row))), run_look (last row))"
    "row_glyphs u row \<noteq> []" "graphemes u (run_text (last row)) \<noteq> []"
  using assms
  by (induction row arbitrary: x) (auto simp: run_glyphs_def styled_def last_map)

lemma last_concat: "xs \<noteq> [] \<Longrightarrow> last xs \<noteq> [] \<Longrightarrow> concat xs \<noteq> [] \<and> last (concat xs) = last (last xs)"
  by (cases xs rule: rev_cases) auto

text \<open>The runs of clean columns, trailing blanks left out, lay back to the columns.\<close>

lemma columns_canonical:
  assumes u: "unicode_ok u" and cols: "clean u cols" "length cols < 2 ^ 16"
  shows "columns u (canonical cols) (length cols) = cols"
proof -
  obtain gl where gl: "glyphs_ok u gl" "cols = cells u gl"
    using cols(1) by (auto simp: clean_def)
  obtain gl' n where split: "gl = gl' @ replicate n ('' '', DEFAULT_STYLE)"
    and no_blank: "gl' \<noteq> [] \<longrightarrow> last gl' \<noteq> ('' '', DEFAULT_STYLE)"
    using strip_trailing [of gl "('' '', DEFAULT_STYLE)"] by blast
  have ok: "glyphs_ok u gl'"
    using gl(1) by (simp add: split glyphs_ok_append)
  define row where "row = glyphs_row u 0 gl'"
  have row: "tiled u 0 row" "row_glyphs u row = gl'"
    using glyphs_row_ok [OF u ok, of 0] by (simp_all add: row_def)
  have cells: "cols = cells u gl' @ replicate n BLANK"
    using gl(2) by (simp add: split blanks_are_spaces [OF u] styled_def)
  have "trimmed_row row"
    unfolding trimmed_row_def
  proof (intro impI)
    assume r: "row \<noteq> []" and look: "run_look (last row) = DEFAULT_STYLE"
    define t where "t = last (graphemes u (run_text (last row)))"
    have last: "last gl' = (t, DEFAULT_STYLE)" "gl' \<noteq> []"
      "graphemes u (run_text (last row)) \<noteq> []"
      using last_run_glyph [OF row(1) r] row(2) look by (simp_all add: t_def)
    have "(t, DEFAULT_STYLE) \<in> set gl'"
      using last(1,2) last_in_set [of gl'] by simp
    then have t: "glyph_ok u t"
      using ok by (auto simp: glyphs_ok_def)
    have "t \<noteq> '' ''"
      using no_blank last by auto
    then have "t \<noteq> []" "last t \<noteq> CHR '' ''"
      using t by (auto simp: glyph_ok_def)
    then show "run_text (last row) \<noteq> [] \<and> last (run_text (last row)) \<noteq> CHR '' ''"
      using last_concat [OF last(3)] unicode_ok_concat [OF u] by (simp add: t_def)
  qed
  moreover have len: "length cols = row_width row + n"
    using length_row_cells [OF row(1)] by (simp add: cells row(2))
  ultimately have canon: "canonical cols = row"
    using canonical_cells [OF u row(1), of n] cols(2) by (simp add: cells row(2))
  show ?thesis
    using columns_tiled [OF row(1), of n] glyphs_ok_narrow [OF ok] cols(2)
    unfolding canon len by (simp add: row(2) cells)
qed

end
