(* ===== verification/RowRoundtrip.thy ===== *)
theory RowRoundtrip
  imports RowReplay
begin

text \<open>
  The changes of a row reproduce it.  The spans that differ are apart by more than \<open>SPAN_GAP\<close>
  columns, so every step of the replay leaves columns that are the new row up to a point and the old
  row after it, both of them clean and equal where they meet.
\<close>

subsection \<open>Rows as captures write them\<close>

text \<open>
  The format of a row (\<^verbatim>\<open>SpanFrame::rows\<close>): its runs tile the row from column 0, each as long as its
  style, trailing default blanks left out.  Its clusters take one or two columns, and a space is a
  cluster of its own.
\<close>

definition row_ok :: "unicode \<Rightarrow> nat \<Rightarrow> span_run list \<Rightarrow> bool" where
  "row_ok u w row \<longleftrightarrow>
     tiled u 0 row \<and> row_width row \<le> w \<and> trimmed_row row \<and>
     (\<forall>r \<in> set row. \<forall>g \<in> set (graphemes u (run_text r)).
        g \<noteq> [] \<and> glyph_width u g \<le> 2 \<and> (last g = CHR '' '' \<longrightarrow> g = '' '')) \<and>
     (row \<noteq> [] \<longrightarrow> run_look (last row) = DEFAULT_STYLE \<longrightarrow>
        apart u (last (graphemes u (run_text (last row)))) '' '')"

lemma successively_styled:
  assumes "unicode_ok u"
  shows "successively (neighbours_ok u) (styled k (graphemes u s))"
  unfolding successively_conv_nth
proof (intro allI impI)
  fix i
  assume "Suc i < length (styled k (graphemes u s))"
  then have i: "Suc i < length (graphemes u s)"
    by (simp add: styled_def)
  then have "graphemes u s = take i (graphemes u s) @ graphemes u s ! i
      # graphemes u s ! Suc i # drop (Suc (Suc i)) (graphemes u s)"
    by (simp add: Cons_nth_drop_Suc)
  then have "apart u (graphemes u s ! i) (graphemes u s ! Suc i)"
    by (rule unicode_ok_pair [OF assms])
  then show "neighbours_ok u (styled k (graphemes u s) ! i) (styled k (graphemes u s) ! Suc i)"
    using i by (simp add: styled_def neighbours_ok_def)
qed

lemma hd_row_glyphs:
  "tiled u x row \<Longrightarrow> row \<noteq> [] \<Longrightarrow> row_glyphs u row \<noteq> [] \<and> snd (hd (row_glyphs u row)) = run_look (hd row)"
  by (cases row) (auto simp: run_glyphs_def styled_def hd_map)

lemma row_glyphs_ok:
  assumes u: "unicode_ok u" and row: "tiled u x row"
    and glyphs: "\<forall>r \<in> set row. \<forall>g \<in> set (graphemes u (run_text r)).
        g \<noteq> [] \<and> glyph_width u g \<le> 2 \<and> (last g = CHR '' '' \<longrightarrow> g = '' '')"
  shows "glyphs_ok u (row_glyphs u row)"
  using row glyphs
proof (induction row arbitrary: x)
  case Nil
  then show ?case by (simp add: glyphs_ok_def)
next
  case (Cons r row)
  have "glyphs_ok u (run_glyphs u r)"
    using Cons.prems(2) unicode_ok_alone [OF u] successively_styled [OF u]
    by (auto simp: glyphs_ok_def glyph_ok_def run_glyphs_def styled_def)
  moreover have "glyphs_ok u (row_glyphs u row)"
    by (rule Cons.IH [of "x + run_width r"]) (use Cons.prems in auto)
  moreover have "neighbours_ok u (last (run_glyphs u r)) (hd (row_glyphs u row))"
    if "row_glyphs u row \<noteq> []"
  proof -
    have "row \<noteq> []" using that by auto
    moreover have "tiled u (x + run_width r) row" "row \<noteq> [] \<longrightarrow> run_look (hd row) \<noteq> run_look r"
      using Cons.prems(1) by auto
    ultimately have "snd (hd (row_glyphs u row)) \<noteq> run_look r"
      using hd_row_glyphs by metis
    moreover have "snd (last (run_glyphs u r)) = run_look r"
      using Cons.prems(1) by (simp add: run_glyphs_def styled_def last_map)
    ultimately show ?thesis
      by (simp add: neighbours_ok_def split_beta)
  qed
  ultimately show ?case
    by (simp add: glyphs_ok_append)
qed

lemma spaces_ok:
  assumes "unicode_ok u"
  shows "glyphs_ok u (styled k (replicate n '' ''))"
proof -
  have "apart u '' '' '' ''"
    using assms by (simp add: unicode_ok_def)
  then have "successively (neighbours_ok u) (styled k (replicate n '' ''))"
    by (simp add: successively_conv_nth styled_def neighbours_ok_def)
  then show ?thesis
    using unicode_ok_space [OF assms] by (auto simp: glyphs_ok_def glyph_ok_def styled_def)
qed

lemma row_ok_columns:
  assumes u: "unicode_ok u" and row: "row_ok u w row" and w: "w < 2 ^ 16"
  shows "clean u (columns u row w)" "canonical (columns u row w) = row"
proof -
  define n where "n = w - row_width row"
  have n: "w = row_width row + n" "n < 2 ^ 16"
    using row w by (simp_all add: n_def row_ok_def)
  have tiled: "tiled u 0 row" and trimmed: "trimmed_row row"
    using row by (simp_all add: row_ok_def)
  have ok: "glyphs_ok u (row_glyphs u row)"
    by (rule row_glyphs_ok [OF u tiled]) (use row in \<open>simp add: row_ok_def\<close>)
  have cols: "columns u row w = cells u (row_glyphs u row) @ replicate n BLANK"
    using columns_tiled [OF tiled glyphs_ok_narrow [OF ok], of n] w by (simp add: n(1))
  show "canonical (columns u row w) = row"
    unfolding cols by (rule canonical_cells [OF u tiled trimmed n(2)])
  have "neighbours_ok u (last (row_glyphs u row)) (hd (styled DEFAULT_STYLE (replicate n '' '')))"
    if "row_glyphs u row \<noteq> []" "n \<noteq> 0"
  proof -
    have r: "row \<noteq> []" using that by auto
    have "hd (styled DEFAULT_STYLE (replicate n '' '')) = ('' '', DEFAULT_STYLE)"
      using that(2) by (cases n) auto
    then show ?thesis
      using last_run_glyph(1) [OF tiled r] row r by (simp add: neighbours_ok_def row_ok_def)
  qed
  then have "glyphs_ok u (row_glyphs u row @ styled DEFAULT_STYLE (replicate n '' ''))"
    using ok spaces_ok [OF u] by (simp add: glyphs_ok_append)
  then show "clean u (columns u row w)"
    unfolding clean_def cols by (auto simp: blanks_are_spaces [OF u] intro!: exI)
qed

subsection \<open>Cutting clean columns at a glyph\<close>

definition boundary :: "column list \<Rightarrow> nat \<Rightarrow> bool" where
  "boundary cols p \<longleftrightarrow> p = length cols \<or> (p < length cols \<and> col_width (cols ! p) \<noteq> 0)"

lemma nth_glyph_cells:
  "0 < i \<Longrightarrow> i < glyph_width u t
   \<Longrightarrow> glyph_cells u (t, k) ! i = \<lparr>col_text = [], col_width = 0, col_look = k\<rparr>"
  by (cases i) (simp_all add: glyph_cells_def)

lemma cells_split:
  assumes "boundary (cells u gl) p"
  shows "\<exists>g1 g2. gl = g1 @ g2 \<and> length (cells u g1) = p"
proof (cases "p = length (cells u gl)")
  case True
  then show ?thesis by (intro exI [of _ gl] exI [of _ "[]"]) simp
next
  case False
  then have "p < length (cells u gl)" "col_width (cells u gl ! p) \<noteq> 0"
    using assms by (auto simp: boundary_def)
  then show ?thesis
  proof (induction gl arbitrary: p)
    case Nil
    then show ?case by simp
  next
    case (Cons gk gl)
    obtain g k where gk: "gk = (g, k)" by (cases gk)
    consider "p = 0" | "0 < p" "p < glyph_width u g" | "glyph_width u g \<le> p"
      by linarith
    then show ?case
    proof cases
      case 1
      then show ?thesis by (intro exI [of _ "[]"] exI [of _ "gk # gl"]) simp
    next
      case 2
      then have "cells u (gk # gl) ! p = \<lparr>col_text = [], col_width = 0, col_look = k\<rparr>"
        by (simp add: gk nth_append nth_glyph_cells)
      with Cons.prems(2) show ?thesis by simp
    next
      case 3
      then have "p - glyph_width u g < length (cells u gl)"
        "col_width (cells u gl ! (p - glyph_width u g)) \<noteq> 0"
        using Cons.prems by (auto simp: gk nth_append)
      then obtain g1 g2 where "gl = g1 @ g2" "length (cells u g1) = p - glyph_width u g"
        using Cons.IH by blast
      then show ?thesis
        using 3 by (intro exI [of _ "gk # g1"] exI [of _ g2]) (simp add: gk)
    qed
  qed
qed

lemma hd_cells: "gl \<noteq> [] \<Longrightarrow> cells u gl ! 0 =
    \<lparr>col_text = fst (hd gl), col_width = glyph_width u (fst (hd gl)), col_look = snd (hd gl)\<rparr>"
  by (cases gl) (auto simp: glyph_cells_def)

lemma cells_eq_Nil [simp]: "cells u gl = [] \<longleftrightarrow> gl = []"
  by (cases gl) (auto simp: glyph_cells_def)

lemma clean_mix:
  assumes after: "clean u after" "boundary after p" and before: "clean u before"
    and len: "length before = length after" and same: "p < length after \<Longrightarrow> before ! p = after ! p"
  shows "clean u (take p after @ drop p before)"
proof -
  have boundary: "boundary before p"
    using after(2) len same by (auto simp: boundary_def)
  obtain ga gb where ga: "glyphs_ok u ga" "after = cells u ga" and gb: "glyphs_ok u gb" "before = cells u gb"
    using after(1) before by (auto simp: clean_def)
  obtain a1 a2 where a: "ga = a1 @ a2" "length (cells u a1) = p"
    using cells_split [of u ga p] after(2) ga(2) by blast
  obtain b1 b2 where b: "gb = b1 @ b2" "length (cells u b1) = p"
    using cells_split [of u gb p] boundary gb(2) by blast
  have result: "take p after @ drop p before = cells u (a1 @ b2)"
    using a b ga(2) gb(2) by simp
  have "neighbours_ok u (last a1) (hd b2)" if "a1 \<noteq> []" "b2 \<noteq> []"
  proof -
    have p: "p < length before"
      using that(2) b gb(2) by (cases "cells u b2") auto
    then have "a2 \<noteq> []"
      using a ga(2) len by auto
    moreover have "before ! p = cells u b2 ! 0" "after ! p = cells u a2 ! 0"
      using a b ga(2) gb(2) by (simp_all add: nth_append)
    ultimately have "hd b2 = hd a2"
      using same p len that(2) by (auto simp: hd_cells prod_eq_iff)
    then show ?thesis
      using ga(1) that(1) \<open>a2 \<noteq> []\<close> by (simp add: a glyphs_ok_append)
  qed
  then have "glyphs_ok u (a1 @ b2)"
    using ga(1) gb(1) by (simp add: a b glyphs_ok_append)
  then show ?thesis
    unfolding clean_def result by blast
qed

text \<open>Laying a slice of clean columns, read as runs, writes that slice.\<close>

lemma lay_slice:
  assumes u: "unicode_ok u" and after: "clean u after" "length after < 2 ^ 16"
    and s: "boundary after s" and e: "boundary after e" "s \<le> e" and len: "length cols = length after"
  shows "lay u cols (runs after s e) = take s cols @ take (e - s) (drop s after) @ drop e cols"
proof -
  obtain gl where gl: "glyphs_ok u gl" "after = cells u gl"
    using after(1) by (auto simp: clean_def)
  obtain g12 g3 where g12: "gl = g12 @ g3" "length (cells u g12) = e"
    using cells_split [of u gl e] e(1) gl(2) by blast
  have "boundary (cells u g12) s"
    using s e(2) gl(2) g12 by (auto simp: boundary_def nth_append)
  then obtain g1 g2 where g1: "g12 = g1 @ g2" "length (cells u g1) = s"
    using cells_split by blast
  have ok: "glyphs_ok u g2"
    using gl(1) by (simp add: g12 g1 glyphs_ok_append)
  define row where "row = glyphs_row u s g2"
  have row: "tiled u s row" "row_glyphs u row = g2"
    using glyphs_row_ok [OF u ok, of s] by (simp_all add: row_def)
  have len2: "length (cells u g2) = e - s" "s + length (cells u g2) = e" "e \<le> length after"
    using g12 g1 gl(2) e(2) by auto
  have "runs after s e = fold push_column (enumerate s (cells u g2)) []"
    using g1 g12 gl(2) len2 by (simp add: runs_def enumerate_append_eq)
  also have "\<dots> = row"
    using push_row [OF u row(1), of "[]"] by (simp add: row(2))
  finally have runs: "runs after s e = row" .
  have "lay u (take s cols @ take (e - s) (drop s cols) @ drop e cols) row
      = take s cols @ cells u (row_glyphs u row) @ drop e cols"
    by (rule lay_tiled [OF row(1)])
      (use len len2 e(2) after(2) length_row_cells [OF row(1)] glyphs_ok_narrow [OF ok]
       in \<open>auto simp: row(2)\<close>)
  moreover have "take s cols @ take (e - s) (drop s cols) @ drop e cols = cols"
    using e(2) by (metis append_take_drop_id drop_drop le_add_diff_inverse2)
  moreover have "take (e - s) (drop s after) = cells u g2"
    using g1 g12 gl(2) len2 by simp
  ultimately show ?thesis
    by (simp add: runs row(2))
qed

subsection \<open>The spans that differ\<close>

text \<open>
  Spans in order from column \<open>lo\<close> on, more than \<open>SPAN_GAP\<close> columns apart, with nothing changed
  outside of them up to column \<open>n\<close>.
\<close>

fun spans_ok :: "(nat \<Rightarrow> bool) \<Rightarrow> nat \<Rightarrow> nat \<Rightarrow> (nat \<times> nat) list \<Rightarrow> bool" where
  "spans_ok same lo n [] \<longleftrightarrow> lo \<le> n \<and> (\<forall>j. lo \<le> j \<longrightarrow> j < n \<longrightarrow> same j)"
| "spans_ok same lo n ((s, e) # spans) \<longleftrightarrow>
     lo \<le> s \<and> s < e \<and> (\<forall>j. lo \<le> j \<longrightarrow> j < s \<longrightarrow> same j) \<and>
     (spans \<noteq> [] \<longrightarrow> e + SPAN_GAP < fst (hd spans)) \<and> spans_ok same e n spans"

lemma spans_ok_le: "spans_ok same lo n spans \<Longrightarrow> lo \<le> n"
  by (induction same lo n spans rule: spans_ok.induct) auto

lemma spans_ok_hd: "spans_ok same lo n spans \<Longrightarrow> spans \<noteq> [] \<Longrightarrow> fst (hd spans) < n"
  by (cases spans) (fastforce dest: spans_ok_le)+

lemma spans_ok_keep: "spans_ok same lo n spans \<Longrightarrow> same n \<Longrightarrow> spans_ok same lo (Suc n) spans"
  by (induction same lo n spans rule: spans_ok.induct) (auto simp: less_Suc_eq)

lemma push_span_Cons:
  "spans \<noteq> [] \<Longrightarrow> push_span x (se # spans) = se # push_span x spans"
  by simp

lemma hd_push_span: "fst (hd (push_span x spans)) = (if spans = [] then x else fst (hd spans))"
  by (cases spans rule: rev_cases) (auto simp: hd_append)

lemma spans_ok_push:
  "spans_ok same lo n spans \<Longrightarrow> spans_ok same lo (Suc n) (push_span n spans)"
proof (induction same lo n spans rule: spans_ok.induct)
  case (1 same lo n)
  then show ?case by simp
next
  case (2 same lo n s e spans)
  show ?case
  proof (cases "spans = []")
    case True
    then show ?thesis using 2 by auto
  next
    case False
    have "spans_ok same e (Suc n) (push_span n spans)"
      using 2 by simp
    moreover have "fst (hd (push_span n spans)) = fst (hd spans)"
      using False by (simp only: hd_push_span if_False)
    ultimately show ?thesis
      using 2(2) False by (simp only: push_span_Cons [OF False] spans_ok.simps) simp
  qed
qed

lemma changed_spans_ok:
  "spans_ok (\<lambda>j. before ! j = after ! j) 0 n
     (fold push_span (filter (\<lambda>x. before ! x \<noteq> after ! x) [0..<n]) [])"
proof (induction n)
  case 0
  then show ?case by simp
next
  case (Suc n)
  then show ?case
    using spans_ok_keep spans_ok_push by (auto simp del: push_span.simps)
qed

subsection \<open>Replaying the spans one by one\<close>

lemma glyph_start_le: "glyph_start cols s \<le> s"
  by (induction s) auto

lemma clean_first: "clean u cols \<Longrightarrow> cols \<noteq> [] \<Longrightarrow> col_width (cols ! 0) \<noteq> 0"
  by (auto simp: clean_def hd_cells)

lemma glyph_start_boundary:
  assumes "clean u cols" "s < length cols"
  shows "boundary cols (glyph_start cols s)"
  using assms(2)
proof (induction s)
  case 0
  then show ?case
    using clean_first [OF assms(1)] by (auto simp: boundary_def)
next
  case (Suc s)
  then show ?case by (auto simp: boundary_def)
qed

lemma glyph_stop_boundary:
  "e \<le> length cols \<Longrightarrow> e \<le> glyph_stop cols e \<and> boundary cols (glyph_stop cols e)"
proof (induction cols e rule: glyph_stop.induct)
  case (1 cols e)
  show ?case
    using 1 by (subst (1 2) glyph_stop.simps) (auto simp: boundary_def)
qed

lemma cells_two_zero:
  "narrow u gl \<Longrightarrow> Suc j < length (cells u gl) \<Longrightarrow> col_width (cells u gl ! j) = 0
   \<Longrightarrow> col_width (cells u gl ! Suc j) \<noteq> 0"
proof (induction gl arbitrary: j)
  case Nil
  then show ?case by simp
next
  case (Cons gk gl)
  obtain g k where gk: "gk = (g, k)" by (cases gk)
  have w: "glyph_width u g \<le> 2" "0 < glyph_width u g"
    using Cons.prems by (simp_all add: gk)
  have j: "0 < j"
    using Cons.prems(3) hd_cells [of "gk # gl" u] by (cases j) (auto simp: gk glyph_width_def)
  show ?case
  proof (cases "glyph_width u g \<le> j")
    case True
    then show ?thesis
      using Cons.IH [of "j - glyph_width u g"] Cons.prems
      by (auto simp: gk nth_append Suc_diff_le)
  next
    case False
    then have "j = 1" "glyph_width u g = 2"
      using w j by auto
    moreover have "gl \<noteq> []"
      using Cons.prems(2) calculation by (auto simp: gk)
    ultimately show ?thesis
      using hd_cells [of gl u] by (auto simp: gk nth_append)
  qed
qed

lemma glyph_stop_near:
  assumes "clean u cols" "e < length cols"
  shows "glyph_stop cols e \<le> e + 1"
proof -
  obtain gl where gl: "narrow u gl" "cols = cells u gl"
    using assms(1) glyphs_ok_narrow by (auto simp: clean_def)
  have "glyph_stop cols (e + 1) = e + 1" if "col_width (cols ! e) = 0"
    using cells_two_zero [of u gl e] gl that by (subst glyph_stop.simps) auto
  then show ?thesis
    by (subst glyph_stop.simps) auto
qed

text \<open>
  Laying one span moves the point up to which the columns are the new row's from \<open>p\<close> to its end.
\<close>

lemma lay_span:
  assumes u: "unicode_ok u" and w: "w < 2 ^ 16"
    and after: "clean u after" "length after = w" and before: "length before = w"
    and span: "s < e" "e \<le> w" "p \<le> s" "\<And>j. p \<le> j \<Longrightarrow> j < s \<Longrightarrow> before ! j = after ! j"
  defines "s' \<equiv> glyph_start after s" and "e' \<equiv> glyph_stop after e"
  shows "lay u (take p after @ drop p before) (runs after s' e') = take e' after @ drop e' before"
proof -
  define laid where "laid = take p after @ drop p before"
  have s': "s' \<le> s" "boundary after s'"
    using glyph_start_le glyph_start_boundary [OF after(1)] span(1,2) after(2) by (simp_all add: s'_def)
  have e': "e \<le> e'" "boundary after e'"
    using glyph_stop_boundary [of e after] span(2) after(2) by (simp_all add: e'_def)
  have le: "e' \<le> w"
    using e'(2) after(2) by (auto simp: boundary_def)
  have len: "length laid = w"
    using after(2) before span by (simp add: laid_def)
  have "lay u laid (runs after s' e') = take s' laid @ take (e' - s') (drop s' after) @ drop e' laid"
    by (rule lay_slice [OF u after(1)]) (use s' e' span(1) len after(2) w in auto)
  also have "\<dots> = take e' after @ drop e' before"
  proof (rule nth_equalityI)
    show "length (take s' laid @ take (e' - s') (drop s' after) @ drop e' laid)
        = length (take e' after @ drop e' before)"
      using len after(2) before le s' e' span(1) by simp
    fix j
    assume "j < length (take s' laid @ take (e' - s') (drop s' after) @ drop e' laid)"
    then have j: "j < w"
      using len after(2) le s' e' span(1) by simp
    have "laid ! j = after ! j" if "j < s'"
      using that span(4) s'(1) span(3) len after(2) before j
      by (cases "j < p") (auto simp: laid_def nth_append)
    moreover have "laid ! j = before ! j" if "e' \<le> j"
      using that span e'(1) len after(2) before j by (auto simp: laid_def nth_append)
    ultimately show "(take s' laid @ take (e' - s') (drop s' after) @ drop e' laid) ! j
        = (take e' after @ drop e' before) ! j"
      using j len after(2) before le s' e' span(1) by (auto simp: nth_append)
  qed
  finally show ?thesis
    by (simp add: laid_def)
qed

text \<open>
  The replay and the check of \<^verbatim>\<open>diff\<close> agree: applying the changes one by one, every time to the
  canonical row the last one left, ends in the row that laying them all at once gives.
\<close>

lemma replay_spans:
  assumes u: "unicode_ok u" and w: "w < 2 ^ 16"
    and after: "clean u after" "length after = w" and before: "clean u before" "length before = w"
    and spans: "spans_ok (\<lambda>j. before ! j = after ! j) lo w spans" "spans \<noteq> []"
    and p: "lo \<le> p" "p \<le> fst (hd spans)"
    and row: "columns u row w = take p after @ drop p before"
  shows "fold (\<lambda>change row. apply_change u row change w) (map (span_change y after) spans) row
    = canonical (fold (\<lambda>change laid. lay u laid (change_runs change))
                   (map (span_change y after) spans) (take p after @ drop p before))"
  using spans p row
proof (induction spans arbitrary: lo p row)
  case Nil
  then show ?case by simp
next
  case (Cons se spans)
  obtain s e where se: "se = (s, e)" by (cases se)
  define e' where "e' = glyph_stop after e"
  have span: "s < e" "e \<le> w" "p \<le> s" "\<And>j. p \<le> j \<Longrightarrow> j < s \<Longrightarrow> before ! j = after ! j"
    "spans \<noteq> [] \<Longrightarrow> e + SPAN_GAP < fst (hd spans)"
    "spans_ok (\<lambda>j. before ! j = after ! j) e w spans"
    using Cons.prems(1,3,4) spans_ok_le by (auto simp: se)
  have e': "e \<le> e'" "boundary after e'"
    using glyph_stop_boundary [of e after] span(2) after(2) by (simp_all add: e'_def)
  have le: "e' \<le> w"
    using e'(2) after(2) by (auto simp: boundary_def)
  define change where "change = span_change y after se"
  have step: "lay u (take p after @ drop p before) (change_runs change) = take e' after @ drop e' before"
    "change_partial change"
    using lay_span [OF u w after before(2) span(1-4)]
    by (simp_all add: change_def se span_change_def e'_def)
  have row': "apply_change u row change w = canonical (take e' after @ drop e' before)"
    using step Cons.prems(5) by (simp add: apply_change_def)
  show ?case
  proof (cases "spans = []")
    case True
    then show ?thesis
      using row' step by (simp add: change_def [symmetric])
  next
    case False
    have first: "fst (hd spans) < w"
      by (rule spans_ok_hd [OF span(6) False])
    have "e' \<le> e + 1"
      unfolding e'_def by (rule glyph_stop_near [OF after(1)]) (use span(5) False first after(2) in auto)
    then have gap: "e' < fst (hd spans)"
      using span(5) [OF False] by (simp add: SPAN_GAP_def)
    have same: "before ! j = after ! j" if "e \<le> j" "j < fst (hd spans)" for j
      using span(6) False that by (cases spans) auto
    have "clean u (take e' after @ drop e' before)"
      by (rule clean_mix [OF after(1) e'(2) before(1)]) (use after(2) before(2) same gap e'(1) in auto)
    then have "columns u (canonical (take e' after @ drop e' before)) w = take e' after @ drop e' before"
      using columns_canonical [OF u, of "take e' after @ drop e' before"] after(2) before(2) le w by simp
    then have "fold (\<lambda>change row. apply_change u row change w) (map (span_change y after) spans)
          (apply_change u row change w)
        = canonical (fold (\<lambda>change laid. lay u laid (change_runs change))
            (map (span_change y after) spans) (take e' after @ drop e' before))"
      unfolding row' by (intro Cons.IH [OF span(6) False e'(1)]) (use gap in auto)
    then show ?thesis
      using step by (simp add: change_def [symmetric])
  qed
qed

text \<open>
  Applying the changes of \<^verbatim>\<open>rows::diff\<close> to a row of a capture, one after the other, gives exactly the
  row they lead to: the same runs, not only the same picture.
\<close>

lemma row_changes_replay:
  assumes u: "unicode_ok u" and w: "w < 2 ^ 16" and old: "row_ok u w old" and new: "row_ok u w new"
  shows "fold (\<lambda>change row. apply_change u row change w) (row_diff u y old new w) old = new"
proof -
  define before where "before = columns u old w"
  define after where "after = columns u new w"
  define spans where "spans = fold push_span (changed_columns before after) []"
  define changes where "changes = map (span_change y after) spans"
  have before: "clean u before" "length before = w" "canonical before = old"
    and after: "clean u after" "length after = w" "canonical after = new"
    using row_ok_columns [OF u old w] row_ok_columns [OF u new w] by (simp_all add: before_def after_def)
  have spans: "spans_ok (\<lambda>j. before ! j = after ! j) 0 w spans"
    using changed_spans_ok [of before after w] after(2) by (simp add: spans_def changed_columns_def)
  have unchanged: "old = new" if "spans = []"
  proof -
    have "before = after"
      using spans before(2) after(2) that by (intro nth_equalityI) auto
    then show ?thesis using before(3) after(3) by simp
  qed
  have replayed: "fold (\<lambda>change row. apply_change u row change w) changes old
      = canonical (fold (\<lambda>change laid. lay u laid (change_runs change)) changes before)"
    if "spans \<noteq> []"
    using replay_spans [OF u w after(1,2) before(1,2) spans that, of 0 old y]
    by (simp add: changes_def before_def [symmetric])
  show ?thesis
    unfolding row_diff_def Let_def before_def [symmetric] after_def [symmetric] spans_def [symmetric]
      changes_def [symmetric]
    using unchanged replayed by (auto simp: apply_change_def)
qed

end
