(* ===== verification/FrameCodec.thy ===== *)
theory FrameCodec
  imports RowRoundtrip
begin

text \<open>
  Recording events and the two ends that agree on them: the encoder that decides what a frame adds
  to a recording (\<^verbatim>\<open>src/recording/encode.rs\<close>, the types of \<^verbatim>\<open>src/recording/format.rs\<close> and
  \<^verbatim>\<open>src/control.rs\<close>), and the replay that adds the events up to frames again
  (\<^verbatim>\<open>src/recording/read.rs\<close>).  Times and counters are \<^verbatim>\<open>u64\<close> and \<^verbatim>\<open>u32\<close> naturals, subtraction
  saturating as in the code.
\<close>

subsection \<open>Frames\<close>

datatype span_cursor_shape = Block | HollowBlock | UnderlineCursor | Bar

record span_cursor =
  cursor_x :: nat
  cursor_y :: nat
  cursor_visible :: bool
  cursor_shape :: span_cursor_shape
  cursor_blinking :: bool
  cursor_color :: "span_color option"

record span_palette =
  palette_foreground :: string
  palette_background :: string
  palette_ansi :: "string list"

record span_image =
  image_x :: int
  image_y :: int
  image_width :: nat
  image_height :: nat
  image_pixel_width :: nat
  image_pixel_height :: nat
  image_fill_cell_box :: bool
  image_z_index :: int
  image_underlying_cells :: "span_run option list"
  image_visible :: "(int \<times> nat) list list option"
  image_png :: "string option"
  image_id :: "string option"

record span_frame =
  sf_format :: string
  sf_version :: nat
  sf_width :: nat
  sf_height :: nat
  sf_palette :: span_palette
  sf_cursor :: "span_cursor option"
  sf_rows :: "span_run list list"
  sf_images :: "span_image list"

subsection \<open>Events\<close>

definition KEYFRAME_INTERVAL_MS :: nat where "KEYFRAME_INTERVAL_MS = 10000"

definition MAX_DELTAS_PER_KEYFRAME :: nat where "MAX_DELTAS_PER_KEYFRAME = 1000"

record frame_delta =
  fd_t :: nat
  fd_rows :: "row_change list"
  fd_cursor :: "span_cursor option option"
  fd_images :: "span_image list option"
  fd_palette :: "span_palette option"

record recorded_image =
  ri_t :: nat
  ri_id :: string
  ri_pixel_width :: nat
  ri_pixel_height :: nat
  ri_png :: string

datatype recording_meta = MetaTitle "string option" | MetaCommandStarted
  | MetaCommandFinished "int option" | MetaAgent "string option" "string option"
  | MetaStatus "string option" | MetaExited int | MetaFocus "nat option"
  | MetaWorkspace nat "string option" | MetaOverlay "string option" | MetaUnknown

datatype end_reason = Stopped | Duration | MaxBytes | PaneExited | PaneClosed | SessionEnded
  | ServerShutdown | WriteFailed | UiExited | UnknownReason

record recording_totals =
  tot_frames :: nat
  tot_keyframes :: nat
  tot_deltas :: nat
  tot_images :: nat
  tot_marks :: nat
  tot_dropped :: nat
  tot_bytes :: nat

record recording_end =
  end_t :: nat
  end_why :: end_reason
  end_totals :: recording_totals

datatype recording_event = Keyframe nat span_frame | Delta frame_delta | Resize nat nat nat
  | ImageEvent recorded_image | Mark nat string | Meta nat recording_meta
  | EndEvent recording_end | UnknownEvent

fun event_time :: "recording_event \<Rightarrow> nat option" where
  "event_time (Keyframe t frame) = Some t"
| "event_time (Resize t width height) = Some t"
| "event_time (Mark t label) = Some t"
| "event_time (Meta t meta) = Some t"
| "event_time (Delta delta) = Some (fd_t delta)"
| "event_time (ImageEvent img) = Some (ri_t img)"
| "event_time (EndEvent end') = Some (end_t end')"
| "event_time UnknownEvent = None"

subsection \<open>Frame deltas\<close>

definition changed_to :: "'a \<Rightarrow> 'a \<Rightarrow> 'a option" where
  "changed_to old new = (if old \<noteq> new then Some new else None)"

definition frame_diff :: "unicode \<Rightarrow> span_frame \<Rightarrow> span_frame \<Rightarrow> nat \<Rightarrow> frame_delta" where
  "frame_diff u previous next' t =
     \<lparr>fd_t = t,
      fd_rows =
        concat (map (\<lambda>(y, row).
            if y < length (sf_rows previous)
            then row_diff u (y mod 2 ^ 16) (sf_rows previous ! y) row (sf_width next')
            else [\<lparr>change_y = y mod 2 ^ 16, change_runs = row, change_partial = False\<rparr>])
          (filter (\<lambda>(y, row). \<not> (y < length (sf_rows previous) \<and> sf_rows previous ! y = row))
            (enumerate 0 (sf_rows next')))),
      fd_cursor = changed_to (sf_cursor previous) (sf_cursor next'),
      fd_images = changed_to (sf_images previous) (sf_images next'),
      fd_palette = changed_to (sf_palette previous) (sf_palette next')\<rparr>"

datatype recording_error = RowOutOfFrame nat nat | DeltaBeforeKeyframe | FrameTooLarge nat nat
  | ImageTooLarge nat nat | CellsMismatch | ImageIdTooLong nat | ImagePixelsTooLarge nat nat
  | LineTooLong nat | InvalidLine nat | HeaderTooLong | HeaderIncomplete | HeaderNotJson
  | NotARecording | InvalidHeader | NewerVersion nat | NewerSpans nat | Compressed string
  | RecordingTooLarge nat nat | ImageNotDecoded string

text \<open>
  The loop over the rows of a delta; a change past the last row stops it, the rows before it already
  replaced.
\<close>

fun apply_rows ::
  "unicode \<Rightarrow> row_change list \<Rightarrow> span_frame \<Rightarrow> span_frame \<times> recording_error option" where
  "apply_rows u [] frame = (frame, None)"
| "apply_rows u (change # changes) frame =
     (if change_y change < length (sf_rows frame)
      then apply_rows u changes
             (frame\<lparr>sf_rows := (sf_rows frame)[change_y change :=
                apply_change u (sf_rows frame ! change_y change) change (sf_width frame)]\<rparr>)
      else (frame, Some (RowOutOfFrame (change_y change) (sf_height frame))))"

definition apply_delta ::
  "unicode \<Rightarrow> span_frame \<Rightarrow> frame_delta \<Rightarrow> span_frame \<times> recording_error option" where
  "apply_delta u frame delta =
     (case apply_rows u (fd_rows delta) frame of
        (frame, Some error) \<Rightarrow> (frame, Some error)
      | (frame, None) \<Rightarrow>
          let frame = (case fd_cursor delta of None \<Rightarrow> frame
                       | Some cursor \<Rightarrow> frame\<lparr>sf_cursor := cursor\<rparr>);
              frame = (case fd_images delta of None \<Rightarrow> frame
                       | Some images \<Rightarrow> frame\<lparr>sf_images := images\<rparr>);
              frame = (case fd_palette delta of None \<Rightarrow> frame
                       | Some palette \<Rightarrow> frame\<lparr>sf_palette := palette\<rparr>)
          in (frame, None))"

subsection \<open>The encoder\<close>

record frame_encoder =
  enc_previous :: "span_frame option"
  enc_last_keyframe :: nat
  enc_deltas :: nat
  enc_interval :: nat

definition new_encoder :: "nat \<Rightarrow> frame_encoder" where
  "new_encoder interval =
     \<lparr>enc_previous = None, enc_last_keyframe = 0, enc_deltas = 0, enc_interval = interval\<rparr>"

definition keyframe ::
  "nat \<Rightarrow> span_frame \<Rightarrow> recording_event list \<Rightarrow> frame_encoder \<Rightarrow> recording_event list \<times> frame_encoder"
  where
  "keyframe t frame events enc =
     (events @ [Keyframe t frame],
      enc\<lparr>enc_last_keyframe := t, enc_deltas := 0, enc_previous := Some frame\<rparr>)"

definition encode ::
  "unicode \<Rightarrow> nat \<Rightarrow> span_frame \<Rightarrow> frame_encoder \<Rightarrow> recording_event list \<times> frame_encoder" where
  "encode u t frame enc =
     (case enc_previous enc of
        None \<Rightarrow> keyframe t frame [] enc
      | Some previous \<Rightarrow>
          if previous = frame then ([], enc)
          else if (sf_width previous, sf_height previous) \<noteq> (sf_width frame, sf_height frame)
          then keyframe t frame [Resize t (sf_width frame) (sf_height frame)] enc
          else if t - enc_last_keyframe enc \<ge> enc_interval enc
                \<or> enc_deltas enc \<ge> MAX_DELTAS_PER_KEYFRAME
          then keyframe t frame [] enc
          else ([Delta (frame_diff u previous frame t)],
                enc\<lparr>enc_deltas := enc_deltas enc + 1, enc_previous := Some frame\<rparr>))"

subsection \<open>A delta gives the next frame\<close>

text \<open>A frame as a capture writes it: one row per line of the grid, each in the row format.\<close>

definition frame_ok :: "unicode \<Rightarrow> span_frame \<Rightarrow> bool" where
  "frame_ok u frame \<longleftrightarrow>
     sf_format frame = ''rozi-spans'' \<and> sf_version frame = 2 \<and>
     sf_width frame < 2 ^ 16 \<and> sf_height frame < 2 ^ 16 \<and>
     length (sf_rows frame) = sf_height frame \<and>
     (\<forall>row \<in> set (sf_rows frame). row_ok u (sf_width frame) row)"

lemma apply_rows_append:
  "apply_rows u (cs @ ds) frame =
     (case apply_rows u cs frame of
        (frame, None) \<Rightarrow> apply_rows u ds frame
      | (frame, Some error) \<Rightarrow> (frame, Some error))"
  by (induction u cs frame rule: apply_rows.induct) auto

lemma apply_rows_one:
  assumes "\<forall>c \<in> set cs. change_y c = y" "y < length (sf_rows frame)"
  shows "apply_rows u cs frame =
    (frame\<lparr>sf_rows := (sf_rows frame)[y :=
       fold (\<lambda>c row. apply_change u row c (sf_width frame)) cs (sf_rows frame ! y)]\<rparr>, None)"
  using assms by (induction cs arbitrary: frame) auto

lemma row_diff_y: "c \<in> set (row_diff u y old new w) \<Longrightarrow> change_y c = y"
  by (auto simp: row_diff_def Let_def span_change_def split_beta split: if_splits)

text \<open>The changes of all rows from \<open>k\<close> on, and what they do to a frame that still has the old rows.\<close>

lemma apply_all_rows:
  assumes u: "unicode_ok u" and w: "w < 2 ^ 16" and h: "length old = h" "length new = h" "h < 2 ^ 16"
    and ok: "\<forall>row \<in> set old. row_ok u w row" "\<forall>row \<in> set new. row_ok u w row"
    and frame: "sf_width frame = w" "sf_rows frame = take k new @ drop k old" and k: "k \<le> h"
  shows "apply_rows u
      (concat (map (\<lambda>(y, row).
            if y < length old then row_diff u (y mod 2 ^ 16) (old ! y) row w
            else [\<lparr>change_y = y mod 2 ^ 16, change_runs = row, change_partial = False\<rparr>])
          (filter (\<lambda>(y, row). \<not> (y < length old \<and> old ! y = row)) (enumerate k (drop k new))))) frame
    = (frame\<lparr>sf_rows := new\<rparr>, None)"
  using k frame
proof (induction k arbitrary: frame rule: inc_induct)
  case base
  then show ?case using h by simp
next
  case (step k)
  have rows: "drop k new = new ! k # drop (Suc k) new" "drop k old = old ! k # drop (Suc k) old"
    using step.hyps h by (simp_all add: Cons_nth_drop_Suc)
  have at_k: "sf_rows frame ! k = old ! k" "k < length (sf_rows frame)" "k mod 2 ^ 16 = k"
    using step.prems step.hyps h by (simp_all add: nth_append)
  have replaced: "(take k new @ drop k old)[k := new ! k] = take (Suc k) new @ drop (Suc k) old"
    using step.hyps h rows by (simp add: list_update_append take_Suc_conv_app_nth)
  show ?case
  proof (cases "old ! k = new ! k")
    case True
    have "sf_rows frame = take (Suc k) new @ drop (Suc k) old"
      using step.prems(2) replaced True at_k step.hyps h
      by (metis list_update_id)
    then show ?thesis
      using step.IH [of frame] step.prems True step.hyps h rows by simp
  next
    case False
    have "apply_rows u (row_diff u k (old ! k) (new ! k) w) frame =
        (frame\<lparr>sf_rows := take (Suc k) new @ drop (Suc k) old\<rparr>, None)"
      using apply_rows_one [of "row_diff u k (old ! k) (new ! k) w" k frame u]
        row_changes_replay [OF u w, of "old ! k" "new ! k" k] ok step.hyps h step.prems at_k
        row_diff_y replaced
      by simp
    then show ?thesis
      using step.IH [of "frame\<lparr>sf_rows := take (Suc k) new @ drop (Suc k) old\<rparr>"]
        step.prems False step.hyps h rows at_k
      by (simp add: apply_rows_append)
  qed
qed

text \<open>
  The delta between two captures of one size takes a player from the one to the other exactly:
  every row, the cursor, the images and the palette.
\<close>

lemma delta_reproduces:
  assumes u: "unicode_ok u" and ok: "frame_ok u previous" "frame_ok u next'"
    and same: "sf_width previous = sf_width next'" "sf_height previous = sf_height next'"
  shows "apply_delta u previous (frame_diff u previous next' t) = (next', None)"
proof -
  have "apply_rows u (fd_rows (frame_diff u previous next' t)) previous
      = (previous\<lparr>sf_rows := sf_rows next'\<rparr>, None)"
    using apply_all_rows [OF u, of "sf_width next'" "sf_rows previous" "sf_height next'"
        "sf_rows next'" previous 0] ok same
    by (simp add: frame_diff_def frame_ok_def)
  then show ?thesis
    using ok same
    by (cases previous; cases next') (auto simp: apply_delta_def frame_diff_def changed_to_def frame_ok_def)
qed

end
