(* ===== verification/RecordQueue.thy ===== *)
theory RecordQueue
  imports FrameCodec
begin

text \<open>
  The bounded queue between whoever records a screen and the thread that writes the file
  (\<^verbatim>\<open>src/recording/writer.rs\<close>).  The producer never waits: a full queue gives up a queued frame for
  the newer one, or refuses.  A captured frame with its palette is a value of the type \<open>'c\<close>.  The
  mutex makes every operation one step.
\<close>

subsection \<open>The queue\<close>

definition QUEUE_FRAMES :: nat where "QUEUE_FRAMES = 8"
definition QUEUE_EVENTS :: nat where "QUEUE_EVENTS = 1024"

datatype 'c job = FrameJob nat 'c | EventJob recording_event | EndJob nat end_reason

fun is_frame :: "'c job \<Rightarrow> bool" where
  "is_frame (FrameJob t c) = True"
| "is_frame (EventJob e) = False"
| "is_frame (EndJob t reason) = False"

record 'c record_queue =
  q_jobs :: "'c job list"
  q_frames :: nat
  q_closed :: bool

text \<open>The queue and the counter of dropped changes, both behind \<^verbatim>\<open>Shared\<close>.\<close>

record 'c recorder =
  rec_queue :: "'c record_queue"
  rec_dropped :: nat

definition empty_recorder :: "'c recorder" where
  "empty_recorder =
     \<lparr>rec_queue = \<lparr>q_jobs = [], q_frames = 0, q_closed = False\<rparr>, rec_dropped = 0\<rparr>"

text \<open>The newest queued frame that another frame follows.\<close>

definition find_victim :: "'c job list \<Rightarrow> nat option" where
  "find_victim jobs =
     find (\<lambda>i. is_frame (jobs ! i) \<and> is_frame (jobs ! (i + 1))) (rev [0..<length jobs - 1])"

definition remove_at :: "nat \<Rightarrow> 'a list \<Rightarrow> 'a list" where
  "remove_at i xs = take i xs @ drop (Suc i) xs"

definition place_frame :: "'c job \<Rightarrow> bool \<Rightarrow> 'c recorder \<Rightarrow> bool \<times> 'c recorder" where
  "place_frame job is_last rc =
     (let q = rec_queue rc; jobs = q_jobs q
      in if q_frames q < QUEUE_FRAMES
         then (True, rc\<lparr>rec_queue := q\<lparr>q_jobs := jobs @ [job], q_frames := q_frames q + 1\<rparr>\<rparr>)
         else if jobs \<noteq> [] \<and> is_frame (last jobs)
         then (True, rc\<lparr>rec_queue := q\<lparr>q_jobs := butlast jobs @ [job]\<rparr>, rec_dropped := rec_dropped rc + 1\<rparr>)
         else case find_victim jobs of
                Some victim \<Rightarrow>
                  (True, rc\<lparr>rec_queue := q\<lparr>q_jobs := remove_at victim jobs @ [job]\<rparr>,
                            rec_dropped := rec_dropped rc + 1\<rparr>)
              | None \<Rightarrow>
                  if is_last \<and> q_frames q = QUEUE_FRAMES
                  then (True, rc\<lparr>rec_queue := q\<lparr>q_jobs := jobs @ [job], q_frames := q_frames q + 1\<rparr>\<rparr>)
                  else (False, rc))"

definition queued_events :: "'c record_queue \<Rightarrow> nat" where
  "queued_events q = length (q_jobs q) - q_frames q"

definition push :: "nat \<Rightarrow> 'c \<Rightarrow> bool \<Rightarrow> 'c recorder \<Rightarrow> bool \<times> 'c recorder" where
  "push t frame is_last rc =
     (if q_closed (rec_queue rc) then (False, rc) else place_frame (FrameJob t frame) is_last rc)"

definition push_frame_with ::
  "nat \<Rightarrow> 'c \<Rightarrow> recording_event list \<Rightarrow> bool \<Rightarrow> 'c recorder \<Rightarrow> bool \<times> 'c recorder" where
  "push_frame_with t frame events is_last rc =
     (if q_closed (rec_queue rc)
         \<or> (\<not> is_last \<and> queued_events (rec_queue rc) + length events > QUEUE_EVENTS)
      then (False, rc)
      else case place_frame (FrameJob t frame) is_last rc of
             (False, rc) \<Rightarrow> (False, rc)
           | (True, rc) \<Rightarrow>
               (True, rc\<lparr>rec_queue := (rec_queue rc)\<lparr>q_jobs := q_jobs (rec_queue rc) @ map EventJob events\<rparr>\<rparr>))"

definition push_event :: "recording_event \<Rightarrow> 'c recorder \<Rightarrow> bool \<times> 'c recorder" where
  "push_event event rc =
     (if q_closed (rec_queue rc) \<or> queued_events (rec_queue rc) \<ge> QUEUE_EVENTS then (False, rc)
      else (True, rc\<lparr>rec_queue := (rec_queue rc)\<lparr>q_jobs := q_jobs (rec_queue rc) @ [EventJob event]\<rparr>\<rparr>))"

definition mark :: "nat \<Rightarrow> string \<Rightarrow> 'c recorder \<Rightarrow> bool \<times> 'c recorder" where
  "mark t label rc = push_event (Mark t label) rc"

definition meta_event :: "nat \<Rightarrow> recording_meta \<Rightarrow> 'c recorder \<Rightarrow> 'c recorder" where
  "meta_event t meta rc =
     (case push_event (Meta t meta) rc of
        (pushed, rc) \<Rightarrow>
          if \<not> pushed \<and> \<not> q_closed (rec_queue rc) then rc\<lparr>rec_dropped := rec_dropped rc + 1\<rparr> else rc)"

definition finish :: "nat \<Rightarrow> end_reason \<Rightarrow> 'c recorder \<Rightarrow> 'c recorder" where
  "finish t reason rc =
     (if q_closed (rec_queue rc) then rc
      else rc\<lparr>rec_queue := (rec_queue rc)\<lparr>q_jobs := q_jobs (rec_queue rc) @ [EndJob t reason],
                                          q_closed := True\<rparr>\<rparr>)"

text \<open>The writer takes the oldest job.\<close>

definition pop_job :: "'c recorder \<Rightarrow> 'c job option \<times> 'c recorder" where
  "pop_job rc =
     (case q_jobs (rec_queue rc) of
        [] \<Rightarrow> (None, rc)
      | job # jobs \<Rightarrow>
          (Some job, rc\<lparr>rec_queue := (rec_queue rc)\<lparr>q_jobs := jobs,
             q_frames := (if is_frame job then q_frames (rec_queue rc) - 1 else q_frames (rec_queue rc))\<rparr>\<rparr>))"

text \<open>\<^verbatim>\<open>Shared::finish\<close>: the writer stopped, and whatever was queued is let go.\<close>

definition shared_finish :: "'c recorder \<Rightarrow> 'c recorder" where
  "shared_finish rc = rc\<lparr>rec_queue := \<lparr>q_jobs = [], q_frames = 0, q_closed = True\<rparr>\<rparr>"

subsection \<open>Removing and counting\<close>

definition frame_count :: "'c job list \<Rightarrow> nat" where
  "frame_count jobs = length (filter is_frame jobs)"

lemma frame_count_simps [simp]:
  "frame_count [] = 0"
  "frame_count (j # js) = (if is_frame j then 1 else 0) + frame_count js"
  "frame_count (js @ ks) = frame_count js + frame_count ks"
  by (simp_all add: frame_count_def)

lemma frame_count_map_events [simp]: "frame_count (map EventJob es) = 0"
  by (induction es) auto

lemma frame_count_le: "frame_count jobs \<le> length jobs"
  by (simp add: frame_count_def)

lemma find_SomeD: "find p xs = Some x \<Longrightarrow> x \<in> set xs \<and> p x"
  by (induction xs) (auto split: if_splits)

lemma find_victim_Some:
  assumes "find_victim jobs = Some i"
  obtains js v f ks where "jobs = js @ v # f # ks" "length js = i" "is_frame v" "is_frame f"
proof -
  have i: "Suc i < length jobs" "is_frame (jobs ! i)" "is_frame (jobs ! Suc i)"
    using find_SomeD [OF assms [unfolded find_victim_def]] by auto
  then have "jobs = take i jobs @ jobs ! i # jobs ! Suc i # drop (Suc (Suc i)) jobs"
    by (simp add: Cons_nth_drop_Suc)
  then show thesis
    by (rule that) (use i in auto)
qed

lemma remove_at_middle: "length js = i \<Longrightarrow> remove_at i (js @ v # ks) = js @ ks"
  by (simp add: remove_at_def)

text \<open>How a frame is placed, case by case.\<close>

lemma place_frame_cases:
  assumes "place_frame job is_last rc = (placed, rc')"
  obtains (append) "placed" "rc' = rc\<lparr>rec_queue := (rec_queue rc)\<lparr>q_jobs := q_jobs (rec_queue rc) @ [job],
        q_frames := q_frames (rec_queue rc) + 1\<rparr>\<rparr>"
      "q_frames (rec_queue rc) < QUEUE_FRAMES \<or> (is_last \<and> q_frames (rec_queue rc) = QUEUE_FRAMES)"
  | (drop) js v ks where "placed" "q_jobs (rec_queue rc) = js @ v # ks" "is_frame v"
      "ks = [] \<or> is_frame (hd ks)"
      "rc' = rc\<lparr>rec_queue := (rec_queue rc)\<lparr>q_jobs := js @ ks @ [job]\<rparr>,
                rec_dropped := rec_dropped rc + 1\<rparr>"
  | (refuse) "\<not> placed" "rc' = rc" "q_frames (rec_queue rc) \<ge> QUEUE_FRAMES"
      "find_victim (q_jobs (rec_queue rc)) = None"
      "q_jobs (rec_queue rc) \<noteq> [] \<longrightarrow> \<not> is_frame (last (q_jobs (rec_queue rc)))"
proof -
  define q where "q = rec_queue rc"
  define jobs where "jobs = q_jobs q"
  consider "q_frames q < QUEUE_FRAMES"
    | "\<not> q_frames q < QUEUE_FRAMES" "jobs \<noteq> []" "is_frame (last jobs)"
    | victim where "\<not> q_frames q < QUEUE_FRAMES" "\<not> (jobs \<noteq> [] \<and> is_frame (last jobs))"
      "find_victim jobs = Some victim"
    | "\<not> q_frames q < QUEUE_FRAMES" "\<not> (jobs \<noteq> [] \<and> is_frame (last jobs))" "find_victim jobs = None"
    by (cases "find_victim jobs") auto
  then show thesis
  proof cases
    case 1
    then show thesis
      using append assms by (simp add: place_frame_def q_def Let_def)
  next
    case 2
    have "jobs = butlast jobs @ last jobs # []"
      using 2(2) by simp
    then show thesis
      by (intro drop [of "butlast jobs" "last jobs" "[]"])
        (use 2 assms in \<open>auto simp: place_frame_def q_def jobs_def Let_def\<close>)
  next
    case 3
    obtain js v f ks where victim: "jobs = js @ v # f # ks" "length js = victim" "is_frame v" "is_frame f"
      by (rule find_victim_Some [OF 3(3)])
    show thesis
      by (rule drop [of js v "f # ks"])
        (use victim 3 assms remove_at_middle [OF victim(2), of v "f # ks"] in
         \<open>auto simp: place_frame_def q_def jobs_def Let_def\<close>)
  next
    case 4
    show thesis
    proof (cases "is_last \<and> q_frames q = QUEUE_FRAMES")
      case True
      show thesis
        by (rule append)
          (use True 4 assms in \<open>auto simp: place_frame_def q_def jobs_def Let_def split: if_splits\<close>)
    next
      case False
      then show thesis
        using refuse 4 assms by (auto simp: place_frame_def q_def jobs_def Let_def)
    qed
  qed
qed

subsection \<open>What the queue promises\<close>

definition queue_ok :: "'c recorder \<Rightarrow> bool" where
  "queue_ok rc \<longleftrightarrow>
     q_frames (rec_queue rc) = frame_count (q_jobs (rec_queue rc)) \<and>
     q_frames (rec_queue rc) \<le> QUEUE_FRAMES + 1"

text \<open>The screen every event happened on, along a sequence of jobs.\<close>

fun screens :: "(nat \<times> 'c) option \<Rightarrow> 'c job list \<Rightarrow> (recording_event \<times> (nat \<times> 'c) option) list" where
  "screens shown [] = []"
| "screens shown (FrameJob t c # jobs) = screens (Some (t, c)) jobs"
| "screens shown (EventJob e # jobs) = (e, shown) # screens shown jobs"
| "screens shown (EndJob t reason # jobs) = screens shown jobs"

fun last_screen :: "(nat \<times> 'c) option \<Rightarrow> 'c job list \<Rightarrow> (nat \<times> 'c) option" where
  "last_screen shown [] = shown"
| "last_screen shown (FrameJob t c # jobs) = last_screen (Some (t, c)) jobs"
| "last_screen shown (EventJob e # jobs) = last_screen shown jobs"
| "last_screen shown (EndJob t reason # jobs) = last_screen shown jobs"

lemma screens_append [simp]:
  "screens shown (js @ ks) = screens shown js @ screens (last_screen shown js) ks"
  by (induction shown js rule: screens.induct) auto

lemma last_screen_append [simp]:
  "last_screen shown (js @ ks) = last_screen (last_screen shown js) ks"
  by (induction shown js rule: last_screen.induct) auto

lemma screens_events [simp]:
  "screens shown (map EventJob es) = map (\<lambda>e. (e, shown)) es"
  "last_screen shown (map EventJob es) = shown"
  by (induction es) auto

text \<open>A frame that another frame follows can go: no event happened on it.\<close>

lemma screens_drop:
  assumes "is_frame v" "ks = [] \<or> is_frame (hd ks)"
  shows "screens shown (v # ks) = screens shown ks"
  using assms by (cases v; cases ks; cases "hd ks") auto

subsection \<open>Runs of the queue\<close>

text \<open>
  The operations, by producer and writer, in any order; what the producer saw accepted is kept
  beside the queue: the last accepted frame, and every accepted event with the frame it happened on.
\<close>

datatype 'c queue_op = PushFrame nat 'c bool | PushFrameWith nat 'c "recording_event list" bool
  | PushEvent recording_event | Finish nat end_reason | PopJob

record 'c queue_run =
  run_rc :: "'c recorder"
  run_taken :: "'c job list"
  run_shown :: "(nat \<times> 'c) option"
  run_log :: "(recording_event \<times> (nat \<times> 'c) option) list"

definition empty_run :: "'c queue_run" where
  "empty_run = \<lparr>run_rc = empty_recorder, run_taken = [], run_shown = None, run_log = []\<rparr>"

fun do_op :: "'c queue_op \<Rightarrow> 'c queue_run \<Rightarrow> 'c queue_run" where
  "do_op (PushFrame t c is_last) r =
     (case push t c is_last (run_rc r) of
        (placed, rc) \<Rightarrow> r\<lparr>run_rc := rc, run_shown := (if placed then Some (t, c) else run_shown r)\<rparr>)"
| "do_op (PushFrameWith t c events is_last) r =
     (case push_frame_with t c events is_last (run_rc r) of
        (placed, rc) \<Rightarrow>
          r\<lparr>run_rc := rc, run_shown := (if placed then Some (t, c) else run_shown r),
            run_log := run_log r @ (if placed then map (\<lambda>e. (e, Some (t, c))) events else [])\<rparr>)"
| "do_op (PushEvent e) r =
     (case push_event e (run_rc r) of
        (pushed, rc) \<Rightarrow>
          r\<lparr>run_rc := rc, run_log := run_log r @ (if pushed then [(e, run_shown r)] else [])\<rparr>)"
| "do_op (Finish t reason) r = r\<lparr>run_rc := finish t reason (run_rc r)\<rparr>"
| "do_op PopJob r =
     (case pop_job (run_rc r) of
        (None, rc) \<Rightarrow> r\<lparr>run_rc := rc\<rparr>
      | (Some job, rc) \<Rightarrow> r\<lparr>run_rc := rc, run_taken := run_taken r @ [job]\<rparr>)"

definition run_jobs :: "'c queue_run \<Rightarrow> 'c job list" where
  "run_jobs r = run_taken r @ q_jobs (rec_queue (run_rc r))"

definition run_ok :: "'c queue_run \<Rightarrow> bool" where
  "run_ok r \<longleftrightarrow>
     queue_ok (run_rc r) \<and> screens None (run_jobs r) = run_log r \<and>
     last_screen None (run_jobs r) = run_shown r"

lemma place_frame_run:
  assumes "place_frame (FrameJob t c) is_last rc = (placed, rc')" "queue_ok rc"
  shows "queue_ok rc' \<and>
    (placed \<longrightarrow>
      screens shown (q_jobs (rec_queue rc')) = screens shown (q_jobs (rec_queue rc)) \<and>
      last_screen shown (q_jobs (rec_queue rc')) = Some (t, c)) \<and> (\<not> placed \<longrightarrow> rc' = rc)"
  using assms(1)
proof (cases rule: place_frame_cases)
  case append
  then show ?thesis using assms(2) by (auto simp: queue_ok_def)
next
  case (drop js v ks)
  then show ?thesis
    using assms(2) screens_drop [OF drop(3,4)]
    by (auto simp: queue_ok_def)
next
  case refuse
  then show ?thesis using assms(2) by simp
qed

lemma do_op_ok:
  assumes "run_ok r"
  shows "run_ok (do_op op r)"
proof (cases op)
  case (PushFrame t c is_last)
  obtain placed rc where p: "push t c is_last (run_rc r) = (placed, rc)"
    by (cases "push t c is_last (run_rc r)")
  show ?thesis
  proof (cases "q_closed (rec_queue (run_rc r))")
    case True
    then show ?thesis using assms p PushFrame by (simp add: push_def run_ok_def run_jobs_def)
  next
    case False
    then have "place_frame (FrameJob t c) is_last (run_rc r) = (placed, rc)"
      using p by (simp add: push_def)
    from place_frame_run [OF this, of "last_screen None (run_taken r)"] assms show ?thesis
      by (cases placed) (simp_all add: PushFrame p run_ok_def run_jobs_def)
  qed
next
  case (PushFrameWith t c events is_last)
  obtain placed rc where p: "push_frame_with t c events is_last (run_rc r) = (placed, rc)"
    by (cases "push_frame_with t c events is_last (run_rc r)")
  show ?thesis
  proof (cases placed)
    case True
    then obtain rc1 where placed: "place_frame (FrameJob t c) is_last (run_rc r) = (True, rc1)"
      and rc: "rc = rc1\<lparr>rec_queue := (rec_queue rc1)\<lparr>q_jobs := q_jobs (rec_queue rc1) @ map EventJob events\<rparr>\<rparr>"
      using p by (auto simp: push_frame_with_def split: if_splits prod.splits bool.splits)
    from place_frame_run [OF placed, of "last_screen None (run_taken r)"] assms show ?thesis
      using True by (simp add: PushFrameWith p rc run_ok_def run_jobs_def queue_ok_def)
  next
    case False
    then have "rc = run_rc r"
      using p place_frame_run [of t c is_last "run_rc r"] assms
      by (auto simp: push_frame_with_def run_ok_def split: if_splits prod.splits bool.splits)
    then show ?thesis
      using assms False by (simp add: PushFrameWith p run_ok_def run_jobs_def)
  qed
next
  case (PushEvent e)
  then show ?thesis
    using assms by (auto simp: push_event_def run_ok_def run_jobs_def queue_ok_def)
next
  case (Finish t reason)
  then show ?thesis
    using assms by (auto simp: finish_def run_ok_def run_jobs_def queue_ok_def)
next
  case PopJob
  then show ?thesis
    using assms
    by (cases "q_jobs (rec_queue (run_rc r))")
      (auto simp: pop_job_def run_ok_def run_jobs_def queue_ok_def)
qed

lemma ops_ok: "run_ok r \<Longrightarrow> run_ok (fold do_op ops r)"
  by (induction ops arbitrary: r) (auto simp: do_op_ok)

lemma empty_run_ok: "run_ok empty_run"
  by (simp add: run_ok_def empty_run_def run_jobs_def queue_ok_def empty_recorder_def)

end
