(* ===== verification/RecordingReader.thy ===== *)
theory RecordingReader
  imports FrameCodec
begin

text \<open>
  Reading a recording back (\<^verbatim>\<open>src/recording/read.rs\<close>): the reader that takes one bounded line at a
  time, and the replay that keeps the current frame and a bounded store of images.  A file is its
  bytes.  JSON, PNG and base64 are libraries: parsing a line, the two readings of a header, decoding
  a picture are parameters.  Errors of the operating system while reading are not modelled.
\<close>

subsection \<open>Limits\<close>

definition MAX_HEADER_LINE :: nat where "MAX_HEADER_LINE = 1024 * 1024"
definition MAX_EVENT_LINE :: nat where "MAX_EVENT_LINE = 64 * 1024 * 1024"
definition MAX_FRAME_CELLS :: nat where "MAX_FRAME_CELLS = 2 ^ 20"
definition MAX_IMAGE_BYTES :: nat where "MAX_IMAGE_BYTES = 64 * 1024 * 1024"
definition MAX_RETAINED_IMAGE_BYTES :: nat where "MAX_RETAINED_IMAGE_BYTES = 256 * 1024 * 1024"
definition MAX_DECODED_FRAME_BYTES :: nat where "MAX_DECODED_FRAME_BYTES = 256 * 1024 * 1024"
definition MAX_IMAGE_ID_LEN :: nat where "MAX_IMAGE_ID_LEN = 64"
definition IMAGE_ENTRY_COST :: nat where "IMAGE_ENTRY_COST = 256"
definition RECORDING_VERSION :: nat where "RECORDING_VERSION = 1"
definition SPAN_FRAME_VERSION :: nat where "SPAN_FRAME_VERSION = 2"

subsection \<open>Lines\<close>

abbreviation NEWLINE :: char where "NEWLINE \<equiv> CHR 0x0A"

definition ends_line :: "string \<Rightarrow> bool" where
  "ends_line line \<longleftrightarrow> line \<noteq> [] \<and> last line = NEWLINE"

text \<open>
  \<^verbatim>\<open>reader.take(max + 1).read_until(b'\n')\<close>; then whether the line is too long, the bytes read, and the
  bytes left.
\<close>

definition read_until :: "nat \<Rightarrow> string \<Rightarrow> string" where
  "read_until limit input =
     (case position_of (\<lambda>c. c = NEWLINE) (take limit input) of
        Some i \<Rightarrow> take (Suc i) (take limit input) | None \<Rightarrow> take limit input)"

definition read_line :: "nat \<Rightarrow> string \<Rightarrow> bool \<times> string \<times> string" where
  "read_line limit input =
     (let line = read_until (limit + 1) input
      in (limit < length line \<and> \<not> ends_line line, line, drop (length line) input))"

definition is_ascii_whitespace :: "char \<Rightarrow> bool" where
  "is_ascii_whitespace c \<longleftrightarrow> c \<in> {CHR 0x20, CHR 0x09, CHR 0x0A, CHR 0x0C, CHR 0x0D}"

subsection \<open>The reader\<close>

datatype recording_target = PaneTarget string nat | UiTarget "string option" | UnknownTarget

record recording_header =
  hd_format :: string
  hd_version :: nat
  hd_rozi :: string
  hd_target :: recording_target
  hd_width :: nat
  hd_height :: nat
  hd_started_at :: nat
  hd_max_fps :: nat
  hd_keyframe_interval :: nat
  hd_spans_version :: nat
  hd_palette :: span_palette
  hd_compression :: "string option"

record recording_reader =
  rd_input :: string
  rd_header :: recording_header
  rd_line :: nat
  rd_truncated :: bool

text \<open>
  \<open>format_of\<close> is the JSON value of a line read for its \<^verbatim>\<open>format\<close> string (\<open>None\<close> when it is not JSON),
  \<open>header_of\<close> the header in it.
\<close>

definition new_reader ::
  "(string \<Rightarrow> string option option) \<Rightarrow> (string \<Rightarrow> recording_header option) \<Rightarrow> string
   \<Rightarrow> recording_error + recording_reader" where
  "new_reader format_of header_of input =
     (case read_line MAX_HEADER_LINE input of
        (too_long, first, rest) \<Rightarrow>
          if too_long then Inl HeaderTooLong
          else if \<not> ends_line first then Inl HeaderIncomplete
          else (case format_of first of
                  None \<Rightarrow> Inl HeaderNotJson
                | Some format \<Rightarrow>
                    if format \<noteq> Some ''rozi-recording'' then Inl NotARecording
                    else (case header_of first of
                            None \<Rightarrow> Inl InvalidHeader
                          | Some header \<Rightarrow>
                              if hd_version header > RECORDING_VERSION
                              then Inl (NewerVersion (hd_version header))
                              else if hd_spans_version header > SPAN_FRAME_VERSION
                              then Inl (NewerSpans (hd_spans_version header))
                              else (case hd_compression header of
                                      Some compression \<Rightarrow> Inl (Compressed compression)
                                    | None \<Rightarrow>
                                        if hd_width header * hd_height header > MAX_FRAME_CELLS
                                        then Inl (RecordingTooLarge (hd_width header) (hd_height header))
                                        else Inr \<lparr>rd_input = rest, rd_header = header, rd_line = 1,
                                                  rd_truncated = False\<rparr>))))"

lemma read_until_take: "\<exists>n. read_until limit input = take n input"
  by (cases "position_of (\<lambda>c. c = NEWLINE) (take limit input)")
    (simp_all only: read_until_def option.case take_take, blast+)

lemma read_line_split:
  assumes "read_line limit input = (too_long, line, rest)"
  shows "line @ rest = input"
proof -
  obtain n where n: "read_until (Suc limit) input = take n input"
    using read_until_take by blast
  have "line = take n input" "rest = drop (length (take n input)) input"
    using assms by (auto simp: read_line_def Let_def n)
  then show ?thesis
    by (cases "n \<le> length input") auto
qed

lemma read_line_shorter:
  assumes "read_line limit input = (too_long, line, rest)" "line \<noteq> []"
  shows "length rest < length input"
  using read_line_split [OF assms(1)] assms(2) by auto

function next_event ::
  "(string \<Rightarrow> recording_event option) \<Rightarrow> recording_reader
   \<Rightarrow> (recording_error + recording_event option) \<times> recording_reader" where
  "next_event parse rd =
     (case read_line MAX_EVENT_LINE (rd_input rd) of
        (too_long, line, rest) \<Rightarrow>
          if too_long then (Inl (LineTooLong (rd_line rd + 1)), rd\<lparr>rd_input := rest\<rparr>)
          else if line = [] then (Inr None, rd)
          else if \<not> ends_line line
          then (Inr None, rd\<lparr>rd_input := rest, rd_line := rd_line rd + 1, rd_truncated := True\<rparr>)
          else if list_all is_ascii_whitespace line
          then next_event parse (rd\<lparr>rd_input := rest, rd_line := rd_line rd + 1\<rparr>)
          else (case parse line of
                  Some event \<Rightarrow>
                    (Inr (Some event), rd\<lparr>rd_input := rest, rd_line := rd_line rd + 1\<rparr>)
                | None \<Rightarrow>
                    (Inl (InvalidLine (rd_line rd + 1)),
                     rd\<lparr>rd_input := rest, rd_line := rd_line rd + 1\<rparr>)))"
  by pat_completeness auto
termination
  by (relation "measure (\<lambda>(parse, rd). length (rd_input rd))")
    (auto dest: read_line_shorter [OF sym])

declare next_event.simps [simp del]

lemma next_event_shorter:
  "next_event parse rd = (Inr (Some event), rd') \<Longrightarrow> length (rd_input rd') < length (rd_input rd)"
proof (induction parse rd rule: next_event.induct)
  case (1 parse rd)
  obtain too_long line rest where line: "read_line MAX_EVENT_LINE (rd_input rd) = (too_long, line, rest)"
    by (cases "read_line MAX_EVENT_LINE (rd_input rd)") auto
  show ?case
    using 1(2) 1(1) [OF line [symmetric] refl] read_line_shorter [OF line]
    by (subst (asm) next_event.simps)
      (fastforce simp: line split: if_splits option.splits)
qed

subsection \<open>The replay\<close>

record decoded_image =
  di_width :: nat
  di_height :: nat
  di_rgba :: string

datatype replay_step = StepFrame nat | StepMark nat string | StepMeta nat recording_meta
  | StepEnd recording_end

record replay =
  rp_reader :: recording_reader
  rp_frame :: "span_frame option"
  rp_images :: "string \<rightharpoonup> recorded_image"
  rp_order :: "string list"
  rp_bytes :: nat
  rp_budget :: nat
  rp_decoded :: "string \<rightharpoonup> decoded_image"
  rp_decoded_budget :: nat
  rp_last_t :: nat

definition new_replay :: "recording_reader \<Rightarrow> replay" where
  "new_replay reader =
     \<lparr>rp_reader = reader, rp_frame = None, rp_images = Map.empty, rp_order = [], rp_bytes = 0,
      rp_budget = MAX_RETAINED_IMAGE_BYTES, rp_decoded = Map.empty,
      rp_decoded_budget = MAX_DECODED_FRAME_BYTES, rp_last_t = 0\<rparr>"

definition check_image :: "span_image \<Rightarrow> recording_error option" where
  "check_image img =
     (let count = image_width img * image_height img
      in if count > MAX_FRAME_CELLS then Some (ImageTooLarge (image_width img) (image_height img))
         else if image_underlying_cells img \<noteq> [] \<and> length (image_underlying_cells img) \<noteq> count
         then Some CellsMismatch
         else None)"

fun check_images :: "span_image list \<Rightarrow> recording_error option" where
  "check_images [] = None"
| "check_images (img # images) =
     (case check_image img of Some error \<Rightarrow> Some error | None \<Rightarrow> check_images images)"

definition check_frame :: "span_frame \<Rightarrow> recording_error option" where
  "check_frame frame =
     (if sf_width frame * sf_height frame > MAX_FRAME_CELLS
      then Some (FrameTooLarge (sf_width frame) (sf_height frame))
      else check_images (sf_images frame))"

definition retained_cost :: "recorded_image \<Rightarrow> nat" where
  "retained_cost img = length (ri_png img) + 2 * length (ri_id img) + IMAGE_ENTRY_COST"

text \<open>\<^verbatim>\<open>while self.image_bytes > self.image_budget && let Some(oldest) = pop_front()\<close>.\<close>

fun forget_oldest :: "string list \<Rightarrow> replay \<Rightarrow> replay" where
  "forget_oldest [] rp = rp\<lparr>rp_order := []\<rparr>"
| "forget_oldest (oldest # order) rp =
     (if rp_bytes rp > rp_budget rp
      then let rp = (case rp_images rp oldest of
                       Some forgotten \<Rightarrow> rp\<lparr>rp_images := (rp_images rp)(oldest := None),
                                            rp_bytes := rp_bytes rp - retained_cost forgotten\<rparr>
                     | None \<Rightarrow> rp)
           in forget_oldest order (rp\<lparr>rp_decoded := (rp_decoded rp)(oldest := None)\<rparr>)
      else rp\<lparr>rp_order := oldest # order\<rparr>)"

definition store :: "recorded_image \<Rightarrow> replay \<Rightarrow> recording_error option \<times> replay" where
  "store img rp =
     (if length (ri_id img) > MAX_IMAGE_ID_LEN
      then (Some (ImageIdTooLong (length (ri_id img))), rp)
      else if ri_pixel_width img * ri_pixel_height img * 4 > MAX_IMAGE_BYTES
      then (Some (ImagePixelsTooLarge (ri_pixel_width img) (ri_pixel_height img)), rp)
      else if rp_images rp (ri_id img) \<noteq> None then (None, rp)
      else (None, forget_oldest (rp_order rp @ [ri_id img])
              (rp\<lparr>rp_bytes := rp_bytes rp + retained_cost img,
                  rp_order := rp_order rp @ [ri_id img],
                  rp_images := (rp_images rp)(ri_id img \<mapsto> img)\<rparr>)))"

text \<open>
  One event of the loop of \<^verbatim>\<open>step\<close>: what it returns, or \<open>None\<close> when the loop goes on.
\<close>

definition replay_event ::
  "unicode \<Rightarrow> recording_event \<Rightarrow> replay
   \<Rightarrow> (recording_error + replay_step option) option \<times> replay" where
  "replay_event u event rp =
     (let rp = (case event_time event of
                  Some t \<Rightarrow> rp\<lparr>rp_last_t := max (rp_last_t rp) t\<rparr> | None \<Rightarrow> rp)
      in case event of
           Keyframe t frame \<Rightarrow>
             (case check_frame frame of
                Some error \<Rightarrow> (Some (Inl error), rp)
              | None \<Rightarrow> (Some (Inr (Some (StepFrame t))), rp\<lparr>rp_frame := Some frame\<rparr>))
         | Delta delta \<Rightarrow>
             (case rp_frame rp of
                None \<Rightarrow> (Some (Inl DeltaBeforeKeyframe), rp)
              | Some frame \<Rightarrow>
                  (case (case fd_images delta of Some images \<Rightarrow> check_images images | None \<Rightarrow> None) of
                     Some error \<Rightarrow> (Some (Inl error), rp)
                   | None \<Rightarrow>
                       (case apply_delta u frame delta of
                          (frame, Some error) \<Rightarrow> (Some (Inl error), rp\<lparr>rp_frame := Some frame\<rparr>)
                        | (frame, None) \<Rightarrow>
                            (Some (Inr (Some (StepFrame (fd_t delta)))), rp\<lparr>rp_frame := Some frame\<rparr>))))
         | ImageEvent img \<Rightarrow>
             (case store img rp of
                (Some error, rp) \<Rightarrow> (Some (Inl error), rp)
              | (None, rp) \<Rightarrow> (None, rp))
         | Mark t label \<Rightarrow> (Some (Inr (Some (StepMark t label))), rp)
         | Meta t meta \<Rightarrow> (Some (Inr (Some (StepMeta t meta))), rp)
         | EndEvent end' \<Rightarrow> (Some (Inr (Some (StepEnd end'))), rp)
         | Resize t width height \<Rightarrow> (None, rp)
         | UnknownEvent \<Rightarrow> (None, rp))"

lemma forget_oldest_reader [simp]: "rp_reader (forget_oldest order rp) = rp_reader rp"
  by (induction order rp rule: forget_oldest.induct) (auto simp: Let_def split: option.splits)

lemma forget_oldest_frame [simp]: "rp_frame (forget_oldest order rp) = rp_frame rp"
  by (induction order rp rule: forget_oldest.induct) (auto simp: Let_def split: option.splits)

lemma store_reader [simp]:
  "store img rp = (error, rp') \<Longrightarrow> rp_reader rp' = rp_reader rp \<and> rp_frame rp' = rp_frame rp"
  by (auto simp: store_def split: if_splits)

lemma replay_event_reader:
  "replay_event u event rp = (res, rp') \<Longrightarrow> rp_reader rp' = rp_reader rp"
  by (cases event) (auto simp: replay_event_def Let_def split: option.splits prod.splits dest: store_reader)

function step ::
  "unicode \<Rightarrow> (string \<Rightarrow> recording_event option) \<Rightarrow> replay
   \<Rightarrow> (recording_error + replay_step option) \<times> replay" where
  "step u parse rp =
     (case next_event parse (rp_reader rp) of
        (Inl error, rd) \<Rightarrow> (Inl error, rp\<lparr>rp_reader := rd\<rparr>)
      | (Inr None, rd) \<Rightarrow> (Inr None, rp\<lparr>rp_reader := rd\<rparr>)
      | (Inr (Some event), rd) \<Rightarrow>
          (case replay_event u event (rp\<lparr>rp_reader := rd\<rparr>) of
             (Some res, rp) \<Rightarrow> (res, rp)
           | (None, rp) \<Rightarrow> step u parse rp))"
  by pat_completeness auto
termination
  by (relation "measure (\<lambda>(u, parse, rp). length (rd_input (rp_reader rp)))")
    (auto dest!: next_event_shorter [OF sym] replay_event_reader [OF sym])

declare step.simps [simp del]

end
