(* ===== verification/RecordingRoundtrip.thy ===== *)
theory RecordingRoundtrip
  imports RecordingReader
begin

text \<open>
  From the recorder to the player: what a file holds line by line is read back event by event, also
  when the file was cut short, and the frames a replay shows are the frames the encoder was given.
\<close>

subsection \<open>Lines and events\<close>

definition event_line :: "(recording_event \<Rightarrow> string) \<Rightarrow> recording_event \<Rightarrow> string" where
  "event_line serialize event = serialize event @ [NEWLINE]"

text \<open>
  What the recording relies on about JSON for an event: its text has no line break, is not blank,
  fits a line, and parses back to the event.
\<close>

definition json_ok ::
  "(recording_event \<Rightarrow> string) \<Rightarrow> (string \<Rightarrow> recording_event option) \<Rightarrow> recording_event \<Rightarrow> bool" where
  "json_ok serialize parse event \<longleftrightarrow>
     NEWLINE \<notin> set (serialize event) \<and>
     \<not> list_all is_ascii_whitespace (serialize event) \<and>
     length (serialize event) \<le> MAX_EVENT_LINE \<and>
     parse (event_line serialize event) = Some event"

lemma position_of_append_first:
  "\<forall>x \<in> set xs. \<not> p x \<Longrightarrow> p y \<Longrightarrow> position_of p (xs @ y # ys) = Some (length xs)"
  by (induction xs) auto

lemma read_until_line:
  assumes "NEWLINE \<notin> set s" "length s < limit"
  shows "read_until limit (s @ NEWLINE # rest) = s @ [NEWLINE]"
proof -
  have "take limit (s @ NEWLINE # rest) = s @ NEWLINE # take (limit - Suc (length s)) rest"
    using assms(2) by (simp add: take_Cons' Suc_diff_Suc)
  moreover have "position_of (\<lambda>c. c = NEWLINE) (s @ NEWLINE # take (limit - Suc (length s)) rest)
      = Some (length s)"
    using assms(1) by (intro position_of_append_first) auto
  ultimately show ?thesis
    by (simp add: read_until_def)
qed

lemma read_line_line:
  assumes "NEWLINE \<notin> set s" "length s \<le> limit"
  shows "read_line limit (s @ NEWLINE # rest) = (False, s @ [NEWLINE], rest)"
  using read_until_line [of s "limit + 1" rest] assms
  by (simp add: read_line_def Let_def ends_line_def)

lemma read_line_partial:
  assumes "NEWLINE \<notin> set s" "length s \<le> limit"
  shows "read_line limit s = (False, s, [])"
proof -
  have "position_of (\<lambda>c. c = NEWLINE) s = None"
    using assms(1) by auto
  moreover have "take (limit + 1) s = s"
    using assms(2) by simp
  ultimately have "read_until (limit + 1) s = s"
    unfolding read_until_def by (simp only: option.case)
  then show ?thesis
    using assms(2) by (simp add: read_line_def Let_def)
qed

lemma next_event_line:
  assumes "json_ok serialize parse event" "rd_input rd = event_line serialize event @ rest"
  shows "next_event parse rd
    = (Inr (Some event), rd\<lparr>rd_input := rest, rd_line := rd_line rd + 1\<rparr>)"
proof -
  have "read_line MAX_EVENT_LINE (rd_input rd) = (False, event_line serialize event, rest)"
    using assms read_line_line [of "serialize event" MAX_EVENT_LINE rest]
    by (simp add: json_ok_def event_line_def)
  moreover have "ends_line (event_line serialize event)" "event_line serialize event \<noteq> []"
    "\<not> list_all is_ascii_whitespace (event_line serialize event)"
    "parse (event_line serialize event) = Some event"
    using assms(1) by (auto simp: json_ok_def event_line_def ends_line_def)
  ultimately show ?thesis
    by (subst next_event.simps) simp
qed

lemma next_event_end:
  assumes "rd_input rd = s" "NEWLINE \<notin> set s" "length s \<le> MAX_EVENT_LINE"
  shows "next_event parse rd =
    (Inr None, if s = [] then rd
               else rd\<lparr>rd_input := [], rd_line := rd_line rd + 1, rd_truncated := True\<rparr>)"
proof -
  have "read_line MAX_EVENT_LINE (rd_input rd) = (False, s, [])"
    using read_line_partial assms by simp
  moreover have "\<not> ends_line s"
    using assms(2) last_in_set by (metis ends_line_def)
  ultimately show ?thesis
    by (subst next_event.simps) (simp split: if_splits)
qed

subsection \<open>Reading a file to its end\<close>

text \<open>
  \<^verbatim>\<open>while let Some(event) = reader.next_event()?\<close>: the events, the error that ended the loop if one
  did, and the reader it left.
\<close>

function read_all ::
  "(string \<Rightarrow> recording_event option) \<Rightarrow> recording_reader
   \<Rightarrow> recording_event list \<times> recording_error option \<times> recording_reader" where
  "read_all parse rd =
     (case next_event parse rd of
        (Inl error, rd) \<Rightarrow> ([], Some error, rd)
      | (Inr None, rd) \<Rightarrow> ([], None, rd)
      | (Inr (Some event), rd) \<Rightarrow>
          (case read_all parse rd of (events, error, rd) \<Rightarrow> (event # events, error, rd)))"
  by pat_completeness auto
termination
  by (relation "measure (\<lambda>(parse, rd). length (rd_input rd))") (auto dest!: next_event_shorter [OF sym])

declare read_all.simps [simp del]

definition lines_of :: "(recording_event \<Rightarrow> string) \<Rightarrow> recording_event list \<Rightarrow> string" where
  "lines_of serialize events = concat (map (event_line serialize) events)"

lemma lines_of_simps [simp]:
  "lines_of serialize [] = []"
  "lines_of serialize (e # es) = event_line serialize e @ lines_of serialize es"
  by (simp_all add: lines_of_def)

lemma read_all_lines:
  assumes "\<forall>e \<in> set es. json_ok serialize parse e" "rd_input rd = lines_of serialize es @ s"
    and "NEWLINE \<notin> set s" "length s \<le> MAX_EVENT_LINE"
  shows "\<exists>rd'. read_all parse rd = (es, None, rd') \<and> rd_input rd' = [] \<and>
    rd_truncated rd' = (rd_truncated rd \<or> s \<noteq> [])"
  using assms(1,2)
proof (induction es arbitrary: rd)
  case Nil
  then show ?case
    using next_event_end [of rd s parse] assms(3,4) by (subst read_all.simps) auto
next
  case (Cons e es)
  define rd1 where "rd1 = rd\<lparr>rd_input := lines_of serialize es @ s, rd_line := rd_line rd + 1\<rparr>"
  have "next_event parse rd = (Inr (Some e), rd1)"
    using next_event_line [of serialize parse e rd] Cons.prems by (simp add: rd1_def)
  moreover obtain rd' where "read_all parse rd1 = (es, None, rd')" "rd_input rd' = []"
    "rd_truncated rd' = (rd_truncated rd1 \<or> s \<noteq> [])"
    using Cons.IH [of rd1] Cons.prems(1) by (auto simp: rd1_def)
  ultimately show ?case
    by (subst read_all.simps) (simp add: rd1_def)
qed

text \<open>Where a cut through the lines falls: after some whole lines, inside the next.\<close>

lemma cut_lines:
  assumes "\<forall>e \<in> set es. NEWLINE \<notin> set (serialize e)"
  shows "\<exists>done rest s. es = done @ rest \<and> take n (lines_of serialize es) = lines_of serialize done @ s \<and>
    NEWLINE \<notin> set s \<and> (rest = [] \<longrightarrow> s = []) \<and>
    (rest \<noteq> [] \<longrightarrow> length s \<le> length (serialize (hd rest)))"
  using assms
proof (induction es arbitrary: n)
  case Nil
  then show ?case by simp
next
  case (Cons e es)
  show ?case
  proof (cases "length (event_line serialize e) \<le> n")
    case True
    obtain done' rest s where IH: "es = done' @ rest"
      "take (n - length (event_line serialize e)) (lines_of serialize es) = lines_of serialize done' @ s"
      "NEWLINE \<notin> set s" "rest = [] \<longrightarrow> s = []" "rest \<noteq> [] \<longrightarrow> length s \<le> length (serialize (hd rest))"
      using Cons.IH [of "n - length (event_line serialize e)"] Cons.prems by auto
    show ?thesis
      by (intro exI [of _ "e # done'"] exI [of _ rest] exI [of _ s]) (use IH True in auto)
  next
    case False
    then have "take n (lines_of serialize (e # es)) = take n (serialize e)"
      by (simp add: event_line_def)
    then show ?thesis
      using Cons.prems set_take_subset [of n "serialize e"]
      by (intro exI [of _ "[]"] exI [of _ "e # es"] exI [of _ "take n (serialize e)"]) auto
  qed
qed

text \<open>A file cut short anywhere after its header still reads, up to its last complete line.\<close>

lemma read_cut:
  assumes "\<forall>e \<in> set events. json_ok serialize parse e"
  shows "\<exists>complete rest s rd'. events = complete @ rest \<and>
    take n (lines_of serialize events) = lines_of serialize complete @ s \<and>
    (rest \<noteq> [] \<longrightarrow> length s < length (event_line serialize (hd rest))) \<and>
    read_all parse \<lparr>rd_input = take n (lines_of serialize events), rd_header = header, rd_line = line,
                    rd_truncated = False\<rparr> = (complete, None, rd') \<and>
    rd_truncated rd' = (s \<noteq> [])"
proof -
  obtain complete rest s where cut: "events = complete @ rest"
    "take n (lines_of serialize events) = lines_of serialize complete @ s" "NEWLINE \<notin> set s"
    "rest = [] \<longrightarrow> s = []" "rest \<noteq> [] \<longrightarrow> length s \<le> length (serialize (hd rest))"
    using cut_lines [of events serialize n] assms by (auto simp: json_ok_def)
  have short: "length s \<le> MAX_EVENT_LINE"
  proof (cases rest)
    case (Cons e es)
    then have "length (serialize e) \<le> MAX_EVENT_LINE"
      using assms cut(1) by (simp add: json_ok_def)
    then show ?thesis using cut(5) Cons by simp
  qed (use cut(4) in simp)
  define rd where "rd = \<lparr>rd_input = take n (lines_of serialize events), rd_header = header,
    rd_line = line, rd_truncated = False\<rparr>"
  obtain rd' where "read_all parse rd = (complete, None, rd')" "rd_truncated rd' = (s \<noteq> [])"
    using read_all_lines [of complete serialize parse rd s] assms cut(1-3) short by (auto simp: rd_def)
  then show ?thesis
    using cut unfolding rd_def
    by (intro exI [of _ complete] exI [of _ rest] exI [of _ s] exI [of _ rd']) (auto simp: event_line_def)
qed

subsection \<open>Playing a file to its end\<close>

lemma step_shorter:
  "step u parse rp = (Inr (Some st), rp')
   \<Longrightarrow> length (rd_input (rp_reader rp')) < length (rd_input (rp_reader rp))"
proof (induction u parse rp rule: step.induct)
  case (1 u parse rp)
  obtain res rd where read: "next_event parse (rp_reader rp) = (res, rd)"
    by (cases "next_event parse (rp_reader rp)") auto
  then obtain event where event: "next_event parse (rp_reader rp) = (Inr (Some event), rd)"
    using 1(2) by (subst (asm) step.simps) (auto split: sum.splits option.splits)
  obtain out rp1 where handled: "replay_event u event (rp\<lparr>rp_reader := rd\<rparr>) = (out, rp1)"
    by (cases "replay_event u event (rp\<lparr>rp_reader := rd\<rparr>)") auto
  have reader: "rp_reader rp1 = rd"
    using replay_event_reader [OF handled] by simp
  show ?case
  proof (cases out)
    case None
    have "step u parse rp1 = (Inr (Some st), rp')"
      using 1(2) event handled None by (subst (asm) step.simps) simp
    then show ?thesis
      using 1(1) [OF event [symmetric] refl refl handled [symmetric, unfolded None] refl]
        next_event_shorter [OF event] reader
      by simp
  next
    case (Some res)
    have "rp' = rp1"
      using 1(2) event handled Some by (subst (asm) step.simps) simp
    then show ?thesis
      using next_event_shorter [OF event] reader by simp
  qed
qed

text \<open>
  \<^verbatim>\<open>while let Some(step) = replay.step()?\<close>, as playback and the exports drive a replay: every step with
  the frame the replay holds after it, and the error that ended the loop if one did.
\<close>

function play ::
  "unicode \<Rightarrow> (string \<Rightarrow> recording_event option) \<Rightarrow> replay
   \<Rightarrow> (replay_step \<times> span_frame option) list \<times> recording_error option" where
  "play u parse rp =
     (case step u parse rp of
        (Inl error, rp) \<Rightarrow> ([], Some error)
      | (Inr None, rp) \<Rightarrow> ([], None)
      | (Inr (Some st), rp) \<Rightarrow>
          (case play u parse rp of (steps, error) \<Rightarrow> ((st, rp_frame rp) # steps, error)))"
  by pat_completeness auto
termination
  by (relation "measure (\<lambda>(u, parse, rp). length (rd_input (rp_reader rp)))")
    (auto dest!: step_shorter [OF sym])

declare play.simps [simp del]

lemma play_return:
  assumes "next_event parse (rp_reader rp) = (Inr (Some event), rd)"
    and "replay_event u event (rp\<lparr>rp_reader := rd\<rparr>) = (Some (Inr (Some st)), rp')"
  shows "play u parse rp = ((st, rp_frame rp') # fst (play u parse rp'), snd (play u parse rp'))"
proof -
  have "step u parse rp = (Inr (Some st), rp')"
    using assms by (subst step.simps) simp
  then show ?thesis
    by (subst play.simps) (simp add: split_beta)
qed

lemma play_go_on:
  assumes "next_event parse (rp_reader rp) = (Inr (Some event), rd)"
    and "replay_event u event (rp\<lparr>rp_reader := rd\<rparr>) = (None, rp')"
  shows "play u parse rp = play u parse rp'"
proof -
  have "step u parse rp = step u parse rp'"
    using assms by (subst step.simps) simp
  then show ?thesis
    by (subst (1 2) play.simps) simp
qed

subsection \<open>Frames in, frames out\<close>

text \<open>
  What a recorder is given: frames with their times, and the events it writes between them.
\<close>

type_synonym recorded = "(nat \<times> span_frame) + recording_event"

fun record_events :: "unicode \<Rightarrow> recorded list \<Rightarrow> frame_encoder \<Rightarrow> recording_event list" where
  "record_events u [] enc = []"
| "record_events u (Inl (t, frame) # items) enc =
     (case encode u t frame enc of (events, enc) \<Rightarrow> events @ record_events u items enc)"
| "record_events u (Inr event # items) enc = event # record_events u items enc"

text \<open>
  What a player should show: each frame that differs from the one before it, at its time, and each
  mark and meta event on the frame it happened on.
\<close>

fun expected :: "recorded list \<Rightarrow> span_frame option \<Rightarrow> (replay_step \<times> span_frame option) list" where
  "expected [] shown = []"
| "expected (Inl (t, frame) # items) shown =
     (if shown = Some frame then expected items shown
      else (StepFrame t, Some frame) # expected items (Some frame))"
| "expected (Inr (Mark t label) # items) shown = (StepMark t label, shown) # expected items shown"
| "expected (Inr (Meta t meta) # items) shown = (StepMeta t meta, shown) # expected items shown"
| "expected (Inr (EndEvent end') # items) shown = (StepEnd end', shown) # expected items shown"
| "expected (Inr _ # items) shown = expected items shown"

definition storable :: "recorded_image \<Rightarrow> bool" where
  "storable img \<longleftrightarrow>
     length (ri_id img) \<le> MAX_IMAGE_ID_LEN \<and> ri_pixel_width img * ri_pixel_height img * 4 \<le> MAX_IMAGE_BYTES"

fun recorded_ok :: "unicode \<Rightarrow> recorded \<Rightarrow> bool" where
  "recorded_ok u (Inl (t, frame)) \<longleftrightarrow> frame_ok u frame \<and> check_frame frame = None"
| "recorded_ok u (Inr (ImageEvent img)) \<longleftrightarrow> storable img"
| "recorded_ok u (Inr (Keyframe t frame)) \<longleftrightarrow> False"
| "recorded_ok u (Inr (Delta delta)) \<longleftrightarrow> False"
| "recorded_ok u (Inr _) \<longleftrightarrow> True"

lemma encode_cases:
  obtains (same) "enc_previous enc = Some frame" "encode u t frame enc = ([], enc)"
  | (key) pre enc' where "encode u t frame enc = (pre @ [Keyframe t frame], enc')"
      "enc_previous enc' = Some frame" "pre = [] \<or> pre = [Resize t (sf_width frame) (sf_height frame)]"
      "enc_previous enc \<noteq> Some frame"
  | (delta) previous enc' where "encode u t frame enc = ([Delta (frame_diff u previous frame t)], enc')"
      "enc_previous enc = Some previous" "enc_previous enc' = Some frame" "previous \<noteq> frame"
      "sf_width previous = sf_width frame" "sf_height previous = sf_height frame"
proof (cases "enc_previous enc")
  case None
  show thesis
    by (rule key [of "[]"]) (auto simp: encode_def keyframe_def None)
next
  case (Some previous)
  consider "previous = frame"
    | "previous \<noteq> frame" "(sf_width previous, sf_height previous) \<noteq> (sf_width frame, sf_height frame)"
    | "previous \<noteq> frame" "(sf_width previous, sf_height previous) = (sf_width frame, sf_height frame)"
      "t - enc_last_keyframe enc \<ge> enc_interval enc \<or> enc_deltas enc \<ge> MAX_DELTAS_PER_KEYFRAME"
    | "previous \<noteq> frame" "(sf_width previous, sf_height previous) = (sf_width frame, sf_height frame)"
      "\<not> (t - enc_last_keyframe enc \<ge> enc_interval enc \<or> enc_deltas enc \<ge> MAX_DELTAS_PER_KEYFRAME)"
    by blast
  then show thesis
  proof cases
    case 1
    then show thesis by (intro same) (simp_all add: encode_def Some)
  next
    case 2
    then show thesis
      by (intro key [of "[Resize t (sf_width frame) (sf_height frame)]"])
        (auto simp: encode_def keyframe_def Some)
  next
    case 3
    then show thesis by (intro key [of "[]"]) (auto simp: encode_def keyframe_def Some)
  next
    case 4
    then show thesis by (intro delta [of previous]) (auto simp: encode_def Some)
  qed
qed

lemma replay_delta:
  assumes u: "unicode_ok u" and ok: "frame_ok u previous" "frame_ok u frame" "check_frame frame = None"
    and same: "sf_width previous = sf_width frame" "sf_height previous = sf_height frame"
    and rp: "rp_frame rp = Some previous"
  shows "\<exists>rp'. replay_event u (Delta (frame_diff u previous frame t)) rp
      = (Some (Inr (Some (StepFrame t))), rp') \<and> rp_frame rp' = Some frame \<and> rp_reader rp' = rp_reader rp"
proof -
  have "check_images (sf_images frame) = None"
    using ok(3) by (simp add: check_frame_def split: if_splits)
  then have "(case fd_images (frame_diff u previous frame t) of Some imgs \<Rightarrow> check_images imgs | None \<Rightarrow> None)
      = None"
    by (simp add: frame_diff_def changed_to_def)
  moreover have "fd_t (frame_diff u previous frame t) = t"
    by (simp add: frame_diff_def)
  ultimately show ?thesis
    using delta_reproduces [OF u ok(1,2) same, of t] rp by (simp add: replay_event_def)
qed

lemma replay_keyframe:
  assumes "check_frame frame = None"
  shows "\<exists>rp'. replay_event u (Keyframe t frame) rp = (Some (Inr (Some (StepFrame t))), rp') \<and>
    rp_frame rp' = Some frame \<and> rp_reader rp' = rp_reader rp"
  using assms by (simp add: replay_event_def)

lemma play_line_return:
  assumes json: "json_ok serialize parse e" "rd_input (rp_reader rp) = event_line serialize e @ rest"
    and handled: "\<And>rd. \<exists>rp'. replay_event u e (rp\<lparr>rp_reader := rd\<rparr>) = (Some (Inr (Some st)), rp') \<and>
      rp_frame rp' = shown \<and> rp_reader rp' = rd"
  shows "\<exists>rp'. rp_frame rp' = shown \<and> rd_input (rp_reader rp') = rest \<and>
    play u parse rp = ((st, shown) # fst (play u parse rp'), snd (play u parse rp'))"
proof -
  define rd where "rd = (rp_reader rp)\<lparr>rd_input := rest, rd_line := rd_line (rp_reader rp) + 1\<rparr>"
  have read: "next_event parse (rp_reader rp) = (Inr (Some e), rd)"
    using next_event_line [OF json] by (simp add: rd_def)
  obtain rp' where rp': "replay_event u e (rp\<lparr>rp_reader := rd\<rparr>) = (Some (Inr (Some st)), rp')"
    "rp_frame rp' = shown" "rp_reader rp' = rd"
    using handled by blast
  show ?thesis
    using play_return [OF read rp'(1)] rp'(2,3)
    by (intro exI [of _ rp']) (simp add: rd_def)
qed

lemma play_line_go_on:
  assumes json: "json_ok serialize parse e" "rd_input (rp_reader rp) = event_line serialize e @ rest"
    and handled: "\<And>rd. \<exists>rp'. replay_event u e (rp\<lparr>rp_reader := rd\<rparr>) = (None, rp') \<and>
      rp_frame rp' = rp_frame rp \<and> rp_reader rp' = rd"
  shows "\<exists>rp'. rp_frame rp' = rp_frame rp \<and> rd_input (rp_reader rp') = rest \<and>
    play u parse rp = play u parse rp'"
proof -
  define rd where "rd = (rp_reader rp)\<lparr>rd_input := rest, rd_line := rd_line (rp_reader rp) + 1\<rparr>"
  have read: "next_event parse (rp_reader rp) = (Inr (Some e), rd)"
    using next_event_line [OF json] by (simp add: rd_def)
  obtain rp' where rp': "replay_event u e (rp\<lparr>rp_reader := rd\<rparr>) = (None, rp')"
    "rp_frame rp' = rp_frame rp" "rp_reader rp' = rd"
    using handled by blast
  show ?thesis
    using play_go_on [OF read rp'(1)] rp'(2,3)
    by (intro exI [of _ rp']) (simp add: rd_def)
qed

lemma store_ok: "storable img \<Longrightarrow> fst (store img rp) = None"
  by (simp add: store_def storable_def)

lemma store_keeps: "rp_reader (snd (store img rp)) = rp_reader rp" "rp_frame (snd (store img rp)) = rp_frame rp"
  using store_reader [of img rp "fst (store img rp)" "snd (store img rp)"] by simp_all

text \<open>One frame of the recording, played.\<close>

lemma play_frame:
  assumes u: "unicode_ok u" and ok: "frame_ok u frame" "check_frame frame = None"
    and prev: "\<forall>previous. enc_previous enc = Some previous \<longrightarrow> frame_ok u previous"
    and enc: "encode u t frame enc = (events, enc')"
    and json: "\<forall>e \<in> set events. json_ok serialize parse e"
    and rp: "rp_frame rp = enc_previous enc"
      "rd_input (rp_reader rp) = lines_of serialize events @ rest"
  shows "\<exists>rp'. rp_frame rp' = Some frame \<and> enc_previous enc' = Some frame \<and>
    rd_input (rp_reader rp') = rest \<and>
    play u parse rp = ((if enc_previous enc = Some frame then [] else [(StepFrame t, Some frame)])
      @ fst (play u parse rp'), snd (play u parse rp'))"
  using encode_cases [of enc frame u t]
proof cases
  case same
  then show ?thesis
    using enc rp by (intro exI [of _ rp]) auto
next
  case (key pre enc1)
  then have events: "events = pre @ [Keyframe t frame]" "enc' = enc1"
    using enc by simp_all
  obtain rp1 where rp1: "rp_frame rp1 = rp_frame rp"
    "rd_input (rp_reader rp1) = event_line serialize (Keyframe t frame) @ rest"
    "play u parse rp = play u parse rp1"
  proof (cases "pre = []")
    case True
    then show thesis using that [of rp] rp events by simp
  next
    case False
    then have pre: "pre = [Resize t (sf_width frame) (sf_height frame)]"
      using key(3) by simp
    have "\<exists>rp'. rp_frame rp' = rp_frame rp \<and>
        rd_input (rp_reader rp') = event_line serialize (Keyframe t frame) @ rest \<and>
        play u parse rp = play u parse rp'"
      by (rule play_line_go_on [where e = "Resize t (sf_width frame) (sf_height frame)"])
        (use rp(2) json events pre in \<open>auto simp: replay_event_def\<close>)
    then show thesis using that by blast
  qed
  have "\<exists>rp'. rp_frame rp' = Some frame \<and> rd_input (rp_reader rp') = rest \<and>
      play u parse rp1 = ((StepFrame t, Some frame) # fst (play u parse rp'), snd (play u parse rp'))"
  proof (rule play_line_return [where e = "Keyframe t frame"])
    fix rd
    show "\<exists>rp'. replay_event u (Keyframe t frame) (rp1\<lparr>rp_reader := rd\<rparr>)
        = (Some (Inr (Some (StepFrame t))), rp') \<and> rp_frame rp' = Some frame \<and> rp_reader rp' = rd"
      using replay_keyframe [OF ok(2), of u t "rp1\<lparr>rp_reader := rd\<rparr>"] by simp
  qed (use rp1(2) json events in auto)
  then show ?thesis
    using rp1(3) key events by auto
next
  case (delta previous enc1)
  have prev_ok: "frame_ok u previous"
    using prev delta(2) by simp
  have frame: "rp_frame rp = Some previous"
    using rp(1) delta(2) by simp
  have "\<exists>rp'. rp_frame rp' = Some frame \<and> rd_input (rp_reader rp') = rest \<and>
      play u parse rp = ((StepFrame t, Some frame) # fst (play u parse rp'), snd (play u parse rp'))"
  proof (rule play_line_return [where e = "Delta (frame_diff u previous frame t)"])
    fix rd
    have "rp_frame (rp\<lparr>rp_reader := rd\<rparr>) = Some previous"
      using frame by simp
    from replay_delta [OF u prev_ok ok delta(5,6) this, of t]
    show "\<exists>rp'. replay_event u (Delta (frame_diff u previous frame t)) (rp\<lparr>rp_reader := rd\<rparr>)
        = (Some (Inr (Some (StepFrame t))), rp') \<and> rp_frame rp' = Some frame \<and> rp_reader rp' = rd"
      by simp
  qed (use rp(2) json enc delta(1) in auto)
  then show ?thesis
    using enc delta by auto
qed

text \<open>A mark, a meta event, an image or the end, played.\<close>

lemma play_other:
  assumes ok: "recorded_ok u (Inr e)" and json: "json_ok serialize parse e"
    and input: "rd_input (rp_reader rp) = event_line serialize e @ rest"
  shows "\<exists>rp'. rp_frame rp' = rp_frame rp \<and> rd_input (rp_reader rp') = rest \<and>
    play u parse rp = (expected [Inr e] (rp_frame rp) @ fst (play u parse rp'), snd (play u parse rp'))"
proof -
  have returned: ?thesis if "\<And>rd. \<exists>rp'. replay_event u e (rp\<lparr>rp_reader := rd\<rparr>)
      = (Some (Inr (Some st)), rp') \<and> rp_frame rp' = rp_frame rp \<and> rp_reader rp' = rd"
    and "expected [Inr e] (rp_frame rp) = [(st, rp_frame rp)]" for st
    using play_line_return [OF json input that(1)] that(2) by simp
  have passed: ?thesis if "\<And>rd. \<exists>rp'. replay_event u e (rp\<lparr>rp_reader := rd\<rparr>)
      = (None, rp') \<and> rp_frame rp' = rp_frame rp \<and> rp_reader rp' = rd"
    and "expected [Inr e] (rp_frame rp) = []"
    using play_line_go_on [OF json input that(1)] that(2) by simp
  show ?thesis
  proof (cases e)
    case (Mark t label)
    show ?thesis by (rule returned [of "StepMark t label"]) (auto simp: Mark replay_event_def)
  next
    case (Meta t meta)
    show ?thesis by (rule returned [of "StepMeta t meta"]) (auto simp: Meta replay_event_def)
  next
    case (EndEvent end')
    show ?thesis by (rule returned [of "StepEnd end'"]) (auto simp: EndEvent replay_event_def)
  next
    case (ImageEvent img)
    then show ?thesis
      using ok by (intro passed)
        (auto simp: ImageEvent replay_event_def Let_def split_beta store_ok store_keeps)
  next
    case (Resize t w h)
    show ?thesis by (rule passed) (auto simp: Resize replay_event_def)
  next
    case UnknownEvent
    show ?thesis by (rule passed) (auto simp: UnknownEvent replay_event_def)
  qed (use ok in auto)
qed

lemma expected_other:
  "recorded_ok u (Inr e) \<Longrightarrow> expected (Inr e # items) shown = expected [Inr e] shown @ expected items shown"
  by (cases e) auto

lemma play_recorded:
  assumes u: "unicode_ok u" and ok: "\<forall>item \<in> set items. recorded_ok u item"
    and prev: "\<forall>previous. enc_previous enc = Some previous \<longrightarrow> frame_ok u previous"
    and json: "\<forall>e \<in> set (record_events u items enc). json_ok serialize parse e"
    and rp: "rp_frame rp = enc_previous enc"
      "rd_input (rp_reader rp) = lines_of serialize (record_events u items enc)"
  shows "play u parse rp = (expected items (enc_previous enc), None)"
  using ok prev json rp
proof (induction items arbitrary: enc rp)
  case Nil
  then show ?case
    using next_event_end [of "rp_reader rp" "[]" parse]
    by (subst play.simps, subst step.simps) simp
next
  case (Cons item items)
  show ?case
  proof (cases item)
    case (Inl tf)
    obtain t frame where tf: "tf = (t, frame)" by (cases tf)
    obtain events enc' where enc: "encode u t frame enc = (events, enc')"
      by (cases "encode u t frame enc")
    have frame: "frame_ok u frame" "check_frame frame = None"
      using Cons.prems(1) by (simp_all add: Inl tf)
    have lines: "lines_of serialize (record_events u (item # items) enc)
        = lines_of serialize events @ lines_of serialize (record_events u items enc')"
      by (simp add: Inl tf enc lines_of_def)
    have json': "\<forall>e \<in> set events. json_ok serialize parse e"
      "\<forall>e \<in> set (record_events u items enc'). json_ok serialize parse e"
      using Cons.prems(3) by (auto simp: Inl tf enc)
    obtain rp' where rp': "rp_frame rp' = Some frame" "enc_previous enc' = Some frame"
      "rd_input (rp_reader rp') = lines_of serialize (record_events u items enc')"
      "play u parse rp = ((if enc_previous enc = Some frame then [] else [(StepFrame t, Some frame)])
        @ fst (play u parse rp'), snd (play u parse rp'))"
      using play_frame [OF u frame Cons.prems(2) enc json'(1) Cons.prems(4)] Cons.prems(5) lines by metis
    have "play u parse rp' = (expected items (enc_previous enc'), None)"
      by (rule Cons.IH) (use Cons.prems(1) frame rp' json'(2) in auto)
    then show ?thesis
      using rp'(2,4) by (simp add: Inl tf)
  next
    case (Inr e)
    have e: "recorded_ok u (Inr e)" "json_ok serialize parse e"
      "rd_input (rp_reader rp) = event_line serialize e @ lines_of serialize (record_events u items enc)"
      using Cons.prems by (simp_all add: Inr)
    obtain rp' where rp': "rp_frame rp' = rp_frame rp"
      "rd_input (rp_reader rp') = lines_of serialize (record_events u items enc)"
      "play u parse rp = (expected [Inr e] (rp_frame rp) @ fst (play u parse rp'), snd (play u parse rp'))"
      using play_other [OF e] by blast
    have "play u parse rp' = (expected items (enc_previous enc), None)"
      by (rule Cons.IH) (use Cons.prems rp'(1,2) in \<open>auto simp: Inr\<close>)
    then show ?thesis
      using rp'(3) Cons.prems(4) expected_other [OF e(1), of items "enc_previous enc"]
      by (simp only: Inr fst_conv snd_conv)
  qed
qed

end
