(* ===== verification/RecordWriter.thy ===== *)
theory RecordWriter
  imports RecordQueue RecordingRoundtrip
begin

text \<open>
  The thread that writes a recording (\<^verbatim>\<open>Writer\<close> in \<^verbatim>\<open>src/recording/writer.rs\<close>) with the store that names
  every distinct image once (\<^verbatim>\<open>ImageStore\<close> in \<^verbatim>\<open>src/recording/encode.rs\<close>).  The libraries it calls are
  the fields of \<open>recorder_env\<close>: turning a capture into spans, PNG and base64, SHA-256, JSON, and the
  disk, which may stop taking bytes.  Flushing is not modelled.
\<close>

subsection \<open>What the writer calls\<close>

text \<open>An image of a capture; its pixels are shared, so the buffer has an address.\<close>

record captured_image =
  ci_buffer :: nat
  ci_width :: nat
  ci_height :: nat
  ci_rgba :: string

text \<open>\<open>disk written lines\<close>: \<open>None\<close> when all of \<open>lines\<close> reach the file, or how many bytes did.\<close>

record 'c recorder_env =
  env_unicode :: unicode
  env_images :: "'c \<Rightarrow> captured_image list"
  env_span_frame :: "'c \<Rightarrow> span_frame option"
  env_png_base64 :: "captured_image \<Rightarrow> string option"
  env_sha256 :: "string \<Rightarrow> string"
  env_serialize :: "recording_event \<Rightarrow> string"
  env_disk :: "string \<Rightarrow> string \<Rightarrow> nat option"

subsection \<open>Images\<close>

definition le_bytes4 :: "nat \<Rightarrow> string" where
  "le_bytes4 n = map (\<lambda>i. char_of (n div 256 ^ i mod 256)) [0..<4]"

definition hex_byte :: "char \<Rightarrow> string" where
  "hex_byte c = [''0123456789abcdef'' ! (of_char c div 16), ''0123456789abcdef'' ! (of_char c mod 16)]"

definition content_id :: "(string \<Rightarrow> string) \<Rightarrow> captured_image \<Rightarrow> string" where
  "content_id sha256 img =
     concat (map hex_byte (take 16
       (sha256 (le_bytes4 (ci_width img) @ le_bytes4 (ci_height img) @ ci_rgba img))))"

record image_store =
  is_stored :: "string set"
  is_previous :: "(nat \<times> string) list"

definition image_name :: "(string \<Rightarrow> string) \<Rightarrow> (nat \<times> string) list \<Rightarrow> captured_image \<Rightarrow> string" where
  "image_name sha256 previous img =
     (case find (\<lambda>(buffer, name). buffer = ci_buffer img) previous of
        Some (_, name) \<Rightarrow> name
      | None \<Rightarrow> content_id sha256 img)"

text \<open>
  The loop over \<^verbatim>\<open>captured.images.iter().zip(frame.images.iter_mut())\<close>: the \<^verbatim>\<open>image\<close> events, the spans
  with their ids, the buffers of this frame, and the ids stored by then; \<open>None\<close> when an image cannot
  be encoded.
\<close>

fun name_images ::
  "'c recorder_env \<Rightarrow> (nat \<times> string) list \<Rightarrow> nat \<Rightarrow> captured_image list \<Rightarrow> span_image list \<Rightarrow> string set
   \<Rightarrow> (recording_event list \<times> span_image list \<times> (nat \<times> string) list \<times> string set) option" where
  "name_images env previous t (img # imgs) (sp # spans) stored =
     (let name = image_name (env_sha256 env) previous img;
          sp = sp\<lparr>image_id := Some name\<rparr>
      in if name \<in> stored
         then (case name_images env previous t imgs spans stored of
                 None \<Rightarrow> None
               | Some (events, spans, current, stored) \<Rightarrow>
                   Some (events, sp # spans, (ci_buffer img, name) # current, stored))
         else (case env_png_base64 env img of
                 None \<Rightarrow> None
               | Some png \<Rightarrow>
                   (case name_images env previous t imgs spans (insert name stored) of
                      None \<Rightarrow> None
                    | Some (events, spans, current, stored) \<Rightarrow>
                        Some (ImageEvent \<lparr>ri_t = t, ri_id = name, ri_pixel_width = ci_width img,
                                          ri_pixel_height = ci_height img, ri_png = png\<rparr> # events,
                              sp # spans, (ci_buffer img, name) # current, stored))))"
| "name_images env previous t imgs spans stored = Some ([], spans, [], stored)"

definition store_frame ::
  "'c recorder_env \<Rightarrow> nat \<Rightarrow> 'c \<Rightarrow> image_store
   \<Rightarrow> (recording_event list \<times> span_frame \<times> image_store) option" where
  "store_frame env t captured st =
     (case env_span_frame env captured of
        None \<Rightarrow> None
      | Some frame \<Rightarrow>
          (case name_images env (is_previous st) t (env_images env captured) (sf_images frame)
                  (is_stored st) of
             None \<Rightarrow> None
           | Some (events, spans, current, stored) \<Rightarrow>
               Some (events, frame\<lparr>sf_images := spans\<rparr>, \<lparr>is_stored = stored, is_previous = current\<rparr>)))"

subsection \<open>The writer\<close>

definition END_RESERVE :: nat where "END_RESERVE = 1024"

datatype stop = StopMaxBytes | StopFailed

record writer =
  w_file :: string
  w_max_bytes :: nat
  w_encoder :: frame_encoder
  w_images :: image_store
  w_last_t :: nat
  w_totals :: recording_totals

record recorder_outcome =
  out_reason :: end_reason
  out_totals :: recording_totals
  out_error :: bool

definition new_totals :: "nat \<Rightarrow> recording_totals" where
  "new_totals bytes = \<lparr>tot_frames = 0, tot_keyframes = 0, tot_deltas = 0, tot_images = 0, tot_marks = 0,
     tot_dropped = 0, tot_bytes = bytes\<rparr>"

text \<open>\<^verbatim>\<open>Recorder::prepare\<close>: the file holds the header line.\<close>

definition new_writer :: "string \<Rightarrow> nat \<Rightarrow> writer" where
  "new_writer header max_bytes =
     \<lparr>w_file = header @ [NEWLINE], w_max_bytes = max_bytes,
      w_encoder = new_encoder KEYFRAME_INTERVAL_MS,
      w_images = \<lparr>is_stored = {}, is_previous = []\<rparr>, w_last_t = 0,
      w_totals = new_totals (length header + 1)\<rparr>"

definition write_events ::
  "'c recorder_env \<Rightarrow> recording_event list \<Rightarrow> writer \<Rightarrow> stop option \<times> writer" where
  "write_events env events w =
     (let lines = lines_of (env_serialize env) events
      in if tot_bytes (w_totals w) + length lines + END_RESERVE > w_max_bytes w
         then (Some StopMaxBytes, w)
         else (case env_disk env (w_file w) lines of
                 Some n \<Rightarrow> (Some StopFailed, w\<lparr>w_file := w_file w @ take n lines\<rparr>)
               | None \<Rightarrow>
                   (None, w\<lparr>w_file := w_file w @ lines,
                            w_totals := (w_totals w)\<lparr>tot_bytes := tot_bytes (w_totals w) + length lines\<rparr>\<rparr>)))"

fun count_event :: "recording_event \<Rightarrow> recording_totals \<Rightarrow> recording_totals" where
  "count_event (Keyframe t frame) n =
     n\<lparr>tot_frames := tot_frames n + 1, tot_keyframes := tot_keyframes n + 1\<rparr>"
| "count_event (Delta delta) n = n\<lparr>tot_frames := tot_frames n + 1, tot_deltas := tot_deltas n + 1\<rparr>"
| "count_event (ImageEvent img) n = n\<lparr>tot_images := tot_images n + 1\<rparr>"
| "count_event _ n = n"

definition write_frame :: "'c recorder_env \<Rightarrow> nat \<Rightarrow> 'c \<Rightarrow> writer \<Rightarrow> stop option \<times> writer" where
  "write_frame env t captured w =
     (let t = max t (w_last_t w)
      in case store_frame env t captured (w_images w) of
           None \<Rightarrow> (Some StopFailed, w)
         | Some (events, shot, images) \<Rightarrow>
             (case encode (env_unicode env) t shot (w_encoder w) of
                (encoded, encoder) \<Rightarrow>
                  let w = w\<lparr>w_images := images, w_encoder := encoder\<rparr>
                  in if encoded = [] then (None, w)
                     else let events = events @ encoded;
                              w = w\<lparr>w_last_t := t\<rparr>
                          in case write_events env events w of
                               (Some stop, w) \<Rightarrow> (Some stop, w)
                             | (None, w) \<Rightarrow>
                                 (None, w\<lparr>w_totals := fold count_event events (w_totals w)\<rparr>)))"

definition is_mark :: "recording_event \<Rightarrow> bool" where
  "is_mark event = (case event of Mark t label \<Rightarrow> True | _ \<Rightarrow> False)"

definition write_event :: "'c recorder_env \<Rightarrow> recording_event \<Rightarrow> writer \<Rightarrow> stop option \<times> writer" where
  "write_event env event w =
     (let w = w\<lparr>w_last_t := max (w_last_t w) (case event_time event of Some t \<Rightarrow> t | None \<Rightarrow> 0)\<rparr>
      in case write_events env [event] w of
           (Some stop, w) \<Rightarrow> (Some stop, w)
         | (None, w) \<Rightarrow>
             (None, if is_mark event
                    then w\<lparr>w_totals := (w_totals w)\<lparr>tot_marks := tot_marks (w_totals w) + 1\<rparr>\<rparr> else w))"

text \<open>
  \<^verbatim>\<open>Counters::totals\<close> when the recording ends; \<open>dropped\<close> is the counter the queue keeps, as it is then.
\<close>

definition write_end ::
  "'c recorder_env \<Rightarrow> nat \<Rightarrow> nat \<Rightarrow> end_reason \<Rightarrow> bool \<Rightarrow> writer \<Rightarrow> recorder_outcome \<times> writer" where
  "write_end env dropped t reason failed w =
     (let totals = (w_totals w)\<lparr>tot_dropped := dropped\<rparr>;
          line = event_line (env_serialize env)
                   (EndEvent \<lparr>end_t = t, end_why = reason, end_totals = totals\<rparr>);
          (failed, w) = (case env_disk env (w_file w) line of
                 None \<Rightarrow> (failed, w\<lparr>w_file := w_file w @ line\<rparr>)
               | Some n \<Rightarrow> (True, w\<lparr>w_file := w_file w @ take n line\<rparr>))
      in (\<lparr>out_reason = (if failed then WriteFailed else reason), out_totals = totals,
           out_error = failed\<rparr>, w))"

text \<open>
  One turn of the loop of \<^verbatim>\<open>run\<close> with a job: the writer goes on (\<open>None\<close>), or ends with an outcome.
\<close>

definition write_job ::
  "'c recorder_env \<Rightarrow> nat \<Rightarrow> 'c job \<Rightarrow> writer \<Rightarrow> recorder_outcome option \<times> writer" where
  "write_job env dropped job w =
     (case job of
        EndJob t reason \<Rightarrow>
          (case write_end env dropped (max t (w_last_t w)) reason False w of (outcome, w) \<Rightarrow> (Some outcome, w))
      | _ \<Rightarrow>
          (case (case job of FrameJob t captured \<Rightarrow> write_frame env t captured w
                           | EventJob event \<Rightarrow> write_event env event w
                           | EndJob t reason \<Rightarrow> (None, w)) of
             (None, w) \<Rightarrow> (None, w)
           | (Some StopMaxBytes, w) \<Rightarrow>
               (case write_end env dropped (w_last_t w) MaxBytes False w of (outcome, w) \<Rightarrow> (Some outcome, w))
           | (Some StopFailed, w) \<Rightarrow>
               (case write_end env dropped (w_last_t w) WriteFailed True w of (outcome, w) \<Rightarrow> (Some outcome, w))))"

fun run_writer ::
  "'c recorder_env \<Rightarrow> nat \<Rightarrow> 'c job list \<Rightarrow> writer \<Rightarrow> recorder_outcome option \<times> writer" where
  "run_writer env dropped [] w = (None, w)"
| "run_writer env dropped (job # jobs) w =
     (case write_job env dropped job w of
        (Some outcome, w) \<Rightarrow> (Some outcome, w)
      | (None, w) \<Rightarrow> run_writer env dropped jobs w)"

end
