(* ===== verification/RecordFile.thy ===== *)
theory RecordFile
  imports RecordWriter
begin

text \<open>
  What the writer leaves in the file: the lines of the frames and events it was given, images before
  the frames that name them, within the bytes allowed.
\<close>

subsection \<open>The images of a frame\<close>

definition image_ids :: "recording_event list \<Rightarrow> string list" where
  "image_ids events = concat (map (\<lambda>e. case e of ImageEvent img \<Rightarrow> [ri_id img] | _ \<Rightarrow> []) events)"

definition frame_ids :: "span_frame \<Rightarrow> string option list" where
  "frame_ids frame = map image_id (sf_images frame)"

lemma image_ids_simps [simp]:
  "image_ids [] = []"
  "image_ids (ImageEvent img # events) = ri_id img # image_ids events"
  "image_ids (es @ fs) = image_ids es @ image_ids fs"
  by (simp_all add: image_ids_def)

text \<open>
  Naming images adds an event for every id not stored yet, once, and every image of the frame ends up
  with an id that is stored.
\<close>

lemma name_images_spec:
  assumes "name_images env previous t imgs sps stored = Some (events, sps', current, stored')"
    and "length imgs = length sps"
  shows "stored' = stored \<union> set (image_ids events) \<and> distinct (image_ids events) \<and>
    set (image_ids events) \<inter> stored = {} \<and>
    Some ` set (image_ids events) \<subseteq> set (map image_id sps') \<and>
    set (map image_id sps') \<subseteq> Some ` stored' \<and> length sps' = length sps \<and>
    (\<forall>e \<in> set events. \<exists>img \<in> set imgs. \<exists>png. e = ImageEvent \<lparr>ri_t = t, ri_id = image_name (env_sha256 env) previous img,
       ri_pixel_width = ci_width img, ri_pixel_height = ci_height img, ri_png = png\<rparr>)"
  using assms
proof (induction env previous t imgs sps stored arbitrary: events sps' current stored'
    rule: name_images.induct)
  case (1 env previous t img imgs sp sps stored)
  define name where "name = image_name (env_sha256 env) previous img"
  show ?case
  proof (cases "name \<in> stored")
    case True
    then obtain sps1 current1 where rec: "name_images env previous t imgs sps stored
        = Some (events, sps1, current1, stored')" "sps' = sp\<lparr>image_id := Some name\<rparr> # sps1"
      using 1(3) by (auto simp: name_def Let_def split: option.splits)
    show ?thesis
      using 1(1) [OF name_def refl True rec(1)] 1(4) True rec(2)
      by auto
  next
    case False
    then obtain png events1 sps1 current1 where png: "env_png_base64 env img = Some png"
      and rec: "name_images env previous t imgs sps (insert name stored) = Some (events1, sps1, current1, stored')"
      and res: "sps' = sp\<lparr>image_id := Some name\<rparr> # sps1"
        "events = ImageEvent \<lparr>ri_t = t, ri_id = name, ri_pixel_width = ci_width img,
                     ri_pixel_height = ci_height img, ri_png = png\<rparr> # events1"
      using 1(3) by (auto simp: name_def Let_def split: option.splits)
    show ?thesis
      using 1(2) [OF name_def refl False png rec] 1(4) False res
      by (auto simp: name_def)
  qed
qed auto

subsection \<open>What a queue of jobs adds to a recording\<close>

text \<open>
  What the recording relies on about captures: their frames are in the span format and small enough
  to be read, their images one for one those of the capture, with pixels a reader takes.
\<close>

definition env_ok :: "'c recorder_env \<Rightarrow> bool" where
  "env_ok env \<longleftrightarrow>
     unicode_ok (env_unicode env) \<and>
     (\<forall>c frame. env_span_frame env c = Some frame \<longrightarrow>
        frame_ok (env_unicode env) frame \<and> check_frame frame = None \<and>
        length (env_images env c) = length (sf_images frame) \<and>
        (\<forall>img \<in> set (env_images env c). ci_width img * ci_height img * 4 \<le> MAX_IMAGE_BYTES))"

text \<open>
  The frames and events the writer records for jobs up to the end, from the frame shown, the image
  store and the time it has reached.  A frame that shows nothing new is not recorded.
\<close>

fun job_items ::
  "'c recorder_env \<Rightarrow> 'c job list \<Rightarrow> span_frame option \<Rightarrow> image_store \<Rightarrow> nat \<Rightarrow> recorded list" where
  "job_items env [] shown st now = []"
| "job_items env (FrameJob t c # jobs) shown st now =
     (case store_frame env (max t now) c st of
        None \<Rightarrow> []
      | Some (events, shot, st) \<Rightarrow>
          if shown = Some shot then job_items env jobs shown st now
          else map Inr events @ Inl (max t now, shot) # job_items env jobs (Some shot) st (max t now))"
| "job_items env (EventJob e # jobs) shown st now =
     Inr e # job_items env jobs shown st (max now (case event_time e of Some t \<Rightarrow> t | None \<Rightarrow> 0))"
| "job_items env (EndJob t reason # jobs) shown st now = []"

definition shown_stored :: "span_frame option \<Rightarrow> image_store \<Rightarrow> bool" where
  "shown_stored shown st \<longleftrightarrow>
     (\<forall>frame. shown = Some frame \<longrightarrow> set (frame_ids frame) \<subseteq> Some ` is_stored st)"

lemma store_frame_spec:
  assumes env: "env_ok env" and frame: "store_frame env t c st = Some (events, shot, st')"
  shows "is_stored st' = is_stored st \<union> set (image_ids events)" "distinct (image_ids events)"
    "set (image_ids events) \<inter> is_stored st = {}" "Some ` set (image_ids events) \<subseteq> set (frame_ids shot)"
    "set (frame_ids shot) \<subseteq> Some ` is_stored st'"
    "\<forall>e \<in> set events. \<exists>img \<in> set (env_images env c). \<exists>png. e = ImageEvent \<lparr>ri_t = t,
       ri_id = image_name (env_sha256 env) (is_previous st) img,
       ri_pixel_width = ci_width img, ri_pixel_height = ci_height img, ri_png = png\<rparr>"
proof -
  obtain frame sps' current stored' where f: "env_span_frame env c = Some frame"
    and n: "name_images env (is_previous st) t (env_images env c) (sf_images frame) (is_stored st)
      = Some (events, sps', current, stored')"
    and res: "shot = frame\<lparr>sf_images := sps'\<rparr>" "st' = \<lparr>is_stored = stored', is_previous = current\<rparr>"
    using frame by (auto simp: store_frame_def split: option.splits)
  have "length (env_images env c) = length (sf_images frame)"
    using env f by (simp add: env_ok_def)
  note spec = name_images_spec [OF n this]
  have "set (map image_id sps') \<subseteq> Some ` stored'"
    using spec by (elim conjE)
  then show "set (frame_ids shot) \<subseteq> Some ` is_stored st'"
    by (simp add: frame_ids_def res)
  show "is_stored st' = is_stored st \<union> set (image_ids events)" "distinct (image_ids events)"
    "set (image_ids events) \<inter> is_stored st = {}" "Some ` set (image_ids events) \<subseteq> set (frame_ids shot)"
    "\<forall>e \<in> set events. \<exists>img \<in> set (env_images env c). \<exists>png. e = ImageEvent \<lparr>ri_t = t,
       ri_id = image_name (env_sha256 env) (is_previous st) img,
       ri_pixel_width = ci_width img, ri_pixel_height = ci_height img, ri_png = png\<rparr>"
    using spec by (simp_all add: frame_ids_def res)
qed

lemma no_events: "(\<forall>e \<in> set events. \<exists>img. e = ImageEvent img) \<Longrightarrow> image_ids events = [] \<Longrightarrow> events = []"
  by (cases events) auto

text \<open>A frame that shows nothing new has no new image either, so no stored image is lost with it.\<close>

lemma unchanged_no_images:
  assumes env: "env_ok env" and frame: "store_frame env t c st = Some (events, shot, st')"
    and shown: "shown_stored (Some shot) st"
  shows "events = []" "is_stored st' = is_stored st"
proof -
  note spec = store_frame_spec [OF env frame]
  have "Some ` set (image_ids events) \<subseteq> Some ` is_stored st"
    using spec(4) shown by (simp add: shown_stored_def)
  then have "set (image_ids events) \<subseteq> is_stored st"
    by (simp add: inj_image_subset_iff)
  then have none: "image_ids events = []"
    using spec(3) by (cases "image_ids events") auto
  then show "events = []"
    using no_events spec(6) by metis
  show "is_stored st' = is_stored st"
    using spec(1) none by simp
qed

lemma shown_stored_after:
  assumes "env_ok env" "store_frame env t c st = Some (events, shot, st')"
  shows "shown_stored (Some shot) st'"
  using store_frame_spec(5) [OF assms] by (simp add: shown_stored_def)

subsection \<open>Images before frames\<close>

lemma image_ids_in: "name \<in> set (image_ids events) \<longleftrightarrow> (\<exists>img. ImageEvent img \<in> set events \<and> ri_id img = name)"
proof (induction events)
  case (Cons e events)
  then show ?case by (cases e) (auto simp: image_ids_def)
qed simp

definition item_images :: "recorded list \<Rightarrow> string list" where
  "item_images items = image_ids (concat (map (\<lambda>item. case item of Inl _ \<Rightarrow> [] | Inr e \<Rightarrow> [e]) items))"

lemma item_images_simps [simp]:
  "item_images [] = []"
  "item_images (Inl tf # items) = item_images items"
  "item_images (Inr e # items) = image_ids [e] @ item_images items"
  "item_images (xs @ ys) = item_images xs @ item_images ys"
  by (simp_all add: item_images_def image_ids_def)

lemma item_images_events [simp]: "item_images (map Inr events) = image_ids events"
  by (induction events) (auto simp: image_ids_def)

definition quiet :: "'c job list \<Rightarrow> bool" where
  "quiet jobs \<longleftrightarrow> (\<forall>e. EventJob e \<in> set jobs \<longrightarrow> (\<exists>t label. e = Mark t label) \<or> (\<exists>t meta. e = Meta t meta))"

lemma quiet_simps [simp]:
  "quiet []"
  "quiet (EventJob e # jobs) \<longleftrightarrow> ((\<exists>t label. e = Mark t label) \<or> (\<exists>t meta. e = Meta t meta)) \<and> quiet jobs"
  "quiet (FrameJob t c # jobs) \<longleftrightarrow> quiet jobs"
  "quiet (EndJob t reason # jobs) \<longleftrightarrow> quiet jobs"
  by (auto simp: quiet_def)

text \<open>An image event before any frame that names it, and once.\<close>

definition images_first :: "string set \<Rightarrow> recorded list \<Rightarrow> bool" where
  "images_first stored items \<longleftrightarrow>
     distinct (item_images items) \<and> set (item_images items) \<inter> stored = {} \<and>
     (\<forall>xs t shot ys. items = xs @ Inl (t, shot) # ys \<longrightarrow>
        set (frame_ids shot) \<subseteq> Some ` (stored \<union> set (item_images xs)))"

lemma images_first_Nil: "images_first stored []"
  by (simp add: images_first_def)

lemma images_first_event:
  assumes "images_first stored items" "image_ids [e] = []"
  shows "images_first stored (Inr e # items)"
  unfolding images_first_def
proof (intro conjI allI impI)
  show "distinct (item_images (Inr e # items))" "set (item_images (Inr e # items)) \<inter> stored = {}"
    using assms by (simp_all add: images_first_def)
  fix xs t shot ys
  assume "Inr e # items = xs @ Inl (t, shot) # ys"
  then obtain xs' where xs: "xs = Inr e # xs'" "items = xs' @ Inl (t, shot) # ys"
    by (auto simp: Cons_eq_append_conv)
  then have "set (frame_ids shot) \<subseteq> Some ` (stored \<union> set (item_images xs'))"
    using assms(1) unfolding images_first_def by blast
  then show "set (frame_ids shot) \<subseteq> Some ` (stored \<union> set (item_images xs))"
    using assms(2) by (simp add: xs)
qed

lemma images_first_frame:
  assumes rest: "images_first (stored \<union> set (image_ids events)) items"
    and events: "distinct (image_ids events)" "set (image_ids events) \<inter> stored = {}"
    and shot: "set (frame_ids shot) \<subseteq> Some ` (stored \<union> set (image_ids events))"
  shows "images_first stored (map Inr events @ Inl (t, shot) # items)"
  unfolding images_first_def
proof (intro conjI allI impI)
  show "distinct (item_images (map Inr events @ Inl (t, shot) # items))"
    "set (item_images (map Inr events @ Inl (t, shot) # items)) \<inter> stored = {}"
    using rest events by (auto simp: images_first_def)
  fix xs t' shot' ys
  assume split: "map Inr events @ Inl (t, shot) # items = xs @ Inl (t', shot') # ys"
  then consider "xs = map Inr events" "shot' = shot"
    | zs where "xs = map Inr events @ Inl (t, shot) # zs" "items = zs @ Inl (t', shot') # ys"
    by (auto simp: append_eq_append_conv2 Cons_eq_append_conv map_eq_append_conv append_eq_Cons_conv)
  then show "set (frame_ids shot') \<subseteq> Some ` (stored \<union> set (item_images xs))"
  proof cases
    case 1
    then show ?thesis using shot by simp
  next
    case 2
    then show ?thesis using rest by (auto simp: images_first_def Un_assoc)
  qed
qed

lemma job_items_images:
  assumes "env_ok env" "quiet jobs" "shown_stored shown st"
  shows "images_first (is_stored st) (job_items env jobs shown st now)"
  using assms(2,3)
proof (induction jobs arbitrary: shown st now)
  case Nil
  then show ?case by (simp add: images_first_Nil)
next
  case (Cons job jobs)
  show ?case
  proof (cases job)
    case (FrameJob t c)
    show ?thesis
    proof (cases "store_frame env (max t now) c st")
      case None
      then show ?thesis by (simp add: FrameJob images_first_Nil)
    next
      case (Some res)
      then obtain events shot st' where res: "store_frame env (max t now) c st = Some (events, shot, st')"
        by (cases res) auto
      note spec = store_frame_spec [OF assms(1) res]
      show ?thesis
      proof (cases "shown = Some shot")
        case True
        have same: "is_stored st' = is_stored st"
          using unchanged_no_images [OF assms(1) res] Cons.prems(2) True by simp
        then have "shown_stored shown st'"
          using Cons.prems(2) by (simp add: shown_stored_def)
        then show ?thesis
          using Cons.IH [of shown st' now] Cons.prems(1) True same by (simp add: FrameJob res)
      next
        case False
        have "images_first (is_stored st') (job_items env jobs (Some shot) st' (max t now))"
          using Cons.IH [of "Some shot" st'] Cons.prems(1) shown_stored_after [OF assms(1) res]
          by (simp add: FrameJob)
        then show ?thesis
          using False spec by (simp add: FrameJob res images_first_frame)
      qed
    qed
  next
    case (EventJob e)
    then show ?thesis
      using Cons by (auto simp: image_ids_def intro!: images_first_event)
  next
    case (EndJob t reason)
    then show ?thesis by (simp add: images_first_Nil)
  qed
qed

subsection \<open>The lines in the file\<close>

lemma record_events_events [simp]:
  "record_events u (map Inr events @ items) enc = events @ record_events u items enc"
  by (induction events) auto

lemma lines_of_append [simp]: "lines_of ser (es @ fs) = lines_of ser es @ lines_of ser fs"
  by (simp add: lines_of_def)

lemma write_events_None:
  assumes "write_events env events w = (None, w')"
  shows "w' = w\<lparr>w_file := w_file w @ lines_of (env_serialize env) events,
      w_totals := (w_totals w)\<lparr>tot_bytes := tot_bytes (w_totals w) + length (lines_of (env_serialize env) events)\<rparr>\<rparr>"
    "tot_bytes (w_totals w) + length (lines_of (env_serialize env) events) + END_RESERVE \<le> w_max_bytes w"
  using assms by (auto simp: write_events_def Let_def split: if_splits option.splits)

lemma encode_nothing: "encode u t frame enc = ([], enc') \<longleftrightarrow> enc_previous enc = Some frame \<and> enc' = enc"
  by (cases rule: encode_cases [of enc frame u t]) auto

lemma encode_previous: "encode u t frame enc = (events, enc') \<Longrightarrow> enc_previous enc' = Some frame"
  by (cases rule: encode_cases [of enc frame u t]) auto

lemma write_frame_same:
  assumes "store_frame env (max t (w_last_t w)) c (w_images w) = Some (events, shot, st)"
    and "enc_previous (w_encoder w) = Some shot"
  shows "write_frame env t c w = (None, w\<lparr>w_images := st\<rparr>)"
proof -
  have "encode (env_unicode env) (max t (w_last_t w)) shot (w_encoder w) = ([], w_encoder w)"
    using assms(2) by (simp add: encode_def)
  then show ?thesis
    using assms(1) by (simp add: write_frame_def Let_def)
qed

lemma write_frame_new:
  assumes frame: "store_frame env (max t (w_last_t w)) c (w_images w) = Some (events, shot, st)"
    and new: "enc_previous (w_encoder w) \<noteq> Some shot" and written: "write_frame env t c w = (None, w')"
  shows "w_images w' = st" "w_last_t w' = max t (w_last_t w)"
    "enc_previous (w_encoder w') = Some shot"
    "w_file w' = w_file w @ lines_of (env_serialize env)
       (events @ fst (encode (env_unicode env) (max t (w_last_t w)) shot (w_encoder w)))"
    "w_encoder w' = snd (encode (env_unicode env) (max t (w_last_t w)) shot (w_encoder w))"
proof -
  obtain encoded enc where enc: "encode (env_unicode env) (max t (w_last_t w)) shot (w_encoder w) = (encoded, enc)"
    by (cases "encode (env_unicode env) (max t (w_last_t w)) shot (w_encoder w)")
  have "encoded \<noteq> []"
    using enc new encode_nothing by metis
  then obtain w1 where w1: "write_events env (events @ encoded)
        (w\<lparr>w_images := st, w_encoder := enc, w_last_t := max t (w_last_t w)\<rparr>) = (None, w1)"
    and w': "w' = w1\<lparr>w_totals := fold count_event (events @ encoded) (w_totals w1)\<rparr>"
    using written frame enc by (auto simp: write_frame_def Let_def split: option.splits prod.splits)
  note wrote = write_events_None(1) [OF w1]
  show "w_images w' = st" "w_last_t w' = max t (w_last_t w)"
    "w_file w' = w_file w @ lines_of (env_serialize env)
       (events @ fst (encode (env_unicode env) (max t (w_last_t w)) shot (w_encoder w)))"
    "w_encoder w' = snd (encode (env_unicode env) (max t (w_last_t w)) shot (w_encoder w))"
    by (simp_all add: w' wrote enc)
  show "enc_previous (w_encoder w') = Some shot"
    using encode_previous [OF enc] by (simp add: w' wrote)
qed

lemma write_event_None:
  assumes "write_event env e w = (None, w')"
  shows "w_images w' = w_images w" "w_encoder w' = w_encoder w"
    "w_last_t w' = max (w_last_t w) (case event_time e of Some t \<Rightarrow> t | None \<Rightarrow> 0)"
    "w_file w' = w_file w @ lines_of (env_serialize env) [e]"
proof -
  obtain w1 where w1: "write_events env [e]
      (w\<lparr>w_last_t := max (w_last_t w) (case event_time e of Some t \<Rightarrow> t | None \<Rightarrow> 0)\<rparr>) = (None, w1)"
    and w': "w' = (if is_mark e then w1\<lparr>w_totals := (w_totals w1)\<lparr>tot_marks := tot_marks (w_totals w1) + 1\<rparr>\<rparr> else w1)"
    using assms by (auto simp: write_event_def Let_def split: option.splits prod.splits)
  note wrote = write_events_None(1) [OF w1]
  show "w_images w' = w_images w" "w_encoder w' = w_encoder w"
    "w_last_t w' = max (w_last_t w) (case event_time e of Some t \<Rightarrow> t | None \<Rightarrow> 0)"
    "w_file w' = w_file w @ lines_of (env_serialize env) [e]"
    by (simp_all add: w' wrote)
qed

lemma write_end_ok:
  assumes "write_end env dropped t reason failed w = (outcome, w')" "\<not> out_error outcome"
  shows "\<not> failed" "out_reason outcome = reason"
    "w_file w' = w_file w @ event_line (env_serialize env)
       (EndEvent \<lparr>end_t = t, end_why = reason, end_totals = out_totals outcome\<rparr>)"
  using assms by (auto simp: write_end_def Let_def split: option.splits)

text \<open>
  The file of a recording that ended without an error: the lines of some of the jobs, all of them
  unless it reached its size, and the \<^verbatim>\<open>end\<close> line.
\<close>

lemma run_writer_stop:
  assumes "write_job env dropped job w = (Some outcome, w')" "\<not> out_error outcome" "\<And>t r. job \<noteq> EndJob t r"
  shows "\<exists>w1. out_reason outcome = MaxBytes \<and> w_file w1 = w_file w \<and>
    (\<exists>t. write_end env dropped t MaxBytes False w1 = (outcome, w'))"
proof -
  define res where "res = (case job of FrameJob t captured \<Rightarrow> write_frame env t captured w
      | EventJob event \<Rightarrow> write_event env event w | EndJob t reason \<Rightarrow> (None, w))"
  obtain stop w1 where res': "res = (stop, w1)" by (cases res)
  have stop: "stop = Some StopMaxBytes" "write_end env dropped (w_last_t w1) MaxBytes False w1 = (outcome, w')"
  proof (atomize (full), cases stop)
    case None
    then show "stop = Some StopMaxBytes \<and> write_end env dropped (w_last_t w1) MaxBytes False w1 = (outcome, w')"
      using assms(1,3) res' by (cases job) (auto simp: write_job_def res_def)
  next
    case (Some s)
    then have "case s of StopMaxBytes \<Rightarrow> write_end env dropped (w_last_t w1) MaxBytes False w1 = (outcome, w')
        | StopFailed \<Rightarrow> write_end env dropped (w_last_t w1) WriteFailed True w1 = (outcome, w')"
      using assms(1,3) res' by (cases job; cases s) (auto simp: write_job_def res_def split: prod.splits)
    then show "stop = Some StopMaxBytes \<and> write_end env dropped (w_last_t w1) MaxBytes False w1 = (outcome, w')"
      using Some assms(2) by (cases s) (auto dest: write_end_ok(1))
  qed
  moreover have "w_file w1 = w_file w"
    using res' stop(1) assms(3)
    by (cases job)
      (auto simp: res_def write_frame_def write_event_def write_events_def Let_def
        split: option.splits prod.splits if_splits)
  ultimately show ?thesis
    using write_end_ok(2) [OF stop(2) assms(2)] by blast
qed

abbreviation items_from :: "'c recorder_env \<Rightarrow> 'c job list \<Rightarrow> writer \<Rightarrow> recorded list" where
  "items_from env jobs w \<equiv> job_items env jobs (enc_previous (w_encoder w)) (w_images w) (w_last_t w)"

text \<open>One job written: its lines, and the recording of the jobs after it.\<close>

lemma write_job_lines:
  assumes env: "env_ok env" and job: "write_job env dropped job w = (None, w1)"
    and shown: "shown_stored (enc_previous (w_encoder w)) (w_images w)"
  shows "\<exists>events. w_file w1 = w_file w @ lines_of (env_serialize env) events \<and>
    shown_stored (enc_previous (w_encoder w1)) (w_images w1) \<and>
    (\<forall>js tail. record_events (env_unicode env) (items_from env (job # js) w @ tail) (w_encoder w)
       = events @ record_events (env_unicode env) (items_from env js w1 @ tail) (w_encoder w1))"
proof (cases job)
  case (FrameJob t c)
  then have frame: "write_frame env t c w = (None, w1)"
    using job by (auto simp: write_job_def split: option.splits prod.splits stop.splits)
  then obtain events shot st where res: "store_frame env (max t (w_last_t w)) c (w_images w)
      = Some (events, shot, st)"
    by (cases "store_frame env (max t (w_last_t w)) c (w_images w)") (auto simp: write_frame_def Let_def)
  show ?thesis
  proof (cases "enc_previous (w_encoder w) = Some shot")
    case True
    then have w1: "w1 = w\<lparr>w_images := st\<rparr>"
      using write_frame_same [OF res] frame by simp
    have "shown_stored (enc_previous (w_encoder w)) st"
      using unchanged_no_images(2) [OF env res] shown True by (simp add: shown_stored_def)
    then show ?thesis
      using True by (intro exI [of _ "[]"]) (simp add: w1 FrameJob res)
  next
    case False
    note new = write_frame_new [OF res False frame]
    define encoded where "encoded = fst (encode (env_unicode env) (max t (w_last_t w)) shot (w_encoder w))"
    have "encode (env_unicode env) (max t (w_last_t w)) shot (w_encoder w) = (encoded, w_encoder w1)"
      using new(5) by (simp add: encoded_def)
    then show ?thesis
      using False new shown_stored_after [OF env res]
      by (intro exI [of _ "events @ encoded"]) (simp add: FrameJob res encoded_def split_beta)
  qed
next
  case (EventJob e)
  then have event: "write_event env e w = (None, w1)"
    using job by (auto simp: write_job_def split: option.splits prod.splits stop.splits)
  then show ?thesis
    using write_event_None [OF event] shown by (intro exI [of _ "[e]"]) (simp add: EventJob)
next
  case (EndJob t reason)
  then show ?thesis using job by (auto simp: write_job_def split: prod.splits)
qed

lemma run_writer_file:
  assumes env: "env_ok env"
    and run: "run_writer env dropped (jobs @ [EndJob t reason]) w = (Some outcome, w')"
      "\<not> out_error outcome"
    and jobs: "\<And>t r. EndJob t r \<notin> set jobs"
    and shown: "shown_stored (enc_previous (w_encoder w)) (w_images w)"
  shows "\<exists>js rest t. jobs = js @ rest \<and> (out_reason outcome \<noteq> MaxBytes \<longrightarrow> rest = []) \<and>
    w_file w' = w_file w @ lines_of (env_serialize env)
      (record_events (env_unicode env)
         (items_from env js w
           @ [Inr (EndEvent \<lparr>end_t = t, end_why = out_reason outcome, end_totals = out_totals outcome\<rparr>)])
         (w_encoder w))"
  using run(1) jobs shown
proof (induction jobs arbitrary: w)
  case Nil
  then have "write_end env dropped (max t (w_last_t w)) reason False w = (outcome, w')"
    by (auto simp: write_job_def split: prod.splits)
  from write_end_ok [OF this run(2)] show ?case
    by (intro exI [of _ "[]"]) auto
next
  case (Cons job jobs)
  obtain out w1 where job: "write_job env dropped job w = (out, w1)"
    by (cases "write_job env dropped job w")
  show ?case
  proof (cases out)
    case (Some outcome1)
    then have "write_job env dropped job w = (Some outcome, w')"
      using job Cons.prems(1) by auto
    moreover have "\<And>t r. job \<noteq> EndJob t r"
      using Cons.prems(2) by (metis list.set_intros(1))
    ultimately obtain w2 t1 where stop: "out_reason outcome = MaxBytes" "w_file w2 = w_file w"
      "write_end env dropped t1 MaxBytes False w2 = (outcome, w')"
      using run_writer_stop [OF _ run(2)] by blast
    from write_end_ok [OF stop(3) run(2)] show ?thesis
      using stop(1,2) by (intro exI [of _ "[]"] exI [of _ "job # jobs"] exI [of _ t1]) simp
  next
    case None
    then obtain events where e: "w_file w1 = w_file w @ lines_of (env_serialize env) events"
      "shown_stored (enc_previous (w_encoder w1)) (w_images w1)"
      "\<And>js tail. record_events (env_unicode env) (items_from env (job # js) w @ tail) (w_encoder w)
         = events @ record_events (env_unicode env) (items_from env js w1 @ tail) (w_encoder w1)"
      using write_job_lines [OF env _ Cons.prems(3)] job by metis
    have "run_writer env dropped (jobs @ [EndJob t reason]) w1 = (Some outcome, w')"
      using Cons.prems(1) job None by simp
    from Cons.IH [OF this _ e(2)] Cons.prems(2) obtain js rest t1 where
      js: "jobs = js @ rest" "out_reason outcome \<noteq> MaxBytes \<longrightarrow> rest = []" and
      lines: "w_file w' = w_file w1 @ lines_of (env_serialize env)
        (record_events (env_unicode env)
           (items_from env js w1
             @ [Inr (EndEvent \<lparr>end_t = t1, end_why = out_reason outcome, end_totals = out_totals outcome\<rparr>)])
           (w_encoder w1))"
      by auto
    show ?thesis
      by (intro exI [of _ "job # js"] exI [of _ rest] exI [of _ t1])
        (simp only: js e(1,3) lines append.simps lines_of_append append_assoc; simp add: js)
  qed
qed

end
