(* ===== verification/RecordBounds.thy ===== *)
theory RecordBounds
  imports RecordFile
begin

text \<open>
  What a recording holds to: the queue its bounds, a refused frame its reason, every event its
  screen, and the file its size.
\<close>

subsection \<open>The queue\<close>


fun last_op :: "'c queue_op \<Rightarrow> bool" where
  "last_op (PushFrame t c is_last) = is_last"
| "last_op (PushFrameWith t c events is_last) = is_last"
| "last_op _ = False"

definition queue_small :: "'c recorder \<Rightarrow> bool" where
  "queue_small rc \<longleftrightarrow>
     q_frames (rec_queue rc) = frame_count (q_jobs (rec_queue rc)) \<and>
     q_frames (rec_queue rc) \<le> QUEUE_FRAMES \<and>
     length (q_jobs (rec_queue rc)) \<le> q_frames (rec_queue rc) + QUEUE_EVENTS
       + (if q_closed (rec_queue rc) then 1 else 0)"

lemma place_frame_small:
  assumes "place_frame (FrameJob t c) False rc = (placed, rc')" "queue_small rc"
  shows "queue_small rc' \<and> q_closed (rec_queue rc') = q_closed (rec_queue rc) \<and>
    queued_events (rec_queue rc') = queued_events (rec_queue rc)"
  using assms(1)
proof (cases rule: place_frame_cases)
  case append
  then show ?thesis
    using assms(2) frame_count_le [of "q_jobs (rec_queue rc)"]
    by (auto simp: queue_small_def queued_events_def)
next
  case (drop js v ks)
  then show ?thesis
    using assms(2) by (auto simp: queue_small_def queued_events_def)
next
  case refuse
  then show ?thesis using assms(2) by simp
qed

lemma do_op_small:
  assumes "queue_small (run_rc r)" "\<not> last_op op"
  shows "queue_small (run_rc (do_op op r))"
proof (cases op)
  case (PushFrame t c is_last)
  obtain placed rc where p: "push t c False (run_rc r) = (placed, rc)"
    by (cases "push t c False (run_rc r)")
  have "queue_small rc"
  proof (cases "q_closed (rec_queue (run_rc r))")
    case True
    then show ?thesis using p assms(1) by (simp add: push_def)
  next
    case False
    then have "place_frame (FrameJob t c) False (run_rc r) = (placed, rc)"
      using p by (simp add: push_def)
    from place_frame_small [OF this assms(1)] show ?thesis by simp
  qed
  then show ?thesis
    using assms(2) p by (simp add: PushFrame)
next
  case (PushFrameWith t c events is_last)
  obtain placed rc where p: "push_frame_with t c events False (run_rc r) = (placed, rc)"
    by (cases "push_frame_with t c events False (run_rc r)")
  have "queue_small rc"
  proof (cases "q_closed (rec_queue (run_rc r)) \<or>
      queued_events (rec_queue (run_rc r)) + length events > QUEUE_EVENTS")
    case True
    then show ?thesis using p assms(1) by (auto simp: push_frame_with_def split: if_splits)
  next
    case False
    obtain b rc1 where one: "place_frame (FrameJob t c) False (run_rc r) = (b, rc1)"
      by (cases "place_frame (FrameJob t c) False (run_rc r)")
    from place_frame_small [OF one assms(1)] show ?thesis
      using False p one frame_count_le [of "q_jobs (rec_queue rc1)"]
      by (cases b) (auto simp: push_frame_with_def queue_small_def queued_events_def)
  qed
  then show ?thesis
    using assms(2) p by (simp add: PushFrameWith)
next
  case (PushEvent e)
  then show ?thesis
    using assms(1) frame_count_le [of "q_jobs (rec_queue (run_rc r))"]
    by (auto simp: push_event_def queue_small_def queued_events_def)
next
  case (Finish t reason)
  then show ?thesis
    using assms(1) by (auto simp: finish_def queue_small_def)
next
  case PopJob
  then show ?thesis
    using assms(1)
    by (cases "q_jobs (rec_queue (run_rc r))") (auto simp: pop_job_def queue_small_def split: if_splits)
qed

text \<open>
  Before the last frame the queue holds at most \<^verbatim>\<open>QUEUE_FRAMES\<close> frames and \<^verbatim>\<open>QUEUE_EVENTS\<close> events, and
  the end: the recorder's memory does not grow with the disk's delay.
\<close>

lemma queue_bounded:
  assumes "\<forall>op \<in> set ops. \<not> last_op op"
  shows "queue_small (run_rc (fold do_op ops empty_run))"
proof -
  have "queue_small (run_rc (fold do_op ops r))" if "queue_small (run_rc r)" for r
    using assms that by (induction ops arbitrary: r) (auto simp: do_op_small)
  moreover have "queue_small (run_rc empty_run)"
    by (simp add: queue_small_def empty_run_def empty_recorder_def)
  ultimately show ?thesis by blast
qed

lemma find_None_iff: "find p xs = None \<longleftrightarrow> (\<forall>x \<in> set xs. \<not> p x)"
  by (induction xs) auto

text \<open>
  A frame is refused only while the recording is open, never as the last one of a queue within its
  bound, and only when all the queued frames, at least \<^verbatim>\<open>QUEUE_FRAMES\<close> of them, are screens that an
  event happened on: each is directly followed by one.
\<close>

theorem refused_only_for_events:
  assumes ok: "queue_ok rc" and opened: "\<not> q_closed (rec_queue rc)"
    and refused: "push t c is_last rc = (False, rc')"
  shows "rc' = rc \<and> QUEUE_FRAMES \<le> frame_count (q_jobs (rec_queue rc)) \<and>
    (is_last \<longrightarrow> QUEUE_FRAMES < frame_count (q_jobs (rec_queue rc))) \<and>
    (\<forall>i < length (q_jobs (rec_queue rc)). is_frame (q_jobs (rec_queue rc) ! i) \<longrightarrow>
       i + 1 < length (q_jobs (rec_queue rc)) \<and> \<not> is_frame (q_jobs (rec_queue rc) ! (i + 1)))"
proof -
  have placed: "place_frame (FrameJob t c) is_last rc = (False, rc')"
    using refused opened by (simp add: push_def)
  then have r: "rc' = rc" "q_frames (rec_queue rc) \<ge> QUEUE_FRAMES"
      "find_victim (q_jobs (rec_queue rc)) = None"
      "q_jobs (rec_queue rc) \<noteq> [] \<longrightarrow> \<not> is_frame (last (q_jobs (rec_queue rc)))"
    by (auto elim: place_frame_cases)
  have "\<not> (is_last \<and> q_frames (rec_queue rc) = QUEUE_FRAMES)"
    using placed r(3,4) by (auto simp: place_frame_def Let_def)
  moreover have "i + 1 < length (q_jobs (rec_queue rc)) \<and> \<not> is_frame (q_jobs (rec_queue rc) ! (i + 1))"
    if i: "i < length (q_jobs (rec_queue rc))" "is_frame (q_jobs (rec_queue rc) ! i)" for i
  proof -
    have "i + 1 \<noteq> length (q_jobs (rec_queue rc))"
      using r(4) i by (metis add_diff_cancel_right' last_conv_nth length_0_conv less_nat_zero_code)
    then have less: "i + 1 < length (q_jobs (rec_queue rc))"
      using i(1) by simp
    then show ?thesis
      using r(3) i(2) by (auto simp: find_victim_def find_None_iff)
  qed
  ultimately show ?thesis
    using r(1,2) ok by (auto simp: queue_ok_def)
qed

subsection \<open>The size of the file\<close>

definition in_limit :: "writer \<Rightarrow> bool" where
  "in_limit w \<longleftrightarrow> length (w_file w) = tot_bytes (w_totals w) \<and>
     tot_bytes (w_totals w) + END_RESERVE \<le> w_max_bytes w"

lemma write_events_within:
  assumes "in_limit w" "write_events env events w = (stop, w')"
  shows "w_max_bytes w' = w_max_bytes w" "length (w_file w') + END_RESERVE \<le> w_max_bytes w'"
    "stop = None \<Longrightarrow> in_limit w'"
  using assms by (auto simp: in_limit_def write_events_def Let_def split: if_splits option.splits)

lemma count_event_bytes [simp]: "tot_bytes (count_event e n) = tot_bytes n"
  by (cases e) auto

lemma count_events_bytes [simp]: "tot_bytes (fold count_event es n) = tot_bytes n"
  by (induction es arbitrary: n) auto

lemma write_frame_within:
  assumes "in_limit w" "write_frame env t c w = (stop, w')"
  shows "w_max_bytes w' = w_max_bytes w \<and> length (w_file w') + END_RESERVE \<le> w_max_bytes w' \<and>
    (stop = None \<longrightarrow> in_limit w')"
proof (cases "store_frame env (max t (w_last_t w)) c (w_images w)")
  case None
  then show ?thesis
    using assms by (auto simp: write_frame_def in_limit_def)
next
  case (Some res)
  then obtain events shot st where res: "store_frame env (max t (w_last_t w)) c (w_images w)
      = Some (events, shot, st)"
    by (cases res) auto
  obtain encoded enc where enc: "encode (env_unicode env) (max t (w_last_t w)) shot (w_encoder w) = (encoded, enc)"
    by (cases "encode (env_unicode env) (max t (w_last_t w)) shot (w_encoder w)")
  show ?thesis
  proof (cases "encoded = []")
    case True
    then show ?thesis
      using assms by (auto simp: write_frame_def res enc Let_def in_limit_def)
  next
    case False
    define w1 where "w1 = w\<lparr>w_images := st, w_encoder := enc, w_last_t := max t (w_last_t w)\<rparr>"
    have w1: "in_limit w1" "w_max_bytes w1 = w_max_bytes w"
      using assms(1) by (simp_all add: w1_def in_limit_def)
    obtain s w2 where w2: "write_events env (events @ encoded) w1 = (s, w2)"
      by (cases "write_events env (events @ encoded) w1")
    have "(stop, w') = (case s of Some x \<Rightarrow> (Some x, w2)
        | None \<Rightarrow> (None, w2\<lparr>w_totals := fold count_event (events @ encoded) (w_totals w2)\<rparr>))"
      using assms(2) False w2 by (simp add: write_frame_def res enc Let_def w1_def split: option.splits)
    then show ?thesis
      using write_events_within [OF w1(1) w2] w1(2)
      by (cases s) (auto simp: in_limit_def)
  qed
qed

lemma write_event_within:
  assumes "in_limit w" "write_event env e w = (stop, w')"
  shows "w_max_bytes w' = w_max_bytes w \<and> length (w_file w') + END_RESERVE \<le> w_max_bytes w' \<and>
    (stop = None \<longrightarrow> in_limit w')"
proof -
  define w1 where "w1 = w\<lparr>w_last_t := max (w_last_t w) (case event_time e of Some t \<Rightarrow> t | None \<Rightarrow> 0)\<rparr>"
  have w1: "in_limit w1" "w_max_bytes w1 = w_max_bytes w"
    using assms(1) by (simp_all add: w1_def in_limit_def)
  obtain s w2 where w2: "write_events env [e] w1 = (s, w2)"
    by (cases "write_events env [e] w1")
  have "(stop, w') = (case s of Some x \<Rightarrow> (Some x, w2)
      | None \<Rightarrow> (None, if is_mark e
           then w2\<lparr>w_totals := (w_totals w2)\<lparr>tot_marks := tot_marks (w_totals w2) + 1\<rparr>\<rparr> else w2))"
    using assms(2) w2 by (simp add: write_event_def Let_def w1_def split: option.splits)
  then show ?thesis
    using write_events_within [OF w1(1) w2] w1(2)
    by (cases s) (auto simp: in_limit_def)
qed

text \<open>A file with room for its end: bytes within the limit, and of the end line as many as were written.\<close>

definition ends_within :: "'c recorder_env \<Rightarrow> recorder_outcome option \<Rightarrow> writer \<Rightarrow> bool" where
  "ends_within env out w \<longleftrightarrow>
     (\<exists>body. length body + END_RESERVE \<le> w_max_bytes w \<and>
        (case out of
           None \<Rightarrow> w_file w = body
         | Some outcome \<Rightarrow> \<exists>t reason n. w_file w = body @ take n (event_line (env_serialize env)
             (EndEvent \<lparr>end_t = t, end_why = reason, end_totals = out_totals outcome\<rparr>))))"

lemma write_end_within:
  assumes "length (w_file w) + END_RESERVE \<le> w_max_bytes w"
    and "write_end env dropped t reason failed w = (outcome, w')"
  shows "w_max_bytes w' = w_max_bytes w \<and> ends_within env (Some outcome) w'"
proof -
  define line where "line = event_line (env_serialize env)
    (EndEvent \<lparr>end_t = t, end_why = reason, end_totals = (w_totals w)\<lparr>tot_dropped := dropped\<rparr>\<rparr>)"
  obtain n where n: "w_file w' = w_file w @ take n line" "w_max_bytes w' = w_max_bytes w"
    "out_totals outcome = (w_totals w)\<lparr>tot_dropped := dropped\<rparr>"
  proof (cases "env_disk env (w_file w) line")
    case None
    then show thesis
      using assms(2) by (intro that [of "length line"]) (auto simp: write_end_def Let_def line_def)
  next
    case (Some m)
    then show thesis
      using assms(2) by (intro that [of m]) (auto simp: write_end_def Let_def line_def)
  qed
  then show ?thesis
    using assms(1) unfolding ends_within_def line_def by auto
qed

lemma write_job_within:
  assumes "in_limit w" "write_job env dropped job w = (out, w')"
  shows "w_max_bytes w' = w_max_bytes w \<and> ends_within env out w' \<and> (out = None \<longrightarrow> in_limit w')"
proof (cases "\<exists>t reason. job = EndJob t reason")
  case True
  then show ?thesis
    using assms write_end_within [of w env dropped] by (auto simp: write_job_def in_limit_def split: prod.splits)
next
  case False
  obtain stop w1 where res: "(case job of FrameJob t captured \<Rightarrow> write_frame env t captured w
      | EventJob event \<Rightarrow> write_event env event w | EndJob t reason \<Rightarrow> (None, w)) = (stop, w1)"
    by (cases "case job of FrameJob t captured \<Rightarrow> write_frame env t captured w
      | EventJob event \<Rightarrow> write_event env event w | EndJob t reason \<Rightarrow> (None, w)")
  have w1: "w_max_bytes w1 = w_max_bytes w" "length (w_file w1) + END_RESERVE \<le> w_max_bytes w1"
    "stop = None \<Longrightarrow> in_limit w1"
    using res False write_frame_within [OF assms(1)] write_event_within [OF assms(1)]
    by (cases job; fastforce)+
  have job: "write_job env dropped job w = (case stop of
      None \<Rightarrow> (None, w1)
    | Some StopMaxBytes \<Rightarrow>
        (case write_end env dropped (w_last_t w1) MaxBytes False w1 of (outcome, w) \<Rightarrow> (Some outcome, w))
    | Some StopFailed \<Rightarrow>
        (case write_end env dropped (w_last_t w1) WriteFailed True w1 of (outcome, w) \<Rightarrow> (Some outcome, w)))"
    using res False by (cases job) (auto simp: write_job_def split: option.splits stop.splits)
  show ?thesis
  proof (cases stop)
    case None
    then show ?thesis
      using job assms(2) w1 by (auto simp: ends_within_def)
  next
    case (Some s)
    then show ?thesis
      using job assms(2) w1(1) by (cases s) (auto split: prod.splits dest: write_end_within [OF w1(2)])
  qed
qed

text \<open>
  C24: a recording never outgrows its \<^verbatim>\<open>max_bytes\<close> by more than its \<^verbatim>\<open>end\<close> line, for which it keeps
  \<^verbatim>\<open>END_RESERVE\<close> bytes: not when the disk fails halfway through a write, and not when one frame is
  larger than the room that is left.
\<close>

theorem file_within_limit:
  assumes "length header + 1 + END_RESERVE \<le> max_bytes"
  shows "ends_within env (fst (run_writer env dropped jobs (new_writer header max_bytes)))
      (snd (run_writer env dropped jobs (new_writer header max_bytes))) \<and>
    w_max_bytes (snd (run_writer env dropped jobs (new_writer header max_bytes))) = max_bytes"
proof -
  have "ends_within env (fst (run_writer env dropped jobs w)) (snd (run_writer env dropped jobs w)) \<and>
      w_max_bytes (snd (run_writer env dropped jobs w)) = w_max_bytes w" if "in_limit w" for w
    using that
  proof (induction jobs arbitrary: w)
    case Nil
    then show ?case by (simp add: ends_within_def in_limit_def)
  next
    case (Cons job jobs)
    obtain out w1 where job: "write_job env dropped job w = (out, w1)"
      by (cases "write_job env dropped job w")
    show ?case
      using write_job_within [OF Cons.prems job] Cons.IH [of w1] job by (cases out) auto
  qed
  moreover have "in_limit (new_writer header max_bytes)"
    using assms by (simp add: in_limit_def new_writer_def new_totals_def)
  ultimately show ?thesis
    by (simp add: new_writer_def)
qed

subsection \<open>Keyframes\<close>

text \<open>
  Along the events of a recording, from the time of the last keyframe and the deltas since: every
  delta comes less than the interval after the last keyframe, and at most \<^verbatim>\<open>MAX_DELTAS_PER_KEYFRAME\<close>
  of them before the next.
\<close>

fun cadence :: "nat \<Rightarrow> nat \<Rightarrow> nat \<Rightarrow> recording_event list \<Rightarrow> bool" where
  "cadence interval at_t n [] \<longleftrightarrow> True"
| "cadence interval at_t n (Keyframe t frame # events) \<longleftrightarrow> cadence interval t 0 events"
| "cadence interval at_t n (Delta delta # events) \<longleftrightarrow>
     n < MAX_DELTAS_PER_KEYFRAME \<and> fd_t delta - at_t < interval \<and> cadence interval at_t (n + 1) events"
| "cadence interval at_t n (_ # events) \<longleftrightarrow> cadence interval at_t n events"

definition frame_event :: "recording_event \<Rightarrow> bool" where
  "frame_event e = (case e of Keyframe t frame \<Rightarrow> True | Delta delta \<Rightarrow> True | _ \<Rightarrow> False)"

text \<open>
  A keyframe is never further back than the interval or \<^verbatim>\<open>MAX_DELTAS_PER_KEYFRAME\<close> deltas, whatever
  frames and events are recorded: a player that joins at a keyframe has at most that much to read.
\<close>

theorem keyframe_cadence:
  assumes "\<forall>e. Inr e \<in> set items \<longrightarrow> \<not> frame_event e"
  shows "cadence (enc_interval enc) (enc_last_keyframe enc) (enc_deltas enc) (record_events u items enc)"
  using assms
proof (induction items arbitrary: enc)
  case Nil
  then show ?case by simp
next
  case (Cons item items)
  have rest: "cadence (enc_interval enc') (enc_last_keyframe enc') (enc_deltas enc') (record_events u items enc')"
    for enc'
    using Cons.IH Cons.prems by simp
  show ?case
  proof (cases item)
    case (Inl tf)
    obtain t frame where tf: "tf = (t, frame)" by (cases tf)
    note key = rest [of "enc\<lparr>enc_last_keyframe := t, enc_deltas := 0, enc_previous := Some frame\<rparr>"]
    note delta = rest [of "enc\<lparr>enc_deltas := enc_deltas enc + 1, enc_previous := Some frame\<rparr>"]
    show ?thesis
      using rest [of enc] key delta unfolding Inl tf record_events.simps encode_def keyframe_def
      by (auto simp: frame_diff_def split: option.splits)
  next
    case (Inr e)
    then show ?thesis
      using rest [of enc] Cons.prems by (cases e) (auto simp: frame_event_def)
  qed
qed

subsection \<open>Witnesses\<close>

text \<open>Eight screens, each with a mark: no room for a ninth.\<close>

definition demo_full :: "nat recorder" where
  "demo_full = \<lparr>rec_queue = \<lparr>q_jobs = concat (map (\<lambda>i. [FrameJob i i, EventJob (Mark i ''m'')]) [0..<8]),
     q_frames = 8, q_closed = False\<rparr>, rec_dropped = 0\<rparr>"

lemma demo_full_refuses:
  "queue_ok demo_full" "\<not> q_closed (rec_queue demo_full)" "push 9 9 False demo_full = (False, demo_full)"
  by (simp_all add: queue_ok_def demo_full_def push_def place_frame_def QUEUE_FRAMES_def Let_def
      find_victim_def upt_rec)

theorem refused_only_for_events_witness:
  "\<not> q_closed (rec_queue demo_full) \<and> push 9 9 False demo_full = (False, demo_full) \<and>
   QUEUE_FRAMES \<le> frame_count (q_jobs (rec_queue demo_full))"
  using refused_only_for_events [OF demo_full_refuses] demo_full_refuses(2,3) by simp

definition demo_env :: "nat recorder_env" where
  "demo_env = \<lparr>env_unicode = \<lparr>graphemes = map (\<lambda>c. [c]), str_width = (\<lambda>_. 1)\<rparr>, env_images = (\<lambda>_. []),
     env_span_frame = (\<lambda>_. None), env_png_base64 = (\<lambda>_. None), env_sha256 = (\<lambda>s. s),
     env_serialize = (\<lambda>_. ''line''), env_disk = (\<lambda>_ _. None)\<rparr>"

theorem keyframe_cadence_witness:
  "cadence 10 0 0 (record_events \<lparr>graphemes = map (\<lambda>c. [c]), str_width = (\<lambda>_. 1)\<rparr>
     [Inr (Mark 3 ''m'')] (new_encoder 10))"
  using keyframe_cadence [of "[Inr (Mark 3 ''m'')]" "new_encoder 10"]
  by (simp add: frame_event_def new_encoder_def)

theorem file_within_limit_witness:
  "fst (run_writer demo_env 0 [EventJob (Mark 1 ''m''), EndJob 2 Stopped] (new_writer ''h'' 2000)) \<noteq> None \<and>
   ends_within demo_env
     (fst (run_writer demo_env 0 [EventJob (Mark 1 ''m''), EndJob 2 Stopped] (new_writer ''h'' 2000)))
     (snd (run_writer demo_env 0 [EventJob (Mark 1 ''m''), EndJob 2 Stopped] (new_writer ''h'' 2000)))"
proof -
  have "length ''h'' + 1 + END_RESERVE \<le> 2000"
    by (simp add: END_RESERVE_def)
  from file_within_limit [OF this, of demo_env 0 "[EventJob (Mark 1 ''m''), EndJob 2 Stopped]"]
  show ?thesis
    by (simp add: write_job_def write_event_def write_events_def Let_def demo_env_def new_writer_def
        new_totals_def END_RESERVE_def event_line_def lines_of_def write_end_def)
qed

end
