(* ===== verification/RecordingDraw.thy ===== *)
theory RecordingDraw
  imports FrameCodec
begin

text \<open>
  Drawing a recorded frame as terminal cells (\<^verbatim>\<open>src/recording/frame.rs\<close>): the grid of
  \<^verbatim>\<open>captured_frame\<close>, colours and styles as the framework names them.  Images and the cursor are laid
  over the grid by the framework and are not modelled.
\<close>

subsection \<open>Cells\<close>

datatype color = ColorReset | ColorBlack | ColorRed | ColorGreen | ColorYellow | ColorBlue
  | ColorMagenta | ColorCyan | ColorGray | ColorDarkGray | ColorLightRed | ColorLightGreen
  | ColorLightYellow | ColorLightBlue | ColorLightMagenta | ColorLightCyan | ColorWhite
  | ColorIndexed nat | ColorRgb nat nat nat

record cell_modifiers =
  mod_bold :: bool
  mod_dim :: bool
  mod_italic :: bool
  mod_underline :: "span_underline option"
  mod_reverse :: bool
  mod_strikethrough :: bool

record captured_cell =
  cell_symbol :: string
  cell_fg :: color
  cell_bg :: color
  cell_underline_color :: color
  cell_modifiers :: cell_modifiers

text \<open>\<^verbatim>\<open>u8::from_str_radix(.., 16)\<close> of a two-character slice; a leading plus is a sign it accepts.\<close>

definition hex_digit :: "char \<Rightarrow> nat option" where
  "hex_digit c =
     (let n = of_char c :: nat
      in if 48 \<le> n \<and> n \<le> 57 then Some (n - 48)
         else if 97 \<le> n \<and> n \<le> 102 then Some (n - 87)
         else if 65 \<le> n \<and> n \<le> 70 then Some (n - 55) else None)"

fun hex_channel :: "string \<Rightarrow> nat option" where
  "hex_channel [a, b] =
     (if a = CHR ''+'' then hex_digit b
      else case (hex_digit a, hex_digit b) of (Some x, Some y) \<Rightarrow> Some (16 * x + y) | _ \<Rightarrow> None)"
| "hex_channel _ = None"

definition parse_hex :: "string \<Rightarrow> (nat \<times> nat \<times> nat) option" where
  "parse_hex hex =
     (case hex of
        [] \<Rightarrow> None
      | c # digits \<Rightarrow>
          if c \<noteq> CHR ''#'' \<or> length digits \<noteq> 6 then None
          else (case (hex_channel (take 2 digits), hex_channel (take 2 (drop 2 digits)),
                      hex_channel (take 2 (drop 4 digits))) of
                  (Some r, Some g, Some b) \<Rightarrow> Some (r, g, b)
                | _ \<Rightarrow> None))"

fun ansi_color :: "ansi_color_name \<Rightarrow> color" where
  "ansi_color Black = ColorBlack"
| "ansi_color Red = ColorRed"
| "ansi_color Green = ColorGreen"
| "ansi_color Yellow = ColorYellow"
| "ansi_color Blue = ColorBlue"
| "ansi_color Magenta = ColorMagenta"
| "ansi_color Cyan = ColorCyan"
| "ansi_color White = ColorGray"
| "ansi_color BrightBlack = ColorDarkGray"
| "ansi_color BrightRed = ColorLightRed"
| "ansi_color BrightGreen = ColorLightGreen"
| "ansi_color BrightYellow = ColorLightYellow"
| "ansi_color BrightBlue = ColorLightBlue"
| "ansi_color BrightMagenta = ColorLightMagenta"
| "ansi_color BrightCyan = ColorLightCyan"
| "ansi_color BrightWhite = ColorWhite"

fun draw_color :: "span_color \<Rightarrow> color" where
  "draw_color (Indexed index) = ColorIndexed index"
| "draw_color (Named name) = ansi_color name"
| "draw_color (Rgb hex) = (case parse_hex hex of Some (r, g, b) \<Rightarrow> ColorRgb r g b | None \<Rightarrow> ColorReset)"

definition option_color :: "span_color option \<Rightarrow> color" where
  "option_color c = (case c of None \<Rightarrow> ColorReset | Some c \<Rightarrow> draw_color c)"

definition captured_style :: "span_look \<Rightarrow> captured_cell" where
  "captured_style look =
     \<lparr>cell_symbol = [], cell_fg = option_color (look_fg look), cell_bg = option_color (look_bg look),
      cell_underline_color = option_color (look_underline_color look),
      cell_modifiers = \<lparr>mod_bold = look_bold look, mod_dim = look_dim look, mod_italic = look_italic look,
        mod_underline = look_underline look, mod_reverse = look_reverse look,
        mod_strikethrough = look_strikethrough look\<rparr>\<rparr>"

definition captured_cell_of :: "span_run \<Rightarrow> captured_cell" where
  "captured_cell_of r = (captured_style (run_look r))\<lparr>cell_symbol := run_text r\<rparr>"

definition blank_cell :: captured_cell where
  "blank_cell = \<lparr>cell_symbol = '' '', cell_fg = ColorReset, cell_bg = ColorReset,
     cell_underline_color = ColorReset,
     cell_modifiers = \<lparr>mod_bold = False, mod_dim = False, mod_italic = False, mod_underline = None,
       mod_reverse = False, mod_strikethrough = False\<rparr>\<rparr>"

subsection \<open>Placing runs\<close>

fun place_glyphs ::
  "unicode \<Rightarrow> captured_cell \<Rightarrow> nat \<Rightarrow> nat \<Rightarrow> string list \<Rightarrow> captured_cell list
   \<Rightarrow> nat \<times> captured_cell list" where
  "place_glyphs u style stop x [] line = (x, line)"
| "place_glyphs u style stop x (g # gs) line =
     (if stop \<le> x then (x, line)
      else let w = max (str_width u g) 1;
               line = line[x := style\<lparr>cell_symbol := g\<rparr>];
               line = fill_range (x + 1) (min stop (x + w)) style line
           in place_glyphs u style stop (x + w) gs line)"

definition place_run :: "unicode \<Rightarrow> span_run \<Rightarrow> captured_cell list \<Rightarrow> captured_cell list" where
  "place_run u r line =
     (let style = captured_style (run_look r);
          stop = min (min (run_x r + run_width r) (2 ^ 16 - 1)) (length line);
          (x, line) = place_glyphs u style stop (run_x r) (graphemes u (run_text r)) line
      in fill_range x stop (style\<lparr>cell_symbol := '' ''\<rparr>) line)"

text \<open>
  The cells of \<^verbatim>\<open>captured_frame\<close>, line after line; a row past the height is left out, a line past
  the rows is blank.
\<close>

definition frame_cells :: "unicode \<Rightarrow> span_frame \<Rightarrow> captured_cell list" where
  "frame_cells u frame =
     concat (map (\<lambda>y. fold (place_run u) (if y < length (sf_rows frame) then sf_rows frame ! y else [])
                        (replicate (sf_width frame) blank_cell))
       [0..<sf_height frame])"

subsection \<open>Drawing agrees with the columns of the row changes\<close>

text \<open>What a column of \<^verbatim>\<open>rows.rs\<close> looks like.\<close>

definition cell_of :: "column \<Rightarrow> captured_cell" where
  "cell_of c = (captured_style (col_look c))\<lparr>cell_symbol := col_text c\<rparr>"

lemma map_fill_range: "map f (fill_range i j v xs) = fill_range i j (f v) (map f xs)"
  unfolding fill_range_def by (intro nth_equalityI) auto

lemma place_glyphs_columns:
  "place_glyphs u (captured_style k) stop x gs (map cell_of cols)
    = (fst (lay_glyphs u k stop x gs cols), map cell_of (snd (lay_glyphs u k stop x gs cols)))"
proof (induction u k stop x gs cols rule: lay_glyphs.induct)
  case (1 u k stop x cols)
  then show ?case by simp
next
  case (2 u k stop x g gs cols)
  have "captured_style k = cell_of \<lparr>col_text = [], col_width = 0, col_look = k\<rparr>"
    by (simp add: cell_of_def captured_style_def)
  moreover have "(captured_style k)\<lparr>cell_symbol := g\<rparr>
      = cell_of \<lparr>col_text = g, col_width = max (str_width u g) 1 mod 2 ^ 16, col_look = k\<rparr>"
    by (simp add: cell_of_def)
  ultimately show ?case
    using 2 by (auto simp: Let_def map_update [symmetric] map_fill_range [symmetric])
qed

lemma place_run_columns: "place_run u r (map cell_of cols) = map cell_of (lay_run u r cols)"
  by (simp add: place_run_def lay_run_def Let_def place_glyphs_columns split_beta map_fill_range
      cell_of_def BLANK_def)

lemma place_row_columns:
  "fold (place_run u) row (map cell_of cols) = map cell_of (lay u cols row)"
  by (induction row arbitrary: cols) (simp_all add: place_run_columns)

lemma blank_cell_column: "blank_cell = cell_of BLANK"
  by (simp add: blank_cell_def cell_of_def BLANK_def captured_style_def DEFAULT_STYLE_def option_color_def)

text \<open>
  C40: a player draws exactly the columns that \<^verbatim>\<open>rows.rs\<close> compares and patches: the two loops that lay
  runs out agree on every row, however its runs overlap, leave gaps or overrun the width.
\<close>

theorem drawing_is_columns:
  "frame_cells u frame =
     concat (map (\<lambda>y. map cell_of (columns u (if y < length (sf_rows frame) then sf_rows frame ! y else [])
                                     (sf_width frame))) [0..<sf_height frame])"
  unfolding frame_cells_def columns_def blank_cell_column map_replicate [symmetric]
  by (simp only: place_row_columns)

end
