(* ===== verification/Recording.thy ===== *)
theory Recording
  imports RecordFile
begin

text \<open>
  The recording end to end: what the queue keeps, what the writer leaves in the file, and what a
  player makes of the file, whole or cut short.
\<close>

subsection \<open>What the writer records is what a reader takes\<close>

definition store_named :: "image_store \<Rightarrow> bool" where
  "store_named st \<longleftrightarrow> (\<forall>(buffer, name) \<in> set (is_previous st). length name \<le> MAX_IMAGE_ID_LEN)"

lemma length_content_id: "length (content_id sha img) \<le> MAX_IMAGE_ID_LEN"
proof -
  have "length (concat (map hex_byte cs)) = 2 * length cs" for cs
    by (induction cs) (auto simp: hex_byte_def)
  then show ?thesis
    by (simp add: content_id_def MAX_IMAGE_ID_LEN_def)
qed

lemma image_name_short:
  "\<forall>(buffer, name) \<in> set previous. length name \<le> MAX_IMAGE_ID_LEN
   \<Longrightarrow> length (image_name sha previous img) \<le> MAX_IMAGE_ID_LEN"
  using length_content_id by (auto simp: image_name_def dest!: find_SomeD split: option.splits)

lemma name_images_Cons:
  assumes "name_images env previous t (img # imgs) (sp # sps) stored = Some (events, sps', current, stored')"
  defines "name \<equiv> image_name (env_sha256 env) previous img"
  obtains events1 sps1 current1 where
    "name_images env previous t imgs sps (insert name stored) = Some (events1, sps1, current1, stored')"
    "sps' = sp\<lparr>image_id := Some name\<rparr> # sps1" "current = (ci_buffer img, name) # current1"
proof (cases "name \<in> stored")
  case True
  then show thesis
    using assms that by (auto simp: Let_def insert_absorb split: option.splits)
next
  case False
  then show thesis
    using assms that by (auto simp: Let_def split: option.splits)
qed

text \<open>The names kept for the next frame are short, and naming changes nothing a reader checks.\<close>

lemma check_image_id: "check_image (sp\<lparr>image_id := name\<rparr>) = check_image sp"
  by (simp add: check_image_def Let_def)

lemma name_images_kept:
  assumes "name_images env previous t imgs sps stored = Some (events, sps', current, stored')"
    and "\<forall>(buffer, name) \<in> set previous. length name \<le> MAX_IMAGE_ID_LEN"
  shows "(\<forall>(buffer, name) \<in> set current. length name \<le> MAX_IMAGE_ID_LEN) \<and>
    check_images sps' = check_images sps"
  using assms(1)
proof (induction imgs arbitrary: sps stored events sps' current)
  case Nil
  then show ?case by simp
next
  case (Cons img imgs)
  show ?case
  proof (cases sps)
    case Nil
    then show ?thesis using Cons.prems by simp
  next
    case (Cons sp sps1)
    obtain events1 sps2 current1 where rest: "name_images env previous t imgs sps1
        (insert (image_name (env_sha256 env) previous img) stored) = Some (events1, sps2, current1, stored')"
      "sps' = sp\<lparr>image_id := Some (image_name (env_sha256 env) previous img)\<rparr> # sps2"
      "current = (ci_buffer img, image_name (env_sha256 env) previous img) # current1"
      by (rule name_images_Cons [OF Cons.prems [unfolded \<open>sps = sp # sps1\<close>]])
    from Cons.IH [OF rest(1)] show ?thesis
      using image_name_short [OF assms(2)]
      by (cases "check_image sp") (simp_all add: rest(2,3) \<open>sps = sp # sps1\<close> check_image_id)
  qed
qed

lemma store_frame_ok:
  assumes env: "env_ok env" and named: "store_named st"
    and frame: "store_frame env t c st = Some (events, shot, st')"
  shows "frame_ok (env_unicode env) shot" "check_frame shot = None" "store_named st'"
    "\<forall>e \<in> set events. recorded_ok (env_unicode env) (Inr e)"
proof -
  obtain frame sps' current stored' where f: "env_span_frame env c = Some frame"
    and n: "name_images env (is_previous st) t (env_images env c) (sf_images frame) (is_stored st)
      = Some (events, sps', current, stored')"
    and res: "shot = frame\<lparr>sf_images := sps'\<rparr>" "st' = \<lparr>is_stored = stored', is_previous = current\<rparr>"
    using frame by (auto simp: store_frame_def split: option.splits)
  have ok: "frame_ok (env_unicode env) frame" "check_frame frame = None"
    "\<forall>img \<in> set (env_images env c). ci_width img * ci_height img * 4 \<le> MAX_IMAGE_BYTES"
    using env f by (simp_all add: env_ok_def)
  show "frame_ok (env_unicode env) shot"
    using ok(1) by (simp add: res frame_ok_def)
  show "check_frame shot = None"
    using ok(2) name_images_kept [OF n] named by (simp add: res check_frame_def store_named_def split: if_splits)
  show "store_named st'"
    using name_images_kept [OF n] named by (simp add: res store_named_def)
  show "\<forall>e \<in> set events. recorded_ok (env_unicode env) (Inr e)"
    using store_frame_spec(6) [OF env frame] ok(3) named
    by (fastforce simp: storable_def store_named_def intro!: image_name_short)
qed

lemma job_items_ok:
  assumes env: "env_ok env" and "quiet jobs" "store_named st"
  shows "\<forall>item \<in> set (job_items env jobs shown st now). recorded_ok (env_unicode env) item"
  using assms(2,3)
proof (induction jobs arbitrary: shown st now)
  case Nil
  then show ?case by simp
next
  case (Cons job jobs)
  show ?case
  proof (cases job)
    case (FrameJob t c)
    show ?thesis
    proof (cases "store_frame env (max t now) c st")
      case None
      then show ?thesis by (simp add: FrameJob)
    next
      case (Some res)
      then obtain events shot st' where res: "store_frame env (max t now) c st = Some (events, shot, st')"
        by (cases res) auto
      note ok = store_frame_ok [OF env Cons.prems(2) res]
      have "quiet jobs"
        using Cons.prems(1) by (simp add: FrameJob)
      from Cons.IH [OF this ok(3)] show ?thesis
        using ok by (auto simp: FrameJob res)
    qed
  next
    case (EventJob e)
    then show ?thesis
      using Cons by auto
  next
    case (EndJob t reason)
    then show ?thesis by simp
  qed
qed

lemma quiet_append: "quiet (js @ ks) \<longleftrightarrow> quiet js \<and> quiet ks"
  by (auto simp: quiet_def)

lemma images_first_append_end:
  assumes "images_first stored items"
  shows "images_first stored (items @ [Inr (EndEvent e)])"
  unfolding images_first_def
proof (intro conjI allI impI)
  have "item_images (items @ [Inr (EndEvent e)]) = item_images items"
    by (simp add: image_ids_def)
  then show "distinct (item_images (items @ [Inr (EndEvent e)]))"
    "set (item_images (items @ [Inr (EndEvent e)])) \<inter> stored = {}"
    using assms by (simp_all add: images_first_def)
  fix xs t shot ys
  assume "items @ [Inr (EndEvent e)] = xs @ Inl (t, shot) # ys"
  then obtain ys' where "items = xs @ Inl (t, shot) # ys'"
    by (cases ys rule: rev_cases) auto
  then show "set (frame_ids shot) \<subseteq> Some ` (stored \<union> set (item_images xs))"
    using assms unfolding images_first_def by blast
qed

subsection \<open>The finished file\<close>

text \<open>
  C26: a recording that ended without an error holds, after its header line, the lines of what it
  recorded: the frames and events of its jobs in their order, of all of them unless it reached
  its size limit, and the end.  Every frame and image in it is one a reader takes, and every image
  has its event once, before the first frame that names it.
\<close>

theorem finished_file:
  assumes env: "env_ok env" and jobs: "quiet jobs" "\<forall>t r. EndJob t r \<notin> set jobs"
    and run: "run_writer env dropped (jobs @ [EndJob t reason]) (new_writer header max_bytes)
      = (Some outcome, w)" "\<not> out_error outcome"
  shows "\<exists>js rest t items. jobs = js @ rest \<and> (out_reason outcome \<noteq> MaxBytes \<longrightarrow> rest = []) \<and>
    items = items_from env js (new_writer header max_bytes)
      @ [Inr (EndEvent \<lparr>end_t = t, end_why = out_reason outcome, end_totals = out_totals outcome\<rparr>)] \<and>
    w_file w = header @ NEWLINE # lines_of (env_serialize env)
      (record_events (env_unicode env) items (new_encoder KEYFRAME_INTERVAL_MS)) \<and>
    (\<forall>item \<in> set items. recorded_ok (env_unicode env) item) \<and> images_first {} items"
proof -
  define w0 where "w0 = new_writer header max_bytes"
  have w0: "w_encoder w0 = new_encoder KEYFRAME_INTERVAL_MS" "w_file w0 = header @ [NEWLINE]"
    "shown_stored (enc_previous (w_encoder w0)) (w_images w0)" "store_named (w_images w0)"
    "is_stored (w_images w0) = {}"
    by (simp_all add: w0_def new_writer_def new_encoder_def shown_stored_def store_named_def)
  obtain js rest t1 where js: "jobs = js @ rest" "out_reason outcome \<noteq> MaxBytes \<longrightarrow> rest = []"
    "w_file w = w_file w0 @ lines_of (env_serialize env)
      (record_events (env_unicode env)
         (items_from env js w0
           @ [Inr (EndEvent \<lparr>end_t = t1, end_why = out_reason outcome, end_totals = out_totals outcome\<rparr>)])
         (w_encoder w0))"
    using run_writer_file [OF env run [folded w0_def] _ w0(3)] jobs(2) by blast
  have "quiet js"
    using jobs(1) by (simp add: js(1) quiet_append)
  then have items: "\<forall>item \<in> set (items_from env js w0). recorded_ok (env_unicode env) item"
    "images_first {} (items_from env js w0)"
    using job_items_ok [OF env _ w0(4)] job_items_images [OF env _ w0(3)] w0(5) by auto
  show ?thesis
    unfolding w0_def [symmetric]
    by (rule exI [of _ js], rule exI [of _ rest], rule exI [of _ t1], rule exI)
      (use js items w0(1,2) in \<open>auto simp: images_first_append_end\<close>)
qed

subsection \<open>Rows\<close>

text \<open>
  C23: applying the changes of a row, each to the row the last one left, gives exactly the row of the new
  capture, run for run: partial changes of several spans included, although the code checks them laid
  all at once.
\<close>

theorem row_changes_reproduce:
  assumes "unicode_ok u" "w < 2 ^ 16" "row_ok u w old" "row_ok u w new"
  shows "fold (\<lambda>change row. apply_change u row change w) (row_diff u y old new w) old = new"
  using assms by (rule row_changes_replay)

subsection \<open>Playing it\<close>

text \<open>A header line that a reader of this version accepts.\<close>

definition header_ok ::
  "(string \<Rightarrow> string option option) \<Rightarrow> (string \<Rightarrow> recording_header option) \<Rightarrow> string \<Rightarrow> bool" where
  "header_ok format_of header_of line \<longleftrightarrow>
     NEWLINE \<notin> set line \<and> length line \<le> MAX_HEADER_LINE \<and>
     format_of (line @ [NEWLINE]) = Some (Some ''rozi-recording'') \<and>
     (\<exists>header. header_of (line @ [NEWLINE]) = Some header \<and>
        hd_version header \<le> RECORDING_VERSION \<and> hd_spans_version header \<le> SPAN_FRAME_VERSION \<and>
        hd_compression header = None \<and> hd_width header * hd_height header \<le> MAX_FRAME_CELLS)"

lemma new_reader_ok:
  assumes "header_ok format_of header_of line"
  shows "\<exists>reader. new_reader format_of header_of (line @ NEWLINE # rest) = Inr reader \<and>
    rd_input reader = rest"
proof -
  have "read_line MAX_HEADER_LINE (line @ NEWLINE # rest) = (False, line @ [NEWLINE], rest)"
    using assms by (intro read_line_line) (simp_all add: header_ok_def)
  then show ?thesis
    using assms by (auto simp: new_reader_def header_ok_def ends_line_def)
qed

text \<open>
  C3: playing a recorded file shows every frame that was recorded, run for run, at its time, each mark
  and meta event on the screen it happened on, and then the end: keyframes, partial row changes and
  the skipped unchanged frames add up to exactly what was recorded.
\<close>

theorem recording_replays:
  assumes u: "unicode_ok u" and items: "\<forall>item \<in> set items. recorded_ok u item"
    and header: "header_ok format_of header_of header"
    and json: "\<forall>e \<in> set (record_events u items (new_encoder interval)). json_ok serialize parse e"
  shows "\<exists>reader.
    new_reader format_of header_of
      (header @ NEWLINE # lines_of serialize (record_events u items (new_encoder interval))) = Inr reader \<and>
    play u parse (new_replay reader) = (expected items None, None)"
proof -
  obtain reader where reader: "new_reader format_of header_of
      (header @ NEWLINE # lines_of serialize (record_events u items (new_encoder interval))) = Inr reader"
    "rd_input reader = lines_of serialize (record_events u items (new_encoder interval))"
    using new_reader_ok [OF header] by blast
  have none: "enc_previous (new_encoder interval) = None"
    by (simp add: new_encoder_def)
  have "play u parse (new_replay reader) = (expected items (enc_previous (new_encoder interval)), None)"
    by (rule play_recorded [OF u items _ json]) (simp_all add: none new_replay_def reader(2))
  then show ?thesis
    using reader(1) none by auto
qed

text \<open>
  C25: a recording cut short anywhere after its header, by a crash or a full disk, reads without an error
  up to its last complete line, and the reader says that it was cut.
\<close>

theorem cut_short_reads:
  assumes header: "header_ok format_of header_of header"
    and json: "\<forall>e \<in> set events. json_ok serialize parse e"
  shows "\<exists>complete rest partial reader reader'. events = complete @ rest \<and>
    take n (lines_of serialize events) = lines_of serialize complete @ partial \<and>
    (rest \<noteq> [] \<longrightarrow> length partial < length (event_line serialize (hd rest))) \<and>
    new_reader format_of header_of (header @ NEWLINE # take n (lines_of serialize events)) = Inr reader \<and>
    read_all parse reader = (complete, None, reader') \<and> rd_truncated reader' = (partial \<noteq> [])"
proof -
  obtain reader where reader: "new_reader format_of header_of
      (header @ NEWLINE # take n (lines_of serialize events)) = Inr reader"
    "rd_input reader = take n (lines_of serialize events)"
    using new_reader_ok [OF header] by blast
  have fresh: "rd_truncated reader = False"
    using reader(1) by (auto simp: new_reader_def split: prod.splits if_splits option.splits)
  then have "reader = \<lparr>rd_input = take n (lines_of serialize events), rd_header = rd_header reader,
      rd_line = rd_line reader, rd_truncated = False\<rparr>"
    using reader(2) by (cases reader) simp
  with read_cut [OF json, of n "rd_header reader" "rd_line reader"] reader(1) show ?thesis
    by metis
qed

subsection \<open>Witnesses\<close>

definition demo_unicode :: unicode where
  "demo_unicode = \<lparr>graphemes = map (\<lambda>c. [c]), str_width = (\<lambda>_. 1)\<rparr>"

lemma demo_unicode_ok: "unicode_ok demo_unicode"
  unfolding unicode_ok_def
proof (intro conjI allI impI ballI)
  fix s pre g h post
  assume "graphemes demo_unicode s = pre @ g # h # post"
  then have "g \<in> set (map (\<lambda>c. [c]) s)" "h \<in> set (map (\<lambda>c. [c]) s)"
    by (simp_all add: demo_unicode_def)
  then show "apart demo_unicode g h"
    by (auto simp: apart_def demo_unicode_def)
next
  fix g s h hs
  assume "graphemes demo_unicode g = [g]"
  then show "graphemes demo_unicode (g @ s) = g # graphemes demo_unicode s"
    by (cases g) (auto simp: demo_unicode_def)
next
  show "concat (graphemes demo_unicode s) = s" for s
    by (induction s) (auto simp: demo_unicode_def)
qed (auto simp: demo_unicode_def apart_def)

definition demo_palette :: span_palette where
  "demo_palette = \<lparr>palette_foreground = ''#fff'', palette_background = ''#000'', palette_ansi = []\<rparr>"

definition demo_image :: span_image where
  "demo_image = \<lparr>image_x = 0, image_y = 0, image_width = 1, image_height = 1, image_pixel_width = 1,
     image_pixel_height = 1, image_fill_cell_box = False, image_z_index = 0, image_underlying_cells = [],
     image_visible = None, image_png = None, image_id = None\<rparr>"

definition demo_run :: "nat \<Rightarrow> string \<Rightarrow> span_run" where
  "demo_run x str = \<lparr>run_x = x, run_width = length str, run_text = str, run_look = DEFAULT_STYLE\<rparr>"

definition demo_frame :: "string \<Rightarrow> span_frame" where
  "demo_frame str = \<lparr>sf_format = ''rozi-spans'', sf_version = 2, sf_width = 10, sf_height = 1,
     sf_palette = demo_palette, sf_cursor = None, sf_rows = [[demo_run 0 str]], sf_images = [demo_image]\<rparr>"

lemma demo_row_ok:
  assumes "str \<noteq> []" "length str \<le> w" "CHR '' '' \<notin> set str"
  shows "row_ok demo_unicode w [demo_run 0 str]"
proof -
  have "text_width demo_unicode (map (\<lambda>c. [c]) str) = length str"
    by (induction str) (auto simp: glyph_width_def demo_unicode_def)
  moreover have "last (map (\<lambda>c. [c]) str) = [last str]"
    using assms(1) by (simp add: last_map)
  moreover have "last str \<noteq> CHR '' ''"
    using assms last_in_set by metis
  ultimately show ?thesis
    using assms
    by (auto simp: row_ok_def demo_run_def demo_unicode_def trimmed_row_def glyph_width_def apart_def)
qed

lemma demo_frame_ok:
  assumes "str \<noteq> []" "length str \<le> 10" "CHR '' '' \<notin> set str"
  shows "frame_ok demo_unicode (demo_frame str)" "check_frame (demo_frame str) = None"
  using demo_row_ok [OF assms]
  by (simp_all add: frame_ok_def demo_frame_def check_frame_def check_image_def demo_image_def
      MAX_FRAME_CELLS_def)

text \<open>A screen that changes once, a mark between, and the end.\<close>

definition demo_end :: recording_end where
  "demo_end = \<lparr>end_t = 9, end_why = Stopped, end_totals = new_totals 0\<rparr>"

definition demo_items :: "recorded list" where
  "demo_items = [Inl (0, demo_frame ''abcdefghij''), Inr (Mark 3 ''m''), Inl (4, demo_frame ''abcdefghij''),
     Inl (5, demo_frame ''Xbcdefghij''), Inr (EndEvent demo_end)]"

definition demo_delta :: frame_delta where
  "demo_delta = frame_diff demo_unicode (demo_frame ''abcdefghij'') (demo_frame ''Xbcdefghij'') 5"

lemma demo_events: "record_events demo_unicode demo_items (new_encoder KEYFRAME_INTERVAL_MS)
  = [Keyframe 0 (demo_frame ''abcdefghij''), Mark 3 ''m'', Delta demo_delta, EndEvent demo_end]"
  by (simp add: demo_items_def new_encoder_def encode_def keyframe_def KEYFRAME_INTERVAL_MS_def
      MAX_DELTAS_PER_KEYFRAME_def demo_frame_def demo_run_def demo_delta_def)

definition demo_serialize :: "recording_event \<Rightarrow> string" where
  "demo_serialize e = (case e of Keyframe t frame \<Rightarrow> ''k'' | Mark t label \<Rightarrow> ''m'' | Delta delta \<Rightarrow> ''d''
     | EndEvent end' \<Rightarrow> ''e'' | _ \<Rightarrow> ''x'')"

definition demo_parse :: "string \<Rightarrow> recording_event option" where
  "demo_parse line = (if line = ''k'' @ [NEWLINE] then Some (Keyframe 0 (demo_frame ''abcdefghij''))
     else if line = ''m'' @ [NEWLINE] then Some (Mark 3 ''m'')
     else if line = ''d'' @ [NEWLINE] then Some (Delta demo_delta)
     else if line = ''e'' @ [NEWLINE] then Some (EndEvent demo_end) else None)"

lemma demo_json_ok:
  "\<forall>e \<in> set (record_events demo_unicode demo_items (new_encoder KEYFRAME_INTERVAL_MS)).
     json_ok demo_serialize demo_parse e"
  unfolding demo_events
  by (simp add: json_ok_def demo_serialize_def demo_parse_def event_line_def is_ascii_whitespace_def
      MAX_EVENT_LINE_def)

definition demo_header :: recording_header where
  "demo_header = \<lparr>hd_format = ''rozi-recording'', hd_version = 1, hd_rozi = ''1'',
     hd_target = PaneTarget ''dev'' 1, hd_width = 10, hd_height = 1, hd_started_at = 0, hd_max_fps = 30,
     hd_keyframe_interval = 10000, hd_spans_version = 2, hd_palette = demo_palette,
     hd_compression = None\<rparr>"

lemma demo_header_ok: "header_ok (\<lambda>_. Some (Some ''rozi-recording'')) (\<lambda>_. Some demo_header) ''h''"
  by (simp add: header_ok_def demo_header_def RECORDING_VERSION_def SPAN_FRAME_VERSION_def
      MAX_FRAME_CELLS_def MAX_HEADER_LINE_def)

lemma demo_items_ok: "\<forall>item \<in> set demo_items. recorded_ok demo_unicode item"
  using demo_frame_ok [of "''abcdefghij''"] demo_frame_ok [of "''Xbcdefghij''"]
  by (simp add: demo_items_def)

theorem recording_replays_witness:
  "\<exists>reader.
    new_reader (\<lambda>_. Some (Some ''rozi-recording'')) (\<lambda>_. Some demo_header)
      (''h'' @ NEWLINE # lines_of demo_serialize
         [Keyframe 0 (demo_frame ''abcdefghij''), Mark 3 ''m'', Delta demo_delta, EndEvent demo_end])
      = Inr reader \<and>
    play demo_unicode demo_parse (new_replay reader) =
      ([(StepFrame 0, Some (demo_frame ''abcdefghij'')), (StepMark 3 ''m'', Some (demo_frame ''abcdefghij'')),
        (StepFrame 5, Some (demo_frame ''Xbcdefghij'')), (StepEnd demo_end, Some (demo_frame ''Xbcdefghij''))],
       None)"
proof -
  have "expected demo_items None =
      [(StepFrame 0, Some (demo_frame ''abcdefghij'')), (StepMark 3 ''m'', Some (demo_frame ''abcdefghij'')),
       (StepFrame 5, Some (demo_frame ''Xbcdefghij'')), (StepEnd demo_end, Some (demo_frame ''Xbcdefghij''))]"
    by (simp add: demo_items_def demo_frame_def demo_run_def)
  then show ?thesis
    using recording_replays [OF demo_unicode_ok demo_items_ok demo_header_ok demo_json_ok]
    unfolding demo_events by simp
qed

theorem cut_short_reads_witness:
  "\<exists>complete rest partial reader reader'.
    [Keyframe 0 (demo_frame ''abcdefghij''), Mark 3 ''m'', Delta demo_delta, EndEvent demo_end]
      = complete @ rest \<and>
    take 5 (''k'' @ NEWLINE # ''m'' @ NEWLINE # ''d'' @ NEWLINE # ''e'' @ [NEWLINE])
      = lines_of demo_serialize complete @ partial \<and>
    read_all demo_parse reader = (complete, None, reader') \<and> rd_truncated reader' = (partial \<noteq> [])"
  using cut_short_reads [OF demo_header_ok demo_json_ok [unfolded demo_events], of 5]
  by (auto simp: demo_serialize_def event_line_def)

text \<open>A recording of a screen with an image, shown twice and marked, written and ended.\<close>

definition demo_env_image :: "nat recorder_env" where
  "demo_env_image = \<lparr>env_unicode = demo_unicode,
     env_images = (\<lambda>_. [\<lparr>ci_buffer = 7, ci_width = 1, ci_height = 1, ci_rgba = ''rgba''\<rparr>]),
     env_span_frame = (\<lambda>_. Some (demo_frame ''abcdefghij'')),
     env_png_base64 = (\<lambda>_. Some ''png''), env_sha256 = (\<lambda>_. ''0123456789abcdef''),
     env_serialize = demo_serialize, env_disk = (\<lambda>_ _. None)\<rparr>"

lemma demo_env_image_ok: "env_ok demo_env_image"
  using demo_frame_ok [of "''abcdefghij''"] demo_unicode_ok
  by (simp add: env_ok_def demo_env_image_def MAX_IMAGE_BYTES_def) (simp add: demo_frame_def)

definition demo_run_jobs :: "nat job list" where
  "demo_run_jobs = [FrameJob 0 0, EventJob (Mark 3 ''m''), FrameJob 5 0]"

lemma demo_run_finishes:
  "map_option out_error (fst (run_writer demo_env_image 0 (demo_run_jobs @ [EndJob 9 Stopped])
     (new_writer ''h'' 70000))) = Some False"
  by (simp add: demo_run_jobs_def demo_env_image_def write_job_def write_frame_def write_event_def
      write_events_def write_end_def store_frame_def image_name_def new_writer_def new_totals_def
      new_encoder_def encode_def keyframe_def demo_serialize_def event_line_def END_RESERVE_def
      is_mark_def demo_frame_def demo_image_def Let_def lines_of_def)

theorem finished_file_witness:
  "\<exists>outcome w js rest items. run_writer demo_env_image 0 (demo_run_jobs @ [EndJob 9 Stopped])
      (new_writer ''h'' 70000) = (Some outcome, w) \<and> demo_run_jobs = js @ rest \<and>
    w_file w = ''h'' @ NEWLINE # lines_of demo_serialize
      (record_events demo_unicode items (new_encoder KEYFRAME_INTERVAL_MS)) \<and> images_first {} items"
proof -
  define run where "run = run_writer demo_env_image 0 (demo_run_jobs @ [EndJob 9 Stopped]) (new_writer ''h'' 70000)"
  obtain outcome where "fst run = Some outcome" "\<not> out_error outcome"
    using demo_run_finishes by (auto simp: run_def [symmetric])
  then have run: "run_writer demo_env_image 0 (demo_run_jobs @ [EndJob 9 Stopped])
      (new_writer ''h'' 70000) = (Some outcome, snd run)" "\<not> out_error outcome"
    unfolding run_def by (simp_all add: prod_eq_iff)
  have "quiet demo_run_jobs" "\<forall>t r. EndJob t r \<notin> set demo_run_jobs"
    by (simp_all add: demo_run_jobs_def)
  from finished_file [OF demo_env_image_ok this run] obtain js rest items where
    "demo_run_jobs = js @ rest" "images_first {} items"
    "w_file (snd run) = ''h'' @ NEWLINE # lines_of (env_serialize demo_env_image)
      (record_events (env_unicode demo_env_image) items (new_encoder KEYFRAME_INTERVAL_MS))"
    by blast
  moreover have "env_serialize demo_env_image = demo_serialize" "env_unicode demo_env_image = demo_unicode"
    by (simp_all add: demo_env_image_def)
  ultimately show ?thesis
    using run(1) by auto
qed

text \<open>Two cells far apart: two partial changes, the row of forty columns kept.\<close>

definition demo_old :: "span_run list" where
  "demo_old = [demo_run 0 ''abcdefghijklmnopqrstuvwxyz0123456789abcd'']"

definition demo_new :: "span_run list" where
  "demo_new = [demo_run 0 ''Xbcdefghijklmnopqrstuvwxyz012345678Yabcd'']"

theorem row_changes_reproduce_witness:
  "row_ok demo_unicode 40 demo_old \<and>
   fold (\<lambda>change row. apply_change demo_unicode row change 40)
     (row_diff demo_unicode 3 demo_old demo_new 40) demo_old = demo_new"
proof -
  have ok: "row_ok demo_unicode 40 demo_old" "row_ok demo_unicode 40 demo_new"
    unfolding demo_old_def demo_new_def by (rule demo_row_ok; simp)+
  show ?thesis
    using row_changes_reproduce [OF demo_unicode_ok _ ok, of 3] ok(1) by simp
qed

end
