(* ===== verification/RecordingImages.thy ===== *)
theory RecordingImages
  imports RecordingReader
begin

text \<open>
  The images a replay keeps (\<^verbatim>\<open>Replay::store\<close>, \<^verbatim>\<open>Replay::decode\<close> in \<^verbatim>\<open>src/recording/read.rs\<close>): encoded
  ones up to a budget, the oldest forgotten first, and the decoded pixels of the frame that is drawn,
  up to another.  The bounds hold for every file, whatever it says about its images.  The PNG decoder
  and base64 are parameters.
\<close>

subsection \<open>Decoding\<close>

datatype png_color = PngRgba | PngRgb | PngOther

text \<open>
  What the PNG crate says of a picture: its size, and its pixels once read; \<open>None\<close> where it refuses.
\<close>

record png_reader =
  png_size :: "string \<Rightarrow> (nat \<times> nat) option"
  png_frame :: "string \<Rightarrow> (nat \<times> nat \<times> bool \<times> png_color \<times> string) option"
  base64_decode :: "string \<Rightarrow> string option"

fun rgb_to_rgba :: "string \<Rightarrow> string" where
  "rgb_to_rgba (r # g # b # rest) = r # g # b # CHR 0xFF # rgb_to_rgba rest"
| "rgb_to_rgba _ = []"

definition from_png :: "png_reader \<Rightarrow> string \<Rightarrow> nat \<Rightarrow> decoded_image option" where
  "from_png png bytes max_bytes =
     (case png_size png bytes of
        None \<Rightarrow> None
      | Some (width, height) \<Rightarrow>
          if width * height * 4 > max_bytes then None
          else (case png_frame png bytes of
                  None \<Rightarrow> None
                | Some (width, height, eight, color, buffer) \<Rightarrow>
                    if \<not> eight then None
                    else (case color of
                            PngRgba \<Rightarrow> Some \<lparr>di_width = width, di_height = height, di_rgba = buffer\<rparr>
                          | PngRgb \<Rightarrow> Some \<lparr>di_width = width, di_height = height,
                                            di_rgba = rgb_to_rgba buffer\<rparr>
                          | PngOther \<Rightarrow> None)))"

text \<open>
  The loop of \<^verbatim>\<open>decode\<close> over the ids of a frame: the ids tried, the bytes used, the pixels kept, and an
  image that would not decode.
\<close>

fun decode_ids ::
  "png_reader \<Rightarrow> (string \<rightharpoonup> recorded_image) \<Rightarrow> nat \<Rightarrow> string list \<Rightarrow> string set \<Rightarrow> nat
   \<Rightarrow> (string \<rightharpoonup> decoded_image) \<Rightarrow> recording_error option \<times> (string \<rightharpoonup> decoded_image)" where
  "decode_ids png images budget [] attempted used decoded = (None, decoded)"
| "decode_ids png images budget (name # names) attempted used decoded =
     (if name \<in> attempted \<or> decoded name \<noteq> None
      then decode_ids png images budget names (insert name attempted) used decoded
      else case images name of
        None \<Rightarrow> decode_ids png images budget names (insert name attempted) used decoded
      | Some img \<Rightarrow>
          if used + ri_pixel_width img * ri_pixel_height img * 4 > budget
          then decode_ids png images budget names (insert name attempted) used decoded
          else (case base64_decode png (ri_png img) of
            None \<Rightarrow> (Some (ImageNotDecoded name), decoded)
          | Some bytes \<Rightarrow>
              (case from_png png bytes MAX_IMAGE_BYTES of
                 None \<Rightarrow> (Some (ImageNotDecoded name), decoded)
               | Some picture \<Rightarrow>
                   if used + length (di_rgba picture) > budget
                   then decode_ids png images budget names (insert name attempted) used decoded
                   else decode_ids png images budget names (insert name attempted)
                          (used + length (di_rgba picture)) (decoded(name \<mapsto> picture)))))"

text \<open>The bytes of the decoded images the frame still wants; every one of them is in \<open>names\<close>.\<close>

definition decoded_used :: "string list \<Rightarrow> (string \<rightharpoonup> decoded_image) \<Rightarrow> nat" where
  "decoded_used names decoded =
     sum_list (map (\<lambda>name. case decoded name of Some picture \<Rightarrow> length (di_rgba picture) | None \<Rightarrow> 0)
       (remdups names))"

definition decode :: "png_reader \<Rightarrow> string list \<Rightarrow> replay \<Rightarrow> recording_error option \<times> replay" where
  "decode png names rp =
     (let decoded = rp_decoded rp |` set names
      in case decode_ids png (rp_images rp) (rp_decoded_budget rp) names {}
                (decoded_used names decoded) decoded of
           (error, decoded) \<Rightarrow> (error, rp\<lparr>rp_decoded := decoded\<rparr>))"

definition frame_image_ids :: "span_frame option \<Rightarrow> string list" where
  "frame_image_ids frame =
     (case frame of None \<Rightarrow> [] | Some frame \<Rightarrow> List.map_filter image_id (sf_images frame))"

definition frame_images :: "png_reader \<Rightarrow> replay \<Rightarrow> recording_error option \<times> replay" where
  "frame_images png rp = decode png (frame_image_ids (rp_frame rp)) rp"

subsection \<open>Budgets\<close>

definition retained_sum :: "(string \<rightharpoonup> recorded_image) \<Rightarrow> string list \<Rightarrow> nat" where
  "retained_sum images order = sum_list (map (\<lambda>name. retained_cost (the (images name))) order)"

definition decoded_total :: "(string \<rightharpoonup> decoded_image) \<Rightarrow> nat" where
  "decoded_total decoded = (\<Sum>name \<in> dom decoded. length (di_rgba (the (decoded name))))"

text \<open>
  The images kept are those in the order, each under its own id, what they cost is what is counted,
  and both budgets hold.
\<close>

definition images_kept :: "string list \<Rightarrow> replay \<Rightarrow> bool" where
  "images_kept order rp \<longleftrightarrow>
     distinct order \<and> dom (rp_images rp) = set order \<and>
     (\<forall>name img. rp_images rp name = Some img \<longrightarrow> ri_id img = name) \<and>
     rp_bytes rp = retained_sum (rp_images rp) order \<and>
     rp_budget rp = MAX_RETAINED_IMAGE_BYTES \<and> rp_decoded_budget rp = MAX_DECODED_FRAME_BYTES"

definition replay_ok :: "replay \<Rightarrow> bool" where
  "replay_ok rp \<longleftrightarrow>
     images_kept (rp_order rp) rp \<and> rp_bytes rp \<le> rp_budget rp \<and>
     finite (dom (rp_decoded rp)) \<and> decoded_total (rp_decoded rp) \<le> rp_decoded_budget rp"

lemma decoded_total_remove:
  assumes "finite (dom decoded)"
  shows "decoded_total (decoded(name := None)) \<le> decoded_total decoded"
proof -
  have "decoded_total (decoded(name := None))
      = (\<Sum>n \<in> dom decoded - {name}. length (di_rgba (the (decoded n))))"
    unfolding decoded_total_def by (intro sum.cong) auto
  also have "\<dots> \<le> decoded_total decoded"
    unfolding decoded_total_def by (intro sum_mono2) (use assms in auto)
  finally show ?thesis .
qed

lemma retained_fun_upd: "name \<notin> set order \<Longrightarrow> retained_sum (images(name := v)) order = retained_sum images order"
  by (induction order) (auto simp: retained_sum_def)

lemma retained_append:
  "retained_sum images (order @ [name]) = retained_sum images order + retained_cost (the (images name))"
  by (simp add: retained_sum_def)

lemma forget_oldest_kept:
  assumes "images_kept order rp" "finite (dom (rp_decoded rp))"
    "decoded_total (rp_decoded rp) \<le> rp_decoded_budget rp"
  shows "replay_ok (forget_oldest order rp)"
  using assms
proof (induction order arbitrary: rp)
  case Nil
  then show ?case
    by (simp add: replay_ok_def images_kept_def retained_sum_def)
next
  case (Cons oldest order)
  show ?case
  proof (cases "rp_bytes rp > rp_budget rp")
    case False
    then show ?thesis
      using Cons.prems by (simp add: replay_ok_def images_kept_def)
  next
    case True
    have "oldest \<in> dom (rp_images rp)"
      using Cons.prems(1) by (simp add: images_kept_def)
    then obtain img where img: "rp_images rp oldest = Some img"
      by auto
    define rp1 where "rp1 = rp\<lparr>rp_images := (rp_images rp)(oldest := None),
      rp_bytes := rp_bytes rp - retained_cost img, rp_decoded := (rp_decoded rp)(oldest := None)\<rparr>"
    have "images_kept order rp1"
      using Cons.prems(1) img
      by (simp add: images_kept_def rp1_def retained_fun_upd) (simp add: retained_sum_def)
    moreover have "finite (dom (rp_decoded rp1))"
      unfolding rp1_def using Cons.prems(2) by simp
    moreover have "decoded_total (rp_decoded rp1) \<le> rp_decoded_budget rp1"
      using decoded_total_remove [OF Cons.prems(2), of oldest] Cons.prems(3) by (simp add: rp1_def)
    ultimately have "replay_ok (forget_oldest order rp1)"
      by (rule Cons.IH)
    then show ?thesis
      using True img by (simp add: rp1_def)
  qed
qed

lemma store_replay_ok:
  assumes "replay_ok rp" "store img rp = (error, rp')"
  shows "replay_ok rp'"
proof -
  define rp1 where "rp1 = rp\<lparr>rp_bytes := rp_bytes rp + retained_cost img,
    rp_order := rp_order rp @ [ri_id img], rp_images := (rp_images rp)(ri_id img \<mapsto> img)\<rparr>"
  show ?thesis
  proof (cases "length (ri_id img) > MAX_IMAGE_ID_LEN \<or>
      ri_pixel_width img * ri_pixel_height img * 4 > MAX_IMAGE_BYTES \<or> rp_images rp (ri_id img) \<noteq> None")
    case True
    then have "rp' = rp"
      using assms(2) unfolding store_def by (elim disjE) (simp_all only: if_True if_False prod.inject split: if_splits)
    then show ?thesis using assms(1) by simp
  next
    case False
    then have rp': "rp' = forget_oldest (rp_order rp @ [ri_id img]) rp1"
      using assms(2) unfolding store_def rp1_def by (simp only: de_Morgan_disj if_False prod.inject)
    have new: "ri_id img \<notin> set (rp_order rp)"
      using assms(1) False by (auto simp: replay_ok_def images_kept_def)
    have kept: "images_kept (rp_order rp) rp"
      using assms(1) by (simp add: replay_ok_def)
    have "images_kept (rp_order rp @ [ri_id img]) rp1"
      using kept new
      by (simp add: images_kept_def rp1_def retained_append retained_fun_upd)
    moreover have "finite (dom (rp_decoded rp1))" "decoded_total (rp_decoded rp1) \<le> rp_decoded_budget rp1"
      using assms(1) by (simp_all add: replay_ok_def rp1_def)
    ultimately show ?thesis
      unfolding rp' by (rule forget_oldest_kept)
  qed
qed

lemma replay_event_ok:
  assumes "replay_ok rp" "replay_event u e rp = (out, rp')"
  shows "replay_ok rp'"
proof -
  define rp1 where "rp1 = (case event_time e of
      Some t \<Rightarrow> rp\<lparr>rp_last_t := max (rp_last_t rp) t\<rparr> | None \<Rightarrow> rp)"
  have rp1: "replay_ok rp1"
    using assms(1) by (auto simp: rp1_def replay_ok_def images_kept_def split: option.splits)
  have frame: "replay_ok (rp1\<lparr>rp_frame := frame\<rparr>)" for frame
    using rp1 by (simp add: replay_ok_def images_kept_def)
  show ?thesis
  proof (cases e)
    case (ImageEvent img)
    then show ?thesis
      using assms(2) store_replay_ok [OF rp1, of img]
      by (auto simp: replay_event_def rp1_def split: prod.splits option.splits)
  qed (use assms(2) rp1 frame in
    \<open>auto simp: replay_event_def rp1_def Let_def split: option.splits prod.splits if_splits\<close>)
qed

lemma step_keeps_ok: "replay_ok rp \<Longrightarrow> replay_ok (snd (step u parse rp))"
proof (induction u parse rp rule: step.induct)
  case (1 u parse rp)
  obtain res rd where read: "next_event parse (rp_reader rp) = (res, rd)"
    by (cases "next_event parse (rp_reader rp)") auto
  have rd: "replay_ok (rp\<lparr>rp_reader := rd\<rparr>)"
    using 1(2) by (simp add: replay_ok_def images_kept_def)
  show ?case
  proof (cases res)
    case (Inl error)
    then show ?thesis using read rd by (subst step.simps) simp
  next
    case (Inr event)
    show ?thesis
    proof (cases event)
      case None
      then show ?thesis using read rd Inr by (subst step.simps) simp
    next
      case (Some e)
      then have e: "next_event parse (rp_reader rp) = (Inr (Some e), rd)"
        using read Inr by simp
      obtain out rp1 where out: "replay_event u e (rp\<lparr>rp_reader := rd\<rparr>) = (out, rp1)"
        by (cases "replay_event u e (rp\<lparr>rp_reader := rd\<rparr>)") auto
      have rp1: "replay_ok rp1"
        by (rule replay_event_ok [OF rd out])
      show ?thesis
      proof (cases out)
        case None
        have "step u parse rp = step u parse rp1"
          using e out None by (subst step.simps) simp
        then show ?thesis
          using 1(1) [OF e [symmetric] refl refl out [symmetric, unfolded None] refl rp1] by simp
      next
        case (Some result)
        then show ?thesis
          using e out rp1 by (subst step.simps) simp
      qed
    qed
  qed
qed

lemma decoded_total_insert:
  assumes "finite (dom decoded)" "decoded name = None"
  shows "decoded_total (decoded(name \<mapsto> picture)) = length (di_rgba picture) + decoded_total decoded"
proof -
  have "(\<Sum>n \<in> dom decoded. length (di_rgba (the ((decoded(name \<mapsto> picture)) n))))
      = (\<Sum>n \<in> dom decoded. length (di_rgba (the (decoded n))))"
    using assms(2) by (intro sum.cong) auto
  then show ?thesis
    using assms by (simp add: decoded_total_def domIff)
qed

lemma decode_ids_budget:
  assumes "finite (dom decoded)" "used = decoded_total decoded" "used \<le> budget"
    and "decode_ids png images budget names attempted used decoded = (error, decoded')"
  shows "finite (dom decoded') \<and> decoded_total decoded' \<le> budget"
  using assms
proof (induction names arbitrary: attempted used decoded)
  case Nil
  then show ?case by simp
next
  case (Cons name names)
  have skip: ?case
    if "decode_ids png images budget names (insert name attempted) used decoded = (error, decoded')"
    using Cons.IH [OF Cons.prems(1-3) that] .
  have keep: ?case if "decoded name = None" "used + length (di_rgba picture) \<le> budget"
    "decode_ids png images budget names (insert name attempted)
       (used + length (di_rgba picture)) (decoded(name \<mapsto> picture)) = (error, decoded')" for picture
  proof -
    have "finite (dom (decoded(name \<mapsto> picture)))"
      using Cons.prems(1) by simp
    moreover have "used + length (di_rgba picture) = decoded_total (decoded(name \<mapsto> picture))"
      unfolding decoded_total_insert [OF Cons.prems(1) that(1)] using Cons.prems(2) by simp
    ultimately show ?thesis
      by (rule Cons.IH [OF _ _ that(2,3)])
  qed
  show ?case
    using Cons.prems skip keep
    by (auto simp: not_less split: if_splits option.splits)
qed

lemma decoded_used_total:
  assumes "dom decoded \<subseteq> set names"
  shows "decoded_used names decoded = decoded_total decoded"
proof -
  have "decoded_used names decoded = (\<Sum>name \<in> set names.
      case decoded name of Some picture \<Rightarrow> length (di_rgba picture) | None \<Rightarrow> 0)"
    unfolding decoded_used_def by (subst sum_list_distinct_conv_sum_set) simp_all
  also have "\<dots> = (\<Sum>name \<in> dom decoded.
      case decoded name of Some picture \<Rightarrow> length (di_rgba picture) | None \<Rightarrow> 0)"
    using assms by (intro sum.mono_neutral_right) (auto split: option.splits)
  also have "\<dots> = decoded_total decoded"
    unfolding decoded_total_def by (intro sum.cong) (auto split: option.splits)
  finally show ?thesis .
qed

lemma decoded_total_restrict:
  assumes "finite (dom decoded)"
  shows "decoded_total (decoded |` A) \<le> decoded_total decoded"
proof -
  have "decoded_total (decoded |` A) = (\<Sum>n \<in> dom decoded \<inter> A. length (di_rgba (the (decoded n))))"
    unfolding decoded_total_def by (intro sum.cong) auto
  also have "\<dots> \<le> decoded_total decoded"
    unfolding decoded_total_def by (intro sum_mono2) (use assms in auto)
  finally show ?thesis .
qed

lemma decode_ok:
  assumes "replay_ok rp"
  shows "replay_ok (snd (decode png names rp))"
proof -
  define decoded where "decoded = rp_decoded rp |` set names"
  have d: "finite (dom decoded)" "decoded_total decoded \<le> rp_decoded_budget rp" "dom decoded \<subseteq> set names"
    using assms decoded_total_restrict [of "rp_decoded rp" "set names"]
    by (auto simp: decoded_def replay_ok_def)
  obtain error decoded' where res: "decode_ids png (rp_images rp) (rp_decoded_budget rp) names {}
      (decoded_used names decoded) decoded = (error, decoded')"
    by (cases "decode_ids png (rp_images rp) (rp_decoded_budget rp) names {}
      (decoded_used names decoded) decoded")
  from decode_ids_budget [OF d(1) decoded_used_total [OF d(3)] _ res] show ?thesis
    using assms d(2) decoded_used_total [OF d(3)] res
    by (simp add: decode_def decoded_def [symmetric] replay_ok_def images_kept_def)
qed

text \<open>Stepping through a recording and decoding the images of its frames, in any order.\<close>

datatype replay_op = Step | Draw "string list"

fun do_replay ::
  "unicode \<Rightarrow> (string \<Rightarrow> recording_event option) \<Rightarrow> png_reader \<Rightarrow> replay_op \<Rightarrow> replay \<Rightarrow> replay" where
  "do_replay u parse png Step rp = snd (step u parse rp)"
| "do_replay u parse png (Draw names) rp = snd (decode png names rp)"

lemma replay_budgets: "replay_ok (fold (do_replay u parse png) ops (new_replay reader))"
proof -
  have "replay_ok (fold (do_replay u parse png) ops rp)" if "replay_ok rp" for rp
    using that
  proof (induction ops arbitrary: rp)
    case (Cons op ops)
    then show ?case by (cases op) (simp_all add: step_keeps_ok decode_ok)
  qed simp
  moreover have "replay_ok (new_replay reader)"
    by (simp add: replay_ok_def images_kept_def new_replay_def retained_sum_def decoded_total_def)
  ultimately show ?thesis by blast
qed

text \<open>
  C28: stepping through a recording and drawing its frames, in any order and whatever the file holds,
  never keeps more than \<^verbatim>\<open>MAX_RETAINED_IMAGE_BYTES\<close> of encoded images nor more than
  \<^verbatim>\<open>MAX_DECODED_FRAME_BYTES\<close> of decoded ones.
\<close>

theorem replay_within_budgets:
  "let rp = fold (do_replay u parse png) ops (new_replay reader)
   in retained_sum (rp_images rp) (rp_order rp) \<le> MAX_RETAINED_IMAGE_BYTES \<and>
      dom (rp_images rp) = set (rp_order rp) \<and> distinct (rp_order rp) \<and>
      finite (dom (rp_decoded rp)) \<and> decoded_total (rp_decoded rp) \<le> MAX_DECODED_FRAME_BYTES"
  using replay_budgets [of u parse png ops reader]
  by (auto simp: Let_def replay_ok_def images_kept_def)

end
