(* ===== verification/Playback.thy ===== *)
theory Playback
  imports Recording RecordingImages
begin

text \<open>
  When each frame of a recording is shown (\<^verbatim>\<open>src/recording/play.rs\<close>): the cues of a playback from a
  starting point.  A cue carries the recorded frame, drawn as in \<^verbatim>\<open>src/recording/frame.rs\<close>; the
  panics of the code are the error \<open>Panicked\<close>.  An error ends the playback: its callers stop there, and
  the state the code leaves behind it is not modelled.
\<close>

subsection \<open>Playback\<close>

datatype seek = SeekTime nat | SeekMark string

datatype cue = Show nat span_frame | Hold nat

datatype playback_error = ReplayError recording_error | TooShort nat nat | NoMark string | Panicked

record playback =
  pb_replay :: replay
  pb_seek :: "seek option"
  pb_start :: "nat option"
  pb_before :: "span_frame option"
  pb_cues :: "cue list"
  pb_finished :: bool

definition new_playback :: "replay \<Rightarrow> seek option \<Rightarrow> playback" where
  "new_playback rp seek =
     \<lparr>pb_replay = rp, pb_seek = seek,
      pb_start = (if seek = None \<or> seek = Some (SeekTime 0) then Some 0 else None),
      pb_before = None, pb_cues = [], pb_finished = False\<rparr>"

text \<open>\<^verbatim>\<open>self.replay.captured(&frame)?\<close> and the cue it makes.\<close>

definition show_cue ::
  "png_reader \<Rightarrow> nat \<Rightarrow> span_frame \<Rightarrow> playback \<Rightarrow> playback_error + playback" where
  "show_cue png pos frame pb =
     (case decode png (frame_image_ids (Some frame)) (pb_replay pb) of
        (Some error, rp) \<Rightarrow> Inl (ReplayError error)
      | (None, rp) \<Rightarrow> Inr (pb\<lparr>pb_replay := rp, pb_cues := pb_cues pb @ [Show pos frame]\<rparr>))"

definition begin_at :: "png_reader \<Rightarrow> nat \<Rightarrow> playback \<Rightarrow> playback_error + playback" where
  "begin_at png t pb =
     (let before = pb_before pb; pb = pb\<lparr>pb_start := Some t, pb_before := None\<rparr>
      in case before of None \<Rightarrow> Inr pb | Some frame \<Rightarrow> show_cue png 0 frame pb)"

definition show_frame :: "png_reader \<Rightarrow> nat \<Rightarrow> nat \<Rightarrow> playback \<Rightarrow> playback_error + playback" where
  "show_frame png t start pb =
     (case rp_frame (pb_replay pb) of
        None \<Rightarrow> Inl Panicked
      | Some frame \<Rightarrow> show_cue png (t - start) frame pb)"

definition on_frame :: "png_reader \<Rightarrow> nat \<Rightarrow> playback \<Rightarrow> playback_error + playback" where
  "on_frame png t pb =
     (case pb_start pb of
        Some start \<Rightarrow> show_frame png t start pb
      | None \<Rightarrow>
          (case pb_seek pb of
             Some (SeekTime pos) \<Rightarrow>
               if t > pos
               then (case begin_at png pos pb of Inl error \<Rightarrow> Inl error | Inr pb \<Rightarrow> show_frame png t pos pb)
               else Inr (pb\<lparr>pb_before := rp_frame (pb_replay pb)\<rparr>)
           | _ \<Rightarrow> Inr (pb\<lparr>pb_before := rp_frame (pb_replay pb)\<rparr>)))"

definition finish_playback :: "png_reader \<Rightarrow> nat option \<Rightarrow> playback \<Rightarrow> playback_error + playback" where
  "finish_playback png end' pb =
     (let pb = pb\<lparr>pb_finished := True\<rparr>;
          end' = (case end' of Some t \<Rightarrow> t | None \<Rightarrow> rp_last_t (pb_replay pb))
      in case (case pb_start pb of
                 Some start \<Rightarrow> Inr pb
               | None \<Rightarrow>
                   (case pb_seek pb of
                      Some (SeekTime pos) \<Rightarrow> if pos \<le> end' then begin_at png pos pb else Inl (TooShort end' pos)
                    | Some (SeekMark label) \<Rightarrow> Inl (NoMark label)
                    | None \<Rightarrow> Inl Panicked)) of
           Inl error \<Rightarrow> Inl error
         | Inr pb \<Rightarrow>
             (case pb_start pb of
                None \<Rightarrow> Inl Panicked
              | Some start \<Rightarrow> Inr (pb\<lparr>pb_cues := pb_cues pb @ [Hold (end' - start)]\<rparr>)))"

definition on_step :: "png_reader \<Rightarrow> replay_step option \<Rightarrow> playback \<Rightarrow> playback_error + playback" where
  "on_step png st pb =
     (case st of
        None \<Rightarrow> finish_playback png None pb
      | Some (StepFrame t) \<Rightarrow> on_frame png t pb
      | Some (StepMark t label) \<Rightarrow>
          if pb_start pb = None \<and> pb_seek pb = Some (SeekMark label) then begin_at png t pb else Inr pb
      | Some (StepEnd end') \<Rightarrow> finish_playback png (Some (end_t end')) pb
      | Some (StepMeta t meta) \<Rightarrow> Inr pb)"

lemma decode_reader [simp]: "rp_reader (snd (decode png names rp)) = rp_reader rp"
  by (simp add: decode_def Let_def split_beta)

lemma show_cue_reader:
  "show_cue png pos frame pb = Inr pb' \<Longrightarrow> rp_reader (pb_replay pb') = rp_reader (pb_replay pb) \<and>
     pb_finished pb' = pb_finished pb"
  by (auto simp: show_cue_def split: prod.splits option.splits) (metis decode_reader snd_conv)

lemma begin_at_reader:
  "begin_at png t pb = Inr pb' \<Longrightarrow> rp_reader (pb_replay pb') = rp_reader (pb_replay pb) \<and>
     pb_finished pb' = pb_finished pb"
  by (auto simp: begin_at_def Let_def split: option.splits dest: show_cue_reader)

lemma on_step_reader:
  assumes "on_step png st pb = Inr pb'"
  shows "rp_reader (pb_replay pb') = rp_reader (pb_replay pb) \<and>
    (pb_finished pb' \<or> (pb_finished pb' = pb_finished pb \<and> st \<noteq> None))"
  using assms
  by (auto simp: on_step_def on_frame_def show_frame_def finish_playback_def Let_def
      split: option.splits replay_step.splits seek.splits sum.splits if_splits
      dest!: show_cue_reader begin_at_reader)

text \<open>The loop of \<^verbatim>\<open>next_cue\<close>.\<close>

function next_cue ::
  "unicode \<Rightarrow> (string \<Rightarrow> recording_event option) \<Rightarrow> png_reader \<Rightarrow> playback
   \<Rightarrow> (playback_error + cue option) \<times> playback" where
  "next_cue u parse png pb =
     (case pb_cues pb of
        cue # cues \<Rightarrow> (Inr (Some cue), pb\<lparr>pb_cues := cues\<rparr>)
      | [] \<Rightarrow>
          if pb_finished pb then (Inr None, pb)
          else (case step u parse (pb_replay pb) of
                  (Inl error, rp) \<Rightarrow> (Inl (ReplayError error), pb\<lparr>pb_replay := rp\<rparr>)
                | (Inr st, rp) \<Rightarrow>
                    (case on_step png st (pb\<lparr>pb_replay := rp\<rparr>) of
                       Inl error \<Rightarrow> (Inl error, pb\<lparr>pb_replay := rp\<rparr>)
                     | Inr pb \<Rightarrow> next_cue u parse png pb)))"
  by pat_completeness auto
termination
proof (relation "measure (\<lambda>(u, parse, png, pb).
    if pb_finished pb then 0 else Suc (length (rd_input (rp_reader (pb_replay pb)))))")
  fix u :: unicode and parse :: "string \<Rightarrow> recording_event option" and png :: png_reader
    and pb pb' :: playback and res rp st
  assume cond: "\<not> pb_finished pb" "(res, rp) = step u parse (pb_replay pb)" "res = Inr st"
    "on_step png st (pb\<lparr>pb_replay := rp\<rparr>) = Inr pb'"
  have "rp_reader (pb_replay pb') = rp_reader rp \<and> (pb_finished pb' \<or> st \<noteq> None)"
    using on_step_reader [OF cond(4)] by auto
  moreover have "length (rd_input (rp_reader rp)) < length (rd_input (rp_reader (pb_replay pb)))"
    if "st \<noteq> None"
    using that step_shorter cond(2,3) by (metis not_None_eq)
  ultimately show "((u, parse, png, pb'), (u, parse, png, pb))
      \<in> measure (\<lambda>(u, parse, png, pb).
          if pb_finished pb then 0 else Suc (length (rd_input (rp_reader (pb_replay pb)))))"
    using cond(1) by auto
qed simp

declare next_cue.simps [simp del]

subsection \<open>The replay below\<close>

text \<open>Decoding images for a cue does not change what the replay goes on to say.\<close>

lemma forget_oldest_decoded:
  "\<exists>d'. forget_oldest order (rp\<lparr>rp_decoded := d\<rparr>) = (forget_oldest order rp)\<lparr>rp_decoded := d'\<rparr>"
proof (induction order arbitrary: rp d)
  case Nil
  show ?case by (rule exI [of _ d]) simp
next
  case (Cons oldest order)
  show ?case
  proof (cases "rp_bytes rp > rp_budget rp")
    case False
    then show ?thesis by (intro exI [of _ d]) simp
  next
    case True
    define rp1 where "rp1 = (case rp_images rp oldest of
        Some forgotten \<Rightarrow> rp\<lparr>rp_images := (rp_images rp)(oldest := None),
                             rp_bytes := rp_bytes rp - retained_cost forgotten\<rparr>
      | None \<Rightarrow> rp)"
    have "forget_oldest (oldest # order) rp = forget_oldest order (rp1\<lparr>rp_decoded := (rp_decoded rp1)(oldest := None)\<rparr>)"
      using True by (simp add: rp1_def Let_def)
    moreover have "forget_oldest (oldest # order) (rp\<lparr>rp_decoded := d\<rparr>)
        = forget_oldest order (rp1\<lparr>rp_decoded := d(oldest := None)\<rparr>)"
      using True by (cases "rp_images rp oldest") (simp_all add: rp1_def Let_def)
    moreover define rp2 where "rp2 = rp1\<lparr>rp_decoded := (rp_decoded rp1)(oldest := None)\<rparr>"
    moreover obtain d' where "forget_oldest order (rp2\<lparr>rp_decoded := d(oldest := None)\<rparr>)
        = (forget_oldest order rp2)\<lparr>rp_decoded := d'\<rparr>"
      using Cons.IH by blast
    moreover have "rp2\<lparr>rp_decoded := d(oldest := None)\<rparr> = rp1\<lparr>rp_decoded := d(oldest := None)\<rparr>"
      by (simp add: rp2_def)
    ultimately show ?thesis by metis
  qed
qed

lemma store_decoded:
  "\<exists>d'. store img (rp\<lparr>rp_decoded := d\<rparr>) = (fst (store img rp), (snd (store img rp))\<lparr>rp_decoded := d'\<rparr>)"
proof -
  define rp1 where "rp1 = rp\<lparr>rp_bytes := rp_bytes rp + retained_cost img,
    rp_order := rp_order rp @ [ri_id img], rp_images := (rp_images rp)(ri_id img \<mapsto> img)\<rparr>"
  have rp1: "(rp\<lparr>rp_decoded := d\<rparr>)\<lparr>rp_bytes := rp_bytes rp + retained_cost img,
    rp_order := rp_order rp @ [ri_id img], rp_images := (rp_images rp)(ri_id img \<mapsto> img)\<rparr> = rp1\<lparr>rp_decoded := d\<rparr>"
    by (simp add: rp1_def)
  obtain d' where d': "forget_oldest (rp_order rp @ [ri_id img]) (rp1\<lparr>rp_decoded := d\<rparr>)
      = (forget_oldest (rp_order rp @ [ri_id img]) rp1)\<lparr>rp_decoded := d'\<rparr>"
    using forget_oldest_decoded by blast
  have same: "rp_order (rp\<lparr>rp_decoded := d\<rparr>) = rp_order rp" "rp_bytes (rp\<lparr>rp_decoded := d\<rparr>) = rp_bytes rp"
    "rp_images (rp\<lparr>rp_decoded := d\<rparr>) = rp_images rp"
    by simp_all
  show ?thesis
    unfolding store_def same rp1 rp1_def [symmetric] d'
    by (cases "length (ri_id img) > MAX_IMAGE_ID_LEN \<or>
        ri_pixel_width img * ri_pixel_height img * 4 > MAX_IMAGE_BYTES \<or> rp_images rp (ri_id img) \<noteq> None")
      (auto intro: exI [of _ d] exI [of _ d'])
qed

lemma replay_event_decoded:
  "\<exists>d'. replay_event u e (rp\<lparr>rp_decoded := d\<rparr>)
     = (fst (replay_event u e rp), (snd (replay_event u e rp))\<lparr>rp_decoded := d'\<rparr>)"
proof -
  define rp1 where "rp1 = (case event_time e of
      Some t \<Rightarrow> rp\<lparr>rp_last_t := max (rp_last_t rp) t\<rparr> | None \<Rightarrow> rp)"
  have rp1: "(case event_time e of
      Some t \<Rightarrow> (rp\<lparr>rp_decoded := d\<rparr>)\<lparr>rp_last_t := max (rp_last_t (rp\<lparr>rp_decoded := d\<rparr>)) t\<rparr>
    | None \<Rightarrow> rp\<lparr>rp_decoded := d\<rparr>) = rp1\<lparr>rp_decoded := d\<rparr>"
    by (simp add: rp1_def split: option.splits)
  show ?thesis
  proof (cases e)
    case (ImageEvent img)
    then have rp1': "rp1 = rp\<lparr>rp_last_t := max (rp_last_t rp) (ri_t img)\<rparr>"
      by (simp add: rp1_def)
    have event: "replay_event u e rp0 = (case store img rp2 of
        (Some error, rp) \<Rightarrow> (Some (Inl error), rp) | (None, rp) \<Rightarrow> (None, rp))"
      if "rp2 = rp0\<lparr>rp_last_t := max (rp_last_t rp0) (ri_t img)\<rparr>" for rp0 rp2
      using that by (simp add: replay_event_def ImageEvent)
    obtain d' where d': "store img (rp1\<lparr>rp_decoded := d\<rparr>) = (fst (store img rp1), (snd (store img rp1))\<lparr>rp_decoded := d'\<rparr>)"
      using store_decoded by blast
    have "replay_event u e (rp\<lparr>rp_decoded := d\<rparr>) = (case store img (rp1\<lparr>rp_decoded := d\<rparr>) of
        (Some error, rp) \<Rightarrow> (Some (Inl error), rp) | (None, rp) \<Rightarrow> (None, rp))"
      by (rule event) (simp add: rp1')
    then show ?thesis
      unfolding event [OF rp1'] d'
      by (cases "fst (store img rp1)") (auto simp: split_beta)
  next
    case (Delta delta)
    show ?thesis
      unfolding replay_event_def Let_def rp1 rp1_def [symmetric] Delta
      by (intro exI [of _ d]) (auto split: option.splits prod.splits)
  next
    case (Keyframe t frame)
    show ?thesis
      unfolding replay_event_def Let_def rp1 rp1_def [symmetric] Keyframe
      by (intro exI [of _ d]) (auto split: option.splits)
  qed (unfold replay_event_def Let_def rp1 rp1_def [symmetric], auto intro!: exI [of _ d])
qed

lemma step_decoded:
  "\<exists>d'. step u parse (rp\<lparr>rp_decoded := d\<rparr>) = (fst (step u parse rp), (snd (step u parse rp))\<lparr>rp_decoded := d'\<rparr>)"
proof (induction u parse rp arbitrary: d rule: step.induct)
  case (1 u parse rp)
  obtain res rd where read: "next_event parse (rp_reader rp) = (res, rd)"
    by (cases "next_event parse (rp_reader rp)") auto
  consider (error) error where "res = Inl error" | (over) "res = Inr None" | (event) e where "res = Inr (Some e)"
    by (metis not_Some_eq obj_sumE)
  then show ?case
  proof cases
    case error
    then show ?thesis using read by (subst (1 2 3) step.simps) (auto intro!: exI [of _ d])
  next
    case over
    then show ?thesis using read by (subst (1 2 3) step.simps) (auto intro!: exI [of _ d])
  next
    case event
    obtain out rp1 where out: "replay_event u e (rp\<lparr>rp_reader := rd\<rparr>) = (out, rp1)"
      by (cases "replay_event u e (rp\<lparr>rp_reader := rd\<rparr>)") auto
    have "(rp\<lparr>rp_decoded := d\<rparr>)\<lparr>rp_reader := rd\<rparr> = (rp\<lparr>rp_reader := rd\<rparr>)\<lparr>rp_decoded := d\<rparr>"
      by simp
    then obtain d1 where out': "replay_event u e ((rp\<lparr>rp_decoded := d\<rparr>)\<lparr>rp_reader := rd\<rparr>)
        = (out, rp1\<lparr>rp_decoded := d1\<rparr>)"
      using replay_event_decoded [where rp = "rp\<lparr>rp_reader := rd\<rparr>" and d = d] out by (metis fst_conv snd_conv)
    have e: "next_event parse (rp_reader rp) = (Inr (Some e), rd)"
      using read event by simp
    show ?thesis
    proof (cases out)
      case None
      have "step u parse rp = step u parse rp1"
        using e out None by (subst step.simps) simp
      moreover have "step u parse (rp\<lparr>rp_decoded := d\<rparr>) = step u parse (rp1\<lparr>rp_decoded := d1\<rparr>)"
        using e out' None by (subst step.simps) simp
      ultimately show ?thesis
        using 1 [OF e [symmetric] refl refl out [symmetric, unfolded None] refl, where d = d1] by simp
    next
      case (Some result)
      have "step u parse rp = (result, rp1)"
        using e out Some by (subst step.simps) simp
      moreover have "step u parse (rp\<lparr>rp_decoded := d\<rparr>) = (result, rp1\<lparr>rp_decoded := d1\<rparr>)"
        using e out' Some by (subst step.simps) simp
      ultimately show ?thesis by auto
    qed
  qed
qed

lemma play_decoded: "play u parse (rp\<lparr>rp_decoded := d\<rparr>) = play u parse rp"
proof (induction u parse rp arbitrary: d rule: play.induct)
  case (1 u parse rp)
  obtain res rp1 where step: "step u parse rp = (res, rp1)"
    by (cases "step u parse rp")
  obtain d1 where step': "step u parse (rp\<lparr>rp_decoded := d\<rparr>) = (res, rp1\<lparr>rp_decoded := d1\<rparr>)"
    using step_decoded [where rp = rp and d = d] step by (metis fst_conv snd_conv)
  consider (error) error where "res = Inl error" | (over) "res = Inr None" | (go) st where "res = Inr (Some st)"
    by (metis not_Some_eq obj_sumE)
  then show ?case
  proof cases
    case go
    then show ?thesis
      using 1 [OF step [unfolded go, symmetric] refl refl, where d = d1] step step'
      by (subst (1 2) play.simps) simp
  qed (use step step' in \<open>subst (1 2) play.simps, simp\<close>)+
qed

subsection \<open>What a playback yields\<close>

text \<open>The results of calling \<^verbatim>\<open>next_cue\<close> \<open>n\<close> times.\<close>

primrec calls ::
  "unicode \<Rightarrow> (string \<Rightarrow> recording_event option) \<Rightarrow> png_reader \<Rightarrow> nat \<Rightarrow> playback
   \<Rightarrow> (playback_error + cue option) list" where
  "calls u parse png 0 pb = []"
| "calls u parse png (Suc n) pb =
     (case next_cue u parse png pb of (res, pb) \<Rightarrow> res # calls u parse png n pb)"

definition yields ::
  "unicode \<Rightarrow> (string \<Rightarrow> recording_event option) \<Rightarrow> png_reader \<Rightarrow> playback \<Rightarrow> cue list \<Rightarrow> bool" where
  "yields u parse png pb cues \<longleftrightarrow>
     (\<forall>k. calls u parse png (length cues + k) pb = map (\<lambda>c. Inr (Some c)) cues @ replicate k (Inr None))"

lemma yields_cue:
  assumes "pb_cues pb = c # cs" "yields u parse png (pb\<lparr>pb_cues := cs\<rparr>) cues"
  shows "yields u parse png pb (c # cues)"
  using assms by (simp add: yields_def next_cue.simps [of _ _ _ pb])

lemma yields_done: "pb_cues pb = [] \<Longrightarrow> pb_finished pb \<Longrightarrow> yields u parse png pb []"
proof -
  assume "pb_cues pb = []" "pb_finished pb"
  then have "calls u parse png k pb = replicate k (Inr None)" for k
    by (induction k) (simp_all add: next_cue.simps [of _ _ _ pb])
  then show ?thesis by (simp add: yields_def)
qed

lemma yields_step:
  assumes "pb_cues pb = []" "\<not> pb_finished pb" "step u parse (pb_replay pb) = (Inr st, rp)"
    and "on_step png st (pb\<lparr>pb_replay := rp\<rparr>) = Inr pb'" "yields u parse png pb' cues"
  shows "yields u parse png pb cues"
proof -
  have "next_cue u parse png pb = next_cue u parse png pb'"
    using assms(1-4) by (simp add: next_cue.simps [of _ _ _ pb])
  then have "calls u parse png n pb = calls u parse png n pb'" for n
    by (cases n) simp_all
  then show ?thesis
    using assms(5) by (simp add: yields_def)
qed

lemma play_Cons:
  assumes "play u parse rp = ((st, fr) # steps, error)"
  shows "\<exists>rp1. step u parse rp = (Inr (Some st), rp1) \<and> fr = rp_frame rp1 \<and> play u parse rp1 = (steps, error)"
  using assms
  by (subst (asm) play.simps) (auto split: prod.splits sum.splits option.splits)

text \<open>The frames a replay shows, and whether the images of a frame decode.\<close>

definition frames_of :: "(replay_step \<times> span_frame option) list \<Rightarrow> (nat \<times> span_frame) list" where
  "frames_of steps = concat (map (\<lambda>s. case s of (StepFrame t, Some frame) \<Rightarrow> [(t, frame)] | _ \<Rightarrow> []) steps)"

definition drawable :: "png_reader \<Rightarrow> span_frame \<Rightarrow> bool" where
  "drawable png frame \<longleftrightarrow> (\<forall>rp. fst (decode png (frame_image_ids (Some frame)) rp) = None)"

lemma frames_of_simps [simp]:
  "frames_of [] = []"
  "frames_of ((StepFrame t, Some frame) # steps) = (t, frame) # frames_of steps"
  "frames_of ((StepFrame t, None) # steps) = frames_of steps"
  "frames_of ((StepMark t label, fr) # steps) = frames_of steps"
  "frames_of ((StepMeta t meta, fr) # steps) = frames_of steps"
  "frames_of ((StepEnd e, fr) # steps) = frames_of steps"
  "frames_of (xs @ ys) = frames_of xs @ frames_of ys"
  by (simp_all add: frames_of_def)

lemma show_cue_drawable:
  assumes "drawable png frame"
  shows "\<exists>d. show_cue png t frame pb = Inr (pb\<lparr>pb_replay := (pb_replay pb)\<lparr>rp_decoded := d\<rparr>,
    pb_cues := pb_cues pb @ [Show t frame]\<rparr>)"
proof -
  obtain d where "decode png (frame_image_ids (Some frame)) (pb_replay pb) = (None, (pb_replay pb)\<lparr>rp_decoded := d\<rparr>)"
    using assms by (auto simp: drawable_def decode_def Let_def split_beta)
  then show ?thesis by (auto simp: show_cue_def)
qed

definition ends_with :: "(replay_step \<times> span_frame option) list \<Rightarrow> recording_end \<Rightarrow> bool" where
  "ends_with steps e \<longleftrightarrow>
     (\<exists>body fr more. steps = body @ (StepEnd e, fr) # more \<and> (\<forall>s \<in> set body. \<forall>e. fst s \<noteq> StepEnd e))"

lemma ends_with_Cons:
  "ends_with ((st, fr) # steps) e \<longleftrightarrow> (case st of StepEnd e' \<Rightarrow> e' = e | _ \<Rightarrow> ends_with steps e)"
  by (cases st) (fastforce simp: ends_with_def Cons_eq_append_conv)+

text \<open>The frames before the end, which is where a playback stops.\<close>

fun until_end :: "(replay_step \<times> span_frame option) list \<Rightarrow> (replay_step \<times> span_frame option) list" where
  "until_end [] = []"
| "until_end ((StepEnd e, fr) # steps) = []"
| "until_end (s # steps) = s # until_end steps"

text \<open>Once it has started, a playback shows every frame at its time and holds the last to the end.\<close>

lemma playing:
  assumes "play u parse (pb_replay pb) = (steps, error)" "ends_with steps e"
    and "\<forall>(t, frame) \<in> set (frames_of steps). drawable png frame"
    and "\<forall>(st, fr) \<in> set steps. (\<exists>t. st = StepFrame t) \<longrightarrow> fr \<noteq> None"
    and "pb_start pb = Some start" "pb_cues pb = []" "\<not> pb_finished pb"
  shows "yields u parse png pb
    (map (\<lambda>(t, frame). Show (t - start) frame) (frames_of (until_end steps)) @ [Hold (end_t e - start)])"
  using assms
proof (induction steps arbitrary: pb)
  case Nil
  then show ?case by (simp add: ends_with_def)
next
  case (Cons s steps)
  obtain st fr where s: "s = (st, fr)" by (cases s)
  obtain rp where rp: "step u parse (pb_replay pb) = (Inr (Some st), rp)" "fr = rp_frame rp"
    "play u parse rp = (steps, error)"
    using play_Cons Cons.prems(1) s by blast
  note go = yields_step [OF Cons.prems(6,7) rp(1)]
  have next': "yields u parse png (pb\<lparr>pb_replay := rp\<lparr>rp_decoded := d\<rparr>\<rparr>)
      (map (\<lambda>(t, frame). Show (t - start) frame) (frames_of (until_end steps)) @ [Hold (end_t e - start)])"
    if "\<forall>e. st \<noteq> StepEnd e" for d
  proof (rule Cons.IH)
    show "play u parse (pb_replay (pb\<lparr>pb_replay := rp\<lparr>rp_decoded := d\<rparr>\<rparr>)) = (steps, error)"
      using rp(3) by (simp add: play_decoded)
    show "ends_with steps e"
      using Cons.prems(2) that by (cases st) (auto simp: s ends_with_Cons)
    show "\<forall>(t, frame) \<in> set (frames_of steps). drawable png frame"
      using Cons.prems(3) by (cases st; cases fr) (auto simp: s)
  qed (use Cons.prems(4-7) in \<open>auto simp: s\<close>)
  show ?case
  proof (cases st)
    case (StepFrame t)
    obtain frame where frame: "fr = Some frame"
      using Cons.prems(4) by (auto simp: s StepFrame)
    have "drawable png frame"
      using Cons.prems(3) by (simp add: s StepFrame frame)
    from show_cue_drawable [OF this, of "t - start" "pb\<lparr>pb_replay := rp\<rparr>"]
    obtain d where d: "show_cue png (t - start) frame (pb\<lparr>pb_replay := rp\<rparr>)
        = Inr (pb\<lparr>pb_replay := rp\<lparr>rp_decoded := d\<rparr>, pb_cues := [Show (t - start) frame]\<rparr>)"
      using Cons.prems(6) by auto
    have "rp_frame rp = Some frame"
      using rp(2) frame by simp
    then have handled: "on_step png (Some st) (pb\<lparr>pb_replay := rp\<rparr>)
        = Inr (pb\<lparr>pb_replay := rp\<lparr>rp_decoded := d\<rparr>, pb_cues := [Show (t - start) frame]\<rparr>)"
      using d Cons.prems(5) by (simp add: on_step_def StepFrame on_frame_def show_frame_def)
    have "pb\<lparr>pb_replay := rp\<lparr>rp_decoded := d\<rparr>, pb_cues := [Show (t - start) frame]\<rparr>\<lparr>pb_cues := []\<rparr>
        = pb\<lparr>pb_replay := rp\<lparr>rp_decoded := d\<rparr>\<rparr>"
      using Cons.prems(6) by simp
    then have "yields u parse png (pb\<lparr>pb_replay := rp\<lparr>rp_decoded := d\<rparr>, pb_cues := [Show (t - start) frame]\<rparr>)
        (Show (t - start) frame # map (\<lambda>(t, frame). Show (t - start) frame) (frames_of (until_end steps))
          @ [Hold (end_t e - start)])"
      using next' [of d] StepFrame by (intro yields_cue) auto
    from go [OF handled this] show ?thesis
      by (simp add: s StepFrame frame)
  next
    case (StepEnd e')
    have e': "e' = e"
      using Cons.prems(2) by (simp add: s StepEnd ends_with_Cons)
    have handled: "on_step png (Some st) (pb\<lparr>pb_replay := rp\<rparr>)
        = Inr (pb\<lparr>pb_replay := rp, pb_finished := True, pb_cues := [Hold (end_t e - start)]\<rparr>)"
      using Cons.prems(5,6) by (simp add: on_step_def StepEnd e' finish_playback_def Let_def)
    have "yields u parse png (pb\<lparr>pb_replay := rp, pb_finished := True, pb_cues := [Hold (end_t e - start)]\<rparr>)
        [Hold (end_t e - start)]"
      by (rule yields_cue) (auto intro: yields_done)
    from go [OF handled this] show ?thesis
      by (simp add: s StepEnd)
  next
    case (StepMark t label)
    have "on_step png (Some st) (pb\<lparr>pb_replay := rp\<rparr>) = Inr (pb\<lparr>pb_replay := rp\<rparr>)"
      using Cons.prems(5) by (simp add: on_step_def StepMark)
    from go [OF this] next' [of "rp_decoded rp"] show ?thesis
      by (simp add: s StepMark)
  next
    case (StepMeta t meta)
    have "on_step png (Some st) (pb\<lparr>pb_replay := rp\<rparr>) = Inr (pb\<lparr>pb_replay := rp\<rparr>)"
      by (simp add: on_step_def StepMeta)
    from go [OF this] next' [of "rp_decoded rp"] show ?thesis
      by (simp add: s StepMeta)
  qed
qed

text \<open>A frame step has a frame: the first panic of the code is not reached.\<close>

lemma step_has_frame:
  "step u parse rp = (Inr (Some (StepFrame t)), rp') \<Longrightarrow> rp_frame rp' \<noteq> None"
proof (induction u parse rp rule: step.induct)
  case (1 u parse rp)
  obtain res rd where read: "next_event parse (rp_reader rp) = (res, rd)"
    by (cases "next_event parse (rp_reader rp)") auto
  then obtain e where e: "next_event parse (rp_reader rp) = (Inr (Some e), rd)"
    using 1(2) by (subst (asm) step.simps) (auto split: sum.splits option.splits)
  obtain out rp1 where out: "replay_event u e (rp\<lparr>rp_reader := rd\<rparr>) = (out, rp1)"
    by (cases "replay_event u e (rp\<lparr>rp_reader := rd\<rparr>)") auto
  show ?case
  proof (cases out)
    case None
    have "step u parse rp1 = (Inr (Some (StepFrame t)), rp')"
      using 1(2) e out None by (subst (asm) step.simps) simp
    then show ?thesis
      by (rule 1(1) [OF e [symmetric] refl refl out [symmetric, unfolded None] refl])
  next
    case (Some result)
    have "result = Inr (Some (StepFrame t))" "rp' = rp1"
      using 1(2) e out Some by (subst (asm) step.simps, simp)+
    then show ?thesis
      using out Some
      by (cases e) (auto simp: replay_event_def Let_def split: option.splits prod.splits)
  qed
qed

lemma play_frames:
  "play u parse rp = (steps, error) \<Longrightarrow> (st, fr) \<in> set steps \<Longrightarrow> st = StepFrame t \<Longrightarrow> fr \<noteq> None"
proof (induction steps arbitrary: rp)
  case Nil
  then show ?case by simp
next
  case (Cons s steps)
  obtain st1 fr1 where s: "s = (st1, fr1)" by (cases s)
  obtain rp1 where rp1: "step u parse rp = (Inr (Some st1), rp1)" "fr1 = rp_frame rp1"
    "play u parse rp1 = (steps, error)"
    using play_Cons Cons.prems(1) s by blast
  show ?case
    using Cons.IH [OF rp1(3)] Cons.prems(2,3) rp1(1,2) step_has_frame by (auto simp: s)
qed

text \<open>The screen at the starting point, if one was shown by then.\<close>

definition shown_first :: "span_frame option \<Rightarrow> cue list" where
  "shown_first before = (case before of None \<Rightarrow> [] | Some frame \<Rightarrow> [Show 0 frame])"

lemma begin_at_drawable:
  assumes "\<forall>frame. pb_before pb = Some frame \<longrightarrow> drawable png frame"
  shows "\<exists>d. begin_at png t pb = Inr (pb\<lparr>pb_start := Some t, pb_before := None,
    pb_replay := (pb_replay pb)\<lparr>rp_decoded := d\<rparr>, pb_cues := pb_cues pb @ shown_first (pb_before pb)\<rparr>)"
proof (cases "pb_before pb")
  case None
  then show ?thesis
    by (intro exI [of _ "rp_decoded (pb_replay pb)"]) (simp add: begin_at_def shown_first_def)
next
  case (Some frame)
  then show ?thesis
    using assms show_cue_drawable [of png frame 0 "pb\<lparr>pb_start := Some t, pb_before := None\<rparr>"]
    by (auto simp: begin_at_def shown_first_def Let_def)
qed

lemma yields_cues:
  "pb_cues pb = cs \<Longrightarrow> yields u parse png (pb\<lparr>pb_cues := []\<rparr>) cues \<Longrightarrow> yields u parse png pb (cs @ cues)"
proof (induction cs arbitrary: pb)
  case (Cons c cs)
  have "yields u parse png (pb\<lparr>pb_cues := cs\<rparr>) (cs @ cues)"
    by (rule Cons.IH) (use Cons.prems in simp_all)
  then show ?case
    using Cons.prems(1) by (auto intro: yields_cue)
next
  case Nil
  moreover have "pb\<lparr>pb_cues := []\<rparr> = pb"
    using Nil(1) by (cases pb) simp
  ultimately show ?case by simp
qed

abbreviation later_cues :: "nat \<Rightarrow> recording_end \<Rightarrow> (nat \<times> span_frame) list \<Rightarrow> cue list" where
  "later_cues start e frames \<equiv>
     map (\<lambda>(t, frame). Show (t - start) frame) frames @ [Hold (end_t e - start)]"

text \<open>The start is reached by a frame past it: the pending screen, then that frame and what follows.\<close>

lemma starting:
  assumes "on_step png (Some st) pb = Inr pb'"
    and "pb' = pb\<lparr>pb_start := Some start, pb_before := None, pb_replay := (pb_replay pb)\<lparr>rp_decoded := d\<rparr>,
               pb_cues := cues\<rparr>"
    and play: "play u parse (pb_replay pb) = (steps, error)" "ends_with steps e"
      "\<forall>(t, frame) \<in> set (frames_of steps). drawable png frame"
    and "\<not> pb_finished pb"
  shows "yields u parse png pb' (cues @ later_cues start e (frames_of (until_end steps)))"
proof (rule yields_cues)
  show "pb_cues pb' = cues"
    using assms(2) by simp
  show "yields u parse png (pb'\<lparr>pb_cues := []\<rparr>) (later_cues start e (frames_of (until_end steps)))"
  proof (rule playing)
    show "play u parse (pb_replay (pb'\<lparr>pb_cues := []\<rparr>)) = (steps, error)"
      using play(1) by (simp add: assms(2) play_decoded)
    show "\<forall>(st, fr) \<in> set steps. (\<exists>t. st = StepFrame t) \<longrightarrow> fr \<noteq> None"
      using play_frames [OF play(1)] by blast
  qed (use play assms(2,6) in simp_all)
qed

text \<open>The last of some frames, or the one before them.\<close>

definition latest :: "span_frame option \<Rightarrow> (nat \<times> span_frame) list \<Rightarrow> span_frame option" where
  "latest before frames = (if frames = [] then before else Some (snd (last frames)))"

lemma latest_simps [simp]:
  "latest before [] = before"
  "latest before ((t, frame) # frames) = latest (Some frame) frames"
  by (simp_all add: latest_def)

definition cues_from :: "span_frame option \<Rightarrow> nat \<Rightarrow> recording_end \<Rightarrow> (nat \<times> span_frame) list \<Rightarrow> cue list" where
  "cues_from before pos e frames =
     shown_first (latest before (takeWhile (\<lambda>(t, frame). t \<le> pos) frames))
       @ later_cues pos e (dropWhile (\<lambda>(t, frame). t \<le> pos) frames)"

lemma cues_from_simps:
  "cues_from before pos e [] = shown_first before @ [Hold (end_t e - pos)]"
  "t \<le> pos \<Longrightarrow> cues_from before pos e ((t, frame) # frames) = cues_from (Some frame) pos e frames"
  "\<not> t \<le> pos \<Longrightarrow> cues_from before pos e ((t, frame) # frames)
     = shown_first before @ Show (t - pos) frame # later_cues pos e frames"
  by (simp_all add: cues_from_def)

lemma waiting_end:
  assumes "pb_start pb = None" "pb_seek pb = Some (SeekTime pos)" "pb_cues pb = []" "pos \<le> end_t e"
    and "\<forall>frame. pb_before pb = Some frame \<longrightarrow> drawable png frame"
  shows "\<exists>pb'. on_step png (Some (StepEnd e)) pb = Inr pb' \<and>
    yields u parse png pb' (shown_first (pb_before pb) @ [Hold (end_t e - pos)])"
proof -
  obtain d where d: "begin_at png pos (pb\<lparr>pb_finished := True\<rparr>) = Inr (pb\<lparr>pb_finished := True, pb_start := Some pos,
      pb_before := None, pb_replay := (pb_replay pb)\<lparr>rp_decoded := d\<rparr>, pb_cues := shown_first (pb_before pb)\<rparr>)"
    using begin_at_drawable [of "pb\<lparr>pb_finished := True\<rparr>" png pos] assms(3,5) by auto
  define pb' where "pb' = pb\<lparr>pb_finished := True, pb_start := Some pos, pb_before := None,
    pb_replay := (pb_replay pb)\<lparr>rp_decoded := d\<rparr>,
    pb_cues := shown_first (pb_before pb) @ [Hold (end_t e - pos)]\<rparr>"
  have "on_step png (Some (StepEnd e)) pb = Inr pb'"
    using assms(1,2,4) d by (simp add: on_step_def finish_playback_def Let_def pb'_def)
  moreover have "yields u parse png pb' ((shown_first (pb_before pb) @ [Hold (end_t e - pos)]) @ [])"
    by (rule yields_cues) (simp_all add: pb'_def yields_done)
  ultimately show ?thesis by auto
qed

lemma waiting_start:
  assumes "pb_start pb = None" "pb_seek pb = Some (SeekTime pos)" "pb_cues pb = []" "\<not> pb_finished pb"
    and "pos < t" "rp_frame (pb_replay pb) = Some frame" "drawable png frame"
    and "\<forall>frame. pb_before pb = Some frame \<longrightarrow> drawable png frame"
    and play: "play u parse (pb_replay pb) = (steps, error)" "ends_with steps e"
      "\<forall>(t, frame) \<in> set (frames_of steps). drawable png frame"
  shows "\<exists>pb'. on_step png (Some (StepFrame t)) pb = Inr pb' \<and>
    yields u parse png pb' (shown_first (pb_before pb) @ Show (t - pos) frame
      # later_cues pos e (frames_of (until_end steps)))"
proof -
  obtain d1 where d1: "begin_at png pos pb = Inr (pb\<lparr>pb_start := Some pos, pb_before := None,
      pb_replay := (pb_replay pb)\<lparr>rp_decoded := d1\<rparr>, pb_cues := shown_first (pb_before pb)\<rparr>)"
    using begin_at_drawable [OF assms(8), of pos] assms(3) by auto
  define pb1 where "pb1 = pb\<lparr>pb_start := Some pos, pb_before := None,
    pb_replay := (pb_replay pb)\<lparr>rp_decoded := d1\<rparr>, pb_cues := shown_first (pb_before pb)\<rparr>"
  obtain d2 where d2: "show_cue png (t - pos) frame pb1 = Inr (pb1\<lparr>pb_replay := (pb_replay pb1)\<lparr>rp_decoded := d2\<rparr>,
      pb_cues := pb_cues pb1 @ [Show (t - pos) frame]\<rparr>)"
    using show_cue_drawable [OF assms(7)] by blast
  define pb' where "pb' = pb\<lparr>pb_start := Some pos, pb_before := None,
    pb_replay := (pb_replay pb)\<lparr>rp_decoded := d2\<rparr>,
    pb_cues := shown_first (pb_before pb) @ [Show (t - pos) frame]\<rparr>"
  have handled: "on_step png (Some (StepFrame t)) pb = Inr pb'"
    using assms(1,2,5,6) d1 d2
    by (simp add: on_step_def on_frame_def pb1_def [symmetric] show_frame_def)
      (simp add: pb1_def pb'_def)
  have "yields u parse png pb' ((shown_first (pb_before pb) @ [Show (t - pos) frame])
      @ later_cues pos e (frames_of (until_end steps)))"
    by (rule starting [OF handled pb'_def play assms(4)])
  then show ?thesis
    using handled by auto
qed

lemma waiting:
  assumes "play u parse (pb_replay pb) = (steps, error)" "ends_with steps e"
    and "\<forall>(t, frame) \<in> set (frames_of steps). drawable png frame"
    and "\<forall>frame. pb_before pb = Some frame \<longrightarrow> drawable png frame"
    and "pb_start pb = None" "pb_seek pb = Some (SeekTime pos)" "pb_cues pb = []" "\<not> pb_finished pb"
    and pos: "pos \<le> end_t e"
  shows "yields u parse png pb (cues_from (pb_before pb) pos e (frames_of (until_end steps)))"
  using assms(1-8)
proof (induction steps arbitrary: pb)
  case Nil
  then show ?case by (simp add: ends_with_def)
next
  case (Cons s steps)
  obtain st fr where s: "s = (st, fr)" by (cases s)
  obtain rp where rp: "step u parse (pb_replay pb) = (Inr (Some st), rp)" "fr = rp_frame rp"
    "play u parse rp = (steps, error)"
    using play_Cons Cons.prems(1) s by blast
  define pb1 where "pb1 = pb\<lparr>pb_replay := rp\<rparr>"
  have pb1: "pb_start pb1 = None" "pb_seek pb1 = Some (SeekTime pos)" "pb_cues pb1 = []"
    "\<not> pb_finished pb1" "pb_replay pb1 = rp" "pb_before pb1 = pb_before pb"
    using Cons.prems(5-8) by (simp_all add: pb1_def)
  note go = yields_step [OF Cons.prems(7,8) rp(1), folded pb1_def]
  have rest: "ends_with steps e" "\<forall>(t, frame) \<in> set (frames_of steps). drawable png frame"
    if "\<forall>e. st \<noteq> StepEnd e"
    using Cons.prems(2,3) that by (cases st; cases fr; auto simp: s ends_with_Cons)+
  show ?case
  proof (cases st)
    case (StepFrame t)
    have "fr \<noteq> None"
      using play_frames [OF Cons.prems(1), of st fr t] by (simp add: s StepFrame)
    then obtain frame where frame: "fr = Some frame" "rp_frame rp = Some frame"
      using rp(2) by auto
    have draw: "drawable png frame"
      using Cons.prems(3) by (simp add: s StepFrame frame)
    show ?thesis
    proof (cases "t \<le> pos")
      case True
      have handled: "on_step png (Some st) pb1 = Inr (pb1\<lparr>pb_before := Some frame\<rparr>)"
        using pb1 True frame(2) by (simp add: on_step_def StepFrame on_frame_def)
      have "yields u parse png (pb1\<lparr>pb_before := Some frame\<rparr>)
          (cues_from (pb_before (pb1\<lparr>pb_before := Some frame\<rparr>)) pos e (frames_of (until_end steps)))"
        by (rule Cons.IH) (use rest StepFrame rp(3) draw pb1 in simp_all)
      from go [OF handled this] show ?thesis
        using True by (simp add: s StepFrame frame cues_from_simps)
    next
      case False
      obtain pb' where "on_step png (Some (StepFrame t)) pb1 = Inr pb'"
        "yields u parse png pb' (shown_first (pb_before pb1) @ Show (t - pos) frame
          # later_cues pos e (frames_of (until_end steps)))"
        using waiting_start [of pb1 pos t frame png u parse steps error e] pb1 False frame(2) draw
          Cons.prems(4) rest rp(3) StepFrame by auto
      then show ?thesis
        using go False StepFrame pb1(6) by (simp add: s frame cues_from_simps)
    qed
  next
    case (StepEnd e')
    have e': "e' = e"
      using Cons.prems(2) by (simp add: s StepEnd ends_with_Cons)
    show ?thesis
      using waiting_end [OF pb1(1-3) pos, of png u parse] Cons.prems(4) go pb1(6)
      by (auto simp: s StepEnd e' cues_from_simps)
  next
    case (StepMark t label)
    have "on_step png (Some st) pb1 = Inr pb1"
      using pb1(2) by (simp add: on_step_def StepMark)
    moreover have "yields u parse png pb1 (cues_from (pb_before pb1) pos e (frames_of (until_end steps)))"
      by (rule Cons.IH) (use rest StepMark rp(3) Cons.prems(4) pb1 in simp_all)
    ultimately show ?thesis
      using go pb1(6) by (simp add: s StepMark)
  next
    case (StepMeta t meta)
    have "on_step png (Some st) pb1 = Inr pb1"
      by (simp add: on_step_def StepMeta)
    moreover have "yields u parse png pb1 (cues_from (pb_before pb1) pos e (frames_of (until_end steps)))"
      by (rule Cons.IH) (use rest StepMeta rp(3) Cons.prems(4) pb1 in simp_all)
    ultimately show ?thesis
      using go pb1(6) by (simp add: s StepMeta)
  qed
qed


text \<open>Without a starting point every frame is shown at its time.\<close>

lemma playback_from_start:
  assumes "play u parse rp = (steps, error)" "ends_with steps e"
    and "\<forall>(t, frame) \<in> set (frames_of steps). drawable png frame"
  shows "yields u parse png (new_playback rp None) (later_cues 0 e (frames_of (until_end steps)))"
proof (rule playing)
  show "\<forall>(st, fr) \<in> set steps. (\<exists>t. st = StepFrame t) \<longrightarrow> fr \<noteq> None"
    using play_frames [OF assms(1)] by blast
qed (use assms in \<open>simp_all add: new_playback_def\<close>)

definition demo_replay :: replay where
  "demo_replay = new_replay
     \<lparr>rd_input = lines_of demo_serialize (record_events demo_unicode demo_items (new_encoder KEYFRAME_INTERVAL_MS)),
      rd_header = demo_header, rd_line = 1, rd_truncated = False\<rparr>"

definition demo_png :: png_reader where
  "demo_png = \<lparr>png_size = (\<lambda>_. None), png_frame = (\<lambda>_. None), base64_decode = (\<lambda>_. None)\<rparr>"

lemma demo_drawable: "drawable demo_png (demo_frame str)"
  by (simp add: drawable_def frame_image_ids_def demo_frame_def demo_image_def decode_def
      List.map_filter_simps)


end
